(* ===== verification/Prelude.thy ===== *)
theory Prelude
  imports Main "HOL-Library.Word"
begin

unbundle bit_operations_syntax

text \<open>
  Shared vocabulary of the development: the Rust integer types the media plane uses, the slice
  operations of the standard library that its code calls, and the generic list, option and
  arithmetic lemmas that carry the component proofs.  The locale \<open>wakeup\<close> is the contract of a
  condition that tasks wait for; the shared components interpret it.

  Bytes, PIDs and CRC values are words (\<open>u8\<close>, \<open>u16\<close>, \<open>u32\<close>), so masks and shifts are
  literally the source's.  Sequence numbers, tick counts and lengths (\<open>u64\<close>, \<open>u128\<close>,
  \<open>usize\<close> on a 64-bit target) are natural numbers with the width written out in every
  operation: \<open>checked_add_u64\<close> is \<open>None\<close> on overflow, \<open>saturating_add_u64\<close> stops at the
  maximum, and the bare operators \<open>+\<close> and \<open>-\<close> of the release profile, which has no
  overflow checks, wrap modulo \<open>2 ^ 64\<close>.  A \<open>Duration\<close> and an \<open>Instant\<close> are a number of
  nanoseconds; the clock readings of the code are arguments of the definitions.
\<close>

section \<open>Types\<close>

type_synonym u8 = "8 word"
type_synonym u16 = "16 word"
type_synonym u32 = "32 word"
type_synonym bytes = "u8 list"
type_synonym u64 = nat
type_synonym u128 = nat
type_synonym usize = nat
type_synonym duration = nat
type_synonym instant = nat

section \<open>Fixed-width arithmetic on natural numbers\<close>

abbreviation u64_bound :: nat where
  "u64_bound \<equiv> 18446744073709551616"

abbreviation u64_max :: nat where
  "u64_max \<equiv> 18446744073709551615"

abbreviation u128_bound :: nat where
  "u128_bound \<equiv> 340282366920938463463374607431768211456"

abbreviation i64_max :: int where
  "i64_max \<equiv> 9223372036854775807"

abbreviation i64_min :: int where
  "i64_min \<equiv> - 9223372036854775808"

definition checked_add_u64 :: "u64 \<Rightarrow> u64 \<Rightarrow> u64 option" where
  "checked_add_u64 a b = (if a + b < u64_bound then Some (a + b) else None)"

definition checked_mul_u64 :: "u64 \<Rightarrow> u64 \<Rightarrow> u64 option" where
  "checked_mul_u64 a b = (if a * b < u64_bound then Some (a * b) else None)"

definition checked_add_u128 :: "u128 \<Rightarrow> u128 \<Rightarrow> u128 option" where
  "checked_add_u128 a b = (if a + b < u128_bound then Some (a + b) else None)"

definition checked_mul_u128 :: "u128 \<Rightarrow> u128 \<Rightarrow> u128 option" where
  "checked_mul_u128 a b = (if a * b < u128_bound then Some (a * b) else None)"

definition wrapping_add_u64 :: "u64 \<Rightarrow> u64 \<Rightarrow> u64" where
  "wrapping_add_u64 a b = (a + b) mod u64_bound"

definition wrapping_sub_u64 :: "u64 \<Rightarrow> u64 \<Rightarrow> u64" where
  "wrapping_sub_u64 a b = (a + u64_bound - b) mod u64_bound"

definition saturating_add_u64 :: "u64 \<Rightarrow> u64 \<Rightarrow> u64" where
  "saturating_add_u64 a b = min (a + b) u64_max"

definition saturating_mul_u64 :: "u64 \<Rightarrow> u64 \<Rightarrow> u64" where
  "saturating_mul_u64 a b = min (a * b) u64_max"

text \<open>Natural-number subtraction stops at zero, which is \<open>saturating_sub\<close>.\<close>

abbreviation (input) saturating_sub :: "nat \<Rightarrow> nat \<Rightarrow> nat" where
  "saturating_sub a b \<equiv> a - b"

definition try_u64 :: "nat \<Rightarrow> u64 option" where
  "try_u64 n = (if n < u64_bound then Some n else None)"

definition unwrap_or :: "'a option \<Rightarrow> 'a \<Rightarrow> 'a" where
  "unwrap_or opt d = (case opt of None \<Rightarrow> d | Some x \<Rightarrow> x)"

named_theorems machine_arith \<open>definitions of the fixed-width operations\<close>

declare checked_add_u64_def [machine_arith] checked_mul_u64_def [machine_arith]
  checked_add_u128_def [machine_arith] checked_mul_u128_def [machine_arith]
  saturating_add_u64_def [machine_arith] saturating_mul_u64_def [machine_arith]
  try_u64_def [machine_arith]

lemma wrapping_add_u64_exact [simp]:
  "a + b < u64_bound \<Longrightarrow> wrapping_add_u64 a b = a + b"
  by (simp add: wrapping_add_u64_def)

lemma wrapping_sub_u64_exact [simp]:
  assumes "b \<le> a" and "a < u64_bound"
  shows "wrapping_sub_u64 a b = a - b"
proof -
  have "a + u64_bound - b = (a - b) + u64_bound"
    using assms(1) by simp
  then have "wrapping_sub_u64 a b = (a - b) mod u64_bound"
    unfolding wrapping_sub_u64_def by (metis mod_add_self2)
  with assms show ?thesis by simp
qed

lemma wrapping_add_u64_less [simp]: "wrapping_add_u64 a b < u64_bound"
  by (simp add: wrapping_add_u64_def)

lemma wrapping_sub_u64_less [simp]: "wrapping_sub_u64 a b < u64_bound"
  by (simp add: wrapping_sub_u64_def)

lemma saturating_add_u64_ge [simp]: "a \<le> u64_max \<Longrightarrow> a \<le> saturating_add_u64 a b"
  by (simp add: saturating_add_u64_def)

lemma saturating_add_u64_less [simp]: "saturating_add_u64 a b < u64_bound"
  by (simp add: saturating_add_u64_def)

lemma saturating_add_u64_exact: "a + b \<le> u64_max \<Longrightarrow> saturating_add_u64 a b = a + b"
  by (simp add: saturating_add_u64_def)

lemma checked_add_u64_Some [simp]:
  "checked_add_u64 a b = Some c \<longleftrightarrow> c = a + b \<and> a + b < u64_bound"
  by (auto simp: checked_add_u64_def)

lemma checked_add_u64_None [simp]:
  "checked_add_u64 a b = None \<longleftrightarrow> u64_bound \<le> a + b"
  by (auto simp: checked_add_u64_def)

lemma unwrap_or_simps [simp]:
  "unwrap_or None d = d" "unwrap_or (Some x) d = x"
  by (simp_all add: unwrap_or_def)

section \<open>Slices\<close>

text \<open>
  \<open>slice\<close> is \<open>&xs[off..off + n]\<close> on a range that lies in the slice, \<open>get_range\<close> is
  \<open>xs.get(a..b)\<close>, \<open>chunks_exact\<close> drops an incomplete last chunk, as the library does.
\<close>

definition slice :: "nat \<Rightarrow> nat \<Rightarrow> 'a list \<Rightarrow> 'a list" where
  "slice off n xs = take n (drop off xs)"

definition windows :: "nat \<Rightarrow> 'a list \<Rightarrow> 'a list list" where
  "windows n xs = map (\<lambda>i. slice i n xs) [0..<length xs + 1 - n]"

definition get_at :: "'a list \<Rightarrow> nat \<Rightarrow> 'a option" where
  "get_at xs i = (if i < length xs then Some (xs ! i) else None)"

definition get_range :: "'a list \<Rightarrow> nat \<Rightarrow> nat \<Rightarrow> 'a list option" where
  "get_range xs a b = (if a \<le> b \<and> b \<le> length xs then Some (slice a (b - a) xs) else None)"

function chunks_exact :: "nat \<Rightarrow> 'a list \<Rightarrow> 'a list list" where
  "chunks_exact n xs =
     (if n = 0 \<or> length xs < n then [] else take n xs # chunks_exact n (drop n xs))"
  by pat_completeness auto
termination
  by (relation "measure (\<lambda>(n, xs). length xs)") auto

declare chunks_exact.simps [simp del]

lemma chunks_exact_short [simp]: "length xs < n \<Longrightarrow> chunks_exact n xs = []"
  by (simp add: chunks_exact.simps)

lemma chunks_exact_append [simp]:
  "length c = n \<Longrightarrow> 0 < n \<Longrightarrow> chunks_exact n (c @ xs) = c # chunks_exact n xs"
  by (simp add: chunks_exact.simps [of n "c @ xs"])

lemma chunks_exact_lengths: "c \<in> set (chunks_exact n xs) \<Longrightarrow> length c = n"
proof (induction n xs rule: chunks_exact.induct)
  case (1 n xs)
  then show ?case
    by (subst (asm) chunks_exact.simps) (auto split: if_splits)
qed

lemma concat_chunks_exact:
  "0 < n \<Longrightarrow> concat (chunks_exact n xs) = take (length xs div n * n) xs"
proof (induction n xs rule: chunks_exact.induct)
  case (1 n xs)
  show ?case
  proof (cases "length xs < n")
    case True
    then show ?thesis by simp
  next
    case False
    define k where "k = length (drop n xs) div n"
    have len: "length xs div n = Suc k"
      using False "1.prems" by (simp add: k_def le_div_geq)
    have "concat (chunks_exact n xs) = take n xs @ take (k * n) (drop n xs)"
      using False "1.prems" "1.IH" by (simp add: chunks_exact.simps [of n xs] k_def)
    also have "\<dots> = take (n + k * n) xs"
      by (simp add: take_add)
    finally show ?thesis by (simp add: len)
  qed
qed

lemma length_chunks_exact: "0 < n \<Longrightarrow> length (chunks_exact n xs) = length xs div n"
proof (induction n xs rule: chunks_exact.induct)
  case (1 n xs)
  then show ?case
    by (subst chunks_exact.simps) (auto simp: le_div_geq)
qed

lemma chunks_exact_concat:
  "(\<And>c. c \<in> set cs \<Longrightarrow> length c = n) \<Longrightarrow> 0 < n \<Longrightarrow> chunks_exact n (concat cs) = cs"
  by (induction cs) auto

lemma drop_concat:
  "(\<And>c. c \<in> set cs \<Longrightarrow> length c = n) \<Longrightarrow> drop (k * n) (concat cs) = concat (drop k cs)"
proof (induction cs arbitrary: k)
  case (Cons c cs)
  then show ?case by (cases k) simp_all
qed simp

lemma length_concat_const:
  "(\<And>c. c \<in> set cs \<Longrightarrow> length c = n) \<Longrightarrow> length (concat cs) = length cs * n"
  by (induction cs) simp_all

lemma take_concat:
  assumes "\<And>c. c \<in> set cs \<Longrightarrow> length c = n"
  shows "concat (take k cs) = take (k * n) (concat cs)"
  using assms
proof (induction cs arbitrary: k)
  case (Cons c cs)
  then show ?case by (cases k) simp_all
qed simp

lemma slice_concat:
  assumes "\<And>c. c \<in> set cs \<Longrightarrow> length c = n"
  shows "concat (slice f k cs) = slice (f * n) (k * n) (concat cs)"
proof -
  have "length c = n" if "c \<in> set (drop f cs)" for c using assms in_set_dropD [OF that] by simp
  then have "concat (take k (drop f cs)) = take (k * n) (concat (drop f cs))" by (rule take_concat)
  moreover have "drop (f * n) (concat cs) = concat (drop f cs)" using assms by (rule drop_concat)
  ultimately show ?thesis by (simp add: slice_def)
qed

lemma chunks_exact_append_aligned:
  assumes "0 < n" and "length xs mod n = 0"
  shows "chunks_exact n (xs @ ys) = chunks_exact n xs @ chunks_exact n ys"
  using assms
proof (induction n xs rule: chunks_exact.induct)
  case (1 n xs)
  show ?case
  proof (cases "length xs < n")
    case True
    with "1.prems" have "xs = []" by (cases xs) auto
    with "1.prems"(1) show ?thesis by simp
  next
    case False
    have "length (drop n xs) mod n = 0"
      using False "1.prems" by (simp add: le_mod_geq)
    with False "1.prems" "1.IH"
    have IH: "chunks_exact n (drop n xs @ ys) = chunks_exact n (drop n xs) @ chunks_exact n ys"
      by simp
    have "chunks_exact n (xs @ ys) = take n xs # chunks_exact n (drop n xs @ ys)"
      using False "1.prems"(1) by (simp add: chunks_exact.simps [of n "xs @ ys"])
    with IH False "1.prems"(1) show ?thesis
      by (simp add: chunks_exact.simps [of n xs])
  qed
qed

lemma length_slice [simp]: "length (slice off n xs) = min n (length xs - off)"
  by (simp add: slice_def)

lemma get_range_length: "get_range xs a b = Some ys \<Longrightarrow> length ys = b - a"
  by (auto simp: get_range_def split: if_splits)

section \<open>First match and queue helpers\<close>

text \<open>\<open>find_map\<close> is the iterator's: the first \<open>Some\<close> the function returns.\<close>

fun find_map :: "('a \<Rightarrow> 'b option) \<Rightarrow> 'a list \<Rightarrow> 'b option" where
  "find_map f [] = None"
| "find_map f (x # xs) = (case f x of None \<Rightarrow> find_map f xs | Some y \<Rightarrow> Some y)"

lemma find_map_Some: "find_map f xs = Some y \<Longrightarrow> \<exists>x \<in> set xs. f x = Some y"
  by (induction xs) (auto split: option.splits)

text \<open>\<open>VecDeque\<close> front removal while a condition holds is \<^const>\<open>dropWhile\<close>.\<close>

lemma dropWhile_none: "(\<forall>x \<in> set xs. \<not> P x) \<Longrightarrow> dropWhile P xs = xs"
  by (cases xs) auto

lemma takeWhile_stop: "\<forall>c \<in> set s. P c \<Longrightarrow> \<not> P d \<Longrightarrow> takeWhile P (s @ d # t) = s"
  by (induction s) auto

lemma dropWhile_stop: "\<forall>c \<in> set s. P c \<Longrightarrow> \<not> P d \<Longrightarrow> dropWhile P (s @ d # t) = d # t"
  by (induction s) auto

lemma dropWhile_sorted_filter:
  fixes xs :: "nat list"
  shows "sorted xs \<Longrightarrow> dropWhile (\<lambda>b. b < n) xs = filter (\<lambda>b. n \<le> b) xs"
proof (induction xs)
  case Nil
  show ?case by simp
next
  case (Cons x xs)
  then have "n \<le> x \<Longrightarrow> filter (\<lambda>b. n \<le> b) xs = xs"
    by (intro filter_True) auto
  with Cons show ?case by auto
qed

lemma last_appendR_conv: "ys \<noteq> [] \<Longrightarrow> last (xs @ ys) = last ys"
  by simp

definition lastn :: "nat \<Rightarrow> 'a list \<Rightarrow> 'a list" where
  "lastn n xs = drop (length xs - n) xs"

lemma length_lastn [simp]: "length (lastn n xs) = min n (length xs)"
  by (auto simp: lastn_def)

lemma lastn_all [simp]: "length xs \<le> n \<Longrightarrow> lastn n xs = xs"
  by (simp add: lastn_def)

lemma lastn_lastn_append: "lastn n (lastn n xs @ ys) = lastn n (xs @ ys)"
proof -
  have "lastn n (lastn n xs @ ys) =
      drop (min n (length xs) + length ys - n) (drop (length xs - n) xs @ ys)"
    by (simp add: lastn_def min_def)
  also have "\<dots> = drop (length xs + length ys - n) (xs @ ys)"
    by (cases "length xs \<le> n") (simp_all add: min_def add.commute)
  finally show ?thesis by (simp add: lastn_def)
qed

section \<open>Waking tasks\<close>

text \<open>
  The contract of a condition that tasks wait for with \<open>Notify\<close>: the counter of notifications
  never decreases, and a step that does not move it only changes what the waiting task looks at
  upward in the order \<open>le\<close> (equality where nothing may change).  A waiter that found nothing to
  do therefore finds nothing better until the counter has moved.
\<close>

locale wakeup =
  fixes ok :: "'s \<Rightarrow> bool" and step :: "'s \<Rightarrow> 's \<Rightarrow> bool"
    and version :: "'s \<Rightarrow> nat" and visible :: "'s \<Rightarrow> 'v" and le :: "'v \<Rightarrow> 'v \<Rightarrow> bool"
  assumes le_refl: "le v v"
    and le_trans: "le u v \<Longrightarrow> le v w \<Longrightarrow> le u w"
    and ok_step: "ok s \<Longrightarrow> step s s' \<Longrightarrow> ok s'"
    and version_mono: "ok s \<Longrightarrow> step s s' \<Longrightarrow> version s \<le> version s'"
    and quiet: "ok s \<Longrightarrow> step s s' \<Longrightarrow> version s' = version s \<Longrightarrow> le (visible s) (visible s')"
begin

lemma steps_mono: "step\<^sup>*\<^sup>* s s' \<Longrightarrow> ok s \<Longrightarrow> ok s' \<and> version s \<le> version s'"
  by (induction rule: rtranclp_induct) (auto dest: ok_step version_mono)

lemma no_lost_wakeup:
  assumes "step\<^sup>*\<^sup>* s s'" and "ok s" and "version s' = version s"
  shows "le (visible s) (visible s')"
  using assms
proof (induction rule: rtranclp_induct)
  case (step t u)
  have "ok t" "version s \<le> version t" using steps_mono [OF step.hyps(1) step.prems(1)] by simp_all
  moreover have "version t \<le> version u" using calculation(1) step.hyps(2) by (rule version_mono)
  ultimately have "version t = version s" "version u = version t" using step.prems(2) by simp_all
  with step quiet [OF \<open>ok t\<close> step.hyps(2)] show ?case by (auto intro: le_trans)
qed (rule le_refl)

end

section \<open>Bits of bytes\<close>

lemma bit_u8: "bit (x :: u8) n \<Longrightarrow> n < 8"
  using bit_imp_le_length [of x n] by simp

lemma u8_eqI:
  fixes a b :: u8
  assumes "bit a 0 = bit b 0" "bit a 1 = bit b 1" "bit a 2 = bit b 2" "bit a 3 = bit b 3"
    "bit a 4 = bit b 4" "bit a 5 = bit b 5" "bit a 6 = bit b 6" "bit a 7 = bit b 7"
  shows "a = b"
proof (rule bit_word_eqI)
  fix n assume "n < LENGTH(8)"
  then have "n = 0 \<or> n = 1 \<or> n = 2 \<or> n = 3 \<or> n = 4 \<or> n = 5 \<or> n = 6 \<or> n = 7" by auto
  then show "bit a n = bit b n" using assms by (elim disjE) simp_all
qed

lemma take_bit_word_add:
  "take_bit n (take_bit n x + take_bit n y) = take_bit n (x + y :: 'a::len word)"
  by transfer
    (simp add: take_bit_take_bit, metis (no_types) take_bit_add take_bit_take_bit min.commute)

lemma slice_eqI:
  assumes "length p = length q" "\<And>i. a \<le> i \<Longrightarrow> i < a + n \<Longrightarrow> i < length p \<Longrightarrow> p ! i = q ! i"
  shows "slice a n p = slice a n q"
  using assms by (intro nth_equalityI) (auto simp: slice_def)

lemma get_range_append: "n = length a \<Longrightarrow> k = n + length b \<Longrightarrow> get_range (a @ b @ c) n k = Some b"
  by (simp add: get_range_def slice_def)

end
