(* ===== verification/Crc.thy ===== *)
theory Crc
  imports Prelude
begin

text \<open>
  The MPEG-2 section CRC of \<open>crates/media/src/psi.rs\<close> (\<open>mpeg_crc32\<close>).  One round of the
  inner loop is linear over exclusive or and injective, which gives the two facts the PSI parsers
  rely on: a section that ends with its own big-endian checksum has CRC zero, and two inputs that
  differ only inside four consecutive bytes have different CRCs.
\<close>

section \<open>The checksum\<close>

definition crc_round :: "u32 \<Rightarrow> u32" where
  "crc_round crc =
     (if crc AND 0x80000000 \<noteq> 0 then push_bit 1 crc XOR 0x04c11db7 else push_bit 1 crc)"

definition crc_byte :: "u32 \<Rightarrow> u8 \<Rightarrow> u32" where
  "crc_byte crc byte = (crc_round ^^ 8) (crc XOR push_bit 24 (ucast byte))"

definition mpeg_crc32 :: "bytes \<Rightarrow> u32" where
  "mpeg_crc32 bs = foldl crc_byte 0xffffffff bs"

definition to_be_bytes :: "u32 \<Rightarrow> bytes" where
  "to_be_bytes c = [ucast (drop_bit 24 c), ucast (drop_bit 16 c), ucast (drop_bit 8 c), ucast c]"

section \<open>Rounds are linear and injective\<close>

lemma crc_round_bit: "bit (crc_round x) n \<longleftrightarrow> n < 32 \<and>
   ((0 < n \<and> bit x (n - 1)) \<noteq> (bit x 31 \<and> bit (0x04c11db7 :: u32) n))"
proof -
  have m: "(x AND 0x80000000 \<noteq> 0) = bit x 31"
    using and_exp_eq_0_iff_not_bit [of x 31] by simp
  show ?thesis
    unfolding crc_round_def m
    by (cases "n < 32")
      (auto simp: bit_xor_iff bit_push_bit_iff Suc_le_eq simp del: push_bit_Suc)
qed

lemma crc_round_xor: "crc_round (x XOR y) = crc_round x XOR crc_round y"
  by (rule bit_word_eqI) (auto simp: crc_round_bit bit_xor_iff)

lemma crc_round_inj: "crc_round x = crc_round y \<Longrightarrow> x = y"
proof (rule bit_word_eqI)
  fix n assume eq: "crc_round x = crc_round y" and n: "n < LENGTH(32)"
  have eqb: "bit (crc_round x) k = bit (crc_round y) k" for k
    using eq by simp
  have p0: "bit (0x04c11db7 :: u32) 0" by simp
  have top: "bit x 31 = bit y 31"
    using eqb [of 0] p0 by (simp add: crc_round_bit)
  show "bit x n = bit y n"
  proof (cases "n = 31")
    case True
    with top show ?thesis by simp
  next
    case False
    with n have "Suc n < 32" by simp
    then show ?thesis using eqb [of "Suc n"] top by (auto simp: crc_round_bit)
  qed
qed

lemma crc_round_shift: "\<not> bit x 31 \<Longrightarrow> crc_round x = push_bit 1 x"
  by (rule bit_word_eqI) (simp add: crc_round_bit bit_push_bit_iff Suc_le_eq del: push_bit_Suc)

lemma crc_rounds_shift:
  "(\<And>n. 32 - k \<le> n \<Longrightarrow> \<not> bit x n) \<Longrightarrow> k \<le> 32 \<Longrightarrow> (crc_round ^^ k) x = push_bit k x"
proof (induction k arbitrary: x)
  case 0
  then show ?case by simp
next
  case (Suc k)
  have "(crc_round ^^ k) x = push_bit k x"
    using Suc.prems by (intro Suc.IH) auto
  moreover have "\<not> bit (push_bit k x) 31"
    using Suc.prems by (auto simp: bit_push_bit_iff)
  ultimately show ?case by (simp add: crc_round_shift push_bit_push_bit)
qed

lemma crc_rounds_xor: "(crc_round ^^ k) (x XOR y) = (crc_round ^^ k) x XOR (crc_round ^^ k) y"
  by (induction k) (simp_all add: crc_round_xor)

lemma crc_rounds_inj: "(crc_round ^^ k) x = (crc_round ^^ k) y \<Longrightarrow> x = y"
  by (induction k) (auto dest: crc_round_inj)

lemma crc_byte_self: "crc_byte x (ucast (drop_bit 24 x)) = push_bit 8 x"
proof -
  have "x XOR push_bit 24 (ucast (ucast (drop_bit 24 x) :: u8)) = take_bit 24 x"
    by (rule bit_word_eqI) (auto simp: bit_simps)
  moreover have "(crc_round ^^ 8) (take_bit 24 x) = push_bit 8 (take_bit 24 x)"
    by (rule crc_rounds_shift) (auto simp: bit_take_bit_iff)
  moreover have "push_bit 8 (take_bit 24 x) = push_bit 8 x"
    by (rule bit_word_eqI) (auto simp: bit_simps)
  ultimately show ?thesis by (simp add: crc_byte_def)
qed

lemma crc_append_self: "foldl crc_byte c (to_be_bytes c) = 0"
proof -
  have s: "(ucast (drop_bit 16 c) :: u8) = ucast (drop_bit 24 (push_bit 8 c))"
    "(ucast (drop_bit 8 c) :: u8) = ucast (drop_bit 24 (push_bit 8 (push_bit 8 c)))"
    "(ucast c :: u8) = ucast (drop_bit 24 (push_bit 8 (push_bit 8 (push_bit 8 c))))"
    by (rule bit_word_eqI; auto simp: bit_simps)+
  have "foldl crc_byte c (to_be_bytes c) = push_bit 8 (push_bit 8 (push_bit 8 (push_bit 8 c)))"
    unfolding to_be_bytes_def foldl_Cons foldl_Nil crc_byte_self
    by (simp only: s crc_byte_self)
  also have "\<dots> = 0"
    by (rule bit_word_eqI) (auto simp: bit_simps)
  finally show ?thesis .
qed

lemma bit_u8_less: "bit (b :: u8) n \<Longrightarrow> n < 8"
  using bit_imp_le_length [of b n] by simp

lemma crc_byte_after_rounds:
  assumes "k \<le> 24"
  shows "crc_byte ((crc_round ^^ k) x) b = (crc_round ^^ (8 + k)) (x XOR push_bit (24 - k) (ucast b))"
proof -
  have "(crc_round ^^ k) (push_bit (24 - k) (ucast b)) = push_bit k (push_bit (24 - k) (ucast b))"
    using assms by (intro crc_rounds_shift) (auto simp: bit_simps dest!: bit_u8_less)
  also have "\<dots> = push_bit 24 (ucast b)"
    using assms by (simp add: push_bit_push_bit)
  finally have "crc_byte ((crc_round ^^ k) x) b =
      (crc_round ^^ 8) ((crc_round ^^ k) (x XOR push_bit (24 - k) (ucast b)))"
    by (simp add: crc_byte_def crc_rounds_xor)
  then show ?thesis by (simp only: funpow_add o_apply)
qed

definition be_word :: "u8 \<Rightarrow> u8 \<Rightarrow> u8 \<Rightarrow> u8 \<Rightarrow> u32" where
  "be_word b1 b2 b3 b4 = push_bit 24 (ucast b1) XOR push_bit 16 (ucast b2)
     XOR push_bit 8 (ucast b3) XOR push_bit 0 (ucast b4)"

lemma crc_four_bytes:
  "foldl crc_byte c [b1, b2, b3, b4] = (crc_round ^^ 32) (c XOR be_word b1 b2 b3 b4)"
proof -
  have "foldl crc_byte c [b1, b2, b3, b4] =
      crc_byte (crc_byte (crc_byte (crc_byte ((crc_round ^^ 0) c) b1) b2) b3) b4"
    by simp
  also have "\<dots> = crc_byte (crc_byte (crc_byte ((crc_round ^^ 8)
      (c XOR push_bit 24 (ucast b1))) b2) b3) b4"
    by (subst crc_byte_after_rounds) simp_all
  also have "\<dots> = crc_byte (crc_byte ((crc_round ^^ 16)
      ((c XOR push_bit 24 (ucast b1)) XOR push_bit 16 (ucast b2))) b3) b4"
    by (subst crc_byte_after_rounds) simp_all
  also have "\<dots> = crc_byte ((crc_round ^^ 24)
      (((c XOR push_bit 24 (ucast b1)) XOR push_bit 16 (ucast b2)) XOR push_bit 8 (ucast b3))) b4"
    by (subst crc_byte_after_rounds) simp_all
  also have "\<dots> = (crc_round ^^ 32) ((((c XOR push_bit 24 (ucast b1))
      XOR push_bit 16 (ucast b2)) XOR push_bit 8 (ucast b3)) XOR push_bit 0 (ucast b4))"
    by (subst crc_byte_after_rounds) simp_all
  finally show ?thesis by (simp only: be_word_def xor.assoc)
qed

lemma be_word_bits:
  assumes "n < 8"
  shows "bit (be_word b1 b2 b3 b4) (n + 24) = bit b1 n"
    and "bit (be_word b1 b2 b3 b4) (n + 16) = bit b2 n"
    and "bit (be_word b1 b2 b3 b4) (n + 8) = bit b3 n"
    and "bit (be_word b1 b2 b3 b4) n = bit b4 n"
  using assms unfolding be_word_def bit_xor_iff bit_push_bit_iff bit_ucast_iff
  by (auto dest: bit_u8_less)

lemma be_word_inj:
  assumes "be_word a1 a2 a3 a4 = be_word b1 b2 b3 b4"
  shows "[a1, a2, a3, a4] = [b1, b2, b3, b4]"
proof -
  have "bit a1 n = bit b1 n" "bit a2 n = bit b2 n" "bit a3 n = bit b3 n" "bit a4 n = bit b4 n"
    if "n < 8" for n
    using assms be_word_bits [OF that, of a1 a2 a3 a4] be_word_bits [OF that, of b1 b2 b3 b4]
    by simp_all
  then show ?thesis by (auto intro!: bit_word_eqI)
qed

lemma xor_left_cancel: "(c :: u32) XOR x = c XOR y \<Longrightarrow> x = y"
  by (metis xor.assoc xor_self_eq xor.left_neutral)

lemma crc_byte_inj: "crc_byte c x = crc_byte d x \<Longrightarrow> c = d"
  unfolding crc_byte_def by (metis crc_rounds_inj xor.commute xor_left_cancel)

lemma crc_state_inj: "foldl crc_byte c xs = foldl crc_byte d xs \<Longrightarrow> c = d"
  by (induction xs rule: rev_induct) (auto dest: crc_byte_inj)

lemma crc_burst:
  assumes "mpeg_crc32 (pre @ xs @ post) = mpeg_crc32 (pre @ ys @ post)"
    and "length xs = 4" and "length ys = 4"
  shows "xs = ys"
proof -
  obtain a1 a2 a3 a4 b1 b2 b3 b4 where xs: "xs = [a1, a2, a3, a4]" and ys: "ys = [b1, b2, b3, b4]"
    using assms(2,3) by (auto simp: eval_nat_numeral length_Suc_conv)
  let ?c = "foldl crc_byte 0xffffffff pre"
  have "foldl crc_byte ?c xs = foldl crc_byte ?c ys"
    using assms(1) by (auto simp: mpeg_crc32_def dest: crc_state_inj)
  then have "?c XOR be_word a1 a2 a3 a4 = ?c XOR be_word b1 b2 b3 b4"
    unfolding xs ys crc_four_bytes by (rule crc_rounds_inj)
  then show ?thesis
    unfolding xs ys by (rule be_word_inj [OF xor_left_cancel])
qed
lemma mpeg_crc32_append_self: "mpeg_crc32 (bs @ to_be_bytes (mpeg_crc32 bs)) = 0"
  by (simp add: mpeg_crc32_def crc_append_self)

section \<open>Properties\<close>

text \<open>
  A byte string followed by its own CRC in big-endian order has CRC zero, for every content
  and length.  This is the acceptance test the PAT and PMT parsers apply.
\<close>

theorem crc_self_check: "mpeg_crc32 (bs @ to_be_bytes (mpeg_crc32 bs)) = 0"
  by (rule mpeg_crc32_append_self)

end
