(* ===== verification/Psi.thy ===== *)
theory Psi
  imports Crc
begin

text \<open>
  Program-specific information (\<open>crates/media/src/psi.rs\<close>): the transport packet header, the
  section assembler, the PAT and PMT parsers and the tracker that reports a safe
  PAT/PMT restart point.  A \<open>&mut self\<close> method returns the new state beside its result.

  Main results: the assembler never underflows its remaining
  length and only completes sections of exactly their declared length; the two PMT walks of the
  file agree; the tracker only reports the sequence of a packet it saw on the PAT PID before.
\<close>

section \<open>Packet header\<close>

definition MPEG_TS_PACKET_SIZE :: nat where
  "MPEG_TS_PACKET_SIZE = 188"

definition PAT_PID :: u16 where
  "PAT_PID = 0"

definition PAT_TABLE_ID :: u8 where
  "PAT_TABLE_ID = 0"

definition PMT_TABLE_ID :: u8 where
  "PMT_TABLE_ID = 2"

definition MAX_SECTION_BYTES :: nat where
  "MAX_SECTION_BYTES = 1024"

text \<open>The 13-bit PID and 12-bit length fields, and \<open>u16::from_be_bytes\<close>.\<close>

definition pid_of :: "u8 \<Rightarrow> u8 \<Rightarrow> u16" where
  "pid_of hi lo = push_bit 8 (ucast (hi AND 0x1f)) OR ucast lo"

definition length_of :: "u8 \<Rightarrow> u8 \<Rightarrow> usize" where
  "length_of hi lo = push_bit 8 (unat (hi AND 0x0f)) OR unat lo"

definition u16_be :: "u8 \<Rightarrow> u8 \<Rightarrow> u16" where
  "u16_be hi lo = push_bit 8 (ucast hi) OR ucast lo"

record PacketHeader =
  ph_pid :: u16
  ph_payload_unit_start :: bool
  ph_continuity_counter :: u8
  ph_payload :: bytes

definition packet_header :: "bytes \<Rightarrow> PacketHeader option" where
  "packet_header packet =
     (if length packet \<noteq> MPEG_TS_PACKET_SIZE \<or> packet ! 0 \<noteq> 0x47
         \<or> packet ! 1 AND 0x80 \<noteq> 0 \<or> packet ! 3 AND 0xc0 \<noteq> 0
      then None
      else let adaptation_control = drop_bit 4 (packet ! 3) AND 0x03 in
        if adaptation_control = 0 \<or> adaptation_control = 2 then None
        else let payload_offset =
            (if adaptation_control = 3 then 5 + unat (packet ! 4) else 4) in
          if payload_offset > length packet then None
          else Some \<lparr>ph_pid = pid_of (packet ! 1) (packet ! 2),
            ph_payload_unit_start = (packet ! 1 AND 0x40 \<noteq> 0),
            ph_continuity_counter = packet ! 3 AND 0x0f,
            ph_payload = drop payload_offset packet\<rparr>)"

section \<open>Section assembler\<close>

record SectionAssembler =
  sa_bytes :: bytes
  sa_expected_len :: "usize option"
  sa_start_sequence :: "u64 option"
  sa_last_continuity_counter :: "u8 option"

record CompletedSection =
  cs_bytes :: bytes
  cs_start_sequence :: u64

definition SectionAssembler_default :: SectionAssembler where
  "SectionAssembler_default =
     \<lparr>sa_bytes = [], sa_expected_len = None, sa_start_sequence = None,
      sa_last_continuity_counter = None\<rparr>"

definition sa_clear :: "SectionAssembler \<Rightarrow> SectionAssembler" where
  "sa_clear self = self\<lparr>sa_bytes := [], sa_expected_len := None, sa_start_sequence := None,
     sa_last_continuity_counter := None\<rparr>"

text \<open>
  The tail of \<open>SectionAssembler::observe\<close>: completion once the expected length is reached, and
  before it the absorption of one payload, which also reads the declared section length.  The
  subtraction \<open>expected - self.bytes.len()\<close> is the wrapping one of the release profile.
\<close>

definition sa_complete :: "SectionAssembler \<Rightarrow> SectionAssembler \<times> CompletedSection option" where
  "sa_complete self =
     (case sa_expected_len self of
        None \<Rightarrow> (self, None)
      | Some expected \<Rightarrow>
          if length (sa_bytes self) < expected then (self, None)
          else (case sa_start_sequence self of
              None \<Rightarrow> (self, None)
            | Some start \<Rightarrow>
                (self\<lparr>sa_bytes := [], sa_expected_len := None, sa_start_sequence := None,
                   sa_last_continuity_counter := None\<rparr>,
                 Some \<lparr>cs_bytes = sa_bytes self, cs_start_sequence = start\<rparr>)))"

definition sa_absorb ::
    "SectionAssembler \<Rightarrow> bytes \<Rightarrow> SectionAssembler \<times> CompletedSection option" where
  "sa_absorb self payload =
     (let remaining = (case sa_expected_len self of
            None \<Rightarrow> MAX_SECTION_BYTES
          | Some expected \<Rightarrow> wrapping_sub_u64 expected (length (sa_bytes self)));
          self = self\<lparr>sa_bytes := sa_bytes self @ take (min (length payload) remaining) payload\<rparr>
      in if sa_expected_len self = None \<and> 3 \<le> length (sa_bytes self)
         then let expected = 3 + length_of (sa_bytes self ! 1) (sa_bytes self ! 2) in
           if \<not> (4 \<le> expected \<and> expected \<le> MAX_SECTION_BYTES) then (sa_clear self, None)
           else sa_complete (self\<lparr>sa_expected_len := Some expected,
             sa_bytes := take expected (sa_bytes self)\<rparr>)
         else sa_complete self)"

definition sa_observe ::
    "SectionAssembler \<Rightarrow> PacketHeader \<Rightarrow> u64 \<Rightarrow> SectionAssembler \<times> CompletedSection option"
where
  "sa_observe self header sequence =
     (if ph_payload_unit_start header then
        (case ph_payload header of
           [] \<Rightarrow> (sa_clear self, None)
         | pointer # rest \<Rightarrow>
             if length rest < unat pointer then (sa_clear self, None)
             else sa_absorb ((sa_clear self)\<lparr>sa_start_sequence := Some sequence,
                    sa_last_continuity_counter := Some (ph_continuity_counter header)\<rparr>)
                  (drop (unat pointer) rest))
      else if sa_start_sequence self = None then (self, None)
      else if (case sa_last_continuity_counter self of None \<Rightarrow> True
               | Some previous \<Rightarrow> (previous + 1) AND 0x0f \<noteq> ph_continuity_counter header)
      then (sa_clear self, None)
      else sa_absorb (self\<lparr>sa_last_continuity_counter := Some (ph_continuity_counter header)\<rparr>)
             (ph_payload header))"

section \<open>PAT and PMT parsers\<close>

definition pat_entry :: "bytes \<Rightarrow> (u16 \<times> u16) option" where
  "pat_entry entry =
     (let program_number = u16_be (entry ! 0) (entry ! 1);
          pid = pid_of (entry ! 2) (entry ! 3)
      in if program_number \<noteq> 0 \<and> pid \<noteq> 0 \<and> pid \<noteq> 0x1fff then Some (program_number, pid) else None)"

definition parse_pat :: "bytes \<Rightarrow> (u16 \<times> u16) option" where
  "parse_pat section =
     (if length section < 16 \<or> section ! 0 \<noteq> PAT_TABLE_ID \<or> section ! 1 AND 0x80 = 0
         \<or> section ! 5 AND 0x01 = 0 \<or> mpeg_crc32 section \<noteq> 0
      then None
      else case get_range section 8 (length section - 4) of
          None \<Rightarrow> None
        | Some entries \<Rightarrow>
            if length entries mod 4 \<noteq> 0 then None
            else find_map pat_entry (chunks_exact 4 entries))"

record ElementaryStreamInfo =
  es_stream_type :: u8
  es_pid :: u16

text \<open>
  The \<open>while offset < streams_end\<close> loop of \<open>parse_pmt_elementary_streams\<close>, with the list
  collected so far as an argument.
\<close>

function pmt_stream_loop ::
    "bytes \<Rightarrow> usize \<Rightarrow> usize \<Rightarrow> ElementaryStreamInfo list \<Rightarrow> ElementaryStreamInfo list option"
where
  "pmt_stream_loop section streams_end offset streams =
     (if offset < streams_end then
        (case get_range section offset (offset + 5) of
           None \<Rightarrow> None
         | Some header \<Rightarrow>
             let nxt = offset + 5 + length_of (header ! 3) (header ! 4) in
             if nxt > streams_end then None
             else pmt_stream_loop section streams_end nxt
               (streams @ [\<lparr>es_stream_type = header ! 0,
                            es_pid = pid_of (header ! 1) (header ! 2)\<rparr>]))
      else if offset \<noteq> streams_end then None else Some streams)"
  by pat_completeness auto
termination
  by (relation "measure (\<lambda>(section, streams_end, offset, streams). streams_end - offset)") auto

declare pmt_stream_loop.simps [simp del]

definition parse_pmt_elementary_streams :: "bytes \<Rightarrow> u16 \<Rightarrow> ElementaryStreamInfo list option" where
  "parse_pmt_elementary_streams section expected_program =
     (if length section < 16 \<or> section ! 0 \<noteq> PMT_TABLE_ID \<or> section ! 1 AND 0x80 = 0
         \<or> section ! 5 AND 0x01 = 0 \<or> u16_be (section ! 3) (section ! 4) \<noteq> expected_program
      then None
      else let offset = 12 + length_of (section ! 10) (section ! 11);
               streams_end = length section - 4 in
        if offset > streams_end then None
        else pmt_stream_loop section streams_end offset [])"

function matching_pmt_loop :: "bytes \<Rightarrow> usize \<Rightarrow> usize \<Rightarrow> bool" where
  "matching_pmt_loop section streams_end offset =
     (if offset < streams_end then
        (case get_range section offset (offset + 5) of
           None \<Rightarrow> False
         | Some header \<Rightarrow>
             let nxt = offset + 5 + length_of (header ! 3) (header ! 4) in
             if nxt > streams_end then False else matching_pmt_loop section streams_end nxt)
      else offset = streams_end)"
  by pat_completeness auto
termination
  by (relation "measure (\<lambda>(section, streams_end, offset). streams_end - offset)") auto

declare matching_pmt_loop.simps [simp del]

definition is_matching_pmt :: "bytes \<Rightarrow> u16 \<Rightarrow> bool" where
  "is_matching_pmt section expected_program =
     (if length section < 16 \<or> section ! 0 \<noteq> PMT_TABLE_ID \<or> section ! 1 AND 0x80 = 0
         \<or> section ! 5 AND 0x01 = 0 \<or> u16_be (section ! 3) (section ! 4) \<noteq> expected_program
         \<or> mpeg_crc32 section \<noteq> 0
      then False
      else let offset = 12 + length_of (section ! 10) (section ! 11);
               streams_end = length section - 4 in
        if offset > streams_end then False
        else matching_pmt_loop section streams_end offset)"

section \<open>PAT/PMT tracker\<close>

record PmtCandidate =
  pc_program_number :: u16
  pc_pid :: u16
  pc_pat_start_sequence :: u64
  pc_assembler :: SectionAssembler

record PatPmtTracker =
  tr_pat :: SectionAssembler
  tr_candidate :: "PmtCandidate option"
  tr_last_pmt_section :: "bytes option"
  tr_last_program_number :: "u16 option"

definition PatPmtTracker_default :: PatPmtTracker where
  "PatPmtTracker_default =
     \<lparr>tr_pat = SectionAssembler_default, tr_candidate = None, tr_last_pmt_section = None,
      tr_last_program_number = None\<rparr>"

text \<open>
  \<open>PatPmtTracker::observe\<close> in its two phases: the \<open>if let\<close> chain that may install a new
  candidate, and the candidate's own assembler.
\<close>

definition tr_observe_pat :: "PatPmtTracker \<Rightarrow> PacketHeader \<Rightarrow> u64 \<Rightarrow> PatPmtTracker" where
  "tr_observe_pat self header sequence =
     (if ph_pid header = PAT_PID then
        (let (pat, completed) = sa_observe (tr_pat self) header sequence;
             self = self\<lparr>tr_pat := pat\<rparr>
         in case completed of
              None \<Rightarrow> self
            | Some section \<Rightarrow>
                (case parse_pat (cs_bytes section) of
                   None \<Rightarrow> self
                 | Some (program_number, pid) \<Rightarrow>
                     self\<lparr>tr_candidate := Some \<lparr>pc_program_number = program_number, pc_pid = pid,
                       pc_pat_start_sequence = cs_start_sequence section,
                       pc_assembler = SectionAssembler_default\<rparr>\<rparr>))
      else self)"

definition tr_observe_pmt ::
    "PatPmtTracker \<Rightarrow> PacketHeader \<Rightarrow> u64 \<Rightarrow> PatPmtTracker \<times> u64 option" where
  "tr_observe_pmt self header sequence =
     (case tr_candidate self of
        None \<Rightarrow> (self, None)
      | Some candidate \<Rightarrow>
          if ph_pid header \<noteq> pc_pid candidate then (self, None)
          else let (assembler, completed) =
                  sa_observe (pc_assembler candidate) header sequence;
                self = self\<lparr>tr_candidate := Some (candidate\<lparr>pc_assembler := assembler\<rparr>)\<rparr>
            in case completed of
                 None \<Rightarrow> (self, None)
               | Some section \<Rightarrow>
                   if \<not> is_matching_pmt (cs_bytes section) (pc_program_number candidate)
                   then (self, None)
                   else (self\<lparr>tr_last_pmt_section := Some (cs_bytes section),
                           tr_last_program_number := Some (pc_program_number candidate),
                           tr_candidate := None\<rparr>,
                         Some (pc_pat_start_sequence candidate)))"

definition tr_observe :: "PatPmtTracker \<Rightarrow> bytes \<Rightarrow> u64 \<Rightarrow> PatPmtTracker \<times> u64 option" where
  "tr_observe self packet sequence =
     (case packet_header packet of
        None \<Rightarrow> (self, None)
      | Some header \<Rightarrow> tr_observe_pmt (tr_observe_pat self header sequence) header sequence)"

definition tr_candidate_start :: "PatPmtTracker \<Rightarrow> u64 option" where
  "tr_candidate_start self = map_option pc_pat_start_sequence (tr_candidate self)"

definition tr_completed_pmt :: "PatPmtTracker \<Rightarrow> (bytes \<times> u16) option" where
  "tr_completed_pmt self =
     (case (tr_last_pmt_section self, tr_last_program_number self) of
        (Some section, Some program) \<Rightarrow> Some (section, program)
      | _ \<Rightarrow> None)"

definition tr_pcr_pid :: "PatPmtTracker \<Rightarrow> u16 option" where
  "tr_pcr_pid self =
     (case tr_completed_pmt self of
        None \<Rightarrow> None
      | Some (section, _) \<Rightarrow>
          (case (get_at section 8, get_at section 9) of
             (Some high, Some low) \<Rightarrow>
               if pid_of high low \<noteq> 0x1fff then Some (pid_of high low) else None
           | _ \<Rightarrow> None))"

definition tr_reset :: "PatPmtTracker \<Rightarrow> PatPmtTracker" where
  "tr_reset self = PatPmtTracker_default"

section \<open>Assembler invariant\<close>

text \<open>
  A completed section has exactly the length its header declares.  Between packets the assembler
  either does not know the length yet and holds fewer than three bytes, or holds fewer bytes than
  it expects, so the remaining length is positive.
\<close>

definition section_wf :: "bytes \<Rightarrow> bool" where
  "section_wf bs \<longleftrightarrow> 4 \<le> length bs \<and> length bs \<le> MAX_SECTION_BYTES \<and>
     length bs = 3 + length_of (bs ! 1) (bs ! 2)"

definition sa_inv :: "SectionAssembler \<Rightarrow> bool" where
  "sa_inv self \<longleftrightarrow>
     (case sa_expected_len self of
        None \<Rightarrow> length (sa_bytes self) < 3
      | Some e \<Rightarrow> 4 \<le> e \<and> e \<le> MAX_SECTION_BYTES \<and> 3 \<le> length (sa_bytes self) \<and>
          length (sa_bytes self) < e \<and>
          e = 3 + length_of (sa_bytes self ! 1) (sa_bytes self ! 2)) \<and>
     (sa_start_sequence self = None \<longrightarrow> sa_bytes self = [] \<and> sa_expected_len self = None)"

lemma sa_inv_default [simp]: "sa_inv SectionAssembler_default"
  by (simp add: sa_inv_def SectionAssembler_default_def)

lemma sa_inv_clear [simp]: "sa_inv (sa_clear self)"
  by (simp add: sa_inv_def sa_clear_def)

lemma sa_clear_simps [simp]:
  "sa_bytes (sa_clear self) = []" "sa_expected_len (sa_clear self) = None"
  "sa_start_sequence (sa_clear self) = None" "sa_last_continuity_counter (sa_clear self) = None"
  by (simp_all add: sa_clear_def)

lemma sa_inv_continuity [simp]:
  "sa_inv (self\<lparr>sa_last_continuity_counter := cc\<rparr>) = sa_inv self"
  by (simp add: sa_inv_def split: option.splits)

definition sa_post :: "u64 \<Rightarrow> SectionAssembler \<times> CompletedSection option \<Rightarrow> bool" where
  "sa_post st res \<longleftrightarrow> sa_inv (fst res) \<and> sa_start_sequence (fst res) \<in> {None, Some st} \<and>
     (\<forall>c. snd res = Some c \<longrightarrow> section_wf (cs_bytes c) \<and> cs_start_sequence c = st \<and>
        sa_start_sequence (fst res) = None)"

lemma sa_complete_unknown:
  assumes "sa_start_sequence self = Some st" and "sa_expected_len self = None"
    and "length (sa_bytes self) < 3"
  shows "sa_post st (sa_complete self)"
  using assms by (simp add: sa_complete_def sa_post_def sa_inv_def)

lemma sa_complete_known:
  assumes "sa_start_sequence self = Some st" and "sa_expected_len self = Some e"
    and "4 \<le> e" and "e \<le> MAX_SECTION_BYTES" and "3 \<le> length (sa_bytes self)"
    and "length (sa_bytes self) \<le> e"
    and "e = 3 + length_of (sa_bytes self ! 1) (sa_bytes self ! 2)"
  shows "sa_post st (sa_complete self)"
  using assms by (auto simp: sa_complete_def sa_post_def sa_inv_def section_wf_def)

lemma sa_absorb_post:
  assumes inv: "sa_inv self" and start: "sa_start_sequence self = Some st"
  shows "sa_post st (sa_absorb self payload)"
proof (cases "sa_expected_len self")
  case None
  define bs where "bs = sa_bytes self @ take (min (length payload) MAX_SECTION_BYTES) payload"
  define e where "e = 3 + length_of (bs ! 1) (bs ! 2)"
  have absorb: "sa_absorb self payload =
      (if 3 \<le> length bs
       then if \<not> (4 \<le> e \<and> e \<le> MAX_SECTION_BYTES) then (sa_clear (self\<lparr>sa_bytes := bs\<rparr>), None)
         else sa_complete (self\<lparr>sa_bytes := bs, sa_expected_len := Some e, sa_bytes := take e bs\<rparr>)
       else sa_complete (self\<lparr>sa_bytes := bs\<rparr>))"
    using None by (simp add: sa_absorb_def Let_def bs_def e_def)
  consider "\<not> 3 \<le> length bs" | "3 \<le> length bs" "\<not> (4 \<le> e \<and> e \<le> MAX_SECTION_BYTES)"
    | "3 \<le> length bs" "4 \<le> e" "e \<le> MAX_SECTION_BYTES"
    by blast
  then show ?thesis
  proof cases
    case 1
    with None start have "sa_post st (sa_complete (self\<lparr>sa_bytes := bs\<rparr>))"
      by (intro sa_complete_unknown) simp_all
    with 1 show ?thesis by (simp add: absorb)
  next
    case 2
    then have "sa_absorb self payload = (sa_clear (self\<lparr>sa_bytes := bs\<rparr>), None)"
      unfolding absorb by simp
    then show ?thesis by (simp add: sa_post_def)
  next
    case 3
    have "sa_post st (sa_complete
        (self\<lparr>sa_bytes := bs, sa_expected_len := Some e, sa_bytes := take e bs\<rparr>))"
      using 3 start by (intro sa_complete_known [of _ _ e]) (simp_all add: e_def)
    with 3 show ?thesis unfolding absorb by simp
  qed
next
  case (Some e)
  with inv have e: "4 \<le> e" "e \<le> MAX_SECTION_BYTES" "3 \<le> length (sa_bytes self)"
    "length (sa_bytes self) < e" "e = 3 + length_of (sa_bytes self ! 1) (sa_bytes self ! 2)"
    by (simp_all add: sa_inv_def)
  then have rem: "wrapping_sub_u64 e (length (sa_bytes self)) = e - length (sa_bytes self)"
    by (intro wrapping_sub_u64_exact) (simp_all add: MAX_SECTION_BYTES_def)
  let ?bs = "sa_bytes self @ take (min (length payload) (e - length (sa_bytes self))) payload"
  have "sa_absorb self payload = sa_complete (self\<lparr>sa_bytes := ?bs\<rparr>)"
    using Some by (simp add: sa_absorb_def Let_def rem)
  moreover have "sa_post st \<dots>"
    using Some start e by (intro sa_complete_known [of _ _ e]) (simp_all add: nth_append)
  ultimately show ?thesis by simp
qed

lemma sa_observe_cases:
  assumes inv: "sa_inv self"
  obtains (idle) "sa_observe self header q = (self, None)" "\<not> ph_payload_unit_start header"
      "sa_start_sequence self = None"
    | (cleared) "sa_observe self header q = (sa_clear self, None)"
    | (absorbed) st where "sa_post st (sa_observe self header q)"
      "if ph_payload_unit_start header then st = q else sa_start_sequence self = Some st"
proof (cases "ph_payload_unit_start header")
  case True
  show ?thesis
  proof (cases "case ph_payload header of [] \<Rightarrow> True | pointer # rest \<Rightarrow> length rest < unat pointer")
    case bad: True
    with True have "sa_observe self header q = (sa_clear self, None)"
      by (auto simp: sa_observe_def split: list.splits)
    then show ?thesis by (rule cleared)
  next
    case False
    then obtain pointer rest where p: "ph_payload header = pointer # rest" "\<not> length rest < unat pointer"
      by (auto split: list.splits)
    let ?s = "(sa_clear self)\<lparr>sa_start_sequence := Some q,
       sa_last_continuity_counter := Some (ph_continuity_counter header)\<rparr>"
    have "sa_post q (sa_absorb ?s (drop (unat pointer) rest))"
      by (rule sa_absorb_post) (simp_all add: sa_inv_def)
    with True p have "sa_post q (sa_observe self header q)"
      by (simp add: sa_observe_def)
    with True absorbed [of q] show ?thesis by simp
  qed
next
  case False
  show ?thesis
  proof (cases "sa_start_sequence self")
    case None
    with False idle show ?thesis by (simp add: sa_observe_def)
  next
    case (Some st)
    let ?s = "self\<lparr>sa_last_continuity_counter := Some (ph_continuity_counter header)\<rparr>"
    have post: "sa_post st (sa_absorb ?s (ph_payload header))"
      using Some inv by (intro sa_absorb_post) simp_all
    have "sa_observe self header q = (sa_clear self, None) \<or>
        sa_observe self header q = sa_absorb ?s (ph_payload header)"
      using False Some by (simp add: sa_observe_def)
    then show ?thesis
    proof
      assume "sa_observe self header q = (sa_clear self, None)"
      then show ?thesis by (rule cleared)
    next
      assume "sa_observe self header q = sa_absorb ?s (ph_payload header)"
      with post have "sa_post st (sa_observe self header q)" by simp
      then show ?thesis using False Some by (intro absorbed) simp_all
    qed
  qed
qed

lemma sa_observe_inv: "sa_inv self \<Longrightarrow> sa_inv (fst (sa_observe self header q))"
  by (rule sa_observe_cases [of self header q]) (auto simp: sa_post_def)

lemma sa_observe_start:
  assumes "sa_inv self" and "sa_start_sequence (fst (sa_observe self header q)) = Some s"
  shows "if ph_payload_unit_start header then s = q else sa_start_sequence self = Some s"
  using assms(2)
  by (cases rule: sa_observe_cases [OF assms(1), of header q])
    (auto simp: sa_post_def split: if_splits)

lemma sa_observe_complete:
  assumes "sa_inv self" and "snd (sa_observe self header q) = Some c"
  shows "section_wf (cs_bytes c) \<and> sa_start_sequence (fst (sa_observe self header q)) = None \<and>
      (if ph_payload_unit_start header then cs_start_sequence c = q
       else sa_start_sequence self = Some (cs_start_sequence c))"
  using assms(2)
  by (cases rule: sa_observe_cases [OF assms(1), of header q])
    (auto simp: sa_post_def split: if_splits)

section \<open>The two PMT walks agree\<close>

lemma matching_loop_iff:
  "matching_pmt_loop sec e off \<longleftrightarrow> pmt_stream_loop sec e off acc \<noteq> None"
proof (induction sec e off arbitrary: acc rule: matching_pmt_loop.induct)
  case (1 sec e off)
  show ?case
  proof (cases "off < e")
    case False
    then show ?thesis
      by (simp add: matching_pmt_loop.simps [of sec e off] pmt_stream_loop.simps [of sec e off])
  next
    case True
    with "1.IH" show ?thesis
      by (auto simp: Let_def matching_pmt_loop.simps [of sec e off] pmt_stream_loop.simps [of sec e off]
        split: option.splits)
  qed
qed

lemma is_matching_pmt_iff:
  "is_matching_pmt sec program \<longleftrightarrow>
     mpeg_crc32 sec = 0 \<and> parse_pmt_elementary_streams sec program \<noteq> None"
  by (simp add: is_matching_pmt_def parse_pmt_elementary_streams_def Let_def matching_loop_iff [where acc = "[]"])

section \<open>Tracker invariant\<close>

text \<open>
  \<open>tr_inv q\<close>: every remembered section start is below the next sequence \<open>q\<close>, a candidate
  refers to a PAT that started before the one being assembled, and the retained PMT is valid.
  \<open>tr_starts\<close> are the sequences a later boundary can report.
\<close>

definition pmt_wf :: "PatPmtTracker \<Rightarrow> bool" where
  "pmt_wf t \<longleftrightarrow> (case (tr_last_pmt_section t, tr_last_program_number t) of
      (None, None) \<Rightarrow> True
    | (Some bs, Some program) \<Rightarrow> is_matching_pmt bs program
    | _ \<Rightarrow> False)"

definition tr_inv :: "u64 \<Rightarrow> PatPmtTracker \<Rightarrow> bool" where
  "tr_inv q t \<longleftrightarrow> sa_inv (tr_pat t) \<and> pmt_wf t \<and>
     (\<forall>s. sa_start_sequence (tr_pat t) = Some s \<longrightarrow> s < q) \<and>
     (\<forall>c. tr_candidate t = Some c \<longrightarrow> sa_inv (pc_assembler c) \<and> pc_pid c \<noteq> PAT_PID \<and>
        pc_pat_start_sequence c < q \<and>
        (\<forall>s. sa_start_sequence (tr_pat t) = Some s \<longrightarrow> pc_pat_start_sequence c < s))"

definition tr_starts :: "PatPmtTracker \<Rightarrow> u64 set" where
  "tr_starts t = set_option (sa_start_sequence (tr_pat t)) \<union> set_option (tr_candidate_start t)"

definition is_pat_start :: "bytes \<Rightarrow> bool" where
  "is_pat_start packet \<longleftrightarrow> (case packet_header packet of
      None \<Rightarrow> False
    | Some h \<Rightarrow> ph_pid h = PAT_PID \<and> ph_payload_unit_start h)"

lemma tr_inv_default [simp]: "tr_inv q PatPmtTracker_default"
  by (simp add: tr_inv_def PatPmtTracker_default_def pmt_wf_def)
    (simp add: SectionAssembler_default_def)

lemma tr_starts_default [simp]: "tr_starts PatPmtTracker_default = {}"
  by (simp add: tr_starts_def PatPmtTracker_default_def tr_candidate_start_def SectionAssembler_default_def)

lemma tr_inv_mono: "tr_inv q t \<Longrightarrow> q \<le> q' \<Longrightarrow> tr_inv q' t"
  by (fastforce simp: tr_inv_def)

lemma tr_starts_less: "tr_inv q t \<Longrightarrow> s \<in> tr_starts t \<Longrightarrow> s < q"
  by (auto simp: tr_inv_def tr_starts_def tr_candidate_start_def)

lemma pat_entry_pid: "pat_entry e = Some (program, pid) \<Longrightarrow> program \<noteq> 0 \<and> pid \<noteq> PAT_PID"
  by (auto simp: pat_entry_def PAT_PID_def Let_def split: if_splits)

lemma parse_pat_pid: "parse_pat bs = Some (program, pid) \<Longrightarrow> program \<noteq> 0 \<and> pid \<noteq> PAT_PID"
  unfolding parse_pat_def
  by (auto split: if_splits option.splits dest!: find_map_Some dest: pat_entry_pid)

lemma tr_observe_pat_cases:
  assumes "tr_inv q t"
  obtains (same) "tr_observe_pat t h q = t" "ph_pid h \<noteq> PAT_PID"
    | (no_table) "ph_pid h = PAT_PID"
        "tr_observe_pat t h q = t\<lparr>tr_pat := fst (sa_observe (tr_pat t) h q)\<rparr>"
    | (table) c program pid where "ph_pid h = PAT_PID"
        "snd (sa_observe (tr_pat t) h q) = Some c" "parse_pat (cs_bytes c) = Some (program, pid)"
        "tr_observe_pat t h q = t\<lparr>tr_pat := fst (sa_observe (tr_pat t) h q),
           tr_candidate := Some \<lparr>pc_program_number = program, pc_pid = pid,
             pc_pat_start_sequence = cs_start_sequence c, pc_assembler = SectionAssembler_default\<rparr>\<rparr>"
proof (cases "ph_pid h = PAT_PID")
  case False
  with same show ?thesis by (simp add: tr_observe_pat_def)
next
  case True
  obtain pat r where obs: "sa_observe (tr_pat t) h q = (pat, r)" by fastforce
  show ?thesis
  proof (cases r)
    case None
    with True obs no_table show ?thesis by (simp add: tr_observe_pat_def)
  next
    case (Some c)
    show ?thesis
    proof (cases "parse_pat (cs_bytes c)")
      case None
      with True obs Some no_table show ?thesis by (simp add: tr_observe_pat_def)
    next
      case parsed: (Some entry)
      with True obs Some table show ?thesis
        by (cases entry) (simp add: tr_observe_pat_def)
    qed
  qed
qed

lemma tr_observe_pat_inv:
  assumes inv: "tr_inv q t"
  shows "tr_inv (Suc q) (tr_observe_pat t h q)"
proof -
  let ?pat = "fst (sa_observe (tr_pat t) h q)"
  have pat: "sa_inv (tr_pat t)" and wf: "pmt_wf t"
    using inv by (simp_all add: tr_inv_def)
  have start: "s < Suc q \<and> (\<forall>c. tr_candidate t = Some c \<longrightarrow> pc_pat_start_sequence c < s)"
    if "sa_start_sequence ?pat = Some s" for s
    using sa_observe_start [OF pat that] inv by (auto simp: tr_inv_def split: if_splits)
  show ?thesis
    using inv
  proof (cases rule: tr_observe_pat_cases [of q t h, case_names same no_table table])
    case same
    with inv show ?thesis by (auto intro: tr_inv_mono)
  next
    case no_table
    with inv start wf sa_observe_inv [OF pat, of h q] show ?thesis
      by (fastforce simp: tr_inv_def pmt_wf_def)
  next
    case (table c program pid)
    have fin: "sa_start_sequence ?pat = None" and "cs_start_sequence c < Suc q"
      using sa_observe_complete [OF pat table(2)] inv by (auto simp: tr_inv_def split: if_splits)
    with table wf sa_observe_inv [OF pat, of h q] parse_pat_pid [OF table(3)] show ?thesis
      by (simp add: tr_inv_def pmt_wf_def)
  qed
qed

lemma tr_observe_pat_starts:
  assumes inv: "tr_inv q t"
  shows "tr_starts (tr_observe_pat t h q) \<subseteq>
     tr_starts t \<union> (if ph_pid h = PAT_PID \<and> ph_payload_unit_start h then {q} else {})"
proof -
  have pat: "sa_inv (tr_pat t)"
    using inv by (simp add: tr_inv_def)
  show ?thesis
    using inv
  proof (cases rule: tr_observe_pat_cases [of q t h, case_names same no_table table])
    case same
    then show ?thesis by auto
  next
    case no_table
    then show ?thesis
      using sa_observe_start [OF pat, of h q]
      by (auto simp: tr_starts_def tr_candidate_start_def split: if_splits)
  next
    case (table c program pid)
    then show ?thesis
      using sa_observe_complete [OF pat table(2)]
      by (auto simp: tr_starts_def tr_candidate_start_def split: if_splits)
  qed
qed

lemma tr_observe_pmt_cases:
  obtains (quiet) "tr_observe_pmt t h q = (t, None)"
    | (partial) c where "tr_candidate t = Some c"
        "tr_observe_pmt t h q =
          (t\<lparr>tr_candidate := Some (c\<lparr>pc_assembler := fst (sa_observe (pc_assembler c) h q)\<rparr>)\<rparr>, None)"
    | (confirmed) c s where "tr_candidate t = Some c"  "ph_pid h = pc_pid c"
        "snd (sa_observe (pc_assembler c) h q) = Some s"
        "is_matching_pmt (cs_bytes s) (pc_program_number c)"
        "tr_observe_pmt t h q = (t\<lparr>tr_last_pmt_section := Some (cs_bytes s),
            tr_last_program_number := Some (pc_program_number c), tr_candidate := None\<rparr>,
          Some (pc_pat_start_sequence c))"
proof (cases "tr_candidate t")
  case None
  with quiet show ?thesis by (simp add: tr_observe_pmt_def)
next
  case (Some c)
  show ?thesis
  proof (cases "ph_pid h = pc_pid c")
    case False
    with Some quiet show ?thesis by (simp add: tr_observe_pmt_def)
  next
    case True
    obtain assembler r where obs: "sa_observe (pc_assembler c) h q = (assembler, r)" by fastforce
    show ?thesis
    proof (cases r)
      case None
      with True Some obs partial [of c] show ?thesis by (simp add: tr_observe_pmt_def)
    next
      case r: (Some s)
      show ?thesis
      proof (cases "is_matching_pmt (cs_bytes s) (pc_program_number c)")
        case False
        with True Some obs r partial [of c] show ?thesis by (simp add: tr_observe_pmt_def)
      next
        case matching: True
        with True Some obs r confirmed [of c s] show ?thesis by (simp add: tr_observe_pmt_def)
      qed
    qed
  qed
qed

lemma tr_observe_pmt_inv:
  assumes "tr_inv q' t"
  shows "tr_inv q' (fst (tr_observe_pmt t h q))"
  by (rule tr_observe_pmt_cases [of t h q])
    (use assms in \<open>auto simp: tr_inv_def pmt_wf_def intro: sa_observe_inv\<close>)

lemma tr_observe_pmt_starts:
  "tr_starts (fst (tr_observe_pmt t h q)) \<subseteq> tr_starts t"
  by (rule tr_observe_pmt_cases [of t h q])
    (auto simp: tr_starts_def tr_candidate_start_def)

lemma tr_observe_pmt_confirmed:
  assumes "snd (tr_observe_pmt t h q) = Some b"
  shows "\<exists>c bs. tr_candidate t = Some c \<and> ph_pid h = pc_pid c \<and> b = pc_pat_start_sequence c \<and>
    is_matching_pmt bs (pc_program_number c) \<and>
    fst (tr_observe_pmt t h q) = t\<lparr>tr_last_pmt_section := Some bs,
        tr_last_program_number := Some (pc_program_number c), tr_candidate := None\<rparr>"
proof (rule tr_observe_pmt_cases [of t h q])
  assume "tr_observe_pmt t h q = (t, None)"
  with assms show ?thesis by simp
next
  fix c
  assume "tr_observe_pmt t h q =
    (t\<lparr>tr_candidate := Some (c\<lparr>pc_assembler := fst (sa_observe (pc_assembler c) h q)\<rparr>)\<rparr>, None)"
  with assms show ?thesis by simp
next
  fix c and s :: CompletedSection
  assume "tr_candidate t = Some c" and "ph_pid h = pc_pid c"
    and "is_matching_pmt (cs_bytes s) (pc_program_number c)"
    and "tr_observe_pmt t h q = (t\<lparr>tr_last_pmt_section := Some (cs_bytes s),
            tr_last_program_number := Some (pc_program_number c), tr_candidate := None\<rparr>,
          Some (pc_pat_start_sequence c))"
  with assms show ?thesis by (intro exI [of _ c] exI [of _ "cs_bytes s"]) simp
qed

lemma tr_observe_pmt_boundary:
  assumes "tr_inv q' t" and "snd (tr_observe_pmt t h q) = Some b"
  shows "b \<in> tr_starts t" and "\<And>s. s \<in> tr_starts (fst (tr_observe_pmt t h q)) \<Longrightarrow> b < s"
    and "ph_pid h \<noteq> PAT_PID"
    and "tr_candidate (fst (tr_observe_pmt t h q)) = None"
    and "\<exists>bs program. tr_completed_pmt (fst (tr_observe_pmt t h q)) = Some (bs, program) \<and>
      is_matching_pmt bs program"
proof -
  obtain c bs where c: "tr_candidate t = Some c" "ph_pid h = pc_pid c"
      "b = pc_pat_start_sequence c" "is_matching_pmt bs (pc_program_number c)"
      "fst (tr_observe_pmt t h q) = t\<lparr>tr_last_pmt_section := Some bs,
        tr_last_program_number := Some (pc_program_number c), tr_candidate := None\<rparr>"
    using tr_observe_pmt_confirmed [OF assms(2)] by blast
  show "b \<in> tr_starts t" and "\<And>s. s \<in> tr_starts (fst (tr_observe_pmt t h q)) \<Longrightarrow> b < s"
    and "ph_pid h \<noteq> PAT_PID" and "tr_candidate (fst (tr_observe_pmt t h q)) = None"
    and "\<exists>bs program. tr_completed_pmt (fst (tr_observe_pmt t h q)) = Some (bs, program) \<and>
      is_matching_pmt bs program"
    using assms(1) c by (auto simp: tr_starts_def tr_candidate_start_def tr_inv_def tr_completed_pmt_def)
qed

lemma tr_observe_inv: "tr_inv q t \<Longrightarrow> tr_inv (Suc q) (fst (tr_observe t packet q))"
  by (auto simp: tr_observe_def intro: tr_inv_mono tr_observe_pmt_inv tr_observe_pat_inv split: option.splits)

lemma tr_observe_starts:
  assumes "tr_inv q t"
  shows "tr_starts (fst (tr_observe t packet q)) \<subseteq> tr_starts t \<union> (if is_pat_start packet then {q} else {})"
proof (cases "packet_header packet")
  case None
  then show ?thesis by (auto simp: tr_observe_def)
next
  case (Some h)
  with tr_observe_pat_starts [OF assms, of h] tr_observe_pmt_starts [of "tr_observe_pat t h q" h q]
  show ?thesis by (auto simp: tr_observe_def is_pat_start_def split: if_splits)
qed

lemma tr_observe_boundary:
  assumes inv: "tr_inv q t" and b: "snd (tr_observe t packet q) = Some b"
  shows "b \<in> tr_starts t"
    and "\<And>s. s \<in> tr_starts (fst (tr_observe t packet q)) \<Longrightarrow> b < s"
    and "tr_candidate (fst (tr_observe t packet q)) = None"
    and "\<exists>bs program. tr_completed_pmt (fst (tr_observe t packet q)) = Some (bs, program) \<and>
      is_matching_pmt bs program"
proof -
  obtain h where h: "packet_header packet = Some h"
    using b by (auto simp: tr_observe_def split: option.splits)
  note inv' = tr_observe_pat_inv [OF inv, of h]
  note bnd = tr_observe_pmt_boundary [OF inv', of h q b]
  have b': "snd (tr_observe_pmt (tr_observe_pat t h q) h q) = Some b"
    using b h by (simp add: tr_observe_def)
  have "tr_observe_pat t h q = t"
    using bnd(3) [OF b'] by (simp add: tr_observe_pat_def)
  then show "b \<in> tr_starts t"
    using bnd(1) [OF b'] by simp
  show "\<And>s. s \<in> tr_starts (fst (tr_observe t packet q)) \<Longrightarrow> b < s"
    "tr_candidate (fst (tr_observe t packet q)) = None"
    "\<exists>bs program. tr_completed_pmt (fst (tr_observe t packet q)) = Some (bs, program) \<and>
      is_matching_pmt bs program"
    using bnd(2,4,5) [OF b'] h by (simp_all add: tr_observe_def)
qed

text \<open>One pass of the tracker over consecutively numbered packets, and the boundaries it reports.\<close>

fun tr_run :: "PatPmtTracker \<Rightarrow> u64 \<Rightarrow> bytes list \<Rightarrow> PatPmtTracker \<times> u64 list" where
  "tr_run t q [] = (t, [])"
| "tr_run t q (packet # packets) =
     (let (t', boundary) = tr_observe t packet q;
          (t'', boundaries) = tr_run t' (Suc q) packets
      in (t'', (case boundary of None \<Rightarrow> boundaries | Some b \<Rightarrow> b # boundaries)))"

lemma tr_run_boundaries:
  assumes "tr_inv q t"
  shows "sorted_wrt (<) (snd (tr_run t q packets)) \<and>
    (\<forall>b \<in> set (snd (tr_run t q packets)). (\<forall>l. (\<forall>s \<in> tr_starts t. l < s) \<and> l < q \<longrightarrow> l < b) \<and>
      (b \<in> tr_starts t \<or> (\<exists>i < length packets. b = q + i \<and> is_pat_start (packets ! i))))"
  using assms
proof (induction packets arbitrary: t q)
  case Nil
  then show ?case by simp
next
  case (Cons p ps)
  obtain t' r where obs: "tr_observe t p q = (t', r)" by fastforce
  have inv': "tr_inv (Suc q) t'" and starts: "tr_starts t' \<subseteq> tr_starts t \<union> (if is_pat_start p then {q} else {})"
    using tr_observe_inv [OF Cons.prems, of p] tr_observe_starts [OF Cons.prems, of p] obs by simp_all
  note IH = Cons.IH [OF inv']
  have run: "snd (tr_run t q (p # ps)) = (case r of None \<Rightarrow> snd (tr_run t' (Suc q) ps) | Some b \<Rightarrow> b # snd (tr_run t' (Suc q) ps))"
    by (simp add: obs split: prod.splits option.splits)
  have later: "(\<forall>l. (\<forall>s \<in> tr_starts t. l < s) \<and> l < q \<longrightarrow> l < b) \<and>
      (b \<in> tr_starts t \<or> (\<exists>i < length (p # ps). b = q + i \<and> is_pat_start ((p # ps) ! i)))"
    if "b \<in> set (snd (tr_run t' (Suc q) ps))" for b
  proof
    show "\<forall>l. (\<forall>s \<in> tr_starts t. l < s) \<and> l < q \<longrightarrow> l < b"
      using IH that starts by (fastforce split: if_splits)
    have "b \<in> tr_starts t' \<or> (\<exists>i < length ps. b = Suc q + i \<and> is_pat_start (ps ! i))"
      using IH that by blast
    then show "b \<in> tr_starts t \<or> (\<exists>i < length (p # ps). b = q + i \<and> is_pat_start ((p # ps) ! i))"
    proof
      assume "b \<in> tr_starts t'"
      with starts show ?thesis by (fastforce split: if_splits)
    next
      assume "\<exists>i < length ps. b = Suc q + i \<and> is_pat_start (ps ! i)"
      then obtain i where "i < length ps" "b = Suc q + i" "is_pat_start (ps ! i)" by blast
      then have "Suc i < length (p # ps)" "b = q + Suc i" "is_pat_start ((p # ps) ! Suc i)" by simp_all
      then show ?thesis by blast
    qed
  qed
  show ?case
  proof (cases r)
    case None
    with run IH later show ?thesis by simp
  next
    case (Some b)
    with obs have b: "snd (tr_observe t p q) = Some b" by simp
    note bnd = tr_observe_boundary [OF Cons.prems b]
    have "b < q" using bnd(1) Cons.prems by (rule tr_starts_less [rotated])
    then have "b < b'" if "b' \<in> set (snd (tr_run t' (Suc q) ps))" for b'
      using IH that bnd(2) obs by fastforce
    with Some run IH later bnd(1) show ?thesis by auto
  qed
qed

section \<open>A sample PAT and PMT\<close>

text \<open>The two packets of the unit tests, used to evaluate the definitions on concrete input.\<close>

definition ts_packet :: "u8 \<Rightarrow> u8 \<Rightarrow> u8 \<Rightarrow> bytes \<Rightarrow> bytes" where
  "ts_packet b1 b2 b3 payload = [0x47, b1, b2, b3] @ payload @ replicate (184 - length payload) 0xff"

definition sample_pat :: bytes where
  "sample_pat = [0x00, 0xb0, 0x0d, 0x00, 0x01, 0xc1, 0x00, 0x00, 0x00, 0x01, 0xe1, 0x00]"

definition sample_pmt :: bytes where
  "sample_pmt = [0x02, 0xb0, 0x12, 0x00, 0x01, 0xc1, 0x00, 0x00, 0xe1, 0x01, 0xf0, 0x00,
     0x1b, 0xe1, 0x01, 0xf0, 0x00]"

definition with_crc :: "bytes \<Rightarrow> bytes" where
  "with_crc bs = bs @ to_be_bytes (mpeg_crc32 bs)"

definition pat_packet :: bytes where
  "pat_packet = ts_packet 0x40 0x00 0x10 (0 # with_crc sample_pat)"

definition pmt_packet :: bytes where
  "pmt_packet = ts_packet 0x41 0x00 0x10 (0 # with_crc sample_pmt)"

lemma length_samples [simp]: "length sample_pat = 12" "length sample_pmt = 17"
  by (simp_all add: sample_pat_def sample_pmt_def)

lemma crc_with_crc [simp]: "mpeg_crc32 (with_crc bs) = 0"
  by (simp add: with_crc_def mpeg_crc32_append_self)

lemma length_with_crc [simp]: "length (with_crc bs) = length bs + 4"
  by (simp add: with_crc_def to_be_bytes_def)

lemma nth_with_crc [simp]: "i < length bs \<Longrightarrow> with_crc bs ! i = bs ! i"
  by (simp add: with_crc_def nth_append)

lemma parse_sample_pat: "parse_pat (with_crc sample_pat) = Some (1, 0x100)"
proof -
  have "get_range (with_crc sample_pat) 8 12 = Some [0x00, 0x01, 0xe1, 0x00]"
    by (simp add: get_range_def slice_def with_crc_def) (simp add: sample_pat_def to_be_bytes_def)
  moreover have "chunks_exact 4 [0x00, 0x01, 0xe1, 0x00 :: u8] = [[0x00, 0x01, 0xe1, 0x00]]"
    by (simp add: chunks_exact.simps)
  ultimately show ?thesis
    by (simp add: parse_pat_def sample_pat_def PAT_TABLE_ID_def pat_entry_def u16_be_def pid_of_def)
qed

lemma matching_sample_pmt: "is_matching_pmt (with_crc sample_pmt) 1"
proof -
  have "get_range (with_crc sample_pmt) 12 17 = Some [0x1b, 0xe1, 0x01, 0xf0, 0x00]"
    by (simp add: get_range_def slice_def with_crc_def) (simp add: sample_pmt_def to_be_bytes_def)
  then have "matching_pmt_loop (with_crc sample_pmt) 17 12"
    by (simp add: matching_pmt_loop.simps length_of_def)
  then show ?thesis
    by (simp add: is_matching_pmt_def sample_pmt_def PMT_TABLE_ID_def length_of_def u16_be_def)
qed

lemma header_pat_packet: "packet_header pat_packet = Some \<lparr>ph_pid = 0, ph_payload_unit_start = True,
   ph_continuity_counter = 0, ph_payload = 0 # with_crc sample_pat @ replicate 167 0xff\<rparr>"
  by (simp add: packet_header_def pat_packet_def ts_packet_def MPEG_TS_PACKET_SIZE_def pid_of_def)

lemma header_pmt_packet: "packet_header pmt_packet = Some \<lparr>ph_pid = 0x100, ph_payload_unit_start = True,
   ph_continuity_counter = 0, ph_payload = 0 # with_crc sample_pmt @ replicate 162 0xff\<rparr>"
  by (simp add: packet_header_def pmt_packet_def ts_packet_def MPEG_TS_PACKET_SIZE_def pid_of_def)

lemma sa_observe_single:
  assumes "ph_payload_unit_start h" and "ph_payload h = 0 # sec @ pad" and "section_wf sec"
    and "length (ph_payload h) \<le> 184"
  shows "sa_observe self h q = (sa_clear self, Some \<lparr>cs_bytes = sec, cs_start_sequence = q\<rparr>)"
proof -
  have len: "4 \<le> length sec" "length sec \<le> MAX_SECTION_BYTES" "length sec = 3 + length_of (sec ! 1) (sec ! 2)"
    using assms(3) by (simp_all add: section_wf_def)
  have "take (min (length (sec @ pad)) MAX_SECTION_BYTES) (sec @ pad) = sec @ pad"
    using assms(2,4) by (simp add: MAX_SECTION_BYTES_def)
  moreover have "(sec @ pad) ! 1 = sec ! 1" "(sec @ pad) ! 2 = sec ! 2"
    using len(1) by (simp_all add: nth_append)
  ultimately show ?thesis
    using assms(1,2) len by (simp add: sa_observe_def sa_absorb_def Let_def sa_complete_def sa_clear_def)
qed

lemma section_wf_samples: "section_wf (with_crc sample_pat)" "section_wf (with_crc sample_pmt)"
  by (simp_all add: section_wf_def sample_pat_def sample_pmt_def MAX_SECTION_BYTES_def length_of_def)

definition sample_tracker :: PatPmtTracker where
  "sample_tracker = PatPmtTracker_default\<lparr>tr_pat := sa_clear SectionAssembler_default,
     tr_candidate := Some \<lparr>pc_program_number = 1, pc_pid = 0x100, pc_pat_start_sequence = 0,
       pc_assembler = SectionAssembler_default\<rparr>\<rparr>"

lemma tr_observe_sample_pat: "tr_observe PatPmtTracker_default pat_packet 0 = (sample_tracker, None)"
  by (simp add: sample_tracker_def tr_observe_def header_pat_packet tr_observe_pat_def
      tr_observe_pmt_def PAT_PID_def sa_observe_single [OF _ _ section_wf_samples(1)]
      parse_sample_pat PatPmtTracker_default_def)

lemma tr_observe_sample_pmt:
  "snd (tr_observe sample_tracker pmt_packet 1) = Some 0"
  "tr_completed_pmt (fst (tr_observe sample_tracker pmt_packet 1)) = Some (with_crc sample_pmt, 1)"
  by (simp_all add: sample_tracker_def tr_observe_def header_pmt_packet tr_observe_pat_def
      tr_observe_pmt_def PAT_PID_def sa_observe_single [OF _ _ section_wf_samples(2)]
      matching_sample_pmt PatPmtTracker_default_def tr_completed_pmt_def)

lemma tr_run_sample: "snd (tr_run PatPmtTracker_default 0 [pat_packet, pmt_packet]) = [0]"
  using tr_observe_sample_pat tr_observe_sample_pmt(1) by (auto split: prod.splits)

section \<open>Properties\<close>

text \<open>
  C27: corruption confined to four consecutive bytes of a valid section is always detected: the
  damaged section is neither accepted as a PAT nor as the PMT of any program.
\<close>

theorem corrupted_section_rejected:
  assumes "mpeg_crc32 (pre @ xs @ post) = 0" and "length xs = 4" and "length ys = 4" and "xs \<noteq> ys"
  shows "parse_pat (pre @ ys @ post) = None \<and> \<not> is_matching_pmt (pre @ ys @ post) program"
proof -
  have "mpeg_crc32 (pre @ ys @ post) \<noteq> 0"
    using assms crc_burst [of pre xs post ys] by auto
  then show ?thesis by (simp add: parse_pat_def is_matching_pmt_def)
qed

theorem corrupted_section_rejected_witness:
  "parse_pat ([] @ [0x00, 0xb0, 0x0d, 0x01] @ drop 4 (with_crc sample_pat)) = None"
proof -
  have "mpeg_crc32 ([] @ take 4 (with_crc sample_pat) @ drop 4 (with_crc sample_pat)) = 0"
    by simp
  moreover have "take 4 (with_crc sample_pat) \<noteq> [0x00, 0xb0, 0x0d, 0x01]"
    by (simp add: with_crc_def sample_pat_def)
  ultimately show ?thesis
    using corrupted_section_rejected [of "[]" "take 4 (with_crc sample_pat)"
      "drop 4 (with_crc sample_pat)" "[0x00, 0xb0, 0x0d, 0x01]"] by simp
qed

text \<open>
  Whatever packets an assembler has seen, it holds fewer bytes than it expects (so
  \<open>expected - self.bytes.len()\<close> is exact and positive), never expects more than the 1024-byte
  bound, and a section it completes has exactly the length its own header declares.
\<close>

theorem assembled_sections_have_declared_length:
  fixes headers :: "(PacketHeader \<times> u64) list"
  defines "s \<equiv> fold (\<lambda>(h, q) s. fst (sa_observe s h q)) headers SectionAssembler_default"
  shows "(sa_expected_len s = Some e \<longrightarrow> length (sa_bytes s) < e \<and> e \<le> MAX_SECTION_BYTES) \<and>
    (snd (sa_observe s h q) = Some c \<longrightarrow> length (cs_bytes c) \<le> MAX_SECTION_BYTES \<and>
       length (cs_bytes c) = 3 + length_of (cs_bytes c ! 1) (cs_bytes c ! 2))"
proof -
  have "sa_inv (fold (\<lambda>(h, q) s. fst (sa_observe s h q)) headers t)" if "sa_inv t" for t
    using that by (induction headers arbitrary: t) (auto intro: sa_observe_inv)
  then have inv: "sa_inv s" by (simp add: s_def)
  then show ?thesis
    using sa_observe_complete [OF inv, of h q c] by (auto simp: sa_inv_def section_wf_def)
qed

theorem assembled_sections_have_declared_length_witness:
  "\<exists>h c. snd (sa_observe SectionAssembler_default h 7) = Some c \<and>
     length (cs_bytes c) = 3 + length_of (cs_bytes c ! 1) (cs_bytes c ! 2)"
proof -
  let ?h = "\<lparr>ph_pid = 0, ph_payload_unit_start = True, ph_continuity_counter = 0,
     ph_payload = 0 # with_crc sample_pat @ []\<rparr> :: PacketHeader"
  let ?c = "\<lparr>cs_bytes = with_crc sample_pat, cs_start_sequence = 7\<rparr> :: CompletedSection"
  have "section_wf (with_crc sample_pat)"
    by (simp add: section_wf_def sample_pat_def MAX_SECTION_BYTES_def length_of_def)
  then have "snd (sa_observe SectionAssembler_default ?h 7) = Some ?c"
    by (subst sa_observe_single) simp_all
  with assembled_sections_have_declared_length [of "[]" _ ?h 7 ?c] show ?thesis
    by (intro exI [of _ ?h] exI [of _ ?c]) simp
qed

text \<open>
  the two walks over a PMT agree.  A section matches a program exactly when its CRC is zero
  and the elementary-stream parser accepts it, so the stream list read after a confirmed boundary
  always exists.
\<close>

theorem matching_pmt_equivalence:
  "is_matching_pmt sec program \<longleftrightarrow>
     mpeg_crc32 sec = 0 \<and> parse_pmt_elementary_streams sec program \<noteq> None"
  by (rule is_matching_pmt_iff)

text \<open>
  over any stream of packets, the boundaries the tracker reports are strictly increasing, and
  each is the sequence of an earlier packet on the PAT PID in which a section starts.
\<close>

theorem tracker_boundaries_are_pat_starts:
  "sorted_wrt (<) (snd (tr_run PatPmtTracker_default 0 packets)) \<and>
   (\<forall>b \<in> set (snd (tr_run PatPmtTracker_default 0 packets)).
      b < length packets \<and> is_pat_start (packets ! b))"
  using tr_run_boundaries [OF tr_inv_default, of 0 packets] by auto

theorem tracker_boundaries_are_pat_starts_witness:
  "0 \<in> set (snd (tr_run PatPmtTracker_default 0 [pat_packet, pmt_packet])) \<and> is_pat_start pat_packet"
  using tracker_boundaries_are_pat_starts [of "[pat_packet, pmt_packet]"]
  unfolding tr_run_sample by simp

end
