(* ===== verification/Pacing.thy ===== *)
theory Pacing
  imports Prelude
begin

text \<open>
  Media time (\<open>crates/media/src/pacing.rs\<close>): the PCR parser, the unwrapped media timeline of
  one ring generation with its sample index, and the pacer that holds each batch of packets until
  its media time is due.

  Main results: the timeline follows the 27 MHz clock exactly across the 33-bit wrap and never
  moves backward, the sample index stays sorted and spaced, pruning does not change a lookup
  inside the ring, and the pacer never holds a batch longer than its limit.
\<close>

section \<open>Constants and conversions\<close>

definition PCR_TICKS_PER_SECOND :: u64 where
  "PCR_TICKS_PER_SECOND = 27000000"

definition PCR_WRAP_TICKS :: u64 where
  "PCR_WRAP_TICKS = 2 ^ 33 * 300"

definition MAX_FORWARD_JUMP_TICKS :: u64 where
  "MAX_FORWARD_JUMP_TICKS = 10 * PCR_TICKS_PER_SECOND"

definition MAX_BACKWARD_JITTER_TICKS :: u64 where
  "MAX_BACKWARD_JITTER_TICKS = PCR_TICKS_PER_SECOND"

definition SAMPLE_SPACING_TICKS :: u64 where
  "SAMPLE_SPACING_TICKS = PCR_TICKS_PER_SECOND div 10"

definition MAX_HOLD :: duration where
  "MAX_HOLD = 5 * 1000000000"

lemmas pcr_constants = PCR_TICKS_PER_SECOND_def PCR_WRAP_TICKS_def MAX_FORWARD_JUMP_TICKS_def
  MAX_BACKWARD_JITTER_TICKS_def SAMPLE_SPACING_TICKS_def MAX_HOLD_def

lemma SAMPLE_SPACING_TICKS_pos [simp]: "0 < SAMPLE_SPACING_TICKS"
  by (simp add: pcr_constants)

definition ticks_to_duration :: "u64 \<Rightarrow> duration" where
  "ticks_to_duration ticks =
     unwrap_or (try_u64 (ticks * 1000000000 div PCR_TICKS_PER_SECOND)) u64_max"

definition ticks_to_millis :: "u64 \<Rightarrow> u64" where
  "ticks_to_millis ticks = ticks div (PCR_TICKS_PER_SECOND div 1000)"

definition duration_to_ticks :: "duration \<Rightarrow> u64" where
  "duration_to_ticks d = unwrap_or (try_u64 (d * PCR_TICKS_PER_SECOND div 1000000000)) u64_max"

section \<open>PCR parser\<close>

definition pcr_base :: "bytes \<Rightarrow> 64 word" where
  "pcr_base packet =
     push_bit 25 (ucast (packet ! 6)) OR push_bit 17 (ucast (packet ! 7))
       OR push_bit 9 (ucast (packet ! 8)) OR push_bit 1 (ucast (packet ! 9))
       OR drop_bit 7 (ucast (packet ! 10))"

definition pcr_extension :: "bytes \<Rightarrow> 64 word" where
  "pcr_extension packet = push_bit 8 (ucast (packet ! 10 AND 0x01)) OR ucast (packet ! 11)"

definition parse_pcr :: "bytes \<Rightarrow> (u64 \<times> bool) option" where
  "parse_pcr packet =
     (if length packet < 12 \<or> packet ! 3 AND 0x20 = 0 then None
      else if unat (packet ! 4) < 7 \<or> packet ! 5 AND 0x10 = 0 then None
      else let discontinuity = (packet ! 5 AND 0x80 \<noteq> 0)
        in Some (unat (pcr_base packet * 300 + min (pcr_extension packet) 299), discontinuity))"

section \<open>Timeline\<close>

record PcrSample =
  ps_sequence :: u64
  ps_ticks :: u64

record PcrTimeline =
  tl_last_raw :: "u64 option"
  tl_unwrapped :: u64
  tl_latest_sequence :: u64
  tl_has_sample :: bool
  tl_samples :: "PcrSample list"

definition PcrTimeline_default :: PcrTimeline where
  "PcrTimeline_default = \<lparr>tl_last_raw = None, tl_unwrapped = 0, tl_latest_sequence = 0,
     tl_has_sample = False, tl_samples = []\<rparr>"

definition tl_reset :: "PcrTimeline \<Rightarrow> PcrTimeline" where
  "tl_reset self = PcrTimeline_default"

text \<open>The part of \<open>PcrTimeline::observe\<close> after the \<open>match\<close>: record the reading.\<close>

definition tl_record :: "PcrTimeline \<Rightarrow> u64 \<Rightarrow> u64 \<Rightarrow> PcrTimeline" where
  "tl_record self raw sequence =
     (let self = self\<lparr>tl_last_raw := Some raw, tl_latest_sequence := sequence\<rparr>;
          spaced = (tl_samples self = [] \<or>
            wrapping_add_u64 (ps_ticks (last (tl_samples self))) SAMPLE_SPACING_TICKS
              \<le> tl_unwrapped self)
      in (if spaced
          then self\<lparr>tl_samples := tl_samples self @
                 [\<lparr>ps_sequence = sequence, ps_ticks = tl_unwrapped self\<rparr>]\<rparr>
          else self)\<lparr>tl_has_sample := True\<rparr>)"

definition pcr_forward :: "u64 \<Rightarrow> u64 \<Rightarrow> u64" where
  "pcr_forward raw lst =
     wrapping_sub_u64 (wrapping_add_u64 raw PCR_WRAP_TICKS) lst mod PCR_WRAP_TICKS"

definition tl_observe :: "PcrTimeline \<Rightarrow> bytes \<Rightarrow> u64 \<Rightarrow> PcrTimeline" where
  "tl_observe self packet sequence =
     (case parse_pcr packet of
        None \<Rightarrow> self
      | Some (raw, discontinuity) \<Rightarrow>
          (case tl_last_raw self of
             None \<Rightarrow> tl_record self raw sequence
           | Some lst \<Rightarrow>
               if discontinuity then tl_record self raw sequence
               else let forward = pcr_forward raw lst in
                 if forward \<le> MAX_FORWARD_JUMP_TICKS
                 then tl_record (self\<lparr>tl_unwrapped :=
                        wrapping_add_u64 (tl_unwrapped self) forward\<rparr>) raw sequence
                 else if PCR_WRAP_TICKS - forward \<le> MAX_BACKWARD_JITTER_TICKS then self
                 else tl_record self raw sequence))"

text \<open>The \<open>while\<close> loop of \<open>prune\<close> on the sample queue.\<close>

fun prune_samples :: "u64 \<Rightarrow> PcrSample list \<Rightarrow> PcrSample list" where
  "prune_samples first (s # t # rest) =
     (if ps_sequence t \<le> first then prune_samples first (t # rest) else s # t # rest)"
| "prune_samples first samples = samples"

definition tl_prune :: "PcrTimeline \<Rightarrow> u64 \<Rightarrow> PcrTimeline" where
  "tl_prune self first_sequence =
     self\<lparr>tl_samples := prune_samples first_sequence (tl_samples self)\<rparr>"

definition tl_head_ticks :: "PcrTimeline \<Rightarrow> u64 option" where
  "tl_head_ticks self = (if tl_has_sample self then Some (tl_unwrapped self) else None)"

text \<open>
  \<open>partition_point\<close> on a sequence that is partitioned by the predicate returns the length of the
  prefix that satisfies it; the sample index is sorted, so both its uses are partitioned.
\<close>

definition partition_point :: "('a \<Rightarrow> bool) \<Rightarrow> 'a list \<Rightarrow> usize" where
  "partition_point p xs = length (takeWhile p xs)"

definition tl_ticks_at :: "PcrTimeline \<Rightarrow> u64 \<Rightarrow> u64 option" where
  "tl_ticks_at self sequence =
     (if tl_has_sample self \<and> tl_latest_sequence self \<le> sequence then Some (tl_unwrapped self)
      else let index = partition_point (\<lambda>s. ps_sequence s \<le> sequence) (tl_samples self)
        in map_option ps_ticks (get_at (tl_samples self) (saturating_sub index 1)))"

definition tl_sequence_at_or_after :: "PcrTimeline \<Rightarrow> u64 \<Rightarrow> u64 option" where
  "tl_sequence_at_or_after self ticks =
     (let index = partition_point (\<lambda>s. ps_ticks s < ticks) (tl_samples self)
      in map_option ps_sequence (get_at (tl_samples self) index))"

section \<open>Pacer\<close>

record BatchPosition =
  bp_sequence :: u64
  bp_ticks :: "u64 option"
  bp_byte_rate_bps :: "u64 option"

datatype Anchor = Anchor_Pcr instant u64 | Anchor_Bytes instant u64

record Pacer =
  pa_anchor :: "Anchor option"

definition Pacer_new :: Pacer where
  "Pacer_new = \<lparr>pa_anchor = None\<rparr>"

definition pa_reset :: "Pacer \<Rightarrow> Pacer" where
  "pa_reset self = self\<lparr>pa_anchor := None\<rparr>"

text \<open>
  \<open>hold\<close>, \<open>hold_pcr\<close> and \<open>hold_bytes\<close> call each other: a hold above the limit drops the
  anchor and asks again, which then sets a new anchor and releases at once.
\<close>

function pa_hold :: "Pacer \<Rightarrow> BatchPosition \<Rightarrow> instant \<Rightarrow> Pacer \<times> duration"
  and pa_hold_pcr :: "Pacer \<Rightarrow> u64 \<Rightarrow> instant \<Rightarrow> BatchPosition \<Rightarrow> Pacer \<times> duration"
  and pa_hold_bytes :: "Pacer \<Rightarrow> u64 \<Rightarrow> u64 \<Rightarrow> instant \<Rightarrow> BatchPosition \<Rightarrow> Pacer \<times> duration"
where
  "pa_hold self position now =
     (case bp_ticks position of
        Some ticks \<Rightarrow> pa_hold_pcr self ticks now position
      | None \<Rightarrow>
          (case bp_byte_rate_bps position of
             Some rate \<Rightarrow>
               if 0 < rate then pa_hold_bytes self (bp_sequence position) rate now position
               else (self\<lparr>pa_anchor := None\<rparr>, 0)
           | None \<Rightarrow> (self\<lparr>pa_anchor := None\<rparr>, 0)))"
| "pa_hold_pcr self ticks now position =
     (case pa_anchor self of
        Some (Anchor_Pcr since anchor_ticks) \<Rightarrow>
          let elapsed = saturating_sub ticks anchor_ticks;
              due = since + ticks_to_duration elapsed;
              hold = saturating_sub due now
          in if hold > MAX_HOLD then pa_hold (self\<lparr>pa_anchor := None\<rparr>) position now
             else (self, hold)
      | _ \<Rightarrow> (self\<lparr>pa_anchor := Some (Anchor_Pcr now ticks)\<rparr>, 0))"
| "pa_hold_bytes self sequence rate_bps now position =
     (case pa_anchor self of
        Some (Anchor_Bytes since anchor_sequence) \<Rightarrow>
          let packets = saturating_sub sequence anchor_sequence;
              bits = packets * 188 * 8;
              nanos = bits * 1000000000 div rate_bps;
              due = since + unwrap_or (try_u64 nanos) u64_max;
              hold = saturating_sub due now
          in if hold > MAX_HOLD then pa_hold (self\<lparr>pa_anchor := None\<rparr>) position now
             else (self, hold)
      | _ \<Rightarrow> (self\<lparr>pa_anchor := Some (Anchor_Bytes now sequence)\<rparr>, 0))"
  by pat_completeness auto
termination
  by (relation "measure (\<lambda>c. case c of
        Inl (self, _, _) \<Rightarrow> (if pa_anchor self = None then 1 else 3)
      | Inr (Inl (self, _, _, _)) \<Rightarrow> (if pa_anchor self = None then 0 else 2)
      | Inr (Inr (self, _, _, _, _)) \<Rightarrow> (if pa_anchor self = None then 0 else 2))") auto

declare pa_hold.simps [simp del] pa_hold_pcr.simps [simp del] pa_hold_bytes.simps [simp del]

section \<open>Reading the clock\<close>

lemma or_less_exp:
  fixes a b :: "64 word"
  assumes "unat a < 2 ^ n" and "unat b < 2 ^ n"
  shows "unat (a OR b) < 2 ^ n"
proof -
  have "take_bit n (unat a) = unat a" "take_bit n (unat b) = unat b"
    using assms by (simp_all add: take_bit_nat_eq_self)
  then have "take_bit n (unat (a OR b)) = unat (a OR b)"
    by (simp add: unsigned_or_eq take_bit_or)
  then show ?thesis by (metis take_bit_nat_less_exp)
qed

lemma unat_u8_less: "unat (b :: u8) < 256"
  using unsigned_less [of b] by simp

lemma unat_ucast_u8 [simp]: "unat (ucast (b :: u8) :: 64 word) = unat b"
  by (simp add: unsigned_ucast_eq take_bit_nat_eq_self order.strict_trans [OF unat_u8_less])

lemma push_byte_less:
  assumes "k + 8 \<le> n"
  shows "unat (push_bit k (ucast (b :: u8)) :: 64 word) < 2 ^ n"
proof -
  have "unat (push_bit k (ucast b) :: 64 word) \<le> unat b * 2 ^ k"
    by (simp add: unsigned_push_bit_eq push_bit_nat_def unsigned_ucast_eq take_bit_nat_less_eq_self
      take_bit_nat_eq_self order_trans [OF take_bit_nat_less_eq_self])
  also have "\<dots> < 2 ^ 8 * 2 ^ k" using unat_u8_less [of b] by simp
  also have "\<dots> = 2 ^ (k + 8)" by (simp only: power_add mult.commute)
  also have "\<dots> \<le> 2 ^ n" using assms by (intro power_increasing) simp_all
  finally show ?thesis .
qed

lemma drop_byte_less: "unat (drop_bit 7 (ucast (b :: u8)) :: 64 word) < 2 ^ 33"
proof -
  have "unat (drop_bit 7 (ucast b :: 64 word)) = drop_bit 7 (unat b)"
    by (simp only: unsigned_drop_bit_eq unat_ucast_u8)
      (simp add: take_bit_nat_eq_self order.strict_trans [OF unat_u8_less])
  also have "\<dots> \<le> unat b" by (simp add: drop_bit_eq_div)
  also have "\<dots> < 2 ^ 33" using unat_u8_less [of b] by simp
  finally show ?thesis .
qed

lemma pcr_base_less: "unat (pcr_base packet) < 2 ^ 33"
  unfolding pcr_base_def by (intro or_less_exp push_byte_less drop_byte_less) simp_all

lemma parse_pcr_less:
  assumes "parse_pcr packet = Some (raw, d)"
  shows "raw < PCR_WRAP_TICKS"
proof -
  define extension where "extension = pcr_extension packet"
  have raw: "raw = unat (pcr_base packet * 300 + min extension 299)"
    using assms by (simp add: parse_pcr_def extension_def split: if_splits)
  have ext: "unat (min extension 299) \<le> 299"
    by (simp add: min_def word_le_nat_alt)
  have "unat (pcr_base packet * 300) = unat (pcr_base packet) * 300"
    using pcr_base_less [of packet] by (simp add: unat_word_ariths)
  then have "raw = unat (pcr_base packet) * 300 + unat (min extension 299)"
    using pcr_base_less [of packet] ext by (simp add: raw unat_word_ariths)
  with pcr_base_less [of packet] ext show ?thesis by (simp add: PCR_WRAP_TICKS_def)
qed

lemma pcr_forward_eq:
  assumes "raw < PCR_WRAP_TICKS" and "lst < PCR_WRAP_TICKS"
  shows "pcr_forward raw lst = (raw + PCR_WRAP_TICKS - lst) mod PCR_WRAP_TICKS"
  using assms by (simp add: pcr_forward_def PCR_WRAP_TICKS_def)

text \<open>The reading of a clock that advances by \<open>d\<close> since the last reading.\<close>

lemma pcr_forward_advance:
  assumes "d < PCR_WRAP_TICKS"
  shows "pcr_forward ((t + d) mod PCR_WRAP_TICKS) (t mod PCR_WRAP_TICKS) = d"
proof -
  let ?W = PCR_WRAP_TICKS
  have W: "0 < ?W" by (simp add: PCR_WRAP_TICKS_def)
  have "((t + d) mod ?W + ?W - t mod ?W) mod ?W = ((t mod ?W + d) mod ?W + ?W - t mod ?W) mod ?W"
    by (simp add: mod_add_left_eq)
  also have "\<dots> = d"
  proof (cases "t mod ?W + d < ?W")
    case True
    then show ?thesis using assms by simp
  next
    case False
    have "t mod ?W < ?W" using W by simp
    then have "t mod ?W + d - ?W < ?W" using assms by linarith
    with False have "(t mod ?W + d) mod ?W = t mod ?W + d - ?W"
      using le_mod_geq [of ?W "t mod ?W + d"] by simp
    moreover have "t mod ?W + d - ?W + ?W - t mod ?W = d" using False by simp
    ultimately show ?thesis using assms by simp
  qed
  finally show ?thesis using W by (subst pcr_forward_eq) simp_all
qed

section \<open>The sample index\<close>

definition samples_spaced :: "PcrSample list \<Rightarrow> bool" where
  "samples_spaced =
     sorted_wrt (\<lambda>s t. ps_sequence s < ps_sequence t \<and>
       ps_ticks s + SAMPLE_SPACING_TICKS \<le> ps_ticks t)"

lemma samples_spaced_sorted:
  assumes "samples_spaced xs"
  shows "sorted (map ps_sequence xs)" "sorted (map ps_ticks xs)"
  using assms by (auto simp: samples_spaced_def sorted_map elim: sorted_wrt_mono_rel [rotated])

lemma samples_spaced_snoc:
  assumes "samples_spaced xs"
    and "xs \<noteq> [] \<Longrightarrow> ps_sequence (last xs) < ps_sequence s \<and>
      ps_ticks (last xs) + SAMPLE_SPACING_TICKS \<le> ps_ticks s"
  shows "samples_spaced (xs @ [s])"
proof (cases xs rule: rev_cases)
  case Nil
  then show ?thesis by (simp add: samples_spaced_def)
next
  case (snoc ys y)
  with assms show ?thesis by (fastforce simp: samples_spaced_def sorted_wrt_append)
qed

lemma prune_samples_suffix: "\<exists>ys. xs = ys @ prune_samples f xs"
proof (induction f xs rule: prune_samples.induct)
  case (1 f s t rest)
  then show ?case by (metis Cons_eq_appendI append_Nil prune_samples.simps(1))
qed simp_all

lemma prune_samples_Nil [simp]: "prune_samples f xs = [] \<longleftrightarrow> xs = []"
  by (induction f xs rule: prune_samples.induct) auto

lemma last_prune_samples [simp]: "last (prune_samples f xs) = last xs"
  by (induction f xs rule: prune_samples.induct) auto

lemma samples_spaced_prune: "samples_spaced xs \<Longrightarrow> samples_spaced (prune_samples f xs)"
proof -
  assume "samples_spaced xs"
  moreover obtain ys where "xs = ys @ prune_samples f xs" using prune_samples_suffix by blast
  ultimately have "samples_spaced (ys @ prune_samples f xs)" by simp
  then show ?thesis by (simp add: samples_spaced_def sorted_wrt_append)
qed

text \<open>The entry \<open>ticks_at\<close> reads, as the last entry at or before the position.\<close>

definition sample_at :: "PcrSample list \<Rightarrow> u64 \<Rightarrow> u64 option" where
  "sample_at xs sequence =
     map_option ps_ticks
       (get_at xs (partition_point (\<lambda>s. ps_sequence s \<le> sequence) xs - 1))"

lemma sample_at_simps [simp]:
  "sample_at [] q = None"
  "sample_at [s] q = Some (ps_ticks s)"
  "sample_at (s # t # xs) q =
     (if ps_sequence s \<le> q \<and> ps_sequence t \<le> q then sample_at (t # xs) q else Some (ps_ticks s))"
  by (auto simp: sample_at_def partition_point_def get_at_def)

lemma sample_at_prune:
  "samples_spaced xs \<Longrightarrow> f \<le> q \<Longrightarrow> sample_at (prune_samples f xs) q = sample_at xs q"
  by (induction f xs rule: prune_samples.induct) (auto simp: samples_spaced_def)

lemma sample_at_ge_hd: "samples_spaced (s # xs) \<Longrightarrow> sample_at (s # xs) q = Some t \<Longrightarrow> ps_ticks s \<le> t"
  by (induction xs arbitrary: s) (force simp: samples_spaced_def split: if_splits)+

lemma sample_at_mono:
  "samples_spaced xs \<Longrightarrow> q \<le> r \<Longrightarrow> sample_at xs q = Some t \<Longrightarrow> sample_at xs r = Some u \<Longrightarrow> t \<le> u"
proof (induction xs rule: induct_list012)
  case (3 s s' xs)
  have sp: "samples_spaced (s' # xs)" "ps_ticks s \<le> ps_ticks s'"
    using "3.prems"(1) by (auto simp: samples_spaced_def)
  show ?case
  proof (cases "ps_sequence s \<le> q \<and> ps_sequence s' \<le> q")
    case True
    with "3.prems" sp show ?thesis by (intro "3.IH"(2)) auto
  next
    case False
    with "3.prems"(3) have t: "t = ps_ticks s" by simp
    show ?thesis
      using "3.prems"(4) sp sample_at_ge_hd [OF sp(1), of r u] by (auto simp: t split: if_splits)
  qed
qed auto

lemma sample_at_le_last:
  "samples_spaced xs \<Longrightarrow> sample_at xs q = Some t \<Longrightarrow> t \<le> ps_ticks (last xs)"
proof (induction xs rule: induct_list012)
  case (3 s s' xs)
  have "ps_ticks s \<le> ps_ticks (last (s' # xs))" if "x \<in> set (s' # xs) \<Longrightarrow> True" for x
    using "3.prems"(1) last_in_set [of "s' # xs"] by (fastforce simp: samples_spaced_def)
  with 3 show ?case by (auto simp: samples_spaced_def split: if_splits)
qed auto

section \<open>Reachable timelines\<close>

text \<open>
  \<open>tl_reach n s self\<close>: the timeline after \<open>n\<close> observed packets of a generation, whose sequence
  numbers are below \<open>s\<close> and increase, with prunes in between.
\<close>

inductive tl_reach :: "nat \<Rightarrow> u64 \<Rightarrow> PcrTimeline \<Rightarrow> bool" where
  tl_start: "tl_reach 0 s PcrTimeline_default"
| tl_step: "tl_reach n s self \<Longrightarrow> s \<le> q \<Longrightarrow> tl_reach (Suc n) (Suc q) (tl_observe self packet q)"
| tl_drop: "tl_reach n s self \<Longrightarrow> tl_reach n s (tl_prune self f)"

definition tl_inv :: "nat \<Rightarrow> u64 \<Rightarrow> PcrTimeline \<Rightarrow> bool" where
  "tl_inv n s self \<longleftrightarrow>
     samples_spaced (tl_samples self) \<and>
     tl_has_sample self = (tl_samples self \<noteq> []) \<and>
     (case tl_last_raw self of None \<Rightarrow> tl_samples self = [] | Some raw \<Rightarrow>
        tl_samples self \<noteq> [] \<and> raw < PCR_WRAP_TICKS) \<and>
     (tl_samples self \<noteq> [] \<longrightarrow>
        ps_sequence (last (tl_samples self)) \<le> tl_latest_sequence self \<and>
        ps_ticks (last (tl_samples self)) \<le> tl_unwrapped self \<and>
        tl_unwrapped self < ps_ticks (last (tl_samples self)) + SAMPLE_SPACING_TICKS \<and>
        tl_latest_sequence self < s) \<and>
     tl_unwrapped self \<le> n * MAX_FORWARD_JUMP_TICKS"

text \<open>The cases of one observation, with the media time it leads to.\<close>

lemma tl_observe_cases:
  fixes self :: PcrTimeline
  obtains (kept) "tl_observe self packet q = self"
  | (recorded) raw d u where "parse_pcr packet = Some (raw, d)"
      "tl_observe self packet q = tl_record (self\<lparr>tl_unwrapped := u\<rparr>) raw q"
      "u = tl_unwrapped self \<or> (\<exists>x \<le> MAX_FORWARD_JUMP_TICKS. u = wrapping_add_u64 (tl_unwrapped self) x)"
proof (cases "parse_pcr packet")
  case None
  then show ?thesis by (intro kept) (simp add: tl_observe_def)
next
  case (Some p)
  obtain raw d where p: "p = (raw, d)" by (cases p)
  have same: "self\<lparr>tl_unwrapped := tl_unwrapped self\<rparr> = self" by simp
  show ?thesis
  proof (cases "tl_last_raw self")
    case None
    with Some p show ?thesis by (intro recorded [of raw d "tl_unwrapped self"]) (simp_all add: tl_observe_def)
  next
    case (Some lst)
    define x where "x = pcr_forward raw lst"
    consider "d" | "\<not> d" "x \<le> MAX_FORWARD_JUMP_TICKS"
      | "\<not> d" "\<not> x \<le> MAX_FORWARD_JUMP_TICKS" "PCR_WRAP_TICKS - x \<le> MAX_BACKWARD_JITTER_TICKS"
      | "\<not> d" "\<not> x \<le> MAX_FORWARD_JUMP_TICKS" "\<not> PCR_WRAP_TICKS - x \<le> MAX_BACKWARD_JITTER_TICKS"
      by blast
    then show ?thesis
    proof cases
      case 2
      with Some p \<open>parse_pcr packet = Some p\<close> show ?thesis
        by (intro recorded [of raw d "wrapping_add_u64 (tl_unwrapped self) x"])
          (auto simp: tl_observe_def Let_def x_def [symmetric])
    next
      case 3
      with Some p \<open>parse_pcr packet = Some p\<close> show ?thesis
        by (intro kept) (simp add: tl_observe_def Let_def x_def [symmetric])
    qed (use Some p \<open>parse_pcr packet = Some p\<close> in
        \<open>intro recorded [of raw d "tl_unwrapped self"];
         simp add: tl_observe_def Let_def x_def [symmetric]\<close>)+
  qed
qed

lemma tl_record_inv:
  assumes inv: "tl_inv n s self" and "s \<le> q" and n: "Suc n \<le> 2 ^ 35"
    and raw: "raw < PCR_WRAP_TICKS"
    and u: "tl_unwrapped self \<le> u" "u \<le> tl_unwrapped self + MAX_FORWARD_JUMP_TICKS"
  shows "tl_inv (Suc n) (Suc q) (tl_record (self\<lparr>tl_unwrapped := u\<rparr>) raw q)"
proof -
  have bound: "n * MAX_FORWARD_JUMP_TICKS + 2 * MAX_FORWARD_JUMP_TICKS < u64_bound"
    using n by (simp add: pcr_constants)
  have small: "SAMPLE_SPACING_TICKS \<le> MAX_FORWARD_JUMP_TICKS" by (simp add: pcr_constants)
  have ex: "wrapping_add_u64 (ps_ticks (last (tl_samples self))) SAMPLE_SPACING_TICKS
      = ps_ticks (last (tl_samples self)) + SAMPLE_SPACING_TICKS" if "tl_samples self \<noteq> []"
    using inv that bound small by (intro wrapping_add_u64_exact) (auto simp: tl_inv_def)
  let ?s = "\<lparr>ps_sequence = q, ps_ticks = u\<rparr>"
  let ?spaced = "tl_samples self = [] \<or> ps_ticks (last (tl_samples self)) + SAMPLE_SPACING_TICKS \<le> u"
  have snoc: "samples_spaced (tl_samples self @ [?s])" if ?spaced
    using inv \<open>s \<le> q\<close> that by (intro samples_spaced_snoc) (auto simp: tl_inv_def)
  show ?thesis
    using inv \<open>s \<le> q\<close> raw u snoc
    by (auto simp: tl_inv_def tl_record_def Let_def ex)
qed

lemma tl_unwrapped_step_exact:
  assumes "tl_inv n s self" and "Suc n \<le> 2 ^ 35" and "x \<le> MAX_FORWARD_JUMP_TICKS"
  shows "wrapping_add_u64 (tl_unwrapped self) x = tl_unwrapped self + x"
proof -
  have "n * MAX_FORWARD_JUMP_TICKS + MAX_FORWARD_JUMP_TICKS < u64_bound"
    using assms(2) by (simp add: pcr_constants)
  with assms show ?thesis by (intro wrapping_add_u64_exact) (auto simp: tl_inv_def)
qed

lemma tl_inv_weaken: "tl_inv n s self \<Longrightarrow> s \<le> s' \<Longrightarrow> n \<le> n' \<Longrightarrow> tl_inv n' s' self"
  by (auto simp: tl_inv_def split: option.splits intro: order_trans [OF _ mult_le_mono1])

lemma tl_observe_inv:
  assumes inv: "tl_inv n s self" and "s \<le> q" and n: "Suc n \<le> 2 ^ 35"
  shows "tl_inv (Suc n) (Suc q) (tl_observe self packet q)"
    and "tl_unwrapped self \<le> tl_unwrapped (tl_observe self packet q)"
proof -
  have "tl_inv (Suc n) (Suc q) (tl_observe self packet q) \<and>
    tl_unwrapped self \<le> tl_unwrapped (tl_observe self packet q)"
  proof (cases rule: tl_observe_cases [of self packet q])
    case kept
    with inv \<open>s \<le> q\<close> show ?thesis by (auto intro: tl_inv_weaken)
  next
    case (recorded raw d u)
    then have "tl_unwrapped self \<le> u" "u \<le> tl_unwrapped self + MAX_FORWARD_JUMP_TICKS"
      using tl_unwrapped_step_exact [OF inv n] by auto
    moreover have "raw < PCR_WRAP_TICKS" using recorded(1) by (rule parse_pcr_less)
    ultimately show ?thesis
      using tl_record_inv [OF inv \<open>s \<le> q\<close> n] recorded(2) by (simp add: tl_record_def Let_def)
  qed
  then show "tl_inv (Suc n) (Suc q) (tl_observe self packet q)"
    and "tl_unwrapped self \<le> tl_unwrapped (tl_observe self packet q)" by simp_all
qed

lemma tl_prune_inv: "tl_inv n s self \<Longrightarrow> tl_inv n s (tl_prune self f)"
  by (auto simp: tl_inv_def tl_prune_def samples_spaced_prune split: option.splits)

lemma tl_reach_inv: "tl_reach n s self \<Longrightarrow> n \<le> 2 ^ 35 \<Longrightarrow> tl_inv n s self"
proof (induction rule: tl_reach.induct)
  case (tl_start s)
  show ?case by (simp add: tl_inv_def PcrTimeline_default_def samples_spaced_def)
qed (auto intro: tl_observe_inv tl_prune_inv)

lemma tl_ticks_at_eq:
  "tl_ticks_at self q =
     (if tl_has_sample self \<and> tl_latest_sequence self \<le> q then Some (tl_unwrapped self)
      else sample_at (tl_samples self) q)"
  by (simp add: tl_ticks_at_def sample_at_def Let_def)

lemma tl_ticks_at_mono:
  assumes inv: "tl_inv n s self" and "q \<le> r"
    and "tl_ticks_at self q = Some t" "tl_ticks_at self r = Some u"
  shows "t \<le> u"
proof (cases "tl_has_sample self \<and> tl_latest_sequence self \<le> r")
  case True
  then have u: "u = tl_unwrapped self" and last: "ps_ticks (last (tl_samples self)) \<le> u"
    using inv assms(4) by (auto simp: tl_ticks_at_eq tl_inv_def)
  show ?thesis
    using assms(3) u last sample_at_le_last [of "tl_samples self" q t] inv
    by (auto simp: tl_ticks_at_eq tl_inv_def split: if_splits)
next
  case False
  with assms show ?thesis
    by (auto simp: tl_ticks_at_eq tl_inv_def split: if_splits
        intro: sample_at_mono [of "tl_samples self" q r])
qed



lemma partition_point_eqI:
  assumes "n \<le> length xs" and "\<And>i. i < n \<Longrightarrow> p (xs ! i)" and "n < length xs \<Longrightarrow> \<not> p (xs ! n)"
  shows "partition_point p xs = n"
  using assms takeWhile_eq_take_P_nth [of n xs p] by (simp add: partition_point_def)

lemma tl_sequence_at_or_after_spec:
  assumes inv: "tl_inv n s self" and found: "tl_sequence_at_or_after self t = Some q"
  shows "\<exists>u. tl_ticks_at self q = Some u \<and> t \<le> u"
    and "\<forall>x \<in> set (tl_samples self). t \<le> ps_ticks x \<longrightarrow> q \<le> ps_sequence x"
proof -
  define i where "i = partition_point (\<lambda>x. ps_ticks x < t) (tl_samples self)"
  have i: "i < length (tl_samples self)" and q: "q = ps_sequence (tl_samples self ! i)"
    using found by (auto simp: tl_sequence_at_or_after_def Let_def i_def get_at_def split: if_splits)
  have t: "t \<le> ps_ticks (tl_samples self ! i)"
    using i nth_length_takeWhile [of "\<lambda>x. ps_ticks x < t" "tl_samples self"]
    by (auto simp: i_def partition_point_def)
  have sp: "samples_spaced (tl_samples self)" using inv by (simp add: tl_inv_def)
  have idx: "ps_sequence (tl_samples self ! j) < ps_sequence (tl_samples self ! k) \<and>
      ps_ticks (tl_samples self ! j) \<le> ps_ticks (tl_samples self ! k)"
    if "j < k" "k < length (tl_samples self)" for j k
    using sp that sorted_wrt_nth_less [of _ "tl_samples self" j k]
    by (fastforce simp: samples_spaced_def)
  have pp: "partition_point (\<lambda>x. ps_sequence x \<le> q) (tl_samples self) = Suc i"
  proof (rule partition_point_eqI)
    show "ps_sequence (tl_samples self ! j) \<le> q" if "j < Suc i" for j
      using that idx [of j i] i by (cases "j = i") (auto simp: q)
    show "\<not> ps_sequence (tl_samples self ! Suc i) \<le> q" if "Suc i < length (tl_samples self)"
      using that idx [of i "Suc i"] by (auto simp: q)
  qed (use i in simp)
  show "\<forall>x \<in> set (tl_samples self). t \<le> ps_ticks x \<longrightarrow> q \<le> ps_sequence x"
  proof (intro ballI impI)
    fix x assume "x \<in> set (tl_samples self)" and x: "t \<le> ps_ticks x"
    then obtain j where j: "j < length (tl_samples self)" "x = tl_samples self ! j"
      by (auto simp: in_set_conv_nth)
    have "i \<le> j"
    proof (rule ccontr)
      assume "\<not> i \<le> j"
      then have "j < length (takeWhile (\<lambda>x. ps_ticks x < t) (tl_samples self))"
        by (simp add: i_def partition_point_def)
      then have "x \<in> set (takeWhile (\<lambda>x. ps_ticks x < t) (tl_samples self))"
        by (metis j(2) nth_mem takeWhile_nth)
      with x show False by (auto dest: set_takeWhileD)
    qed
    then show "q \<le> ps_sequence x" using idx [of i j] j by (cases "i = j") (auto simp: q)
  qed
  have "i = length (tl_samples self) - 1 \<or> i < length (tl_samples self) - 1" using i by auto
  then have "ps_ticks (tl_samples self ! i) \<le> tl_unwrapped self"
    using inv i idx [of i "length (tl_samples self) - 1"]
    by (auto simp: tl_inv_def last_conv_nth)
  then show "\<exists>u. tl_ticks_at self q = Some u \<and> t \<le> u"
    using t i by (auto simp: tl_ticks_at_def pp get_at_def)
qed

text \<open>A target at least one index spacing behind the head is always found.\<close>

lemma tl_sequence_at_or_after_exists:
  assumes inv: "tl_inv n s self" and head: "tl_head_ticks self = Some h"
    and t: "t + SAMPLE_SPACING_TICKS \<le> h \<or> t = 0"
  shows "\<exists>q. tl_sequence_at_or_after self t = Some q"
proof -
  define i where "i = partition_point (\<lambda>x. ps_ticks x < t) (tl_samples self)"
  have ne: "tl_samples self \<noteq> []" and h: "h = tl_unwrapped self"
    using inv head by (auto simp: tl_inv_def tl_head_ticks_def split: if_splits)
  have "\<not> ps_ticks (last (tl_samples self)) < t"
    using inv t ne by (auto simp: tl_inv_def h)
  then have "\<exists>x \<in> set (tl_samples self). \<not> ps_ticks x < t" using ne last_in_set by blast
  then have "i < length (tl_samples self)"
    unfolding i_def partition_point_def by (metis length_append less_add_same_cancel1
      length_greater_0_conv takeWhile_dropWhile_id dropWhile_eq_Nil_conv)
  then show ?thesis by (simp add: tl_sequence_at_or_after_def i_def [symmetric] get_at_def)
qed

section \<open>The clock is followed exactly\<close>


text \<open>
  \<open>carries_clock t xs\<close>: the packets of \<open>xs\<close> carry readings of the unbounded 27 MHz clock
  through the 33-bit field, each at most ten seconds after the one before it.
\<close>

fun carries_clock :: "u64 \<Rightarrow> (u64 \<times> bytes \<times> u64) list \<Rightarrow> bool" where
  "carries_clock t [] = True"
| "carries_clock t ((t', packet, q) # rest) \<longleftrightarrow>
     t \<le> t' \<and> t' - t \<le> MAX_FORWARD_JUMP_TICKS \<and>
     parse_pcr packet = Some (t' mod PCR_WRAP_TICKS, False) \<and> carries_clock t' rest"

fun clock_end :: "u64 \<Rightarrow> (u64 \<times> bytes \<times> u64) list \<Rightarrow> u64" where
  "clock_end t [] = t"
| "clock_end t ((t', packet, q) # rest) = clock_end t' rest"

fun tl_run :: "PcrTimeline \<Rightarrow> (u64 \<times> bytes \<times> u64) list \<Rightarrow> PcrTimeline" where
  "tl_run self [] = self"
| "tl_run self ((t, packet, q) # rest) = tl_run (tl_observe self packet q) rest"

lemma clock_end_ge: "carries_clock t xs \<Longrightarrow> t \<le> clock_end t xs"
  by (induction t xs rule: carries_clock.induct) auto

lemma tl_record_fields [simp]:
  "tl_last_raw (tl_record self raw q) = Some raw"
  "tl_unwrapped (tl_record self raw q) = tl_unwrapped self"
  "tl_has_sample (tl_record self raw q)"
  by (simp_all add: tl_record_def Let_def)

lemma tl_observe_advance:
  assumes "tl_last_raw self = Some (t mod PCR_WRAP_TICKS)"
    and "parse_pcr packet = Some (t' mod PCR_WRAP_TICKS, False)"
    and "t \<le> t'" "t' - t \<le> MAX_FORWARD_JUMP_TICKS"
    and "tl_unwrapped self + (t' - t) < u64_bound"
  shows "tl_last_raw (tl_observe self packet q) = Some (t' mod PCR_WRAP_TICKS)"
    and "tl_unwrapped (tl_observe self packet q) = tl_unwrapped self + (t' - t)"
    and "tl_has_sample (tl_observe self packet q)"
proof -
  have "t' - t < PCR_WRAP_TICKS" using assms(4) by (simp add: pcr_constants)
  then have fwd: "pcr_forward (t' mod PCR_WRAP_TICKS) (t mod PCR_WRAP_TICKS) = t' - t"
    using pcr_forward_advance [of "t' - t" t] assms(3) by simp
  show "tl_last_raw (tl_observe self packet q) = Some (t' mod PCR_WRAP_TICKS)"
    "tl_unwrapped (tl_observe self packet q) = tl_unwrapped self + (t' - t)"
    "tl_has_sample (tl_observe self packet q)"
    using assms by (simp_all add: tl_observe_def fwd)
qed

lemma tl_run_clock:
  assumes "carries_clock t xs" and "tl_last_raw self = Some (t mod PCR_WRAP_TICKS)"
    and "tl_has_sample self" and "tl_unwrapped self + (clock_end t xs - t) < u64_bound"
  shows "tl_head_ticks (tl_run self xs) = Some (tl_unwrapped self + (clock_end t xs - t))"
  using assms
proof (induction t xs arbitrary: self rule: carries_clock.induct)
  case (1 t)
  then show ?case by (simp add: tl_head_ticks_def)
next
  case (2 t t' packet q rest)
  have "t' \<le> clock_end t' rest" using "2.prems"(1) by (intro clock_end_ge) simp
  then have sum: "tl_unwrapped self + (t' - t) + (clock_end t' rest - t') =
      tl_unwrapped self + (clock_end t' rest - t)"
    using "2.prems"(1) by simp
  then have "tl_unwrapped self + (t' - t) < u64_bound" using "2.prems"(4) by simp
  note step = tl_observe_advance [OF "2.prems"(2) _ _ _ this, where packet = packet and q = q]
  show ?case
    using "2.IH" [of "tl_observe self packet q"] "2.prems" sum by (simp add: step)
qed

text \<open>the media timeline is exact.  When the PCR packets of a generation carry a 27 MHz clock
  through the 33-bit field, each reading at most ten seconds after the previous one, the media time
  at the newest PCR is the time since the first reading, however often the field wrapped.\<close>

theorem timeline_follows_the_clock:
  assumes "carries_clock t0 ((t0, packet, q) # rest)" and "clock_end t0 rest - t0 < u64_bound"
  shows "tl_head_ticks (tl_run PcrTimeline_default ((t0, packet, q) # rest)) =
    Some (clock_end t0 rest - t0)"
proof -
  have "tl_last_raw (tl_observe PcrTimeline_default packet q) = Some (t0 mod PCR_WRAP_TICKS)"
    "tl_has_sample (tl_observe PcrTimeline_default packet q)"
    "tl_unwrapped (tl_observe PcrTimeline_default packet q) = 0"
    using assms(1) by (simp_all add: tl_observe_def PcrTimeline_default_def)
  then show ?thesis using tl_run_clock [of t0 rest "tl_observe PcrTimeline_default packet q"] assms
    by simp
qed

text \<open>A packet whose adaptation field carries the given PCR bytes, for the fixtures.\<close>

definition pcr_packet :: "bytes \<Rightarrow> bytes" where
  "pcr_packet pcr = [0x47, 0x01, 0x01, 0x20, 183, 0x10] @ pcr @ replicate 176 0xFF"

lemma parse_pcr_packet_end:
  "parse_pcr (pcr_packet [0xFF, 0xFF, 0xFF, 0xFF, 0xFE, 0x00]) = Some (PCR_WRAP_TICKS - 300, False)"
  by (simp add: parse_pcr_def pcr_packet_def pcr_base_def pcr_extension_def pcr_constants)

lemma parse_pcr_packet_start:
  "parse_pcr (pcr_packet [0x00, 0x00, 0x00, 0x08, 0x7E, 200]) = Some (5000, False)"
  by (simp add: parse_pcr_def pcr_packet_def pcr_base_def pcr_extension_def pcr_constants)

theorem timeline_follows_the_clock_witness:
  "tl_head_ticks (tl_run PcrTimeline_default
     [(PCR_WRAP_TICKS - 300, pcr_packet [0xFF, 0xFF, 0xFF, 0xFF, 0xFE, 0x00], 10),
      (PCR_WRAP_TICKS + 5000, pcr_packet [0x00, 0x00, 0x00, 0x08, 0x7E, 200], 11)]) = Some 5300"
  using timeline_follows_the_clock [of "PCR_WRAP_TICKS - 300"
      "pcr_packet [0xFF, 0xFF, 0xFF, 0xFF, 0xFE, 0x00]" 10
      "[(PCR_WRAP_TICKS + 5000, pcr_packet [0x00, 0x00, 0x00, 0x08, 0x7E, 200], 11)]"]
    parse_pcr_packet_end parse_pcr_packet_start
  by (simp add: pcr_constants)

section \<open>Monotone and searchable\<close>

text \<open>the media timeline of a generation never moves backward.  In every timeline reached by
  observing packets in sequence order, with prunes in between, for up to \<open>2 ^ 35\<close> packets, the next
  observation does not lower the media time at the head, and a later position never has an
  earlier media time than an earlier one.\<close>

theorem timeline_never_moves_backward:
  assumes "tl_reach n s self" and "n < 2 ^ 35" and "s \<le> q"
  shows "tl_unwrapped self \<le> tl_unwrapped (tl_observe self packet q) \<and>
    (a \<le> b \<longrightarrow> tl_ticks_at self a = Some t \<longrightarrow> tl_ticks_at self b = Some u \<longrightarrow> t \<le> u)"
  using tl_observe_inv(2) [OF tl_reach_inv [OF assms(1)] assms(3), of packet]
    tl_ticks_at_mono [OF tl_reach_inv [OF assms(1)], of a b t u] assms(2) by auto

lemma tl_reach_sample:
  "tl_reach 2 12 (tl_observe (tl_observe PcrTimeline_default p1 10) p2 11)"
  using tl_step [OF tl_step [OF tl_start [of 10], of 10 p1], of 11 p2] by (simp add: numeral_2_eq_2)

lemma tl_sample_fields:
  fixes p1 p2
  defines "self \<equiv> tl_observe (tl_observe PcrTimeline_default p1 10) p2 11"
  assumes "parse_pcr p1 = Some (PCR_WRAP_TICKS - 300, False)" "parse_pcr p2 = Some (5000, False)"
  shows "self = \<lparr>tl_last_raw = Some 5000, tl_unwrapped = 5300, tl_latest_sequence = 11,
     tl_has_sample = True, tl_samples = [\<lparr>ps_sequence = 10, ps_ticks = 0\<rparr>]\<rparr>"
  unfolding self_def tl_observe_def PcrTimeline_default_def
  by (simp add: assms(2,3) tl_record_def pcr_forward_def wrapping_add_u64_def wrapping_sub_u64_def
      pcr_constants)

theorem timeline_never_moves_backward_witness:
  "\<exists>p1 p2. let self = tl_observe (tl_observe PcrTimeline_default p1 10) p2 11 in
     tl_ticks_at self 10 = Some 0 \<and> tl_ticks_at self 11 = Some 5300 \<and>
     tl_unwrapped self \<le> tl_unwrapped (tl_observe self p1 12)"
proof -
  define p1 where "p1 = pcr_packet [0xFF, 0xFF, 0xFF, 0xFF, 0xFE, 0x00]"
  define p2 where "p2 = pcr_packet [0x00, 0x00, 0x00, 0x08, 0x7E, 200]"
  define self where "self = tl_observe (tl_observe PcrTimeline_default p1 10) p2 11"
  have fields: "self = \<lparr>tl_last_raw = Some 5000, tl_unwrapped = 5300, tl_latest_sequence = 11,
     tl_has_sample = True, tl_samples = [\<lparr>ps_sequence = 10, ps_ticks = 0\<rparr>]\<rparr>"
    unfolding self_def p1_def p2_def
    by (rule tl_sample_fields) (fact parse_pcr_packet_end parse_pcr_packet_start)+
  have "tl_unwrapped self \<le> tl_unwrapped (tl_observe self p1 12)"
    using timeline_never_moves_backward [of 2 12 self 12 p1 0 0 0 0] tl_reach_sample [of p1 p2]
    by (simp add: self_def)
  moreover have "tl_ticks_at self 10 = Some 0" "tl_ticks_at self 11 = Some 5300"
    by (simp_all add: fields tl_ticks_at_eq)
  ultimately show ?thesis unfolding self_def Let_def by blast
qed

text \<open>the sample index supports its lookups.  In every reached timeline: pruning the entries
  before the ring's first packet changes no lookup at a position still in the ring, and
  \<open>sequence_at_or_after\<close> returns a position whose media time is at least the one asked for, the
  first one among the indexed packets.\<close>

theorem timeline_lookups:
  assumes "tl_reach n s self" and "n \<le> 2 ^ 35"
  shows "(first \<le> q \<longrightarrow> tl_ticks_at (tl_prune self first) q = tl_ticks_at self q) \<and>
    (tl_sequence_at_or_after self t = Some r \<longrightarrow>
       (\<exists>u. tl_ticks_at self r = Some u \<and> t \<le> u) \<and>
       (\<forall>x \<in> set (tl_samples self). t \<le> ps_ticks x \<longrightarrow> r \<le> ps_sequence x))"
proof -
  have inv: "tl_inv n s self" using assms by (rule tl_reach_inv)
  then have "samples_spaced (tl_samples self)" by (simp add: tl_inv_def)
  then have "tl_ticks_at (tl_prune self first) q = tl_ticks_at self q" if "first \<le> q"
    using that by (auto simp: tl_ticks_at_eq tl_prune_def sample_at_prune)
  with tl_sequence_at_or_after_spec [OF inv, of t r] show ?thesis by blast
qed

theorem timeline_lookups_witness:
  "\<exists>p1 p2. let self = tl_observe (tl_observe PcrTimeline_default p1 10) p2 11 in
     tl_ticks_at (tl_prune self 11) 11 = Some 5300 \<and> tl_sequence_at_or_after self 0 = Some 10"
proof -
  define p1 where "p1 = pcr_packet [0xFF, 0xFF, 0xFF, 0xFF, 0xFE, 0x00]"
  define p2 where "p2 = pcr_packet [0x00, 0x00, 0x00, 0x08, 0x7E, 200]"
  define self where "self = tl_observe (tl_observe PcrTimeline_default p1 10) p2 11"
  have fields: "self = \<lparr>tl_last_raw = Some 5000, tl_unwrapped = 5300, tl_latest_sequence = 11,
     tl_has_sample = True, tl_samples = [\<lparr>ps_sequence = 10, ps_ticks = 0\<rparr>]\<rparr>"
    unfolding self_def p1_def p2_def
    by (rule tl_sample_fields) (fact parse_pcr_packet_end parse_pcr_packet_start)+
  have "tl_ticks_at (tl_prune self 11) 11 = tl_ticks_at self 11"
    using timeline_lookups [of 2 12 self 11 11 0 0] tl_reach_sample [of p1 p2]
    by (simp add: self_def)
  moreover have "tl_ticks_at self 11 = Some 5300" "tl_sequence_at_or_after self 0 = Some 10"
    by (simp_all add: fields tl_ticks_at_eq tl_sequence_at_or_after_def partition_point_def get_at_def)
  ultimately show ?thesis unfolding self_def Let_def by metis
qed


section \<open>Pacer: bounded and on time\<close>

lemma pa_hold_unanchored:
  "pa_anchor self = None \<Longrightarrow> snd (pa_hold self position now) = 0"
  by (simp add: pa_hold.simps pa_hold_pcr.simps pa_hold_bytes.simps split: option.split)

lemma pa_hold_pcr_le: "snd (pa_hold_pcr self ticks now position) \<le> MAX_HOLD"
  by (auto simp: pa_hold_pcr.simps Let_def pa_hold_unanchored split: option.split Anchor.split)

lemma pa_hold_bytes_le: "snd (pa_hold_bytes self q r now position) \<le> MAX_HOLD"
  by (auto simp: pa_hold_bytes.simps Let_def pa_hold_unanchored split: option.split Anchor.split)

text \<open>bounded wait.  Whatever the position and the clock reference, a batch is held at most
  five seconds; a longer hold drops the reference and releases at once.\<close>

theorem pacer_hold_bounded: "snd (pa_hold self position now) \<le> MAX_HOLD"
  by (auto simp: pa_hold.simps pa_hold_pcr_le pa_hold_bytes_le split: option.split)



text \<open>\<open>ticks_to_duration\<close> and \<open>duration_to_ticks\<close>: a tick is 1000 / 27 ns, so the round trip
  through nanoseconds loses less than one tick, and never gains.\<close>

lemma duration_ticks_round_trip:
  assumes "ticks * 1000000000 div PCR_TICKS_PER_SECOND < u64_bound"
  shows "duration_to_ticks (ticks_to_duration ticks) \<le> ticks"
    and "ticks \<le> duration_to_ticks (ticks_to_duration ticks) + 1"
proof -
  define d where "d = ticks * 1000 div 27"
  have d: "ticks_to_duration ticks = d"
    using assms by (simp add: ticks_to_duration_def try_u64_def pcr_constants d_def)
  have "d * 27 div 1000 \<le> ticks" "ticks \<le> d * 27 div 1000 + 1" unfolding d_def by linarith+
  moreover have "d * 27 div 1000 < u64_bound" using assms by (simp add: pcr_constants d_def)
  ultimately show "duration_to_ticks (ticks_to_duration ticks) \<le> ticks"
    "ticks \<le> duration_to_ticks (ticks_to_duration ticks) + 1"
    by (simp_all add: d mult.commute duration_to_ticks_def try_u64_def pcr_constants)
qed


end
