(* ===== verification/Meter.thy ===== *)
theory Meter
  imports Psi Pacing
begin

text \<open>
  Stream rates (\<open>crates/media/src/meter.rs\<close>): packets per second of media time for the bitrate,
  the swing between media time and wall-clock time for the burst, and the median spacing of the
  video decode timestamps for the frame rate.

  Main results: the meter never reports more bits than the ring received, reports nothing before
  eight complete seconds, and its frame rate is the measured one or a standard rate within half a
  percent of it, also where the 32-bit product of the comparison wraps.
\<close>

section \<open>Constants\<close>

definition WINDOW_SECONDS :: usize where "WINDOW_SECONDS = 120"
definition PEAK_WINDOW_SECONDS :: usize where "PEAK_WINDOW_SECONDS = 5"
definition MIN_COMPLETE_SECONDS :: usize where "MIN_COMPLETE_SECONDS = 8"
definition FRAME_SAMPLES :: usize where "FRAME_SAMPLES = 120"
definition MIN_FRAME_SAMPLES :: usize where "MIN_FRAME_SAMPLES = 30"
definition PTS_WRAP :: u64 where "PTS_WRAP = 2 ^ 33"
definition PTS_TICKS_PER_SECOND :: u64 where "PTS_TICKS_PER_SECOND = 90000"

definition STANDARD_RATES_MILLIHERTZ :: "nat list" where
  "STANDARD_RATES_MILLIHERTZ = [23976, 24000, 25000, 29970, 30000, 50000, 59940, 60000]"

lemmas meter_constants = WINDOW_SECONDS_def PEAK_WINDOW_SECONDS_def MIN_COMPLETE_SECONDS_def
  FRAME_SAMPLES_def MIN_FRAME_SAMPLES_def PTS_WRAP_def PTS_TICKS_PER_SECOND_def
  STANDARD_RATES_MILLIHERTZ_def

section \<open>State\<close>

record StreamRates =
  sr_average_bits_per_second :: u64
  sr_peak_bits_per_second :: u64
  sr_burst :: duration
  sr_frame_rate_millihertz :: "nat option"
  sr_measured :: duration

record ClockMark =
  cm_ticks :: u64
  cm_sequence :: u64

record RateMeter =
  rm_last :: "ClockMark option"
  rm_origin :: "(u64 \<times> instant) option"
  rm_seconds :: "u64 list"
  rm_current_second :: u64
  rm_measured_ticks :: u64
  rm_min_offset_millis :: int
  rm_max_offset_millis :: int
  rm_video_pid :: "u16 option"
  rm_last_decode :: "u64 option"
  rm_frame_gaps :: "nat list"

definition RateMeter_default :: RateMeter where
  "RateMeter_default = \<lparr>rm_last = None, rm_origin = None, rm_seconds = [], rm_current_second = 0,
     rm_measured_ticks = 0, rm_min_offset_millis = 0, rm_max_offset_millis = 0,
     rm_video_pid = None, rm_last_decode = None, rm_frame_gaps = []\<rparr>"

section \<open>Operations\<close>

definition rm_set_video_pid :: "RateMeter \<Rightarrow> u16 option \<Rightarrow> RateMeter" where
  "rm_set_video_pid self pid =
     (if rm_video_pid self \<noteq> pid
      then self\<lparr>rm_video_pid := pid, rm_last_decode := None, rm_frame_gaps := []\<rparr>
      else self)"

definition try_i64 :: "nat \<Rightarrow> int option" where
  "try_i64 n = (if int n \<le> i64_max then Some (int n) else None)"

definition saturating_sub_i64 :: "int \<Rightarrow> int \<Rightarrow> int" where
  "saturating_sub_i64 a b = max i64_min (min i64_max (a - b))"

text \<open>\<open>back_mut\<close> with a saturating addition, and the trim to the window.\<close>

definition rm_count :: "u64 list \<Rightarrow> u64 \<Rightarrow> u64 list" where
  "rm_count seconds packets =
     (if seconds = [] then []
      else butlast seconds @ [saturating_add_u64 (last seconds) packets])"

definition rm_offsets :: "RateMeter \<Rightarrow> u64 \<Rightarrow> instant \<Rightarrow> RateMeter" where
  "rm_offsets self ticks now =
     (case rm_origin self of
        None \<Rightarrow> self
      | Some (origin_ticks, origin_instant) \<Rightarrow>
          let media = saturating_sub ticks origin_ticks div (PCR_TICKS_PER_SECOND div 1000);
              wall = saturating_sub now origin_instant div 1000000;
              media = unwrap_or (try_i64 media) i64_max;
              wall = unwrap_or (try_i64 wall) i64_max;
              offset = saturating_sub_i64 media wall
          in self\<lparr>rm_min_offset_millis := min (rm_min_offset_millis self) offset,
                  rm_max_offset_millis := max (rm_max_offset_millis self) offset\<rparr>)"

definition rm_observe_clock :: "RateMeter \<Rightarrow> u64 \<Rightarrow> u64 \<Rightarrow> instant \<Rightarrow> RateMeter" where
  "rm_observe_clock self ticks sequence now =
     (case rm_last self of
        None \<Rightarrow>
          self\<lparr>rm_last := Some \<lparr>cm_ticks = ticks, cm_sequence = sequence\<rparr>,
               rm_origin := Some (ticks, now),
               rm_seconds := rm_seconds self @ [0],
               rm_current_second := ticks div PCR_TICKS_PER_SECOND\<rparr>
      | Some lst \<Rightarrow>
          if sequence \<le> cm_sequence lst then self
          else let packets = sequence - cm_sequence lst;
                   elapsed_ticks = saturating_sub ticks (cm_ticks lst);
                   second = ticks div PCR_TICKS_PER_SECOND;
                   self = (if second > rm_current_second self
                           then self\<lparr>rm_seconds := rm_seconds self @
                                  replicate (min (second - rm_current_second self) WINDOW_SECONDS) 0,
                                rm_current_second := second\<rparr>
                           else self);
                   self = self\<lparr>rm_seconds := lastn WINDOW_SECONDS (rm_count (rm_seconds self) packets)\<rparr>;
                   self = self\<lparr>rm_last := Some \<lparr>cm_ticks = ticks, cm_sequence = sequence\<rparr>,
                     rm_measured_ticks := saturating_add_u64 (rm_measured_ticks self) elapsed_ticks\<rparr>
               in rm_offsets self ticks now)"

definition is_video_stream_type :: "u8 \<Rightarrow> bool" where
  "is_video_stream_type stream_type \<longleftrightarrow> stream_type \<in> {0x01, 0x02, 0x10, 0x1b, 0x24}"

definition read_timestamp :: "bytes \<Rightarrow> u64 option" where
  "read_timestamp b =
     (if length b < 5 then None
      else Some (unat (push_bit 30 (ucast (drop_bit 1 (b ! 0)) AND 0x07)
             OR push_bit 22 (ucast (b ! 1))
             OR push_bit 15 (drop_bit 1 (ucast (b ! 2)))
             OR push_bit 7 (ucast (b ! 3))
             OR drop_bit 1 (ucast (b ! 4)) :: 64 word)))"

definition pes_decode_timestamp :: "bytes \<Rightarrow> u64 option" where
  "pes_decode_timestamp packet =
     (if length packet \<noteq> MPEG_TS_PACKET_SIZE \<or> packet ! 1 AND 0x40 = 0 \<or> packet ! 3 AND 0x10 = 0
      then None
      else let start = (if packet ! 3 AND 0x20 \<noteq> 0 then 5 + unat (packet ! 4) else 4) in
        if length packet < start then None
        else let pes = drop start packet in
          if length pes < 14 \<or> take 3 pes \<noteq> [0, 0, 1] then None
          else let flags = drop_bit 6 (pes ! 7) in
            if flags = 3 then Option.bind (get_range pes 14 19) read_timestamp
            else if flags = 2 then read_timestamp (slice 9 5 pes)
            else None)"

definition rm_observe_video :: "RateMeter \<Rightarrow> bytes \<Rightarrow> RateMeter" where
  "rm_observe_video self packet =
     (case pes_decode_timestamp packet of
        None \<Rightarrow> self
      | Some decode \<Rightarrow>
          let self =
            (case rm_last_decode self of
               None \<Rightarrow> self
             | Some lst \<Rightarrow>
                 let gap = wrapping_sub_u64 (wrapping_add_u64 decode PTS_WRAP) lst mod PTS_WRAP in
                 if gap > 0 \<and> gap < PTS_TICKS_PER_SECOND
                 then self\<lparr>rm_frame_gaps := lastn FRAME_SAMPLES (rm_frame_gaps self @ [gap])\<rparr>
                 else self)
          in self\<lparr>rm_last_decode := Some decode\<rparr>)"

section \<open>Reports\<close>

definition u32_abs_diff :: "nat \<Rightarrow> nat \<Rightarrow> nat" where
  "u32_abs_diff a b = (if a < b then b - a else a - b)"

text \<open>The product \<open>abs_diff * 200\<close> is computed in \<open>u32\<close>; it wraps for a gap below 5 ticks.\<close>

definition near_standard_rate :: "nat \<Rightarrow> nat \<Rightarrow> bool" where
  "near_standard_rate measured rate \<longleftrightarrow> u32_abs_diff measured rate * 200 mod 2 ^ 32 \<le> rate"

definition rm_frame_rate_millihertz :: "RateMeter \<Rightarrow> nat option" where
  "rm_frame_rate_millihertz self =
     (if length (rm_frame_gaps self) < MIN_FRAME_SAMPLES then None
      else let gaps = sort (rm_frame_gaps self);
               median = gaps ! (length gaps div 2);
               quotient = PTS_TICKS_PER_SECOND * 1000 div max median 1
           in if quotient < 2 ^ 32
              then Some (unwrap_or (find (near_standard_rate quotient) STANDARD_RATES_MILLIHERTZ)
                     quotient)
              else None)"

definition sum_u64 :: "u64 list \<Rightarrow> u64" where
  "sum_u64 xs = foldl wrapping_add_u64 0 xs"

definition iter_max :: "nat list \<Rightarrow> nat option" where
  "iter_max xs = (case xs of [] \<Rightarrow> None | x # rest \<Rightarrow> Some (foldl max x rest))"

definition rm_complete :: "RateMeter \<Rightarrow> u64 list" where
  "rm_complete self = take (saturating_sub (length (rm_seconds self)) 2) (drop 1 (rm_seconds self))"

definition rm_rates :: "RateMeter \<Rightarrow> StreamRates option" where
  "rm_rates self =
     (let complete = rm_complete self in
      if length complete < MIN_COMPLETE_SECONDS then None
      else let bits_per_packet = MPEG_TS_PACKET_SIZE * 8;
               average = saturating_mul_u64 (sum_u64 complete) bits_per_packet div length complete;
               peak = max (unwrap_or (iter_max (map (\<lambda>window.
                          saturating_mul_u64 (sum_u64 window) bits_per_packet div length window)
                        (windows (min PEAK_WINDOW_SECONDS (length complete)) complete))) average)
                      average;
               swing = saturating_sub_i64 (rm_max_offset_millis self) (rm_min_offset_millis self)
           in Some \<lparr>sr_average_bits_per_second = average, sr_peak_bits_per_second = peak,
                sr_burst = (if 0 \<le> swing then nat swing else 0) * 1000000,
                sr_frame_rate_millihertz = rm_frame_rate_millihertz self,
                sr_measured = rm_measured_ticks self div (PCR_TICKS_PER_SECOND div 1000) * 1000000\<rparr>)"

section \<open>Conservation of packets\<close>

lemma sum_list_lastn_le: "sum_list (lastn n xs) \<le> sum_list (xs :: nat list)"
  by (metis append_take_drop_id lastn_def le_add2 sum_list_append)

lemma sum_list_rm_count:
  assumes "xs \<noteq> []" and "sum_list xs + p \<le> u64_max"
  shows "sum_list (rm_count xs p) = sum_list xs + p" "length (rm_count xs p) = length xs"
proof -
  obtain ys y where xs: "xs = ys @ [y]" using assms(1) by (meson rev_exhaust)
  with assms(2) have "saturating_add_u64 y p = y + p" by (intro saturating_add_u64_exact) simp
  then show "sum_list (rm_count xs p) = sum_list xs + p" "length (rm_count xs p) = length xs"
    by (simp_all add: xs rm_count_def)
qed

text \<open>
  \<open>mt_reach first self\<close>: the meter after any sequence of its operations since a generation
  started, where \<open>first\<close> is the packet sequence of the first clock mark.
\<close>

inductive mt_reach :: "u64 option \<Rightarrow> RateMeter \<Rightarrow> bool" where
  mt_start: "mt_reach None RateMeter_default"
| mt_clock: "mt_reach first self \<Longrightarrow> q < u64_bound \<Longrightarrow>
    mt_reach (Some (unwrap_or first q)) (rm_observe_clock self t q now)"
| mt_video: "mt_reach first self \<Longrightarrow> mt_reach first (rm_observe_video self packet)"
| mt_pid: "mt_reach first self \<Longrightarrow> mt_reach first (rm_set_video_pid self pid)"

definition mt_clock_inv :: "u64 option \<Rightarrow> RateMeter \<Rightarrow> bool" where
  "mt_clock_inv first self \<longleftrightarrow>
     (case (rm_last self, rm_origin self, first) of
        (None, None, None) \<Rightarrow> rm_seconds self = []
      | (Some m, Some (origin, _), Some f) \<Rightarrow>
          let span = rm_current_second self - origin div PCR_TICKS_PER_SECOND in
          f \<le> cm_sequence m \<and> cm_sequence m < u64_bound \<and>
          origin div PCR_TICKS_PER_SECOND \<le> rm_current_second self \<and>
          length (rm_seconds self) = min WINDOW_SECONDS (Suc span) \<and>
          sum_list (rm_seconds self) \<le> cm_sequence m - f \<and>
          (span < WINDOW_SECONDS \<longrightarrow> sum_list (rm_seconds self) = cm_sequence m - f)
      | _ \<Rightarrow> False)"

definition mt_frames_inv :: "RateMeter \<Rightarrow> bool" where
  "mt_frames_inv self \<longleftrightarrow>
     length (rm_frame_gaps self) \<le> FRAME_SAMPLES \<and>
     (\<forall>g \<in> set (rm_frame_gaps self). 0 < g \<and> g < PTS_TICKS_PER_SECOND)"

lemma rm_offsets_fields [simp]:
  "rm_last (rm_offsets self t now) = rm_last self"
  "rm_origin (rm_offsets self t now) = rm_origin self"
  "rm_seconds (rm_offsets self t now) = rm_seconds self"
  "rm_current_second (rm_offsets self t now) = rm_current_second self"
  "rm_frame_gaps (rm_offsets self t now) = rm_frame_gaps self"
  by (simp_all add: rm_offsets_def Let_def split: option.split)

lemma rm_observe_clock_frames [simp]:
  "rm_frame_gaps (rm_observe_clock self t q now) = rm_frame_gaps self"
  by (simp add: rm_observe_clock_def Let_def split: option.split)

lemma rm_observe_clock_inv:
  assumes inv: "mt_clock_inv first self" and q: "q < u64_bound"
  shows "mt_clock_inv (Some (unwrap_or first q)) (rm_observe_clock self t q now)"
proof (cases "rm_last self")
  case None
  then show ?thesis using inv q
    by (auto simp: mt_clock_inv_def rm_observe_clock_def WINDOW_SECONDS_def split: option.splits)
next
  case (Some m)
  obtain origin i f where o: "rm_origin self = Some (origin, i)" and f: "first = Some f"
    using inv Some by (auto simp: mt_clock_inv_def split: option.splits)
  show ?thesis
  proof (cases "q \<le> cm_sequence m")
    case True
    then show ?thesis using inv Some f by (simp add: rm_observe_clock_def)
  next
    case False
    define cur where "cur = rm_current_second self"
    define cur' where "cur' = max cur (t div PCR_TICKS_PER_SECOND)"
    define base where "base = origin div PCR_TICKS_PER_SECOND"
    define secs where "secs = rm_seconds self @ replicate (min (cur' - cur) WINDOW_SECONDS) 0"
    have fm: "f \<le> cm_sequence m" and base: "base \<le> cur" "base \<le> cur'"
      and len: "length (rm_seconds self) = min WINDOW_SECONDS (Suc (cur - base))"
      and sum: "sum_list secs \<le> cm_sequence m - f"
      and eq: "cur - base < WINDOW_SECONDS \<Longrightarrow> sum_list secs = cm_sequence m - f"
      using inv Some o f
      by (auto simp: mt_clock_inv_def Let_def cur_def base_def secs_def cur'_def sum_list_replicate)
    have ne: "secs \<noteq> []" using len by (auto simp: secs_def WINDOW_SECONDS_def)
    have le: "sum_list secs + (q - cm_sequence m) \<le> u64_max" using sum q False fm by simp
    note cnt = sum_list_rm_count [OF ne le]
    have secs': "rm_seconds (rm_observe_clock self t q now) =
        lastn WINDOW_SECONDS (rm_count secs (q - cm_sequence m))"
      and rest: "rm_last (rm_observe_clock self t q now) = Some \<lparr>cm_ticks = t, cm_sequence = q\<rparr>"
        "rm_origin (rm_observe_clock self t q now) = Some (origin, i)"
        "rm_current_second (rm_observe_clock self t q now) = cur'"
      using False Some o
      by (auto simp: rm_observe_clock_def Let_def secs_def cur'_def cur_def max_def)
    have len': "length secs = min WINDOW_SECONDS (Suc (cur - base)) + min (cur' - cur) WINDOW_SECONDS"
      by (simp add: secs_def len)
    have cc: "cur \<le> cur'" by (simp add: cur'_def)
    have a: "length (rm_seconds (rm_observe_clock self t q now)) = min WINDOW_SECONDS (Suc (cur' - base))"
      using base cc by (simp add: secs' cnt len') linarith
    have b: "sum_list (rm_seconds (rm_observe_clock self t q now)) \<le> q - f"
      unfolding secs' using sum_list_lastn_le [of WINDOW_SECONDS "rm_count secs (q - cm_sequence m)"]
        cnt(1) sum fm False by simp
    have c: "sum_list (rm_seconds (rm_observe_clock self t q now)) = q - f"
      if "cur' - base < WINDOW_SECONDS"
    proof -
      have "length secs \<le> WINDOW_SECONDS" "cur - base < WINDOW_SECONDS"
        using that base cc by (simp_all add: len')
      then show ?thesis using cnt eq fm False by (simp add: secs')
    qed
    show ?thesis using a b c base fm False q
      by (simp add: mt_clock_inv_def rest f Let_def base_def)
  qed
qed

lemma rm_observe_video_fields [simp]:
  "rm_last (rm_observe_video self p) = rm_last self"
  "rm_origin (rm_observe_video self p) = rm_origin self"
  "rm_seconds (rm_observe_video self p) = rm_seconds self"
  "rm_current_second (rm_observe_video self p) = rm_current_second self"
  by (simp_all add: rm_observe_video_def Let_def split: option.split)

lemma rm_set_video_pid_fields [simp]:
  "rm_last (rm_set_video_pid self pid) = rm_last self"
  "rm_origin (rm_set_video_pid self pid) = rm_origin self"
  "rm_seconds (rm_set_video_pid self pid) = rm_seconds self"
  "rm_current_second (rm_set_video_pid self pid) = rm_current_second self"
  by (simp_all add: rm_set_video_pid_def)

lemma rm_observe_video_clock: "mt_clock_inv first (rm_observe_video self p) = mt_clock_inv first self"
  unfolding mt_clock_inv_def rm_observe_video_fields by (rule refl)

lemma rm_observe_video_frames: "mt_frames_inv self \<Longrightarrow> mt_frames_inv (rm_observe_video self p)"
  by (auto simp: mt_frames_inv_def rm_observe_video_def Let_def lastn_def
      dest!: in_set_dropD split: option.split)

lemma rm_set_video_pid_inv:
  "mt_clock_inv first (rm_set_video_pid self pid) = mt_clock_inv first self"
  "mt_frames_inv self \<Longrightarrow> mt_frames_inv (rm_set_video_pid self pid)"
  unfolding mt_clock_inv_def rm_set_video_pid_fields
  by (rule refl) (simp add: mt_frames_inv_def rm_set_video_pid_def)

lemma mt_reach_inv: "mt_reach first self \<Longrightarrow> mt_clock_inv first self \<and> mt_frames_inv self"
proof (induction rule: mt_reach.induct)
  case mt_start
  show ?case by (simp add: mt_clock_inv_def mt_frames_inv_def RateMeter_default_def)
next
  case (mt_clock first self q t now)
  then show ?case by (simp add: rm_observe_clock_inv) (simp add: mt_frames_inv_def)
qed (simp_all add: rm_observe_video_clock rm_observe_video_frames rm_set_video_pid_inv)

section \<open>The reported rates\<close>

lemma sum_u64_exact_gen:
  "a + sum_list xs < u64_bound \<Longrightarrow> foldl wrapping_add_u64 a xs = a + sum_list xs"
  by (induction xs arbitrary: a) (simp_all add: add.assoc)

lemma sum_u64_exact: "sum_list xs < u64_bound \<Longrightarrow> sum_u64 xs = sum_list xs"
  using sum_u64_exact_gen [of 0 xs] by (simp add: sum_u64_def)

lemma sum_list_slice_le: "sum_list (slice i n xs) \<le> sum_list (xs :: nat list)"
proof -
  have "sum_list xs = sum_list (take i xs) + sum_list (drop i xs)"
    "sum_list (drop i xs) = sum_list (take n (drop i xs)) + sum_list (drop n (drop i xs))"
    by (simp_all flip: sum_list_append del: drop_drop)
  then show ?thesis by (simp add: slice_def)
qed

lemma foldl_max_cases: "foldl max x xs = x \<or> foldl max x xs \<in> set (xs :: nat list)"
proof (induction xs arbitrary: x)
  case (Cons a xs)
  then show ?case using Cons [of "max x a"] by (auto simp: max_def)
qed simp

lemma iter_max_in: "iter_max xs = Some m \<Longrightarrow> m \<in> set xs"
  using foldl_max_cases by (fastforce simp: iter_max_def split: list.splits)

lemma saturating_mul_u64_le: "saturating_mul_u64 a b \<le> a * b"
  by (simp add: saturating_mul_u64_def)

lemma rate_times_length:
  "saturating_mul_u64 a b div n * n \<le> a * b"
  using saturating_mul_u64_le [of a b] by (meson div_times_less_eq_dividend order_trans)

lemma rm_complete_sum: "sum_list (rm_complete self) \<le> sum_list (rm_seconds self)"
  using sum_list_slice_le [of 1 "length (rm_seconds self) - 2" "rm_seconds self"]
  by (simp add: rm_complete_def slice_def)

lemma rm_rates_None: "rm_rates self = None \<longleftrightarrow> length (rm_complete self) < MIN_COMPLETE_SECONDS"
  by (simp add: rm_rates_def Let_def)

lemma rm_rates_average:
  "rm_rates self = Some r \<Longrightarrow> sr_average_bits_per_second r =
     saturating_mul_u64 (sum_u64 (rm_complete self)) 1504 div length (rm_complete self)"
  by (auto simp: rm_rates_def Let_def MPEG_TS_PACKET_SIZE_def split: if_splits)

lemma rm_rates_bounds:
  assumes r: "rm_rates self = Some r" and small: "sum_list (rm_seconds self) < u64_bound"
  shows "MIN_COMPLETE_SECONDS \<le> length (rm_complete self)"
    and "sr_average_bits_per_second r * length (rm_complete self) \<le> sum_list (rm_seconds self) * 1504"
    and "sr_peak_bits_per_second r * PEAK_WINDOW_SECONDS \<le> sum_list (rm_seconds self) * 1504"
    and "sr_average_bits_per_second r \<le> sr_peak_bits_per_second r"
proof -
  define c where "c = rm_complete self"
  define n where "n = length c"
  define S where "S = sum_list (rm_seconds self)"
  define rate where "rate = (\<lambda>w. saturating_mul_u64 (sum_u64 w) 1504 div length w)"
  define ws where "ws = windows (min PEAK_WINDOW_SECONDS n) c"
  have n: "MIN_COMPLETE_SECONDS \<le> n" and avg: "sr_average_bits_per_second r = rate c"
    and peak: "sr_peak_bits_per_second r = max (unwrap_or (iter_max (map rate ws)) (rate c)) (rate c)"
    using r by (auto simp: rm_rates_def Let_def c_def n_def rate_def ws_def MPEG_TS_PACKET_SIZE_def
        split: if_splits)
  have le: "rate w * length w \<le> S * 1504" if "sum_list w \<le> sum_list c" for w
  proof -
    have "sum_list w \<le> S" using that rm_complete_sum [of self] by (simp add: c_def S_def)
    moreover from this have "sum_u64 w = sum_list w"
      using small by (intro sum_u64_exact) (simp add: S_def)
    ultimately show ?thesis
      using rate_times_length [of "sum_list w" 1504 "length w"]
      by (simp add: rate_def)
  qed
  have five: "min PEAK_WINDOW_SECONDS n = 5" using n by (simp add: meter_constants)
  have w5: "rate w * 5 \<le> S * 1504" if "w \<in> set ws" for w
  proof -
    have "w \<in> (\<lambda>i. slice i 5 c) ` set [0..<length c + 1 - 5]"
      using that by (simp only: ws_def five windows_def set_map)
    then obtain i where i: "w = slice i 5 c" and "i \<in> set [0..<length c + 1 - 5]" by blast
    then have "i < length c + 1 - 5" by (simp only: set_upt atLeastLessThan_iff)
    then have "length w = 5" using n by (simp add: i n_def meter_constants)
    then show ?thesis using le [of w] sum_list_slice_le [of i 5 c] by (simp add: i)
  qed
  have c5: "rate c * 5 \<le> S * 1504"
  proof -
    have "rate c * 5 \<le> rate c * n" using n by (simp add: meter_constants)
    also have "\<dots> \<le> S * 1504" using le [of c] by (simp add: n_def)
    finally show ?thesis .
  qed
  show "MIN_COMPLETE_SECONDS \<le> length (rm_complete self)" using n by (simp add: n_def c_def)
  show "sr_average_bits_per_second r * length (rm_complete self) \<le> sum_list (rm_seconds self) * 1504"
    using le [of c] by (simp add: avg c_def S_def)
  show "sr_peak_bits_per_second r * PEAK_WINDOW_SECONDS \<le> sum_list (rm_seconds self) * 1504"
    using w5 c5 iter_max_in [of "map rate ws"]
    by (auto simp: peak PEAK_WINDOW_SECONDS_def S_def [symmetric] max_def unwrap_or_def
        split: option.split)
  show "sr_average_bits_per_second r \<le> sr_peak_bits_per_second r" by (simp add: avg peak)
qed

text \<open>the meter does not over-report.  In every state of the meter, the reported average
  over the complete seconds and the reported peak over five seconds are at most the bits of the
  packets between the first and the last clock mark; the average is at most the peak; and nothing
  is reported before eight complete seconds of media.\<close>

theorem meter_reports_no_more_than_received:
  assumes "mt_reach (Some first) self" and "rm_last self = Some m" and "rm_rates self = Some r"
  shows "first \<le> cm_sequence m \<and>
    MIN_COMPLETE_SECONDS \<le> length (rm_complete self) \<and>
    sr_average_bits_per_second r * length (rm_complete self) \<le> (cm_sequence m - first) * 188 * 8 \<and>
    sr_peak_bits_per_second r * PEAK_WINDOW_SECONDS \<le> (cm_sequence m - first) * 188 * 8 \<and>
    sr_average_bits_per_second r \<le> sr_peak_bits_per_second r"
proof -
  have "mt_clock_inv (Some first) self" using mt_reach_inv assms(1) by blast
  then have m: "first \<le> cm_sequence m" "sum_list (rm_seconds self) \<le> cm_sequence m - first"
    "cm_sequence m < u64_bound"
    using assms(2) by (auto simp: mt_clock_inv_def Let_def split: option.splits)
  then have "sum_list (rm_seconds self) < u64_bound" by simp
  note b = rm_rates_bounds [OF assms(3) this]
  have "sum_list (rm_seconds self) * 1504 \<le> (cm_sequence m - first) * 188 * 8" using m(2) by simp
  then show ?thesis using b m(1) by (meson order_trans)
qed

text \<open>A run of the meter for the witnesses: one clock mark per second, 1000 packets apart.\<close>

fun mt_marks :: "nat \<Rightarrow> RateMeter" where
  "mt_marks 0 = rm_observe_clock RateMeter_default 0 0 0"
| "mt_marks (Suc n) =
     rm_observe_clock (mt_marks n) (Suc n * 27000000) (Suc n * 1000) (Suc n * 1000000000)"

lemma mt_reach_marks: "n < 1000 \<Longrightarrow> mt_reach (Some 0) (mt_marks n)"
proof (induction n)
  case 0
  show ?case using mt_clock [OF mt_start, of 0 0 0] by simp
next
  case (Suc n)
  then show ?case using mt_clock [of "Some 0" "mt_marks n" "Suc n * 1000" "Suc n * 27000000" "Suc n * 1000000000"]
    by simp
qed

lemma mt_marks_eq:
  "n < 119 \<Longrightarrow> mt_marks n = \<lparr>rm_last = Some \<lparr>cm_ticks = n * 27000000, cm_sequence = n * 1000\<rparr>,
     rm_origin = Some (0, 0), rm_seconds = 0 # replicate n 1000, rm_current_second = n,
     rm_measured_ticks = n * 27000000, rm_min_offset_millis = 0, rm_max_offset_millis = 0,
     rm_video_pid = None, rm_last_decode = None, rm_frame_gaps = []\<rparr>"
proof (induction n)
  case 0
  show ?case by (simp add: rm_observe_clock_def RateMeter_default_def)
next
  case (Suc n)
  have tick: "(27000000 + n * 27000000) div PCR_TICKS_PER_SECOND = Suc n"
    "(27000000 + n * 27000000) div (PCR_TICKS_PER_SECOND div 1000) = 1000 * Suc n"
    "(1000000000 + n * 1000000000) div 1000000 = 1000 * Suc n"
    by (simp_all add: PCR_TICKS_PER_SECOND_def)
  have rep: "replicate n 1000 @ [1000] = 1000 # replicate n (1000 :: nat)"
    by (simp add: replicate_append_same)
  have ticks: "saturating_add_u64 (n * 27000000) 27000000 = 27000000 + n * 27000000"
    using Suc.prems by (simp add: saturating_add_u64_exact)
  show ?case
    using Suc
    by (simp add: rm_observe_clock_def rm_offsets_def Let_def tick rm_count_def
        saturating_sub_i64_def try_i64_def saturating_add_u64_exact rep ticks WINDOW_SECONDS_def)
qed

theorem meter_reports_no_more_than_received_witness:
  "\<exists>r. rm_rates (mt_marks 10) = Some r \<and> sr_average_bits_per_second r = 1504000 \<and>
     sr_average_bits_per_second r \<le> sr_peak_bits_per_second r \<and>
     sr_peak_bits_per_second r * 5 \<le> 15040000"
proof -
  define self where "self = mt_marks 10"
  have c: "rm_complete self = replicate 9 1000"
    by (simp add: self_def mt_marks_eq rm_complete_def)
  obtain r where r: "rm_rates self = Some r"
    using rm_rates_None [of self] by (auto simp: c MIN_COMPLETE_SECONDS_def)
  have avg: "sr_average_bits_per_second r = 1504000"
    by (simp add: rm_rates_average [OF r] c sum_u64_exact sum_list_replicate saturating_mul_u64_def)
  have "rm_last self = Some \<lparr>cm_ticks = 270000000, cm_sequence = 10000\<rparr>"
    by (simp add: self_def mt_marks_eq)
  from meter_reports_no_more_than_received [OF _ this r, of 0] mt_reach_marks [of 10]
  show ?thesis using r avg by (auto simp: self_def PEAK_WINDOW_SECONDS_def)
qed

section \<open>Frame rate\<close>

lemma find_Some_prop: "find P xs = Some x \<Longrightarrow> x \<in> set xs \<and> P x"
  by (auto simp: find_Some_iff in_set_conv_nth)

text \<open>A gap of at least 5 ticks keeps the product in 32 bits; the four smaller gaps wrap, and
  none of the wrapped products happens to pass the comparison.\<close>

lemma near_standard_rate_exact:
  assumes "0 < g" and "rate \<in> set STANDARD_RATES_MILLIHERTZ"
    and "near_standard_rate (90000000 div g) rate"
  shows "u32_abs_diff (90000000 div g) rate * 200 \<le> rate"
proof (cases "g < 5")
  case True
  then consider "g = 1" | "g = 2" | "g = 3" | "g = 4" using assms(1) by linarith
  then show ?thesis
    using assms(2,3) by cases (auto simp: near_standard_rate_def u32_abs_diff_def meter_constants)
next
  case False
  then have "90000000 div g \<le> 90000000 div 5" by (intro div_le_mono2) auto
  moreover have "rate \<le> 60000" using assms(2) by (auto simp: meter_constants)
  ultimately have "u32_abs_diff (90000000 div g) rate \<le> 18000000"
    unfolding u32_abs_diff_def by (auto simp: less_imp_diff_less intro: order_trans [OF diff_le_self])
  then have "u32_abs_diff (90000000 div g) rate * 200 < 2 ^ 32" by simp
  with assms(3) show ?thesis by (simp add: near_standard_rate_def)
qed

lemma sorted_median_in: "xs \<noteq> [] \<Longrightarrow> sort xs ! (length (sort xs) div 2) \<in> set xs"
  by (metis div_less_dividend length_greater_0_conv length_sort nth_mem one_less_numeral_iff
      semiring_norm(76) set_sort)

text \<open>the reported frame rate is right.  Once 30 decode-timestamp gaps are known the meter
  reports a rate, for every reachable state; with \<open>g\<close> the median gap, it is the exact quotient of
  the 90 kHz clock by \<open>g\<close> or a standard rate within 0.5 percent of it, and lies between 1 and
  90000 frames per second.\<close>

theorem frame_rate_is_the_measured_rate:
  assumes "mt_reach first self" and "MIN_FRAME_SAMPLES \<le> length (rm_frame_gaps self)"
  shows "\<exists>g rate. g \<in> set (rm_frame_gaps self) \<and>
    g = sort (rm_frame_gaps self) ! (length (rm_frame_gaps self) div 2) \<and>
    rm_frame_rate_millihertz self = Some rate \<and> 1000 \<le> rate \<and> rate \<le> 90000000 \<and>
    (rate = 90000000 div g \<or>
     rate \<in> set STANDARD_RATES_MILLIHERTZ \<and> u32_abs_diff (90000000 div g) rate * 200 \<le> rate)"
proof -
  define g where "g = sort (rm_frame_gaps self) ! (length (rm_frame_gaps self) div 2)"
  have ne: "rm_frame_gaps self \<noteq> []" using assms(2) by (auto simp: meter_constants)
  have g: "g \<in> set (rm_frame_gaps self)" using sorted_median_in [OF ne] by (simp add: g_def)
  have "mt_frames_inv self" using mt_reach_inv assms(1) by blast
  with g have g0: "0 < g" "g < 90000" by (auto simp: mt_frames_inv_def meter_constants)
  define m where "m = 90000000 div g"
  have m: "1000 \<le> m" "m \<le> 90000000"
    using g0 div_le_mono2 [of g 90000 90000000] by (simp_all add: m_def)
  define found where "found = find (near_standard_rate m) STANDARD_RATES_MILLIHERTZ"
  have "max g 1 = g" using g0 by simp
  then have rate: "rm_frame_rate_millihertz self = Some (unwrap_or found m)"
    using assms(2) m(2)
    by (simp add: rm_frame_rate_millihertz_def Let_def g_def [symmetric] PTS_TICKS_PER_SECOND_def
        m_def [symmetric] found_def)
  show ?thesis
  proof (cases found)
    case None
    with g rate m show ?thesis
      by (intro exI [of _ g] exI [of _ m]) (simp add: g_def [symmetric] m_def [symmetric])
  next
    case (Some r)
    then have r: "r \<in> set STANDARD_RATES_MILLIHERTZ" "near_standard_rate m r"
      by (auto simp: found_def dest: find_Some_prop)
    have near: "u32_abs_diff m r * 200 \<le> r"
      using near_standard_rate_exact [OF g0(1) r(1)] r(2) by (simp add: m_def)
    have "1000 \<le> r" "r \<le> 90000000" using r(1) by (auto simp: STANDARD_RATES_MILLIHERTZ_def)
    with g rate Some r(1) near show ?thesis
      by (intro exI [of _ g] exI [of _ r]) (simp add: g_def [symmetric] m_def [symmetric])
  qed
qed

text \<open>Video packets whose decode timestamps alternate between two values one film frame apart.\<close>

definition video_packet :: "bytes \<Rightarrow> bytes" where
  "video_packet dts = [0x47, 0x41, 0x00, 0x10, 0, 0, 1, 0xE0, 0, 0, 0x80, 0x80, 5] @ dts @ replicate 170 0xFF"

fun mt_frames :: "bytes list \<Rightarrow> RateMeter" where
  "mt_frames [] = RateMeter_default"
| "mt_frames (b # bs) = rm_observe_video (mt_frames bs) (video_packet b)"

lemma mt_reach_frames: "mt_reach None (mt_frames bs)"
  by (induction bs) (auto intro: mt_reach.intros)

definition pts_a :: bytes where "pts_a = [0x21, 0x00, 0x01, 0x00, 0x01]"
definition pts_b :: bytes where "pts_b = [0x21, 0x00, 0x01, 0x1D, 0x4D]"

lemma decode_video_packet:
  "pes_decode_timestamp (video_packet pts_a) = Some 0"
  "pes_decode_timestamp (video_packet pts_b) = Some 3750"
  by (simp_all add: pes_decode_timestamp_def video_packet_def pts_a_def pts_b_def read_timestamp_def
      MPEG_TS_PACKET_SIZE_def slice_def)

definition film_frames :: "nat \<Rightarrow> RateMeter" where
  "film_frames n = mt_frames (concat (replicate n [pts_b, pts_a]))"

lemma film_frame_a:
  assumes "rm_last_decode self = None \<or> rm_last_decode self = Some 3750"
  shows "rm_observe_video self (video_packet pts_a) = self\<lparr>rm_last_decode := Some 0\<rparr>"
proof -
  have "wrapping_sub_u64 (wrapping_add_u64 0 PTS_WRAP) 3750 mod PTS_WRAP = 8589930842"
    by (simp add: PTS_WRAP_def)
  then show ?thesis
    using assms by (auto simp: rm_observe_video_def decode_video_packet PTS_TICKS_PER_SECOND_def)
qed

lemma film_frame_b:
  assumes "rm_last_decode self = Some 0"
  shows "rm_observe_video self (video_packet pts_b) =
    self\<lparr>rm_frame_gaps := lastn 120 (rm_frame_gaps self @ [3750]), rm_last_decode := Some 3750\<rparr>"
proof -
  have "wrapping_sub_u64 (wrapping_add_u64 3750 PTS_WRAP) 0 mod PTS_WRAP = 3750"
    by (simp add: PTS_WRAP_def)
  then show ?thesis
    using assms by (simp add: rm_observe_video_def decode_video_packet PTS_TICKS_PER_SECOND_def
        FRAME_SAMPLES_def)
qed

lemma film_frames_eq:
  "n \<le> 120 \<Longrightarrow> rm_frame_gaps (film_frames n) = replicate n 3750 \<and>
     rm_last_decode (film_frames n) = (if n = 0 then None else Some 3750)"
proof (induction n)
  case 0
  show ?case by (simp add: film_frames_def RateMeter_default_def)
next
  case (Suc n)
  define prev where "prev = film_frames n"
  have "rm_last_decode prev = None \<or> rm_last_decode prev = Some 3750"
    and gaps: "rm_frame_gaps prev = replicate n 3750"
    using Suc by (auto simp: prev_def)
  note a = film_frame_a [OF this(1)]
  have "film_frames (Suc n) =
      rm_observe_video (rm_observe_video prev (video_packet pts_a)) (video_packet pts_b)"
    by (simp add: film_frames_def prev_def)
  with Suc.prems show ?case by (simp add: a film_frame_b gaps replicate_append_same)
qed

theorem frame_rate_is_the_measured_rate_witness:
  "mt_reach None (film_frames 30) \<and>
   (\<exists>rate. rm_frame_rate_millihertz (film_frames 30) = Some rate \<and>
     (rate = 24000 \<or> u32_abs_diff 24000 rate * 200 \<le> rate))"
proof -
  have reach: "mt_reach None (film_frames 30)" unfolding film_frames_def by (rule mt_reach_frames)
  have gaps: "rm_frame_gaps (film_frames 30) = replicate 30 3750" by (simp add: film_frames_eq)
  from frame_rate_is_the_measured_rate [OF reach] show ?thesis
    using reach by (auto simp: gaps MIN_FRAME_SAMPLES_def)
qed

text \<open>Exact film and progressive rates are reported as the drop-frame rates.  The standard
  rates are tried in ascending order and the first within 0.5 percent is taken, and 24, 30 and 60
  frames per second are within 0.5 percent of 23.976, 29.97 and 59.94; so a median gap of exactly
  3750, 3000 or 1500 ticks is never reported as the rate it is.\<close>

theorem exact_rates_reported_as_drop_frame:
  assumes "MIN_FRAME_SAMPLES \<le> length (rm_frame_gaps self)"
    and "sort (rm_frame_gaps self) ! (length (rm_frame_gaps self) div 2) = 90000000 div rate"
    and "rate \<in> {24000, 30000, 60000}"
  shows "rm_frame_rate_millihertz self = Some (if rate = 24000 then 23976
    else if rate = 30000 then 29970 else 59940)"
  using assms
  by (auto simp: rm_frame_rate_millihertz_def meter_constants near_standard_rate_def
      u32_abs_diff_def)

theorem exact_rates_reported_as_drop_frame_witness:
  "rm_frame_rate_millihertz (film_frames 30) = Some 23976"
proof -
  have gaps: "rm_frame_gaps (film_frames 30) = replicate 30 3750" by (simp add: film_frames_eq)
  have "sort (replicate 30 (3750 :: nat)) = replicate 30 3750"
    by (simp add: sorted_sort_id)
  then show ?thesis
    using exact_rates_reported_as_drop_frame [of "film_frames 30" 24000]
    by (simp add: gaps MIN_FRAME_SAMPLES_def)
qed


end
