(* ===== verification/Ring.thy ===== *)
theory Ring
  imports Meter
begin

text \<open>
  The packet ring (\<open>crates/media/src/ring.rs\<close>): configuration, the writer side, cursors.

  \<open>RingInner\<close> is the shared object; its mutex makes each method one atomic step, so a method is
  a function on it.  \<open>ri_changed\<close> counts the calls of \<open>Notify::notify_waiters\<close>: a \<open>Notified\<close>
  future completes once that count has moved since the future was created.  \<open>Instant::now()\<close> is
  an argument wherever the code reads the clock.

  Main results: the ring holds exactly the newest packets of its generation, whatever the chunks
  they were written in; a failed write changes nothing; a cursor reads exactly what was written,
  restarts only at PAT starts, reports every skipped packet, and is never left asleep while there
  is something to read.
\<close>

section \<open>Configuration\<close>

definition DEFAULT_PRE_ROLL :: duration where
  "DEFAULT_PRE_ROLL = 2 * 1000000000"

record MpegTsRingConfig =
  cfg_capacity_packets :: usize
  cfg_pre_roll_packets :: usize

datatype RingConfigError =
  EmptyCapacity | PreRollExceedsCapacity usize usize | ZeroBitrate | CapacityOverflow

definition config_new :: "usize \<Rightarrow> usize \<Rightarrow> RingConfigError + MpegTsRingConfig" where
  "config_new capacity_packets pre_roll_packets =
     (if capacity_packets = 0 then Inl EmptyCapacity
      else if checked_mul_u64 capacity_packets MPEG_TS_PACKET_SIZE = None then Inl CapacityOverflow
      else if pre_roll_packets > capacity_packets
      then Inl (PreRollExceedsCapacity capacity_packets pre_roll_packets)
      else Inr \<lparr>cfg_capacity_packets = capacity_packets, cfg_pre_roll_packets = pre_roll_packets\<rparr>)"

definition packets_for_duration :: "u64 \<Rightarrow> duration \<Rightarrow> RingConfigError + usize" where
  "packets_for_duration bitrate_bits_per_second d =
     (case checked_mul_u128 bitrate_bits_per_second d of
        None \<Rightarrow> Inl CapacityOverflow
      | Some bit_nanoseconds \<Rightarrow>
          let bits_per_packet_nanoseconds = MPEG_TS_PACKET_SIZE * 8 * 1000000000 in
          (case checked_add_u128 bit_nanoseconds (bits_per_packet_nanoseconds - 1) of
             None \<Rightarrow> Inl CapacityOverflow
           | Some n \<Rightarrow>
               (case try_u64 (n div bits_per_packet_nanoseconds) of
                  None \<Rightarrow> Inl CapacityOverflow
                | Some packets \<Rightarrow> Inr packets)))"

definition config_for_bitrate :: "u64 \<Rightarrow> duration \<Rightarrow> duration \<Rightarrow> RingConfigError + MpegTsRingConfig" where
  "config_for_bitrate bitrate_bits_per_second buffer_duration pre_roll =
     (if bitrate_bits_per_second = 0 then Inl ZeroBitrate
      else case packets_for_duration bitrate_bits_per_second buffer_duration of
          Inl e \<Rightarrow> Inl e
        | Inr capacity_packets \<Rightarrow>
            (case packets_for_duration bitrate_bits_per_second pre_roll of
               Inl e \<Rightarrow> Inl e
             | Inr pre_roll_packets \<Rightarrow> config_new capacity_packets pre_roll_packets))"

definition config_with_default_pre_roll :: "u64 \<Rightarrow> duration \<Rightarrow> RingConfigError + MpegTsRingConfig" where
  "config_with_default_pre_roll bitrate_bits_per_second buffer_duration =
     config_for_bitrate bitrate_bits_per_second buffer_duration DEFAULT_PRE_ROLL"

definition capacity_bytes :: "MpegTsRingConfig \<Rightarrow> usize" where
  "capacity_bytes cfg = cfg_capacity_packets cfg * MPEG_TS_PACKET_SIZE"

section \<open>State\<close>

datatype RingCloseReason =
  EndOfStream | Shutdown | UpstreamError string | RecoveryExpired u64

record RingState =
  rs_storage :: bytes
  rs_generation :: u64
  rs_first_sequence :: u64
  rs_next_sequence :: u64
  rs_safe_boundaries :: "u64 list"
  rs_psi :: PatPmtTracker
  rs_pcr_pid :: "u16 option"
  rs_pcr :: PcrTimeline
  rs_meter :: RateMeter
  rs_first_write :: "instant option"
  rs_bytes_written :: u64
  rs_closed :: "RingCloseReason option"

record RingInner =
  ri_config :: MpegTsRingConfig
  ri_state :: RingState
  ri_changed :: nat

record RingSnapshot =
  sn_generation :: u64
  sn_first_sequence :: u64
  sn_next_sequence :: u64
  sn_retained_packets :: usize
  sn_capacity_packets :: usize
  sn_closed :: "RingCloseReason option"

datatype RingWriteError =
  Unaligned usize | InvalidSyncByte usize u8 | WriteClosed u64 RingCloseReason | SequenceExhausted

record WriteOutcome =
  wo_generation :: u64
  wo_packets_written :: usize
  wo_packets_overwritten :: u64
  wo_first_sequence :: u64
  wo_next_sequence :: u64

record RingCursor =
  cu_generation :: u64
  cu_next_sequence :: u64
  cu_waiting_for_safe_boundary :: bool

datatype RingRead =
    Packets u64 u64 bytes
  | Lagged u64 u64 u64
  | GenerationBoundary u64 u64
  | ReadClosed u64 RingCloseReason

datatype RingReadError = EmptyRead

definition ring_new :: "MpegTsRingConfig \<Rightarrow> RingInner" where
  "ring_new config = \<lparr>ri_config = config,
     ri_state = \<lparr>rs_storage = replicate (capacity_bytes config) 0, rs_generation = 0,
       rs_first_sequence = 0, rs_next_sequence = 0, rs_safe_boundaries = [],
       rs_psi = PatPmtTracker_default, rs_pcr_pid = None, rs_pcr = PcrTimeline_default,
       rs_meter = RateMeter_default, rs_first_write = None, rs_bytes_written = 0,
       rs_closed = None\<rparr>,
     ri_changed = 0\<rparr>"

section \<open>Flat packet storage\<close>

text \<open>\<open>&storage[offset..offset + 188]\<close> for the slot of a sequence, read and copied into.\<close>

definition read_slot :: "bytes \<Rightarrow> usize \<Rightarrow> bytes" where
  "read_slot storage slot = slice (slot * MPEG_TS_PACKET_SIZE) MPEG_TS_PACKET_SIZE storage"

definition write_slot :: "bytes \<Rightarrow> usize \<Rightarrow> bytes \<Rightarrow> bytes" where
  "write_slot storage slot packet =
     (let offset = slot * MPEG_TS_PACKET_SIZE in
      take offset storage @ packet @ drop (offset + MPEG_TS_PACKET_SIZE) storage)"

section \<open>Helpers on the state\<close>

definition video_pid :: "PatPmtTracker \<Rightarrow> u16 option" where
  "video_pid psi =
     (case tr_completed_pmt psi of
        None \<Rightarrow> None
      | Some (section, program) \<Rightarrow>
          (case parse_pmt_elementary_streams section program of
             None \<Rightarrow> None
           | Some streams \<Rightarrow>
               map_option es_pid (find (\<lambda>s. is_video_stream_type (es_stream_type s)) streams)))"

definition packet_pid :: "bytes \<Rightarrow> u16" where
  "packet_pid packet = push_bit 8 (ucast (packet ! 1 AND 0x1f)) OR ucast (packet ! 2)"

definition byte_rate_bps :: "RingState \<Rightarrow> instant \<Rightarrow> u64 option" where
  "byte_rate_bps state now =
     (case rs_first_write state of
        None \<Rightarrow> None
      | Some first_write \<Rightarrow>
          let elapsed = saturating_sub now first_write in
          if elapsed < 2 * 1000000000 \<or> rs_bytes_written state < 1048576 then None
          else let bits = rs_bytes_written state * 8 in
            try_u64 (bits * 1000000000 div max elapsed 1))"

definition safe_resume_position :: "RingState \<Rightarrow> u64 \<Rightarrow> u64 \<times> bool" where
  "safe_resume_position state target =
     (case find (\<lambda>boundary. target \<le> boundary) (rs_safe_boundaries state) of
        Some boundary \<Rightarrow> (boundary, False)
      | None \<Rightarrow>
          (case tr_candidate_start (rs_psi state) of
             Some candidate \<Rightarrow>
               if target \<le> candidate then (candidate, True) else (rs_next_sequence state, True)
           | None \<Rightarrow> (rs_next_sequence state, True)))"

section \<open>Writer\<close>

text \<open>The body of the packet loop of \<open>push\<close>.\<close>

definition push_psi :: "RingState \<Rightarrow> bytes \<Rightarrow> RingState" where
  "push_psi state packet =
     (let (psi, boundary) = tr_observe (rs_psi state) packet (rs_next_sequence state);
          state = state\<lparr>rs_psi := psi\<rparr>
      in case boundary of
           None \<Rightarrow> state
         | Some b \<Rightarrow>
             state\<lparr>rs_safe_boundaries := rs_safe_boundaries state @ [b],
               rs_pcr_pid := tr_pcr_pid psi,
               rs_meter := rm_set_video_pid (rs_meter state) (video_pid psi)\<rparr>)"

definition push_clock :: "RingState \<Rightarrow> bytes \<Rightarrow> instant \<Rightarrow> RingState" where
  "push_clock state packet now =
     (if rs_pcr_pid state = Some (packet_pid packet) then
        let pcr = tl_observe (rs_pcr state) packet (rs_next_sequence state) in
        state\<lparr>rs_pcr := pcr,
          rs_meter := (case tl_head_ticks pcr of
             None \<Rightarrow> rs_meter state
           | Some head \<Rightarrow> rm_observe_clock (rs_meter state) head (rs_next_sequence state) now)\<rparr>
      else state)"

definition push_video :: "RingState \<Rightarrow> bytes \<Rightarrow> RingState" where
  "push_video state packet =
     (if rm_video_pid (rs_meter state) = Some (packet_pid packet)
      then state\<lparr>rs_meter := rm_observe_video (rs_meter state) packet\<rparr>
      else state)"

definition push_store :: "MpegTsRingConfig \<Rightarrow> RingState \<Rightarrow> bytes \<Rightarrow> RingState" where
  "push_store config state packet =
     (let sequence = rs_next_sequence state;
          slot = sequence mod cfg_capacity_packets config;
          next_sequence = wrapping_add_u64 sequence 1
      in state\<lparr>rs_storage := write_slot (rs_storage state) slot packet,
           rs_first_sequence := saturating_sub next_sequence (cfg_capacity_packets config),
           rs_next_sequence := next_sequence\<rparr>)"

definition push_packet :: "MpegTsRingConfig \<Rightarrow> instant \<Rightarrow> bytes \<Rightarrow> RingState \<Rightarrow> RingState" where
  "push_packet config now packet state =
     push_store config (push_video (push_clock (push_psi state packet) packet now) packet) packet"

text \<open>The part of \<open>push\<close> after the loop, and the sync byte scan before it.\<close>

definition push_finish :: "RingState \<Rightarrow> usize \<Rightarrow> usize \<Rightarrow> instant \<Rightarrow> RingState" where
  "push_finish state packet_count len now =
     (let state = state\<lparr>rs_pcr := tl_prune (rs_pcr state) (rs_first_sequence state)\<rparr>;
          state = (if rs_first_write state = None \<and> packet_count > 0
                   then state\<lparr>rs_first_write := Some now\<rparr> else state);
          state = state\<lparr>rs_bytes_written := saturating_add_u64 (rs_bytes_written state) len\<rparr>;
          state = state\<lparr>rs_safe_boundaries :=
            dropWhile (\<lambda>boundary. boundary < rs_first_sequence state) (rs_safe_boundaries state)\<rparr>
      in case tr_candidate_start (rs_psi state) of
           None \<Rightarrow> state
         | Some boundary \<Rightarrow>
             if boundary < rs_first_sequence state then state\<lparr>rs_psi := tr_reset (rs_psi state)\<rparr>
             else state)"

fun first_bad_sync :: "usize \<Rightarrow> bytes list \<Rightarrow> (usize \<times> u8) option" where
  "first_bad_sync packet_index [] = None"
| "first_bad_sync packet_index (packet # packets) =
     (if packet ! 0 \<noteq> 0x47 then Some (packet_index, packet ! 0)
      else first_bad_sync (Suc packet_index) packets)"

definition ring_push ::
    "RingInner \<Rightarrow> bytes \<Rightarrow> instant \<Rightarrow> instant \<Rightarrow> (RingWriteError + WriteOutcome) \<times> RingInner" where
  "ring_push self bs now first_write_now =
     (if length bs mod MPEG_TS_PACKET_SIZE \<noteq> 0 then (Inl (Unaligned (length bs)), self)
      else case first_bad_sync 0 (chunks_exact MPEG_TS_PACKET_SIZE bs) of
          Some (packet_index, actual) \<Rightarrow> (Inl (InvalidSyncByte packet_index actual), self)
        | None \<Rightarrow>
            let packet_count = length bs div MPEG_TS_PACKET_SIZE;
                state = ri_state self in
            (case rs_closed state of
               Some reason \<Rightarrow> (Inl (WriteClosed (rs_generation state) reason), self)
             | None \<Rightarrow>
                 if checked_add_u64 (rs_next_sequence state) packet_count = None
                 then (Inl SequenceExhausted, self)
                 else let old_first = rs_first_sequence state;
                          state = fold (push_packet (ri_config self) now)
                            (chunks_exact MPEG_TS_PACKET_SIZE bs) state;
                          state = push_finish state packet_count (length bs) first_write_now;
                          outcome = \<lparr>wo_generation = rs_generation state,
                            wo_packets_written = packet_count,
                            wo_packets_overwritten =
                              saturating_sub (rs_first_sequence state) old_first,
                            wo_first_sequence = rs_first_sequence state,
                            wo_next_sequence = rs_next_sequence state\<rparr>
                      in (Inr outcome, self\<lparr>ri_state := state,
                            ri_changed := (if packet_count > 0 then Suc (ri_changed self)
                                           else ri_changed self)\<rparr>)))"

definition start_new_generation :: "RingInner \<Rightarrow> (RingWriteError + u64) \<times> RingInner" where
  "start_new_generation self =
     (let state = ri_state self in
      case checked_add_u64 (rs_generation state) 1 of
        None \<Rightarrow> (Inl SequenceExhausted, self)
      | Some generation \<Rightarrow>
          (Inr generation,
           self\<lparr>ri_state := state\<lparr>rs_generation := generation, rs_first_sequence := 0,
               rs_next_sequence := 0, rs_safe_boundaries := [], rs_psi := tr_reset (rs_psi state),
               rs_pcr_pid := None, rs_pcr := tl_reset (rs_pcr state), rs_meter := RateMeter_default,
               rs_first_write := None, rs_bytes_written := 0, rs_closed := None\<rparr>,
             ri_changed := Suc (ri_changed self)\<rparr>))"

definition ring_close :: "RingInner \<Rightarrow> RingCloseReason \<Rightarrow> bool \<times> RingInner" where
  "ring_close self reason =
     (if rs_closed (ri_state self) \<noteq> None then (False, self)
      else (True, self\<lparr>ri_state := (ri_state self)\<lparr>rs_closed := Some reason\<rparr>,
             ri_changed := Suc (ri_changed self)\<rparr>))"

section \<open>Cursors\<close>

definition subscribe_with_pre_roll :: "RingInner \<Rightarrow> usize \<Rightarrow> RingCursor" where
  "subscribe_with_pre_roll self pre_roll_packets =
     (let state = ri_state self;
          target = max (saturating_sub (rs_next_sequence state) pre_roll_packets)
                     (rs_first_sequence state);
          (next_sequence, waiting_for_safe_boundary) = safe_resume_position state target
      in \<lparr>cu_generation = rs_generation state, cu_next_sequence = next_sequence,
          cu_waiting_for_safe_boundary = waiting_for_safe_boundary\<rparr>)"

definition ring_subscribe :: "RingInner \<Rightarrow> RingCursor" where
  "ring_subscribe self = subscribe_with_pre_roll self (cfg_pre_roll_packets (ri_config self))"

definition subscribe_at_live_edge :: "RingInner \<Rightarrow> RingCursor" where
  "subscribe_at_live_edge self = subscribe_with_pre_roll self 0"

text \<open>\<open>rate / 8 * delay.as_secs()\<close> is a 64-bit product without overflow check.\<close>

definition delay_packets :: "RingInner \<Rightarrow> duration \<Rightarrow> instant \<Rightarrow> u64" where
  "delay_packets self delay now =
     (let state = ri_state self;
          retained = saturating_sub (rs_next_sequence state) (rs_first_sequence state);
          by_clock = Option.bind (tl_head_ticks (rs_pcr state)) (\<lambda>head.
            let target = saturating_sub head (duration_to_ticks delay) in
            map_option (\<lambda>sequence. saturating_sub (rs_next_sequence state) sequence)
              (tl_sequence_at_or_after (rs_pcr state) target));
          by_rate = map_option (\<lambda>rate. rate div 8 * (delay div 1000000000) mod u64_bound
              div MPEG_TS_PACKET_SIZE) (byte_rate_bps state now)
      in min (case by_clock of
                Some packets \<Rightarrow> packets
              | None \<Rightarrow> unwrap_or by_rate (cfg_pre_roll_packets (ri_config self))) retained)"

definition subscribe_with_delay :: "RingInner \<Rightarrow> duration \<Rightarrow> instant \<Rightarrow> RingCursor" where
  "subscribe_with_delay self delay now = subscribe_with_pre_roll self (delay_packets self delay now)"

definition ring_rates :: "RingInner \<Rightarrow> StreamRates option" where
  "ring_rates self = rm_rates (rs_meter (ri_state self))"

definition ring_ticks_at :: "RingInner \<Rightarrow> u64 \<Rightarrow> u64 \<Rightarrow> u64 option" where
  "ring_ticks_at self generation sequence =
     (if rs_generation (ri_state self) = generation
      then tl_ticks_at (rs_pcr (ri_state self)) sequence else None)"

definition lead_millis :: "RingInner \<Rightarrow> u64 \<Rightarrow> u64 \<Rightarrow> instant \<Rightarrow> u64 option" where
  "lead_millis self generation next_sequence now =
     (let state = ri_state self in
      if rs_generation state \<noteq> generation then None
      else case (tl_head_ticks (rs_pcr state), tl_ticks_at (rs_pcr state) next_sequence) of
          (Some head, Some at) \<Rightarrow> Some (ticks_to_millis (saturating_sub head at))
        | _ \<Rightarrow>
            (case byte_rate_bps state now of
               None \<Rightarrow> None
             | Some rate \<Rightarrow>
                 let packets = saturating_sub (rs_next_sequence state) next_sequence;
                     bits = packets * MPEG_TS_PACKET_SIZE * 8
                 in try_u64 (bits * 1000 div max rate 1)))"

definition ring_snapshot :: "RingInner \<Rightarrow> RingSnapshot" where
  "ring_snapshot self =
     (let state = ri_state self in
      \<lparr>sn_generation = rs_generation state, sn_first_sequence = rs_first_sequence state,
       sn_next_sequence = rs_next_sequence state,
       sn_retained_packets = wrapping_sub_u64 (rs_next_sequence state) (rs_first_sequence state),
       sn_capacity_packets = cfg_capacity_packets (ri_config self),
       sn_closed = rs_closed state\<rparr>)"

definition read_packets :: "MpegTsRingConfig \<Rightarrow> RingState \<Rightarrow> u64 \<Rightarrow> usize \<Rightarrow> bytes" where
  "read_packets config state first_sequence count =
     concat (map (\<lambda>sequence. read_slot (rs_storage state) (sequence mod cfg_capacity_packets config))
       [first_sequence..<first_sequence + count])"

definition closed_event :: "RingState \<Rightarrow> RingRead option" where
  "closed_event state = map_option (ReadClosed (rs_generation state)) (rs_closed state)"

text \<open>The tail of \<open>try_next\<close>: packets at the cursor, or the close reason.\<close>

definition read_at :: "RingInner \<Rightarrow> RingCursor \<Rightarrow> usize \<Rightarrow> RingCursor \<times> RingRead option" where
  "read_at ring self max_packets =
     (let state = ri_state ring in
      if cu_next_sequence self < rs_next_sequence state then
        let available = rs_next_sequence state - cu_next_sequence self;
            count = min available max_packets;
            first_sequence = cu_next_sequence self
        in (self\<lparr>cu_next_sequence := wrapping_add_u64 (cu_next_sequence self) count\<rparr>,
            Some (Packets (rs_generation state) first_sequence
              (read_packets (ri_config ring) state first_sequence count)))
      else (self, closed_event state))"

definition try_next ::
    "RingInner \<Rightarrow> RingCursor \<Rightarrow> usize \<Rightarrow> RingReadError + (RingCursor \<times> RingRead option)" where
  "try_next ring self max_packets =
     (let state = ri_state ring in
      if max_packets = 0 then Inl EmptyRead
      else if cu_generation self \<noteq> rs_generation state then
        let (next_sequence, waiting) = safe_resume_position state (rs_first_sequence state) in
        Inr (\<lparr>cu_generation = rs_generation state, cu_next_sequence = next_sequence,
              cu_waiting_for_safe_boundary = waiting\<rparr>,
             Some (GenerationBoundary (cu_generation self) (rs_generation state)))
      else if cu_next_sequence self < rs_first_sequence state then
        let (next_sequence, waiting) = safe_resume_position state (rs_first_sequence state) in
        Inr (self\<lparr>cu_next_sequence := next_sequence, cu_waiting_for_safe_boundary := waiting\<rparr>,
             Some (Lagged (rs_generation state)
               (saturating_sub next_sequence (cu_next_sequence self)) next_sequence))
      else if cu_waiting_for_safe_boundary self then
        (case find (\<lambda>boundary. cu_next_sequence self \<le> boundary) (rs_safe_boundaries state) of
           Some boundary \<Rightarrow>
             Inr (read_at ring (self\<lparr>cu_next_sequence := boundary,
                    cu_waiting_for_safe_boundary := False\<rparr>) max_packets)
         | None \<Rightarrow>
             let next_sequence = (case tr_candidate_start (rs_psi state) of
                   Some candidate \<Rightarrow>
                     if cu_next_sequence self \<le> candidate then candidate else rs_next_sequence state
                 | None \<Rightarrow> rs_next_sequence state)
             in Inr (self\<lparr>cu_next_sequence := next_sequence\<rparr>, closed_event state))
      else Inr (read_at ring self max_packets))"

section \<open>The storage interface\<close>

text \<open>
  What the ring needs of its storage: slots that read back what was last written to them.  A
  window of the newest entries, kept at \<open>sequence mod slots\<close>, then survives every write.
\<close>

definition window_holds :: "(nat \<Rightarrow> 'p) \<Rightarrow> nat \<Rightarrow> 'p list \<Rightarrow> bool" where
  "window_holds rd n entries \<longleftrightarrow>
     (\<forall>i. length entries - n \<le> i \<and> i < length entries \<longrightarrow> rd (i mod n) = entries ! i)"

locale slot_store =
  fixes slots :: "'s \<Rightarrow> nat"
    and rd :: "'s \<Rightarrow> nat \<Rightarrow> 'p"
    and wr :: "'s \<Rightarrow> nat \<Rightarrow> 'p \<Rightarrow> 's"
    and fits :: "'p \<Rightarrow> bool"
  assumes slots_wr: "i < slots s \<Longrightarrow> fits p \<Longrightarrow> slots (wr s i p) = slots s"
    and rd_wr_same: "i < slots s \<Longrightarrow> fits p \<Longrightarrow> rd (wr s i p) i = p"
    and rd_wr_other: "i < slots s \<Longrightarrow> fits p \<Longrightarrow> j < slots s \<Longrightarrow> j \<noteq> i \<Longrightarrow> rd (wr s i p) j = rd s j"
begin

lemma window_write:
  assumes holds: "window_holds (rd s) (slots s) entries" and n: "0 < slots s" and "fits p"
  shows "window_holds (rd (wr s (length entries mod slots s) p)) (slots s) (entries @ [p])"
proof -
  let ?n = "slots s" and ?k = "length entries"
  have "rd (wr s (?k mod ?n) p) (i mod ?n) = (entries @ [p]) ! i"
    if "Suc ?k - ?n \<le> i" and "i \<le> ?k" for i
  proof (cases "i = ?k")
    case True
    then show ?thesis using n \<open>fits p\<close> by (simp add: rd_wr_same)
  next
    case False
    with that have i: "i < ?k" "?k - ?n \<le> i" "?k - i < ?n" using n by linarith+
    have "i mod ?n \<noteq> ?k mod ?n"
    proof
      assume "i mod ?n = ?k mod ?n"
      then have "?n dvd ?k - i" using i(1) mod_eq_dvd_iff_nat [of i ?k ?n] by simp
      then have "?n \<le> ?k - i" using i(1) by (intro dvd_imp_le) simp_all
      with i(3) show False by simp
    qed
    then have "rd (wr s (?k mod ?n) p) (i mod ?n) = rd s (i mod ?n)"
      using n \<open>fits p\<close> by (intro rd_wr_other) auto
    with holds i show ?thesis by (simp add: window_holds_def nth_append)
  qed
  then show ?thesis by (auto simp: window_holds_def less_Suc_eq_le)
qed

lemma window_read:
  assumes "window_holds (rd s) (slots s) entries"
    and "length entries - slots s \<le> a" and "a + n \<le> length entries"
  shows "map (\<lambda>i. rd s (i mod slots s)) [a..<a + n] = slice a n entries"
  using assms by (intro nth_equalityI) (auto simp: window_holds_def slice_def)

end

lemma MPEG_TS_PACKET_SIZE_pos [simp]: "0 < MPEG_TS_PACKET_SIZE"
  by (simp add: MPEG_TS_PACKET_SIZE_def)

lemma slice_as_drop: "slice off n xs = drop off (take (off + n) xs)"
  by (simp add: slice_def take_drop add.commute)

definition storage_slots :: "bytes \<Rightarrow> usize" where
  "storage_slots storage = length storage div MPEG_TS_PACKET_SIZE"

lemma slot_fits:
  assumes "i < storage_slots s"
  shows "i * MPEG_TS_PACKET_SIZE + MPEG_TS_PACKET_SIZE \<le> length s"
proof -
  have "Suc i * MPEG_TS_PACKET_SIZE \<le> storage_slots s * MPEG_TS_PACKET_SIZE"
    using assms by (intro mult_le_mono1) simp
  also have "\<dots> \<le> length s" by (simp add: storage_slots_def)
  finally show ?thesis by simp
qed

lemma length_write_slot:
  "i < storage_slots s \<Longrightarrow> length p = MPEG_TS_PACKET_SIZE \<Longrightarrow> length (write_slot s i p) = length s"
  using slot_fits [of i s] by (simp add: write_slot_def Let_def)

interpretation flat: slot_store storage_slots read_slot write_slot "\<lambda>p. length p = MPEG_TS_PACKET_SIZE"
proof
  fix i :: nat and s p :: bytes
  assume i: "i < storage_slots s" and p: "length p = MPEG_TS_PACKET_SIZE"
  note fit = slot_fits [OF i]
  show "storage_slots (write_slot s i p) = storage_slots s"
    using length_write_slot [OF i p] by (simp add: storage_slots_def)
  show "read_slot (write_slot s i p) i = p"
    using fit p by (simp add: read_slot_def write_slot_def Let_def slice_def)
  fix j assume j: "j < storage_slots s" and ne: "j \<noteq> i"
  let ?z = MPEG_TS_PACKET_SIZE
  show "read_slot (write_slot s i p) j = read_slot s j"
  proof (cases "j < i")
    case True
    then have "Suc j * ?z \<le> i * ?z" by (intro mult_le_mono1) simp
    then have "j * ?z + ?z \<le> i * ?z" by simp
    then have "take (j * ?z + ?z) (write_slot s i p) = take (j * ?z + ?z) s"
      using fit by (simp add: write_slot_def Let_def min_absorb1)
    then show ?thesis by (simp only: read_slot_def slice_as_drop)
  next
    case False
    with ne have "Suc i * ?z \<le> j * ?z" by (intro mult_le_mono1) simp
    then have "i * ?z + ?z \<le> j * ?z" by simp
    then have "drop (j * ?z) (write_slot s i p) = drop (j * ?z) s"
      using fit p False by (simp add: write_slot_def Let_def)
    then show ?thesis by (simp add: read_slot_def slice_def)
  qed
qed


section \<open>The ring invariant\<close>

text \<open>
  \<open>ring_core cfg entries st\<close> relates the state to the packets \<open>entries\<close> written to the current
  generation; it holds between any two packets of a write.  \<open>ring_inv\<close> adds what the end of
  each write restores: no boundary, candidate or index entry older than the ring's first packet.
\<close>

definition cfg_ok :: "MpegTsRingConfig \<Rightarrow> bool" where
  "cfg_ok cfg \<longleftrightarrow> 0 < cfg_capacity_packets cfg \<and> capacity_bytes cfg < u64_bound \<and>
     cfg_pre_roll_packets cfg \<le> cfg_capacity_packets cfg"

definition ts_packet_ok :: "bytes \<Rightarrow> bool" where
  "ts_packet_ok p \<longleftrightarrow> length p = MPEG_TS_PACKET_SIZE \<and> p ! 0 = 0x47"

definition store_core :: "MpegTsRingConfig \<Rightarrow> bytes list \<Rightarrow> RingState \<Rightarrow> bool" where
  "store_core cfg entries st \<longleftrightarrow>
     rs_next_sequence st = length entries \<and> length entries < u64_bound \<and>
     rs_first_sequence st = length entries - cfg_capacity_packets cfg \<and>
     length (rs_storage st) = capacity_bytes cfg \<and>
     (\<forall>p \<in> set entries. ts_packet_ok p) \<and>
     window_holds (read_slot (rs_storage st)) (cfg_capacity_packets cfg) entries"

definition psi_core :: "bytes list \<Rightarrow> RingState \<Rightarrow> bool" where
  "psi_core entries st \<longleftrightarrow>
     tr_inv (length entries) (rs_psi st) \<and>
     (\<forall>s \<in> tr_starts (rs_psi st). is_pat_start (entries ! s)) \<and>
     sorted_wrt (<) (rs_safe_boundaries st) \<and>
     (\<forall>b \<in> set (rs_safe_boundaries st). b < length entries \<and> is_pat_start (entries ! b) \<and>
        (\<forall>s \<in> tr_starts (rs_psi st). b < s))"

definition clock_core :: "bytes list \<Rightarrow> RingState \<Rightarrow> bool" where
  "clock_core entries st \<longleftrightarrow>
     (\<exists>n s. n \<le> length entries \<and> s \<le> length entries \<and> tl_reach n s (rs_pcr st)) \<and>
     (\<exists>first. mt_reach first (rs_meter st))"

definition ring_core :: "MpegTsRingConfig \<Rightarrow> bytes list \<Rightarrow> RingState \<Rightarrow> bool" where
  "ring_core cfg entries st \<longleftrightarrow>
     store_core cfg entries st \<and> psi_core entries st \<and> clock_core entries st \<and>
     rs_bytes_written st < u64_bound"

definition ring_trimmed :: "RingState \<Rightarrow> bool" where
  "ring_trimmed st \<longleftrightarrow>
     (\<forall>b \<in> set (rs_safe_boundaries st). rs_first_sequence st \<le> b) \<and>
     (\<forall>c. tr_candidate_start (rs_psi st) = Some c \<longrightarrow> rs_first_sequence st \<le> c) \<and>
     tl_prune (rs_pcr st) (rs_first_sequence st) = rs_pcr st"

definition ring_inv :: "MpegTsRingConfig \<Rightarrow> bytes list \<Rightarrow> RingState \<Rightarrow> bool" where
  "ring_inv cfg entries st \<longleftrightarrow> ring_core cfg entries st \<and> ring_trimmed st"

lemma storage_slots_cfg: "length s = capacity_bytes cfg \<Longrightarrow> storage_slots s = cfg_capacity_packets cfg"
  by (simp add: storage_slots_def capacity_bytes_def)

subsection \<open>One packet\<close>

lemma push_psi_fields [simp]:
  "rs_storage (push_psi st p) = rs_storage st" "rs_generation (push_psi st p) = rs_generation st"
  "rs_first_sequence (push_psi st p) = rs_first_sequence st"
  "rs_next_sequence (push_psi st p) = rs_next_sequence st"
  "rs_pcr (push_psi st p) = rs_pcr st" "rs_first_write (push_psi st p) = rs_first_write st"
  "rs_bytes_written (push_psi st p) = rs_bytes_written st" "rs_closed (push_psi st p) = rs_closed st"
  "rs_psi (push_psi st p) = fst (tr_observe (rs_psi st) p (rs_next_sequence st))"
  by (simp_all add: push_psi_def Let_def split: prod.split option.split)

lemma push_psi_boundaries:
  "rs_safe_boundaries (push_psi st p) = rs_safe_boundaries st @
     (case snd (tr_observe (rs_psi st) p (rs_next_sequence st)) of None \<Rightarrow> [] | Some b \<Rightarrow> [b])"
  by (simp add: push_psi_def Let_def split: prod.split option.split)

lemma push_clock_fields [simp]:
  "rs_storage (push_clock st p now) = rs_storage st"
  "rs_generation (push_clock st p now) = rs_generation st"
  "rs_first_sequence (push_clock st p now) = rs_first_sequence st"
  "rs_next_sequence (push_clock st p now) = rs_next_sequence st"
  "rs_safe_boundaries (push_clock st p now) = rs_safe_boundaries st"
  "rs_psi (push_clock st p now) = rs_psi st"
  "rs_first_write (push_clock st p now) = rs_first_write st"
  "rs_bytes_written (push_clock st p now) = rs_bytes_written st"
  "rs_closed (push_clock st p now) = rs_closed st"
  by (simp_all add: push_clock_def Let_def)

lemma push_video_fields [simp]:
  "rs_storage (push_video st p) = rs_storage st"
  "rs_generation (push_video st p) = rs_generation st"
  "rs_first_sequence (push_video st p) = rs_first_sequence st"
  "rs_next_sequence (push_video st p) = rs_next_sequence st"
  "rs_safe_boundaries (push_video st p) = rs_safe_boundaries st"
  "rs_psi (push_video st p) = rs_psi st" "rs_pcr (push_video st p) = rs_pcr st"
  "rs_first_write (push_video st p) = rs_first_write st"
  "rs_bytes_written (push_video st p) = rs_bytes_written st"
  "rs_closed (push_video st p) = rs_closed st"
  by (simp_all add: push_video_def)

lemma push_store_fields [simp]:
  "rs_generation (push_store cfg st p) = rs_generation st"
  "rs_safe_boundaries (push_store cfg st p) = rs_safe_boundaries st"
  "rs_psi (push_store cfg st p) = rs_psi st" "rs_pcr (push_store cfg st p) = rs_pcr st"
  "rs_meter (push_store cfg st p) = rs_meter st"
  "rs_first_write (push_store cfg st p) = rs_first_write st"
  "rs_bytes_written (push_store cfg st p) = rs_bytes_written st"
  "rs_closed (push_store cfg st p) = rs_closed st"
  by (simp_all add: push_store_def Let_def)

lemma push_packet_fields [simp]:
  "rs_generation (push_packet cfg now p st) = rs_generation st"
  "rs_first_write (push_packet cfg now p st) = rs_first_write st"
  "rs_bytes_written (push_packet cfg now p st) = rs_bytes_written st"
  "rs_closed (push_packet cfg now p st) = rs_closed st"
  by (simp_all add: push_packet_def)

lemma store_core_push:
  assumes core: "store_core cfg entries st" and cfg: "cfg_ok cfg" and p: "ts_packet_ok p"
    and room: "Suc (length entries) < u64_bound"
  shows "store_core cfg (entries @ [p]) (push_packet cfg now p st)"
proof -
  have slots: "storage_slots (rs_storage st) = cfg_capacity_packets cfg"
    and n: "0 < cfg_capacity_packets cfg"
    using core cfg by (simp_all add: store_core_def storage_slots_cfg cfg_ok_def)
  let ?slot = "length entries mod cfg_capacity_packets cfg"
  have "window_holds (read_slot (write_slot (rs_storage st) ?slot p)) (cfg_capacity_packets cfg) (entries @ [p])"
    using flat.window_write [of "rs_storage st" entries p] core p n
    by (simp add: slots store_core_def ts_packet_ok_def)
  moreover have "length (write_slot (rs_storage st) ?slot p) = capacity_bytes cfg"
    using core p n by (subst length_write_slot) (simp_all add: slots store_core_def ts_packet_ok_def)
  ultimately show ?thesis
    using core p room by (auto simp: store_core_def push_packet_def push_store_def Let_def)
qed

lemma psi_core_push:
  assumes core: "psi_core entries st" and q: "rs_next_sequence st = length entries"
  shows "psi_core (entries @ [p]) (push_packet cfg now p st)"
proof -
  let ?q = "length entries" and ?t = "rs_psi st"
  have inv: "tr_inv ?q ?t" using core by (simp add: psi_core_def)
  let ?t' = "fst (tr_observe ?t p ?q)"
  have inv': "tr_inv (Suc ?q) ?t'" by (rule tr_observe_inv [OF inv])
  have starts: "tr_starts ?t' \<subseteq> tr_starts ?t \<union> (if is_pat_start p then {?q} else {})"
    by (rule tr_observe_starts [OF inv])
  have psi: "rs_psi (push_packet cfg now p st) = ?t'" by (simp add: push_packet_def q)
  have old: "s < ?q" "is_pat_start (entries ! s)" if "s \<in> tr_starts ?t" for s
    using core inv that tr_starts_less by (auto simp: psi_core_def)
  have pat: "is_pat_start ((entries @ [p]) ! s)" if "s \<in> tr_starts ?t'" for s
    using that starts old [of s] by (auto simp: nth_append split: if_splits)
  have low: "b < s" if "b \<in> set (rs_safe_boundaries st)" "s \<in> tr_starts ?t'" for b s
    using that starts core by (fastforce simp: psi_core_def split: if_splits)
  have bs: "rs_safe_boundaries (push_packet cfg now p st) = rs_safe_boundaries st @
     (case snd (tr_observe ?t p ?q) of None \<Rightarrow> [] | Some b \<Rightarrow> [b])"
    by (simp add: push_packet_def push_psi_boundaries q)
  have old_b: "b < Suc ?q \<and> is_pat_start ((entries @ [p]) ! b)" if "b \<in> set (rs_safe_boundaries st)" for b
    using that core by (auto simp: psi_core_def nth_append)
  show ?thesis
  proof (cases "snd (tr_observe ?t p ?q)")
    case None
    then show ?thesis using core inv' pat low old_b by (simp add: psi_core_def psi bs)
  next
    case (Some b)
    note bnd = tr_observe_boundary [OF inv Some]
    have "b < ?q" "is_pat_start (entries ! b)" using old [OF bnd(1)] by simp_all
    moreover have "x < b" if "x \<in> set (rs_safe_boundaries st)" for x
      using that bnd(1) core by (auto simp: psi_core_def)
    ultimately show ?thesis using core inv' pat low old_b bnd(2) Some
      by (auto simp: psi_core_def psi bs sorted_wrt_append nth_append)
  qed
qed

lemma clock_core_push:
  assumes core: "clock_core entries st" and q: "rs_next_sequence st = length entries"
    and small: "length entries < u64_bound"
  shows "clock_core (entries @ [p]) (push_packet cfg now p st)"
proof -
  define st1 where "st1 = push_psi st p"
  define st2 where "st2 = push_clock st1 p now"
  obtain n s first where tl: "n \<le> length entries" "s \<le> length entries" "tl_reach n s (rs_pcr st)"
    and mt: "mt_reach first (rs_meter st)"
    using core by (auto simp: clock_core_def)
  have mt1: "mt_reach first (rs_meter st1)"
    using mt mt_pid by (simp add: st1_def push_psi_def Let_def split: prod.split option.split)
  have "\<exists>n s. n \<le> Suc (length entries) \<and> s \<le> Suc (length entries) \<and> tl_reach n s (rs_pcr st2)"
    using tl tl_step [OF tl(3) tl(2), of p]
    by (auto simp: st2_def push_clock_def st1_def q Let_def intro: le_SucI)
  moreover have "\<exists>first. mt_reach first (rs_meter st2)"
    using mt1 mt_clock [OF mt1 small]
    by (auto simp: st2_def push_clock_def Let_def st1_def q split: option.split)
  then have "\<exists>first. mt_reach first (rs_meter (push_video st2 p))"
    by (auto simp: push_video_def intro: mt_video)
  ultimately show ?thesis by (simp add: clock_core_def push_packet_def st1_def st2_def)
qed

lemma ring_core_push:
  "ring_core cfg entries st \<Longrightarrow> cfg_ok cfg \<Longrightarrow> ts_packet_ok p \<Longrightarrow> Suc (length entries) < u64_bound \<Longrightarrow>
     ring_core cfg (entries @ [p]) (push_packet cfg now p st)"
  by (auto simp: ring_core_def intro: store_core_push psi_core_push clock_core_push)
    (auto simp: store_core_def intro: psi_core_push clock_core_push)

lemma ring_core_fold:
  assumes "ring_core cfg entries st" "cfg_ok cfg" "\<forall>p \<in> set ps. ts_packet_ok p"
    "length entries + length ps < u64_bound"
  shows "ring_core cfg (entries @ ps) (fold (push_packet cfg now) ps st)"
  using assms
proof (induction ps arbitrary: entries st)
  case (Cons p ps)
  have "ring_core cfg ((entries @ [p]) @ ps) (fold (push_packet cfg now) ps (push_packet cfg now p st))"
    using Cons.prems by (intro Cons.IH ring_core_push) simp_all
  then show ?case by simp
qed simp

lemma fold_push_packet_fields [simp]:
  "rs_generation (fold (push_packet cfg now) ps st) = rs_generation st"
  "rs_first_write (fold (push_packet cfg now) ps st) = rs_first_write st"
  "rs_bytes_written (fold (push_packet cfg now) ps st) = rs_bytes_written st"
  "rs_closed (fold (push_packet cfg now) ps st) = rs_closed st"
  by (induction ps arbitrary: st) simp_all


subsection \<open>Whole operations\<close>

lemma tr_candidate_start_reset [simp]: "tr_candidate_start PatPmtTracker_default = None"
  by (simp add: tr_candidate_start_def PatPmtTracker_default_def)

lemma prune_samples_idem [simp]: "prune_samples f (prune_samples f xs) = prune_samples f xs"
  by (induction f xs rule: prune_samples.induct) auto

lemma tl_prune_idem [simp]: "tl_prune (tl_prune self f) f = tl_prune self f"
  by (simp add: tl_prune_def)

lemma push_finish_fields [simp]:
  "rs_storage (push_finish st n len now) = rs_storage st"
  "rs_generation (push_finish st n len now) = rs_generation st"
  "rs_first_sequence (push_finish st n len now) = rs_first_sequence st"
  "rs_next_sequence (push_finish st n len now) = rs_next_sequence st"
  "rs_meter (push_finish st n len now) = rs_meter st"
  "rs_closed (push_finish st n len now) = rs_closed st"
  "rs_bytes_written (push_finish st n len now) = saturating_add_u64 (rs_bytes_written st) len"
  "rs_pcr (push_finish st n len now) = tl_prune (rs_pcr st) (rs_first_sequence st)"
  "rs_safe_boundaries (push_finish st n len now) =
     dropWhile (\<lambda>b. b < rs_first_sequence st) (rs_safe_boundaries st)"
  "rs_psi (push_finish st n len now) =
     (case tr_candidate_start (rs_psi st) of None \<Rightarrow> rs_psi st
      | Some c \<Rightarrow> if c < rs_first_sequence st then PatPmtTracker_default else rs_psi st)"
  by (simp_all add: push_finish_def Let_def tr_reset_def split: option.split)

lemma psi_core_finish:
  assumes "psi_core entries st"
  shows "psi_core entries (push_finish st n len now)"
proof -
  let ?bs = "rs_safe_boundaries st" and ?f = "rs_first_sequence st"
  have "sorted_wrt (<) (dropWhile (\<lambda>b. b < ?f) ?bs)"
    using assms by (auto simp: psi_core_def strict_sorted_iff intro: sorted_dropWhile)
  moreover have "set (dropWhile (\<lambda>b. b < ?f) ?bs) \<subseteq> set ?bs"
    by (auto dest: set_dropWhileD)
  ultimately show ?thesis
    using assms by (auto simp: psi_core_def split: option.split)
qed

lemma ring_inv_finish:
  assumes core: "ring_core cfg entries st"
  shows "ring_inv cfg entries (push_finish st n len now)"
proof -
  let ?bs = "rs_safe_boundaries st" and ?f = "rs_first_sequence st"
  have "sorted ?bs" using core by (auto simp: ring_core_def psi_core_def strict_sorted_iff)
  then have "\<forall>b \<in> set (dropWhile (\<lambda>b. b < ?f) ?bs). ?f \<le> b"
    by (simp add: dropWhile_sorted_filter)
  then have "ring_trimmed (push_finish st n len now)"
    by (auto simp: ring_trimmed_def split: option.splits if_splits)
  moreover have "clock_core entries (push_finish st n len now)"
    using core by (auto simp: ring_core_def clock_core_def intro: tl_drop)
  moreover have "store_core cfg entries (push_finish st n len now)"
    using core by (simp add: ring_core_def store_core_def)
  ultimately show ?thesis
    using core psi_core_finish by (simp add: ring_inv_def ring_core_def)
qed

lemma first_bad_sync_None: "first_bad_sync i ps = None \<longleftrightarrow> (\<forall>p \<in> set ps. p ! 0 = 0x47)"
  by (induction ps arbitrary: i) auto

text \<open>The conditions under which a write is accepted.\<close>

definition push_accepts :: "RingInner \<Rightarrow> bytes \<Rightarrow> bool" where
  "push_accepts r bs \<longleftrightarrow> length bs mod MPEG_TS_PACKET_SIZE = 0 \<and>
     (\<forall>p \<in> set (chunks_exact MPEG_TS_PACKET_SIZE bs). p ! 0 = 0x47) \<and>
     rs_closed (ri_state r) = None \<and>
     rs_next_sequence (ri_state r) + length bs div MPEG_TS_PACKET_SIZE < u64_bound"

lemma ring_push_rejected:
  "\<not> push_accepts r bs \<Longrightarrow> \<exists>e. ring_push r bs now t = (Inl e, r)"
  using first_bad_sync_None [of 0 "chunks_exact MPEG_TS_PACKET_SIZE bs"]
  by (cases "first_bad_sync 0 (chunks_exact MPEG_TS_PACKET_SIZE bs)")
    (auto simp: push_accepts_def ring_push_def Let_def split: option.split)

lemma ring_push_accepted:
  fixes now t :: nat
  assumes "push_accepts r bs"
  defines "n \<equiv> length bs div MPEG_TS_PACKET_SIZE"
  defines "st \<equiv> push_finish (fold (push_packet (ri_config r) now) (chunks_exact MPEG_TS_PACKET_SIZE bs)
    (ri_state r)) n (length bs) t"
  shows "ring_push r bs now t =
    (Inr \<lparr>wo_generation = rs_generation (ri_state r), wo_packets_written = n,
       wo_packets_overwritten = rs_first_sequence st - rs_first_sequence (ri_state r),
       wo_first_sequence = rs_first_sequence st, wo_next_sequence = rs_next_sequence st\<rparr>,
     r\<lparr>ri_state := st, ri_changed := (if n > 0 then Suc (ri_changed r) else ri_changed r)\<rparr>)"
proof -
  have sync: "first_bad_sync 0 (chunks_exact MPEG_TS_PACKET_SIZE bs) = None"
    using assms(1) by (simp add: push_accepts_def first_bad_sync_None)
  have "rs_generation st = rs_generation (ri_state r)" by (simp add: st_def)
  then show ?thesis
    using assms(1) by (simp add: push_accepts_def ring_push_def sync Let_def n_def st_def)
qed

lemma ring_push_inv:
  assumes inv: "ring_inv (ri_config r) entries (ri_state r)" and cfg: "cfg_ok (ri_config r)"
    and acc: "push_accepts r bs"
  shows "ring_inv (ri_config r) (entries @ chunks_exact MPEG_TS_PACKET_SIZE bs)
    (ri_state (snd (ring_push r bs now t)))"
proof -
  let ?ps = "chunks_exact MPEG_TS_PACKET_SIZE bs"
  have ok: "\<forall>p \<in> set ?ps. ts_packet_ok p"
    using acc by (auto simp: push_accepts_def ts_packet_ok_def chunks_exact_lengths)
  have "rs_next_sequence (ri_state r) = length entries"
    using inv by (simp add: ring_inv_def ring_core_def store_core_def)
  with acc have "length entries + length ?ps < u64_bound"
    by (simp add: push_accepts_def length_chunks_exact)
  with inv cfg ok have "ring_core (ri_config r) (entries @ ?ps) (fold (push_packet (ri_config r) now) ?ps (ri_state r))"
    by (intro ring_core_fold) (simp_all add: ring_inv_def)
  then show ?thesis by (simp add: ring_push_accepted [OF acc] ring_inv_finish)
qed

lemma ring_push_config [simp]: "ri_config (snd (ring_push r bs now t)) = ri_config r"
  by (cases "push_accepts r bs") (auto simp: ring_push_accepted dest: ring_push_rejected [of r bs now t])

lemma ring_inv_fresh:
  assumes "length (rs_storage st) = capacity_bytes cfg" "rs_next_sequence st = 0"
    "rs_first_sequence st = 0" "rs_safe_boundaries st = []" "rs_psi st = PatPmtTracker_default"
    "rs_pcr st = PcrTimeline_default" "rs_meter st = RateMeter_default" "rs_bytes_written st = 0"
  shows "ring_inv cfg [] st"
proof -
  have "tl_prune PcrTimeline_default 0 = PcrTimeline_default"
    by (simp add: tl_prune_def PcrTimeline_default_def)
  moreover have "tl_reach 0 0 PcrTimeline_default" "mt_reach None RateMeter_default"
    by (rule tl_start, rule mt_start)
  ultimately show ?thesis using assms
    by (auto simp: ring_inv_def ring_core_def store_core_def psi_core_def clock_core_def
        ring_trimmed_def window_holds_def)
qed

text \<open>
  \<open>ring_reach cfg entries r\<close>: the ring after any history of its operations, with \<open>entries\<close>
  the packets written since its current generation started.
\<close>

inductive ring_reach :: "MpegTsRingConfig \<Rightarrow> bytes list \<Rightarrow> RingInner \<Rightarrow> bool" where
  ring_created: "cfg_ok cfg \<Longrightarrow> ring_reach cfg [] (ring_new cfg)"
| ring_pushed: "ring_reach cfg entries r \<Longrightarrow> ring_push r bs now t = (Inr outcome, r') \<Longrightarrow>
    ring_reach cfg (entries @ chunks_exact MPEG_TS_PACKET_SIZE bs) r'"
| ring_restarted: "ring_reach cfg entries r \<Longrightarrow> start_new_generation r = (Inr g, r') \<Longrightarrow>
    ring_reach cfg [] r'"
| ring_closed: "ring_reach cfg entries r \<Longrightarrow> ring_close r reason = (b, r') \<Longrightarrow>
    ring_reach cfg entries r'"

lemma ring_push_Inr: "ring_push r bs now t = (Inr outcome, r') \<Longrightarrow> push_accepts r bs"
  using ring_push_rejected [of r bs now t] by force

lemma ring_inv_closed_field [simp]:
  "ring_inv cfg entries (st\<lparr>rs_closed := c\<rparr>) = ring_inv cfg entries st"
  unfolding ring_inv_def ring_core_def store_core_def psi_core_def clock_core_def ring_trimmed_def
  by simp

lemma ring_inv_close:
  "ring_inv cfg entries (ri_state r) \<Longrightarrow> ring_inv cfg entries (ri_state (snd (ring_close r reason)))"
  by (simp add: ring_close_def)

lemma ring_reach_inv:
  "ring_reach cfg entries r \<Longrightarrow> cfg_ok cfg \<and> ri_config r = cfg \<and> ring_inv cfg entries (ri_state r)"
proof (induction rule: ring_reach.induct)
  case (ring_created cfg)
  then show ?case by (auto simp: ring_new_def intro: ring_inv_fresh)
next
  case (ring_pushed cfg entries r bs now t outcome r')
  from ring_pushed.hyps(2) have acc: "push_accepts r bs" by (rule ring_push_Inr)
  with ring_pushed show ?case
    using ring_push_inv [of r entries bs now t] ring_push_config [of r bs now t] by simp
next
  case (ring_restarted cfg entries r g r')
  then have "length (rs_storage (ri_state r)) = capacity_bytes cfg"
    by (simp add: ring_inv_def ring_core_def store_core_def)
  with ring_restarted show ?case
    by (auto simp: start_new_generation_def Let_def tr_reset_def tl_reset_def intro!: ring_inv_fresh
        split: option.splits)
next
  case (ring_closed cfg entries r reason b r')
  then have "ring_inv cfg entries (ri_state r')" using ring_inv_close [of cfg entries r reason] by simp
  moreover have "ri_config r' = ri_config r" using ring_closed.hyps(2)
    by (auto simp: ring_close_def split: if_splits)
  ultimately show ?case using ring_closed.IH by simp
qed


section \<open>Cursors\<close>

text \<open>What a cursor of the current generation may assume of its ring.\<close>

definition cursor_ok :: "RingInner \<Rightarrow> RingCursor \<Rightarrow> bool" where
  "cursor_ok r c \<longleftrightarrow> cu_generation c \<le> rs_generation (ri_state r) \<and>
     (cu_generation c = rs_generation (ri_state r) \<longrightarrow>
        cu_next_sequence c \<le> rs_next_sequence (ri_state r))"

lemma ring_reach_store:
  assumes "ring_reach cfg entries r"
  shows "ri_config r = cfg" "0 < cfg_capacity_packets cfg"
    "rs_next_sequence (ri_state r) = length entries" "length entries < u64_bound"
    "rs_first_sequence (ri_state r) = length entries - cfg_capacity_packets cfg"
    "\<forall>p \<in> set entries. ts_packet_ok p"
  using ring_reach_inv [OF assms]
  by (auto simp: ring_inv_def ring_core_def store_core_def cfg_ok_def)

lemma ring_reach_boundaries:
  assumes "ring_reach cfg entries r" and "b \<in> set (rs_safe_boundaries (ri_state r))"
  shows "rs_first_sequence (ri_state r) \<le> b" "b < length entries" "is_pat_start (entries ! b)"
  using ring_reach_inv [OF assms(1)] assms(2)
  by (auto simp: ring_inv_def ring_core_def psi_core_def ring_trimmed_def)

lemma ring_reach_candidate:
  assumes "ring_reach cfg entries r" and "tr_candidate_start (rs_psi (ri_state r)) = Some c"
  shows "rs_first_sequence (ri_state r) \<le> c" "c < length entries" "is_pat_start (entries ! c)"
proof -
  have "c \<in> tr_starts (rs_psi (ri_state r))" using assms(2) by (simp add: tr_starts_def)
  then show "rs_first_sequence (ri_state r) \<le> c" "c < length entries" "is_pat_start (entries ! c)"
    using ring_reach_inv [OF assms(1)] assms(2) tr_starts_less
    by (auto simp: ring_inv_def ring_core_def psi_core_def ring_trimmed_def)
qed

lemma find_SomeD: "find P xs = Some x \<Longrightarrow> x \<in> set xs \<and> P x"
  by (auto simp: find_Some_iff in_set_conv_nth)

lemma safe_resume_spec:
  assumes r: "ring_reach cfg entries r" and t: "t \<le> length entries"
    and pos: "safe_resume_position (ri_state r) t = (q, w)"
  shows "t \<le> q" "q \<le> length entries" "\<not> w \<Longrightarrow> q < length entries \<and> is_pat_start (entries ! q)"
proof -
  note st = ring_reach_store [OF r]
  have "t \<le> q \<and> q \<le> length entries \<and> (\<not> w \<longrightarrow> q < length entries \<and> is_pat_start (entries ! q))"
  proof (cases "find (\<lambda>b. t \<le> b) (rs_safe_boundaries (ri_state r))")
    case (Some b)
    with pos find_SomeD [OF Some] ring_reach_boundaries [OF r, of b] show ?thesis
      by (auto simp: safe_resume_position_def)
  next
    case None
    with pos t st ring_reach_candidate [OF r] show ?thesis
      by (auto simp: safe_resume_position_def less_imp_le split: option.splits if_splits)
  qed
  then show "t \<le> q" "q \<le> length entries" "\<not> w \<Longrightarrow> q < length entries \<and> is_pat_start (entries ! q)"
    by auto
qed

lemma read_packets_exact:
  assumes r: "ring_reach cfg entries r"
    and "rs_first_sequence (ri_state r) \<le> f" "f + k \<le> length entries"
  shows "read_packets (ri_config r) (ri_state r) f k = concat (slice f k entries)"
proof -
  have core: "store_core cfg entries (ri_state r)" and cfg: "ri_config r = cfg"
    using ring_reach_inv [OF r] by (auto simp: ring_inv_def ring_core_def)
  then have slots: "storage_slots (rs_storage (ri_state r)) = cfg_capacity_packets cfg"
    by (simp add: storage_slots_cfg store_core_def)
  show ?thesis
    using flat.window_read [of "rs_storage (ri_state r)" entries f k] core assms(2,3)
    by (simp add: read_packets_def cfg slots store_core_def)
qed

lemma read_at_spec:
  assumes r: "ring_reach cfg entries r" and n: "0 < n"
    and c: "cu_generation c = rs_generation (ri_state r)" "cu_next_sequence c \<le> length entries"
      "rs_first_sequence (ri_state r) \<le> cu_next_sequence c"
    and rd: "read_at r c n = (c', ev)"
  shows "cu_next_sequence c < length entries \<Longrightarrow> \<exists>k. k = min (length entries - cu_next_sequence c) n \<and>
      ev = Some (Packets (rs_generation (ri_state r)) (cu_next_sequence c)
        (concat (slice (cu_next_sequence c) k entries))) \<and>
      c' = c\<lparr>cu_next_sequence := cu_next_sequence c + k\<rparr>"
    and "cu_next_sequence c = length entries \<Longrightarrow> c' = c \<and> ev = closed_event (ri_state r)"
proof -
  note st = ring_reach_store [OF r]
  let ?k = "min (length entries - cu_next_sequence c) n"
  have sum: "cu_next_sequence c + ?k < u64_bound" using c st by simp
  show "\<exists>k. k = ?k \<and> ev = Some (Packets (rs_generation (ri_state r)) (cu_next_sequence c)
        (concat (slice (cu_next_sequence c) k entries))) \<and>
      c' = c\<lparr>cu_next_sequence := cu_next_sequence c + k\<rparr>" if "cu_next_sequence c < length entries"
    using rd that st sum read_packets_exact [OF r c(3), of ?k]
    by (simp add: read_at_def Let_def wrapping_add_u64_exact [OF sum])
  show "c' = c \<and> ev = closed_event (ri_state r)" if "cu_next_sequence c = length entries"
    using rd that st by (simp add: read_at_def)
qed

text \<open>The branches of \<open>try_next\<close> on a reachable ring.\<close>

lemma try_next_cases:
  assumes r: "ring_reach cfg entries r" and ok: "cursor_ok r c"
    and res: "try_next r c n = Inr (c', ev)"
  obtains (boundary) q w where "cu_generation c < rs_generation (ri_state r)"
      "safe_resume_position (ri_state r) (rs_first_sequence (ri_state r)) = (q, w)"
      "c' = \<lparr>cu_generation = rs_generation (ri_state r), cu_next_sequence = q,
        cu_waiting_for_safe_boundary = w\<rparr>"
      "ev = Some (GenerationBoundary (cu_generation c) (rs_generation (ri_state r)))"
  | (lagged) q w where "cu_generation c = rs_generation (ri_state r)"
      "cu_next_sequence c < rs_first_sequence (ri_state r)"
      "safe_resume_position (ri_state r) (rs_first_sequence (ri_state r)) = (q, w)"
      "c' = c\<lparr>cu_next_sequence := q, cu_waiting_for_safe_boundary := w\<rparr>"
      "ev = Some (Lagged (rs_generation (ri_state r)) (q - cu_next_sequence c) q)"
  | (blocked) q where "cu_generation c = rs_generation (ri_state r)" "cu_waiting_for_safe_boundary c"
      "cu_next_sequence c \<le> q" "q \<le> length entries" "c' = c\<lparr>cu_next_sequence := q\<rparr>"
      "\<forall>b \<in> set (rs_safe_boundaries (ri_state r)). b < cu_next_sequence c"
      "ev = closed_event (ri_state r)"
  | (reading) q k where "cu_generation c = rs_generation (ri_state r)"
      "if cu_waiting_for_safe_boundary c
       then cu_next_sequence c \<le> q \<and> q \<in> set (rs_safe_boundaries (ri_state r)) \<and> is_pat_start (entries ! q)
       else q = cu_next_sequence c"
      "rs_first_sequence (ri_state r) \<le> q" "q < length entries" "k = min (length entries - q) n" "0 < n"
      "ev = Some (Packets (rs_generation (ri_state r)) q (concat (slice q k entries)))"
      "c' = c\<lparr>cu_next_sequence := q + k, cu_waiting_for_safe_boundary := False\<rparr>"
  | (drained) "cu_generation c = rs_generation (ri_state r)" "\<not> cu_waiting_for_safe_boundary c"
      "cu_next_sequence c = length entries" "c' = c" "ev = closed_event (ri_state r)"
proof -
  let ?st = "ri_state r"
  note st = ring_reach_store [OF r]
  have n: "n \<noteq> 0" using res by (cases "n = 0") (simp_all add: try_next_def)
  obtain q w where pos: "safe_resume_position ?st (rs_first_sequence ?st) = (q, w)" by fastforce
  consider "cu_generation c \<noteq> rs_generation ?st"
    | "cu_generation c = rs_generation ?st" "cu_next_sequence c < rs_first_sequence ?st"
    | "cu_generation c = rs_generation ?st" "rs_first_sequence ?st \<le> cu_next_sequence c"
      "cu_waiting_for_safe_boundary c"
    | "cu_generation c = rs_generation ?st" "rs_first_sequence ?st \<le> cu_next_sequence c"
      "\<not> cu_waiting_for_safe_boundary c" by linarith
  then show thesis
  proof cases
    case 1
    with n res ok show thesis
      by (intro boundary [OF _ pos]) (auto simp: try_next_def Let_def cursor_ok_def pos)
  next
    case 2
    with n res show thesis
      by (intro lagged [OF _ _ pos]) (auto simp: try_next_def Let_def pos)
  next
    case 3
    have le: "cu_next_sequence c \<le> length entries" using ok 3(1) st by (simp add: cursor_ok_def)
    show thesis
    proof (cases "find (\<lambda>b. cu_next_sequence c \<le> b) (rs_safe_boundaries ?st)")
      case None
      then have none: "\<forall>b \<in> set (rs_safe_boundaries ?st). b < cu_next_sequence c"
        by (auto simp: find_None_iff)
      define q where "q = (case tr_candidate_start (rs_psi ?st) of
          Some candidate \<Rightarrow> if cu_next_sequence c \<le> candidate then candidate else rs_next_sequence ?st
        | None \<Rightarrow> rs_next_sequence ?st)"
      have "cu_next_sequence c \<le> q" "q \<le> length entries"
        using st le ring_reach_candidate [OF r] by (auto simp: q_def less_imp_le split: option.splits)
      moreover have "c' = c\<lparr>cu_next_sequence := q\<rparr>" "ev = closed_event ?st"
        using n res None 3 by (simp_all add: try_next_def Let_def q_def)
      ultimately show thesis using 3(1,3) none by (intro blocked [of q])
    next
      case (Some b)
      let ?c = "c\<lparr>cu_next_sequence := b, cu_waiting_for_safe_boundary := False\<rparr>"
      have b: "cu_next_sequence c \<le> b" "rs_first_sequence ?st \<le> b" "b < length entries" "is_pat_start (entries ! b)"
        "b \<in> set (rs_safe_boundaries ?st)"
        using find_SomeD [OF Some] ring_reach_boundaries [OF r, of b] by auto
      have "read_at r ?c n = (c', ev)"
        using n res Some 3 by (simp add: try_next_def Let_def)
      from read_at_spec(1) [OF r _ _ _ _ this] n 3(1) b obtain k where
        "k = min (length entries - b) n"
        "ev = Some (Packets (rs_generation ?st) b (concat (slice b k entries)))"
        "c' = ?c\<lparr>cu_next_sequence := b + k\<rparr>" by auto
      then show thesis using 3(1,3) b n by (intro reading [of b k]) auto
    qed
  next
    case 4
    have le: "cu_next_sequence c \<le> length entries" using ok 4(1) st by (simp add: cursor_ok_def)
    have rd: "read_at r c n = (c', ev)" using n res 4 by (simp add: try_next_def Let_def)
    show thesis
    proof (cases "cu_next_sequence c = length entries")
      case True
      with read_at_spec(2) [OF r _ _ _ _ rd] n 4 show thesis by (intro drained) auto
    next
      case False
      with le have lt: "cu_next_sequence c < length entries" by simp
      from read_at_spec(1) [OF r _ 4(1) le 4(2) rd] n lt obtain k where
        "k = min (length entries - cu_next_sequence c) n"
        "ev = Some (Packets (rs_generation ?st) (cu_next_sequence c)
          (concat (slice (cu_next_sequence c) k entries)))"
        "c' = c\<lparr>cu_next_sequence := cu_next_sequence c + k\<rparr>" by auto
      then show thesis using 4 lt n by (intro reading [of "cu_next_sequence c" k]) auto
    qed
  qed
qed


subsection \<open>Cursors stay valid\<close>

lemma fold_push_next:
  assumes "ring_reach cfg entries r" "ring_push r bs now t = (Inr out, r')"
  shows "rs_next_sequence (ri_state r) \<le> rs_next_sequence (ri_state r')"
  using ring_reach_store(3) [OF assms(1)] ring_reach_store(3) [OF ring_pushed [OF assms]] by simp

lemma ring_push_generation: "rs_generation (ri_state (snd (ring_push r bs now t))) = rs_generation (ri_state r)"
  by (cases "push_accepts r bs") (auto simp: ring_push_accepted dest: ring_push_rejected [of r bs now t])

text \<open>One operation of some task on the shared ring: a write, a restart or a close.\<close>

inductive ring_step :: "RingInner \<Rightarrow> RingInner \<Rightarrow> bool" where
  step_push: "ring_step r (snd (ring_push r bs now t))"
| step_restart: "ring_step r (snd (start_new_generation r))"
| step_close: "ring_step r (snd (ring_close r reason))"

lemma ring_step_reach:
  assumes "ring_reach cfg entries r" and "ring_step r r'"
  shows "\<exists>entries'. ring_reach cfg entries' r'"
  using assms(2)
proof (cases rule: ring_step.cases)
  case (step_push bs now t)
  show ?thesis
  proof (cases "push_accepts r bs")
    case True
    then obtain out where "ring_push r bs now t = (Inr out, r')"
      using step_push by (simp add: ring_push_accepted)
    with assms(1) show ?thesis by (blast intro: ring_pushed)
  next
    case False
    with step_push assms(1) show ?thesis using ring_push_rejected [OF False, of now t] by auto
  qed
next
  case step_restart
  then show ?thesis using assms(1) ring_restarted [OF assms(1)]
    by (cases "start_new_generation r") (auto simp: start_new_generation_def Let_def split: option.splits)
next
  case (step_close reason)
  then show ?thesis using ring_closed [OF assms(1), of reason] by (metis prod.collapse)
qed

lemma cursor_ok_step:
  assumes r: "ring_reach cfg entries r" and step: "ring_step r r'" and ok: "cursor_ok r c"
  shows "cursor_ok r' c"
  using step
proof (cases rule: ring_step.cases)
  case (step_push bs now t)
  show ?thesis
  proof (cases "push_accepts r bs")
    case True
    then obtain out where out: "ring_push r bs now t = (Inr out, r')"
      using step_push by (simp add: ring_push_accepted)
    have "rs_generation (ri_state r') = rs_generation (ri_state r)"
      using ring_push_generation [of r bs now t] step_push by simp
    with ok fold_push_next [OF r out] show ?thesis by (auto simp: cursor_ok_def)
  next
    case False
    with step_push ok show ?thesis using ring_push_rejected [OF False, of now t] by auto
  qed
next
  case step_restart
  then show ?thesis using ok by (auto simp: start_new_generation_def Let_def cursor_ok_def split: option.splits)
next
  case (step_close reason)
  then show ?thesis using ok by (auto simp: ring_close_def cursor_ok_def)
qed

lemma cursor_ok_subscribe:
  assumes r: "ring_reach cfg entries r"
  shows "cursor_ok r (subscribe_with_pre_roll r n)"
proof -
  note st = ring_reach_store [OF r]
  let ?t = "max (rs_next_sequence (ri_state r) - n) (rs_first_sequence (ri_state r))"
  obtain q w where pos: "safe_resume_position (ri_state r) ?t = (q, w)" by fastforce
  have "?t \<le> length entries" using st by simp
  moreover have "subscribe_with_pre_roll r n = \<lparr>cu_generation = rs_generation (ri_state r),
      cu_next_sequence = q, cu_waiting_for_safe_boundary = w\<rparr>"
    by (simp add: subscribe_with_pre_roll_def Let_def pos)
  ultimately show ?thesis
    using safe_resume_spec(2) [OF r _ pos] st by (simp add: cursor_ok_def)
qed

lemma cursor_ok_try_next:
  assumes r: "ring_reach cfg entries r" and ok: "cursor_ok r c" and res: "try_next r c n = Inr (c', ev)"
  shows "cursor_ok r c'"
proof -
  note st = ring_reach_store [OF r]
  have le: "rs_first_sequence (ri_state r) \<le> length entries" using st by simp
  show ?thesis
    using r ok res
    by (cases rule: try_next_cases)
      (use safe_resume_spec(2) [OF r le] st ok in \<open>auto simp: cursor_ok_def\<close>)
qed

section \<open>Waking readers\<close>

text \<open>An accepted write of no packets, the only step without a notification, changes nothing.\<close>

lemma push_finish_noop:
  assumes "ring_inv cfg entries st"
  shows "push_finish st 0 0 t = st"
proof -
  have trimmed: "\<forall>b \<in> set (rs_safe_boundaries st). \<not> b < rs_first_sequence st"
    "\<forall>c. tr_candidate_start (rs_psi st) = Some c \<longrightarrow> \<not> c < rs_first_sequence st"
    "tl_prune (rs_pcr st) (rs_first_sequence st) = rs_pcr st" "rs_bytes_written st < u64_bound"
    using assms by (auto simp: ring_inv_def ring_trimmed_def ring_core_def not_less)
  have "saturating_add_u64 (rs_bytes_written st) 0 = rs_bytes_written st"
    using trimmed(4) by (simp add: saturating_add_u64_exact)
  with trimmed show ?thesis
    by (auto simp: push_finish_def dropWhile_none split: option.split)
qed

lemma ring_push_empty:
  assumes r: "ring_reach cfg entries r" and "push_accepts r bs" and "length bs div MPEG_TS_PACKET_SIZE = 0"
  shows "snd (ring_push r bs now t) = r"
proof -
  have "bs = []" using assms(2,3) by (auto simp: push_accepts_def MPEG_TS_PACKET_SIZE_def)
  moreover have "ring_inv cfg entries (ri_state r)" using ring_reach_inv [OF r] by simp
  ultimately show ?thesis
    using assms(2) by (simp add: ring_push_accepted push_finish_noop)
qed

lemma ring_step_version:
  assumes r: "ring_reach cfg entries r" and step: "ring_step r r'"
  shows "ri_changed r \<le> ri_changed r'" "ri_changed r' = ri_changed r \<Longrightarrow> r' = r"
proof -
  have "r' = r \<or> ri_changed r' = Suc (ri_changed r)"
    using step
  proof (cases rule: ring_step.cases)
    case (step_push bs now t)
    then show ?thesis
      using ring_push_empty [OF r, of bs now t] ring_push_rejected [of r bs now t]
      by (cases "push_accepts r bs") (auto simp: ring_push_accepted)
  qed (auto simp: start_new_generation_def ring_close_def Let_def split: option.splits)
  then show "ri_changed r \<le> ri_changed r'" "ri_changed r' = ri_changed r \<Longrightarrow> r' = r" by auto
qed

interpretation ring_waiters: wakeup "\<lambda>r. \<exists>cfg entries. ring_reach cfg entries r" ring_step ri_changed "\<lambda>r. r" "(=)"
  by unfold_locales (simp, simp, blast intro: ring_step_reach, auto dest: ring_step_version)


section \<open>Properties of the ring\<close>

lemma closed_event_simps [simp]:
  "closed_event st \<noteq> Some (Packets g f bs)" "Some (Packets g f bs) \<noteq> closed_event st"
  "closed_event st \<noteq> Some (Lagged g f q)" "Some (Lagged g f q) \<noteq> closed_event st"
  "closed_event st \<noteq> Some (GenerationBoundary a b)" "Some (GenerationBoundary a b) \<noteq> closed_event st"
  by (cases "rs_closed st"; simp add: closed_event_def)+

lemma try_next_idle:
  assumes r: "ring_reach cfg entries r" and ok: "cursor_ok r c"
    and res: "try_next r c n = Inr (c', None)"
  shows "try_next r c' n = Inr (c'', ev) \<Longrightarrow> ev = None"
proof -
  assume again: "try_next r c' n = Inr (c'', ev)"
  note ok' = cursor_ok_try_next [OF r ok res]
  have nr: "rs_first_sequence (ri_state r) \<le> cu_next_sequence c" if "cu_generation c = rs_generation (ri_state r)"
  proof (rule ccontr)
    assume lag: "\<not> rs_first_sequence (ri_state r) \<le> cu_next_sequence c"
    have n: "n \<noteq> 0" using res by (cases "n = 0") (simp_all add: try_next_def)
    obtain q w where "safe_resume_position (ri_state r) (rs_first_sequence (ri_state r)) = (q, w)"
      by fastforce
    with res n lag that show False by (simp add: try_next_def Let_def)
  qed
  from r ok res show "ev = None"
  proof (cases rule: try_next_cases)
    case (blocked q)
    note b = this
    from r ok' again show ?thesis
    proof (cases rule: try_next_cases)
      case (reading q' k)
      with b show ?thesis by (auto simp: split: if_splits)
    qed (use b nr in auto)
  next
    case drained
    note d = this
    from r ok' again show ?thesis
      by (cases rule: try_next_cases) (use d nr in auto)
  qed simp_all
qed

lemma first_bad_sync_Some:
  "first_bad_sync i ps = Some (j, b) \<Longrightarrow> i \<le> j \<and> j < i + length ps \<and> b = ps ! (j - i) ! 0 \<and> b \<noteq> 0x47"
  by (induction ps arbitrary: i) (fastforce simp: nth_Cons' split: if_splits)+

lemma nth_chunks_exact:
  "0 < n \<Longrightarrow> i < length (chunks_exact n xs) \<Longrightarrow> j < n \<Longrightarrow> chunks_exact n xs ! i ! j = xs ! (i * n + j)"
proof (induction n xs arbitrary: i rule: chunks_exact.induct)
  case (1 n xs)
  then have long: "\<not> length xs < n" by (auto simp: chunks_exact.simps [of n xs])
  then have step: "chunks_exact n xs = take n xs # chunks_exact n (drop n xs)"
    using "1.prems"(1) by (simp add: chunks_exact.simps [of n xs])
  show ?case
  proof (cases i)
    case 0
    then show ?thesis using step "1.prems" by simp
  next
    case (Suc k)
    have "chunks_exact n (drop n xs) ! k ! j = drop n xs ! (k * n + j)"
      using "1.IH" [of k] "1.prems" long Suc step by simp
    moreover have "n \<le> length xs" using long by simp
    ultimately show ?thesis using Suc step by (simp add: add.assoc)
  qed
qed

lemma ring_push_outcome:
  assumes "push_accepts r bs"
  obtains out r' where "ring_push r bs now t = (Inr out, r')"
    "wo_generation out = rs_generation (ri_state r)"
    "wo_packets_written out = length bs div MPEG_TS_PACKET_SIZE"
    "wo_next_sequence out = rs_next_sequence (ri_state r')"
    "wo_first_sequence out = rs_first_sequence (ri_state r')"
    "wo_packets_overwritten out = rs_first_sequence (ri_state r') - rs_first_sequence (ri_state r)"
  by (rule that, rule ring_push_accepted [OF assms]) simp_all

text \<open>The error of a refused write names the condition that failed.\<close>

definition write_error_ok :: "RingInner \<Rightarrow> bytes \<Rightarrow> RingWriteError \<Rightarrow> bool" where
  "write_error_ok r bs e \<longleftrightarrow> (case e of
      Unaligned k \<Rightarrow> k = length bs \<and> k mod MPEG_TS_PACKET_SIZE \<noteq> 0
    | InvalidSyncByte i b \<Rightarrow> b \<noteq> 0x47 \<and> i < length bs div MPEG_TS_PACKET_SIZE \<and>
        b = bs ! (i * MPEG_TS_PACKET_SIZE)
    | WriteClosed g reason \<Rightarrow> g = rs_generation (ri_state r) \<and> rs_closed (ri_state r) = Some reason
    | SequenceExhausted \<Rightarrow>
        u64_bound \<le> rs_next_sequence (ri_state r) + length bs div MPEG_TS_PACKET_SIZE)"

lemma ring_push_refused:
  assumes "\<not> push_accepts r bs"
  obtains e where "ring_push r bs now t = (Inl e, r)" "write_error_ok r bs e"
proof -
  let ?ps = "chunks_exact MPEG_TS_PACKET_SIZE bs"
  have bad: "b \<noteq> 0x47 \<and> i < length bs div MPEG_TS_PACKET_SIZE \<and> b = bs ! (i * MPEG_TS_PACKET_SIZE)"
    if "first_bad_sync 0 ?ps = Some (i, b)" for i b
    using first_bad_sync_Some [OF that] nth_chunks_exact [of MPEG_TS_PACKET_SIZE i bs 0]
    by (auto simp: length_chunks_exact)
  obtain e where e: "ring_push r bs now t = (Inl e, r)"
    using ring_push_rejected [OF assms, of now t] by blast
  then have "write_error_ok r bs e"
    using bad by (auto simp: ring_push_def write_error_ok_def Let_def split: option.splits if_splits)
  with e show thesis by (rule that)
qed

text \<open>C1: the ring holds the newest packets.  After any history of writes, restarts and closes,
  the ring retains the last \<open>capacity\<close> packets of its generation (all of them while there are
  fewer), and reading from its first sequence gives exactly their bytes, in order.\<close>

theorem ring_holds_the_newest_packets:
  assumes "ring_reach cfg entries r"
  shows "sn_retained_packets (ring_snapshot r) = min (cfg_capacity_packets cfg) (length entries) \<and>
    read_packets (ri_config r) (ri_state r) (sn_first_sequence (ring_snapshot r))
      (sn_retained_packets (ring_snapshot r)) = concat (lastn (cfg_capacity_packets cfg) entries)"
proof -
  note st = ring_reach_store [OF assms]
  let ?n = "cfg_capacity_packets cfg"
  have n: "sn_retained_packets (ring_snapshot r) = min ?n (length entries)"
    using st by (simp add: ring_snapshot_def Let_def)
  have "slice (length entries - ?n) (min ?n (length entries)) entries = lastn ?n entries"
    by (simp add: slice_def lastn_def)
  then show ?thesis
    using n st read_packets_exact [OF assms, of "length entries - ?n" "min ?n (length entries)"]
    by (simp add: ring_snapshot_def Let_def)
qed

text \<open>a write is all or nothing.  An accepted write appends exactly its packets to the
  generation and accounts for them; a refused one returns the error for the condition that failed
  and leaves the ring as it was.\<close>

theorem ring_write_is_all_or_nothing:
  assumes "ring_reach cfg entries r"
  shows "case ring_push r bs now t of
      (Inr out, r') \<Rightarrow>
        ring_reach cfg (entries @ chunks_exact MPEG_TS_PACKET_SIZE bs) r' \<and>
        concat (chunks_exact MPEG_TS_PACKET_SIZE bs) = bs \<and>
        wo_generation out = rs_generation (ri_state r) \<and>
        wo_packets_written out * MPEG_TS_PACKET_SIZE = length bs \<and>
        wo_next_sequence out = length entries + wo_packets_written out \<and>
        wo_first_sequence out = rs_first_sequence (ri_state r) + wo_packets_overwritten out
    | (Inl e, r') \<Rightarrow> r' = r \<and> write_error_ok r bs e"
proof (cases "push_accepts r bs")
  case True
  from ring_push_outcome [OF True, of now t] obtain out r' where
    res: "ring_push r bs now t = (Inr out, r')" "wo_generation out = rs_generation (ri_state r)"
      "wo_packets_written out = length bs div MPEG_TS_PACKET_SIZE"
      "wo_next_sequence out = rs_next_sequence (ri_state r')"
      "wo_first_sequence out = rs_first_sequence (ri_state r')"
      "wo_packets_overwritten out = rs_first_sequence (ri_state r') - rs_first_sequence (ri_state r)" .
  have r': "ring_reach cfg (entries @ chunks_exact MPEG_TS_PACKET_SIZE bs) r'"
    by (rule ring_pushed [OF assms res(1)])
  have aligned: "length bs div MPEG_TS_PACKET_SIZE * MPEG_TS_PACKET_SIZE = length bs"
    using True by (auto simp: push_accepts_def)
  then have "concat (chunks_exact MPEG_TS_PACKET_SIZE bs) = bs"
    by (simp add: concat_chunks_exact)
  with r' res aligned ring_reach_store(3,5) [OF assms] ring_reach_store(3,5) [OF r'] show ?thesis
    by (simp add: length_chunks_exact)
next
  case False
  then show ?thesis by (rule ring_push_refused [where now = now and t = t]) simp
qed

text \<open>A small ring with a PAT and a PMT packet, for the witnesses.\<close>

definition sample_cfg :: MpegTsRingConfig where
  "sample_cfg = \<lparr>cfg_capacity_packets = 2, cfg_pre_roll_packets = 2\<rparr>"

definition sample_ring :: RingInner where
  "sample_ring = snd (ring_push (ring_new sample_cfg) (pat_packet @ pmt_packet) 0 0)"

lemma sample_packets [simp]:
  "length pat_packet = MPEG_TS_PACKET_SIZE" "length pmt_packet = MPEG_TS_PACKET_SIZE"
  "pat_packet ! 0 = 0x47" "pmt_packet ! 0 = 0x47"
  by (simp_all add: pat_packet_def pmt_packet_def ts_packet_def MPEG_TS_PACKET_SIZE_def)

lemma sample_chunks [simp]:
  "chunks_exact MPEG_TS_PACKET_SIZE (pat_packet @ pmt_packet) = [pat_packet, pmt_packet]"
  using chunks_exact_append [of pat_packet MPEG_TS_PACKET_SIZE pmt_packet]
    chunks_exact_append [of pmt_packet MPEG_TS_PACKET_SIZE "[]"] by simp

lemma sample_accepts: "push_accepts (ring_new sample_cfg) (pat_packet @ pmt_packet)"
  by (simp add: push_accepts_def ring_new_def)

lemma sample_reach: "ring_reach sample_cfg [pat_packet, pmt_packet] sample_ring"
proof -
  have "cfg_ok sample_cfg"
    by (simp add: cfg_ok_def sample_cfg_def capacity_bytes_def MPEG_TS_PACKET_SIZE_def)
  then have new: "ring_reach sample_cfg [] (ring_new sample_cfg)" by (rule ring_created)
  from sample_accepts obtain out r' where
    push: "ring_push (ring_new sample_cfg) (pat_packet @ pmt_packet) 0 0 = (Inr out, r')"
    by (rule ring_push_outcome)
  then have "r' = sample_ring" by (simp add: sample_ring_def)
  with ring_pushed [OF new push] show ?thesis by simp
qed

lemma sample_ring_state:
  "rs_generation (ri_state sample_ring) = 0" "rs_closed (ri_state sample_ring) = None"
  using ring_push_accepted [OF sample_accepts, of 0 0] by (simp_all add: sample_ring_def ring_new_def)

theorem ring_holds_the_newest_packets_witness:
  "read_packets (ri_config sample_ring) (ri_state sample_ring) (sn_first_sequence (ring_snapshot sample_ring))
     2 = pat_packet @ pmt_packet"
  using ring_holds_the_newest_packets [OF sample_reach] by (auto simp: sample_cfg_def numeral_2_eq_2)

theorem ring_write_is_all_or_nothing_witness:
  "\<exists>out. ring_push sample_ring pat_packet 5 5 = (Inr out, snd (ring_push sample_ring pat_packet 5 5)) \<and>
     wo_next_sequence out = 3 \<and> ring_push sample_ring [1] 5 5 = (Inl (Unaligned 1), sample_ring)"
proof -
  have next2: "rs_next_sequence (ri_state sample_ring) = 2" using ring_reach_store(3) [OF sample_reach] by simp
  have "chunks_exact MPEG_TS_PACKET_SIZE pat_packet = [pat_packet]"
    using chunks_exact_append [of pat_packet MPEG_TS_PACKET_SIZE "[]"] by simp
  then have "push_accepts sample_ring pat_packet"
    by (simp add: push_accepts_def sample_ring_state next2)
  then obtain out r' where out: "ring_push sample_ring pat_packet 5 5 = (Inr out, r')"
    by (rule ring_push_outcome)
  moreover have "ring_push sample_ring [1] 5 5 = (Inl (Unaligned 1), sample_ring)"
    by (simp add: ring_push_def MPEG_TS_PACKET_SIZE_def)
  moreover have "wo_next_sequence out = 3"
    using ring_write_is_all_or_nothing [OF sample_reach, of pat_packet 5 5] out
    by (simp add: MPEG_TS_PACKET_SIZE_def)
  ultimately show ?thesis by simp
qed

text \<open>C2: a cursor reads exactly what was written.  A batch of packets that a cursor gets belongs
  to the cursor's own and the ring's current generation and is a contiguous stretch of that
  generation's packets, byte for byte; it starts where the cursor stood, or, if the cursor was
  waiting for a safe boundary, at a packet that starts a PAT; and the cursor moves right behind it.\<close>

theorem cursor_reads_are_exact:
  assumes "ring_reach cfg entries r" and "cursor_ok r c"
    and "try_next r c n = Inr (c', Some (Packets g f bs))"
  shows "g = cu_generation c \<and> g = rs_generation (ri_state r) \<and>
    (\<exists>k. 0 < k \<and> k \<le> n \<and> f + k \<le> length entries \<and> bs = concat (slice f k entries) \<and>
      c' = c\<lparr>cu_next_sequence := f + k, cu_waiting_for_safe_boundary := False\<rparr>) \<and>
    (if cu_waiting_for_safe_boundary c then cu_next_sequence c \<le> f \<and> is_pat_start (entries ! f)
     else f = cu_next_sequence c)"
  using assms
proof (cases rule: try_next_cases)
  case (reading q k)
  then have "0 < k \<and> k \<le> n \<and> f + k \<le> length entries \<and> bs = concat (slice f k entries) \<and>
      c' = c\<lparr>cu_next_sequence := f + k, cu_waiting_for_safe_boundary := False\<rparr>" by auto
  then have "\<exists>k. 0 < k \<and> k \<le> n \<and> f + k \<le> length entries \<and> bs = concat (slice f k entries) \<and>
      c' = c\<lparr>cu_next_sequence := f + k, cu_waiting_for_safe_boundary := False\<rparr>" by blast
  with reading(1,2,7) show ?thesis by (auto split: if_splits)
qed auto

theorem cursor_reads_are_exact_witness:
  "\<exists>c'. try_next sample_ring \<lparr>cu_generation = 0, cu_next_sequence = 1,
      cu_waiting_for_safe_boundary = False\<rparr> 7 = Inr (c', Some (Packets 0 1 pmt_packet))"
proof -
  let ?c = "\<lparr>cu_generation = 0, cu_next_sequence = 1, cu_waiting_for_safe_boundary = False\<rparr>"
  have st: "rs_next_sequence (ri_state sample_ring) = 2" "rs_first_sequence (ri_state sample_ring) = 0"
    using ring_reach_store(3,5) [OF sample_reach] by (simp_all add: sample_cfg_def)
  have ok: "cursor_ok sample_ring ?c" by (simp add: cursor_ok_def sample_ring_state st)
  obtain c' bs where res: "try_next sample_ring ?c 7 = Inr (c', Some (Packets 0 1 bs))"
    by (simp add: try_next_def Let_def sample_ring_state st read_at_def)
  from cursor_reads_are_exact [OF sample_reach ok res] obtain k where
    "0 < k" "1 + k \<le> 2" "bs = concat (slice 1 k [pat_packet, pmt_packet])" by auto
  then have "bs = pmt_packet" by (auto simp: slice_def)
  with res show ?thesis by auto
qed


text \<open>a waiting reader is woken.  A reader registers for the next notification (in ring
  \<open>r0\<close>) before it polls (in \<open>r1\<close>); if the poll finds nothing and in some later ring \<open>r2\<close> there is
  something to read, a notification was sent after the registration.  So \<open>next\<close> cannot sleep
  through data, lag, a new generation or a close.\<close>

theorem waiting_reader_is_woken:
  assumes "ring_reach cfg entries r0" and "ring_step\<^sup>*\<^sup>* r0 r1" and "ring_step\<^sup>*\<^sup>* r1 r2"
    and "cursor_ok r1 c" and "try_next r1 c n = Inr (c', None)"
    and "try_next r2 c' n = Inr (c'', Some ev)"
  shows "ri_changed r0 < ri_changed r2"
proof (rule ccontr)
  assume "\<not> ri_changed r0 < ri_changed r2"
  have ex: "\<exists>cfg entries. ring_reach cfg entries r0" using assms(1) by blast
  note m1 = ring_waiters.steps_mono [OF assms(2) ex]
  then obtain cfg1 entries1 where r1: "ring_reach cfg1 entries1 r1" by blast
  note m2 = ring_waiters.steps_mono [OF assms(3)]
  have "ri_changed r2 = ri_changed r1"
    using m1 m2 \<open>\<not> ri_changed r0 < ri_changed r2\<close> by force
  then have "r2 = r1" using ring_waiters.no_lost_wakeup [OF assms(3)] m1 by blast
  with try_next_idle [OF r1 assms(4,5)] assms(6) show False by auto
qed

lemma sample_cursor_end:
  defines "c \<equiv> \<lparr>cu_generation = 0, cu_next_sequence = 2, cu_waiting_for_safe_boundary = False\<rparr>"
  shows "cursor_ok sample_ring c" "try_next sample_ring c 7 = Inr (c, None)"
proof -
  have st: "rs_next_sequence (ri_state sample_ring) = 2" "rs_first_sequence (ri_state sample_ring) = 0"
    using ring_reach_store(3,5) [OF sample_reach] by (simp_all add: sample_cfg_def)
  show "cursor_ok sample_ring c" by (simp add: c_def cursor_ok_def sample_ring_state st)
  show "try_next sample_ring c 7 = Inr (c, None)"
    by (simp add: c_def try_next_def Let_def sample_ring_state st read_at_def closed_event_def)
qed


theorem waiting_reader_is_woken_witness:
  "ri_changed sample_ring < ri_changed (snd (ring_close sample_ring Shutdown))"
proof (rule waiting_reader_is_woken [OF sample_reach rtranclp.rtrancl_refl _ sample_cursor_end])
  let ?r = "snd (ring_close sample_ring Shutdown)"
  let ?c = "\<lparr>cu_generation = 0, cu_next_sequence = 2, cu_waiting_for_safe_boundary = False\<rparr>"
  show "ring_step\<^sup>*\<^sup>* sample_ring ?r" by (intro r_into_rtranclp step_close)
  have "rs_next_sequence (ri_state sample_ring) = 2" "rs_first_sequence (ri_state sample_ring) = 0"
    using ring_reach_store(3,5) [OF sample_reach] by (simp_all add: sample_cfg_def)
  then show "try_next ?r ?c 7 = Inr (?c, Some (ReadClosed 0 Shutdown))"
    by (simp add: ring_close_def try_next_def Let_def sample_ring_state read_at_def closed_event_def)
qed

section \<open>Sizing and positioning\<close>

lemma packets_for_duration_spec:
  assumes "packets_for_duration rate d = Inr n"
  shows "rate * d \<le> n * 1504000000000" "n * 1504000000000 < rate * d + 1504000000000"
proof -
  have n: "n = (rate * d + 1503999999999) div 1504000000000"
    using assms by (auto simp: packets_for_duration_def Let_def MPEG_TS_PACKET_SIZE_def
        checked_mul_u128_def checked_add_u128_def try_u64_def split: if_splits option.splits)
  show "rate * d \<le> n * 1504000000000" "n * 1504000000000 < rate * d + 1504000000000"
    unfolding n by linarith+
qed

text \<open>a ring sized for a bitrate holds that much media.  The configuration is valid, its
  capacity holds at least the buffer duration at that bitrate and less than one packet more, and
  likewise its pre-roll.\<close>

theorem config_for_bitrate_fits:
  assumes "config_for_bitrate rate buffer pre_roll = Inr cfg"
  shows "cfg_ok cfg \<and> (let packet = 188 * 8 * 1000000000 in
    rate * buffer \<le> cfg_capacity_packets cfg * packet \<and>
    cfg_capacity_packets cfg * packet < rate * buffer + packet \<and>
    rate * pre_roll \<le> cfg_pre_roll_packets cfg * packet \<and>
    cfg_pre_roll_packets cfg * packet < rate * pre_roll + packet)"
proof -
  obtain cap pre where cap: "packets_for_duration rate buffer = Inr cap"
    and pre: "packets_for_duration rate pre_roll = Inr pre" and new: "config_new cap pre = Inr cfg"
    using assms by (auto simp: config_for_bitrate_def split: if_splits sum.splits)
  from new have "cfg = \<lparr>cfg_capacity_packets = cap, cfg_pre_roll_packets = pre\<rparr>" "cfg_ok cfg"
    by (auto simp: config_new_def cfg_ok_def capacity_bytes_def checked_mul_u64_def split: if_splits)
  with packets_for_duration_spec [OF cap] packets_for_duration_spec [OF pre] show ?thesis by simp
qed

theorem config_for_bitrate_fits_witness:
  "\<exists>cfg. config_for_bitrate 8000000 30000000000 2000000000 = Inr cfg \<and> cfg_ok cfg \<and>
     cfg_capacity_packets cfg = 159575"
proof -
  have c: "config_for_bitrate 8000000 30000000000 2000000000 =
      Inr \<lparr>cfg_capacity_packets = 159575, cfg_pre_roll_packets = 10639\<rparr>"
    by (simp add: config_for_bitrate_def packets_for_duration_def checked_mul_u128_def
        checked_add_u128_def try_u64_def config_new_def checked_mul_u64_def MPEG_TS_PACKET_SIZE_def)
  with config_for_bitrate_fits [OF c] show ?thesis by simp
qed

lemma tl_ticks_at_exists:
  assumes "tl_inv n s self" and "tl_has_sample self"
  shows "\<exists>t. tl_ticks_at self q = Some t"
proof -
  have "length (takeWhile (\<lambda>x. ps_sequence x \<le> q) (tl_samples self)) - 1 < length (tl_samples self)"
    using assms length_takeWhile_le [of "\<lambda>x. ps_sequence x \<le> q" "tl_samples self"]
    by (cases "tl_samples self") (auto simp: tl_inv_def)
  then show ?thesis by (auto simp: tl_ticks_at_def partition_point_def get_at_def)
qed

lemma tl_sequence_at_or_after_less:
  assumes "tl_inv n s self" and "tl_sequence_at_or_after self t = Some q"
  shows "q < s"
proof -
  obtain i where i: "i < length (tl_samples self)" "q = ps_sequence (tl_samples self ! i)"
    using assms(2) by (auto simp: tl_sequence_at_or_after_def Let_def get_at_def split: if_splits)
  let ?m = "length (tl_samples self) - 1"
  have "sorted (map ps_sequence (tl_samples self))"
    using assms(1) samples_spaced_sorted(1) by (simp add: tl_inv_def)
  then have "map ps_sequence (tl_samples self) ! i \<le> map ps_sequence (tl_samples self) ! ?m"
    using i(1) by (intro sorted_nth_mono) auto
  then have "ps_sequence (tl_samples self ! i) \<le> ps_sequence (last (tl_samples self))"
    using i(1) by (cases "tl_samples self = []") (simp_all add: last_conv_nth)
  then show ?thesis using assms(1) i by (auto simp: tl_inv_def)
qed

text \<open>a delayed viewer starts at most its delay behind the newest PCR.  Once the ring has a
  media clock, a cursor subscribed with a delay of at least the 100 ms index spacing starts at a
  position whose media time is at least the head's minus the delay.\<close>

theorem delayed_cursor_is_within_its_delay:
  assumes r: "ring_reach cfg entries r" and small: "length entries \<le> 2 ^ 35"
    and head: "tl_head_ticks (rs_pcr (ri_state r)) = Some h"
    and delay: "SAMPLE_SPACING_TICKS \<le> duration_to_ticks delay"
  shows "\<exists>t. tl_ticks_at (rs_pcr (ri_state r)) (cu_next_sequence (subscribe_with_delay r delay now)) = Some t \<and>
    h \<le> t + duration_to_ticks delay"
proof -
  let ?st = "ri_state r" and ?d = "duration_to_ticks delay"
  note st = ring_reach_store [OF r]
  obtain n s where inv: "tl_inv n s (rs_pcr ?st)" and s: "s \<le> length entries"
    using ring_reach_inv [OF r] small
    by (force simp: ring_inv_def ring_core_def clock_core_def intro: tl_reach_inv)
  obtain q where q: "tl_sequence_at_or_after (rs_pcr ?st) (h - ?d) = Some q"
    using tl_sequence_at_or_after_exists [OF inv head, of "h - ?d"] delay by fastforce
  obtain u where u: "tl_ticks_at (rs_pcr ?st) q = Some u" "h - ?d \<le> u"
    using tl_sequence_at_or_after_spec(1) [OF inv q] by blast
  define k where "k = delay_packets r delay now"
  have k: "k \<le> length entries - q"
    using head q st by (simp add: k_def delay_packets_def Let_def)
  define target where "target = max (rs_next_sequence ?st - k) (rs_first_sequence ?st)"
  obtain p w where p: "safe_resume_position ?st target = (p, w)" by fastforce
  have "q \<le> target" "target \<le> length entries"
    using tl_sequence_at_or_after_less [OF inv q] s k st by (simp_all add: target_def)
  then have "q \<le> p" using safe_resume_spec(1) [OF r _ p] by simp
  moreover have cu: "cu_next_sequence (subscribe_with_delay r delay now) = p"
    using p by (simp add: subscribe_with_delay_def subscribe_with_pre_roll_def Let_def
        target_def k_def)
  moreover obtain t where "tl_ticks_at (rs_pcr ?st) p = Some t"
    using tl_ticks_at_exists [OF inv] head by (auto simp: tl_head_ticks_def split: if_splits)
  ultimately show ?thesis using tl_ticks_at_mono [OF inv, of q p u t] u by force
qed

text \<open>The sample ring with one PCR packet more.\<close>

definition pcr_start_packet :: bytes where
  "pcr_start_packet = pcr_packet [0x00, 0x00, 0x00, 0x08, 0x7E, 200]"

definition clocked_ring :: RingInner where
  "clocked_ring = snd (ring_push sample_ring pcr_start_packet 0 0)"

lemma push_packet_pcr:
  "rs_pcr_pid (push_packet cfg now p st) = rs_pcr_pid (push_psi st p)"
  "rs_pcr (push_packet cfg now p st) =
     (if rs_pcr_pid (push_psi st p) = Some (packet_pid p)
      then tl_observe (rs_pcr st) p (rs_next_sequence st) else rs_pcr st)"
  by (simp_all add: push_packet_def push_store_def push_video_def push_clock_def Let_def)

lemma push_psi_pcr_pid:
  "rs_pcr_pid (push_psi st p) =
     (case snd (tr_observe (rs_psi st) p (rs_next_sequence st)) of
        None \<Rightarrow> rs_pcr_pid st
      | Some b \<Rightarrow> tr_pcr_pid (fst (tr_observe (rs_psi st) p (rs_next_sequence st))))"
  by (simp add: push_psi_def Let_def split: prod.split option.split)

lemma push_packet_next: "rs_psi (push_packet cfg now p st) = fst (tr_observe (rs_psi st) p (rs_next_sequence st))"
  "rs_next_sequence (push_packet cfg now p st) = wrapping_add_u64 (rs_next_sequence st) 1"
  by (simp_all add: push_packet_def push_store_def Let_def)

lemma push_finish_pcr_pid [simp]: "rs_pcr_pid (push_finish st n len now) = rs_pcr_pid st"
  by (simp add: push_finish_def Let_def split: option.split)

lemma sample_ring_clock:
  "rs_pcr_pid (ri_state sample_ring) = Some 0x101" "rs_pcr (ri_state sample_ring) = PcrTimeline_default"
proof -
  let ?st = "ri_state (ring_new sample_cfg)"
  define st1 where "st1 = push_packet sample_cfg 0 pat_packet ?st"
  define st2 where "st2 = push_packet sample_cfg 0 pmt_packet st1"
  have st1: "rs_psi st1 = sample_tracker" "rs_next_sequence st1 = 1" "rs_pcr st1 = PcrTimeline_default"
    by (simp_all add: st1_def push_packet_pcr push_packet_next push_psi_pcr_pid ring_new_def
        tr_observe_sample_pat)
  have pid: "tr_pcr_pid (fst (tr_observe sample_tracker pmt_packet 1)) = Some 0x101"
    by (simp add: tr_pcr_pid_def tr_observe_sample_pmt [simplified] get_at_def)
      (simp add: sample_pmt_def pid_of_def)
  have "packet_pid pmt_packet = 0x100"
    by (simp add: packet_pid_def pmt_packet_def ts_packet_def)
  then have st2: "rs_pcr_pid st2 = Some 0x101" "rs_pcr st2 = PcrTimeline_default"
    by (simp_all add: st2_def push_packet_pcr push_psi_pcr_pid st1 tr_observe_sample_pmt [simplified] pid [simplified])
  have cfg: "ri_config (ring_new sample_cfg) = sample_cfg" by (simp add: ring_new_def)
  have "\<exists>n len. ri_state sample_ring = push_finish st2 n len 0"
    using ring_push_accepted [OF sample_accepts, of 0 0]
    by (auto simp: sample_ring_def st2_def st1_def cfg)
  then show "rs_pcr_pid (ri_state sample_ring) = Some 0x101"
    "rs_pcr (ri_state sample_ring) = PcrTimeline_default"
    using st2 by (auto simp: tl_prune_def PcrTimeline_default_def)
qed

lemma pcr_start_packet:
  "length pcr_start_packet = MPEG_TS_PACKET_SIZE" "pcr_start_packet ! 0 = 0x47"
  "packet_pid pcr_start_packet = 0x101" "packet_header pcr_start_packet = None"
  by (simp_all add: pcr_start_packet_def pcr_packet_def MPEG_TS_PACKET_SIZE_def packet_pid_def
      packet_header_def)

lemma clocked_accepts: "push_accepts sample_ring pcr_start_packet"
  "chunks_exact MPEG_TS_PACKET_SIZE pcr_start_packet = [pcr_start_packet]"
proof -
  show chunk: "chunks_exact MPEG_TS_PACKET_SIZE pcr_start_packet = [pcr_start_packet]"
    using chunks_exact_append [of pcr_start_packet MPEG_TS_PACKET_SIZE "[]"]
    by (simp add: pcr_start_packet)
  show "push_accepts sample_ring pcr_start_packet"
    using ring_reach_store(3) [OF sample_reach]
    by (simp add: push_accepts_def chunk pcr_start_packet sample_ring_state)
qed

lemma clocked_reach: "ring_reach sample_cfg [pat_packet, pmt_packet, pcr_start_packet] clocked_ring"
proof -
  from clocked_accepts(1) obtain out r' where
    push: "ring_push sample_ring pcr_start_packet 0 0 = (Inr out, r')" by (rule ring_push_outcome)
  then have "r' = clocked_ring" by (simp add: clocked_ring_def)
  with ring_pushed [OF sample_reach push] show ?thesis by (simp add: clocked_accepts)
qed

lemma clocked_head: "tl_head_ticks (rs_pcr (ri_state clocked_ring)) = Some 0"
proof -
  have "ri_state clocked_ring = push_finish (push_packet sample_cfg 0 pcr_start_packet (ri_state sample_ring)) 1 188 0"
    using ring_push_accepted [OF clocked_accepts(1), of 0 0] ring_reach_store(1) [OF sample_reach]
    by (simp add: clocked_ring_def clocked_accepts) (simp add: pcr_start_packet MPEG_TS_PACKET_SIZE_def)
  moreover have "rs_pcr_pid (push_psi (ri_state sample_ring) pcr_start_packet) = Some 0x101"
    by (simp add: push_psi_pcr_pid tr_observe_def pcr_start_packet sample_ring_clock)
  ultimately show ?thesis
    using parse_pcr_packet_start [folded pcr_start_packet_def]
    by (simp add: push_packet_pcr pcr_start_packet sample_ring_clock tl_head_ticks_def tl_prune_def
        tl_observe_def PcrTimeline_default_def tl_record_def)
qed

theorem delayed_cursor_is_within_its_delay_witness:
  "\<exists>t. tl_ticks_at (rs_pcr (ri_state clocked_ring))
     (cu_next_sequence (subscribe_with_delay clocked_ring 1000000000 0)) = Some t"
proof -
  have "SAMPLE_SPACING_TICKS \<le> duration_to_ticks 1000000000"
    by (simp add: duration_to_ticks_def try_u64_def pcr_constants)
  from delayed_cursor_is_within_its_delay [OF clocked_reach _ clocked_head this, of 0]
  show ?thesis by auto
qed


end
