(* ===== verification/Recovery.thy ===== *)
theory Recovery
  imports Ring "HOL-Library.AList"
begin

text \<open>
  Recovery policy and session diagnostics (\<open>crates/media/src/recovery.rs\<close>).

  A duration is a number of nanoseconds.  The diagnostics are three mutexes of one object; every
  operation holds the one it needs for its whole body, so an operation is a function on the record.
  The viewers are a hash map from ids to positions, here an association list with one entry for each
  id; the code never uses the order of its entries.

  Main results: an accepted policy is bounded and can make progress; the counters are those of the
  history of calls, saturated at the width of the machine word, and the failures kept are its first
  and last; the viewers refine the list of registrations in the order in which they were made.
\<close>

section \<open>Policy\<close>

definition MAX_RECOVERY_WINDOW :: duration where
  "MAX_RECOVERY_WINDOW = 60 * 1000000000"

definition DEFAULT_RECOVERY_WINDOW :: duration where
  "DEFAULT_RECOVERY_WINDOW = 10 * 1000000000"

datatype SessionState =
  Idle | Reserving | Starting | Priming | Streaming | Recovering | FailingOver | Stopping | Failed

datatype SessionFailureKind =
    UpstreamEnded | Http | UpstreamRead | ReadTimeout | InvalidSync | IncompleteTail | RingClosed
  | DownstreamLag | Packetization | PrimingFailed | RecoveryWindowExpired

record RecoveryPolicy =
  rp_max_window :: duration
  rp_retry_delay :: duration
  rp_keepalive_interval :: duration
  rp_priming_timeout :: duration

datatype RecoveryConfigError = WindowTooLarge | ZeroInterval

definition policy_default :: RecoveryPolicy where
  "policy_default = \<lparr>rp_max_window = DEFAULT_RECOVERY_WINDOW, rp_retry_delay = 250 * 1000000,
     rp_keepalive_interval = 100 * 1000000, rp_priming_timeout = 2 * 1000000000\<rparr>"

definition policy_new ::
    "duration \<Rightarrow> duration \<Rightarrow> duration \<Rightarrow> duration \<Rightarrow> RecoveryConfigError + RecoveryPolicy" where
  "policy_new max_window retry_delay keepalive_interval priming_timeout =
     (if max_window > MAX_RECOVERY_WINDOW then Inl WindowTooLarge
      else if max_window \<noteq> 0 \<and> (retry_delay = 0 \<or> keepalive_interval = 0 \<or> priming_timeout = 0)
      then Inl ZeroInterval
      else Inr \<lparr>rp_max_window = max_window, rp_retry_delay = retry_delay,
             rp_keepalive_interval = keepalive_interval, rp_priming_timeout = priming_timeout\<rparr>)"

definition policy_disabled :: RecoveryPolicy where
  "policy_disabled = \<lparr>rp_max_window = 0, rp_retry_delay = 1000000, rp_keepalive_interval = 1000000,
     rp_priming_timeout = 1000000\<rparr>"

definition policy_with_window :: "duration \<Rightarrow> RecoveryConfigError + RecoveryPolicy" where
  "policy_with_window window =
     (if window = 0 then Inr policy_disabled
      else policy_new window (rp_retry_delay policy_default) (rp_keepalive_interval policy_default)
             (rp_priming_timeout policy_default))"

section \<open>Diagnostics\<close>

datatype SessionInputAdapter = NativeTs | Ffmpeg | Vlc

record HttpTsSessionKey =
  hk_provider_pool_id :: string
  hk_source_id :: string
  hk_generation :: u64

record ViewerPosition =
  vp_generation :: u64
  vp_next_sequence :: u64

record DiagnosticsState =
  ds_state :: SessionState
  ds_next_viewer_id :: u64
  ds_viewers :: "(u64 \<times> ViewerPosition) list"
  ds_upstream_generation :: u64
  ds_ring_lag_events :: u64
  ds_ring_wrap_events :: u64
  ds_overwritten_packets :: u64
  ds_reconnect_attempts :: u64
  ds_failover_attempts :: u64
  ds_failure_count :: u64
  ds_first_failure :: "SessionFailureKind option"
  ds_last_failure :: "SessionFailureKind option"

record SessionDiagnostics =
  sd_session_key :: HttpTsSessionKey
  sd_channel_name :: "string option"
  sd_adapter :: "SessionInputAdapter option"
  sd_base_server :: "string option"
  sd_inner :: DiagnosticsState

record HttpTsSessionSnapshot =
  ss_key :: HttpTsSessionKey
  ss_channel_name :: "string option"
  ss_adapter :: "SessionInputAdapter option"
  ss_base_server :: "string option"
  ss_state :: SessionState
  ss_viewer_count :: usize
  ss_upstream_generation :: u64
  ss_ring_lag_events :: u64
  ss_ring_wrap_events :: u64
  ss_overwritten_packets :: u64
  ss_reconnect_attempts :: u64
  ss_failover_attempts :: u64
  ss_failure_count :: u64
  ss_first_failure :: "SessionFailureKind option"
  ss_last_failure :: "SessionFailureKind option"
  ss_viewer_lead_millis :: "u64 list"
  ss_rates :: "StreamRates option"
  ss_ring :: RingSnapshot

definition state_new :: DiagnosticsState where
  "state_new = \<lparr>ds_state = Idle, ds_next_viewer_id = 1, ds_viewers = [],
     ds_upstream_generation = 0, ds_ring_lag_events = 0, ds_ring_wrap_events = 0,
     ds_overwritten_packets = 0, ds_reconnect_attempts = 0, ds_failover_attempts = 0,
     ds_failure_count = 0, ds_first_failure = None, ds_last_failure = None\<rparr>"

definition diagnostics_new :: "HttpTsSessionKey \<Rightarrow> string option \<Rightarrow> SessionDiagnostics" where
  "diagnostics_new key channel_name = \<lparr>sd_session_key = key, sd_channel_name = channel_name,
     sd_adapter = None, sd_base_server = None, sd_inner = state_new\<rparr>"

definition set_adapter :: "SessionDiagnostics \<Rightarrow> SessionInputAdapter \<Rightarrow> SessionDiagnostics" where
  "set_adapter self adapter = self\<lparr>sd_adapter := Some adapter\<rparr>"

definition set_base_server :: "SessionDiagnostics \<Rightarrow> string \<Rightarrow> SessionDiagnostics" where
  "set_base_server self v = self\<lparr>sd_base_server := Some v\<rparr>"

definition set_session_state :: "DiagnosticsState \<Rightarrow> SessionState \<Rightarrow> DiagnosticsState" where
  "set_session_state self state = self\<lparr>ds_state := state\<rparr>"

definition set_generation :: "DiagnosticsState \<Rightarrow> u64 \<Rightarrow> DiagnosticsState" where
  "set_generation self generation = self\<lparr>ds_upstream_generation := generation\<rparr>"

definition record_write :: "DiagnosticsState \<Rightarrow> u64 \<Rightarrow> DiagnosticsState" where
  "record_write self overwritten_packets =
     (if overwritten_packets = 0 then self
      else self\<lparr>ds_ring_wrap_events := saturating_add_u64 (ds_ring_wrap_events self) 1,
             ds_overwritten_packets :=
               saturating_add_u64 (ds_overwritten_packets self) overwritten_packets\<rparr>)"

definition record_lag :: "DiagnosticsState \<Rightarrow> DiagnosticsState" where
  "record_lag self = self\<lparr>ds_ring_lag_events := saturating_add_u64 (ds_ring_lag_events self) 1\<rparr>"

definition record_reconnect :: "DiagnosticsState \<Rightarrow> bool \<Rightarrow> DiagnosticsState" where
  "record_reconnect self failover =
     (let self = self\<lparr>ds_reconnect_attempts := saturating_add_u64 (ds_reconnect_attempts self) 1\<rparr>
      in if failover
         then self\<lparr>ds_failover_attempts := saturating_add_u64 (ds_failover_attempts self) 1\<rparr>
         else self)"

definition record_failure :: "DiagnosticsState \<Rightarrow> SessionFailureKind \<Rightarrow> DiagnosticsState" where
  "record_failure self failure =
     self\<lparr>ds_failure_count := saturating_add_u64 (ds_failure_count self) 1,
       ds_first_failure := (case ds_first_failure self of None \<Rightarrow> Some failure | Some f \<Rightarrow> Some f),
       ds_last_failure := Some failure\<rparr>"

definition has_viewers :: "DiagnosticsState \<Rightarrow> bool" where
  "has_viewers self \<longleftrightarrow> ds_viewers self \<noteq> []"

definition is_stopping :: "DiagnosticsState \<Rightarrow> bool" where
  "is_stopping self \<longleftrightarrow> ds_state self = Stopping"

definition register_viewer :: "DiagnosticsState \<Rightarrow> u64 \<Rightarrow> u64 \<Rightarrow> u64 \<times> DiagnosticsState" where
  "register_viewer self generation next_sequence =
     (let viewer_id = ds_next_viewer_id self in
      (viewer_id,
       self\<lparr>ds_next_viewer_id := saturating_add_u64 viewer_id 1,
         ds_viewers := AList.update viewer_id
           \<lparr>vp_generation = generation, vp_next_sequence = next_sequence\<rparr> (ds_viewers self)\<rparr>))"

definition update_viewer :: "DiagnosticsState \<Rightarrow> u64 \<Rightarrow> u64 \<Rightarrow> u64 \<Rightarrow> DiagnosticsState" where
  "update_viewer self viewer_id generation next_sequence =
     (case map_of (ds_viewers self) viewer_id of
        None \<Rightarrow> self
      | Some viewer \<Rightarrow> self\<lparr>ds_viewers := AList.update viewer_id
          \<lparr>vp_generation = generation, vp_next_sequence = next_sequence\<rparr> (ds_viewers self)\<rparr>)"

text \<open>\<open>Drop for ViewerRegistration\<close>.\<close>

definition drop_viewer :: "DiagnosticsState \<Rightarrow> u64 \<Rightarrow> DiagnosticsState" where
  "drop_viewer self viewer_id = self\<lparr>ds_viewers := AList.delete viewer_id (ds_viewers self)\<rparr>"

text \<open>\<open>keys().copied().collect()\<close> and \<open>sort_unstable\<close>.\<close>

definition viewer_ids :: "DiagnosticsState \<Rightarrow> u64 list" where
  "viewer_ids self = sort (map fst (ds_viewers self))"

definition position_drained :: "u64 \<Rightarrow> u64 \<Rightarrow> ViewerPosition \<Rightarrow> bool" where
  "position_drained generation target_sequence viewer \<longleftrightarrow>
     vp_generation viewer > generation \<or>
     vp_generation viewer = generation \<and> vp_next_sequence viewer \<ge> target_sequence"

definition viewers_drained :: "DiagnosticsState \<Rightarrow> u64 \<Rightarrow> u64 \<Rightarrow> bool" where
  "viewers_drained self generation target_sequence \<longleftrightarrow>
     list_all (\<lambda>(viewer_id, viewer). position_drained generation target_sequence viewer)
       (ds_viewers self)"

definition viewer_positions :: "DiagnosticsState \<Rightarrow> (u64 \<times> u64) list" where
  "viewer_positions self =
     map (\<lambda>viewer. (vp_generation viewer, vp_next_sequence viewer))
       (List.map_filter (map_of (ds_viewers self)) (viewer_ids self))"

definition diagnostics_snapshot :: "SessionDiagnostics \<Rightarrow> RingSnapshot \<Rightarrow> HttpTsSessionSnapshot" where
  "diagnostics_snapshot self ring =
     (let inner = sd_inner self in
      \<lparr>ss_key = sd_session_key self, ss_channel_name = sd_channel_name self,
       ss_adapter = sd_adapter self, ss_base_server = sd_base_server self,
       ss_state = ds_state inner, ss_viewer_count = length (ds_viewers inner),
       ss_upstream_generation = ds_upstream_generation inner,
       ss_ring_lag_events = ds_ring_lag_events inner,
       ss_ring_wrap_events = ds_ring_wrap_events inner,
       ss_overwritten_packets = ds_overwritten_packets inner,
       ss_reconnect_attempts = ds_reconnect_attempts inner,
       ss_failover_attempts = ds_failover_attempts inner,
       ss_failure_count = ds_failure_count inner, ss_first_failure = ds_first_failure inner,
       ss_last_failure = ds_last_failure inner, ss_viewer_lead_millis = [], ss_rates = None,
       ss_ring = ring\<rparr>)"

section \<open>Histories\<close>

text \<open>The calls that change the state, in the order in which they get the lock.\<close>

datatype DiagnosticsCall =
    SetState SessionState
  | SetGeneration u64
  | RecordWrite u64
  | RecordLag
  | RecordReconnect bool
  | RecordFailure SessionFailureKind
  | RegisterViewer u64 u64
  | UpdateViewer u64 u64 u64
  | DropViewer u64

fun apply_call :: "DiagnosticsCall \<Rightarrow> DiagnosticsState \<Rightarrow> DiagnosticsState" where
  "apply_call (SetState s) self = set_session_state self s"
| "apply_call (SetGeneration g) self = set_generation self g"
| "apply_call (RecordWrite n) self = record_write self n"
| "apply_call RecordLag self = record_lag self"
| "apply_call (RecordReconnect f) self = record_reconnect self f"
| "apply_call (RecordFailure f) self = record_failure self f"
| "apply_call (RegisterViewer g s) self = snd (register_viewer self g s)"
| "apply_call (UpdateViewer i g s) self = update_viewer self i g s"
| "apply_call (DropViewer i) self = drop_viewer self i"

definition run_calls :: "DiagnosticsCall list \<Rightarrow> DiagnosticsState" where
  "run_calls calls = fold apply_call calls state_new"

section \<open>Counters\<close>

definition failures :: "DiagnosticsCall list \<Rightarrow> SessionFailureKind list" where
  "failures calls = List.map_filter (\<lambda>c. case c of RecordFailure f \<Rightarrow> Some f | _ \<Rightarrow> None) calls"

definition reconnects :: "DiagnosticsCall list \<Rightarrow> bool list" where
  "reconnects calls = List.map_filter (\<lambda>c. case c of RecordReconnect f \<Rightarrow> Some f | _ \<Rightarrow> None) calls"

definition overwrites :: "DiagnosticsCall list \<Rightarrow> nat list" where
  "overwrites calls =
     List.map_filter (\<lambda>c. case c of RecordWrite n \<Rightarrow> if n = 0 then None else Some n | _ \<Rightarrow> None) calls"

definition lags :: "DiagnosticsCall list \<Rightarrow> nat" where
  "lags calls = length (filter (\<lambda>c. c = RecordLag) calls)"

definition registrations :: "DiagnosticsCall list \<Rightarrow> nat" where
  "registrations calls = length (filter (\<lambda>c. case c of RegisterViewer g s \<Rightarrow> True | _ \<Rightarrow> False) calls)"

lemmas history_defs = failures_def reconnects_def overwrites_def lags_def registrations_def List.map_filter_def

lemmas call_defs = set_session_state_def set_generation_def record_write_def record_lag_def
  record_reconnect_def record_failure_def register_viewer_def update_viewer_def drop_viewer_def

declare apply_call.simps [simp del]

lemma run_calls_snoc: "run_calls (calls @ [c]) = apply_call c (run_calls calls)"
  by (simp add: run_calls_def)

lemma saturating_min: "saturating_add_u64 (min n u64_max) m = min (n + m) u64_max"
  by (auto simp: saturating_add_u64_def)

lemma history_Nil [simp]:
  "failures [] = []" "reconnects [] = []" "overwrites [] = []" "lags [] = 0" "registrations [] = 0"
  by (simp_all add: history_defs)

lemma history_snoc [simp]:
  "failures (calls @ [c]) = failures calls @ (case c of RecordFailure f \<Rightarrow> [f] | _ \<Rightarrow> [])"
  "reconnects (calls @ [c]) = reconnects calls @ (case c of RecordReconnect f \<Rightarrow> [f] | _ \<Rightarrow> [])"
  "overwrites (calls @ [c]) = overwrites calls @ (case c of RecordWrite n \<Rightarrow> if n = 0 then [] else [n] | _ \<Rightarrow> [])"
  "lags (calls @ [c]) = lags calls + (if c = RecordLag then 1 else 0)"
  "registrations (calls @ [c]) = registrations calls + (case c of RegisterViewer g s \<Rightarrow> 1 | _ \<Rightarrow> 0)"
  by (cases c; simp add: history_defs)+

lemma run_calls_induct [case_names new call]:
  assumes "P state_new []"
    and "\<And>calls c. P (run_calls calls) calls \<Longrightarrow> P (apply_call c (run_calls calls)) (calls @ [c])"
  shows "P (run_calls calls) calls"
proof (induction calls rule: rev_induct)
  case Nil
  show ?case using assms(1) by (simp add: run_calls_def)
next
  case (snoc c calls)
  then show ?case unfolding run_calls_snoc by (rule assms(2))
qed

lemma apply_call_fields:
  "ds_failure_count (apply_call c d) =
     (case c of RecordFailure f \<Rightarrow> saturating_add_u64 (ds_failure_count d) 1 | _ \<Rightarrow> ds_failure_count d)"
  "ds_first_failure (apply_call c d) =
     (case c of RecordFailure f \<Rightarrow> (case ds_first_failure d of None \<Rightarrow> Some f | g \<Rightarrow> g) | _ \<Rightarrow> ds_first_failure d)"
  "ds_last_failure (apply_call c d) = (case c of RecordFailure f \<Rightarrow> Some f | _ \<Rightarrow> ds_last_failure d)"
  "ds_reconnect_attempts (apply_call c d) =
     (case c of RecordReconnect f \<Rightarrow> saturating_add_u64 (ds_reconnect_attempts d) 1 | _ \<Rightarrow> ds_reconnect_attempts d)"
  "ds_failover_attempts (apply_call c d) =
     (case c of RecordReconnect f \<Rightarrow> if f then saturating_add_u64 (ds_failover_attempts d) 1 else ds_failover_attempts d
      | _ \<Rightarrow> ds_failover_attempts d)"
  "ds_ring_lag_events (apply_call c d) =
     (case c of RecordLag \<Rightarrow> saturating_add_u64 (ds_ring_lag_events d) 1 | _ \<Rightarrow> ds_ring_lag_events d)"
  "ds_ring_wrap_events (apply_call c d) =
     (case c of RecordWrite n \<Rightarrow> if n = 0 then ds_ring_wrap_events d else saturating_add_u64 (ds_ring_wrap_events d) 1
      | _ \<Rightarrow> ds_ring_wrap_events d)"
  "ds_overwritten_packets (apply_call c d) =
     (case c of RecordWrite n \<Rightarrow> saturating_add_u64 (ds_overwritten_packets d) n | _ \<Rightarrow> ds_overwritten_packets d)"
  if "ds_overwritten_packets d \<le> u64_max"
  using that
  by (cases c; simp add: apply_call.simps call_defs Let_def saturating_add_u64_def split: option.splits)+

lemma counters_follow:
  "ds_failure_count (run_calls calls) = min (length (failures calls)) u64_max"
  "ds_first_failure (run_calls calls) = (if failures calls = [] then None else Some (hd (failures calls)))"
  "ds_last_failure (run_calls calls) = (if failures calls = [] then None else Some (last (failures calls)))"
  "ds_reconnect_attempts (run_calls calls) = min (length (reconnects calls)) u64_max"
  "ds_failover_attempts (run_calls calls) = min (length (filter (\<lambda>f. f) (reconnects calls))) u64_max"
  "ds_ring_lag_events (run_calls calls) = min (lags calls) u64_max"
  "ds_ring_wrap_events (run_calls calls) = min (length (overwrites calls)) u64_max"
  "ds_overwritten_packets (run_calls calls) = min (sum_list (overwrites calls)) u64_max"
proof -
  show o: "ds_overwritten_packets (run_calls calls) = min (sum_list (overwrites calls)) u64_max" for calls
    by (induction calls rule: run_calls_induct)
      (simp_all add: state_new_def apply_call_fields saturating_min split: DiagnosticsCall.splits)
  then have bound: "ds_overwritten_packets (run_calls calls) \<le> u64_max" for calls by simp
  note fields = apply_call_fields [OF bound]
  show "ds_failure_count (run_calls calls) = min (length (failures calls)) u64_max"
    by (induction calls rule: run_calls_induct)
      (simp_all add: state_new_def fields saturating_min split: DiagnosticsCall.splits)
  show "ds_first_failure (run_calls calls) = (if failures calls = [] then None else Some (hd (failures calls)))"
    by (induction calls rule: run_calls_induct)
      (simp_all add: state_new_def fields split: DiagnosticsCall.splits)
  show "ds_last_failure (run_calls calls) = (if failures calls = [] then None else Some (last (failures calls)))"
    by (induction calls rule: run_calls_induct)
      (simp_all add: state_new_def fields split: DiagnosticsCall.splits)
  show "ds_reconnect_attempts (run_calls calls) = min (length (reconnects calls)) u64_max"
    by (induction calls rule: run_calls_induct)
      (simp_all add: state_new_def fields saturating_min split: DiagnosticsCall.splits)
  show "ds_failover_attempts (run_calls calls) = min (length (filter (\<lambda>f. f) (reconnects calls))) u64_max"
    by (induction calls rule: run_calls_induct)
      (simp_all add: state_new_def fields saturating_min split: DiagnosticsCall.splits)
  show "ds_ring_lag_events (run_calls calls) = min (lags calls) u64_max"
    by (induction calls rule: run_calls_induct)
      (simp_all add: state_new_def fields saturating_min split: DiagnosticsCall.splits)
  show "ds_ring_wrap_events (run_calls calls) = min (length (overwrites calls)) u64_max"
    by (induction calls rule: run_calls_induct)
      (simp_all add: state_new_def fields saturating_min split: DiagnosticsCall.splits)
qed

section \<open>Viewers\<close>

lemma map_fst_update_new: "k \<notin> fst ` set xs \<Longrightarrow> map fst (AList.update k v xs) = map fst xs @ [k]"
  by (induction xs) auto

lemma map_fst_update_old: "k \<in> fst ` set xs \<Longrightarrow> map fst (AList.update k v xs) = map fst xs"
  by (induction xs) auto

lemma map_fst_delete: "map fst (AList.delete k xs) = filter (\<lambda>j. j \<noteq> k) (map fst xs)"
  by (induction xs) auto

lemma apply_call_viewers:
  "ds_viewers (apply_call c d) =
     (case c of
        RegisterViewer g s \<Rightarrow> AList.update (ds_next_viewer_id d) \<lparr>vp_generation = g, vp_next_sequence = s\<rparr> (ds_viewers d)
      | UpdateViewer i g s \<Rightarrow>
          if i \<in> fst ` set (ds_viewers d)
          then AList.update i \<lparr>vp_generation = g, vp_next_sequence = s\<rparr> (ds_viewers d) else ds_viewers d
      | DropViewer i \<Rightarrow> AList.delete i (ds_viewers d)
      | _ \<Rightarrow> ds_viewers d)"
  "ds_next_viewer_id (apply_call c d) =
     (case c of RegisterViewer g s \<Rightarrow> saturating_add_u64 (ds_next_viewer_id d) 1 | _ \<Rightarrow> ds_next_viewer_id d)"
proof -
  have u: "ds_viewers (update_viewer d i g s) =
      (if i \<in> fst ` set (ds_viewers d)
       then AList.update i \<lparr>vp_generation = g, vp_next_sequence = s\<rparr> (ds_viewers d) else ds_viewers d)" for i g s
  proof (cases "map_of (ds_viewers d) i")
    case None
    then show ?thesis by (simp add: update_viewer_def) (simp add: map_of_eq_None_iff)
  next
    case (Some v)
    then have "i \<in> fst ` set (ds_viewers d)" by (force dest: map_of_SomeD)
    with Some show ?thesis by (simp add: update_viewer_def)
  qed
  show "ds_viewers (apply_call c d) =
     (case c of
        RegisterViewer g s \<Rightarrow> AList.update (ds_next_viewer_id d) \<lparr>vp_generation = g, vp_next_sequence = s\<rparr> (ds_viewers d)
      | UpdateViewer i g s \<Rightarrow>
          if i \<in> fst ` set (ds_viewers d)
          then AList.update i \<lparr>vp_generation = g, vp_next_sequence = s\<rparr> (ds_viewers d) else ds_viewers d
      | DropViewer i \<Rightarrow> AList.delete i (ds_viewers d)
      | _ \<Rightarrow> ds_viewers d)"
    by (cases c) (simp_all add: apply_call.simps u, simp_all add: call_defs Let_def)
  show "ds_next_viewer_id (apply_call c d) =
     (case c of RegisterViewer g s \<Rightarrow> saturating_add_u64 (ds_next_viewer_id d) 1 | _ \<Rightarrow> ds_next_viewer_id d)"
    by (cases c) (simp_all add: apply_call.simps call_defs Let_def split: option.splits)
qed

text \<open>The ids are handed out in ascending order and the list keeps them so.\<close>

lemma viewers_sorted:
  assumes "registrations calls < u64_max"
  shows "ds_next_viewer_id (run_calls calls) = Suc (registrations calls) \<and>
    sorted_wrt (<) (map fst (ds_viewers (run_calls calls))) \<and>
    (\<forall>i \<in> fst ` set (ds_viewers (run_calls calls)). 0 < i \<and> i \<le> registrations calls)"
  using assms
proof (induction calls rule: run_calls_induct)
  case new
  show ?case by (simp add: state_new_def)
next
  case (call calls c)
  let ?d = "run_calls calls"
  have r: "registrations calls < u64_max" using call.prems by (simp split: DiagnosticsCall.splits)
  note IH = call.IH [OF r]
  show ?case
  proof (cases c)
    case (RegisterViewer g s)
    have new: "ds_next_viewer_id ?d \<notin> fst ` set (ds_viewers ?d)" using IH by fastforce
    have keys: "map fst (ds_viewers (apply_call c ?d)) = map fst (ds_viewers ?d) @ [Suc (registrations calls)]"
      using map_fst_update_new [OF new] IH by (simp add: apply_call_viewers RegisterViewer)
    then have set: "fst ` set (ds_viewers (apply_call c ?d)) = insert (Suc (registrations calls)) (fst ` set (ds_viewers ?d))"
      by (metis Un_insert_right append_Nil2 list.set_map list.simps(15) set_append sup_bot.right_neutral)
    show ?thesis
      unfolding keys set using IH call.prems
      by (auto simp: apply_call_viewers RegisterViewer sorted_wrt_append saturating_add_u64_def le_Suc_eq less_Suc_eq_le)
  next
    case (UpdateViewer i g s)
    have keys: "map fst (ds_viewers (apply_call c ?d)) = map fst (ds_viewers ?d)"
      by (simp add: apply_call_viewers UpdateViewer map_fst_update_old)
    then have "fst ` set (ds_viewers (apply_call c ?d)) = fst ` set (ds_viewers ?d)" by (metis list.set_map)
    with keys IH show ?thesis by (simp add: apply_call_viewers(2) UpdateViewer)
  next
    case (DropViewer i)
    have keys: "map fst (ds_viewers (apply_call c ?d)) = filter (\<lambda>j. j \<noteq> i) (map fst (ds_viewers ?d))"
      by (simp add: apply_call_viewers DropViewer map_fst_delete)
    then have "fst ` set (ds_viewers (apply_call c ?d)) \<subseteq> fst ` set (ds_viewers ?d)"
      by (metis filter_is_subset list.set_map)
    with keys IH have "sorted_wrt (<) (map fst (ds_viewers (apply_call c ?d))) \<and>
        (\<forall>i \<in> fst ` set (ds_viewers (apply_call c ?d)). 0 < i \<and> i \<le> registrations calls)"
      by (simp only: sorted_wrt_filter) blast
    with IH show ?thesis by (simp add: apply_call_viewers(2) DropViewer)
  qed (use IH in \<open>simp_all add: apply_call_viewers\<close>)
qed

lemma viewer_positions_sorted:
  assumes "sorted_wrt (<) (map fst (ds_viewers d))"
  shows "viewer_positions d = map (\<lambda>(i, v). (vp_generation v, vp_next_sequence v)) (ds_viewers d)"
proof -
  have s: "sorted (map fst (ds_viewers d))" "distinct (map fst (ds_viewers d))"
    using assms by (auto simp: strict_sorted_iff)
  have "viewer_ids d = map fst (ds_viewers d)" using s(1) by (simp add: viewer_ids_def sorted_sort_id)
  moreover have "List.map_filter (map_of (ds_viewers d)) (map fst (ds_viewers d)) = map snd (ds_viewers d)"
  proof -
    have "map (map_of (ds_viewers d)) (map fst (ds_viewers d)) = map Some (map snd (ds_viewers d))"
      using s(2) by (auto simp: map_of_is_SomeI)
    then show ?thesis by (simp add: List.map_filter_def)
  qed
  ultimately show ?thesis by (simp add: viewer_positions_def split_def comp_def)
qed

section \<open>Properties\<close>

text \<open>An accepted recovery policy is bounded and makes progress.  Its window is at most sixty
  seconds, and when recovery is enabled its delays are positive, so that a loop that sleeps for them
  ends; conversely every such policy is accepted.  The policy of a window setting is accepted exactly
  up to sixty seconds.\<close>

theorem recovery_policy_bounded:
  "(policy_new w r k p = Inr policy \<longleftrightarrow>
     policy = \<lparr>rp_max_window = w, rp_retry_delay = r, rp_keepalive_interval = k, rp_priming_timeout = p\<rparr> \<and>
     w \<le> 60 * 1000000000 \<and> (w = 0 \<or> 0 < r \<and> 0 < k \<and> 0 < p)) \<and>
   ((\<exists>policy. policy_with_window w = Inr policy \<and> rp_max_window policy = w \<and>
       0 < rp_retry_delay policy \<and> 0 < rp_keepalive_interval policy \<and> 0 < rp_priming_timeout policy) \<longleftrightarrow>
     w \<le> 60 * 1000000000) \<and>
   (w > 60 * 1000000000 \<longleftrightarrow> policy_with_window w = Inl WindowTooLarge)"
  by (auto simp: policy_new_def policy_with_window_def policy_disabled_def policy_default_def
      MAX_RECOVERY_WINDOW_def)

text \<open>the diagnostics of a session are those of its history.  After any sequence of calls, each
  counter is the number of the calls it counts (of the overwritten packets, their sum), stopped at
  the largest \<open>u64\<close>, and the failures shown are the first and the last one recorded.\<close>

theorem diagnostics_follow_the_history:
  "let snapshot = diagnostics_snapshot (d\<lparr>sd_inner := run_calls calls\<rparr>) ring in
   ss_failure_count snapshot = min (length (failures calls)) u64_max \<and>
   ss_first_failure snapshot = (if failures calls = [] then None else Some (hd (failures calls))) \<and>
   ss_last_failure snapshot = (if failures calls = [] then None else Some (last (failures calls))) \<and>
   ss_reconnect_attempts snapshot = min (length (reconnects calls)) u64_max \<and>
   ss_failover_attempts snapshot = min (length (filter (\<lambda>f. f) (reconnects calls))) u64_max \<and>
   ss_ring_lag_events snapshot = min (lags calls) u64_max \<and>
   ss_ring_wrap_events snapshot = min (length (overwrites calls)) u64_max \<and>
   ss_overwritten_packets snapshot = min (sum_list (overwrites calls)) u64_max"
  by (simp add: diagnostics_snapshot_def Let_def counters_follow)

text \<open>Viewers are told apart and listed in the order in which they came.  As long as fewer than
  \<open>2 ^ 64 - 1\<close> viewers were registered, a new one gets an id that no other viewer has, the positions
  are listed in registration order, one for each viewer, and the viewers count as drained exactly
  when each listed position has passed the target.\<close>

theorem viewers_in_registration_order:
  assumes "registrations calls < u64_max"
  shows "let d = run_calls calls in
    fst (register_viewer d g s) = Suc (registrations calls) \<and>
    fst (register_viewer d g s) \<notin> fst ` set (ds_viewers d) \<and>
    sorted_wrt (<) (map fst (ds_viewers d)) \<and>
    viewer_positions d = map (\<lambda>(i, v). (vp_generation v, vp_next_sequence v)) (ds_viewers d) \<and>
    (viewers_drained d generation target \<longleftrightarrow>
       list_all (\<lambda>(g, s). g > generation \<or> g = generation \<and> s \<ge> target) (viewer_positions d))"
proof -
  let ?d = "run_calls calls"
  note inv = viewers_sorted [OF assms]
  then have new: "ds_next_viewer_id ?d \<notin> fst ` set (ds_viewers ?d)" by fastforce
  have pos: "viewer_positions ?d = map (\<lambda>(i, v). (vp_generation v, vp_next_sequence v)) (ds_viewers ?d)"
    using inv by (intro viewer_positions_sorted) simp
  have "viewers_drained ?d generation target \<longleftrightarrow>
       list_all (\<lambda>(g, s). g > generation \<or> g = generation \<and> s \<ge> target) (viewer_positions ?d)"
    by (auto simp: pos viewers_drained_def position_drained_def list_all_iff)
  with inv new pos show ?thesis by (simp add: register_viewer_def Let_def)
qed

theorem viewers_in_registration_order_witness:
  "viewer_positions (run_calls [RegisterViewer 0 5, RegisterViewer 0 7, DropViewer 1]) = [(0, 7)] \<and>
   fst (register_viewer (run_calls [RegisterViewer 0 5, RegisterViewer 0 7, DropViewer 1]) 1 2) = 3"
proof -
  let ?h = "[RegisterViewer 0 5, RegisterViewer 0 7, DropViewer 1]"
  have r: "registrations ?h = 2" by (simp add: registrations_def)
  have v: "ds_viewers (run_calls ?h) = [(2, \<lparr>vp_generation = 0, vp_next_sequence = 7\<rparr>)]"
    by (simp add: run_calls_def apply_call.simps register_viewer_def drop_viewer_def state_new_def
        saturating_add_u64_def)
  show ?thesis using viewers_in_registration_order [of ?h 1 2] r v by (simp add: Let_def)
qed


end
