(* ===== verification/Broker.thy ===== *)
theory Broker
  imports Prelude "HOL-Library.AList"
begin

text \<open>
  Provider connection slots (\<open>crates/media/src/broker.rs\<close>).

  A \<open>BrokerWorld\<close> is the broker with the leases it has handed out.  A lease allocation is named
  by its lease id; \<open>bw_handles\<close> counts the \<open>SlotLease\<close> handles to it.  The state behind the mutex
  changes only in steps that hold it, but handles are cloned and dropped at any moment, so the
  steps are at that granularity: \<open>try_acquire\<close> takes the handles that other tasks drop between
  its \<open>retain\<close> and its lookup, the destructor of a lease (\<open>Drop for LeaseInner\<close>) waits in
  \<open>bw_pending\<close> from the last drop until it gets the mutex, and the temporary \<open>Arc\<close> of its
  \<open>upgrade()\<close> is a state of its own.  \<open>bw_released\<close> counts the notifications, as in the ring.
  The broker itself is alive throughout, so \<open>self.broker.upgrade()\<close> succeeds.

  Main results: under every interleaving the live leases never exceed the largest capacity set,
  each session key has at most one live lease, an acquisition is refused only when the pool is
  really full, and a waiter is notified before a slot becomes free; but the destructor can block on
  the mutex it holds itself.
\<close>

section \<open>State\<close>

record LeaseInner =
  li_pool_id :: string
  li_session_key :: string
  li_lease_id :: u64

record BrokerState =
  bs_capacity :: usize
  bs_high_watermark :: usize
  bs_next_lease_id :: u64
  bs_sessions :: "(string \<times> u64) list"

datatype BrokerLock =
    LockFree
  | InDrop u64 u64
  | Deadlocked

record BrokerWorld =
  bw_pool_id :: string
  bw_state :: BrokerState
  bw_released :: nat
  bw_leases :: "u64 \<Rightarrow> LeaseInner option"
  bw_handles :: "u64 \<Rightarrow> nat"
  bw_pending :: "u64 list"
  bw_lock :: BrokerLock

record PoolSnapshot =
  pl_pool_id :: string
  pl_capacity :: usize
  pl_active_sessions :: usize
  pl_high_watermark :: usize
  pl_available_slots :: usize

datatype AcquireError = AtCapacity string usize usize | LeaseIdExhausted

definition broker_new :: "string \<Rightarrow> usize \<Rightarrow> BrokerWorld" where
  "broker_new pool_id capacity = \<lparr>bw_pool_id = pool_id,
     bw_state = \<lparr>bs_capacity = capacity, bs_high_watermark = 0, bs_next_lease_id = 1, bs_sessions = []\<rparr>,
     bw_released = 0, bw_leases = (\<lambda>_. None), bw_handles = (\<lambda>_. 0), bw_pending = [],
     bw_lock = LockFree\<rparr>"

text \<open>\<open>Arc::strong_count\<close>: the handles, and the temporary of a running destructor.\<close>

definition strong_count :: "BrokerWorld \<Rightarrow> u64 \<Rightarrow> nat" where
  "strong_count self lid = bw_handles self lid +
     (case bw_lock self of InDrop _ tmp \<Rightarrow> (if tmp = lid then 1 else 0) | _ \<Rightarrow> 0)"

section \<open>Handles\<close>

text \<open>Cloning and dropping a \<open>SlotLease\<close>; the last drop starts the destructor of the lease.\<close>

definition clone_lease :: "BrokerWorld \<Rightarrow> u64 \<Rightarrow> BrokerWorld" where
  "clone_lease self lid = self\<lparr>bw_handles := (bw_handles self)(lid := bw_handles self lid + 1)\<rparr>"

definition release_handle :: "u64 \<Rightarrow> BrokerWorld \<Rightarrow> BrokerWorld" where
  "release_handle lid self =
     (if bw_handles self lid = 0 then self
      else let self = self\<lparr>bw_handles := (bw_handles self)(lid := bw_handles self lid - 1)\<rparr> in
        if strong_count self lid = 0 then self\<lparr>bw_pending := bw_pending self @ [lid]\<rparr> else self)"

section \<open>Acquisition\<close>

definition retain_live :: "BrokerWorld \<Rightarrow> BrokerWorld" where
  "retain_live self = self\<lparr>bw_state := (bw_state self)\<lparr>bs_sessions :=
     filter (\<lambda>(key, lid). strong_count self lid > 0) (bs_sessions (bw_state self))\<rparr>\<rparr>"

text \<open>The part of \<open>try_acquire\<close> after the lookup: capacity, lease id, insertion.\<close>

definition acquire_new :: "BrokerWorld \<Rightarrow> string \<Rightarrow> (AcquireError + u64) \<times> BrokerWorld" where
  "acquire_new self session_key =
     (let state = bw_state self in
      if bs_capacity state \<le> length (bs_sessions state)
      then (Inl (AtCapacity (bw_pool_id self) (bs_capacity state) (length (bs_sessions state))), self)
      else let lease_id = bs_next_lease_id state in
        (case checked_add_u64 lease_id 1 of
           None \<Rightarrow> (Inl LeaseIdExhausted, self)
         | Some next_lease_id \<Rightarrow>
             let lease = \<lparr>li_pool_id = bw_pool_id self, li_session_key = session_key,
                          li_lease_id = lease_id\<rparr>;
                 sessions = AList.update session_key lease_id (bs_sessions state)
             in (Inr lease_id,
                 self\<lparr>bw_state := state\<lparr>
                     bs_high_watermark := max (bs_high_watermark state) (length sessions),
                     bs_next_lease_id := next_lease_id, bs_sessions := sessions\<rparr>,
                   bw_leases := (bw_leases self)(lease_id \<mapsto> lease),
                   bw_handles := (bw_handles self)(lease_id := 1)\<rparr>)))"

definition try_acquire ::
    "BrokerWorld \<Rightarrow> string \<Rightarrow> u64 list \<Rightarrow> (AcquireError + u64) \<times> BrokerWorld" where
  "try_acquire self session_key raced =
     (let self = fold release_handle raced (retain_live self) in
      case map_of (bs_sessions (bw_state self)) session_key of
        Some existing \<Rightarrow>
          if strong_count self existing > 0 then (Inr existing, clone_lease self existing)
          else acquire_new (self\<lparr>bw_state := (bw_state self)\<lparr>bs_sessions :=
                 AList.delete session_key (bs_sessions (bw_state self))\<rparr>\<rparr>) session_key
      | None \<Rightarrow> acquire_new self session_key)"

text \<open>One turn of the loop of \<open>acquire_wait\<close>: a result, or the notification count to wait past.\<close>

definition acquire_wait_turn ::
    "BrokerWorld \<Rightarrow> string \<Rightarrow> u64 list \<Rightarrow> instant \<Rightarrow> instant \<Rightarrow>
     ((AcquireError + u64) + nat) \<times> BrokerWorld" where
  "acquire_wait_turn self session_key raced now deadline =
     (let notified = bw_released self;
          (result, self) = try_acquire self session_key raced
      in case result of
           Inr lease \<Rightarrow> (Inl (Inr lease), self)
         | Inl LeaseIdExhausted \<Rightarrow> (Inl (Inl LeaseIdExhausted), self)
         | Inl (AtCapacity pool capacity active) \<Rightarrow>
             if deadline \<le> now then (Inl (Inl (AtCapacity pool capacity active)), self)
             else (Inr notified, self))"

section \<open>Release and configuration\<close>

text \<open>
  \<open>LeaseInner::drop\<close>.  With the mutex, \<open>lease_drop_begin\<close> looks its key up and upgrades the
  entry: a dead entry is removed and the waiters are notified; a live one belongs to a newer lease
  of the same key, whose temporary \<open>Arc\<close> is dropped by \<open>lease_drop_end\<close>.  If the handles of that
  lease have gone in the meantime, the temporary is its last reference, and its destructor starts
  inside this one, for a mutex that is not reentrant.
\<close>

definition lease_drop_begin :: "BrokerWorld \<Rightarrow> u64 \<Rightarrow> BrokerWorld" where
  "lease_drop_begin self lid =
     (case bw_leases self lid of
        None \<Rightarrow> self
      | Some lease \<Rightarrow>
          let state = bw_state self; key = li_session_key lease;
              released = Suc (bw_released self); pending = removeAll lid (bw_pending self)
          in case map_of (bs_sessions state) key of
               None \<Rightarrow> self\<lparr>bw_released := released, bw_pending := pending\<rparr>
             | Some entry \<Rightarrow>
                 if strong_count self entry = 0
                 then self\<lparr>bw_state := state\<lparr>bs_sessions := AList.delete key (bs_sessions state)\<rparr>,
                        bw_released := released, bw_pending := pending\<rparr>
                 else self\<lparr>bw_lock := InDrop lid entry\<rparr>)"

definition lease_drop_end :: "BrokerWorld \<Rightarrow> BrokerWorld" where
  "lease_drop_end self =
     (case bw_lock self of
        InDrop lid entry \<Rightarrow>
          if bw_handles self entry = 0
          then self\<lparr>bw_pending := bw_pending self @ [entry], bw_lock := Deadlocked\<rparr>
          else self\<lparr>bw_released := Suc (bw_released self),
                    bw_pending := removeAll lid (bw_pending self), bw_lock := LockFree\<rparr>
      | _ \<Rightarrow> self)"

definition set_capacity :: "BrokerWorld \<Rightarrow> usize \<Rightarrow> BrokerWorld" where
  "set_capacity self capacity =
     self\<lparr>bw_state := (bw_state self)\<lparr>bs_capacity := capacity\<rparr>,
          bw_released := Suc (bw_released self)\<rparr>"

definition broker_snapshot :: "BrokerWorld \<Rightarrow> PoolSnapshot \<times> BrokerWorld" where
  "broker_snapshot self =
     (let self = retain_live self; state = bw_state self in
      (\<lparr>pl_pool_id = bw_pool_id self, pl_capacity = bs_capacity state,
        pl_active_sessions = length (bs_sessions state),
        pl_high_watermark = bs_high_watermark state,
        pl_available_slots = saturating_sub (bs_capacity state) (length (bs_sessions state))\<rparr>, self))"

section \<open>Interleavings\<close>

inductive broker_step :: "BrokerWorld \<Rightarrow> BrokerWorld \<Rightarrow> bool" where
  bk_acquire: "bw_lock w = LockFree \<Longrightarrow> broker_step w (snd (try_acquire w key raced))"
| bk_clone: "0 < bw_handles w lid \<Longrightarrow> broker_step w (clone_lease w lid)"
| bk_release: "broker_step w (release_handle lid w)"
| bk_capacity: "bw_lock w = LockFree \<Longrightarrow> broker_step w (set_capacity w capacity)"
| bk_snapshot: "bw_lock w = LockFree \<Longrightarrow> broker_step w (snd (broker_snapshot w))"
| bk_drop_begin: "bw_lock w = LockFree \<Longrightarrow> lid \<in> set (bw_pending w) \<Longrightarrow>
    broker_step w (lease_drop_begin w lid)"
| bk_drop_end: "broker_step w (lease_drop_end w)"

text \<open>\<open>bk_reach m w\<close>: reachable from a new broker, with \<open>m\<close> the largest capacity so far.\<close>

inductive bk_reach :: "usize \<Rightarrow> BrokerWorld \<Rightarrow> bool" where
  bk_new: "bk_reach capacity (broker_new pool capacity)"
| bk_run: "bk_reach m w \<Longrightarrow> broker_step w w' \<Longrightarrow> bk_reach (max m (bs_capacity (bw_state w'))) w'"

section \<open>Invariant\<close>

abbreviation bw_sessions :: "BrokerWorld \<Rightarrow> (string \<times> u64) list" where
  "bw_sessions w \<equiv> bs_sessions (bw_state w)"

definition live :: "BrokerWorld \<Rightarrow> u64 set" where
  "live w = {i. 0 < strong_count w i}"

definition leases_inv :: "BrokerWorld \<Rightarrow> bool" where
  "leases_inv w \<longleftrightarrow>
     (\<forall>i l. bw_leases w i = Some l \<longrightarrow> li_lease_id l = i \<and> 1 \<le> i \<and> i < bs_next_lease_id (bw_state w)) \<and>
     1 \<le> bs_next_lease_id (bw_state w) \<and> bs_next_lease_id (bw_state w) < u64_bound"

definition sessions_inv :: "BrokerWorld \<Rightarrow> bool" where
  "sessions_inv w \<longleftrightarrow> distinct (map fst (bw_sessions w)) \<and>
     (\<forall>(k, i) \<in> set (bw_sessions w). \<exists>l. bw_leases w i = Some l \<and> li_session_key l = k) \<and>
     (\<forall>i \<in> live w. \<exists>l. bw_leases w i = Some l \<and> (li_session_key l, i) \<in> set (bw_sessions w)) \<and>
     (\<forall>i \<in> set (bw_pending w). i \<notin> live w \<and> bw_leases w i \<noteq> None)"

definition capacity_inv :: "usize \<Rightarrow> BrokerWorld \<Rightarrow> bool" where
  "capacity_inv m w \<longleftrightarrow> length (bw_sessions w) \<le> bs_high_watermark (bw_state w) \<and>
     bs_high_watermark (bw_state w) \<le> m \<and> bs_capacity (bw_state w) \<le> m"

definition bk_inv :: "usize \<Rightarrow> BrokerWorld \<Rightarrow> bool" where
  "bk_inv m w \<longleftrightarrow> leases_inv w \<and> sessions_inv w \<and> capacity_inv m w"

subsection \<open>Dropping and cloning handles\<close>

lemma release_handle_fields [simp]:
  "bw_state (release_handle i w) = bw_state w" "bw_leases (release_handle i w) = bw_leases w"
  "bw_released (release_handle i w) = bw_released w" "bw_lock (release_handle i w) = bw_lock w"
  "bw_pool_id (release_handle i w) = bw_pool_id w"
  by (simp_all add: release_handle_def Let_def)

lemma live_release: "live (release_handle i w) \<subseteq> live w"
  "live w \<subseteq> live (release_handle i w) \<union> set (bw_pending (release_handle i w))"
  "set (bw_pending w) \<subseteq> set (bw_pending (release_handle i w))"
  "set (bw_pending (release_handle i w)) \<subseteq> set (bw_pending w) \<union> (live w - live (release_handle i w))"
  by (auto simp: live_def release_handle_def strong_count_def Let_def split: if_splits BrokerLock.splits)

lemma bk_inv_release: "bk_inv m w \<Longrightarrow> bk_inv m (release_handle i w)"
  using live_release [where i = i and w = w]
  by (auto simp: bk_inv_def leases_inv_def sessions_inv_def capacity_inv_def) blast+

lemma fold_release_fields [simp]:
  "bw_state (fold release_handle is w) = bw_state w" "bw_leases (fold release_handle is w) = bw_leases w"
  "bw_released (fold release_handle is w) = bw_released w"
  "bw_lock (fold release_handle is w) = bw_lock w" "bw_pool_id (fold release_handle is w) = bw_pool_id w"
  by (induction "is" arbitrary: w) simp_all

lemma live_fold_release: "live (fold release_handle is w) \<subseteq> live w"
  "live w \<union> set (bw_pending w) \<subseteq> live (fold release_handle is w) \<union> set (bw_pending (fold release_handle is w))"
proof (induction "is" arbitrary: w)
  case (Cons i "is")
  { case 1 show ?case using Cons(1) [of "release_handle i w"] live_release(1) [where i = i and w = w] by auto }
  { case 2 show ?case using Cons(2) [of "release_handle i w"] live_release(2,3) [where i = i and w = w] by auto }
qed auto

lemma bk_inv_fold_release: "bk_inv m w \<Longrightarrow> bk_inv m (fold release_handle is w)"
  by (induction "is" arbitrary: w) (simp_all add: bk_inv_release)

lemma live_clone: "0 < strong_count w i \<Longrightarrow> live (clone_lease w i) = live w"
  by (auto simp: live_def clone_lease_def strong_count_def split: if_splits BrokerLock.splits)

lemma clone_lease_fields [simp]:
  "bw_state (clone_lease w i) = bw_state w" "bw_leases (clone_lease w i) = bw_leases w"
  "bw_pending (clone_lease w i) = bw_pending w" "bw_released (clone_lease w i) = bw_released w"
  "bw_lock (clone_lease w i) = bw_lock w"
  by (simp_all add: clone_lease_def)

lemma bk_inv_clone: "bk_inv m w \<Longrightarrow> 0 < strong_count w i \<Longrightarrow> bk_inv m (clone_lease w i)"
  by (simp add: bk_inv_def leases_inv_def sessions_inv_def capacity_inv_def live_clone)

subsection \<open>Removing dead entries\<close>

text \<open>Both \<open>retain\<close> and \<open>remove\<close> keep every live entry.\<close>

lemma bk_inv_sessions:
  assumes inv: "bk_inv m w" and sub: "set s \<subseteq> set (bw_sessions w)" "distinct (map fst s)"
    and len: "length s \<le> length (bw_sessions w)"
    and keep: "\<And>k i. (k, i) \<in> set (bw_sessions w) \<Longrightarrow> i \<in> live w \<Longrightarrow> (k, i) \<in> set s"
  shows "bk_inv m (w\<lparr>bw_state := (bw_state w)\<lparr>bs_sessions := s\<rparr>\<rparr>)"
proof -
  let ?w = "w\<lparr>bw_state := (bw_state w)\<lparr>bs_sessions := s\<rparr>\<rparr>"
  have live: "live ?w = live w" by (simp add: live_def strong_count_def)
  have "\<forall>i \<in> live w. \<exists>l. bw_leases w i = Some l \<and> (li_session_key l, i) \<in> set s"
    using inv keep by (fastforce simp: bk_inv_def sessions_inv_def)
  with inv sub len show ?thesis
    by (auto simp: bk_inv_def leases_inv_def sessions_inv_def capacity_inv_def live)
qed

lemma live_state [simp]: "live (w\<lparr>bw_state := s\<rparr>) = live w"
  by (simp add: live_def strong_count_def)

lemma strong_count_state [simp]: "strong_count (w\<lparr>bw_state := s\<rparr>) i = strong_count w i"
  by (simp add: strong_count_def)

lemma retain_live_fields [simp]:
  "bw_leases (retain_live w) = bw_leases w" "bw_pending (retain_live w) = bw_pending w"
  "bw_released (retain_live w) = bw_released w" "bw_lock (retain_live w) = bw_lock w"
  "bw_pool_id (retain_live w) = bw_pool_id w" "live (retain_live w) = live w"
  "bs_capacity (bw_state (retain_live w)) = bs_capacity (bw_state w)"
  "bs_next_lease_id (bw_state (retain_live w)) = bs_next_lease_id (bw_state w)"
  "bw_handles (retain_live w) = bw_handles w"
  by (simp_all add: retain_live_def)

lemma bk_inv_retain: "bk_inv m w \<Longrightarrow> bk_inv m (retain_live w)"
  unfolding retain_live_def
  by (rule bk_inv_sessions)
    (auto simp: bk_inv_def sessions_inv_def live_def distinct_map_filter intro: order_trans [OF length_filter_le])

lemma bk_inv_delete:
  assumes inv: "bk_inv m w" and dead: "\<And>i. map_of (bw_sessions w) k = Some i \<Longrightarrow> i \<notin> live w"
  shows "bk_inv m (w\<lparr>bw_state := (bw_state w)\<lparr>bs_sessions := AList.delete k (bw_sessions w)\<rparr>\<rparr>)"
proof (rule bk_inv_sessions [OF inv])
  have dist: "distinct (map fst (bw_sessions w))" using inv by (simp add: bk_inv_def sessions_inv_def)
  then show "distinct (map fst (AList.delete k (bw_sessions w)))" by (rule AList.distinct_delete)
  show "set (AList.delete k (bw_sessions w)) \<subseteq> set (bw_sessions w)" by (auto simp: AList.delete_eq)
  show "length (AList.delete k (bw_sessions w)) \<le> length (bw_sessions w)" by (simp add: AList.delete_eq)
  show "(k', j) \<in> set (AList.delete k (bw_sessions w))" if "(k', j) \<in> set (bw_sessions w)" "j \<in> live w" for k' j
  proof -
    have "map_of (bw_sessions w) k' = Some j" using dist that(1) by simp
    with dead that(2) inv have "k' \<noteq> k" by auto
    with that(1) show ?thesis by (auto simp: AList.delete_eq)
  qed
qed


subsection \<open>Acquisition\<close>

lemma dead_next:
  assumes "bk_inv m w"
  shows "strong_count w (bs_next_lease_id (bw_state w)) = 0"
proof (rule ccontr)
  assume "strong_count w (bs_next_lease_id (bw_state w)) \<noteq> 0"
  then have "bs_next_lease_id (bw_state w) \<in> live w" by (simp add: live_def)
  then obtain l where "bw_leases w (bs_next_lease_id (bw_state w)) = Some l"
    using assms by (auto simp: bk_inv_def sessions_inv_def)
  then show False using assms by (auto simp: bk_inv_def leases_inv_def)
qed

lemma AList_update_new: "map_of xs k = None \<Longrightarrow> AList.update k v xs = xs @ [(k, v)]"
  by (induction xs) (auto split: if_splits)

text \<open>The outcomes of \<open>acquire_new\<close> for a key that has no entry.\<close>

lemma acquire_new_cases:
  assumes "map_of (bw_sessions w) k = None"
  obtains (full) "bs_capacity (bw_state w) \<le> length (bw_sessions w)"
      "acquire_new w k = (Inl (AtCapacity (bw_pool_id w) (bs_capacity (bw_state w)) (length (bw_sessions w))), w)"
  | (exhausted) "u64_bound \<le> bs_next_lease_id (bw_state w) + 1" "acquire_new w k = (Inl LeaseIdExhausted, w)"
  | (fresh) i where "i = bs_next_lease_id (bw_state w)" "i + 1 < u64_bound"
      "length (bw_sessions w) < bs_capacity (bw_state w)"
      "acquire_new w k = (Inr i, w\<lparr>bw_state := (bw_state w)\<lparr>
          bs_high_watermark := max (bs_high_watermark (bw_state w)) (Suc (length (bw_sessions w))),
          bs_next_lease_id := i + 1, bs_sessions := bw_sessions w @ [(k, i)]\<rparr>,
        bw_leases := (bw_leases w)(i \<mapsto> \<lparr>li_pool_id = bw_pool_id w, li_session_key = k, li_lease_id = i\<rparr>),
        bw_handles := (bw_handles w)(i := 1)\<rparr>)"
proof -
  have upd: "AList.update k i (bw_sessions w) = bw_sessions w @ [(k, i)]" for i
    using assms by (rule AList_update_new)
  define i where "i = bs_next_lease_id (bw_state w)"
  consider "bs_capacity (bw_state w) \<le> length (bw_sessions w)"
    | "\<not> bs_capacity (bw_state w) \<le> length (bw_sessions w)" "u64_bound \<le> i + 1"
    | "\<not> bs_capacity (bw_state w) \<le> length (bw_sessions w)" "\<not> u64_bound \<le> i + 1" by blast
  then show thesis
  proof cases
    case 1
    then show thesis by (intro full) (simp_all add: acquire_new_def Let_def)
  next
    case 2
    then show thesis
      by (intro exhausted) (simp_all add: acquire_new_def Let_def i_def checked_add_u64_def)
  next
    case 3
    then show thesis
      by (intro fresh [of i]) (simp_all add: acquire_new_def Let_def upd i_def checked_add_u64_def)
  qed
qed

lemma bk_inv_fresh:
  assumes inv: "bk_inv m w" and new: "map_of (bw_sessions w) k = None"
    and i: "i = bs_next_lease_id (bw_state w)" "i + 1 < u64_bound"
    and room: "length (bw_sessions w) < bs_capacity (bw_state w)"
  shows "bk_inv m (w\<lparr>bw_state := (bw_state w)\<lparr>
          bs_high_watermark := max (bs_high_watermark (bw_state w)) (Suc (length (bw_sessions w))),
          bs_next_lease_id := i + 1, bs_sessions := bw_sessions w @ [(k, i)]\<rparr>,
        bw_leases := (bw_leases w)(i \<mapsto> \<lparr>li_pool_id = bw_pool_id w, li_session_key = k, li_lease_id = i\<rparr>),
        bw_handles := (bw_handles w)(i := 1)\<rparr>)" (is "bk_inv m ?w")
proof -
  have li: "leases_inv w" and si: "sessions_inv w" and ci: "capacity_inv m w"
    using inv by (simp_all add: bk_inv_def)
  have "strong_count w i = 0" using dead_next [OF inv] by (simp add: i(1))
  then have live: "live ?w = insert i (live w)"
    by (auto simp: live_def strong_count_def split: BrokerLock.splits if_splits)
  have old: "bw_leases w j \<noteq> None \<Longrightarrow> j \<noteq> i" for j using li i(1) by (auto simp: leases_inv_def)
  have "k \<notin> fst ` set (bw_sessions w)" using new by (simp add: map_of_eq_None_iff)
  then have "distinct (map fst (bw_sessions ?w))" using si by (simp add: sessions_inv_def)
  moreover have "\<forall>(k', j) \<in> set (bw_sessions ?w). \<exists>l. bw_leases ?w j = Some l \<and> li_session_key l = k'"
    using si old by (fastforce simp: sessions_inv_def)
  moreover have "\<forall>j \<in> live ?w. \<exists>l. bw_leases ?w j = Some l \<and> (li_session_key l, j) \<in> set (bw_sessions ?w)"
    using si old unfolding live by (fastforce simp: sessions_inv_def)
  moreover have "\<forall>j \<in> set (bw_pending ?w). j \<notin> live ?w \<and> bw_leases ?w j \<noteq> None"
    using si old unfolding live by (auto simp: sessions_inv_def)
  ultimately have "sessions_inv ?w" unfolding sessions_inv_def by blast
  moreover have "leases_inv ?w" using li i by (fastforce simp: leases_inv_def)
  moreover have "capacity_inv m ?w" using ci room by (auto simp: capacity_inv_def)
  ultimately show ?thesis by (simp add: bk_inv_def)
qed

lemma bk_inv_acquire_new:
  assumes "bk_inv m w" and "map_of (bw_sessions w) k = None"
  shows "bk_inv m (snd (acquire_new w k))"
  using assms(2)
proof (cases rule: acquire_new_cases)
  case (fresh i)
  then show ?thesis using bk_inv_fresh [OF assms fresh(1,2,3)] by simp
qed (use assms in simp_all)

lemma bk_inv_try_acquire:
  assumes inv: "bk_inv m w"
  shows "bk_inv m (snd (try_acquire w k raced))"
proof -
  define w1 where "w1 = fold release_handle raced (retain_live w)"
  have inv1: "bk_inv m w1" unfolding w1_def by (intro bk_inv_fold_release bk_inv_retain inv)
  then have dist: "distinct (map fst (bw_sessions w1))" by (simp add: bk_inv_def sessions_inv_def)
  show ?thesis
  proof (cases "map_of (bw_sessions w1) k")
    case None
    then show ?thesis using bk_inv_acquire_new [OF inv1]
      by (simp add: try_acquire_def Let_def w1_def [symmetric])
  next
    case (Some e)
    let ?w2 = "w1\<lparr>bw_state := (bw_state w1)\<lparr>bs_sessions := AList.delete k (bw_sessions w1)\<rparr>\<rparr>"
    show ?thesis
    proof (cases "strong_count w1 e = 0")
      case True
      with Some have "bk_inv m ?w2" by (intro bk_inv_delete inv1) (auto simp: live_def)
      moreover have "map_of (bw_sessions ?w2) k = None" by (simp add: AList.delete_conv')
      ultimately show ?thesis using True Some bk_inv_acquire_new [of m ?w2 k]
        by (simp add: try_acquire_def Let_def w1_def [symmetric])
    next
      case False
      with Some show ?thesis using bk_inv_clone [OF inv1, of e]
        by (simp add: try_acquire_def Let_def w1_def [symmetric])
    qed
  qed
qed

subsection \<open>All steps\<close>

lemma bk_inv_drop_begin:
  assumes inv: "bk_inv m w" and free: "bw_lock w = LockFree"
  shows "bk_inv m (lease_drop_begin w i)"
proof (cases "bw_leases w i")
  case None
  then show ?thesis using inv by (simp add: lease_drop_begin_def)
next
  case (Some l)
  let ?k = "li_session_key l"
  have pend: "bk_inv m (x\<lparr>bw_released := r, bw_pending := removeAll i (bw_pending x)\<rparr>)"
    if "bk_inv m x" for x r
    using that by (auto simp: bk_inv_def leases_inv_def sessions_inv_def capacity_inv_def live_def strong_count_def)
  show ?thesis
  proof (cases "map_of (bw_sessions w) ?k")
    case None
    then show ?thesis using Some pend [OF inv] by (simp add: lease_drop_begin_def Let_def)
  next
    case entry: (Some e)
    show ?thesis
    proof (cases "strong_count w e = 0")
      case True
      with entry have "bk_inv m (w\<lparr>bw_state := (bw_state w)\<lparr>bs_sessions := AList.delete ?k (bw_sessions w)\<rparr>\<rparr>)"
        by (intro bk_inv_delete inv) (auto simp: live_def)
      from pend [OF this] show ?thesis using True entry Some
        by (simp add: lease_drop_begin_def Let_def)
    next
      case False
      have "live (w\<lparr>bw_lock := InDrop i e\<rparr>) = live w"
        using False free by (auto simp: live_def strong_count_def)
      with inv have "bk_inv m (w\<lparr>bw_lock := InDrop i e\<rparr>)"
        by (simp add: bk_inv_def leases_inv_def sessions_inv_def capacity_inv_def)
      then show ?thesis using False entry Some by (simp add: lease_drop_begin_def Let_def)
    qed
  qed
qed

lemma live_drop_end:
  "live (lease_drop_end w) \<union> set (bw_pending (lease_drop_end w)) \<union> 
     (if bw_released (lease_drop_end w) = bw_released w then {} else set (bw_pending w)) =
   live w \<union> set (bw_pending w)"
  "live (lease_drop_end w) \<subseteq> live w"
  by (auto simp: lease_drop_end_def live_def strong_count_def split: BrokerLock.splits if_splits)

lemma bk_inv_drop_end:
  assumes inv: "bk_inv m w"
  shows "bk_inv m (lease_drop_end w)"
proof (cases "bw_lock w")
  case (InDrop i e)
  have e: "e \<in> live w" by (simp add: live_def strong_count_def InDrop)
  have st: "bw_state (lease_drop_end w) = bw_state w" "bw_leases (lease_drop_end w) = bw_leases w"
    by (simp_all add: lease_drop_end_def split: BrokerLock.split)
  have pend: "j \<in> set (bw_pending w) \<or> j = e \<and> e \<notin> live (lease_drop_end w)"
    if "j \<in> set (bw_pending (lease_drop_end w))" for j
    using that InDrop by (auto simp: lease_drop_end_def live_def strong_count_def split: if_splits)
  show ?thesis
    using inv e pend live_drop_end(2) [of w]
    by (auto simp: bk_inv_def leases_inv_def sessions_inv_def capacity_inv_def st) (blast | fastforce)+
qed (use inv in \<open>simp_all add: lease_drop_end_def\<close>)

lemma bk_inv_mono: "bk_inv m w \<Longrightarrow> m \<le> m' \<Longrightarrow> bk_inv m' w"
  by (auto simp: bk_inv_def capacity_inv_def)

lemma bk_inv_capacity: "bk_inv m w \<Longrightarrow> bk_inv (max m c) (set_capacity w c)"
  by (auto simp: bk_inv_def leases_inv_def sessions_inv_def capacity_inv_def set_capacity_def live_def
      strong_count_def)

lemma bk_inv_step:
  assumes inv: "bk_inv m w" and step: "broker_step w w'"
  shows "bk_inv (max m (bs_capacity (bw_state w'))) w'"
  using step
proof (cases rule: broker_step.cases)
  case (bk_capacity c)
  then show ?thesis using bk_inv_capacity [OF inv, of c] by (simp add: set_capacity_def)
qed (auto intro!: bk_inv_mono [OF _ max.cobounded1] bk_inv_try_acquire bk_inv_clone bk_inv_release
    bk_inv_retain bk_inv_drop_begin bk_inv_drop_end inv simp: broker_snapshot_def Let_def strong_count_def)

lemma bk_reach_inv: "bk_reach m w \<Longrightarrow> bk_inv m w"
proof (induction rule: bk_reach.induct)
  case (bk_new capacity pool)
  show ?case
    by (simp add: broker_new_def bk_inv_def leases_inv_def sessions_inv_def capacity_inv_def live_def
        strong_count_def)
qed (auto intro: bk_inv_step)


section \<open>Counting live leases\<close>

lemma sessions_snd_inj:
  assumes "sessions_inv w"
  shows "distinct (map snd (bw_sessions w))"
proof -
  have "inj_on snd (set (bw_sessions w))"
  proof (rule inj_onI)
    fix x y assume xy: "x \<in> set (bw_sessions w)" "y \<in> set (bw_sessions w)" "snd x = snd y"
    have "\<exists>l. bw_leases w (snd z) = Some l \<and> li_session_key l = fst z" if "z \<in> set (bw_sessions w)" for z
      using assms that by (cases z) (auto simp: sessions_inv_def)
    from this [OF xy(1)] this [OF xy(2)] xy(3) show "x = y" by (auto simp: prod_eq_iff)
  qed
  moreover have "distinct (bw_sessions w)"
    using assms by (simp add: sessions_inv_def distinct_map)
  ultimately show ?thesis by (simp add: distinct_map)
qed

lemma live_subset: "sessions_inv w \<Longrightarrow> live w \<subseteq> snd ` set (bw_sessions w)"
  by (force simp: sessions_inv_def)

lemma card_live_le:
  assumes "bk_inv m w"
  shows "finite (live w)" "card (live w) \<le> length (bw_sessions w)"
proof -
  have sub: "live w \<subseteq> snd ` set (bw_sessions w)"
    using assms by (intro live_subset) (simp add: bk_inv_def)
  then show "finite (live w)" by (rule finite_subset) simp
  have "card (live w) \<le> card (snd ` set (bw_sessions w))" using sub by (intro card_mono) simp_all
  also have "\<dots> \<le> length (bw_sessions w)"
    by (metis card_image_le card_length finite_set order_trans)
  finally show "card (live w) \<le> length (bw_sessions w)" .
qed

text \<open>After \<open>retain\<close> the entries are exactly the live leases.\<close>

lemma length_retained:
  assumes inv: "bk_inv m w"
  shows "length (bw_sessions (retain_live w)) = card (live w)"
    "set (map snd (bw_sessions (retain_live w))) = live w"
proof -
  have "bk_inv m (retain_live w)" using inv by (rule bk_inv_retain)
  then have si: "sessions_inv (retain_live w)" by (simp add: bk_inv_def)
  show eq: "set (map snd (bw_sessions (retain_live w))) = live w"
  proof
    show "set (map snd (bw_sessions (retain_live w))) \<subseteq> live w"
      by (auto simp: retain_live_def live_def)
    show "live w \<subseteq> set (map snd (bw_sessions (retain_live w)))" using live_subset [OF si] by simp
  qed
  have "length (bw_sessions (retain_live w)) = card (set (map snd (bw_sessions (retain_live w))))"
    using distinct_card [OF sessions_snd_inj [OF si]] by simp
  then show "length (bw_sessions (retain_live w)) = card (live w)" by (simp only: eq)
qed

definition key_live :: "BrokerWorld \<Rightarrow> string \<Rightarrow> u64 \<Rightarrow> bool" where
  "key_live w k i \<longleftrightarrow> i \<in> live w \<and> (\<exists>l. bw_leases w i = Some l \<and> li_session_key l = k)"

lemma lookup_retained:
  assumes inv: "bk_inv m w"
  shows "map_of (bw_sessions (retain_live w)) k = Some i \<longleftrightarrow> key_live w k i"
proof -
  have si: "sessions_inv (retain_live w)" using bk_inv_retain [OF inv] by (simp add: bk_inv_def)
  then have d: "distinct (map fst (bw_sessions (retain_live w)))" by (simp add: sessions_inv_def)
  show ?thesis
  proof
    assume "map_of (bw_sessions (retain_live w)) k = Some i"
    then have mem: "(k, i) \<in> set (bw_sessions (retain_live w))" by (rule map_of_SomeD)
    then have "i \<in> live w" using length_retained(2) [OF inv] by force
    with mem si show "key_live w k i" by (fastforce simp: sessions_inv_def key_live_def)
  next
    assume "key_live w k i"
    then obtain l where "i \<in> live w" "bw_leases w i = Some l" "li_session_key l = k"
      by (auto simp: key_live_def)
    with si have "(k, i) \<in> set (bw_sessions (retain_live w))" by (fastforce simp: sessions_inv_def)
    with d show "map_of (bw_sessions (retain_live w)) k = Some i" by simp
  qed
qed

section \<open>Properties\<close>

text \<open>C22: the provider is never oversubscribed.  Under every interleaving of acquisitions, clones,
  drops, destructors and capacity changes, the leases that still have a reference number at most
  the high watermark, which is at most the largest capacity ever set, and no two of them have the
  same session key.\<close>

theorem provider_never_oversubscribed:
  assumes "bk_reach m w"
  shows "card (live w) \<le> bs_high_watermark (bw_state w) \<and> bs_high_watermark (bw_state w) \<le> m \<and>
    (\<forall>k i j. key_live w k i \<longrightarrow> key_live w k j \<longrightarrow> i = j)"
proof -
  have inv: "bk_inv m w" using assms by (rule bk_reach_inv)
  then have "card (live w) \<le> bs_high_watermark (bw_state w)" "bs_high_watermark (bw_state w) \<le> m"
    using card_live_le(2) [OF inv] by (auto simp: bk_inv_def capacity_inv_def)
  moreover have "i = j" if "key_live w k i" "key_live w k j" for k i j
    using that lookup_retained [OF inv, of k] by (metis option.inject)
  ultimately show ?thesis by blast
qed

text \<open>Two sessions on a pool of two, as the witness.\<close>

definition two_leases :: BrokerWorld where
  "two_leases = snd (try_acquire (snd (try_acquire (broker_new ''pool'' 2) ''a'' [])) ''b'' [])"

lemma two_leases_eq:
  "two_leases = \<lparr>bw_pool_id = ''pool'',
     bw_state = \<lparr>bs_capacity = 2, bs_high_watermark = 2, bs_next_lease_id = 3,
       bs_sessions = [(''a'', 1), (''b'', 2)]\<rparr>, bw_released = 0,
     bw_leases = [1 \<mapsto> \<lparr>li_pool_id = ''pool'', li_session_key = ''a'', li_lease_id = 1\<rparr>,
       2 \<mapsto> \<lparr>li_pool_id = ''pool'', li_session_key = ''b'', li_lease_id = 2\<rparr>],
     bw_handles = (\<lambda>_. 0)(1 := 1, 2 := 1), bw_pending = [], bw_lock = LockFree\<rparr>"
  by (simp add: two_leases_def try_acquire_def broker_new_def retain_live_def acquire_new_def
      checked_add_u64_def strong_count_def Let_def numeral_2_eq_2)

lemma two_leases_reach: "bk_reach 2 two_leases"
proof -
  define w1 where "w1 = snd (try_acquire (broker_new ''pool'' 2) ''a'' [])"
  have w1: "bw_lock w1 = LockFree" "bs_capacity (bw_state w1) = 2"
    by (simp_all add: w1_def try_acquire_def broker_new_def retain_live_def acquire_new_def
        checked_add_u64_def Let_def)
  have "broker_step (broker_new ''pool'' 2) w1"
    unfolding w1_def by (rule bk_acquire) (simp add: broker_new_def)
  from bk_run [OF bk_new this] have r1: "bk_reach 2 w1" by (simp add: w1)
  have "broker_step w1 two_leases" unfolding two_leases_def w1_def [symmetric] by (rule bk_acquire [OF w1(1)])
  from bk_run [OF r1 this] show ?thesis by (simp add: two_leases_eq)
qed

lemma live_two_leases: "live two_leases = {1, 2}"
  by (auto simp: live_def two_leases_eq strong_count_def)

theorem provider_never_oversubscribed_witness:
  "card (live two_leases) = 2 \<and> card (live two_leases) \<le> bs_high_watermark (bw_state two_leases)"
  using provider_never_oversubscribed [OF two_leases_reach] by (simp add: live_two_leases)

text \<open>what an acquisition returns.  A session key with a live lease gets that lease again,
  also on a full pool; any other gets a lease id never used before when fewer leases are live than
  the capacity; and it is refused exactly when the pool is full of live leases (a lease whose
  destructor still waits for the mutex does not count) or the lease ids are used up.\<close>

theorem acquire_outcome:
  assumes "bk_reach m w" and "bw_lock w = LockFree"
  shows "case try_acquire w k [] of
      (Inr i, w') \<Rightarrow> key_live w' k i \<and> strong_count w' i = strong_count w i + 1 \<and>
        (key_live w k i \<or>
         (\<forall>j. \<not> key_live w k j) \<and> bw_leases w i = None \<and> card (live w) < bs_capacity (bw_state w) \<and>
         live w' = insert i (live w))
    | (Inl (AtCapacity p c n), w') \<Rightarrow> (\<forall>j. \<not> key_live w k j) \<and>
        c = bs_capacity (bw_state w) \<and> n = card (live w) \<and> c \<le> n
    | (Inl LeaseIdExhausted, w') \<Rightarrow> (\<forall>j. \<not> key_live w k j) \<and> bs_next_lease_id (bw_state w) = u64_max"
proof -
  have inv: "bk_inv m w" using assms(1) by (rule bk_reach_inv)
  define w1 where "w1 = retain_live w"
  have inv1: "bk_inv m w1" unfolding w1_def using inv by (rule bk_inv_retain)
  note look = lookup_retained [OF inv, folded w1_def]
  have len: "length (bw_sessions w1) = card (live w)"
    unfolding w1_def by (rule length_retained [OF inv])
  have sc: "strong_count w1 = strong_count w" by (auto simp: w1_def retain_live_def)
  show ?thesis
  proof (cases "map_of (bw_sessions w1) k")
    case (Some i)
    then have kl: "key_live w k i" using look by simp
    then have pos: "0 < strong_count w i" by (simp add: key_live_def live_def)
    then have res: "try_acquire w k [] = (Inr i, clone_lease w1 i)"
      using Some by (simp add: try_acquire_def w1_def [symmetric] sc)
    have "live (clone_lease w1 i) = live w1" using pos sc by (simp add: live_clone)
    then have "key_live (clone_lease w1 i) k i"
      using kl by (simp add: key_live_def w1_def)
    moreover have "strong_count (clone_lease w1 i) i = strong_count w i + 1"
      using sc by (simp add: clone_lease_def strong_count_def fun_eq_iff split: BrokerLock.split)
    ultimately show ?thesis using res kl by simp
  next
    case None
    then have none: "\<forall>j. \<not> key_live w k j" using look by (metis option.distinct(1))
    have acq: "try_acquire w k [] = acquire_new w1 k"
      using None by (simp add: try_acquire_def w1_def [symmetric])
    from None show ?thesis
    proof (cases rule: acquire_new_cases)
      case full
      then show ?thesis using none len by (simp add: acq w1_def)
    next
      case exhausted
      then have "bs_next_lease_id (bw_state w) = u64_max"
        using inv by (auto simp: w1_def bk_inv_def leases_inv_def)
      with exhausted none show ?thesis by (simp add: acq)
    next
      case (fresh i)
      have dead: "strong_count w i = 0" using dead_next [OF inv1] fresh(1) sc by simp
      have unused: "bw_leases w i = None"
        using inv1 fresh(1) by (cases "bw_leases w i") (auto simp: bk_inv_def leases_inv_def w1_def)
      define w2 where "w2 = snd (acquire_new w1 k)"
      have sc2: "strong_count w2 j = (if j = i then 1 else strong_count w j)" for j
        using fresh(4) assms(2) dead sc [THEN fun_cong, of j]
        by (auto simp: w2_def strong_count_def w1_def)
      then have "live w2 = insert i (live w)" by (auto simp: live_def)
      moreover have "key_live w2 k i"
        using fresh(4) calculation by (simp add: key_live_def w2_def)
      ultimately show ?thesis
        using fresh(3,4) none unused dead len sc2 [of i] by (simp add: acq w2_def w1_def)
    qed
  qed
qed

theorem acquire_outcome_witness:
  "try_acquire two_leases ''c'' [] = (Inl (AtCapacity ''pool'' 2 2), retain_live two_leases) \<and>
   (\<forall>j. \<not> key_live two_leases ''c'' j)"
proof -
  have res: "try_acquire two_leases ''c'' [] = (Inl (AtCapacity ''pool'' 2 2), retain_live two_leases)"
    by (simp add: two_leases_eq try_acquire_def retain_live_def acquire_new_def strong_count_def)
  have "bw_lock two_leases = LockFree" by (simp add: two_leases_eq)
  from acquire_outcome [OF two_leases_reach this, of "''c''"] res show ?thesis by simp
qed

section \<open>Waiting for a slot\<close>

text \<open>A slot is occupied until the destructor of its lease has run.\<close>

definition occupied :: "BrokerWorld \<Rightarrow> u64 set" where
  "occupied w = live w \<union> set (bw_pending w)"

definition pool_view :: "BrokerWorld \<Rightarrow> usize \<times> u64 set" where
  "pool_view w = (bs_capacity (bw_state w), occupied w)"

definition no_freer :: "usize \<times> u64 set \<Rightarrow> usize \<times> u64 set \<Rightarrow> bool" where
  "no_freer v v' \<longleftrightarrow> fst v' = fst v \<and> snd v \<subseteq> snd v'"

lemma acquire_new_view:
  "bs_capacity (bw_state (snd (acquire_new w k))) = bs_capacity (bw_state w)"
  "bw_released (snd (acquire_new w k)) = bw_released w"
  "bw_pending (snd (acquire_new w k)) = bw_pending w"
  "live w \<subseteq> live (snd (acquire_new w k))"
  by (auto simp: acquire_new_def Let_def live_def strong_count_def split: option.split)

lemma try_acquire_view:
  "bs_capacity (bw_state (snd (try_acquire w k raced))) = bs_capacity (bw_state w)"
  "bw_released (snd (try_acquire w k raced)) = bw_released w"
  "occupied w \<subseteq> occupied (snd (try_acquire w k raced))"
proof -
  define w1 where "w1 = fold release_handle raced (retain_live w)"
  have w1: "bs_capacity (bw_state w1) = bs_capacity (bw_state w)" "bw_released w1 = bw_released w"
    "occupied w \<subseteq> occupied w1"
    using live_fold_release(2) [of "retain_live w" raced] by (auto simp: w1_def occupied_def)
  have "bs_capacity (bw_state (snd (try_acquire w k raced))) = bs_capacity (bw_state w1) \<and>
    bw_released (snd (try_acquire w k raced)) = bw_released w1 \<and>
    occupied w1 \<subseteq> occupied (snd (try_acquire w k raced))"
    using acquire_new_view [of w1 k]
      acquire_new_view [of "w1\<lparr>bw_state := (bw_state w1)\<lparr>bs_sessions := AList.delete k (bw_sessions w1)\<rparr>\<rparr>" k]
    by (auto simp: try_acquire_def Let_def w1_def [symmetric] occupied_def live_clone split: option.split)
  with w1 show "bs_capacity (bw_state (snd (try_acquire w k raced))) = bs_capacity (bw_state w)"
    "bw_released (snd (try_acquire w k raced)) = bw_released w"
    "occupied w \<subseteq> occupied (snd (try_acquire w k raced))" by auto
qed

lemma broker_step_quiet:
  assumes "broker_step w w'"
  shows "bw_released w \<le> bw_released w'"
    and "bw_released w' = bw_released w \<Longrightarrow> no_freer (pool_view w) (pool_view w')"
proof -
  have "bw_released w \<le> bw_released w' \<and>
    (bw_released w' = bw_released w \<longrightarrow> no_freer (pool_view w) (pool_view w'))"
    using assms
  proof (cases rule: broker_step.cases)
    case (bk_acquire k raced)
    then show ?thesis using try_acquire_view [of w k raced] by (simp add: pool_view_def no_freer_def)
  next
    case (bk_clone i)
    then have "live (clone_lease w i) = live w" by (intro live_clone) (simp add: strong_count_def)
    with bk_clone show ?thesis by (simp add: pool_view_def no_freer_def occupied_def)
  next
    case (bk_release i)
    then show ?thesis using live_release(2,3) [where i = i and w = w]
      by (auto simp: pool_view_def no_freer_def occupied_def)
  next
    case (bk_drop_begin i)
    then show ?thesis
      by (auto simp: lease_drop_begin_def Let_def pool_view_def no_freer_def occupied_def live_def
          strong_count_def split: option.split)
  next
    case bk_drop_end
    then show ?thesis
      by (auto simp: lease_drop_end_def pool_view_def no_freer_def occupied_def live_def
          strong_count_def split: BrokerLock.split)
  qed (auto simp: set_capacity_def broker_snapshot_def Let_def pool_view_def no_freer_def occupied_def)
  then show "bw_released w \<le> bw_released w'"
    "bw_released w' = bw_released w \<Longrightarrow> no_freer (pool_view w) (pool_view w')" by auto
qed

interpretation pool_waiters: wakeup "\<lambda>w. \<exists>m. bk_reach m w" broker_step bw_released pool_view no_freer
proof
  show "no_freer v v" for v by (simp add: no_freer_def)
  show "no_freer u v \<Longrightarrow> no_freer v w \<Longrightarrow> no_freer u w" for u v w by (auto simp: no_freer_def)
qed (blast intro: bk_run broker_step_quiet)+

lemma full_pool_is_occupied:
  assumes inv: "bk_inv m w" and full: "try_acquire w k raced = (Inl (AtCapacity p c n), w')"
  shows "c = bs_capacity (bw_state w')" "c \<le> card (occupied w')" "finite (occupied w')"
proof -
  define w1 where "w1 = fold release_handle raced (retain_live w)"
  have "bk_inv m w'" using bk_inv_try_acquire [OF inv, of k raced] full by simp
  then have si: "sessions_inv w'" and fin: "finite (live w')"
    using card_live_le(1) by (auto simp: bk_inv_def)
  have new: "c = bs_capacity (bw_state w')" "c \<le> length (bw_sessions w')"
    if "acquire_new x k = (Inl (AtCapacity p c n), w')" for x
    using that by (auto simp: acquire_new_def Let_def split: if_splits option.splits)
  have same: "w' = x" if "acquire_new x k = (Inl (AtCapacity p c n), w')" for x
    using that by (auto simp: acquire_new_def Let_def split: if_splits option.splits)
  obtain x where x: "acquire_new x k = (Inl (AtCapacity p c n), w')" "occupied x = occupied w1"
    "set (bw_sessions x) \<subseteq> set (bw_sessions w1)"
    using full by (auto simp: try_acquire_def Let_def w1_def [symmetric] occupied_def AList.delete_eq
        split: option.splits if_splits)
  have "snd ` set (bw_sessions w') \<subseteq> snd ` set (bw_sessions w1)" using x same by auto
  also have "\<dots> = live w" using length_retained(2) [OF inv] by (simp add: w1_def)
  also have "\<dots> \<subseteq> occupied w'"
    using live_fold_release(2) [of "retain_live w" raced] x(1,2) same by (auto simp: w1_def occupied_def)
  finally have sub: "snd ` set (bw_sessions w') \<subseteq> occupied w'" .
  show "c = bs_capacity (bw_state w')" using new(1) x(1) .
  show finite: "finite (occupied w')" using fin by (simp add: occupied_def)
  have "length (bw_sessions w') = card (snd ` set (bw_sessions w'))"
    using distinct_card [OF sessions_snd_inj [OF si]] by simp
  also have "\<dots> \<le> card (occupied w')" using finite sub by (rule card_mono)
  finally show "c \<le> card (occupied w')" using new(2) [OF x(1)] by simp
qed

text \<open>a waiting acquirer is notified before a slot becomes free.  Suppose one turn of
  \<open>acquire_wait\<close> found the pool full and went to sleep; as long as no notification has been sent
  since it registered, and no destructor is under way, a new attempt would find the pool full
  again (unless the session itself has been opened by someone else).\<close>

theorem waiting_acquirer_is_notified:
  assumes "bk_reach m w0" and "bw_lock w0 = LockFree"
    and "acquire_wait_turn w0 k raced now deadline = (Inr token, w1)"
    and "broker_step\<^sup>*\<^sup>* w1 w" and "bw_released w = token"
    and "bw_pending w = []" and "\<forall>i. \<not> key_live w k i"
  shows "\<exists>p c n. try_acquire w k [] = (Inl (AtCapacity p c n), retain_live w)"
proof -
  obtain p c n where full: "try_acquire w0 k raced = (Inl (AtCapacity p c n), w1)"
    and token: "token = bw_released w0"
    using assms(3) by (auto simp: acquire_wait_turn_def Let_def
        split: prod.splits sum.splits AcquireError.splits if_splits)
  have "broker_step w0 w1" using bk_acquire [OF assms(2), of k raced] full by simp
  with assms(1) have ok: "\<exists>m. bk_reach m w1" by (blast intro: bk_run)
  have "bw_released w = bw_released w1"
    using try_acquire_view(2) [of w0 k raced] full token assms(5) by simp
  from pool_waiters.no_lost_wakeup [OF assms(4) ok this]
  have view: "bs_capacity (bw_state w) = bs_capacity (bw_state w1)" "occupied w1 \<subseteq> live w"
    using assms(6) by (auto simp: no_freer_def pool_view_def occupied_def)
  obtain m' where "bk_reach m' w" using pool_waiters.steps_mono [OF assms(4) ok] by blast
  then have inv: "bk_inv m' w" by (rule bk_reach_inv)
  note occ = full_pool_is_occupied [OF bk_reach_inv [OF assms(1)] full]
  have "card (occupied w1) \<le> card (live w)"
    using view(2) card_live_le(1) [OF inv] by (intro card_mono)
  then have "bs_capacity (bw_state w) \<le> length (bw_sessions (retain_live w))"
    using occ view(1) length_retained(1) [OF inv] by simp
  moreover have "map_of (bw_sessions (retain_live w)) k = None"
    using lookup_retained [OF inv, of k] assms(7) by (cases "map_of (bw_sessions (retain_live w)) k") auto
  ultimately show ?thesis by (simp add: try_acquire_def acquire_new_def Let_def)
qed

theorem waiting_acquirer_is_notified_witness:
  "\<exists>p c n. try_acquire (retain_live two_leases) ''c'' [] =
     (Inl (AtCapacity p c n), retain_live (retain_live two_leases))"
proof -
  have res: "try_acquire two_leases ''c'' [] = (Inl (AtCapacity ''pool'' 2 2), retain_live two_leases)"
    by (simp add: two_leases_eq try_acquire_def retain_live_def acquire_new_def strong_count_def)
  then have turn: "acquire_wait_turn two_leases ''c'' [] 0 5 = (Inr 0, retain_live two_leases)"
    by (simp add: acquire_wait_turn_def two_leases_eq)
  show ?thesis
  proof (rule waiting_acquirer_is_notified [OF two_leases_reach _ turn rtranclp.rtrancl_refl])
    show "\<forall>i. \<not> key_live (retain_live two_leases) ''c'' i"
      by (auto simp: key_live_def live_two_leases) (auto simp: two_leases_eq)
  qed (simp_all add: two_leases_eq)
qed

section \<open>The destructor can block on itself\<close>

lemma deadlock_absorbing: "broker_step w w' \<Longrightarrow> bw_lock w = Deadlocked \<Longrightarrow> bw_lock w' = Deadlocked"
  by (cases rule: broker_step.cases) (auto simp: lease_drop_end_def)

lemma deadlock_forever: "broker_step\<^sup>*\<^sup>* w w' \<Longrightarrow> bw_lock w = Deadlocked \<Longrightarrow> bw_lock w' = Deadlocked"
  by (induction rule: rtranclp_induct) (auto dest: deadlock_absorbing)

text \<open>One lease is dropped, its key is acquired again before its destructor gets the mutex, and the
  new lease is dropped while that destructor holds its temporary reference.\<close>

definition dl1 :: BrokerWorld where "dl1 = snd (try_acquire (broker_new ''pool'' 1) ''a'' [])"
definition dl2 :: BrokerWorld where "dl2 = release_handle 1 dl1"
definition dl3 :: BrokerWorld where "dl3 = snd (try_acquire dl2 ''a'' [])"
definition dl4 :: BrokerWorld where "dl4 = lease_drop_begin dl3 1"
definition dl5 :: BrokerWorld where "dl5 = release_handle 2 dl4"
definition dl6 :: BrokerWorld where "dl6 = lease_drop_end dl5"

lemma dl1_eq: "dl1 = \<lparr>bw_pool_id = ''pool'',
     bw_state = \<lparr>bs_capacity = 1, bs_high_watermark = 1, bs_next_lease_id = 2,
       bs_sessions = [(''a'', 1)]\<rparr>, bw_released = 0,
     bw_leases = [1 \<mapsto> \<lparr>li_pool_id = ''pool'', li_session_key = ''a'', li_lease_id = 1\<rparr>],
     bw_handles = (\<lambda>_. 0)(1 := 1), bw_pending = [], bw_lock = LockFree\<rparr>"
  by (simp add: dl1_def try_acquire_def broker_new_def retain_live_def acquire_new_def
      checked_add_u64_def Let_def numeral_2_eq_2)

lemma dl2_eq: "dl2 = dl1\<lparr>bw_handles := (\<lambda>_. 0), bw_pending := [1]\<rparr>"
  by (simp add: dl2_def dl1_eq release_handle_def strong_count_def fun_upd_idem)

lemma dl3_eq: "dl3 = \<lparr>bw_pool_id = ''pool'',
     bw_state = \<lparr>bs_capacity = 1, bs_high_watermark = 1, bs_next_lease_id = 3,
       bs_sessions = [(''a'', 2)]\<rparr>, bw_released = 0,
     bw_leases = [1 \<mapsto> \<lparr>li_pool_id = ''pool'', li_session_key = ''a'', li_lease_id = 1\<rparr>,
       2 \<mapsto> \<lparr>li_pool_id = ''pool'', li_session_key = ''a'', li_lease_id = 2\<rparr>],
     bw_handles = (\<lambda>_. 0)(2 := 1), bw_pending = [1], bw_lock = LockFree\<rparr>"
  by (simp add: dl3_def dl2_eq dl1_eq try_acquire_def retain_live_def acquire_new_def
      checked_add_u64_def strong_count_def Let_def)

lemma dl4_eq: "dl4 = dl3\<lparr>bw_lock := InDrop 1 2\<rparr>"
  by (simp add: dl4_def dl3_eq lease_drop_begin_def strong_count_def Let_def)

lemma dl5_eq: "dl5 = dl4\<lparr>bw_handles := (\<lambda>_. 0)\<rparr>"
  by (simp add: dl5_def dl4_eq dl3_eq release_handle_def strong_count_def fun_upd_idem)

lemma dl6_lock: "bw_lock dl6 = Deadlocked"
  by (simp add: dl6_def dl5_eq dl4_eq lease_drop_end_def)

lemma dl_reach: "bk_reach 1 dl6"
proof -
  have cap: "bs_capacity (bw_state dl1) = 1" "bs_capacity (bw_state dl2) = 1" "bs_capacity (bw_state dl3) = 1"
    "bs_capacity (bw_state dl4) = 1" "bs_capacity (bw_state dl5) = 1" "bs_capacity (bw_state dl6) = 1"
    by (simp_all add: dl6_def dl5_eq dl4_eq dl3_eq dl2_eq dl1_eq lease_drop_end_def)
  have s1: "broker_step (broker_new ''pool'' 1) dl1"
    unfolding dl1_def by (rule bk_acquire) (simp add: broker_new_def)
  have s2: "broker_step dl1 dl2" unfolding dl2_def by (rule bk_release)
  have s3: "broker_step dl2 dl3" unfolding dl3_def by (rule bk_acquire) (simp add: dl2_eq dl1_eq)
  have s4: "broker_step dl3 dl4" unfolding dl4_def by (rule bk_drop_begin) (simp_all add: dl3_eq)
  have s5: "broker_step dl4 dl5" unfolding dl5_def by (rule bk_release)
  have s6: "broker_step dl5 dl6" unfolding dl6_def by (rule bk_drop_end)
  note run = bk_run [OF bk_run [OF bk_run [OF bk_run [OF bk_run [OF bk_run [OF bk_new s1] s2] s3] s4] s5] s6]
  show ?thesis using run by (simp add: cap)
qed

text \<open>C23: the destructor of a lease can block the broker for good.  There is a schedule, with one
  slot and one session key, after which the destructor holds the mutex and waits for it; from then
  on the mutex is never free again, so no later acquisition, snapshot or capacity change returns.\<close>

theorem lease_drop_can_deadlock:
  "\<exists>w. bk_reach 1 w \<and> bw_lock w = Deadlocked \<and>
     {w'. broker_step\<^sup>*\<^sup>* w w'} \<subseteq> {w'. bw_lock w' = Deadlocked}"
proof (intro exI conjI)
  show "bk_reach 1 dl6" "bw_lock dl6 = Deadlocked" by (fact dl_reach dl6_lock)+
  show "{w'. broker_step\<^sup>*\<^sup>* dl6 w'} \<subseteq> {w'. bw_lock w' = Deadlocked}"
    using deadlock_forever dl6_lock by blast
qed


end
