(* ===== verification/Session.thy ===== *)
theory Session
  imports Recovery Broker
begin

text \<open>
  The supervised HTTP session (\<open>crates/media/src/session.rs\<close>): sources, start, packetizer, priming,
  streaming, recovery, the pump that ties them together, and the viewer's stream.

  The body of an HTTP response is the list of what \<open>timeout(.., body.next())\<close> returns: a chunk, a
  read error or a timeout; the end of the list is the end of the body.  What other tasks do while
  the pump awaits (viewers, the operator, the keepalive task, other sessions on the provider pools)
  is a list of \<open>OtherTask\<close>s given with each await point, together with the clock readings the next
  write takes.  The attempts of a recovery are the list of those that begin before its deadline.
  HTTP headers are a type parameter and the URL parser a function parameter.
\<close>

section \<open>Keys, endpoints and sources\<close>

definition DEFAULT_STARTUP_TIMEOUT :: duration where
  "DEFAULT_STARTUP_TIMEOUT = 15 * 1000000000"

definition DEFAULT_READ_TIMEOUT :: duration where
  "DEFAULT_READ_TIMEOUT = 5 * 1000000000"

definition DEFAULT_VIEWER_BATCH_PACKETS :: usize where
  "DEFAULT_VIEWER_BATCH_PACKETS = 32"

definition MAX_PRIMING_PACKETS :: usize where
  "MAX_PRIMING_PACKETS = 16384"

datatype InputAdapterPolicy = PolicyAuto | PolicyNativeTs | PolicyFfmpeg | PolicyVlc

definition selected_adapter :: "InputAdapterPolicy \<Rightarrow> SessionInputAdapter" where
  "selected_adapter self =
     (case self of
        PolicyAuto \<Rightarrow> Ffmpeg
      | PolicyFfmpeg \<Rightarrow> Ffmpeg
      | PolicyVlc \<Rightarrow> Vlc
      | PolicyNativeTs \<Rightarrow> NativeTs)"

text \<open>Decimal digits, as \<open>Display\<close> prints an unsigned integer.\<close>

fun show_u64 :: "u64 \<Rightarrow> string" where
  "show_u64 n = (if n < 10 then [char_of (48 + n)] else show_u64 (n div 10) @ [char_of (48 + n mod 10)])"

declare show_u64.simps [simp del]

definition allocation_key :: "HttpTsSessionKey \<Rightarrow> string" where
  "allocation_key self =
     hk_provider_pool_id self @ [CHR 0x1F] @ hk_source_id self @ [CHR 0x1F] @ show_u64 (hk_generation self)"

record 'h HttpTsEndpoint =
  ep_provider_pool_id :: "string option"
  ep_url :: string
  ep_headers :: 'h

definition effective_pool_id :: "'h HttpTsEndpoint \<Rightarrow> string \<Rightarrow> string" where
  "effective_pool_id self default_pool = unwrap_or (ep_provider_pool_id self) default_pool"

datatype BrokeredInputFormat = DirectMpegTs | HlsInput

record 'h HttpTsSourceSpec =
  hs_key :: HttpTsSessionKey
  hs_channel_name :: "string option"
  hs_endpoints :: "'h HttpTsEndpoint list"
  hs_adapter_policy :: InputAdapterPolicy
  hs_process_input_format :: BrokeredInputFormat
  hs_ring :: MpegTsRingConfig
  hs_startup_timeout :: duration
  hs_read_timeout :: duration
  hs_viewer_batch_packets :: usize
  hs_viewer_delay :: duration
  hs_recovery :: RecoveryPolicy

definition source_new :: "'h \<Rightarrow> HttpTsSessionKey \<Rightarrow> string \<Rightarrow> MpegTsRingConfig \<Rightarrow> 'h HttpTsSourceSpec" where
  "source_new no_headers key url ring =
     \<lparr>hs_key = key, hs_channel_name = None,
      hs_endpoints = [\<lparr>ep_provider_pool_id = None, ep_url = url, ep_headers = no_headers\<rparr>],
      hs_adapter_policy = PolicyAuto, hs_process_input_format = DirectMpegTs, hs_ring = ring,
      hs_startup_timeout = DEFAULT_STARTUP_TIMEOUT, hs_read_timeout = DEFAULT_READ_TIMEOUT,
      hs_viewer_batch_packets = DEFAULT_VIEWER_BATCH_PACKETS, hs_viewer_delay = 0,
      hs_recovery = policy_default\<rparr>"

definition add_alternate :: "'h HttpTsSourceSpec \<Rightarrow> 'h HttpTsEndpoint \<Rightarrow> 'h HttpTsSourceSpec" where
  "add_alternate self endpoint = self\<lparr>hs_endpoints := hs_endpoints self @ [endpoint]\<rparr>"

text \<open>The first lines of \<open>start_http_ts_session\<close>: with \<open>active\<close> sessions on the pool of the first
  endpoint, a new session starts at the endpoint of that index.\<close>

definition rotate_endpoints :: "usize \<Rightarrow> 'h HttpTsSourceSpec \<Rightarrow> 'h HttpTsSourceSpec" where
  "rotate_endpoints active source =
     (if active < length (hs_endpoints source)
      then source\<lparr>hs_endpoints := rotate active (hs_endpoints source)\<rparr> else source)"

definition active_sessions ::
    "(string \<Rightarrow> BrokerWorld option) \<Rightarrow> 'h HttpTsSourceSpec \<Rightarrow> usize" where
  "active_sessions providers source =
     (case hs_endpoints source of
        [] \<Rightarrow> 0
      | endpoint # _ \<Rightarrow>
          (case providers (effective_pool_id endpoint (hk_provider_pool_id (hs_key source))) of
             None \<Rightarrow> 0
           | Some broker \<Rightarrow> pl_active_sessions (fst (broker_snapshot broker))))"

datatype SessionStartError =
    UnknownProvider string
  | ProviderError AcquireError
  | StartupTimeout
  | HttpError string
  | ProcessError SessionInputAdapter
  | ProcessInputRequiresProcessAdapter

text \<open>
  \<open>acquire_wait\<close>: its turns, each with what happened to the pool before it, the handles dropped
  during it and the time after it; \<open>None\<close> while it still waits.
\<close>

type_synonym WaitTurn = "(BrokerWorld \<Rightarrow> BrokerWorld) \<times> u64 list \<times> instant"

fun acquire_wait ::
    "BrokerWorld \<Rightarrow> string \<Rightarrow> instant \<Rightarrow> WaitTurn list \<Rightarrow> (AcquireError + u64) option \<times> BrokerWorld" where
  "acquire_wait self session_key deadline [] = (None, self)"
| "acquire_wait self session_key deadline ((meanwhile, raced, now) # turns) =
     (case acquire_wait_turn (meanwhile self) session_key raced now deadline of
        (Inl result, self) \<Rightarrow> (Some result, self)
      | (Inr notified, self) \<Rightarrow> acquire_wait self session_key deadline turns)"

text \<open>Dropping a handle of a lease, with the destructor when it was the last one.\<close>

definition drop_lease :: "u64 \<Rightarrow> BrokerWorld \<Rightarrow> BrokerWorld" where
  "drop_lease lid self =
     (let self = release_handle lid self
      in if lid \<in> set (bw_pending self) then lease_drop_end (lease_drop_begin self lid) else self)"

text \<open>
  \<open>start_http_ts_session\<close>.  \<open>sa_wait\<close> is \<open>None\<close> for \<open>wait_for_capacity = false\<close>; \<open>sa_response\<close> and
  \<open>sa_process\<close> say how the request or the process start ends, \<open>sa_base_server\<close> is the scheme, host
  and port of a URL that parses.
\<close>

record StartInput =
  sa_base_server :: "string \<Rightarrow> string option"
  sa_now :: instant
  sa_wait :: "WaitTurn list option"
  sa_dropped :: "u64 list"
  sa_response :: "SessionStartError + unit"
  sa_process :: bool

record HttpTsSession =
  hx_key :: HttpTsSessionKey
  hx_ring :: RingInner
  hx_lease_id :: u64
  hx_input :: SessionInputAdapter
  hx_viewer_batch_packets :: usize
  hx_viewer_delay :: duration
  hx_diagnostics :: SessionDiagnostics

definition start_input ::
    "StartInput \<Rightarrow> 'h HttpTsSourceSpec \<Rightarrow> u64 \<Rightarrow> SessionDiagnostics \<Rightarrow> SessionStartError + HttpTsSession" where
  "start_input input source lease_id diagnostics =
     (let adapter = selected_adapter (hs_adapter_policy source);
          session = (\<lambda>diagnostics.
            \<lparr>hx_key = hs_key source, hx_ring = ring_new (hs_ring source), hx_lease_id = lease_id,
             hx_input = adapter, hx_viewer_batch_packets = hs_viewer_batch_packets source,
             hx_viewer_delay = hs_viewer_delay source, hx_diagnostics = diagnostics\<rparr>)
      in case adapter of
           NativeTs \<Rightarrow>
             if hs_process_input_format source \<noteq> DirectMpegTs
             then Inl ProcessInputRequiresProcessAdapter
             else (case sa_response input of
                     Inl error \<Rightarrow> Inl error
                   | Inr u \<Rightarrow> Inr (session diagnostics))
         | _ \<Rightarrow>
             if sa_process input
             then Inr (session (diagnostics\<lparr>sd_inner := set_session_state (sd_inner diagnostics) Priming\<rparr>))
             else Inl (ProcessError adapter))"

definition initial_diagnostics :: "StartInput \<Rightarrow> 'h HttpTsSourceSpec \<Rightarrow> SessionDiagnostics" where
  "initial_diagnostics input source =
     (let diagnostics = diagnostics_new (hs_key source) (hs_channel_name source);
          diagnostics = (case sa_base_server input (ep_url (hd (hs_endpoints source))) of
                           None \<Rightarrow> diagnostics | Some server \<Rightarrow> set_base_server diagnostics server);
          diagnostics = set_adapter diagnostics (selected_adapter (hs_adapter_policy source))
      in diagnostics\<lparr>sd_inner := set_session_state (sd_inner diagnostics) Reserving\<rparr>)"

definition acquire_start_lease ::
    "StartInput \<Rightarrow> 'h HttpTsSourceSpec \<Rightarrow> BrokerWorld \<Rightarrow> (AcquireError + u64) option \<times> BrokerWorld" where
  "acquire_start_lease input source broker =
     (let key = allocation_key (hs_key source)
      in case sa_wait input of
           Some turns \<Rightarrow> acquire_wait broker key (sa_now input + hs_startup_timeout source) turns
         | None \<Rightarrow> map_prod Some (\<lambda>x. x) (try_acquire broker key (sa_dropped input)))"

definition start_http_ts_session ::
    "StartInput \<Rightarrow> (string \<Rightarrow> BrokerWorld option) \<Rightarrow> 'h HttpTsSourceSpec \<Rightarrow>
     (SessionStartError + HttpTsSession) option \<times> (string \<Rightarrow> BrokerWorld option)" where
  "start_http_ts_session input providers source =
     (let source = rotate_endpoints (active_sessions providers source) source;
          diagnostics = initial_diagnostics input source;
          primary_pool_id =
            effective_pool_id (hd (hs_endpoints source)) (hk_provider_pool_id (hs_key source))
      in case providers primary_pool_id of
           None \<Rightarrow> (Some (Inl (UnknownProvider primary_pool_id)), providers)
         | Some broker \<Rightarrow>
             (case acquire_start_lease input source broker of
                (None, broker) \<Rightarrow> (None, providers(primary_pool_id \<mapsto> broker))
              | (Some (Inl error), broker) \<Rightarrow>
                  (Some (Inl (ProviderError error)), providers(primary_pool_id \<mapsto> broker))
              | (Some (Inr lease_id), broker) \<Rightarrow>
                  (case start_input input source lease_id
                          (diagnostics\<lparr>sd_inner := set_session_state (sd_inner diagnostics) Starting\<rparr>) of
                     Inl error \<Rightarrow>
                       (Some (Inl error), providers(primary_pool_id \<mapsto> drop_lease lease_id broker))
                   | Inr session \<Rightarrow> (Some (Inr session), providers(primary_pool_id \<mapsto> broker)))))"

text \<open>The manager's pools and the check of \<open>open_with_capacity_wait\<close> before a session starts.\<close>

definition configure_provider ::
    "(string \<Rightarrow> BrokerWorld option) \<Rightarrow> string \<Rightarrow> usize \<Rightarrow> string \<Rightarrow> BrokerWorld option" where
  "configure_provider providers pool_id max_connections =
     (case providers pool_id of
        Some broker \<Rightarrow> providers(pool_id \<mapsto> set_capacity broker max_connections)
      | None \<Rightarrow> providers(pool_id \<mapsto> broker_new pool_id max_connections))"

definition provider_snapshot ::
    "(string \<Rightarrow> BrokerWorld option) \<Rightarrow> string \<Rightarrow> PoolSnapshot option" where
  "provider_snapshot providers pool_id = map_option (\<lambda>broker. fst (broker_snapshot broker)) (providers pool_id)"

definition reserve_provider_slot ::
    "(string \<Rightarrow> BrokerWorld option) \<Rightarrow> string \<Rightarrow> usize \<Rightarrow> string \<Rightarrow> u64 list \<Rightarrow>
     (AcquireError + u64) \<times> (string \<Rightarrow> BrokerWorld option)" where
  "reserve_provider_slot providers pool_id capacity reservation_key dropped =
     (let providers = configure_provider providers pool_id capacity;
          (result, broker) = try_acquire (the (providers pool_id)) reservation_key dropped
      in (result, providers(pool_id \<mapsto> broker)))"

definition unknown_provider ::
    "(string \<Rightarrow> BrokerWorld option) \<Rightarrow> 'h HttpTsSourceSpec \<Rightarrow> SessionStartError option" where
  "unknown_provider providers source =
     map_option UnknownProvider
       (find (\<lambda>pool_id. providers pool_id = None)
         (map (\<lambda>endpoint. effective_pool_id endpoint (hk_provider_pool_id (hs_key source)))
           (hs_endpoints source)))"

section \<open>Packetizer\<close>

record MpegTsPacketizer =
  pk_pending :: bytes

datatype PacketizerError = InvalidSyncByte usize u8 | IncompletePacket usize

definition packetizer_new :: MpegTsPacketizer where
  "packetizer_new = \<lparr>pk_pending = []\<rparr>"

definition packetizer_push ::
    "MpegTsPacketizer \<Rightarrow> bytes \<Rightarrow> (PacketizerError + bytes) \<times> MpegTsPacketizer" where
  "packetizer_push self chunk =
     (let pending = pk_pending self @ chunk;
          self = \<lparr>pk_pending = pending\<rparr>;
          aligned_len = length pending div MPEG_TS_PACKET_SIZE * MPEG_TS_PACKET_SIZE
      in if aligned_len = 0 then (Inr [], self)
         else case first_bad_sync 0 (chunks_exact MPEG_TS_PACKET_SIZE (take aligned_len pending)) of
                Some (packet_index, actual) \<Rightarrow> (Inl (InvalidSyncByte packet_index actual), self)
              | None \<Rightarrow> (Inr (take aligned_len pending), \<lparr>pk_pending = drop aligned_len pending\<rparr>))"

definition packetizer_finish :: "MpegTsPacketizer \<Rightarrow> PacketizerError + unit" where
  "packetizer_finish self =
     (if pk_pending self = [] then Inr () else Inl (IncompletePacket (length (pk_pending self))))"

definition packetizer_failure :: "PacketizerError \<Rightarrow> SessionFailureKind" where
  "packetizer_failure error =
     (case error of InvalidSyncByte i a \<Rightarrow> InvalidSync | IncompletePacket n \<Rightarrow> IncompleteTail)"

section \<open>Priming\<close>

datatype BodyEvent = Chunk bytes | BodyError | BodyTimeout

datatype PrimeStep =
    PrimeDone "SessionFailureKind + bytes"
  | PrimeMore PatPmtTracker bytes u64 u64

text \<open>Making room for one more packet.\<close>

definition prime_evict :: "PatPmtTracker \<Rightarrow> bytes \<Rightarrow> u64 \<Rightarrow> bytes \<times> u64 \<times> PatPmtTracker" where
  "prime_evict tracker retained first_sequence =
     (if length retained = MAX_PRIMING_PACKETS * MPEG_TS_PACKET_SIZE
      then let first_sequence = saturating_add_u64 first_sequence 1
           in (drop MPEG_TS_PACKET_SIZE retained, first_sequence,
               case tr_candidate_start tracker of
                 Some candidate \<Rightarrow> if candidate < first_sequence then tr_reset tracker else tracker
               | None \<Rightarrow> tracker)
      else (retained, first_sequence, tracker))"

text \<open>The loop over the packets of one chunk; \<open>packets\<close> is the whole chunk and \<open>packet_index\<close> the
  position in it.\<close>

fun prime_packets ::
    "bytes \<Rightarrow> nat \<Rightarrow> bytes list \<Rightarrow> PatPmtTracker \<Rightarrow> bytes \<Rightarrow> u64 \<Rightarrow> u64 \<Rightarrow> PrimeStep" where
  "prime_packets packets packet_index [] tracker retained first_sequence next_sequence =
     PrimeMore tracker retained first_sequence next_sequence"
| "prime_packets packets packet_index (packet # rest) tracker retained first_sequence next_sequence =
     (let (retained, first_sequence, tracker) = prime_evict tracker retained first_sequence;
          retained = retained @ packet;
          (tracker, boundary) = tr_observe tracker packet next_sequence
      in case boundary of
           Some boundary \<Rightarrow>
             if boundary < first_sequence then PrimeDone (Inl PrimingFailed)
             else
               (case checked_mul_u64 (boundary - first_sequence) MPEG_TS_PACKET_SIZE of
                  None \<Rightarrow> PrimeDone (Inl PrimingFailed)
                | Some offset \<Rightarrow>
                    if \<not> offset < length retained then PrimeDone (Inl PrimingFailed)
                    else let remaining_offset = (packet_index + 1) * MPEG_TS_PACKET_SIZE
                         in PrimeDone (Inr (drop offset (retained @ drop remaining_offset packets))))
         | None \<Rightarrow>
             prime_packets packets (Suc packet_index) rest tracker retained first_sequence
               (saturating_add_u64 next_sequence 1))"

fun prime_loop ::
    "MpegTsPacketizer \<Rightarrow> PatPmtTracker \<Rightarrow> bytes \<Rightarrow> u64 \<Rightarrow> u64 \<Rightarrow> (BodyEvent \<times> 't) list \<Rightarrow>
     (SessionFailureKind + bytes) \<times> MpegTsPacketizer \<times> (BodyEvent \<times> 't) list" where
  "prime_loop packetizer tracker retained first_sequence next_sequence [] =
     (Inl UpstreamEnded, packetizer, [])"
| "prime_loop packetizer tracker retained first_sequence next_sequence ((BodyTimeout, t) # body) =
     (Inl ReadTimeout, packetizer, body)"
| "prime_loop packetizer tracker retained first_sequence next_sequence ((BodyError, t) # body) =
     (Inl UpstreamRead, packetizer, body)"
| "prime_loop packetizer tracker retained first_sequence next_sequence ((Chunk chunk, t) # body) =
     (case packetizer_push packetizer chunk of
        (Inl error, packetizer) \<Rightarrow> (Inl (packetizer_failure error), packetizer, body)
      | (Inr packets, packetizer) \<Rightarrow>
          (case prime_packets packets 0 (chunks_exact MPEG_TS_PACKET_SIZE packets) tracker retained
                  first_sequence next_sequence of
             PrimeDone result \<Rightarrow> (result, packetizer, body)
           | PrimeMore tracker retained first_sequence next_sequence \<Rightarrow>
               prime_loop packetizer tracker retained first_sequence next_sequence body))"

definition prime_body ::
    "MpegTsPacketizer \<Rightarrow> (BodyEvent \<times> 't) list \<Rightarrow>
     (SessionFailureKind + bytes) \<times> MpegTsPacketizer \<times> (BodyEvent \<times> 't) list" where
  "prime_body packetizer body = prime_loop packetizer PatPmtTracker_default [] 0 0 body"

section \<open>Keepalive and other tasks\<close>

definition push_packets ::
    "RingInner \<Rightarrow> DiagnosticsState \<Rightarrow> bytes \<Rightarrow> instant \<times> instant \<Rightarrow>
     (RingWriteError + unit) \<times> RingInner \<times> DiagnosticsState" where
  "push_packets ring diagnostics packets clock =
     (if packets = [] then (Inr (), ring, diagnostics)
      else case ring_push ring packets (fst clock) (snd clock) of
             (Inl error, ring) \<Rightarrow> (Inl error, ring, diagnostics)
           | (Inr outcome, ring) \<Rightarrow>
               (Inr (), ring, record_write diagnostics (wo_packets_overwritten outcome)))"

definition null_packet :: "u8 \<Rightarrow> bytes" where
  "null_packet continuity_counter =
     [0x47, 0x1f, 0xff, 0x10 OR (continuity_counter AND 0x0f)] @ replicate (MPEG_TS_PACKET_SIZE - 4) 0xff"

text \<open>One tick of the keepalive task: \<open>None\<close> when the task ends.\<close>

definition keepalive_tick ::
    "RingInner \<Rightarrow> DiagnosticsState \<Rightarrow> u64 \<Rightarrow> u64 \<Rightarrow> u8 \<Rightarrow> instant \<times> instant \<Rightarrow>
     (RingInner \<times> DiagnosticsState \<times> u8) option" where
  "keepalive_tick ring diagnostics generation drain_target continuity clock =
     (if viewers_drained diagnostics generation drain_target
      then (case ring_push ring (null_packet continuity) (fst clock) (snd clock) of
              (Inl error, ring) \<Rightarrow> None
            | (Inr outcome, ring) \<Rightarrow>
                Some (ring, record_write diagnostics (wo_packets_overwritten outcome),
                  (continuity + 1) AND 0x0f))
      else Some (ring, diagnostics, continuity))"

definition push_final_keepalive_null ::
    "RingInner \<Rightarrow> DiagnosticsState \<Rightarrow> instant \<times> instant \<Rightarrow> RingInner \<times> DiagnosticsState" where
  "push_final_keepalive_null ring diagnostics clock =
     (case ring_push ring (null_packet 0) (fst clock) (snd clock) of
        (Inl error, ring) \<Rightarrow> (ring, diagnostics)
      | (Inr outcome, ring) \<Rightarrow> (ring, record_write diagnostics 0))"

text \<open>
  The state the pump shares with other tasks.  \<open>pu_keepalive\<close> is the keepalive task while it runs:
  the generation and sequence it waits for and its continuity counter.
\<close>

record PumpState =
  pu_ring :: RingInner
  pu_diagnostics :: DiagnosticsState
  pu_providers :: "string \<Rightarrow> BrokerWorld option"
  pu_keepalive :: "(u64 \<times> u64 \<times> u8) option"

datatype OtherTask =
    KeepaliveTick "instant \<times> instant"
  | ViewerRegisters u64 u64
  | ViewerMoves u64 u64 u64
  | ViewerLags
  | ViewerDrops u64
  | OperatorTerminates
  | PoolChanges string "BrokerWorld \<Rightarrow> BrokerWorld"

text \<open>\<open>HttpTsSession::terminate\<close>.\<close>

definition terminate :: "PumpState \<Rightarrow> PumpState" where
  "terminate s = s\<lparr>pu_ring := snd (ring_close (pu_ring s) Shutdown),
     pu_diagnostics := set_session_state (pu_diagnostics s) Stopping\<rparr>"

definition keepalive_turn :: "instant \<times> instant \<Rightarrow> PumpState \<Rightarrow> PumpState" where
  "keepalive_turn clock s =
     (case pu_keepalive s of
        None \<Rightarrow> s
      | Some (generation, drain_target, continuity) \<Rightarrow>
          (case keepalive_tick (pu_ring s) (pu_diagnostics s) generation drain_target continuity clock of
             None \<Rightarrow> s\<lparr>pu_keepalive := None\<rparr>
           | Some (ring, diagnostics, continuity) \<Rightarrow>
               s\<lparr>pu_ring := ring, pu_diagnostics := diagnostics,
                 pu_keepalive := Some (generation, drain_target, continuity)\<rparr>))"

fun other_task :: "OtherTask \<Rightarrow> PumpState \<Rightarrow> PumpState" where
  "other_task (KeepaliveTick clock) s = keepalive_turn clock s"
| "other_task (ViewerRegisters generation sequence) s =
     s\<lparr>pu_diagnostics := snd (register_viewer (pu_diagnostics s) generation sequence)\<rparr>"
| "other_task (ViewerMoves viewer_id generation sequence) s =
     s\<lparr>pu_diagnostics := update_viewer (pu_diagnostics s) viewer_id generation sequence\<rparr>"
| "other_task ViewerLags s = s\<lparr>pu_diagnostics := record_lag (pu_diagnostics s)\<rparr>"
| "other_task (ViewerDrops viewer_id) s = s\<lparr>pu_diagnostics := drop_viewer (pu_diagnostics s) viewer_id\<rparr>"
| "other_task OperatorTerminates s = terminate s"
| "other_task (PoolChanges pool_id change) s =
     s\<lparr>pu_providers := (pu_providers s)(pool_id := map_option change (pu_providers s pool_id))\<rparr>"

definition meanwhile :: "OtherTask list \<Rightarrow> PumpState \<Rightarrow> PumpState" where
  "meanwhile tasks s = fold other_task tasks s"

section \<open>Streaming\<close>

text \<open>An event of the body, with what happens before it and the clock of the write after it.\<close>

type_synonym Turn = "BodyEvent \<times> OtherTask list \<times> instant \<times> instant"

fun stream_until_failure ::
    "PumpState \<Rightarrow> MpegTsPacketizer \<Rightarrow> Turn list \<Rightarrow>
     SessionFailureKind \<times> PumpState \<times> MpegTsPacketizer \<times> Turn list" where
  "stream_until_failure s packetizer [] =
     (if length (pk_pending packetizer) = 0 then UpstreamEnded else IncompleteTail, s, packetizer, [])"
| "stream_until_failure s packetizer ((BodyTimeout, tasks, clock) # body) =
     (ReadTimeout, meanwhile tasks s, packetizer, body)"
| "stream_until_failure s packetizer ((BodyError, tasks, clock) # body) =
     (UpstreamRead, meanwhile tasks s, packetizer, body)"
| "stream_until_failure s packetizer ((Chunk chunk, tasks, clock) # body) =
     (let s = meanwhile tasks s
      in case packetizer_push packetizer chunk of
           (Inl error, packetizer) \<Rightarrow> (packetizer_failure error, s, packetizer, body)
         | (Inr packets, packetizer) \<Rightarrow>
             (case push_packets (pu_ring s) (pu_diagnostics s) packets clock of
                (Inl error, ring, diagnostics) \<Rightarrow>
                  (RingClosed, s\<lparr>pu_ring := ring, pu_diagnostics := diagnostics\<rparr>, packetizer, body)
              | (Inr u, ring, diagnostics) \<Rightarrow>
                  stream_until_failure (s\<lparr>pu_ring := ring, pu_diagnostics := diagnostics\<rparr>) packetizer body))"

section \<open>Recovery\<close>

record PumpConfig =
  hc_allocation_source_id :: string
  hc_allocation_generation :: u64
  hc_endpoints :: "string list"
  hc_recovery :: RecoveryPolicy

text \<open>The endpoint of an attempt, and the start of an attempt in the loop of \<open>recover_session\<close>.\<close>

definition recovery_endpoint :: "usize \<Rightarrow> usize \<Rightarrow> usize \<Rightarrow> usize" where
  "recovery_endpoint endpoints previous_endpoint attempt =
     (let failover_offset = (if endpoints > 1 then 1 else 0)
      in (previous_endpoint + failover_offset + attempt) mod u64_bound mod endpoints)"

definition recovery_attempt ::
    "DiagnosticsState \<Rightarrow> usize \<Rightarrow> usize \<Rightarrow> usize \<Rightarrow> usize \<times> DiagnosticsState" where
  "recovery_attempt diagnostics endpoints previous_endpoint attempt =
     (let endpoint_index = recovery_endpoint endpoints previous_endpoint attempt;
          is_failover = (endpoint_index \<noteq> previous_endpoint);
          diagnostics = set_session_state diagnostics (if is_failover then FailingOver else Recovering)
      in (endpoint_index, record_reconnect diagnostics is_failover))"

definition acquire_recovery_lease ::
    "(string \<Rightarrow> BrokerWorld option) \<Rightarrow> string \<Rightarrow> u64 \<Rightarrow> string \<Rightarrow> string \<Rightarrow> u64 list \<Rightarrow>
     (unit + u64 option) \<times> (string \<Rightarrow> BrokerWorld option)" where
  "acquire_recovery_lease providers allocation_source_id allocation_generation pool_id current_pool_id dropped =
     (if pool_id = current_pool_id then (Inr None, providers)
      else case providers pool_id of
             None \<Rightarrow> (Inl (), providers)
           | Some broker \<Rightarrow>
               let key = pool_id @ [CHR 0x1F] @ allocation_source_id @ [CHR 0x1F] @
                     show_u64 allocation_generation;
                   (result, broker) = try_acquire broker key dropped
               in (case result of Inl e \<Rightarrow> Inl () | Inr lease \<Rightarrow> Inr (Some lease),
                   providers(pool_id \<mapsto> broker)))"

text \<open>Dropping the lease of a pool, where there is one.\<close>

definition drop_pool_lease ::
    "string \<Rightarrow> u64 option \<Rightarrow> PumpState \<Rightarrow> PumpState" where
  "drop_pool_lease pool_id lease s =
     (case lease of
        None \<Rightarrow> s
      | Some lid \<Rightarrow>
          s\<lparr>pu_providers := (pu_providers s)(pool_id := map_option (drop_lease lid) (pu_providers s pool_id))\<rparr>)"

text \<open>
  The end of a successful attempt, after the viewers have drained: the last null packet and the end
  of the keepalive task, then the new generation and its first packets.
\<close>

definition stop_keepalive :: "instant \<times> instant \<Rightarrow> OtherTask list \<Rightarrow> PumpState \<Rightarrow> PumpState" where
  "stop_keepalive null_clock stopping s =
     (let (ring, diagnostics) = push_final_keepalive_null (pu_ring s) (pu_diagnostics s) null_clock
      in (meanwhile stopping (s\<lparr>pu_ring := ring, pu_diagnostics := diagnostics\<rparr>))\<lparr>pu_keepalive := None\<rparr>)"

definition recovery_complete ::
    "bytes \<Rightarrow> instant \<times> instant \<Rightarrow> OtherTask list \<Rightarrow> instant \<times> instant \<Rightarrow> PumpState \<Rightarrow> bool \<times> PumpState" where
  "recovery_complete primed null_clock stopping clock s =
     (let s = stop_keepalive null_clock stopping s
      in case start_new_generation (pu_ring s) of
           (Inl error, ring) \<Rightarrow> (False, s\<lparr>pu_ring := ring\<rparr>)
         | (Inr generation, ring) \<Rightarrow>
             (case push_packets ring (set_generation (pu_diagnostics s) generation) primed clock of
                (Inl error, ring, diagnostics) \<Rightarrow>
                  (False, s\<lparr>pu_ring := ring, pu_diagnostics := record_failure diagnostics RingClosed\<rparr>)
              | (Inr u, ring, diagnostics) \<Rightarrow>
                  (True, s\<lparr>pu_ring := ring, pu_diagnostics := set_session_state diagnostics Streaming\<rparr>)))"

text \<open>
  The wait for the viewers to read what the failed upstream left: each entry is what happens during
  one sleep of five milliseconds, and the list ends with the deadline.
\<close>

fun wait_drained :: "u64 \<Rightarrow> u64 \<Rightarrow> OtherTask list list \<Rightarrow> PumpState \<Rightarrow> bool \<times> PumpState" where
  "wait_drained generation target [] s = (viewers_drained (pu_diagnostics s) generation target, s)"
| "wait_drained generation target (tasks # polls) s =
     (if viewers_drained (pu_diagnostics s) generation target then (True, s)
      else wait_drained generation target polls (meanwhile tasks s))"

text \<open>What one attempt of a recovery meets; \<open>at_response\<close> is \<open>None\<close> when the request fails.\<close>

record Attempt =
  at_dropped :: "u64 list"
  at_request :: "OtherTask list"
  at_response :: "Turn list option"
  at_priming :: "OtherTask list"
  at_drain :: "OtherTask list list"
  at_null_clock :: "instant \<times> instant"
  at_stopping :: "OtherTask list"
  at_clock :: "instant \<times> instant"
  at_retry :: "OtherTask list"

record RecoveredStream =
  rc_endpoint_index :: usize
  rc_body :: "Turn list"
  rc_packetizer :: MpegTsPacketizer
  rc_lease :: "u64 option"

text \<open>One attempt: it ends the recovery, or the loop goes on.\<close>

datatype AttemptResult = Retry | GiveUp | Recovered RecoveredStream

definition attempt_primed ::
    "usize \<Rightarrow> string \<Rightarrow> u64 option \<Rightarrow> u64 \<Rightarrow> u64 \<Rightarrow> Attempt \<Rightarrow> bytes \<Rightarrow> MpegTsPacketizer \<Rightarrow> Turn list \<Rightarrow>
     PumpState \<Rightarrow> AttemptResult \<times> PumpState" where
  "attempt_primed endpoint_index pool_id lease generation target attempt primed packetizer body s =
     (case wait_drained generation target (at_drain attempt) s of
        (False, s) \<Rightarrow> (GiveUp, drop_pool_lease pool_id lease s)
      | (True, s) \<Rightarrow>
          (case recovery_complete primed (at_null_clock attempt) (at_stopping attempt) (at_clock attempt) s of
             (False, s) \<Rightarrow> (GiveUp, drop_pool_lease pool_id lease s)
           | (True, s) \<Rightarrow>
               (Recovered \<lparr>rc_endpoint_index = endpoint_index, rc_body = body,
                  rc_packetizer = packetizer, rc_lease = lease\<rparr>, s)))"

definition attempt_leased ::
    "usize \<Rightarrow> string \<Rightarrow> u64 option \<Rightarrow> u64 \<Rightarrow> u64 \<Rightarrow> Attempt \<Rightarrow> PumpState \<Rightarrow> AttemptResult \<times> PumpState" where
  "attempt_leased endpoint_index pool_id lease generation target attempt s =
     (let s = meanwhile (at_request attempt) s
      in case at_response attempt of
           None \<Rightarrow>
             (Retry, drop_pool_lease pool_id lease (meanwhile (at_retry attempt)
                (s\<lparr>pu_diagnostics := record_failure (pu_diagnostics s) Http\<rparr>)))
         | Some body \<Rightarrow>
             let s = meanwhile (at_priming attempt)
                   (s\<lparr>pu_diagnostics := set_session_state (pu_diagnostics s) Priming\<rparr>)
             in (case prime_body packetizer_new body of
                   (Inl failure, packetizer, body) \<Rightarrow>
                     (Retry, drop_pool_lease pool_id lease (meanwhile (at_retry attempt)
                        (s\<lparr>pu_diagnostics := record_failure (pu_diagnostics s) failure\<rparr>)))
                 | (Inr primed, packetizer, body) \<Rightarrow>
                     attempt_primed endpoint_index pool_id lease generation target attempt primed
                       packetizer body s))"

definition run_attempt ::
    "PumpConfig \<Rightarrow> usize \<Rightarrow> string \<Rightarrow> u64 \<Rightarrow> u64 \<Rightarrow> usize \<Rightarrow> Attempt \<Rightarrow> PumpState \<Rightarrow>
     AttemptResult \<times> PumpState" where
  "run_attempt config previous_endpoint current_pool_id generation target number attempt s =
     (if \<not> has_viewers (pu_diagnostics s) then (GiveUp, s)
      else
        let (endpoint_index, diagnostics) =
              recovery_attempt (pu_diagnostics s) (length (hc_endpoints config)) previous_endpoint number;
            pool_id = hc_endpoints config ! endpoint_index;
            (candidate, providers) =
              acquire_recovery_lease (pu_providers s) (hc_allocation_source_id config)
                (hc_allocation_generation config) pool_id current_pool_id (at_dropped attempt);
            s = s\<lparr>pu_diagnostics := diagnostics, pu_providers := providers\<rparr>
        in (case candidate of
              Inl u \<Rightarrow> (Retry, meanwhile (at_retry attempt) s)
            | Inr lease \<Rightarrow> attempt_leased endpoint_index pool_id lease generation target attempt s))"

fun recovery_loop ::
    "PumpConfig \<Rightarrow> usize \<Rightarrow> string \<Rightarrow> u64 \<Rightarrow> u64 \<Rightarrow> usize \<Rightarrow> Attempt list \<Rightarrow> PumpState \<Rightarrow>
     RecoveredStream option \<times> PumpState" where
  "recovery_loop config previous_endpoint current_pool_id generation target number [] s = (None, s)"
| "recovery_loop config previous_endpoint current_pool_id generation target number (attempt # attempts) s =
     (case run_attempt config previous_endpoint current_pool_id generation target number attempt s of
        (Retry, s) \<Rightarrow>
          recovery_loop config previous_endpoint current_pool_id generation target
            (saturating_add_u64 number 1) attempts s
      | (GiveUp, s) \<Rightarrow> (None, s)
      | (Recovered stream, s) \<Rightarrow> (Some stream, s))"

definition recover_session ::
    "PumpConfig \<Rightarrow> usize \<Rightarrow> string \<Rightarrow> Attempt list \<Rightarrow> PumpState \<Rightarrow> RecoveredStream option \<times> PumpState" where
  "recover_session config previous_endpoint current_pool_id attempts s =
     (if rp_max_window (hc_recovery config) = 0 then (None, s)
      else
        let drain_snapshot = ring_snapshot (pu_ring s);
            generation = sn_generation drain_snapshot;
            target = sn_next_sequence drain_snapshot;
            (recovered, s) = recovery_loop config previous_endpoint current_pool_id generation target 0 attempts
              (s\<lparr>pu_keepalive := Some (generation, target, 0)\<rparr>)
        in (recovered, s\<lparr>pu_keepalive := None\<rparr>))"

section \<open>The pump\<close>

record PumpResources =
  pr_endpoint :: usize
  pr_pool_id :: string
  pr_lease :: u64

text \<open>
  The loop of \<open>pump_http_ts\<close>: the recoveries it makes are the lists of attempts; a recovery without
  attempts is one whose deadline passes at once.
\<close>

definition pump_stop_or_recover ::
    "SessionFailureKind \<Rightarrow> PumpState \<Rightarrow> bool \<times> PumpState" where
  "pump_stop_or_recover active_failure s =
     (let s = s\<lparr>pu_diagnostics := record_failure (pu_diagnostics s) active_failure\<rparr>
      in if is_stopping (pu_diagnostics s) then (False, s)
         else if \<not> has_viewers (pu_diagnostics s)
         then (False, s\<lparr>pu_diagnostics := set_session_state (pu_diagnostics s) Stopping,
                 pu_ring := snd (ring_close (pu_ring s) Shutdown)\<rparr>)
         else (True, s))"

definition pump_expired :: "PumpState \<Rightarrow> PumpState" where
  "pump_expired s =
     (let diagnostics = set_session_state (record_failure (pu_diagnostics s) RecoveryWindowExpired) Failed
      in s\<lparr>pu_diagnostics := diagnostics,
           pu_ring := snd (ring_close (pu_ring s) (RecoveryExpired (ds_reconnect_attempts diagnostics)))\<rparr>)"

text \<open>Returning from the pump drops its resources, the lease among them.\<close>

definition pump_return :: "PumpResources \<Rightarrow> PumpState \<Rightarrow> PumpState" where
  "pump_return resources s = drop_pool_lease (pr_pool_id resources) (Some (pr_lease resources)) s"

definition adopt_lease ::
    "PumpConfig \<Rightarrow> PumpResources \<Rightarrow> RecoveredStream \<Rightarrow> PumpState \<Rightarrow> PumpResources \<times> PumpState" where
  "adopt_lease config resources recovered s =
     (case rc_lease recovered of
        None \<Rightarrow> (resources\<lparr>pr_endpoint := rc_endpoint_index recovered\<rparr>, s)
      | Some lease \<Rightarrow>
          (\<lparr>pr_endpoint = rc_endpoint_index recovered,
            pr_pool_id = hc_endpoints config ! rc_endpoint_index recovered, pr_lease = lease\<rparr>,
           drop_pool_lease (pr_pool_id resources) (Some (pr_lease resources)) s))"

fun pump_loop ::
    "PumpConfig \<Rightarrow> PumpResources \<Rightarrow> SessionFailureKind \<Rightarrow> Attempt list list \<Rightarrow> PumpState \<Rightarrow> PumpState" where
  "pump_loop config resources active_failure [] s =
     (case pump_stop_or_recover active_failure s of
        (False, s) \<Rightarrow> pump_return resources s
      | (True, s) \<Rightarrow> pump_return resources (pump_expired s))"
| "pump_loop config resources active_failure (attempts # recoveries) s =
     (case pump_stop_or_recover active_failure s of
        (False, s) \<Rightarrow> pump_return resources s
      | (True, s) \<Rightarrow>
          (case recover_session config (pr_endpoint resources) (pr_pool_id resources) attempts s of
             (None, s) \<Rightarrow> pump_return resources (pump_expired s)
           | (Some recovered, s) \<Rightarrow>
               let (resources, s) = adopt_lease config resources recovered s;
                   (failure, s, packetizer, body) =
                     stream_until_failure s (rc_packetizer recovered) (rc_body recovered)
               in pump_loop config resources failure recoveries s))"

definition pump_http_ts ::
    "PumpConfig \<Rightarrow> PumpResources \<Rightarrow> Turn list \<Rightarrow> OtherTask list \<Rightarrow> instant \<times> instant \<Rightarrow> Attempt list list \<Rightarrow>
     PumpState \<Rightarrow> PumpState" where
  "pump_http_ts config resources body priming clock recoveries s =
     (let s = meanwhile priming (s\<lparr>pu_diagnostics := set_session_state (pu_diagnostics s) Priming\<rparr>);
          (failure, s) =
            (case prime_body packetizer_new body of
               (Inl failure, packetizer, body) \<Rightarrow> (failure, s)
             | (Inr packets, packetizer, body) \<Rightarrow>
                 (case push_packets (pu_ring s) (pu_diagnostics s) packets clock of
                    (Inl error, ring, diagnostics) \<Rightarrow>
                      (RingClosed, s\<lparr>pu_ring := ring, pu_diagnostics := diagnostics\<rparr>)
                  | (Inr u, ring, diagnostics) \<Rightarrow>
                      let (failure, s, packetizer, body) =
                            stream_until_failure
                              (s\<lparr>pu_ring := ring, pu_diagnostics := set_session_state diagnostics Streaming\<rparr>)
                              packetizer body
                      in (failure, s)))
      in pump_loop config resources failure recoveries s)"

text \<open>One turn of the task of \<open>monitor_process_input\<close>: \<open>None\<close> when it ends.\<close>

definition monitor_turn ::
    "RingInner \<Rightarrow> RingRead \<Rightarrow> u64 \<Rightarrow> DiagnosticsState \<Rightarrow> u64 option \<times> DiagnosticsState" where
  "monitor_turn ring event previous_first_sequence diagnostics =
     (case event of
        Packets generation first_sequence bs \<Rightarrow>
          let first = sn_first_sequence (ring_snapshot ring)
          in (Some first, record_write (set_session_state diagnostics Streaming)
                (saturating_sub first previous_first_sequence))
      | Lagged generation skipped resume \<Rightarrow> (Some previous_first_sequence, diagnostics)
      | GenerationBoundary previous generation \<Rightarrow> (Some previous_first_sequence, diagnostics)
      | ReadClosed generation reason \<Rightarrow>
          (case reason of
             Shutdown \<Rightarrow> (None, diagnostics)
           | EndOfStream \<Rightarrow>
               (None, set_session_state (record_failure diagnostics UpstreamEnded) Failed)
           | _ \<Rightarrow> (None, set_session_state (record_failure diagnostics Http) Failed)))"

section \<open>Viewers\<close>

definition CATCH_UP_QUARTERS :: u64 where
  "CATCH_UP_QUARTERS = 3"

definition near_overrun :: "RingInner \<Rightarrow> u64 \<Rightarrow> u64 \<Rightarrow> bool" where
  "near_overrun ring generation sequence =
     (let snapshot = ring_snapshot ring in
      if sn_generation snapshot \<noteq> generation then False
      else let behind = saturating_sub (sn_next_sequence snapshot) sequence;
               capacity = unwrap_or (try_u64 (sn_capacity_packets snapshot)) u64_max
           in saturating_mul_u64 behind 4 \<ge> saturating_mul_u64 capacity CATCH_UP_QUARTERS)"

text \<open>A viewer: its cursor, its registration and its pacer, present when the viewer is delayed.\<close>

record Viewer =
  vw_cursor :: RingCursor
  vw_id :: u64
  vw_pacer :: "Pacer option"

definition viewer_new ::
    "RingInner \<Rightarrow> DiagnosticsState \<Rightarrow> duration \<Rightarrow> instant \<Rightarrow> Viewer \<times> DiagnosticsState" where
  "viewer_new ring diagnostics viewer_delay now =
     (let cursor = (if viewer_delay = 0 then ring_subscribe ring
                    else subscribe_with_delay ring viewer_delay now);
          (viewer_id, diagnostics) =
            register_viewer diagnostics (cu_generation cursor) (cu_next_sequence cursor)
      in (\<lparr>vw_cursor = cursor, vw_id = viewer_id,
           vw_pacer = (if viewer_delay = 0 then None else Some Pacer_new)\<rparr>, diagnostics))"

datatype ViewerStreamError =
    StreamRing RingReadError
  | StreamLagged u64
  | StreamGenerationChanged u64 u64
  | StreamUpstream string
  | StreamRecoveryExpired u64

datatype ViewerOutput =
    Yield duration bytes
  | Await
  | Continue
  | EndOfBody
  | StreamError ViewerStreamError

text \<open>
  One turn of the loop of \<open>into_byte_stream\<close> after the cursor returned an event; the viewer's cursor
  is the one after the read.  A batch is yielded after it was held for the given time.
\<close>

definition viewer_turn ::
    "RingInner \<Rightarrow> DiagnosticsState \<Rightarrow> Viewer \<Rightarrow> RingRead \<Rightarrow> instant \<Rightarrow>
     ViewerOutput \<times> Viewer \<times> DiagnosticsState" where
  "viewer_turn ring diagnostics viewer event now =
     (let reset = viewer\<lparr>vw_pacer := map_option pa_reset (vw_pacer viewer)\<rparr>;
          cursor = vw_cursor viewer
      in case event of
           Packets generation first_sequence bs \<Rightarrow>
             let (hold, viewer) =
                   (case vw_pacer viewer of
                      None \<Rightarrow> (0, viewer)
                    | Some pacer \<Rightarrow>
                        if near_overrun ring generation first_sequence then (0, reset)
                        else let (pacer, hold) = pa_hold pacer
                                   \<lparr>bp_sequence = first_sequence,
                                    bp_ticks = ring_ticks_at ring generation first_sequence,
                                    bp_byte_rate_bps = byte_rate_bps (ri_state ring) now\<rparr> now
                             in (hold, viewer\<lparr>vw_pacer := Some pacer\<rparr>))
             in (Yield hold bs, viewer,
                 update_viewer diagnostics (vw_id viewer) generation (cu_next_sequence cursor))
         | Lagged generation skipped resume \<Rightarrow>
             (Continue, reset,
              update_viewer (record_lag diagnostics) (vw_id viewer) (cu_generation cursor)
                (cu_next_sequence cursor))
         | GenerationBoundary previous generation \<Rightarrow>
             (Continue, reset,
              update_viewer diagnostics (vw_id viewer) generation (cu_next_sequence cursor))
         | ReadClosed generation reason \<Rightarrow>
             (case reason of
                EndOfStream \<Rightarrow> (EndOfBody, viewer, diagnostics)
              | Shutdown \<Rightarrow> (EndOfBody, viewer, diagnostics)
              | UpstreamError message \<Rightarrow> (StreamError (StreamUpstream message), viewer, diagnostics)
              | RecoveryExpired attempts \<Rightarrow>
                  (StreamError (StreamRecoveryExpired attempts), viewer, diagnostics)))"

text \<open>
  The read at the head of the loop: a paced viewer that finds nothing resets its pacer before it
  waits for the ring.  \<open>viewer_step\<close> is the whole turn; \<open>later\<close> is the ring when the event is handled.
\<close>

definition viewer_poll :: "RingInner \<Rightarrow> Viewer \<Rightarrow> usize \<Rightarrow> (RingReadError + RingRead option) \<times> Viewer" where
  "viewer_poll ring viewer max_packets =
     (case try_next ring (vw_cursor viewer) max_packets of
        Inl error \<Rightarrow> (Inl error, viewer)
      | Inr (cursor, Some event) \<Rightarrow> (Inr (Some event), viewer\<lparr>vw_cursor := cursor\<rparr>)
      | Inr (cursor, None) \<Rightarrow>
          (Inr None, viewer\<lparr>vw_cursor := cursor, vw_pacer := map_option pa_reset (vw_pacer viewer)\<rparr>))"

definition viewer_step ::
    "RingInner \<Rightarrow> RingInner \<Rightarrow> DiagnosticsState \<Rightarrow> Viewer \<Rightarrow> usize \<Rightarrow> instant \<Rightarrow>
     ViewerOutput \<times> Viewer \<times> DiagnosticsState" where
  "viewer_step ring later diagnostics viewer max_packets now =
     (case viewer_poll ring viewer max_packets of
        (Inl error, viewer) \<Rightarrow> (StreamError (StreamRing error), viewer, diagnostics)
      | (Inr None, viewer) \<Rightarrow> (Await, viewer, diagnostics)
      | (Inr (Some event), viewer) \<Rightarrow> viewer_turn later diagnostics viewer event now)"

record ViewerStartupStatus =
  vs_buffered :: bool
  vs_lead :: "duration option"
  vs_closed :: bool

definition startup_status :: "RingInner \<Rightarrow> Viewer \<Rightarrow> instant \<Rightarrow> ViewerStartupStatus" where
  "startup_status ring viewer now =
     (let snapshot = ring_snapshot ring;
          generation = cu_generation (vw_cursor viewer);
          position = cu_next_sequence (vw_cursor viewer)
      in \<lparr>vs_buffered = (sn_generation snapshot \<noteq> generation \<or> sn_next_sequence snapshot > position),
          vs_lead = map_option (\<lambda>millis. millis * 1000000) (lead_millis ring generation position now),
          vs_closed = (sn_closed snapshot \<noteq> None)\<rparr>)"

definition session_snapshot ::
    "RingInner \<Rightarrow> SessionDiagnostics \<Rightarrow> instant \<Rightarrow> HttpTsSessionSnapshot" where
  "session_snapshot ring diagnostics now =
     (diagnostics_snapshot diagnostics (ring_snapshot ring))
       \<lparr>ss_viewer_lead_millis :=
          List.map_filter (\<lambda>(generation, sequence). lead_millis ring generation sequence now)
            (viewer_positions (sd_inner diagnostics)),
        ss_rates := ring_rates ring\<rparr>"

section \<open>Packetizer properties\<close>

lemma MPEG_TS_PACKET_SIZE_nonzero [simp]: "MPEG_TS_PACKET_SIZE \<noteq> 0"
  by (simp add: MPEG_TS_PACKET_SIZE_def)

text \<open>The whole packets of a byte sequence and the bytes after them.\<close>

definition aligned :: "bytes \<Rightarrow> bytes" where
  "aligned bs = take (length bs div MPEG_TS_PACKET_SIZE * MPEG_TS_PACKET_SIZE) bs"

definition leftover :: "bytes \<Rightarrow> bytes" where
  "leftover bs = drop (length bs div MPEG_TS_PACKET_SIZE * MPEG_TS_PACKET_SIZE) bs"

definition synced :: "bytes \<Rightarrow> bool" where
  "synced bs \<longleftrightarrow> (\<forall>p \<in> set (chunks_exact MPEG_TS_PACKET_SIZE bs). p ! 0 = 0x47)"

lemma aligned_leftover: "aligned bs @ leftover bs = bs"
  by (simp add: aligned_def leftover_def)

lemma length_aligned [simp]: "length (aligned bs) mod MPEG_TS_PACKET_SIZE = 0"
  by (simp add: aligned_def min_absorb2)

lemma packets_aligned_append:
  assumes "length xs mod MPEG_TS_PACKET_SIZE = 0"
  shows "aligned (xs @ ys) = xs @ aligned ys" "leftover (xs @ ys) = leftover ys"
    "synced (xs @ ys) \<longleftrightarrow> synced xs \<and> synced ys"
proof -
  obtain k where k: "length xs = k * MPEG_TS_PACKET_SIZE"
    using assms by (metis div_mod_decomp add_0_right)
  then have d: "length (xs @ ys) div MPEG_TS_PACKET_SIZE * MPEG_TS_PACKET_SIZE =
      length xs + length ys div MPEG_TS_PACKET_SIZE * MPEG_TS_PACKET_SIZE"
    by (simp add: distrib_right)
  show "aligned (xs @ ys) = xs @ aligned ys" "leftover (xs @ ys) = leftover ys"
    by (simp_all only: aligned_def leftover_def d) simp_all
  show "synced (xs @ ys) \<longleftrightarrow> synced xs \<and> synced ys"
    using assms by (auto simp: synced_def chunks_exact_append_aligned)
qed

lemma chunks_aligned [simp]: "chunks_exact MPEG_TS_PACKET_SIZE (aligned bs) = chunks_exact MPEG_TS_PACKET_SIZE bs"
proof -
  have "length (leftover bs) < MPEG_TS_PACKET_SIZE"
    by (simp add: leftover_def minus_div_mult_eq_mod)
  then have "chunks_exact MPEG_TS_PACKET_SIZE (aligned bs @ leftover bs) = chunks_exact MPEG_TS_PACKET_SIZE (aligned bs)"
    by (subst chunks_exact_append_aligned) simp_all
  then show ?thesis by (simp add: aligned_leftover)
qed

lemma synced_aligned [simp]: "synced (aligned bs) \<longleftrightarrow> synced bs"
  by (simp add: synced_def)

text \<open>One call of the packetizer in terms of the bytes that are pending.\<close>

lemma packetizer_push_spec:
  "packetizer_push pk c =
     (let bs = pk_pending pk @ c in
      if synced bs then (Inr (aligned bs), \<lparr>pk_pending = leftover bs\<rparr>)
      else (case the (first_bad_sync 0 (chunks_exact MPEG_TS_PACKET_SIZE bs)) of
              (i, b) \<Rightarrow> Inl (PacketizerError.InvalidSyncByte i b), \<lparr>pk_pending = bs\<rparr>))"
proof -
  let ?bs = "pk_pending pk @ c"
  have none: "synced ?bs \<longleftrightarrow> first_bad_sync 0 (chunks_exact MPEG_TS_PACKET_SIZE ?bs) = None"
    by (simp add: synced_def first_bad_sync_None)
  show ?thesis
  proof (cases "length ?bs div MPEG_TS_PACKET_SIZE * MPEG_TS_PACKET_SIZE = 0")
    case True
    then have "length ?bs div MPEG_TS_PACKET_SIZE = 0" using MPEG_TS_PACKET_SIZE_pos by simp
    then have "chunks_exact MPEG_TS_PACKET_SIZE ?bs = []" by (simp add: length_chunks_exact flip: length_0_conv)
    moreover have "aligned ?bs = []" "leftover ?bs = ?bs"
      using True by (simp_all only: aligned_def leftover_def take_0 drop_0)
    ultimately show ?thesis using True unfolding packetizer_push_def Let_def by (simp only: synced_def) simp
  next
    case False
    then show ?thesis unfolding packetizer_push_def Let_def aligned_def [symmetric] leftover_def [symmetric]
      by (simp add: none split: option.splits)
  qed
qed

text \<open>A sequence of calls, with the packets of all calls.\<close>

fun packetizer_run :: "MpegTsPacketizer \<Rightarrow> bytes list \<Rightarrow> (PacketizerError + bytes) \<times> MpegTsPacketizer" where
  "packetizer_run pk [] = (Inr [], pk)"
| "packetizer_run pk (c # cs) =
     (case packetizer_push pk c of
        (Inl e, pk) \<Rightarrow> (Inl e, pk)
      | (Inr out, pk) \<Rightarrow> map_prod (map_sum (\<lambda>e. e) (\<lambda>outs. out @ outs)) (\<lambda>pk. pk) (packetizer_run pk cs))"

lemma packets_cut:
  "synced (bs @ cs) \<longleftrightarrow> synced bs \<and> synced (leftover bs @ cs)"
  "aligned (bs @ cs) = aligned bs @ aligned (leftover bs @ cs)"
  "leftover (bs @ cs) = leftover (leftover bs @ cs)"
proof -
  have cut: "bs @ cs = aligned bs @ (leftover bs @ cs)"
    using aligned_leftover [of bs] by (metis append_assoc)
  note app = packets_aligned_append [of "aligned bs" "leftover bs @ cs", OF length_aligned]
  show "synced (bs @ cs) \<longleftrightarrow> synced bs \<and> synced (leftover bs @ cs)"
    by (subst cut) (simp add: app(3))
  show "aligned (bs @ cs) = aligned bs @ aligned (leftover bs @ cs)" by (subst cut) (rule app(1))
  show "leftover (bs @ cs) = leftover (leftover bs @ cs)" by (subst cut) (rule app(2))
qed

lemma length_leftover: "length (leftover bs) < MPEG_TS_PACKET_SIZE"
  by (simp add: leftover_def minus_div_mult_eq_mod)

lemma packets_short [simp]:
  assumes "length bs < MPEG_TS_PACKET_SIZE"
  shows "aligned bs = []" "leftover bs = bs" "synced bs"
  using assms by (simp_all add: aligned_def leftover_def synced_def)

lemma packetizer_run_synced:
  "synced (pk_pending pk @ concat cs) \<Longrightarrow> length (pk_pending pk) < MPEG_TS_PACKET_SIZE \<Longrightarrow>
   packetizer_run pk cs = (Inr (aligned (pk_pending pk @ concat cs)),
     \<lparr>pk_pending = leftover (pk_pending pk @ concat cs)\<rparr>)"
proof (induction cs arbitrary: pk)
  case (Cons c cs)
  then show ?case
    using packets_cut [of "pk_pending pk @ c" "concat cs"]
    by (simp add: packetizer_push_spec Let_def length_leftover)
qed simp

lemma packetizer_run_unsynced:
  "\<not> synced (pk_pending pk @ concat cs) \<Longrightarrow> length (pk_pending pk) < MPEG_TS_PACKET_SIZE \<Longrightarrow>
   \<exists>i b pk'. packetizer_run pk cs = (Inl (PacketizerError.InvalidSyncByte i b), pk') \<and> b \<noteq> 0x47"
proof (induction cs arbitrary: pk)
  case (Cons c cs)
  show ?case
  proof (cases "synced (pk_pending pk @ c)")
    case True
    with Cons.prems(1) packets_cut(1) [of "pk_pending pk @ c" "concat cs"]
    have "\<not> synced (leftover (pk_pending pk @ c) @ concat cs)" by simp
    with Cons.IH [of "\<lparr>pk_pending = leftover (pk_pending pk @ c)\<rparr>"] True show ?thesis
      by (auto simp: packetizer_push_spec Let_def length_leftover)
  next
    case False
    then obtain i b where f: "first_bad_sync 0 (chunks_exact MPEG_TS_PACKET_SIZE (pk_pending pk @ c)) = Some (i, b)"
      unfolding synced_def by (metis first_bad_sync_None not_None_eq surj_pair)
    have "b \<noteq> 0x47" using first_bad_sync_Some [OF f] by blast
    with False f show ?thesis by (simp add: packetizer_push_spec Let_def)
  qed
qed simp

section \<open>Priming properties\<close>

lemma tr_observe_candidate:
  assumes inv: "tr_inv q t" and b: "snd (tr_observe t packet q) = Some b"
  shows "tr_candidate_start t = Some b"
proof -
  obtain h where h: "packet_header packet = Some h"
    using b by (auto simp: tr_observe_def split: option.splits)
  have b': "snd (tr_observe_pmt (tr_observe_pat t h q) h q) = Some b"
    using b h by (simp add: tr_observe_def)
  have "tr_observe_pat t h q = t"
    using tr_observe_pmt_boundary(3) [OF tr_observe_pat_inv [OF inv] b'] by (simp add: tr_observe_pat_def)
  with tr_observe_pmt_confirmed [OF b'] show ?thesis by (auto simp: tr_candidate_start_def)
qed

definition pat_starts_in :: "bytes list \<Rightarrow> PatPmtTracker \<Rightarrow> bool" where
  "pat_starts_in seen tracker \<longleftrightarrow> tr_inv (length seen) tracker \<and>
     (\<forall>s \<in> tr_starts tracker. is_pat_start (seen ! s))"

text \<open>The state of priming after the packets \<open>seen\<close>.\<close>

definition prime_inv :: "bytes list \<Rightarrow> PatPmtTracker \<Rightarrow> bytes \<Rightarrow> u64 \<Rightarrow> u64 \<Rightarrow> bool" where
  "prime_inv seen tracker retained first_sequence next_sequence \<longleftrightarrow>
     (\<forall>p \<in> set seen. length p = MPEG_TS_PACKET_SIZE) \<and> next_sequence = length seen \<and>
     first_sequence = length seen - MAX_PRIMING_PACKETS \<and>
     retained = concat (drop first_sequence seen) \<and> pat_starts_in seen tracker"

lemma pat_starts_reset: "pat_starts_in seen (tr_reset t)"
  by (simp add: pat_starts_in_def tr_reset_def)

lemma prime_evict_spec:
  assumes inv: "prime_inv seen t r f q" and bound: "length seen < u64_max"
  obtains t' where "prime_evict t r f = (concat (drop (Suc (length seen) - MAX_PRIMING_PACKETS) seen),
      Suc (length seen) - MAX_PRIMING_PACKETS, t')"
    "pat_starts_in seen t'"
    "\<And>c. tr_candidate_start t' = Some c \<Longrightarrow> Suc (length seen) - MAX_PRIMING_PACKETS \<le> c"
proof -
  have len: "length r = min (length seen) MAX_PRIMING_PACKETS * MPEG_TS_PACKET_SIZE"
  proof -
    have "length r = (length seen - f) * MPEG_TS_PACKET_SIZE"
      using inv length_concat_const [of "drop f seen" MPEG_TS_PACKET_SIZE]
      by (auto simp: prime_inv_def dest: in_set_dropD)
    moreover have "length seen - f = min (length seen) MAX_PRIMING_PACKETS"
      using inv by (simp add: prime_inv_def)
    ultimately show ?thesis by simp
  qed
  show ?thesis
  proof (cases "length seen < MAX_PRIMING_PACKETS")
    case True
    then have "prime_evict t r f = (r, f, t)" using len by (simp add: prime_evict_def)
    moreover have "f = 0" "r = concat seen" using True inv by (simp_all add: prime_inv_def)
    ultimately show ?thesis using True inv that [of t] by (simp add: prime_inv_def)
  next
    case False
    define t' where "t' = (case tr_candidate_start t of
        Some c \<Rightarrow> if c < Suc f then tr_reset t else t | None \<Rightarrow> t)"
    have full: "length r = MAX_PRIMING_PACKETS * MPEG_TS_PACKET_SIZE"
      using len False by (simp add: min_absorb2)
    have f: "Suc f = Suc (length seen) - MAX_PRIMING_PACKETS" "saturating_add_u64 f 1 = Suc f"
      using False inv bound by (auto simp: prime_inv_def saturating_add_u64_def)
    have "drop MPEG_TS_PACKET_SIZE r = concat (drop (Suc f) seen)"
      using inv drop_concat [of "drop f seen" MPEG_TS_PACKET_SIZE 1]
      by (auto simp: prime_inv_def dest: in_set_dropD)
    then have "prime_evict t r f = (concat (drop (Suc f) seen), Suc f, t')"
      using full f(2) by (simp add: prime_evict_def t'_def Let_def)
    moreover have "pat_starts_in seen t'"
      using inv pat_starts_reset by (auto simp: t'_def prime_inv_def split: option.split)
    moreover have "Suc f \<le> c" if "tr_candidate_start t' = Some c" for c
      using that by (auto simp: t'_def tr_reset_def split: option.splits if_splits)
    ultimately show ?thesis using that unfolding f(1) by blast
  qed
qed

lemma pat_starts_observe:
  assumes "pat_starts_in seen t"
  shows "pat_starts_in (seen @ [p]) (fst (tr_observe t p (length seen)))"
proof -
  have inv: "tr_inv (length seen) t" using assms by (simp add: pat_starts_in_def)
  have "is_pat_start ((seen @ [p]) ! s)"
    if s: "s \<in> tr_starts (fst (tr_observe t p (length seen)))" for s
  proof -
    consider "s \<in> tr_starts t" | "s = length seen" "is_pat_start p"
      using s tr_observe_starts [OF inv, of p] by (auto split: if_splits)
    then show ?thesis
    proof cases
      case 1
      with tr_starts_less [OF inv] assms show ?thesis by (simp add: pat_starts_in_def nth_append)
    qed simp
  qed
  with tr_observe_inv [OF inv, of p] show ?thesis by (simp add: pat_starts_in_def)
qed

lemma prime_packets_spec:
  assumes "prime_inv seen t r f q" "\<And>p. p \<in> set (pre @ rest) \<Longrightarrow> length p = MPEG_TS_PACKET_SIZE"
    and "length seen + length rest \<le> u64_max"
  shows "case prime_packets (concat (pre @ rest)) (length pre) rest t r f q of
      PrimeDone result \<Rightarrow> (\<exists>b < length (seen @ rest). is_pat_start ((seen @ rest) ! b) \<and>
        result = Inr (concat (drop b (seen @ rest))))
    | PrimeMore t' r' f' q' \<Rightarrow> prime_inv (seen @ rest) t' r' f' q'"
  using assms
proof (induction rest arbitrary: seen t r f q pre)
  case Nil
  then show ?case by simp
next
  case (Cons p rest)
  define f' where "f' = Suc (length seen) - MAX_PRIMING_PACKETS"
  obtain t1 where ev: "prime_evict t r f = (concat (drop f' seen), f', t1)" and t1: "pat_starts_in seen t1"
      "\<And>c. tr_candidate_start t1 = Some c \<Longrightarrow> f' \<le> c"
    using prime_evict_spec [OF Cons.prems(1)] Cons.prems(3) unfolding f'_def by auto
  obtain t2 boundary where obs: "tr_observe t1 p (length seen) = (t2, boundary)" by fastforce
  have q: "q = length seen" and f'_le: "f' \<le> length seen" and sizes: "\<forall>p \<in> set seen. length p = MPEG_TS_PACKET_SIZE"
    using Cons.prems(1) by (simp_all add: prime_inv_def f'_def MAX_PRIMING_PACKETS_def)
  show ?case
  proof (cases boundary)
    case None
    have "prime_inv (seen @ [p]) t2 (concat (drop f' seen) @ p) f' (Suc (length seen))"
      using pat_starts_observe [OF t1(1), of p] obs f'_le sizes Cons.prems(2) [of p]
      by (simp add: prime_inv_def f'_def)
    note IH = Cons.IH [OF this, of "pre @ [p]", unfolded append_assoc append_Cons append_Nil]
    have "prime_packets (concat (pre @ p # rest)) (length pre) (p # rest) t r f q =
        prime_packets (concat (pre @ p # rest)) (length (pre @ [p])) rest t2 (concat (drop f' seen) @ p) f' (Suc (length seen))"
      using Cons.prems(3) by (simp add: ev obs None q saturating_add_u64_def)
    then show ?thesis
      using IH Cons.prems(2,3) by (simp only:) simp
  next
    case (Some b)
    have inv: "tr_inv (length seen) t1" using t1(1) by (simp add: pat_starts_in_def)
    have cand: "tr_candidate_start t1 = Some b" using tr_observe_candidate [OF inv, of p b] obs Some by simp
    then have fb: "f' \<le> b" and start: "b \<in> tr_starts t1" using t1(2) by (simp_all add: tr_starts_def)
    then have b: "b < length seen" "is_pat_start (seen ! b)"
      using tr_starts_less [OF inv start] t1(1) by (simp_all add: pat_starts_in_def)
    have rest: "drop ((length pre + 1) * MPEG_TS_PACKET_SIZE) (concat (pre @ p # rest)) = concat rest"
      using drop_concat [of "pre @ p # rest" MPEG_TS_PACKET_SIZE "length pre + 1"] Cons.prems(2) by simp
    have off: "(b - f') * MPEG_TS_PACKET_SIZE < length (concat (drop f' seen) @ p)"
    proof -
      have "length (concat (drop f' seen)) = (length seen - f') * MPEG_TS_PACKET_SIZE"
        using sizes length_concat_const [of "drop f' seen" MPEG_TS_PACKET_SIZE] by (auto dest: in_set_dropD)
      moreover have "b - f' < length seen - f'" using b fb by simp
      ultimately show ?thesis by (simp add: trans_less_add1)
    qed
    have "length seen - f' \<le> MAX_PRIMING_PACKETS" by (simp add: f'_def)
    then have "b - f' \<le> 16384" using b by (simp add: MAX_PRIMING_PACKETS_def)
    then have small: "checked_mul_u64 (b - f') MPEG_TS_PACKET_SIZE = Some ((b - f') * MPEG_TS_PACKET_SIZE)"
      by (simp add: checked_mul_u64_def MPEG_TS_PACKET_SIZE_def)
    have "length c = MPEG_TS_PACKET_SIZE" if "c \<in> set (drop f' (seen @ p # rest))" for c
      using in_set_dropD [OF that] sizes Cons.prems(2) [of c] by auto
    then have "drop ((b - f') * MPEG_TS_PACKET_SIZE) (concat (drop f' (seen @ p # rest))) =
        concat (drop (b - f') (drop f' (seen @ p # rest)))" by (rule drop_concat)
    also have "drop (b - f') (drop f' (seen @ p # rest)) = drop b (seen @ p # rest)"
      using fb by (simp only: drop_drop le_add_diff_inverse2)
    finally have "drop ((b - f') * MPEG_TS_PACKET_SIZE) (concat (drop f' (seen @ p # rest))) =
        concat (drop b (seen @ p # rest))" .
    moreover have "concat (drop f' (seen @ p # rest)) = (concat (drop f' seen) @ p) @ concat rest"
      using f'_le by simp
    ultimately have out: "drop ((b - f') * MPEG_TS_PACKET_SIZE) ((concat (drop f' seen) @ p) @
        drop ((length pre + 1) * MPEG_TS_PACKET_SIZE) (concat (pre @ p # rest))) = concat (drop b (seen @ p # rest))"
      by (simp only: rest)
    have "prime_packets (concat (pre @ p # rest)) (length pre) (p # rest) t r f q =
        PrimeDone (Inr (concat (drop b (seen @ p # rest))))"
      unfolding prime_packets.simps ev obs Some q Let_def prod.case option.case small out
      using fb off by simp
    moreover have "b < length (seen @ p # rest)" "is_pat_start ((seen @ p # rest) ! b)"
      using b by (simp_all add: nth_append)
    ultimately show ?thesis by auto
  qed
qed

text \<open>The bytes of the chunks of a body.\<close>

fun body_bytes :: "(BodyEvent \<times> 't) list \<Rightarrow> bytes" where
  "body_bytes [] = []"
| "body_bytes ((Chunk c, t) # body) = c @ body_bytes body"
| "body_bytes ((BodyError, t) # body) = body_bytes body"
| "body_bytes ((BodyTimeout, t) # body) = body_bytes body"

lemma body_bytes_append [simp]: "body_bytes (xs @ ys) = body_bytes xs @ body_bytes ys"
  by (induction xs rule: body_bytes.induct) simp_all

abbreviation whole_packets :: "bytes \<Rightarrow> bytes list" where
  "whole_packets bs \<equiv> chunks_exact MPEG_TS_PACKET_SIZE bs"

text \<open>
  What priming promises: \<open>seen\<close> are the packets before the bytes that are pending.
\<close>

definition primed_ok ::
    "bytes list \<Rightarrow> bytes \<Rightarrow> (BodyEvent \<times> 't) list \<Rightarrow>
     (SessionFailureKind + bytes) \<times> MpegTsPacketizer \<times> (BodyEvent \<times> 't) list \<Rightarrow> bool" where
  "primed_ok seen pending body outcome \<longleftrightarrow>
     (case outcome of
        (Inl failure, pk, rest) \<Rightarrow> failure \<in> {UpstreamEnded, ReadTimeout, UpstreamRead, InvalidSync}
      | (Inr out, pk, rest) \<Rightarrow>
          (\<exists>used b. body = used @ rest \<and> b < length (seen @ whole_packets (pending @ body_bytes used)) \<and>
             is_pat_start ((seen @ whole_packets (pending @ body_bytes used)) ! b) \<and>
             out = concat (drop b (seen @ whole_packets (pending @ body_bytes used))) \<and>
             synced (pending @ body_bytes used) \<and>
             pk = \<lparr>pk_pending = leftover (pending @ body_bytes used)\<rparr>))"

lemma whole_packets_cut: "whole_packets (bs @ cs) = whole_packets bs @ whole_packets (leftover bs @ cs)"
  using packets_cut(2) [of bs cs] aligned_leftover [of "bs"]
  by (metis chunks_aligned chunks_exact_append_aligned append_assoc length_aligned MPEG_TS_PACKET_SIZE_pos)

lemma primed_ok_step:
  assumes "primed_ok (seen @ whole_packets (pending @ chunk)) (leftover (pending @ chunk)) body outcome"
    and "synced (pending @ chunk)"
  shows "primed_ok seen pending ((Chunk chunk, tm) # body) outcome"
proof (cases outcome)
  case (fields result pk rest)
  show ?thesis
  proof (cases result)
    case (Inl failure)
    with fields assms(1) show ?thesis by (simp add: primed_ok_def)
  next
    case (Inr out)
    obtain used b where used: "body = used @ rest"
      and rest: "b < length (seen @ whole_packets (pending @ chunk) @ whole_packets (leftover (pending @ chunk) @ body_bytes used))"
        "is_pat_start ((seen @ whole_packets (pending @ chunk) @ whole_packets (leftover (pending @ chunk) @ body_bytes used)) ! b)"
        "out = concat (drop b (seen @ whole_packets (pending @ chunk) @ whole_packets (leftover (pending @ chunk) @ body_bytes used)))"
        "synced (leftover (pending @ chunk) @ body_bytes used)"
        "pk = \<lparr>pk_pending = leftover (leftover (pending @ chunk) @ body_bytes used)\<rparr>"
      using assms(1) fields Inr unfolding primed_ok_def by (simp only: prod.case sum.case append_assoc) blast
    have bytes: "pending @ body_bytes ((Chunk chunk, tm) # used) = (pending @ chunk) @ body_bytes used" by simp
    from rest have "b < length (seen @ whole_packets ((pending @ chunk) @ body_bytes used))"
        "is_pat_start ((seen @ whole_packets ((pending @ chunk) @ body_bytes used)) ! b)"
        "out = concat (drop b (seen @ whole_packets ((pending @ chunk) @ body_bytes used)))"
        "synced ((pending @ chunk) @ body_bytes used)" "pk = \<lparr>pk_pending = leftover ((pending @ chunk) @ body_bytes used)\<rparr>"
      using assms(2) unfolding whole_packets_cut [of "pending @ chunk" "body_bytes used"]
        packets_cut [of "pending @ chunk" "body_bytes used"] by blast+
    with used show ?thesis unfolding primed_ok_def fields Inr prod.case sum.case
      by (intro exI [of _ "(Chunk chunk, tm) # used"] exI [of _ b]) (simp only: bytes append_Cons simp_thms)
  qed
qed

lemma prime_loop_spec:
  assumes "prime_inv seen t r f q" "length (pk_pending pk) < MPEG_TS_PACKET_SIZE"
    and "length (seen @ whole_packets (pk_pending pk @ body_bytes body)) \<le> u64_max"
  shows "primed_ok seen (pk_pending pk) body (prime_loop pk t r f q body)"
  using assms
proof (induction pk t r f q body arbitrary: seen rule: prime_loop.induct)
  case (4 pk t r f q chunk tm body)
  let ?bs = "pk_pending pk @ chunk"
  note cut = packets_cut [of ?bs] and wcut = whole_packets_cut [of ?bs]
  show ?case
  proof (cases "synced ?bs")
    case False
    then show ?thesis
      by (simp add: primed_ok_def packetizer_push_spec packetizer_failure_def Let_def split: prod.split)
  next
    case True
    let ?pk = "\<lparr>pk_pending = leftover ?bs\<rparr>"
    have push: "packetizer_push pk chunk = (Inr (aligned ?bs), ?pk)"
      using True by (simp add: packetizer_push_spec Let_def)
    have "concat (whole_packets ?bs) = aligned ?bs" by (simp add: aligned_def concat_chunks_exact)
    then have spec: "case prime_packets (aligned ?bs) 0 (whole_packets ?bs) t r f q of
        PrimeDone result \<Rightarrow> (\<exists>b < length (seen @ whole_packets ?bs). is_pat_start ((seen @ whole_packets ?bs) ! b) \<and>
          result = Inr (concat (drop b (seen @ whole_packets ?bs))))
      | PrimeMore t' r' f' q' \<Rightarrow> prime_inv (seen @ whole_packets ?bs) t' r' f' q'"
      using prime_packets_spec [OF 4(2), of "[]" "whole_packets ?bs"] 4(4) wcut [of "body_bytes body"]
      by (simp add: chunks_exact_lengths)
    show ?thesis
    proof (cases "prime_packets (aligned ?bs) 0 (whole_packets ?bs) t r f q")
      case (PrimeDone result)
      with spec push True show ?thesis
        by (auto simp: primed_ok_def intro!: exI [of _ "[(Chunk chunk, tm)]"])
    next
      case (PrimeMore t' r' f' q')
      have more: "primed_ok (seen @ whole_packets ?bs) (leftover ?bs) body (prime_loop ?pk t' r' f' q' body)"
        using 4(1) [OF push [symmetric] refl, of t' r' f' q' "seen @ whole_packets ?bs"] PrimeMore spec 4(4)
          wcut [of "body_bytes body"] by (simp add: length_leftover)
      have "prime_loop pk t r f q ((Chunk chunk, tm) # body) = prime_loop ?pk t' r' f' q' body"
        using push PrimeMore by simp
      moreover have "primed_ok seen (pk_pending pk) ((Chunk chunk, tm) # body) (prime_loop ?pk t' r' f' q' body)"
        using more True by (rule primed_ok_step)
      ultimately show ?thesis by simp
    qed
  qed
qed (simp_all add: primed_ok_def)

lemma prime_body_spec:
  assumes "length (body_bytes body) div MPEG_TS_PACKET_SIZE < u64_bound"
    and "prime_body packetizer_new body = (result, pk, rest)"
  obtains (failed) failure where "result = Inl failure"
      "failure \<in> {UpstreamEnded, ReadTimeout, UpstreamRead, InvalidSync}"
    | (primed) out used b where "result = Inr out" "body = used @ rest"
        "out = drop (b * MPEG_TS_PACKET_SIZE) (aligned (body_bytes used))"
        "b * MPEG_TS_PACKET_SIZE \<le> length (aligned (body_bytes used))"
        "is_pat_start (take MPEG_TS_PACKET_SIZE out)" "length out mod MPEG_TS_PACKET_SIZE = 0"
        "synced (body_bytes used)" "pk = \<lparr>pk_pending = leftover (body_bytes used)\<rparr>"
proof -
  have "prime_inv [] PatPmtTracker_default [] 0 0" by (simp add: prime_inv_def pat_starts_in_def)
  then have ok: "primed_ok [] [] body (result, pk, rest)"
    using prime_loop_spec [of "[]" PatPmtTracker_default "[]" 0 0 packetizer_new body] assms
    by (simp add: prime_body_def packetizer_new_def length_chunks_exact)
  show ?thesis
  proof (cases result)
    case (Inl failure)
    with ok failed show ?thesis by (simp add: primed_ok_def)
  next
    case (Inr out)
    obtain used b where u: "body = used @ rest" "b < length (whole_packets (body_bytes used))"
        "is_pat_start (whole_packets (body_bytes used) ! b)" "out = concat (drop b (whole_packets (body_bytes used)))"
        "synced (body_bytes used)" "pk = \<lparr>pk_pending = leftover (body_bytes used)\<rparr>"
      using ok Inr unfolding primed_ok_def by auto
    let ?ps = "whole_packets (body_bytes used)"
    have sizes: "\<And>c. c \<in> set ?ps \<Longrightarrow> length c = MPEG_TS_PACKET_SIZE" by (rule chunks_exact_lengths)
    have "drop b ?ps = ?ps ! b # drop (Suc b) ?ps" using u(2) by (rule Cons_nth_drop_Suc [symmetric])
    then have "take MPEG_TS_PACKET_SIZE out = ?ps ! b" using u(2,4) sizes by simp
    moreover have "out = drop (b * MPEG_TS_PACKET_SIZE) (aligned (body_bytes used))"
      using drop_concat [of ?ps MPEG_TS_PACKET_SIZE b] sizes u(4) by (simp add: aligned_def concat_chunks_exact)
    moreover have "b * MPEG_TS_PACKET_SIZE \<le> length (aligned (body_bytes used))"
      using u(2) by (simp add: aligned_def length_chunks_exact)
    moreover have "length out = length (drop b ?ps) * MPEG_TS_PACKET_SIZE"
      unfolding u(4) by (rule length_concat_const) (auto dest: in_set_dropD sizes)
    ultimately show ?thesis using primed [of out used b] u(1,3,5,6) Inr by simp
  qed
qed

text \<open>C11: priming hands over a stream that starts at a PAT.  Whatever the chunks of the body are, a
  successful priming returns the whole packets of what it has read from some packet that starts a
  PAT section on, without a gap, and the bytes of the packet that has begun stay pending.  The
  buffer bound never makes it fail: it fails only with the end of the body, a read error, a timeout
  or a lost sync byte.  (A sequence number saturates only after \<open>2^64\<close> packets.)\<close>

theorem priming_starts_at_a_pat:
  assumes "length (body_bytes body) div MPEG_TS_PACKET_SIZE < u64_bound"
    and "prime_body packetizer_new body = (result, pk, rest)"
  shows "case result of
      Inl failure \<Rightarrow> failure \<in> {UpstreamEnded, ReadTimeout, UpstreamRead, InvalidSync}
    | Inr out \<Rightarrow> \<exists>used b. body = used @ rest \<and> is_pat_start (take MPEG_TS_PACKET_SIZE out) \<and>
        MPEG_TS_PACKET_SIZE dvd length out \<and> length (pk_pending pk) < MPEG_TS_PACKET_SIZE \<and>
        out @ pk_pending pk = drop (b * MPEG_TS_PACKET_SIZE) (body_bytes used)"
  using assms
proof (cases rule: prime_body_spec)
  case (primed out used b)
  have "out @ pk_pending pk = drop (b * MPEG_TS_PACKET_SIZE) (aligned (body_bytes used) @ leftover (body_bytes used))"
    using primed(3,4,8) by simp
  with primed show ?thesis by (auto simp: aligned_leftover length_leftover dvd_eq_mod_eq_0)
qed simp

lemma packets_one [simp]:
  assumes "length p = MPEG_TS_PACKET_SIZE" "length r < MPEG_TS_PACKET_SIZE"
  shows "whole_packets (p @ r) = [p]" "aligned (p @ r) = p" "leftover (p @ r) = r"
    "synced (p @ r) \<longleftrightarrow> p ! 0 = 0x47"
proof -
  show "whole_packets (p @ r) = [p]" using assms by simp
  then show "synced (p @ r) \<longleftrightarrow> p ! 0 = 0x47" by (simp add: synced_def)
  show "aligned (p @ r) = p" "leftover (p @ r) = r"
    using packets_aligned_append(1,2) [of p r] assms by simp_all
qed

definition sample_body :: "(BodyEvent \<times> unit) list" where
  "sample_body = [(Chunk pat_packet, ()), (Chunk (pmt_packet @ [0x47]), ())]"

lemma prime_sample:
  "prime_body packetizer_new [(Chunk pat_packet, t1), (Chunk (pmt_packet @ [0x47]), t2)] =
     (Inr (pat_packet @ pmt_packet), \<lparr>pk_pending = [0x47]\<rparr>, [])"
proof -
  have one: "length [0x47 :: u8] < MPEG_TS_PACKET_SIZE" by (simp add: MPEG_TS_PACKET_SIZE_def)
  note single = packets_one [OF sample_packets(1), of "[]", simplified] packets_one [OF sample_packets(2), of "[]", simplified]
    packets_one [OF sample_packets(2) one]
  have p1: "packetizer_push packetizer_new pat_packet = (Inr pat_packet, \<lparr>pk_pending = []\<rparr>)"
    using single by (simp add: packetizer_push_spec packetizer_new_def Let_def)
  have p2: "packetizer_push \<lparr>pk_pending = []\<rparr> (pmt_packet @ [0x47]) = (Inr pmt_packet, \<lparr>pk_pending = [0x47]\<rparr>)"
    using single by (simp add: packetizer_push_spec Let_def)
  have q1: "prime_packets pat_packet 0 [pat_packet] PatPmtTracker_default [] 0 0 = PrimeMore sample_tracker pat_packet 0 1"
    by (simp add: prime_evict_def tr_observe_sample_pat MAX_PRIMING_PACKETS_def saturating_add_u64_def)
  have nonempty: "pat_packet \<noteq> []" using sample_packets(1) MPEG_TS_PACKET_SIZE_nonzero by (metis list.size(3))
  obtain t where t: "tr_observe sample_tracker pmt_packet 1 = (t, Some 0)"
    using tr_observe_sample_pmt(1) by (cases "tr_observe sample_tracker pmt_packet 1") simp
  have q2: "prime_packets pmt_packet 0 [pmt_packet] sample_tracker pat_packet 0 1 = PrimeDone (Inr (pat_packet @ pmt_packet))"
    using t nonempty by (simp add: prime_evict_def MAX_PRIMING_PACKETS_def checked_mul_u64_def)
  show ?thesis
    unfolding prime_body_def prime_loop.simps p1 p2 prod.case sum.case single q1 q2 PrimeStep.case ..
qed

theorem priming_starts_at_a_pat_witness:
  "\<exists>used b. sample_body = used @ [] \<and> is_pat_start (take MPEG_TS_PACKET_SIZE (pat_packet @ pmt_packet)) \<and>
     MPEG_TS_PACKET_SIZE dvd length (pat_packet @ pmt_packet) \<and> length [0x47 :: u8] < MPEG_TS_PACKET_SIZE \<and>
     (pat_packet @ pmt_packet) @ [0x47] = drop (b * MPEG_TS_PACKET_SIZE) (body_bytes used)"
proof -
  have "length (body_bytes sample_body) div MPEG_TS_PACKET_SIZE < u64_bound"
    by (simp add: sample_body_def MPEG_TS_PACKET_SIZE_def)
  from priming_starts_at_a_pat [OF this prime_sample [of "()" "()", folded sample_body_def]] show ?thesis by simp
qed

end
