(* ===== verification/Pump.thy ===== *)
theory Pump
  imports Session
begin

text \<open>
  Properties of the session of \<open>crates/media/src/session.rs\<close> that span its functions: a failed start
  gives its slot back; the stream publishes exactly the packets of the upstream body; a recovery
  opens a new generation that starts at a PAT of the new body; the pump always closes the ring;
  the endpoints of a recovery are tried in turn; and a recovery that completes undoes the operator's
  stop.
\<close>

section \<open>Starting a session\<close>

text \<open>What a pool shows to others: the handles of its leases, and the lock that no task holds.\<close>

definition pool_is :: "usize \<Rightarrow> (u64 \<Rightarrow> nat) \<Rightarrow> BrokerWorld \<Rightarrow> bool" where
  "pool_is m handles w \<longleftrightarrow> bk_inv m w \<and> bw_lock w = LockFree \<and> bw_handles w = handles"

lemma pool_is_active:
  assumes "pool_is m handles w"
  shows "pl_active_sessions (fst (broker_snapshot w)) = card {i. 0 < handles i}"
proof -
  have "live w = {i. 0 < handles i}" using assms by (simp add: pool_is_def live_def strong_count_def)
  with length_retained(1) [of m w] assms show ?thesis by (simp add: pool_is_def broker_snapshot_def Let_def)
qed

lemma try_acquire_cases:
  assumes "pool_is m handles w"
  obtains (refused) e w' where "try_acquire w k [] = (Inl e, w')" "pool_is m handles w'"
    | (shared) i w' where "try_acquire w k [] = (Inr i, w')" "0 < handles i"
        "pool_is m (handles(i := handles i + 1)) w'"
    | (fresh) i w' where "try_acquire w k [] = (Inr i, w')" "handles i = 0"
        "pool_is m (handles(i := 1)) w'" "map_of (bw_sessions w') k = Some i"
        "\<exists>l. bw_leases w' i = Some l \<and> li_session_key l = k"
proof -
  let ?w = "retain_live w"
  have inv: "bk_inv m w" and free: "bw_lock w = LockFree" and h: "bw_handles w = handles"
    using assms by (simp_all add: pool_is_def)
  have inv': "bk_inv m (snd (try_acquire w k []))" by (rule bk_inv_try_acquire [OF inv])
  show thesis
  proof (cases "map_of (bw_sessions ?w) k")
    case (Some i)
    then have "i \<in> live w" using lookup_retained [OF inv, of k i] by (simp add: key_live_def)
    then have i: "0 < handles i" using free h by (simp add: live_def strong_count_def)
    then have acq: "try_acquire w k [] = (Inr i, clone_lease ?w i)"
      using Some free h by (simp add: try_acquire_def Let_def strong_count_def)
    show thesis by (rule shared [OF acq i]) (use inv' free h acq in \<open>simp add: pool_is_def clone_lease_def\<close>)
  next
    case None
    then have acq: "try_acquire w k [] = acquire_new ?w k" by (simp add: try_acquire_def)
    from None show thesis
    proof (cases rule: acquire_new_cases)
      case full
      with refused acq bk_inv_retain [OF inv] free h show thesis by (simp add: pool_is_def)
    next
      case exhausted
      with refused acq bk_inv_retain [OF inv] free h show thesis by (simp add: pool_is_def)
    next
      case (fresh i)
      have "strong_count w i = 0" using dead_next [OF inv] fresh(1) by simp
      then have i: "handles i = 0" using free h by (simp add: strong_count_def)
      show thesis
        by (rule that(3) [OF trans [OF acq fresh(4)] i])
          (use inv' acq fresh(4) free h None in \<open>simp_all add: pool_is_def map_add_def map_of_append\<close>)
    qed
  qed
qed

lemma drop_lease_shared:
  assumes w: "pool_is m (handles(i := Suc (handles i))) w" and i: "0 < handles i"
  shows "pool_is m handles (drop_lease i w)"
proof -
  have "i \<in> live w" using assms by (simp add: pool_is_def live_def strong_count_def)
  then have "i \<notin> set (bw_pending w)" using w by (auto simp: pool_is_def bk_inv_def sessions_inv_def)
  with assms bk_inv_release [of m w i] show ?thesis
    by (auto simp: pool_is_def drop_lease_def release_handle_def strong_count_def Let_def)
qed

lemma drop_lease_last:
  assumes w: "pool_is m (handles(i := 1)) w" and i: "handles i = 0"
    and k: "map_of (bw_sessions w) k = Some i" "bw_leases w i = Some l" "li_session_key l = k"
  shows "pool_is m handles (drop_lease i w)"
proof -
  let ?w = "release_handle i w"
  have rel: "bk_inv m ?w" "bw_handles ?w = handles" "i \<in> set (bw_pending ?w)" "strong_count ?w i = 0" "bw_lock ?w = LockFree"
    using w i bk_inv_release [of m w i]
    by (auto simp: pool_is_def release_handle_def strong_count_def Let_def)
  then have "bk_inv m (lease_drop_begin ?w i)" using bk_inv_drop_begin by blast
  moreover have "bw_lock (lease_drop_begin ?w i) = LockFree" "bw_handles (lease_drop_begin ?w i) = handles"
    using rel k by (simp_all add: lease_drop_begin_def Let_def)
  ultimately show ?thesis using rel(3) by (simp add: pool_is_def drop_lease_def lease_drop_end_def)
qed

text \<open>A failed start gives its slot back: acquiring and dropping changes no handle.\<close>

lemma acquire_then_drop:
  assumes "pool_is m handles w" "try_acquire w k [] = (Inr i, w')"
  shows "pool_is m handles (drop_lease i w')"
  using assms(1)
proof (cases rule: try_acquire_cases [where k = k])
  case (shared j w'')
  with assms(2) drop_lease_shared [of m handles i w'] show ?thesis by simp
next
  case (fresh j w'')
  with assms(2) drop_lease_last [of m handles i w' k] show ?thesis by auto
qed (use assms(2) in simp)

lemma start_fails_cases:
  assumes "start_http_ts_session input providers source = (Some (Inl e), providers')"
    and "sa_wait input = None" "sa_dropped input = []"
  obtains (unknown) "providers' = providers"
    | (refused) pool w w' k e' where "providers pool = Some w" "providers' = providers(pool \<mapsto> w')"
        "try_acquire w k [] = (Inl e', w')"
    | (failed) pool w w' k i where "providers pool = Some w" "providers' = providers(pool \<mapsto> drop_lease i w')"
        "try_acquire w k [] = (Inr i, w')"
proof -
  let ?source = "rotate_endpoints (active_sessions providers source) source"
  let ?pool = "effective_pool_id (hd (hs_endpoints ?source)) (hk_provider_pool_id (hs_key ?source))"
  show thesis
  proof (cases "providers ?pool")
    case None
    with assms(1) unknown show thesis by (simp add: start_http_ts_session_def Let_def)
  next
    case (Some w)
    obtain result w' where acq: "try_acquire w (allocation_key (hs_key ?source)) [] = (result, w')" by fastforce
    then have lease: "acquire_start_lease input ?source w = (Some result, w')"
      using assms(2,3) by (simp add: acquire_start_lease_def)
    show thesis
    proof (cases result)
      case (Inl e')
      with assms(1) Some lease acq refused [OF Some] show thesis by (auto simp: start_http_ts_session_def Let_def)
    next
      case (Inr i)
      with assms(1) Some lease acq failed [OF Some] show thesis
        by (auto simp: start_http_ts_session_def Let_def split: sum.splits)
    qed
  qed
qed

lemma failed_start_pools:
  assumes "start_http_ts_session input providers source = (Some (Inl e), providers')"
    and "sa_wait input = None" "sa_dropped input = []"
    and pools: "\<And>pool w. providers pool = Some w \<Longrightarrow> pool_is (m pool) (bw_handles w) w"
  shows "rel_option (\<lambda>w w'. pool_is (m pool) (bw_handles w) w') (providers pool) (providers' pool)"
  using assms(1-3)
proof (cases rule: start_fails_cases)
  case unknown
  then show ?thesis using pools by (cases "providers pool") auto
next
  case (refused p w w' k e')
  from pools [OF refused(1)] have "pool_is (m p) (bw_handles w) w'"
    by (cases rule: try_acquire_cases [where k = k]) (use refused(3) in auto)
  with refused pools show ?thesis by (cases "providers pool") auto
next
  case (failed p w w' k i)
  with acquire_then_drop [OF pools [OF failed(1)] failed(3)] pools show ?thesis
    by (cases "providers pool") auto
qed


text \<open>A source on a pool of one slot, whose request fails.\<close>

definition sample_source :: "unit HttpTsSourceSpec" where
  "sample_source = (source_new () \<lparr>hk_provider_pool_id = ''pool'', hk_source_id = ''news'', hk_generation = 1\<rparr>
     ''http://a'' sample_cfg)\<lparr>hs_adapter_policy := PolicyNativeTs\<rparr>"

definition failing_start :: StartInput where
  "failing_start = \<lparr>sa_base_server = (\<lambda>url. None), sa_now = 0, sa_wait = None, sa_dropped = [],
     sa_response = Inl StartupTimeout, sa_process = False\<rparr>"

definition one_pool :: "string \<Rightarrow> BrokerWorld option" where
  "one_pool = [''pool'' \<mapsto> broker_new ''pool'' 1]"

lemma one_pool_rotated: "rotate_endpoints (active_sessions one_pool sample_source) sample_source = sample_source"
  by (simp add: active_sessions_def rotate_endpoints_def sample_source_def source_new_def one_pool_def
      effective_pool_id_def broker_snapshot_def retain_live_def broker_new_def)

lemma failing_start_fails:
  "fst (start_http_ts_session failing_start one_pool sample_source) = Some (Inl StartupTimeout)"
  unfolding start_http_ts_session_def Let_def one_pool_rotated
  by (simp add: one_pool_def effective_pool_id_def sample_source_def source_new_def failing_start_def
      acquire_start_lease_def initial_diagnostics_def try_acquire_def retain_live_def broker_new_def acquire_new_def checked_add_u64_def start_input_def
      selected_adapter_def Let_def)



section \<open>The ring under the pump\<close>

lemma record_write_fields [simp]:
  "ds_state (record_write d n) = ds_state d" "ds_viewers (record_write d n) = ds_viewers d"
  by (simp_all add: record_write_def)

lemma ring_push_closed [simp]: "rs_closed (ri_state (snd (ring_push r bs now t))) = rs_closed (ri_state r)"
proof (cases "push_accepts r bs")
  case True
  then show ?thesis by (simp add: ring_push_accepted)
next
  case False
  then obtain e where "ring_push r bs now t = (Inl e, r)" using ring_push_rejected by blast
  then show ?thesis by simp
qed

lemma ring_push_closedD: "ring_push r bs now t = (result, r') \<Longrightarrow> rs_closed (ri_state r') = rs_closed (ri_state r)"
  by (metis ring_push_closed snd_conv)

lemma ring_close_closed [simp]: "rs_closed (ri_state (snd (ring_close r reason))) \<noteq> None"
  by (simp add: ring_close_def Let_def split: option.split)

lemma ring_push_cases:
  assumes "ring_reach cfg es r"
  obtains (refused) e where "ring_push r bs now t = (Inl e, r)" "\<not> push_accepts r bs"
    | (written) outcome r' where "ring_push r bs now t = (Inr outcome, r')" "push_accepts r bs"
        "ring_reach cfg (es @ whole_packets bs) r'"
proof (cases "push_accepts r bs")
  case False
  with refused ring_push_rejected show ?thesis by blast
next
  case True
  then obtain out r' where "ring_push r bs now t = (Inr out, r')" by (rule ring_push_outcome)
  with written True ring_pushed [OF assms] show ?thesis by blast
qed

lemma push_packets_cases:
  assumes r: "ring_reach cfg es r"
  obtains (refused) e where "push_packets r d packets clock = (Inl e, r, d)" "\<not> push_accepts r packets"
    | (written) r' n where "push_packets r d packets clock = (Inr (), r', record_write d n)"
        "ring_reach cfg (es @ whole_packets packets) r'"
proof (cases "packets = []")
  case True
  with r written [of r 0] show ?thesis by (simp add: push_packets_def record_write_def)
next
  case False
  from r show ?thesis
    by (cases rule: ring_push_cases [where bs = packets and now = "fst clock" and t = "snd clock"])
      (use False refused written in \<open>auto simp: push_packets_def\<close>)
qed

lemma push_packets_fields:
  assumes "push_packets r d packets clock = (result, r', d')"
  shows "rs_closed (ri_state r') = rs_closed (ri_state r)" "ds_state d' = ds_state d" "ds_viewers d' = ds_viewers d"
  using assms
  by (auto simp: push_packets_def ring_push_closedD split: if_splits prod.splits sum.splits)

lemma push_accepts_aligned:
  "synced bs \<Longrightarrow> push_accepts r (aligned bs) \<longleftrightarrow> rs_closed (ri_state r) = None \<and>
     rs_next_sequence (ri_state r) + length bs div MPEG_TS_PACKET_SIZE < u64_bound"
  by (auto simp: push_accepts_def synced_def) (simp_all add: aligned_def)

text \<open>Without a keepalive task, other tasks close the ring at most.\<close>

definition quiet :: "MpegTsRingConfig \<Rightarrow> bytes list \<Rightarrow> PumpState \<Rightarrow> bool" where
  "quiet cfg es s \<longleftrightarrow> ring_reach cfg es (pu_ring s) \<and> pu_keepalive s = None"

lemma quiet_other_task: "quiet cfg es s \<Longrightarrow> quiet cfg es (other_task task s)"
  by (cases task)
    (auto simp: quiet_def keepalive_turn_def terminate_def intro: ring_closed [OF _ prod.collapse [symmetric]])

lemma quiet_meanwhile: "quiet cfg es s \<Longrightarrow> quiet cfg es (meanwhile tasks s)"
  unfolding meanwhile_def by (induction tasks arbitrary: s) (simp_all add: quiet_other_task)

text \<open>
  How a stream ended: \<open>input\<close> are the bytes it was given and \<open>bs\<close> those it has published.
\<close>

definition stream_end :: "SessionFailureKind \<Rightarrow> bytes \<Rightarrow> bytes \<Rightarrow> RingInner \<Rightarrow> bool" where
  "stream_end failure input bs ring \<longleftrightarrow>
     (case failure of
        UpstreamEnded \<Rightarrow> bs = input
      | IncompleteTail \<Rightarrow> bs = aligned input \<and> bs \<noteq> input
      | ReadTimeout \<Rightarrow> bs = aligned input
      | UpstreamRead \<Rightarrow> bs = aligned input
      | InvalidSync \<Rightarrow> \<not> synced input
      | RingClosed \<Rightarrow> rs_closed (ri_state ring) \<noteq> None \<or>
          u64_bound \<le> rs_next_sequence (ri_state ring) + length input div MPEG_TS_PACKET_SIZE
      | _ \<Rightarrow> False)"

definition streamed ::
    "MpegTsRingConfig \<Rightarrow> bytes list \<Rightarrow> bytes \<Rightarrow> Turn list \<Rightarrow>
     SessionFailureKind \<times> PumpState \<times> MpegTsPacketizer \<times> Turn list \<Rightarrow> bool" where
  "streamed cfg es pending body outcome \<longleftrightarrow>
     (case outcome of (failure, s, pk, rest) \<Rightarrow>
        \<exists>used bs more. body = used @ rest \<and> aligned (pending @ body_bytes used) = bs @ more \<and>
          length bs mod MPEG_TS_PACKET_SIZE = 0 \<and> quiet cfg (es @ whole_packets bs) s \<and>
          stream_end failure (pending @ body_bytes used) bs (pu_ring s))"

lemma stream_end_step:
  assumes "stream_end failure (leftover input @ rest) bs ring" "synced input"
  shows "stream_end failure (input @ rest) (aligned input @ bs) ring"
proof -
  have eq: "aligned (input @ rest) = aligned input @ aligned (leftover input @ rest)"
    "synced (input @ rest) \<longleftrightarrow> synced (leftover input @ rest)"
    using packets_cut [of input rest] assms(2) by simp_all
  have split: "input @ rest = aligned input @ leftover input @ rest"
    using aligned_leftover [of input] by (metis append_assoc)
  have "length (leftover input @ rest) div MPEG_TS_PACKET_SIZE \<le> length (input @ rest) div MPEG_TS_PACKET_SIZE"
    by (rule div_le_mono) (simp add: leftover_def)
  with assms(1) eq show ?thesis
    unfolding stream_end_def by (cases failure) (auto simp del: append_assoc simp: split [symmetric], (metis split same_append_eq)+)
qed

lemma streamedE:
  assumes "streamed cfg es pending body (failure, s, pk, rest)"
  obtains used bs more where "body = used @ rest" "aligned (pending @ body_bytes used) = bs @ more"
    "length bs mod MPEG_TS_PACKET_SIZE = 0" "quiet cfg (es @ whole_packets bs) s"
    "stream_end failure (pending @ body_bytes used) bs (pu_ring s)"
  using assms unfolding streamed_def by auto

lemma streamed_step:
  assumes "streamed cfg (es @ whole_packets (pending @ chunk)) (leftover (pending @ chunk)) body outcome"
    and sync: "synced (pending @ chunk)"
  shows "streamed cfg es pending ((Chunk chunk, t) # body) outcome"
proof -
  let ?in = "pending @ chunk"
  obtain failure s pk rest where o: "outcome = (failure, s, pk, rest)" by (cases outcome)
  obtain used bs more where u: "body = used @ rest" "aligned (leftover ?in @ body_bytes used) = bs @ more"
      "length bs mod MPEG_TS_PACKET_SIZE = 0" "quiet cfg ((es @ whole_packets ?in) @ whole_packets bs) s"
      "stream_end failure (leftover ?in @ body_bytes used) bs (pu_ring s)"
    using assms(1) unfolding o by (rule streamedE)
  have "whole_packets (aligned ?in @ bs) = whole_packets ?in @ whole_packets bs"
    by (simp only: chunks_exact_append_aligned length_aligned MPEG_TS_PACKET_SIZE_pos chunks_aligned)
  moreover have "aligned (?in @ body_bytes used) = (aligned ?in @ bs) @ more"
    using u(2) packets_cut(2) [of ?in "body_bytes used"] by simp
  moreover have "length (aligned ?in @ bs) mod MPEG_TS_PACKET_SIZE = 0"
    using u(3) length_aligned [of ?in] by (metis length_append mod_add_eq add_0 mod_0)
  moreover note stream_end_step [OF u(5) sync]
  ultimately show ?thesis using u(1,4) unfolding streamed_def o prod.case
    by (intro exI [of _ "(Chunk chunk, t) # used"] exI [of _ "aligned ?in @ bs"] exI [of _ more]) simp
qed

lemma streamed_stop:
  assumes "body = used @ rest" "quiet cfg es s" "stream_end failure (pending @ body_bytes used) [] (pu_ring s)"
  shows "streamed cfg es pending body (failure, s, pk, rest)"
  unfolding streamed_def prod.case
  using assms by (intro exI [of _ used] exI [of _ "[]"] exI [of _ "aligned (pending @ body_bytes used)"]) simp

lemma stream_until_failure_spec:
  assumes "quiet cfg es s" "length (pk_pending pk) < MPEG_TS_PACKET_SIZE"
  shows "streamed cfg es (pk_pending pk) body (stream_until_failure s pk body)"
  using assms
proof (induction s pk body arbitrary: es rule: stream_until_failure.induct)
  case (1 s pk)
  then show ?case by (auto simp: streamed_def stream_end_def intro!: exI [of _ "[]"])
next
  case (2 s pk tasks clock body)
  then show ?case
    by (auto simp: streamed_def stream_end_def quiet_meanwhile intro!: exI [of _ "[(BodyTimeout, tasks, clock)]"] exI [of _ "[]"])
next
  case (3 s pk tasks clock body)
  then show ?case
    by (auto simp: streamed_def stream_end_def quiet_meanwhile intro!: exI [of _ "[(BodyError, tasks, clock)]"] exI [of _ "[]"])
next
  case (4 s pk chunk tasks clock body)
  let ?bs = "pk_pending pk @ chunk" and ?s = "meanwhile tasks s" and ?e = "(Chunk chunk, tasks, clock)"
  have q: "quiet cfg es ?s" by (rule quiet_meanwhile [OF 4(2)])
  then have r: "ring_reach cfg es (pu_ring ?s)" by (simp add: quiet_def)
  show ?case
  proof (cases "synced ?bs")
    case False
    then show ?thesis using q
      by (auto simp: packetizer_push_spec packetizer_failure_def stream_end_def Let_def
          split: prod.split intro!: streamed_stop [of _ "[?e]"])
  next
    case True
    let ?pk = "\<lparr>pk_pending = leftover ?bs\<rparr>"
    have push: "packetizer_push pk chunk = (Inr (aligned ?bs), ?pk)"
      using True by (simp add: packetizer_push_spec Let_def)
    from r show ?thesis
    proof (cases rule: push_packets_cases [where d = "pu_diagnostics ?s" and packets = "aligned ?bs" and clock = clock])
      case (refused e)
      have "rs_closed (ri_state (pu_ring ?s)) \<noteq> None \<or>
          u64_bound \<le> rs_next_sequence (ri_state (pu_ring ?s)) + length ?bs div MPEG_TS_PACKET_SIZE"
        using refused(2) push_accepts_aligned [OF True] by auto
      with refused(1) push q show ?thesis
        by (auto simp: stream_end_def intro!: streamed_stop [of _ "[?e]"])
    next
      case (written r' n)
      let ?s' = "?s\<lparr>pu_ring := r', pu_diagnostics := record_write (pu_diagnostics ?s) n\<rparr>"
      have "quiet cfg (es @ whole_packets ?bs) ?s'" using written(2) q by (simp add: quiet_def)
      then have IH: "streamed cfg (es @ whole_packets ?bs) (leftover ?bs) body (stream_until_failure ?s' ?pk body)"
        using 4(1) [OF refl push [symmetric] refl written(1) [symmetric] refl] by (simp add: length_leftover)
      have "stream_until_failure s pk (?e # body) = stream_until_failure ?s' ?pk body"
        using push written(1) by (simp add: Let_def)
      with streamed_step [OF IH True] show ?thesis by simp
    qed
  qed
qed

section \<open>Recovery\<close>

text \<open>A ring of generation \<open>g\<close>, whatever the keepalive task has written to it.\<close>

definition in_generation :: "MpegTsRingConfig \<Rightarrow> u64 \<Rightarrow> PumpState \<Rightarrow> bool" where
  "in_generation cfg g s \<longleftrightarrow> (\<exists>es. ring_reach cfg es (pu_ring s)) \<and> rs_generation (ri_state (pu_ring s)) = g"

lemma in_generation_diagnostics [simp]:
  "in_generation cfg g (s\<lparr>pu_diagnostics := d\<rparr>) = in_generation cfg g s"
  "in_generation cfg g (s\<lparr>pu_providers := p\<rparr>) = in_generation cfg g s"
  "in_generation cfg g (s\<lparr>pu_keepalive := k\<rparr>) = in_generation cfg g s"
  by (simp_all add: in_generation_def)

lemma in_generation_push:
  assumes "in_generation cfg g s" "ring_push (pu_ring s) bs now t = (result, r')"
  shows "in_generation cfg g (s\<lparr>pu_ring := r'\<rparr>)"
proof -
  obtain es where es: "ring_reach cfg es (pu_ring s)" "rs_generation (ri_state (pu_ring s)) = g"
    using assms(1) by (auto simp: in_generation_def)
  have "rs_generation (ri_state r') = g"
    using ring_push_generation [of "pu_ring s" bs now t] assms(2) es(2) by simp
  moreover from es(1) have "\<exists>es. ring_reach cfg es r'"
    by (cases rule: ring_push_cases [where bs = bs and now = now and t = t]) (use assms(2) es(1) in auto)
  ultimately show ?thesis by (simp add: in_generation_def)
qed

lemma in_generation_close:
  assumes "in_generation cfg g s"
  shows "in_generation cfg g (s\<lparr>pu_ring := snd (ring_close (pu_ring s) reason)\<rparr>)"
proof -
  obtain es where es: "ring_reach cfg es (pu_ring s)" "rs_generation (ri_state (pu_ring s)) = g"
    using assms by (auto simp: in_generation_def)
  have "rs_generation (ri_state (snd (ring_close (pu_ring s) reason))) = g"
    using es(2) by (simp add: ring_close_def)
  with ring_closed [OF es(1) prod.collapse [symmetric]] show ?thesis
    unfolding in_generation_def by auto
qed

lemma keepalive_turn_cases:
  obtains (same) "keepalive_turn clock s = s" | (ended) "keepalive_turn clock s = s\<lparr>pu_keepalive := None\<rparr>"
    | (pushed) bs outcome r' d' k where "ring_push (pu_ring s) bs (fst clock) (snd clock) = (Inr outcome, r')"
        "keepalive_turn clock s = s\<lparr>pu_ring := r', pu_diagnostics := record_write (pu_diagnostics s) d', pu_keepalive := k\<rparr>"
proof (cases "pu_keepalive s")
  case None
  with same show ?thesis by (simp add: keepalive_turn_def)
next
  case (Some k)
  obtain g t c where k: "k = (g, t, c)" by (cases k)
  show ?thesis
  proof (cases "viewers_drained (pu_diagnostics s) g t")
    case False
    with Some k same show ?thesis by (simp add: keepalive_turn_def keepalive_tick_def)
  next
    case True
    obtain result r' where push: "ring_push (pu_ring s) (null_packet c) (fst clock) (snd clock) = (result, r')" by fastforce
    show ?thesis
    proof (cases result)
      case (Inl e)
      with True Some k push ended show ?thesis by (simp add: keepalive_turn_def keepalive_tick_def)
    next
      case (Inr outcome)
      with True Some k push pushed show ?thesis by (simp add: keepalive_turn_def keepalive_tick_def)
    qed
  qed
qed

lemma in_generation_other_task:
  assumes "in_generation cfg g s"
  shows "in_generation cfg g (other_task task s)"
proof (cases task)
  case (KeepaliveTick clock)
  show ?thesis
  proof (cases rule: keepalive_turn_cases [of clock s])
    case (pushed bs outcome r' d' k)
    from in_generation_push [OF assms pushed(1)] pushed(2) KeepaliveTick show ?thesis by (simp add: in_generation_def)
  qed (use assms KeepaliveTick in simp_all)
next
  case OperatorTerminates
  with in_generation_close [OF assms] show ?thesis by (simp add: terminate_def)
qed (use assms in simp_all)

lemma in_generation_meanwhile: "in_generation cfg g s \<Longrightarrow> in_generation cfg g (meanwhile tasks s)"
  unfolding meanwhile_def by (induction tasks arbitrary: s) (simp_all add: in_generation_other_task)

lemma in_generation_drop_pool_lease [simp]:
  "in_generation cfg g (drop_pool_lease pool_id lease s) = in_generation cfg g s"
  by (simp add: drop_pool_lease_def split: option.split)

lemma quiet_drop_pool_lease [simp]: "quiet cfg es (drop_pool_lease pool_id lease s) = quiet cfg es s"
  by (simp add: drop_pool_lease_def quiet_def split: option.split)

lemma in_generation_wait_drained:
  "in_generation cfg g s \<Longrightarrow> in_generation cfg g (snd (wait_drained generation target polls s))"
  by (induction polls arbitrary: s) (simp_all add: in_generation_meanwhile)

lemma start_new_generation_cases:
  assumes "ring_reach cfg es r"
  obtains (exhausted) e where "start_new_generation r = (Inl e, r)"
    | (started) r' where "start_new_generation r = (Inr (Suc (rs_generation (ri_state r))), r')"
        "Suc (rs_generation (ri_state r)) < u64_bound"
        "ring_reach cfg [] r'" "rs_closed (ri_state r') = None"
        "rs_generation (ri_state r') = Suc (rs_generation (ri_state r))" "rs_next_sequence (ri_state r') = 0"
proof (cases "Suc (rs_generation (ri_state r)) < u64_bound")
  case False
  with exhausted show ?thesis by (simp add: start_new_generation_def checked_add_u64_def Let_def)
next
  case True
  obtain r' where r': "start_new_generation r = (Inr (Suc (rs_generation (ri_state r))), r')"
    "rs_closed (ri_state r') = None" "rs_generation (ri_state r') = Suc (rs_generation (ri_state r))"
    "rs_next_sequence (ri_state r') = 0"
    using True by (simp add: start_new_generation_def checked_add_u64_def Let_def)
  with True started ring_restarted [OF assms r'(1)] show ?thesis by blast
qed

text \<open>
  What a completed recovery leaves: a new, open generation that holds exactly the primed packets,
  whatever happened before.
\<close>

lemma in_generation_stop_keepalive:
  assumes "in_generation cfg g s"
  shows "in_generation cfg g (stop_keepalive null_clock stopping s)"
proof -
  obtain r d where null: "push_final_keepalive_null (pu_ring s) (pu_diagnostics s) null_clock = (r, d)" by fastforce
  have "in_generation cfg g (s\<lparr>pu_ring := r, pu_diagnostics := d\<rparr>)"
    using null in_generation_push [OF assms]
    by (auto simp: push_final_keepalive_null_def in_generation_def split: prod.splits sum.splits)
  then show ?thesis by (simp add: stop_keepalive_def null in_generation_meanwhile)
qed

lemma recovery_complete_cases:
  assumes gen: "in_generation cfg g s"
  obtains (failed) s' where "recovery_complete primed null_clock stopping clock s = (False, s')"
      "\<not> (Suc g < u64_bound \<and> synced primed \<and> length primed mod MPEG_TS_PACKET_SIZE = 0 \<and>
         length primed div MPEG_TS_PACKET_SIZE < u64_bound)"
    | (completed) s' where "recovery_complete primed null_clock stopping clock s = (True, s')"
        "quiet cfg (whole_packets primed) s'" "rs_generation (ri_state (pu_ring s')) = Suc g"
        "rs_closed (ri_state (pu_ring s')) = None" "ds_state (pu_diagnostics s') = Streaming"
proof -
  let ?s = "stop_keepalive null_clock stopping s"
  obtain es where es: "ring_reach cfg es (pu_ring ?s)" and g: "rs_generation (ri_state (pu_ring ?s)) = g"
    using in_generation_stop_keepalive [OF gen] unfolding in_generation_def by blast
  from es show ?thesis
  proof (cases rule: start_new_generation_cases)
    case (exhausted e)
    moreover from exhausted g have "\<not> Suc g < u64_bound"
      by (auto simp: start_new_generation_def checked_add_u64_def Let_def split: if_splits)
    ultimately show ?thesis using failed by (simp add: recovery_complete_def Let_def)
  next
    case (started r')
    from started(3) show ?thesis
    proof (cases rule: push_packets_cases [where d = "set_generation (pu_diagnostics ?s) (Suc g)" and packets = primed and clock = clock])
      case (refused e)
      moreover have "\<not> (synced primed \<and> length primed mod MPEG_TS_PACKET_SIZE = 0 \<and>
          length primed div MPEG_TS_PACKET_SIZE < u64_bound)"
        using refused(2) started(4,6) by (auto simp: push_accepts_def synced_def)
      ultimately show ?thesis using failed started(1) g by (simp add: recovery_complete_def Let_def)
    next
      case (written r'' n)
      have "rs_closed (ri_state r'') = None" using push_packets_fields(1) [OF written(1)] started(4) by simp
      moreover have "rs_generation (ri_state r'') = Suc g"
        using ring_push_generation [of r' primed "fst clock" "snd clock"] written(1) started(5) g
        by (auto simp: push_packets_def split: if_splits prod.splits sum.splits)
      moreover have "pu_keepalive ?s = None" by (simp add: stop_keepalive_def split: prod.split)
      ultimately show ?thesis using completed written started(1) g
        by (simp add: recovery_complete_def Let_def quiet_def set_session_state_def)
    qed
  qed
qed

text \<open>A recovery that succeeded: the attempt that did it, and the stream it hands over.\<close>

definition recovered_ok :: "MpegTsRingConfig \<Rightarrow> u64 \<Rightarrow> Attempt \<Rightarrow> RecoveredStream \<Rightarrow> PumpState \<Rightarrow> bool" where
  "recovered_ok cfg g attempt stream s \<longleftrightarrow>
     (\<exists>body primed. at_response attempt = Some body \<and>
        prime_body packetizer_new body = (Inr primed, rc_packetizer stream, rc_body stream) \<and>
        quiet cfg (whole_packets primed) s) \<and>
     rs_generation (ri_state (pu_ring s)) = g \<and> rs_closed (ri_state (pu_ring s)) = None \<and>
     ds_state (pu_diagnostics s) = Streaming"

definition attempt_ok :: "MpegTsRingConfig \<Rightarrow> u64 \<Rightarrow> Attempt \<Rightarrow> AttemptResult \<times> PumpState \<Rightarrow> bool" where
  "attempt_ok cfg g attempt outcome \<longleftrightarrow>
     (case outcome of
        (Retry, s) \<Rightarrow> in_generation cfg g s
      | (GiveUp, s) \<Rightarrow> True
      | (Recovered stream, s) \<Rightarrow> recovered_ok cfg (Suc g) attempt stream s)"

lemma attempt_primed_ok:
  assumes "in_generation cfg g s" "at_response attempt = Some body"
    "prime_body packetizer_new body = (Inr primed, pk, rest)"
  shows "attempt_ok cfg g attempt
    (attempt_primed index pool_id lease generation target attempt primed pk rest s)"
proof -
  obtain ok s1 where w: "wait_drained generation target (at_drain attempt) s = (ok, s1)" by fastforce
  then have s1: "in_generation cfg g s1"
    using in_generation_wait_drained [OF assms(1), of generation target "at_drain attempt"] by simp
  obtain ok' s2 where c: "recovery_complete primed (at_null_clock attempt) (at_stopping attempt) (at_clock attempt) s1 = (ok', s2)"
    by fastforce
  show ?thesis
  proof (cases "ok \<and> ok'")
    case False
    with w c show ?thesis by (auto simp: attempt_primed_def attempt_ok_def split: bool.split)
  next
    case True
    from s1 show ?thesis
      by (cases rule: recovery_complete_cases [where primed = primed and null_clock = "at_null_clock attempt"
            and stopping = "at_stopping attempt" and clock = "at_clock attempt"])
        (use True c w assms(2,3) in \<open>simp_all add: attempt_primed_def attempt_ok_def recovered_ok_def\<close>)
  qed
qed

lemma attempt_leased_ok:
  assumes "in_generation cfg g s"
  shows "attempt_ok cfg g attempt (attempt_leased index pool_id lease generation target attempt s)"
proof -
  have s1: "in_generation cfg g (meanwhile (at_request attempt) s)" by (rule in_generation_meanwhile [OF assms])
  show ?thesis
  proof (cases "at_response attempt")
    case None
    with s1 show ?thesis by (simp add: attempt_leased_def attempt_ok_def in_generation_meanwhile Let_def)
  next
    case (Some body)
    let ?s = "meanwhile (at_priming attempt) (meanwhile (at_request attempt) s
      \<lparr>pu_diagnostics := set_session_state (pu_diagnostics (meanwhile (at_request attempt) s)) Priming\<rparr>)"
    have s2: "in_generation cfg g ?s" using s1 by (simp add: in_generation_meanwhile)
    obtain result pk rest where p: "prime_body packetizer_new body = (result, pk, rest)" by (cases "prime_body packetizer_new body")
    show ?thesis
    proof (cases result)
      case (Inl failure)
      with Some p s2 show ?thesis by (simp add: attempt_leased_def attempt_ok_def in_generation_meanwhile Let_def)
    next
      case (Inr primed)
      with attempt_primed_ok [OF s2 Some, of primed pk rest] Some p show ?thesis
        by (simp add: attempt_leased_def Let_def)
    qed
  qed
qed

lemma run_attempt_ok:
  assumes "in_generation cfg g s"
  shows "attempt_ok cfg g attempt (run_attempt config previous pool_id generation target number attempt s)"
proof (cases "has_viewers (pu_diagnostics s)")
  case False
  then show ?thesis by (simp add: run_attempt_def attempt_ok_def)
next
  case True
  with assms show ?thesis
    by (auto simp: run_attempt_def attempt_ok_def [of _ _ _ "(Retry, _)"] Let_def in_generation_meanwhile
        intro: attempt_leased_ok split: prod.split sum.split)
qed

lemma recovery_loop_ok:
  assumes "in_generation cfg g s"
    and "recovery_loop config previous pool_id generation target number attempts s = (Some stream, s')"
  shows "\<exists>attempt \<in> set attempts. recovered_ok cfg (Suc g) attempt stream s'"
  using assms
proof (induction attempts arbitrary: s number)
  case (Cons attempt attempts)
  obtain result s1 where run: "run_attempt config previous pool_id generation target number attempt s = (result, s1)" by fastforce
  then have ok: "attempt_ok cfg g attempt (result, s1)" using run_attempt_ok [OF Cons.prems(1)] by metis
  show ?case
  proof (cases result)
    case Retry
    with Cons.IH [of s1] Cons.prems(2) run ok show ?thesis by (auto simp: attempt_ok_def)
  qed (use Cons.prems(2) run ok in \<open>auto simp: attempt_ok_def\<close>)
qed simp

lemma recover_session_ok:
  assumes "in_generation cfg g s" and "recover_session config previous pool_id attempts s = (Some stream, s')"
  shows "\<exists>attempt \<in> set attempts. recovered_ok cfg (Suc g) attempt stream s'"
proof -
  let ?g = "sn_generation (ring_snapshot (pu_ring s))" and ?t = "sn_next_sequence (ring_snapshot (pu_ring s))"
  obtain stream' s1 where loop: "recovery_loop config previous pool_id ?g ?t 0 attempts
      (s\<lparr>pu_keepalive := Some (?g, ?t, 0)\<rparr>) = (stream', s1)" by fastforce
  then have "stream' = Some stream" "s' = s1\<lparr>pu_keepalive := None\<rparr>"
    using assms(2) by (auto simp: recover_session_def Let_def split: if_splits)
  with recovery_loop_ok [of cfg g "s\<lparr>pu_keepalive := Some (?g, ?t, 0)\<rparr>"] loop assms(1) show ?thesis
    by (fastforce simp: recovered_ok_def quiet_def)
qed

text \<open>
  The packets of a ring are those of a body from a PAT on: \<open>rest\<close> is what was not read.
\<close>

definition carries :: "MpegTsRingConfig \<Rightarrow> Turn list \<Rightarrow> Turn list \<Rightarrow> SessionFailureKind \<Rightarrow> RingInner \<Rightarrow> bool" where
  "carries cfg body rest failure ring \<longleftrightarrow>
     (\<exists>used b bs more. body = used @ rest \<and> ring_reach cfg (whole_packets bs) ring \<and>
        is_pat_start (take MPEG_TS_PACKET_SIZE bs) \<and>
        drop (b * MPEG_TS_PACKET_SIZE) (body_bytes used) = bs @ more \<and>
        stream_end failure (drop (b * MPEG_TS_PACKET_SIZE) (body_bytes used)) bs ring)"

lemma pat_start_append:
  assumes "is_pat_start (take MPEG_TS_PACKET_SIZE out)" "length out mod MPEG_TS_PACKET_SIZE = 0"
  shows "is_pat_start (take MPEG_TS_PACKET_SIZE (out @ bs))"
proof -
  have "out \<noteq> []" using assms(1) by (auto simp: is_pat_start_def packet_header_def MPEG_TS_PACKET_SIZE_def)
  with assms(2) have "MPEG_TS_PACKET_SIZE \<le> length out" by (metis dvd_eq_mod_eq_0 dvd_imp_le length_greater_0_conv)
  with assms(1) show ?thesis by simp
qed

lemma carries_generation:
  assumes bound: "length (body_bytes body) div MPEG_TS_PACKET_SIZE < u64_bound"
    and primed: "prime_body packetizer_new body = (Inr out, pk, turns)"
    and ring: "quiet cfg (whole_packets out) s"
    and stream: "stream_until_failure s pk turns = (failure, s', pk', rest)"
  shows "carries cfg body rest failure (pu_ring s')"
  using bound primed
proof (cases rule: prime_body_spec)
  case (primed out' used b)
  then have out: "out' = out" by simp
  let ?u = "body_bytes used"
  have "length (pk_pending pk) < MPEG_TS_PACKET_SIZE" using primed(8) by (simp add: length_leftover)
  from stream_until_failure_spec [OF ring this, of turns]
  have "streamed cfg (whole_packets out) (leftover ?u) turns (failure, s', pk', rest)"
    using stream primed(8) by simp
  then obtain used' bs more where st: "turns = used' @ rest" "aligned (leftover ?u @ body_bytes used') = bs @ more"
      "length bs mod MPEG_TS_PACKET_SIZE = 0" "quiet cfg (whole_packets out @ whole_packets bs) s'"
      "stream_end failure (leftover ?u @ body_bytes used') bs (pu_ring s')"
    by (rule streamedE)
  have whole: "drop (b * MPEG_TS_PACKET_SIZE) (body_bytes (used @ used')) = out @ leftover ?u @ body_bytes used'"
  proof -
    have "body_bytes (used @ used') = aligned ?u @ leftover ?u @ body_bytes used'"
      by (simp add: aligned_leftover append_assoc [symmetric] del: append_assoc)
    then have "drop (b * MPEG_TS_PACKET_SIZE) (body_bytes (used @ used')) =
        drop (b * MPEG_TS_PACKET_SIZE) (aligned ?u @ leftover ?u @ body_bytes used')" by (rule arg_cong)
    also have "\<dots> = out @ leftover ?u @ body_bytes used'" using primed(3,4) out by simp
    finally show ?thesis .
  qed
  have "synced out"
  proof -
    have "take (b * MPEG_TS_PACKET_SIZE) (aligned ?u) @ out = aligned ?u" using primed(3) out by simp
    moreover have "length (take (b * MPEG_TS_PACKET_SIZE) (aligned ?u)) mod MPEG_TS_PACKET_SIZE = 0"
      using primed(4) by (simp add: min_absorb2)
    ultimately show ?thesis
      using packets_aligned_append(3) [of "take (b * MPEG_TS_PACKET_SIZE) (aligned ?u)" out] primed(7) by simp
  qed
  then have sync: "synced (out @ leftover ?u)" "aligned (out @ leftover ?u) = out" "leftover (out @ leftover ?u) = leftover ?u"
    using packets_aligned_append [of out "leftover ?u"] primed(6) out by (simp_all add: length_leftover)
  have "stream_end failure (out @ leftover ?u @ body_bytes used') (out @ bs) (pu_ring s')"
    using stream_end_step [of failure "out @ leftover ?u" "body_bytes used'" bs "pu_ring s'"] st(5) sync by simp
  moreover have "ring_reach cfg (whole_packets (out @ bs)) (pu_ring s')"
    using st(4) primed(6) out by (simp add: quiet_def chunks_exact_append_aligned)
  moreover have "is_pat_start (take MPEG_TS_PACKET_SIZE (out @ bs))"
    using pat_start_append [OF primed(5,6)] out by simp
  moreover obtain more' where "leftover ?u @ body_bytes used' = bs @ more'"
    using st(2) aligned_leftover by (metis append_assoc)
  then have "drop (b * MPEG_TS_PACKET_SIZE) (body_bytes (used @ used')) = (out @ bs) @ more'"
    unfolding whole by simp
  moreover have "body = (used @ used') @ rest" using primed(2) st(1) by simp
  ultimately show ?thesis unfolding carries_def whole [symmetric]
    by (intro exI [of _ "used @ used'"] exI [of _ b] exI [of _ "out @ bs"] exI [of _ more'] conjI)
qed simp

section \<open>Stopping\<close>

text \<open>A session that the operator has stopped has a closed ring.\<close>

definition stopped_closed :: "PumpState \<Rightarrow> bool" where
  "stopped_closed s \<longleftrightarrow>
     (ds_state (pu_diagnostics s) = Stopping \<longrightarrow> rs_closed (ri_state (pu_ring s)) \<noteq> None)"

lemma stopped_closed_other_task: "stopped_closed s \<Longrightarrow> stopped_closed (other_task task s)"
proof (cases task)
  case (KeepaliveTick clock)
  assume "stopped_closed s"
  then show ?thesis
    by (cases rule: keepalive_turn_cases [of clock s])
      (simp_all add: KeepaliveTick stopped_closed_def ring_push_closedD)
qed (simp_all add: stopped_closed_def terminate_def register_viewer_def update_viewer_def record_lag_def
    drop_viewer_def Let_def split: option.split)

lemma stopped_closed_meanwhile: "stopped_closed s \<Longrightarrow> stopped_closed (meanwhile tasks s)"
  unfolding meanwhile_def by (induction tasks arbitrary: s) (simp_all add: stopped_closed_other_task)

lemma stopped_closed_push:
  assumes "stopped_closed s" "push_packets (pu_ring s) (pu_diagnostics s) packets clock = (result, r, d)"
  shows "stopped_closed (s\<lparr>pu_ring := r, pu_diagnostics := d\<rparr>)"
  using assms push_packets_fields [OF assms(2)] by (simp add: stopped_closed_def)

lemma stopped_closed_stream:
  "stopped_closed s \<Longrightarrow> stopped_closed (fst (snd (stream_until_failure s pk body)))"
proof (induction s pk body rule: stream_until_failure.induct)
  case (4 s pk chunk tasks clock body)
  have m: "stopped_closed (meanwhile tasks s)" by (rule stopped_closed_meanwhile [OF 4(2)])
  show ?case
    using m 4(1) [OF refl] stopped_closed_push [OF m]
    by (auto simp: Let_def split: prod.split sum.split)
qed (simp_all add: stopped_closed_meanwhile)

lemma pump_expired_closed: "rs_closed (ri_state (pu_ring (pump_expired s))) \<noteq> None"
  using ring_close_closed by (simp add: pump_expired_def Let_def)

lemma pump_return_ring [simp]: "pu_ring (pump_return resources s) = pu_ring s"
  by (simp add: pump_return_def drop_pool_lease_def)

lemma pump_stop_closed:
  "stopped_closed s \<Longrightarrow> pump_stop_or_recover failure s = (False, s') \<Longrightarrow> rs_closed (ri_state (pu_ring s')) \<noteq> None"
  using ring_close_closed [of "pu_ring s" Shutdown, unfolded not_None_eq]
  by (auto simp: pump_stop_or_recover_def is_stopping_def stopped_closed_def record_failure_def Let_def split: if_splits)

lemma recovery_complete_streaming:
  "recovery_complete primed null_clock stopping clock s = (True, s') \<Longrightarrow> ds_state (pu_diagnostics s') = Streaming"
  by (auto simp: recovery_complete_def set_session_state_def Let_def split: prod.splits sum.splits)

lemma run_attempt_streaming:
  "run_attempt config previous pool_id generation target number attempt s = (Recovered stream, s') \<Longrightarrow>
   ds_state (pu_diagnostics s') = Streaming"
  by (auto simp: run_attempt_def attempt_leased_def attempt_primed_def Let_def
      split: if_splits prod.splits sum.splits option.splits bool.splits dest: recovery_complete_streaming)

lemma recovery_loop_streaming:
  "recovery_loop config previous pool_id generation target number attempts s = (Some stream, s') \<Longrightarrow>
   ds_state (pu_diagnostics s') = Streaming"
  by (induction attempts arbitrary: s number)
    (auto split: prod.splits AttemptResult.splits dest: run_attempt_streaming)

lemma recover_session_streaming:
  "recover_session config previous pool_id attempts s = (Some stream, s') \<Longrightarrow> ds_state (pu_diagnostics s') = Streaming"
  by (auto simp: recover_session_def Let_def split: if_splits prod.splits dest: recovery_loop_streaming)

lemma adopt_lease_shared [simp]:
  "pu_ring (snd (adopt_lease config resources stream s)) = pu_ring s"
  "pu_diagnostics (snd (adopt_lease config resources stream s)) = pu_diagnostics s"
  "pu_keepalive (snd (adopt_lease config resources stream s)) = pu_keepalive s"
  by (simp_all add: adopt_lease_def drop_pool_lease_def split: option.split)

lemma pump_loop_closed:
  "stopped_closed s \<Longrightarrow> rs_closed (ri_state (pu_ring (pump_loop config resources failure recoveries s))) \<noteq> None"
proof (induction recoveries arbitrary: resources failure s)
  case Nil
  then show ?case using pump_stop_closed [OF Nil, of failure] pump_expired_closed
    by (auto simp del: not_None_eq split: prod.split bool.split)
next
  case (Cons attempts recoveries)
  obtain go s1 where stop: "pump_stop_or_recover failure s = (go, s1)" by fastforce
  show ?case
  proof (cases go)
    case False
    with stop pump_stop_closed [OF Cons.prems] show ?thesis by simp
  next
    case True
    obtain recovered s2 where rec: "recover_session config (pr_endpoint resources) (pr_pool_id resources) attempts s1 = (recovered, s2)"
      by fastforce
    show ?thesis
    proof (cases recovered)
      case None
      with True stop rec pump_expired_closed show ?thesis by simp
    next
      case (Some stream)
      obtain resources' s3 where adopt: "adopt_lease config resources stream s2 = (resources', s3)" by fastforce
      obtain failure' s4 pk rest where st: "stream_until_failure s3 (rc_packetizer stream) (rc_body stream) = (failure', s4, pk, rest)"
        by (cases "stream_until_failure s3 (rc_packetizer stream) (rc_body stream)")
      have "ds_state (pu_diagnostics s3) = Streaming"
        using recover_session_streaming [of config _ _ attempts s1 stream s2] rec Some
          adopt_lease_shared(2) [of config resources stream s2] adopt by simp
      then have "stopped_closed s3" by (simp add: stopped_closed_def)
      from stopped_closed_stream [OF this, of "rc_packetizer stream" "rc_body stream"] st
      have "stopped_closed s4" by simp
      from Cons.IH [OF this, of resources' failure'] True stop rec Some adopt st show ?thesis by simp
    qed
  qed
qed


section \<open>Recovered generations\<close>

text \<open>C5: a recovered generation is the new upstream from a PAT on.  When a recovery succeeds, one of
  its attempts was answered with a body, the ring has the next generation, and when the stream of
  that body fails the ring's generation consists of the packets of the body from a packet that
  starts a PAT on, byte for byte and without a gap: all of them when the body ended, was cut off or
  timed out, and otherwise those before the lost sync byte or the closing of the ring.\<close>

theorem recovered_generation_is_the_upstream:
  assumes "ring_reach cfg es (pu_ring s)"
    and "recover_session config previous pool_id attempts s = (Some stream, s1)"
    and "\<And>attempt body. attempt \<in> set attempts \<Longrightarrow> at_response attempt = Some body \<Longrightarrow>
      length (body_bytes body) div MPEG_TS_PACKET_SIZE < u64_bound"
    and "adopt_lease config resources stream s1 = (resources', s2)"
    and "stream_until_failure s2 (rc_packetizer stream) (rc_body stream) = (failure, s3, pk, rest)"
  shows "\<exists>attempt \<in> set attempts. \<exists>body. at_response attempt = Some body \<and>
    rs_generation (ri_state (pu_ring s1)) = Suc (rs_generation (ri_state (pu_ring s))) \<and>
    carries cfg body rest failure (pu_ring s3)"
proof -
  have "in_generation cfg (rs_generation (ri_state (pu_ring s))) s"
    using assms(1) by (auto simp: in_generation_def)
  from recover_session_ok [OF this assms(2)] obtain attempt body primed where a: "attempt \<in> set attempts"
      "at_response attempt = Some body" "prime_body packetizer_new body = (Inr primed, rc_packetizer stream, rc_body stream)"
      "quiet cfg (whole_packets primed) s1" "rs_generation (ri_state (pu_ring s1)) = Suc (rs_generation (ri_state (pu_ring s)))"
    unfolding recovered_ok_def by blast
  have "quiet cfg (whole_packets primed) s2"
    using a(4) adopt_lease_shared [of config resources stream s1] assms(4) by (simp add: quiet_def)
  from carries_generation [OF assms(3) [OF a(1,2)] a(3) this assms(5)] a show ?thesis by blast
qed

text \<open>C21: a recovery undoes the operator's stop.  When the operator terminates the session while a
  recovery waits for its keepalive task to end, the recovery still completes: it opens a new
  generation of the ring that was closed, and the state of the session is \<open>Streaming\<close> again.\<close>

theorem recovery_undoes_terminate:
  assumes "ring_reach cfg es (pu_ring s)" "Suc (rs_generation (ri_state (pu_ring s))) < u64_bound"
    and "synced primed" "length primed mod MPEG_TS_PACKET_SIZE = 0" "length primed div MPEG_TS_PACKET_SIZE < u64_bound"
  shows "\<exists>s'. recovery_complete primed null_clock [OperatorTerminates] clock s = (True, s') \<and>
    ds_state (pu_diagnostics s') = Streaming \<and> rs_closed (ri_state (pu_ring s')) = None \<and>
    ring_reach cfg (whole_packets primed) (pu_ring s')"
proof -
  have "in_generation cfg (rs_generation (ri_state (pu_ring s))) s"
    using assms(1) by (auto simp: in_generation_def)
  then show ?thesis
    by (cases rule: recovery_complete_cases [where primed = primed and null_clock = null_clock
          and stopping = "[OperatorTerminates]" and clock = clock])
      (use assms(2-5) in \<open>auto simp: quiet_def\<close>)
qed

section \<open>Failover\<close>

lemma mod_shift_inj:
  assumes "(a + i) mod n = (a + j) mod n" "i < n" "j < (n :: nat)"
  shows "i = j"
  using assms
proof (induction i j rule: linorder_wlog)
  case (le i j)
  then have "n dvd (a + j) - (a + i)" by (metis mod_eq_dvd_iff_nat add_le_cancel_left)
  then have "n dvd j - i" by simp
  with le show ?case by (auto dest: dvd_imp_le)
qed metis

text \<open>a recovery tries every endpoint.  With a second endpoint, the first attempt goes to another
  endpoint than the one that failed; any \<open>n\<close> consecutive attempts of \<open>n\<close> endpoints try each of them
  once, and the endpoint that failed comes last.  (The sum wraps only after \<open>2^64\<close> attempts.)\<close>

theorem failover_tries_every_endpoint:
  assumes "previous < n" "previous + k + n < u64_bound"
  shows "distinct (map (recovery_endpoint n previous) [k..<k + n]) \<and>
    set (map (recovery_endpoint n previous) [k..<k + n]) = {..<n} \<and>
    (1 < n \<longrightarrow> recovery_endpoint n previous 0 \<noteq> previous \<and> recovery_endpoint n previous (n - 1) = previous)"
proof (intro conjI impI)
  define a where "a = previous + (if 1 < n then 1 else 0) + k"
  have eq: "recovery_endpoint n previous (k + i) = (a + i) mod n" if "i < n" for i
    using assms that by (simp add: recovery_endpoint_def a_def add.assoc)
  have map_eq: "map (recovery_endpoint n previous) [k..<k + n] = map (\<lambda>i. (a + i) mod n) [0..<n]"
    using eq by (intro nth_equalityI) simp_all
  have inj: "inj_on (\<lambda>i. (a + i) mod n) {..<n}" by (auto simp: inj_on_def intro: mod_shift_inj)
  show "distinct (map (recovery_endpoint n previous) [k..<k + n])"
    unfolding map_eq using inj by (simp add: distinct_map atLeast0LessThan)
  have "(\<lambda>i. (a + i) mod n) ` {..<n} \<subseteq> {..<n}" using assms(1) by auto
  then show "set (map (recovery_endpoint n previous) [k..<k + n]) = {..<n}"
    unfolding map_eq using inj by (simp add: atLeast0LessThan endo_inj_surj)
  assume "1 < n"
  then show "recovery_endpoint n previous 0 \<noteq> previous" "recovery_endpoint n previous (n - 1) = previous"
    using assms by (cases "Suc previous < n"; auto simp: recovery_endpoint_def mod_if)+
qed

theorem failover_tries_every_endpoint_witness:
  "map (recovery_endpoint 3 1) [0..<3] = [2, 0, 1] \<and> distinct (map (recovery_endpoint 3 1) [0..<3])"
proof
  show "map (recovery_endpoint 3 1) [0..<3] = [2, 0, 1]"
    by (simp add: recovery_endpoint_def upt_rec)
  show "distinct (map (recovery_endpoint 3 1) [0..<3])"
    using failover_tries_every_endpoint [of 1 3 0] by simp
qed

section \<open>A recovery of one attempt\<close>

text \<open>One viewer that has read both packets of the sample ring, one endpoint, one attempt that succeeds.\<close>

definition sample_turns :: "Turn list" where
  "sample_turns = [(Chunk pat_packet, [], 0, 0), (Chunk (pmt_packet @ [0x47]), [], 0, 0)]"

definition sample_attempt :: Attempt where
  "sample_attempt = \<lparr>at_dropped = [], at_request = [], at_response = Some sample_turns, at_priming = [],
     at_drain = [], at_null_clock = (0, 0), at_stopping = [], at_clock = (0, 0), at_retry = []\<rparr>"

definition sample_config :: PumpConfig where
  "sample_config = \<lparr>hc_allocation_source_id = ''news'', hc_allocation_generation = 1,
     hc_endpoints = [''pool''], hc_recovery = policy_default\<rparr>"

definition sample_pump :: PumpState where
  "sample_pump = \<lparr>pu_ring = sample_ring, pu_diagnostics = snd (register_viewer state_new 0 2),
     pu_providers = (\<lambda>_. None), pu_keepalive = None\<rparr>"

lemma sample_pump_generation: "in_generation sample_cfg 0 (sample_pump\<lparr>pu_diagnostics := d, pu_providers := p, pu_keepalive := k\<rparr>)"
  using sample_reach sample_ring_state(1) by (auto simp: in_generation_def sample_pump_def)

lemma sample_primed:
  "synced (pat_packet @ pmt_packet)" "length (pat_packet @ pmt_packet) mod MPEG_TS_PACKET_SIZE = 0"
  "length (pat_packet @ pmt_packet) div MPEG_TS_PACKET_SIZE < u64_bound"
  by (simp add: synced_def) (simp_all add: MPEG_TS_PACKET_SIZE_def)

lemma sample_recovers:
  obtains s' where "recover_session sample_config 0 ''pool'' [sample_attempt] sample_pump =
    (Some \<lparr>rc_endpoint_index = 0, rc_body = [], rc_packetizer = \<lparr>pk_pending = [0x47]\<rparr>, rc_lease = None\<rparr>, s')"
proof -
  let ?d = "set_session_state (record_reconnect (set_session_state (snd (register_viewer state_new 0 2)) Recovering) False) Priming"
  let ?s = "sample_pump\<lparr>pu_diagnostics := ?d, pu_providers := (\<lambda>_. None), pu_keepalive := Some (0, 2, 0)\<rparr>"
  obtain s' where complete: "recovery_complete (pat_packet @ pmt_packet) (0, 0) [] (0, 0) ?s = (True, s')"
    by (cases rule: recovery_complete_cases [OF sample_pump_generation [where d = ?d and p = "\<lambda>_. None" and k = "Some (0, 2, 0)"],
          where primed = "pat_packet @ pmt_packet" and null_clock = "(0, 0)" and stopping = "[]" and clock = "(0, 0)"])
      (use sample_primed in auto)
  have snap: "sn_generation (ring_snapshot sample_ring) = 0" "sn_next_sequence (ring_snapshot sample_ring) = 2"
    using sample_ring_state(1) ring_reach_store(3) [OF sample_reach] by (simp_all add: ring_snapshot_def Let_def)
  have drained: "viewers_drained ?d 0 2"
    by (simp add: viewers_drained_def position_drained_def call_defs Let_def state_new_def)
  have "run_attempt sample_config 0 ''pool'' 0 2 0 sample_attempt (sample_pump\<lparr>pu_keepalive := Some (0, 2, 0)\<rparr>) =
      attempt_leased 0 ''pool'' None 0 2 sample_attempt (sample_pump\<lparr>pu_diagnostics :=
        record_reconnect (set_session_state (snd (register_viewer state_new 0 2)) Recovering) False,
        pu_providers := (\<lambda>_. None), pu_keepalive := Some (0, 2, 0)\<rparr>)"
    by (simp add: run_attempt_def recovery_attempt_def recovery_endpoint_def acquire_recovery_lease_def
        sample_config_def sample_pump_def has_viewers_def register_viewer_def Let_def)
  also have "\<dots> = attempt_primed 0 ''pool'' None 0 2 sample_attempt (pat_packet @ pmt_packet) \<lparr>pk_pending = [0x47]\<rparr> [] ?s"
    using prime_sample [of "([] :: OtherTask list, 0 :: instant, 0 :: instant)" "([], 0, 0)"]
    by (simp add: attempt_leased_def sample_attempt_def sample_turns_def meanwhile_def Let_def sample_pump_def)
  also have "\<dots> = (Recovered \<lparr>rc_endpoint_index = 0, rc_body = [], rc_packetizer = \<lparr>pk_pending = [0x47]\<rparr>, rc_lease = None\<rparr>, s')"
    using drained complete by (simp add: attempt_primed_def sample_attempt_def sample_pump_def)
  finally show thesis
    using that snap by (simp add: recover_session_def sample_config_def sample_pump_def policy_default_def
        DEFAULT_RECOVERY_WINDOW_def)
qed

theorem recovered_generation_is_the_upstream_witness:
  "\<exists>stream s'. recover_session sample_config 0 ''pool'' [sample_attempt] sample_pump = (Some stream, s') \<and>
     carries sample_cfg sample_turns [] IncompleteTail (pu_ring s')"
proof -
  obtain s' where rec: "recover_session sample_config 0 ''pool'' [sample_attempt] sample_pump =
    (Some \<lparr>rc_endpoint_index = 0, rc_body = [], rc_packetizer = \<lparr>pk_pending = [0x47]\<rparr>, rc_lease = None\<rparr>, s')"
    (is "_ = (Some ?stream, s')") by (rule sample_recovers)
  let ?resources = "\<lparr>pr_endpoint = 0, pr_pool_id = ''pool'', pr_lease = 1\<rparr>"
  have reach: "ring_reach sample_cfg [pat_packet, pmt_packet] (pu_ring sample_pump)"
    using sample_reach by (simp add: sample_pump_def)
  have bound: "length (body_bytes body) div MPEG_TS_PACKET_SIZE < u64_bound"
    if "attempt \<in> set [sample_attempt]" "at_response attempt = Some body" for attempt body
    using that by (auto simp: sample_attempt_def sample_turns_def MPEG_TS_PACKET_SIZE_def)
  have adopt: "adopt_lease sample_config ?resources ?stream s' = (?resources, s')" by (simp add: adopt_lease_def)
  have st: "stream_until_failure s' (rc_packetizer ?stream) (rc_body ?stream) = (IncompleteTail, s', rc_packetizer ?stream, [])"
    by simp
  from recovered_generation_is_the_upstream [OF reach rec bound adopt st] rec show ?thesis
    by (auto simp: sample_attempt_def)
qed

theorem recovery_undoes_terminate_witness:
  "\<exists>s'. recovery_complete (pat_packet @ pmt_packet) (0, 0) [OperatorTerminates] (0, 0) sample_pump = (True, s') \<and>
     ds_state (pu_diagnostics s') = Streaming \<and> rs_closed (ri_state (pu_ring s')) = None"
proof -
  have "ring_reach sample_cfg [pat_packet, pmt_packet] (pu_ring sample_pump)"
    "Suc (rs_generation (ri_state (pu_ring sample_pump))) < u64_bound"
    using sample_reach sample_ring_state(1) by (simp_all add: sample_pump_def)
  from recovery_undoes_terminate [OF this sample_primed] show ?thesis by blast
qed

section \<open>Viewers\<close>

lemma slice_whole_packets:
  assumes "f + k \<le> length (whole_packets bs)"
  shows "concat (slice f k (whole_packets bs)) = slice (f * MPEG_TS_PACKET_SIZE) (k * MPEG_TS_PACKET_SIZE) bs"
    "length (concat (slice f k (whole_packets bs))) = k * MPEG_TS_PACKET_SIZE"
proof -
  have eq: "concat (slice f k (whole_packets bs)) =
      slice (f * MPEG_TS_PACKET_SIZE) (k * MPEG_TS_PACKET_SIZE) (take (length (whole_packets bs) * MPEG_TS_PACKET_SIZE) bs)"
    using slice_concat [of "whole_packets bs" MPEG_TS_PACKET_SIZE f k]
    by (simp add: chunks_exact_lengths concat_chunks_exact length_chunks_exact)
  have "(f + k) * MPEG_TS_PACKET_SIZE \<le> length (whole_packets bs) * MPEG_TS_PACKET_SIZE"
    using assms by (rule mult_le_mono1)
  then have le: "f * MPEG_TS_PACKET_SIZE + k * MPEG_TS_PACKET_SIZE \<le> length (whole_packets bs) * MPEG_TS_PACKET_SIZE"
    by (simp add: distrib_right)
  have "length (whole_packets bs) * MPEG_TS_PACKET_SIZE \<le> length bs" by (simp add: length_chunks_exact)
  moreover have "k * MPEG_TS_PACKET_SIZE \<le> length (whole_packets bs) * MPEG_TS_PACKET_SIZE - f * MPEG_TS_PACKET_SIZE"
    using le by linarith
  ultimately show "concat (slice f k (whole_packets bs)) = slice (f * MPEG_TS_PACKET_SIZE) (k * MPEG_TS_PACKET_SIZE) bs"
    "length (concat (slice f k (whole_packets bs))) = k * MPEG_TS_PACKET_SIZE"
    unfolding eq using le by (simp_all add: slice_def drop_take min_def) linarith
qed
lemma viewer_step_yield:
  assumes "viewer_step ring later d viewer n now = (Yield hold out, viewer', d')"
  obtains c g f where "try_next ring (vw_cursor viewer) n = Inr (c, Some (Packets g f out))" "vw_cursor viewer' = c"
  using assms
  by (auto simp: viewer_step_def viewer_poll_def viewer_turn_def Let_def
      split: sum.splits prod.splits option.splits RingRead.splits RingCloseReason.splits if_splits)


lemma sample_carries: "carries sample_cfg sample_turns [] IncompleteTail sample_ring"
proof -
  let ?in = "(pat_packet @ pmt_packet) @ [0x47]"
  have bytes: "drop (0 * MPEG_TS_PACKET_SIZE) (body_bytes sample_turns) = ?in" by (simp add: sample_turns_def)
  have "length [0x47 :: u8] < MPEG_TS_PACKET_SIZE" by (simp add: MPEG_TS_PACKET_SIZE_def)
  then have "aligned ?in = pat_packet @ pmt_packet"
    using packets_aligned_append(1) [OF sample_primed(2), of "[0x47]"] by simp
  then have ends: "stream_end IncompleteTail ?in (pat_packet @ pmt_packet) sample_ring"
    by (simp add: stream_end_def)
  have "is_pat_start (take MPEG_TS_PACKET_SIZE (pat_packet @ pmt_packet))"
    by (simp add: is_pat_start_def header_pat_packet PAT_PID_def)
  with ends sample_reach show ?thesis unfolding carries_def
    by (intro exI [of _ sample_turns] exI [of _ 0] exI [of _ "pat_packet @ pmt_packet"] exI [of _ "[0x47]"])
      (simp add: bytes [simplified])
qed


end
