(* ===== verification/Probe.thy ===== *)
theory Probe
  imports Pump
begin

text \<open>
  The stream health probe (\<open>crates/media/src/probe.rs\<close>).  \<open>analyze_transport_stream\<close> is a loop
  over the chunks of the response; a chunk event is the bytes, an error of the body, its end or the
  deadline.  \<open>run\<close> holds a provider slot around it; the response of the HTTP client is an argument.
\<close>

section \<open>Codecs\<close>

definition codec_name_for_stream_type :: "u8 \<Rightarrow> string option" where
  "codec_name_for_stream_type stream_type =
     (if stream_type = 0x01 then Some ''mpeg1-video''
      else if stream_type = 0x02 then Some ''mpeg2-video''
      else if stream_type = 0x10 then Some ''mpeg4-video''
      else if stream_type = 0x1b then Some ''h264''
      else if stream_type = 0x24 then Some ''h265''
      else if stream_type = 0x03 then Some ''mpeg1-audio''
      else if stream_type = 0x04 then Some ''mp2''
      else if stream_type = 0x0f then Some ''aac''
      else if stream_type = 0x11 then Some ''aac-latm''
      else if stream_type = 0x80 \<or> stream_type = 0x81 then Some ''ac3''
      else if stream_type = 0x82 then Some ''dts''
      else if stream_type = 0x83 \<or> stream_type = 0x84 \<or> stream_type = 0x87 then Some ''eac3''
      else None)"

record StreamProbeQuality =
  pq_video_codec :: "string option"
  pq_audio_codec :: "string option"

definition StreamProbeQuality_default :: StreamProbeQuality where
  "StreamProbeQuality_default = \<lparr>pq_video_codec = None, pq_audio_codec = None\<rparr>"

text \<open>\<open>str::contains\<close> with a string pattern.\<close>

definition str_contains :: "string \<Rightarrow> string \<Rightarrow> bool" where
  "str_contains name pat = list_ex (\<lambda>w. w = pat) (windows (length pat) name)"

definition classify_stream :: "ElementaryStreamInfo \<Rightarrow> StreamProbeQuality \<Rightarrow> StreamProbeQuality" where
  "classify_stream entry quality =
     (case codec_name_for_stream_type (es_stream_type entry) of
        None \<Rightarrow> quality
      | Some name \<Rightarrow>
          if str_contains name ''video'' \<or> es_stream_type entry \<in> {0x01, 0x02, 0x10, 0x1b, 0x24}
          then (if pq_video_codec quality = None then quality\<lparr>pq_video_codec := Some name\<rparr> else quality)
          else if pq_audio_codec quality = None then quality\<lparr>pq_audio_codec := Some name\<rparr>
          else quality)"

definition classify_streams :: "ElementaryStreamInfo list \<Rightarrow> StreamProbeQuality" where
  "classify_streams streams = fold classify_stream streams StreamProbeQuality_default"

section \<open>Analysis\<close>

datatype StreamProbeFailure =
    CapacityFull
  | ProbeStartupTimeout
  | ProbeHttp
  | HttpStatus
  | NoPat
  | NoPmt
  | NoVideo
  | NoAudio
  | InsufficientPackets usize usize
  | MalformedTransport

datatype StreamProbeOutcome =
    Alive StreamProbeQuality usize
  | Dead StreamProbeFailure
  | Skipped

record ProbeState =
  pb_tracker :: PatPmtTracker
  pb_packets_seen :: usize
  pb_pat_seen :: bool
  pb_pmt_seen :: bool
  pb_quality :: StreamProbeQuality

definition ProbeState_new :: ProbeState where
  "ProbeState_new = \<lparr>pb_tracker = PatPmtTracker_default, pb_packets_seen = 0, pb_pat_seen = False,
     pb_pmt_seen = False, pb_quality = StreamProbeQuality_default\<rparr>"

definition probe_packet :: "bytes \<Rightarrow> ProbeState \<Rightarrow> ProbeState" where
  "probe_packet packet s =
     (let seen = wrapping_add_u64 (pb_packets_seen s) 1;
          (tracker, observed) = tr_observe (pb_tracker s) packet seen;
          s = s\<lparr>pb_tracker := tracker, pb_packets_seen := seen\<rparr>
      in if observed \<noteq> None then
           (let quality = (case tr_completed_pmt tracker of
                None \<Rightarrow> pb_quality s
              | Some (section, program) \<Rightarrow>
                  (case parse_pmt_elementary_streams section program of
                     None \<Rightarrow> pb_quality s
                   | Some streams \<Rightarrow> classify_streams streams))
            in s\<lparr>pb_pat_seen := True, pb_pmt_seen := True, pb_quality := quality\<rparr>)
         else if tr_candidate_start tracker \<noteq> None then s\<lparr>pb_pat_seen := True\<rparr>
         else s)"

definition probe_alive :: "usize \<Rightarrow> ProbeState \<Rightarrow> bool" where
  "probe_alive min_packets s \<longleftrightarrow>
     pb_pmt_seen s \<and> pq_video_codec (pb_quality s) \<noteq> None \<and> pq_audio_codec (pb_quality s) \<noteq> None
     \<and> pb_packets_seen s \<ge> min_packets"

text \<open>The checks after the loop.\<close>

definition probe_verdict :: "usize \<Rightarrow> ProbeState \<Rightarrow> StreamProbeOutcome" where
  "probe_verdict min_packets s =
     (if \<not> pb_pat_seen s then Dead NoPat
      else if \<not> pb_pmt_seen s then Dead NoPmt
      else if pq_video_codec (pb_quality s) = None then Dead NoVideo
      else if pq_audio_codec (pb_quality s) = None then Dead NoAudio
      else if pb_packets_seen s < min_packets then
        Dead (InsufficientPackets (pb_packets_seen s) min_packets)
      else Alive (pb_quality s) (pb_packets_seen s))"

text \<open>
  The loop.  \<open>BodyError\<close> is an item \<open>Err\<close>, \<open>BodyTimeout\<close> the deadline, and the end of the list
  the end of the body.
\<close>

fun analyze_loop :: "usize \<Rightarrow> MpegTsPacketizer \<Rightarrow> ProbeState \<Rightarrow> BodyEvent list \<Rightarrow> StreamProbeOutcome" where
  "analyze_loop min_packets packetizer s [] = probe_verdict min_packets s"
| "analyze_loop min_packets packetizer s (BodyTimeout # events) = probe_verdict min_packets s"
| "analyze_loop min_packets packetizer s (BodyError # events) = Dead ProbeHttp"
| "analyze_loop min_packets packetizer s (Chunk chunk # events) =
     (case packetizer_push packetizer chunk of
        (Inl (InvalidSyncByte _ _), packetizer) \<Rightarrow> Dead MalformedTransport
      | (Inl (IncompletePacket _), packetizer) \<Rightarrow> analyze_loop min_packets packetizer s events
      | (Inr completed, packetizer) \<Rightarrow>
          if completed = [] then analyze_loop min_packets packetizer s events
          else let s = fold probe_packet (chunks_exact MPEG_TS_PACKET_SIZE completed) s
            in if probe_alive min_packets s then Alive (pb_quality s) (pb_packets_seen s)
               else analyze_loop min_packets packetizer s events)"

definition analyze_transport_stream :: "BodyEvent list \<Rightarrow> usize \<Rightarrow> StreamProbeOutcome" where
  "analyze_transport_stream events min_packets =
     analyze_loop min_packets packetizer_new ProbeState_new events"

section \<open>The probe\<close>

text \<open>
  What the HTTP client returned: no response in time, a failed request, or a response with its
  status check and its body.  The lease is dropped on every return.
\<close>

datatype ProbeResponse = NoResponse | RequestFailed | Response bool "BodyEvent list"

definition probe_run ::
    "BrokerWorld \<Rightarrow> string \<Rightarrow> u64 list \<Rightarrow> ProbeResponse \<Rightarrow> usize \<Rightarrow> StreamProbeOutcome \<times> BrokerWorld" where
  "probe_run broker session_key dropped response min_packets =
     (case try_acquire broker session_key dropped of
        (Inl (AtCapacity _ _ _), broker) \<Rightarrow> (Skipped, broker)
      | (Inl LeaseIdExhausted, broker) \<Rightarrow> (Dead CapacityFull, broker)
      | (Inr lease, broker) \<Rightarrow>
          ((case response of
              NoResponse \<Rightarrow> Dead ProbeStartupTimeout
            | RequestFailed \<Rightarrow> Dead ProbeHttp
            | Response success events \<Rightarrow>
                if \<not> success then Dead HttpStatus else analyze_transport_stream events min_packets),
           drop_lease lease broker))"

section \<open>Properties\<close>

abbreviation probe_after :: "bytes list \<Rightarrow> ProbeState" where
  "probe_after packets \<equiv> fold probe_packet packets ProbeState_new"

text \<open>The codecs come from a section that the tracker completed on a prefix of the packets.\<close>

definition quality_source :: "bytes list \<Rightarrow> StreamProbeQuality \<Rightarrow> bool" where
  "quality_source packets quality \<longleftrightarrow>
     (\<exists>k \<le> length packets. \<exists>section program streams.
        tr_completed_pmt (pb_tracker (probe_after (take k packets))) = Some (section, program) \<and>
        parse_pmt_elementary_streams section program = Some streams \<and> quality = classify_streams streams)"

lemma quality_source_append: "quality_source packets q \<Longrightarrow> quality_source (packets @ extra) q"
  unfolding quality_source_def
proof (elim exE conjE)
  fix k assume "k \<le> length packets"
  then have "take k (packets @ extra) = take k packets" "k \<le> length (packets @ extra)" by simp_all
  then show "tr_completed_pmt (pb_tracker (probe_after (take k packets))) = Some (section, program) \<Longrightarrow>
    parse_pmt_elementary_streams section program = Some streams \<Longrightarrow> q = classify_streams streams \<Longrightarrow>
    \<exists>k \<le> length (packets @ extra). \<exists>section program streams.
      tr_completed_pmt (pb_tracker (probe_after (take k (packets @ extra)))) = Some (section, program) \<and>
      parse_pmt_elementary_streams section program = Some streams \<and> q = classify_streams streams"
    for "section" "program" streams by metis
qed

lemma probe_after_seen:
  "length packets < u64_bound \<Longrightarrow> pb_packets_seen (probe_after packets) = length packets"
proof (induction packets rule: rev_induct)
  case (snoc p ps)
  have "pb_packets_seen (probe_packet p s) = wrapping_add_u64 (pb_packets_seen s) 1" for s
    by (simp add: probe_packet_def Let_def split: prod.splits option.splits)
  with snoc show ?case by (simp add: wrapping_add_u64_def)
qed (simp add: ProbeState_new_def)

lemma probe_after_quality:
  "pb_quality (probe_after packets) = StreamProbeQuality_default \<or> quality_source packets (pb_quality (probe_after packets))"
proof (induction packets rule: rev_induct)
  case (snoc p ps)
  let ?s = "probe_after ps" and ?s' = "probe_after (ps @ [p])"
  have step: "?s' = probe_packet p ?s" by simp
  have "pb_quality ?s' = pb_quality ?s \<or> (\<exists>section program streams.
      tr_completed_pmt (pb_tracker ?s') = Some (section, program) \<and>
      parse_pmt_elementary_streams section program = Some streams \<and> pb_quality ?s' = classify_streams streams)"
    unfolding step by (auto simp: probe_packet_def Let_def split: prod.splits option.splits)
  then show ?case
  proof
    assume "pb_quality ?s' = pb_quality ?s"
    with snoc.IH quality_source_append show ?thesis by metis
  next
    assume "\<exists>section program streams. tr_completed_pmt (pb_tracker ?s') = Some (section, program) \<and>
      parse_pmt_elementary_streams section program = Some streams \<and> pb_quality ?s' = classify_streams streams"
    then have "quality_source (ps @ [p]) (pb_quality ?s')"
      unfolding quality_source_def by (intro exI [of _ "length (ps @ [p])"]) simp
    then show ?thesis by simp
  qed
qed (simp add: ProbeState_new_def)

text \<open>What the body carries before its end.\<close>

fun received :: "BodyEvent list \<Rightarrow> bytes" where
  "received (Chunk c # events) = c @ received events"
| "received _ = []"

definition ts_packets :: "bytes list \<Rightarrow> bool" where
  "ts_packets packets \<longleftrightarrow> (\<forall>p \<in> set packets. length p = MPEG_TS_PACKET_SIZE \<and> p ! 0 = 0x47)"

definition probe_sound :: "bytes \<Rightarrow> usize \<Rightarrow> StreamProbeQuality \<Rightarrow> usize \<Rightarrow> bool" where
  "probe_sound bs min_packets quality n \<longleftrightarrow>
     min_packets \<le> n \<and> pq_video_codec quality \<noteq> None \<and> pq_audio_codec quality \<noteq> None \<and>
     (\<exists>packets rest. bs = concat packets @ rest \<and> n = length packets \<and>
        ts_packets packets \<and> quality_source packets quality)"

lemma probe_soundI:
  assumes "ts_packets packets" "length packets < u64_bound" "s = probe_after packets"
    and "min_packets \<le> pb_packets_seen s" "pq_video_codec (pb_quality s) \<noteq> None" "pq_audio_codec (pb_quality s) \<noteq> None"
  shows "probe_sound (concat packets @ rest) min_packets (pb_quality s) (pb_packets_seen s)"
proof -
  have "pb_quality s \<noteq> StreamProbeQuality_default" using assms(5) by (auto simp: StreamProbeQuality_default_def)
  with probe_after_quality [of packets] have "quality_source packets (pb_quality s)" using assms(3) by simp
  with assms probe_after_seen [OF assms(2)] show ?thesis
    unfolding probe_sound_def by metis
qed

lemma ts_packets_chunks:
  assumes "synced bs"
  shows "ts_packets (chunks_exact MPEG_TS_PACKET_SIZE bs)"
    "concat (chunks_exact MPEG_TS_PACKET_SIZE bs) = aligned bs"
  using assms chunks_exact_lengths [of _ MPEG_TS_PACKET_SIZE bs] concat_chunks_exact [of MPEG_TS_PACKET_SIZE bs]
  by (simp_all add: ts_packets_def synced_def aligned_def)

lemma ts_packets_append: "ts_packets (xs @ ys) \<longleftrightarrow> ts_packets xs \<and> ts_packets ys"
  by (auto simp: ts_packets_def)

lemma ts_packets_length: "ts_packets packets \<Longrightarrow> length (concat packets) = length packets * MPEG_TS_PACKET_SIZE"
  by (induction packets) (simp_all add: ts_packets_def)

lemma ts_packets_bound:
  assumes "ts_packets packets" "length (concat packets @ rest) div MPEG_TS_PACKET_SIZE < u64_bound"
  shows "length packets < u64_bound"
proof -
  have "length packets \<le> length (concat packets @ rest) div MPEG_TS_PACKET_SIZE"
    using ts_packets_length [OF assms(1)] by simp
  with assms(2) show ?thesis by simp
qed

lemma analyze_loop_chunk:
  assumes "synced (pk_pending pk @ c)"
  shows "analyze_loop min_packets pk s (Chunk c # events) =
    (let bs = pk_pending pk @ c; s = fold probe_packet (chunks_exact MPEG_TS_PACKET_SIZE bs) s
     in if aligned bs \<noteq> [] \<and> probe_alive min_packets s then Alive (pb_quality s) (pb_packets_seen s)
        else analyze_loop min_packets \<lparr>pk_pending = leftover bs\<rparr> s events)"
proof -
  have "aligned (pk_pending pk @ c) = [] \<Longrightarrow> chunks_exact MPEG_TS_PACKET_SIZE (pk_pending pk @ c) = []"
    using chunks_aligned [of "pk_pending pk @ c"] by (simp add: MPEG_TS_PACKET_SIZE_def)
  with assms show ?thesis by (auto simp: packetizer_push_spec Let_def)
qed

lemma analyze_loop_sound:
  assumes "analyze_loop min_packets pk (probe_after packets) events = Alive quality n" "ts_packets packets"
    and "length (concat packets @ pk_pending pk @ received events) div MPEG_TS_PACKET_SIZE < u64_bound"
  shows "probe_sound (concat packets @ pk_pending pk @ received events) min_packets quality n"
  using assms
proof (induction events arbitrary: pk packets)
  case Nil
  with ts_packets_bound [OF Nil.prems(2,3)] show ?case
    by (auto simp: probe_verdict_def split: if_splits intro!: probe_soundI)
next
  case (Cons event events)
  show ?case
  proof (cases event)
    case (Chunk c)
    let ?bs = "pk_pending pk @ c"
    let ?next = "packets @ chunks_exact MPEG_TS_PACKET_SIZE ?bs"
    show ?thesis
    proof (cases "synced ?bs")
      case False
      with Cons.prems(1) Chunk show ?thesis by (simp add: packetizer_push_spec Let_def split: prod.splits)
    next
      case True
      have bytes: "concat packets @ pk_pending pk @ received (event # events) =
          concat ?next @ pk_pending \<lparr>pk_pending = leftover ?bs\<rparr> @ received events"
        using ts_packets_chunks(2) [OF True] aligned_leftover [of ?bs] Chunk by simp
      have wp: "ts_packets ?next"
        using ts_packets_chunks(1) [OF True] Cons.prems(2) by (simp add: ts_packets_append)
      show ?thesis
      proof (cases "aligned ?bs \<noteq> [] \<and> probe_alive min_packets (probe_after ?next)")
        case alive: True
        with Cons.prems(1) Chunk have "quality = pb_quality (probe_after ?next)" "n = pb_packets_seen (probe_after ?next)"
          by (simp_all add: analyze_loop_chunk [OF True] Let_def del: analyze_loop.simps)
        with probe_soundI [OF wp ts_packets_bound [OF wp Cons.prems(3) [unfolded bytes]] refl] alive show ?thesis
          unfolding bytes by (simp add: probe_alive_def)
      next
        case False
        with Cons.prems(1) Chunk True have
          "analyze_loop min_packets \<lparr>pk_pending = leftover ?bs\<rparr> (probe_after ?next) events = Alive quality n"
          by (simp add: analyze_loop_chunk [OF True] Let_def del: analyze_loop.simps split: if_splits)
        from Cons.IH [OF this wp] Cons.prems(3) show ?thesis unfolding bytes by simp
      qed
    qed
  next
    case BodyTimeout
    with Cons.prems(1) ts_packets_bound [OF Cons.prems(2,3)] Cons.prems(2) show ?thesis
      by (auto simp: probe_verdict_def split: if_splits intro!: probe_soundI)
  qed (use Cons.prems(1) in simp)
qed

text \<open>
  A probe that reports a live stream is right.  The body begins with as many whole, synchronised
  transport packets as the outcome counts, at least the required number; and the codecs it names, both
  known, are those of a PMT section that the tracker completed within these packets.\<close>

theorem probe_alive_is_sound:
  assumes "analyze_transport_stream events min_packets = Alive quality n"
    and "length (received events) div MPEG_TS_PACKET_SIZE < u64_bound"
  shows "probe_sound (received events) min_packets quality n"
  using analyze_loop_sound [of min_packets packetizer_new "[]" events quality n] assms
  by (simp add: analyze_transport_stream_def packetizer_new_def ts_packets_def)

definition av_pmt :: bytes where
  "av_pmt = [0x02, 0xb0, 0x17, 0x00, 0x01, 0xc1, 0x00, 0x00, 0xe1, 0x01, 0xf0, 0x00,
     0x1b, 0xe1, 0x01, 0xf0, 0x00, 0x0f, 0xe1, 0x02, 0xf0, 0x00]"

definition av_packet :: bytes where
  "av_packet = ts_packet 0x41 0x00 0x10 (0 # with_crc av_pmt)"

lemma length_av_pmt [simp]: "length av_pmt = 22"
  by (simp add: av_pmt_def)

lemma av_packet_header: "packet_header av_packet = Some \<lparr>ph_pid = 0x100, ph_payload_unit_start = True,
   ph_continuity_counter = 0, ph_payload = 0 # with_crc av_pmt @ replicate 157 0xff\<rparr>"
  by (simp add: packet_header_def av_packet_def ts_packet_def MPEG_TS_PACKET_SIZE_def pid_of_def)

lemma av_streams: "parse_pmt_elementary_streams (with_crc av_pmt) 1 =
   Some [\<lparr>es_stream_type = 0x1b, es_pid = 0x101\<rparr>, \<lparr>es_stream_type = 0x0f, es_pid = 0x102\<rparr>]"
proof -
  have "get_range (with_crc av_pmt) 12 17 = Some [0x1b, 0xe1, 0x01, 0xf0, 0x00]"
    "get_range (with_crc av_pmt) 17 22 = Some [0x0f, 0xe1, 0x02, 0xf0, 0x00]"
    by (simp_all add: get_range_def slice_def with_crc_def) (simp_all add: av_pmt_def to_be_bytes_def)
  then have "pmt_stream_loop (with_crc av_pmt) 22 12 [] =
      Some [\<lparr>es_stream_type = 0x1b, es_pid = 0x101\<rparr>, \<lparr>es_stream_type = 0x0f, es_pid = 0x102\<rparr>]"
    by (simp add: pmt_stream_loop.simps length_of_def pid_of_def)
  then show ?thesis
    by (simp add: parse_pmt_elementary_streams_def av_pmt_def PMT_TABLE_ID_def length_of_def u16_be_def)
qed

lemma av_matching: "is_matching_pmt (with_crc av_pmt) 1"
  using av_streams by (simp add: is_matching_pmt_iff)

definition pat_tracker :: PatPmtTracker where
  "pat_tracker = PatPmtTracker_default\<lparr>tr_pat := sa_clear SectionAssembler_default,
     tr_candidate := Some \<lparr>pc_program_number = 1, pc_pid = 0x100, pc_pat_start_sequence = Suc 0,
       pc_assembler = SectionAssembler_default\<rparr>\<rparr>"

lemma av_tracker:
  "tr_observe PatPmtTracker_default pat_packet (Suc 0) = (pat_tracker, None)"
  "snd (tr_observe pat_tracker av_packet (Suc (Suc 0))) = Some (Suc 0)"
  "tr_completed_pmt (fst (tr_observe pat_tracker av_packet (Suc (Suc 0)))) = Some (with_crc av_pmt, 1)"
proof -
  have wf: "section_wf (with_crc av_pmt)"
    by (simp add: section_wf_def av_pmt_def MAX_SECTION_BYTES_def length_of_def)
  show "tr_observe PatPmtTracker_default pat_packet (Suc 0) = (pat_tracker, None)"
    by (simp add: pat_tracker_def tr_observe_def header_pat_packet tr_observe_pat_def
        tr_observe_pmt_def PAT_PID_def sa_observe_single [OF _ _ section_wf_samples(1)]
        parse_sample_pat PatPmtTracker_default_def)
  show "snd (tr_observe pat_tracker av_packet (Suc (Suc 0))) = Some (Suc 0)"
    "tr_completed_pmt (fst (tr_observe pat_tracker av_packet (Suc (Suc 0)))) = Some (with_crc av_pmt, 1)"
    by (simp_all add: pat_tracker_def tr_observe_def av_packet_header tr_observe_pat_def
        tr_observe_pmt_def PAT_PID_def sa_observe_single [OF _ _ wf]
        av_matching PatPmtTracker_default_def tr_completed_pmt_def)
qed

definition av_quality :: StreamProbeQuality where
  "av_quality = \<lparr>pq_video_codec = Some ''h264'', pq_audio_codec = Some ''aac''\<rparr>"

lemma av_probe:
  "pb_quality (probe_after [pat_packet, av_packet]) = av_quality"
  "pb_packets_seen (probe_after [pat_packet, av_packet]) = 2"
  "pb_pmt_seen (probe_after [pat_packet, av_packet])"
proof -
  have "classify_streams [\<lparr>es_stream_type = 0x1b, es_pid = 0x101\<rparr>, \<lparr>es_stream_type = 0x0f, es_pid = 0x102\<rparr>] = av_quality"
    by (simp add: classify_streams_def classify_stream_def codec_name_for_stream_type_def str_contains_def
        windows_def StreamProbeQuality_default_def av_quality_def)
  then show "pb_quality (probe_after [pat_packet, av_packet]) = av_quality"
    "pb_packets_seen (probe_after [pat_packet, av_packet]) = 2"
    "pb_pmt_seen (probe_after [pat_packet, av_packet])"
    using av_tracker av_streams
    by (simp_all add: probe_packet_def ProbeState_new_def wrapping_add_u64_def split_beta Let_def)
qed

lemma av_alive: "analyze_transport_stream [Chunk (pat_packet @ av_packet)] 2 = Alive av_quality 2"
proof -
  have av: "length av_packet = MPEG_TS_PACKET_SIZE" "av_packet ! 0 = 0x47"
    by (simp_all add: av_packet_def ts_packet_def MPEG_TS_PACKET_SIZE_def)
  then have cut: "chunks_exact MPEG_TS_PACKET_SIZE (pat_packet @ av_packet) = [pat_packet, av_packet]"
    using chunks_exact_append [of pat_packet MPEG_TS_PACKET_SIZE av_packet]
      chunks_exact_append [of av_packet MPEG_TS_PACKET_SIZE "[]"] by (simp add: MPEG_TS_PACKET_SIZE_def)
  then have sync: "synced (pk_pending packetizer_new @ pat_packet @ av_packet)"
    using av by (simp add: synced_def packetizer_new_def)
  from ts_packets_chunks(2) [OF this] cut av(1)
  have "aligned (pk_pending packetizer_new @ pat_packet @ av_packet) \<noteq> []"
    by (auto simp: packetizer_new_def MPEG_TS_PACKET_SIZE_def)
  then show ?thesis unfolding analyze_transport_stream_def analyze_loop_chunk [OF sync]
    using av_probe cut by (simp add: packetizer_new_def probe_alive_def av_quality_def)
qed

text \<open>
  A probe returns its provider slot.  Whatever the provider answers, and whatever the body holds,
  the pool has after the probe exactly the lease handles it had before; the probe is skipped without
  a request when no slot is free.\<close>

theorem probe_returns_its_slot:
  assumes "pool_is m handles broker" "probe_run broker session_key [] response min_packets = (outcome, broker')"
  shows "pool_is m handles broker'
    \<and> pl_active_sessions (fst (broker_snapshot broker')) = pl_active_sessions (fst (broker_snapshot broker))"
proof -
  have "pool_is m handles broker'"
    using assms(1)
  proof (cases rule: try_acquire_cases [where k = session_key])
    case (refused e w)
    with assms(2) show ?thesis by (auto simp: probe_run_def split: AcquireError.splits)
  next
    case (shared i w)
    with assms(2) acquire_then_drop [OF assms(1) shared(1)] show ?thesis by (auto simp: probe_run_def)
  next
    case (fresh i w)
    with assms(2) acquire_then_drop [OF assms(1) fresh(1)] show ?thesis by (auto simp: probe_run_def)
  qed
  with assms(1) show ?thesis by (simp add: pool_is_active)
qed

theorem probe_returns_its_slot_witness:
  "pool_is 1 (\<lambda>_. 0) (snd (probe_run (broker_new ''pool'' 1) ''probe'' []
     (Response True [Chunk (pat_packet @ av_packet)]) 2))"
proof -
  have "pool_is 1 (\<lambda>_. 0) (broker_new ''pool'' 1)"
    using bk_reach_inv [OF bk_new [of 1 "''pool''"]] by (simp add: pool_is_def broker_new_def)
  from probe_returns_its_slot [OF this prod.collapse [symmetric]] show ?thesis by blast
qed

theorem probe_alive_is_sound_witness: "probe_sound (pat_packet @ av_packet) 2 av_quality 2"
  using probe_alive_is_sound [OF av_alive] by (simp add: MPEG_TS_PACKET_SIZE_def av_packet_def pat_packet_def ts_packet_def)

end
