(* ===== verification/H264.thy ===== *)
theory H264
  imports Psi "HOL-Library.Monad_Syntax"
begin

text \<open>
  The H.264 part of passive metadata capture (\<open>crates/media/src/passive.rs\<close>): the bit reader, the
  sequence parameter set and the Annex B scan, then the encoder they are checked against.

  A reader method returns its result beside the moved reader, \<open>None\<close> where the source returns
  with \<open>?\<close>.  Numbers of type \<open>u32\<close> are natural numbers; the bare operators \<open>+\<close> and \<open>*\<close> on
  parsed values wrap, as in the release profile.  The \<open>f64\<close> frame rate is represented by the two
  integers it is computed from: \<open>(units, scale)\<close> stands for \<open>scale / (2 units)\<close>, rounded to two
  decimals.
\<close>

unbundle bit_operations_syntax

section \<open>Bit reader\<close>

record BitReader =
  br_data :: bytes
  br_position :: usize

definition bit_reader_new :: "bytes \<Rightarrow> BitReader" where
  "bit_reader_new data = \<lparr>br_data = data, br_position = 0\<rparr>"

definition read_bit :: "BitReader \<Rightarrow> (nat \<times> BitReader) option" where
  "read_bit self =
     do { byte \<leftarrow> get_at (br_data self) (br_position self div 8);
          Some (unat (drop_bit (7 - br_position self mod 8) byte AND 1),
            self\<lparr>br_position := br_position self + 1\<rparr>) }"

fun read_bits_from :: "nat \<Rightarrow> nat \<Rightarrow> BitReader \<Rightarrow> (nat \<times> BitReader) option" where
  "read_bits_from 0 value self = Some (value, self)"
| "read_bits_from (Suc count) value self =
     do { (b, self) \<leftarrow> read_bit self;
          read_bits_from count ((value * 2) mod 2 ^ 32 + b) self }"

definition read_bits :: "nat \<Rightarrow> BitReader \<Rightarrow> (nat \<times> BitReader) option" where
  "read_bits count self = read_bits_from count 0 self"

text \<open>The \<open>while\<close> loop of \<open>ue\<close>; it returns the number of leading zeros, at most 31.\<close>

function leading_zeros :: "nat \<Rightarrow> BitReader \<Rightarrow> (nat \<times> BitReader) option" where
  "leading_zeros zeros self =
     (case read_bit self of
        None \<Rightarrow> None
      | Some (b, self) \<Rightarrow>
          if b = 0 then (if zeros + 1 > 31 then None else leading_zeros (zeros + 1) self)
          else Some (zeros, self))"
  by pat_completeness auto
termination
  by (relation "measure (\<lambda>(zeros, self). 32 - zeros)") auto

declare leading_zeros.simps [simp del]

definition ue :: "BitReader \<Rightarrow> (nat \<times> BitReader) option" where
  "ue self =
     do { (zeros, self) \<leftarrow> leading_zeros 0 self;
          (rest, self) \<leftarrow> read_bits zeros self;
          Some (2 ^ zeros - 1 + rest, self) }"

definition se :: "BitReader \<Rightarrow> (int \<times> BitReader) option" where
  "se self =
     do { (value, self) \<leftarrow> ue self;
          (let magnitude = (value + 1) div 2
           in if magnitude > 2147483647 then None
              else Some (if value mod 2 = 1 then int magnitude else - int magnitude, self)) }"

text \<open>
  The wrap of \<open>last + se + 256\<close> in \<open>i32\<close> is invisible: \<open>rem_euclid(256)\<close> follows, and 256
  divides \<open>2 ^ 32\<close>.
\<close>

fun skip_scaling :: "nat \<Rightarrow> int \<Rightarrow> int \<Rightarrow> BitReader \<Rightarrow> BitReader option" where
  "skip_scaling 0 last_scale next_scale self = Some self"
| "skip_scaling (Suc n) last_scale next_scale self =
     do { (next_scale, self) \<leftarrow>
            (if next_scale \<noteq> 0 then do { (delta, self) \<leftarrow> se self;
                                     Some ((last_scale + delta + 256) mod 256, self) }
             else Some (next_scale, self));
          skip_scaling n (if next_scale \<noteq> 0 then next_scale else last_scale) next_scale self }"

definition skip_scaling_list :: "nat \<Rightarrow> BitReader \<Rightarrow> BitReader option" where
  "skip_scaling_list n self = skip_scaling n 8 8 self"

section \<open>Sequence parameter set\<close>

record SpsInfo =
  si_width :: nat
  si_height :: nat
  si_fps :: "(nat \<times> nat) option"

definition parse_vui_fps :: "BitReader \<Rightarrow> (nat \<times> nat) option" where
  "parse_vui_fps reader =
     do { (present, reader) \<leftarrow> read_bit reader;
          if present = 0 then None else
     do { (aspect, reader) \<leftarrow> read_bit reader;
          reader \<leftarrow> (if aspect = 1
            then do { (idc, reader) \<leftarrow> read_bits 8 reader;
                      if idc = 255 then map_option snd (read_bits 32 reader) else Some reader }
            else Some reader);
          (overscan, reader) \<leftarrow> read_bit reader;
          reader \<leftarrow> (if overscan = 1 then map_option snd (read_bit reader) else Some reader);
          (video_signal, reader) \<leftarrow> read_bit reader;
          reader \<leftarrow> (if video_signal = 1
            then do { (_, reader) \<leftarrow> read_bits 4 reader;
                      (colour, reader) \<leftarrow> read_bit reader;
                      if colour = 1 then map_option snd (read_bits 24 reader) else Some reader }
            else Some reader);
          (chroma_loc, reader) \<leftarrow> read_bit reader;
          reader \<leftarrow> (if chroma_loc = 1
            then do { (_, reader) \<leftarrow> ue reader; map_option snd (ue reader) }
            else Some reader);
          (timing, reader) \<leftarrow> read_bit reader;
          if timing = 0 then None else
     do { (units, reader) \<leftarrow> read_bits 32 reader;
          (scale, reader) \<leftarrow> read_bits 32 reader;
          if units = 0 \<or> scale = 0 then None
          else if \<not> (2 * units \<le> scale \<and> scale \<le> 480 * units) then None
          else Some (units, scale) } } }"

text \<open>The scaling matrix loop, the three-way \<open>match\<close> on the picture order count type, the cropping.\<close>

fun scaling_lists :: "nat \<Rightarrow> nat \<Rightarrow> BitReader \<Rightarrow> BitReader option" where
  "scaling_lists 0 index reader = Some reader"
| "scaling_lists (Suc n) index reader =
     do { (present, reader) \<leftarrow> read_bit reader;
          reader \<leftarrow> (if present = 1 then skip_scaling_list (if index < 6 then 16 else 64) reader
                   else Some reader);
          scaling_lists n (index + 1) reader }"

definition high_profile :: "nat \<Rightarrow> bool" where
  "high_profile profile \<longleftrightarrow>
     profile \<in> {100, 110, 122, 244, 44, 83, 86, 118, 128, 138, 139, 134, 135}"

definition parse_chroma :: "nat \<Rightarrow> BitReader \<Rightarrow> (nat \<times> BitReader) option" where
  "parse_chroma profile reader =
     (if high_profile profile then
        do { (chroma_format, reader) \<leftarrow> ue reader;
             reader \<leftarrow> (if chroma_format = 3 then map_option snd (read_bit reader) else Some reader);
             (_, reader) \<leftarrow> ue reader;
             (_, reader) \<leftarrow> ue reader;
             (_, reader) \<leftarrow> read_bit reader;
             (matrix, reader) \<leftarrow> read_bit reader;
             reader \<leftarrow> (if matrix = 1
               then scaling_lists (if chroma_format = 3 then 12 else 8) 0 reader else Some reader);
             Some (chroma_format, reader) }
      else Some (1, reader))"

fun skip_se :: "nat \<Rightarrow> BitReader \<Rightarrow> BitReader option" where
  "skip_se 0 reader = Some reader"
| "skip_se (Suc n) reader = do { (_, reader) \<leftarrow> se reader; skip_se n reader }"

definition skip_order_count :: "BitReader \<Rightarrow> BitReader option" where
  "skip_order_count reader =
     do { (kind, reader) \<leftarrow> ue reader;
          if kind = 0 then map_option snd (ue reader)
          else if kind = 1 then
            do { (_, reader) \<leftarrow> read_bit reader;
                 (_, reader) \<leftarrow> se reader;
                 (_, reader) \<leftarrow> se reader;
                 (cycle, reader) \<leftarrow> ue reader;
                 skip_se cycle reader }
          else Some reader }"

definition parse_crop :: "BitReader \<Rightarrow> ((nat \<times> nat \<times> nat \<times> nat) \<times> BitReader) option" where
  "parse_crop reader =
     do { (crop, reader) \<leftarrow> read_bit reader;
          if crop = 1 then
            do { (crop_left, reader) \<leftarrow> ue reader;
                 (crop_right, reader) \<leftarrow> ue reader;
                 (crop_top, reader) \<leftarrow> ue reader;
                 (crop_bottom, reader) \<leftarrow> ue reader;
                 Some ((crop_left, crop_right, crop_top, crop_bottom), reader) }
          else Some ((0, 0, 0, 0), reader) }"

text \<open>\<open>a * b\<close> and \<open>a + b\<close> on \<open>u32\<close>, and \<open>checked_sub\<close>.\<close>

definition mul_u32 :: "nat \<Rightarrow> nat \<Rightarrow> nat" where
  "mul_u32 a b = (a * b) mod 2 ^ 32"

definition add_u32 :: "nat \<Rightarrow> nat \<Rightarrow> nat" where
  "add_u32 a b = (a + b) mod 2 ^ 32"

definition checked_sub_u32 :: "nat \<Rightarrow> nat \<Rightarrow> nat option" where
  "checked_sub_u32 a b = (if b \<le> a then Some (a - b) else None)"

definition checked_add_u32 :: "nat \<Rightarrow> nat \<Rightarrow> nat option" where
  "checked_add_u32 a b = (if a + b < 2 ^ 32 then Some (a + b) else None)"

definition sps_size ::
    "nat \<Rightarrow> nat \<Rightarrow> nat \<Rightarrow> nat \<Rightarrow> nat \<times> nat \<times> nat \<times> nat \<Rightarrow> (nat \<times> nat) option" where
  "sps_size chroma_format width_mbs height_map_units frame_mbs_only = (\<lambda>(l, r, t, b).
     (let (unit_x, unit_y) = (if chroma_format = 0 \<or> chroma_format = 3
            then (1, 2 - frame_mbs_only) else (2, 2 * (2 - frame_mbs_only)))
      in do { width \<leftarrow> checked_sub_u32 (mul_u32 width_mbs 16) (mul_u32 (add_u32 l r) unit_x);
              height \<leftarrow> checked_sub_u32
                (mul_u32 (mul_u32 (2 - frame_mbs_only) height_map_units) 16)
                (mul_u32 (add_u32 t b) unit_y);
              if width = 0 \<or> height = 0 \<or> width > 16384 \<or> height > 16384 then None
              else Some (width, height) }))"

definition parse_sps :: "bytes \<Rightarrow> SpsInfo option" where
  "parse_sps rbsp =
     do { (profile, reader) \<leftarrow> read_bits 8 (bit_reader_new rbsp);
          (_, reader) \<leftarrow> read_bits 16 reader;
          (_, reader) \<leftarrow> ue reader;
          (chroma_format, reader) \<leftarrow> parse_chroma profile reader;
          (_, reader) \<leftarrow> ue reader;
          reader \<leftarrow> skip_order_count reader;
          (_, reader) \<leftarrow> ue reader;
          (_, reader) \<leftarrow> read_bit reader;
          (w, reader) \<leftarrow> ue reader;
          width_mbs \<leftarrow> checked_add_u32 w 1;
          (h, reader) \<leftarrow> ue reader;
          height_map_units \<leftarrow> checked_add_u32 h 1;
          (frame_mbs_only, reader) \<leftarrow> read_bit reader;
          reader \<leftarrow> (if frame_mbs_only = 0 then map_option snd (read_bit reader) else Some reader);
          (_, reader) \<leftarrow> read_bit reader;
          (crop, reader) \<leftarrow> parse_crop reader;
          (width, height) \<leftarrow> sps_size chroma_format width_mbs height_map_units frame_mbs_only crop;
          Some \<lparr>si_width = width, si_height = height, si_fps = parse_vui_fps reader\<rparr> }"

section \<open>Annex B scan\<close>

fun unescape_from :: "nat \<Rightarrow> bytes \<Rightarrow> bytes" where
  "unescape_from zeros [] = []"
| "unescape_from zeros (byte # data) =
     (if zeros \<ge> 2 \<and> byte = 3 then unescape_from 0 data
      else byte # unescape_from (if byte = 0 then zeros + 1 else 0) data)"

definition unescape :: "bytes \<Rightarrow> bytes" where
  "unescape data = unescape_from 0 data"

text \<open>The inner loop looks for the end of the NAL unit, the outer one for its start.\<close>

function scan_end :: "bytes \<Rightarrow> nat \<Rightarrow> nat" where
  "scan_end data scan =
     (if scan + 2 < length data then
        (if data ! scan = 0 \<and> data ! (scan + 1) = 0 \<and> data ! (scan + 2) \<le> 1 then scan
         else scan_end data (scan + 1))
      else length data)"
  by pat_completeness auto
termination
  by (relation "measure (\<lambda>(data, scan). length data - scan)") auto

declare scan_end.simps [simp del]

function find_sps_from :: "bytes \<Rightarrow> nat \<Rightarrow> SpsInfo option" where
  "find_sps_from data index =
     (if index + 4 < length data then
        (if data ! index = 0 \<and> data ! (index + 1) = 0 \<and> data ! (index + 2) = 1 then
           (let found =
              (if data ! (index + 3) AND 0x1f = 7 then
                 (let start = index + 4; last_byte = scan_end data start
                  in if last_byte < length data
                     then parse_sps (unescape (slice start (last_byte - start) data)) else None)
               else None)
            in case found of Some info \<Rightarrow> Some info | None \<Rightarrow> find_sps_from data (index + 3))
         else find_sps_from data (index + 1))
      else None)"
  by pat_completeness auto
termination
  by (relation "measure (\<lambda>(data, index). length data - index)") auto

declare find_sps_from.simps [simp del]

definition find_h264_sps :: "bytes \<Rightarrow> SpsInfo option" where
  "find_h264_sps data = find_sps_from data 0"


section \<open>Codes\<close>

definition byte_bits :: "u8 \<Rightarrow> bool list" where
  "byte_bits b = map (\<lambda>i. bit b (7 - i)) [0..<8]"

definition bits_of :: "bytes \<Rightarrow> bool list" where
  "bits_of data = concat (map byte_bits data)"

lemma length_bits_of [simp]: "length (bits_of data) = 8 * length data"
  by (induction data) (simp_all add: bits_of_def byte_bits_def)

lemma nth_bits_of: "p < 8 * length data \<Longrightarrow> bits_of data ! p = bit (data ! (p div 8)) (7 - p mod 8)"
proof (induction data arbitrary: p)
  case (Cons b data)
  show ?case
  proof (cases "p < 8")
    case True
    then show ?thesis by (simp add: bits_of_def byte_bits_def nth_append)
  next
    case False
    then have "bits_of (b # data) ! p = bits_of data ! (p - 8)"
      by (simp add: bits_of_def byte_bits_def nth_append)
    also have "\<dots> = bit (data ! ((p - 8) div 8)) (7 - (p - 8) mod 8)"
      using Cons.prems False by (intro Cons.IH) simp
    also have "\<dots> = bit ((b # data) ! (p div 8)) (7 - p mod 8)"
      using False by (simp add: le_div_geq le_mod_geq)
    finally show ?thesis .
  qed
qed simp

abbreviation "Reader data pos \<equiv> \<lparr>br_data = data, br_position = pos\<rparr>"

lemma unat_bit: "unat (drop_bit k b AND 1) = of_bool (bit (b :: u8) k)"
proof -
  have "drop_bit k b AND 1 = of_bool (bit b k)"
    by (simp add: bit_iff_odd_drop_bit and_one_eq mod_2_eq_odd)
  then show ?thesis by (cases "bit b k") simp_all
qed

lemma read_bit_cons:
  assumes "drop pos (bits_of data) = x # xs"
  shows "read_bit (Reader data pos) = Some (of_bool x, Reader data (pos + 1))" "drop (pos + 1) (bits_of data) = xs"
proof -
  have p: "pos < 8 * length data"
    using assms by (metis drop_eq_Nil2 leI length_bits_of list.distinct(1))
  then have "x = bit (data ! (pos div 8)) (7 - pos mod 8)"
    using assms nth_bits_of [OF p] by (metis hd_drop_conv_nth length_bits_of list.sel(1))
  moreover have "pos div 8 < length data" using p by simp
  ultimately show "read_bit (Reader data pos) = Some (of_bool x, Reader data (pos + 1))"
    by (simp add: read_bit_def get_at_def unat_bit)
  have "drop 1 (drop pos (bits_of data)) = xs" using assms by simp
  then show "drop (pos + 1) (bits_of data) = xs" by (simp add: add.commute)
qed

text \<open>A parser reads a bit string as a value.\<close>

definition reads :: "(BitReader \<Rightarrow> ('a \<times> BitReader) option) \<Rightarrow> bool list \<Rightarrow> 'a \<Rightarrow> bool" where
  "reads f cs v \<longleftrightarrow> (\<forall>data pos rest. drop pos (bits_of data) = cs @ rest \<longrightarrow>
     f (Reader data pos) = Some (v, Reader data (pos + length cs)))"

lemma readsD: "reads f cs v \<Longrightarrow> drop pos (bits_of data) = cs @ rest \<Longrightarrow>
    f (Reader data pos) = Some (v, Reader data (pos + length cs)) \<and> drop (pos + length cs) (bits_of data) = rest"
  unfolding reads_def by (metis append_eq_conv_conj drop_drop add.commute)

lemma reads_bind:
  assumes "reads f cs v" "reads (g v) ds w"
  shows "reads (\<lambda>r. f r \<bind> (\<lambda>(x, r). g x r)) (cs @ ds) w"
  unfolding reads_def
proof (intro allI impI)
  fix data pos rest assume "drop pos (bits_of data) = (cs @ ds) @ rest"
  then have a: "drop pos (bits_of data) = cs @ (ds @ rest)" by simp
  note f = readsD [OF assms(1) a]
  from f readsD [OF assms(2) conjunct2 [OF f]] show
    "f (Reader data pos) \<bind> (\<lambda>(x, r). g x r) = Some (w, Reader data (pos + length (cs @ ds)))"
    by (simp add: add.assoc)
qed

lemma reads_return: "reads (\<lambda>r. Some (v, r)) [] v"
  by (simp add: reads_def)

lemma reads_bit: "reads read_bit [x] (of_bool x)"
  using read_bit_cons by (fastforce simp: reads_def)

text \<open>The \<open>n\<close> low bits of a number, the highest first.\<close>

fun nat_bits :: "nat \<Rightarrow> nat \<Rightarrow> bool list" where
  "nat_bits 0 v = []"
| "nat_bits (Suc n) v = nat_bits n (v div 2) @ [odd v]"

lemma length_nat_bits [simp]: "length (nat_bits n v) = n"
  by (induction n arbitrary: v) simp_all

definition value_of :: "nat \<Rightarrow> bool list \<Rightarrow> nat" where
  "value_of acc bs = foldl (\<lambda>a b. 2 * a + of_bool b) acc bs"

lemma value_of_nat_bits: "v < 2 ^ n \<Longrightarrow> value_of 0 (nat_bits n v) = v"
proof (induction n arbitrary: v)
  case (Suc n)
  then have "value_of 0 (nat_bits n (v div 2)) = v div 2" by (intro Suc.IH) simp
  then show ?case by (simp add: value_of_def)
qed (simp add: value_of_def)

lemma value_of_less: "acc < 2 ^ k \<Longrightarrow> value_of acc bs < 2 ^ (k + length bs)"
proof (induction bs arbitrary: acc k)
  case (Cons b bs)
  have "2 * acc + of_bool b < 2 ^ (Suc k)" using Cons.prems by (cases b) simp_all
  from Cons.IH [OF this] show ?case by (simp add: value_of_def)
qed (simp add: value_of_def)

lemma reads_bits_from:
  assumes "acc < 2 ^ k" "k + length bs \<le> 32"
  shows "reads (read_bits_from (length bs) acc) bs (value_of acc bs)"
  using assms
proof (induction bs arbitrary: acc k)
  case Nil
  then show ?case using reads_return by (simp add: value_of_def)
next
  case (Cons b bs)
  have "(2::nat) ^ k \<le> 2 ^ 31" using Cons.prems(2) by (intro power_increasing) simp_all
  with Cons.prems(1) have "acc < 2 ^ 31" by linarith
  then have m: "(acc * 2) mod 2 ^ 32 + of_bool b = 2 * acc + of_bool b" by simp
  have "2 * acc + of_bool b < 2 ^ (Suc k)" using Cons.prems by (cases b) simp_all
  from Cons.IH [OF this] Cons.prems(2)
  have "reads (read_bits_from (length bs) (2 * acc + of_bool b)) bs (value_of (2 * acc + of_bool b) bs)" by simp
  with m have "reads ((\<lambda>x. read_bits_from (length bs) ((acc * 2) mod 2 ^ 32 + x)) (of_bool b)) bs (value_of acc (b # bs))"
    by (simp add: value_of_def)
  from reads_bind [OF reads_bit, where g = "\<lambda>x. read_bits_from (length bs) ((acc * 2) mod 2 ^ 32 + x)", OF this]
  show ?case by simp
qed

lemma reads_bits: "v < 2 ^ n \<Longrightarrow> n \<le> 32 \<Longrightarrow> reads (read_bits n) (nat_bits n v) v"
  using reads_bits_from [of 0 0 "nat_bits n v"] by (simp add: read_bits_def [abs_def] value_of_nat_bits)

fun ilog2 :: "nat \<Rightarrow> nat" where
  "ilog2 n = (if n < 2 then 0 else Suc (ilog2 (n div 2)))"

declare ilog2.simps [simp del]

lemma ilog2_bounds: "0 < n \<Longrightarrow> 2 ^ ilog2 n \<le> n \<and> n < 2 ^ Suc (ilog2 n)"
proof (induction n rule: ilog2.induct)
  case (1 n)
  show ?case
  proof (cases "n < 2")
    case True
    then show ?thesis using 1(2) by (simp add: ilog2.simps [of n])
  next
    case False
    then have "2 ^ ilog2 (n div 2) \<le> n div 2 \<and> n div 2 < 2 ^ Suc (ilog2 (n div 2))" using 1(1) by simp
    moreover have "ilog2 n = Suc (ilog2 (n div 2))" using False by (simp add: ilog2.simps [of n])
    ultimately show ?thesis by auto
  qed
qed

lemma reads_leading_zeros:
  "z + k \<le> 31 \<Longrightarrow> reads (leading_zeros z) (replicate k False @ [True]) (z + k)"
proof (induction k arbitrary: z)
  case 0
  have "leading_zeros z (Reader data pos) = Some (z, Reader data (pos + 1))"
    if "drop pos (bits_of data) = True # rest" for data pos rest
    using read_bit_cons(1) [OF that] by (simp add: leading_zeros.simps [of z])
  then show ?case by (simp add: reads_def)
next
  case (Suc k)
  note IH = Suc.IH [of "Suc z"]
  have "leading_zeros z (Reader data pos) = Some (z + Suc k, Reader data (pos + length (replicate (Suc k) False @ [True])))"
    if "drop pos (bits_of data) = (replicate (Suc k) False @ [True]) @ rest" for data pos rest
  proof -
    have d: "drop pos (bits_of data) = False # (replicate k False @ [True]) @ rest" using that by simp
    from Suc.prems IH have "reads (leading_zeros (Suc z)) (replicate k False @ [True]) (Suc z + k)" by simp
    from readsD [OF this read_bit_cons(2) [OF d]] read_bit_cons(1) [OF d] Suc.prems
    show ?thesis by (simp add: leading_zeros.simps [of z])
  qed
  then show ?case unfolding reads_def by blast
qed

definition ue_code :: "nat \<Rightarrow> bool list" where
  "ue_code v = replicate (ilog2 (v + 1)) False @ [True] @ nat_bits (ilog2 (v + 1)) (v + 1 - 2 ^ ilog2 (v + 1))"

definition se_code :: "int \<Rightarrow> bool list" where
  "se_code i = ue_code (if 0 < i then nat (2 * i) - 1 else nat (- 2 * i))"

lemma reads_ue:
  assumes "v + 1 < 2 ^ 32"
  shows "reads ue (ue_code v) v"
proof -
  let ?k = "ilog2 (v + 1)"
  have b: "2 ^ ?k \<le> v + 1" "v + 1 < 2 ^ Suc ?k" using ilog2_bounds [of "v + 1"] by auto
  have "?k \<le> 31"
  proof (rule ccontr)
    assume "\<not> ?k \<le> 31"
    then have "(2::nat) ^ 32 \<le> 2 ^ ?k" by (intro power_increasing) simp_all
    with b(1) assms show False by linarith
  qed
  then have z: "reads (leading_zeros 0) (replicate ?k False @ [True]) ?k" using reads_leading_zeros [of 0 ?k] by simp
  have r: "reads (read_bits ?k) (nat_bits ?k (v + 1 - 2 ^ ?k)) (v + 1 - 2 ^ ?k)"
    using b \<open>?k \<le> 31\<close> by (intro reads_bits) auto
  have e: "2 ^ ?k - 1 + (v + 1 - 2 ^ ?k) = v" using b(1) by simp
  have "reads (\<lambda>r. read_bits ?k r \<bind> (\<lambda>(rest, r). Some (2 ^ ?k - 1 + rest, r)))
      (nat_bits ?k (v + 1 - 2 ^ ?k) @ []) v"
    using reads_bind [OF r, where g = "\<lambda>rest r. Some (2 ^ ?k - 1 + rest, r)" and ds = "[]" and w = v]
      reads_return [of v] by (simp only: e)
  from reads_bind [OF z, where g = "\<lambda>zeros r. read_bits zeros r \<bind> (\<lambda>(rest, r). Some (2 ^ zeros - 1 + rest, r))",
      OF this]
  show ?thesis by (simp add: ue_def [abs_def] ue_code_def)
qed

lemma reads_se:
  assumes "- 2147483647 \<le> i" "i \<le> 2147483647"
  shows "reads se (se_code i) i"
proof -
  define v where "v = (if 0 < i then nat (2 * i) - 1 else nat (- 2 * i))"
  have "v + 1 < 2 ^ 32" using assms by (auto simp: v_def)
  note u = reads_ue [OF this]
  have g: "(let magnitude = (v + 1) div 2 in if magnitude > 2147483647 then None
      else Some (if v mod 2 = 1 then int magnitude else - int magnitude, r)) = Some (i, r)" for r :: BitReader
  proof (cases "0 < i")
    case True
    then have "v + 1 = 2 * nat i" by (simp add: v_def nat_mult_distrib)
    then have "v mod 2 = 1" "(v + 1) div 2 = nat i" by (presburger, simp)
    then show ?thesis using True assms by (simp add: Let_def)
  next
    case False
    then have "v = 2 * nat (- i)" by (simp add: v_def nat_mult_distrib)
    then have "v mod 2 = 0" "(v + 1) div 2 = nat (- i)" by auto
    then show ?thesis using False assms by (simp add: Let_def)
  qed
  have "reads (\<lambda>r. let magnitude = (v + 1) div 2 in if magnitude > 2147483647 then None
      else Some (if v mod 2 = 1 then int magnitude else - int magnitude, r)) [] i"
    unfolding g by (rule reads_return)
  from reads_bind [OF u, where g = "\<lambda>value r. let magnitude = (value + 1) div 2 in if magnitude > 2147483647 then None
      else Some (if value mod 2 = 1 then int magnitude else - int magnitude, r)", OF this]
  show ?thesis by (simp add: se_def [abs_def] se_code_def v_def [symmetric])
qed

text \<open>The emulation prevention of an encoder, which \<open>unescape\<close> undoes.\<close>

fun escape_from :: "nat \<Rightarrow> bytes \<Rightarrow> bytes" where
  "escape_from zeros [] = []"
| "escape_from zeros (byte # data) =
     (if zeros \<ge> 2 \<and> byte \<le> 3 then 3 # byte # escape_from (if byte = 0 then 1 else 0) data
      else byte # escape_from (if byte = 0 then zeros + 1 else 0) data)"

definition escape :: "bytes \<Rightarrow> bytes" where
  "escape data = escape_from 0 data"

lemma unescape_escape_from: "unescape_from z (escape_from z data) = data"
  by (induction z data rule: escape_from.induct) auto

lemma unescape_escape: "unescape (escape data) = data"
  by (simp add: unescape_def escape_def unescape_escape_from)

text \<open>An escaped payload has no start code inside, so the scan ends at the next one.\<close>

definition start_code_at :: "bytes \<Rightarrow> nat \<Rightarrow> bool" where
  "start_code_at data i \<longleftrightarrow> i + 2 < length data \<and> data ! i = 0 \<and> data ! (i + 1) = 0 \<and> data ! (i + 2) \<le> 1"

lemma start_code_simps [simp]:
  "\<not> start_code_at [] i"
  "start_code_at (x # xs) (Suc i) \<longleftrightarrow> start_code_at xs i"
  "start_code_at (x # xs) 0 \<longleftrightarrow> (\<exists>y z zs. xs = y # z # zs \<and> x = 0 \<and> y = 0 \<and> z \<le> 1)"
proof -
  show "start_code_at (x # xs) 0 \<longleftrightarrow> (\<exists>y z zs. xs = y # z # zs \<and> x = 0 \<and> y = 0 \<and> z \<le> 1)"
    by (cases xs; cases "tl xs") (auto simp: start_code_at_def)
qed (auto simp: start_code_at_def)

lemma zeros_before:
  "replicate (min z 2) (0 :: u8) = (if z = 0 then [] else if z = 1 then [0] else [0, 0])"
proof -
  consider "z = 0" | "z = 1" | "z \<ge> 2" by linarith
  then show ?thesis by cases (simp_all add: min_def numeral_2_eq_2)
qed

lemma no_code_Cons: "x \<noteq> 0 \<Longrightarrow> (\<And>i. \<not> start_code_at xs i) \<Longrightarrow> \<not> start_code_at (x # xs) i"
  by (cases i) auto

lemma no_code_0: "y \<noteq> 0 \<Longrightarrow> (\<And>i. \<not> start_code_at (y # xs) i) \<Longrightarrow> \<not> start_code_at (0 # y # xs) i"
  by (cases i) auto

lemma no_code_00: "\<not> y \<le> 1 \<Longrightarrow> (\<And>i. \<not> start_code_at (0 # y # xs) i) \<Longrightarrow> \<not> start_code_at (0 # 0 # y # xs) i"
  by (cases i) auto

lemma escape_from_no_code:
  "\<not> start_code_at (replicate (min z 2) 0 @ escape_from z data) i"
proof (induction z data arbitrary: i rule: escape_from.induct)
  case (1 z)
  then show ?case by (auto simp: start_code_at_def nth_append)
next
  case (2 z b data)
  have three: "\<not> (3 :: u8) \<le> 1" "(1 :: u8) \<le> 3" "(3 :: u8) \<noteq> 0" by (simp_all add: word_le_nat_alt)
  show ?case
  proof (cases "z \<ge> 2 \<and> b \<le> 3")
    case True
    have c: "\<not> start_code_at (b # escape_from (if b = 0 then 1 else 0) data) j" for j
    proof (cases "b = 0")
      case True
      then show ?thesis using 2(1) [OF \<open>z \<ge> 2 \<and> b \<le> 3\<close>, of j] by (simp add: zeros_before)
    next
      case False
      then show ?thesis using 2(1) [OF True] by (intro no_code_Cons) (simp_all add: zeros_before)
    qed
    have "\<not> start_code_at (0 # 0 # 3 # b # escape_from (if b = 0 then 1 else 0) data) i"
      by (rule no_code_00 [OF three(1) no_code_0 [OF three(3) no_code_Cons [OF three(3) c]]])
    then show ?thesis unfolding zeros_before using True by auto
  next
    case False
    note IH = 2(2) [OF False]
    show ?thesis
    proof (cases "b = 0")
      case True
      then have "z < 2" using False by auto
      then consider "z = 0" | "z = 1" by linarith
      then show ?thesis using IH [of i] True unfolding zeros_before by cases auto
    next
      case b: False
      have r: "\<not> start_code_at (b # escape_from 0 data) j" for j
        by (rule no_code_Cons) (use IH b in \<open>simp_all add: zeros_before\<close>)
      have nb: "z \<ge> 2 \<Longrightarrow> \<not> b \<le> 1" using False three(2) order_trans [of b 1 3] by blast
      have e: "escape_from z (b # data) = b # escape_from 0 data" using False b by simp
      consider "z = 0" | "z = 1" | "z \<ge> 2" by linarith
      then show ?thesis unfolding zeros_before e
      proof cases
        case 3
        from no_code_00 [OF nb [OF 3] no_code_0 [OF b r]] 3 show "\<not> start_code_at
            ((if z = 0 then [] else if z = 1 then [0] else [0, 0]) @ b # escape_from 0 data) i" by simp
      qed (use r no_code_0 [OF b r] in simp_all)
    qed
  qed
qed

lemma escape_no_code: "\<not> start_code_at (escape data) i"
  using escape_from_no_code [of 0 data i] by (simp add: escape_def)

lemma escape_from_last:
  "data \<noteq> [] \<Longrightarrow> escape_from z data \<noteq> [] \<and> List.last (escape_from z data) = List.last data"
proof (induction z data rule: escape_from.induct)
  case (2 z b data)
  then show ?case by (cases "data = []") auto
qed simp

lemma scan_end_at:
  assumes "start_code_at data e" "scan \<le> e" "\<And>i. scan \<le> i \<Longrightarrow> i < e \<Longrightarrow> \<not> start_code_at data i"
  shows "scan_end data scan = e"
  using assms(2,3)
proof (induction "e - scan" arbitrary: scan)
  case 0
  then show ?case using assms(1) by (simp add: scan_end.simps [of data scan] start_code_at_def)
next
  case (Suc n)
  have "\<not> start_code_at data scan" using Suc.hyps(2) by (intro Suc.prems(2)) auto
  moreover have "scan + 2 < length data" using assms(1) Suc.prems(1) by (simp add: start_code_at_def)
  moreover have "scan_end data (scan + 1) = e" using Suc.hyps(2) Suc.prems by (intro Suc.hyps(1)) auto
  ultimately show ?case by (auto simp: scan_end.simps [of data scan] start_code_at_def)
qed

lemma no_code_before:
  assumes "\<And>i. \<not> start_code_at xs i" "xs \<noteq> []" "List.last xs \<noteq> 0" "i < length xs"
  shows "\<not> start_code_at (xs @ ys) i"
proof
  assume a: "start_code_at (xs @ ys) i"
  show False
  proof (cases "i + 2 < length xs")
    case True
    then have "start_code_at xs i" using a by (simp add: start_code_at_def nth_append)
    then show False using assms(1) by blast
  next
    case False
    then have "length xs - 1 = i \<or> length xs - 1 = i + 1" using assms(4) by auto
    moreover have "(xs @ ys) ! (length xs - 1) = List.last xs" using assms(2,4) by (simp add: nth_append last_conv_nth)
    ultimately show False using a assms(3) by (auto simp: start_code_at_def)
  qed
qed

lemma sps_is_found:
  assumes "parse_sps rbsp = Some info" "rbsp \<noteq> []" "List.last rbsp \<noteq> 0" "nal AND 0x1f = 7"
    and "rest = 0 # 0 # c # tail" "c \<le> 1"
  shows "find_h264_sps ([0, 0, 1, nal] @ escape rbsp @ rest) = Some info"
proof -
  let ?d = "[0, 0, 1, nal] @ escape rbsp @ rest"
  let ?e = "4 + length (escape rbsp)"
  have e: "escape rbsp \<noteq> []" "List.last (escape rbsp) \<noteq> 0"
    using escape_from_last [OF assms(2), of 0] assms(3) by (auto simp: escape_def)
  have "scan_end ?d 4 = ?e"
  proof (rule scan_end_at)
    show "start_code_at ?d ?e" using assms(5,6) by (simp add: start_code_at_def nth_append)
    fix i assume "4 \<le> i" "i < ?e"
    then have "\<not> start_code_at (escape rbsp @ rest) (i - 4)" using escape_no_code e by (intro no_code_before) auto
    moreover have "start_code_at ?d (4 + k) = start_code_at (escape rbsp @ rest) k" for k
      by (simp add: start_code_at_def numeral_eq_Suc)
    ultimately show "\<not> start_code_at ?d i" using \<open>4 \<le> i\<close> by (metis le_add_diff_inverse)
  qed simp
  moreover have "slice 4 (?e - 4) ?d = escape rbsp" by (simp add: slice_def)
  moreover have "?e < length ?d" "0 + 4 < length ?d" using assms(5) by simp_all
  ultimately show ?thesis using assms(1,4) unescape_escape [of rbsp]
    unfolding find_h264_sps_def by (subst find_sps_from.simps) (simp add: Let_def)
qed

section \<open>The parameter set of an encoder\<close>

definition crop_code :: "(nat \<times> nat \<times> nat \<times> nat) option \<Rightarrow> bool list" where
  "crop_code crop = (case crop of
      None \<Rightarrow> [False]
    | Some (l, r, t, b) \<Rightarrow> True # ue_code l @ ue_code r @ ue_code t @ ue_code b)"

definition crop_values :: "(nat \<times> nat \<times> nat \<times> nat) option \<Rightarrow> nat \<times> nat \<times> nat \<times> nat" where
  "crop_values crop = (case crop of None \<Rightarrow> (0, 0, 0, 0) | Some c \<Rightarrow> c)"

definition sps_code :: "nat \<Rightarrow> nat \<Rightarrow> nat \<Rightarrow> nat \<Rightarrow> bool \<Rightarrow> (nat \<times> nat \<times> nat \<times> nat) option \<Rightarrow> bool list" where
  "sps_code profile level width_mbs height_units progressive crop =
     nat_bits 8 profile @ nat_bits 16 level @ ue_code 0 @ ue_code 0 @ ue_code 2 @ ue_code 1 @ [False]
     @ ue_code (width_mbs - 1) @ ue_code (height_units - 1)
     @ (progressive # (if progressive then [] else [False])) @ [True] @ crop_code crop @ [False]"

definition small_crop :: "(nat \<times> nat \<times> nat \<times> nat) option \<Rightarrow> bool" where
  "small_crop crop \<longleftrightarrow> (case crop_values crop of (l, r, t, b) \<Rightarrow> l < 8192 \<and> r < 8192 \<and> t < 8192 \<and> b < 8192)"

lemma reads_crop:
  assumes "small_crop crop"
  shows "reads parse_crop (crop_code crop) (crop_values crop)"
  unfolding reads_def
proof (intro allI impI)
  fix data pos rest assume d: "drop pos (bits_of data) = crop_code crop @ rest"
  show "parse_crop (Reader data pos) = Some (crop_values crop, Reader data (pos + length (crop_code crop)))"
  proof (cases crop)
    case None
    then show ?thesis using d read_bit_cons(1) [of pos data False] by (simp add: parse_crop_def crop_code_def crop_values_def)
  next
    case (Some c)
    obtain l r t b where c: "c = (l, r, t, b)" by (metis prod_cases4)
    have s: "l + 1 < 2 ^ 32" "r + 1 < 2 ^ 32" "t + 1 < 2 ^ 32" "b + 1 < 2 ^ 32"
      using assms by (simp_all add: small_crop_def crop_values_def Some c)
    have d0: "drop pos (bits_of data) = True # (ue_code l @ ue_code r @ ue_code t @ ue_code b @ rest)"
      using d by (simp add: Some c crop_code_def)
    note b0 = read_bit_cons [OF d0]
    note u1 = readsD [OF reads_ue [OF s(1)] b0(2)]
    note u2 = readsD [OF reads_ue [OF s(2)] conjunct2 [OF u1]]
    note u3 = readsD [OF reads_ue [OF s(3)] conjunct2 [OF u2]]
    note u4 = readsD [OF reads_ue [OF s(4)] conjunct2 [OF u3]]
    show ?thesis using b0(1) u1 u2 u3 u4
      by (simp add: parse_crop_def Some c crop_code_def crop_values_def add.assoc)
  qed
qed

text \<open>The size that a sequence parameter set describes, for 4:2:0 chroma.\<close>

definition coded_size :: "nat \<Rightarrow> nat \<Rightarrow> bool \<Rightarrow> (nat \<times> nat \<times> nat \<times> nat) option \<Rightarrow> nat \<times> nat" where
  "coded_size width_mbs height_units progressive crop =
     (case crop_values crop of (l, r, t, b) \<Rightarrow>
       (16 * width_mbs - 2 * (l + r),
        (if progressive then 16 else 32) * height_units - (if progressive then 2 else 4) * (t + b)))"

lemma sps_size_coded:
  assumes "small_crop crop" "width_mbs \<le> 2048" "height_units \<le> 2048"
    and "coded_size width_mbs height_units progressive crop = (width, height)"
    and "0 < width" "width \<le> 16384" "0 < height" "height \<le> 16384"
  shows "sps_size 1 width_mbs height_units (of_bool progressive) (crop_values crop) = Some (width, height)"
proof -
  obtain l r t b where c: "crop_values crop = (l, r, t, b)" by (metis prod_cases4)
  have s: "l < 8192" "r < 8192" "t < 8192" "b < 8192" using assms(1) by (simp_all add: small_crop_def c)
  show ?thesis using assms(2-) s
    by (cases progressive) (auto simp: sps_size_def coded_size_def c mul_u32_def add_u32_def checked_sub_u32_def Let_def)
qed

lemma parse_sps_coded:
  assumes bits: "bits_of rbsp = sps_code profile level width_mbs height_units progressive crop @ rest"
    and "profile < 256" "\<not> high_profile profile" "level < 65536"
    and "0 < width_mbs" "0 < height_units" "width_mbs \<le> 2048" "height_units \<le> 2048" "small_crop crop"
    and "coded_size width_mbs height_units progressive crop = (width, height)"
    and "0 < width" "width \<le> 16384" "0 < height" "height \<le> 16384"
  shows "parse_sps rbsp = Some \<lparr>si_width = width, si_height = height, si_fps = None\<rparr>"
proof -
  have small: "(0::nat) + 1 < 2 ^ 32" "(1::nat) + 1 < 2 ^ 32" "(2::nat) + 1 < 2 ^ 32" by simp_all
  have w: "width_mbs - 1 + 1 < 2 ^ 32" and h: "height_units - 1 + 1 < 2 ^ 32" using assms by simp_all
  have p: "reads (read_bits 8) (nat_bits 8 profile) profile" and l: "reads (read_bits 16) (nat_bits 16 level) level"
    by (rule reads_bits; use assms(2,4) in simp)+
  have "drop 0 (bits_of rbsp) = nat_bits 8 profile @ nat_bits 16 level @ ue_code 0 @ ue_code 0 @ ue_code 2 @ ue_code 1
     @ False # ue_code (width_mbs - 1) @ ue_code (height_units - 1)
     @ progressive # (if progressive then [] else [False]) @ True # crop_code crop @ False # rest"
    using bits by (simp add: sps_code_def)
  note a1 = readsD [OF p this]
  note a2 = readsD [OF l conjunct2 [OF a1]]
  note a3 = readsD [OF reads_ue [OF small(1)] conjunct2 [OF a2]]
  note a4 = readsD [OF reads_ue [OF small(1)] conjunct2 [OF a3]]
  note a5 = readsD [OF reads_ue [OF small(3)] conjunct2 [OF a4]]
  note a6 = readsD [OF reads_ue [OF small(2)] conjunct2 [OF a5]]
  note a7 = read_bit_cons [OF conjunct2 [OF a6]]
  note a8 = readsD [OF reads_ue [OF w] a7(2)]
  note a9 = readsD [OF reads_ue [OF h] conjunct2 [OF a8]]
  note b1 = read_bit_cons [OF conjunct2 [OF a9]]
  note defs = parse_sps_def bit_reader_new_def parse_chroma_def skip_order_count_def checked_add_u32_def parse_vui_fps_def assms(3)
  have size: "sps_size 1 width_mbs height_units (of_bool progressive) (crop_values crop) = Some (width, height)"
    by (rule sps_size_coded) (use assms in simp_all)
  have bounds: "width_mbs < 4294967296" "height_units < 4294967296" "Suc (width_mbs - 1) = width_mbs" "Suc (height_units - 1) = height_units"
    using assms by simp_all
  show ?thesis
  proof (cases progressive)
    case True
    with b1(2) have "drop (0 + length (nat_bits 8 profile) + length (nat_bits 16 level) + length (ue_code 0) + length (ue_code 0)
       + length (ue_code 2) + length (ue_code 1) + 1 + length (ue_code (width_mbs - 1)) + length (ue_code (height_units - 1)) + 1) (bits_of rbsp)
       = True # crop_code crop @ False # rest" by simp
    note c1 = read_bit_cons [OF this]
    note c2 = readsD [OF reads_crop [OF assms(9)] c1(2)]
    note c3 = read_bit_cons [OF conjunct2 [OF c2]]
    show ?thesis
      using a1 a2 a3 a4 a5 a6 a7(1) a8 a9 b1(1) c1(1) c2 c3(1) size bounds True assms(2,4) by (simp add: defs)
  next
    case False
    with b1(2) have "drop (0 + length (nat_bits 8 profile) + length (nat_bits 16 level) + length (ue_code 0) + length (ue_code 0)
       + length (ue_code 2) + length (ue_code 1) + 1 + length (ue_code (width_mbs - 1)) + length (ue_code (height_units - 1)) + 1) (bits_of rbsp)
       = False # True # crop_code crop @ False # rest" by simp
    note c0 = read_bit_cons [OF this]
    note c1 = read_bit_cons [OF c0(2)]
    note c2 = readsD [OF reads_crop [OF assms(9)] c1(2)]
    note c3 = read_bit_cons [OF conjunct2 [OF c2]]
    show ?thesis
      using a1 a2 a3 a4 a5 a6 a7(1) a8 a9 b1(1) c0(1) c1(1) c2 c3(1) size bounds False assms(2,4) by (simp add: defs)
  qed
qed


lemma nat_bits_numeral: "nat_bits (numeral k) v = nat_bits (pred_numeral k) (v div 2) @ [odd v]"
  by (simp add: numeral_eq_Suc)

lemma sample_codes:
  "ue_code 0 = [True]" "ue_code (Suc 0) = [False, True, False]" "ue_code 2 = [False, True, True]"
  "ue_code 79 = [False, False, False, False, False, False, True, False, True, False, False, False, False]"
  "ue_code 44 = [False, False, False, False, False, True, False, True, True, False, True]"
  by (simp_all add: ue_code_def ilog2.simps nat_bits_numeral)

lemma sample_sps:
  "bits_of [0x42, 0xc0, 0x1f, 0xda, 0x01, 0x40, 0x16, 0xe4] = sps_code 66 0xc01f 80 45 True None @ [True, False, False]"
  by (simp add: bits_of_def byte_bits_def upt_rec sps_code_def sample_codes crop_code_def nat_bits_numeral)


section \<open>Bounds of the size\<close>

lemma sps_size_bounds: "sps_size f w h m crop = Some (x, y) \<Longrightarrow> 0 < x \<and> x \<le> 16384 \<and> 0 < y \<and> y \<le> 16384"
  by (auto simp: sps_size_def Let_def bind_eq_Some_conv split: prod.splits if_splits)

definition frame_ok :: "SpsInfo \<Rightarrow> bool" where
  "frame_ok info \<longleftrightarrow> 0 < si_width info \<and> si_width info \<le> 16384 \<and> 0 < si_height info \<and> si_height info \<le> 16384"

lemma parse_sps_ok: "parse_sps rbsp = Some info \<Longrightarrow> frame_ok info"
  by (auto simp: parse_sps_def bind_eq_Some_conv frame_ok_def dest!: sps_size_bounds split: prod.splits)

lemma find_sps_from_ok: "find_sps_from data i = Some info \<Longrightarrow> frame_ok info"
proof (induction data i rule: find_sps_from.induct)
  case (1 data i)
  then show ?case by (subst (asm) (2) find_sps_from.simps)
    (auto simp: Let_def parse_sps_ok split: if_splits option.splits)
qed

text \<open>The bare multiplication wraps: an absurd width of the parameter set passes the size check.\<close>

lemma oversized_width_wraps: "sps_size 1 (2 ^ 28 + 80) 45 1 (0, 0, 0, 0) = Some (1280, 720)"
  by (simp add: sps_size_def mul_u32_def add_u32_def checked_sub_u32_def)

end
