(* ===== verification/Passive.thy ===== *)
theory Passive
  imports Probe H264
begin

text \<open>
  Passive metadata capture (\<open>crates/media/src/passive.rs\<close>): the analyzer that reads the stream
  types from the PMT, the size from an H.264 sequence parameter set and the audio format from an
  ADTS header, and the loop that feeds it from a ring cursor.
\<close>

unbundle bit_operations_syntax

section \<open>ADTS header\<close>

definition RATES :: "nat list" where
  "RATES = [96000, 88200, 64000, 48000, 44100, 32000, 24000, 22050, 16000, 12000, 11025, 8000, 7350]"

definition adts_header :: "bytes \<Rightarrow> (nat \<times> u8) option" where
  "adts_header window =
     (if window ! 0 = 0xff \<and> window ! 1 AND 0xf6 = 0xf0 then
        (let rate_index = unat (drop_bit 2 (window ! 2) AND 0x0f);
             channel_config = push_bit 2 (window ! 2 AND 1) OR drop_bit 6 (window ! 3);
             frame_length = push_bit 11 (unat (window ! 3 AND 3)) OR push_bit 3 (unat (window ! 4))
               OR unat (drop_bit 5 (window ! 5))
         in case get_at RATES rate_index of
              None \<Rightarrow> None
            | Some rate \<Rightarrow>
                if frame_length \<ge> 7 \<and> 1 \<le> channel_config \<and> channel_config \<le> 7
                then Some (rate, if channel_config = 7 then 8 else channel_config) else None)
      else None)"

definition find_adts_header :: "bytes \<Rightarrow> (nat \<times> u8) option" where
  "find_adts_header data = find_map adts_header (windows 7 data)"

section \<open>Analyzer\<close>

definition MAX_ES_BYTES :: usize where
  "MAX_ES_BYTES = 192 * 1024"

definition SAMPLE_READ_PACKETS :: usize where
  "SAMPLE_READ_PACKETS = 128"

record StreamMetadata =
  sm_video_codec :: "string option"
  sm_video_width :: "nat option"
  sm_video_height :: "nat option"
  sm_video_fps :: "(nat \<times> nat) option"
  sm_audio_codec :: "string option"
  sm_audio_channels :: "u8 option"
  sm_audio_sample_rate :: "nat option"

definition StreamMetadata_default :: StreamMetadata where
  "StreamMetadata_default =
     \<lparr>sm_video_codec = None, sm_video_width = None, sm_video_height = None, sm_video_fps = None,
      sm_audio_codec = None, sm_audio_channels = None, sm_audio_sample_rate = None\<rparr>"

definition is_complete :: "StreamMetadata \<Rightarrow> bool" where
  "is_complete self \<longleftrightarrow>
     sm_video_width self \<noteq> None \<and> sm_video_height self \<noteq> None \<and> sm_audio_codec self \<noteq> None"

definition has_video :: "StreamMetadata \<Rightarrow> bool" where
  "has_video self \<longleftrightarrow> sm_video_codec self \<noteq> None"

record PassiveStreamAnalyzer =
  an_tracker :: PatPmtTracker
  an_sequence :: u64
  an_video_pid :: "u16 option"
  an_audio_pid :: "u16 option"
  an_video_type :: "u8 option"
  an_audio_type :: "u8 option"
  an_video_es :: bytes
  an_audio_es :: bytes
  an_metadata :: StreamMetadata

definition analyzer_new :: PassiveStreamAnalyzer where
  "analyzer_new =
     \<lparr>an_tracker = PatPmtTracker_default, an_sequence = 0, an_video_pid = None, an_audio_pid = None,
      an_video_type = None, an_audio_type = None, an_video_es = [], an_audio_es = [],
      an_metadata = StreamMetadata_default\<rparr>"

text \<open>The loop of \<open>apply_pmt\<close> over the entries: the first video and the first audio stream.\<close>

definition first_stream :: "u8 set \<Rightarrow> ElementaryStreamInfo list \<Rightarrow> (u16 \<times> u8) option" where
  "first_stream types streams =
     map_option (\<lambda>entry. (es_pid entry, es_stream_type entry))
       (find (\<lambda>entry. es_stream_type entry \<in> types) streams)"

definition apply_pmt :: "PassiveStreamAnalyzer \<Rightarrow> PassiveStreamAnalyzer" where
  "apply_pmt self =
     (case tr_completed_pmt (an_tracker self) of
        None \<Rightarrow> self
      | Some (section, program) \<Rightarrow>
          (case parse_pmt_elementary_streams section program of
             None \<Rightarrow> self
           | Some streams \<Rightarrow>
               let self = (case first_stream {0x01, 0x02, 0x10, 0x1b, 0x24} streams of
                     None \<Rightarrow> self
                   | Some (pid, stream_type) \<Rightarrow>
                       if an_video_pid self \<noteq> Some pid
                       then self\<lparr>an_video_pid := Some pid, an_video_type := Some stream_type,
                         an_video_es := [], an_metadata := (an_metadata self)
                           \<lparr>sm_video_codec := codec_name_for_stream_type stream_type\<rparr>\<rparr>
                       else self)
               in case first_stream {0x03, 0x04, 0x0f, 0x11, 0x80, 0x81, 0x82, 0x83, 0x84, 0x87} streams of
                    None \<Rightarrow> self
                  | Some (pid, stream_type) \<Rightarrow>
                      if an_audio_pid self \<noteq> Some pid
                      then self\<lparr>an_audio_pid := Some pid, an_audio_type := Some stream_type,
                        an_audio_es := [], an_metadata := (an_metadata self)
                          \<lparr>sm_audio_codec := codec_name_for_stream_type stream_type\<rparr>\<rparr>
                      else self))"

definition packet_payload :: "bytes \<Rightarrow> bytes option" where
  "packet_payload packet =
     (let adaptation_control = drop_bit 4 (packet ! 3) AND 0x03;
          from = (\<lambda>offset. if offset \<le> length packet then Some (drop offset packet) else None)
      in if adaptation_control = 1 then from 4
         else if adaptation_control = 3 then from (5 + unat (packet ! 4))
         else None)"

definition observe_video :: "bytes \<Rightarrow> PassiveStreamAnalyzer \<Rightarrow> PassiveStreamAnalyzer" where
  "observe_video payload self =
     (if sm_video_width (an_metadata self) = None \<and> length (an_video_es self) < MAX_ES_BYTES then
        (let self = self\<lparr>an_video_es := an_video_es self @ payload\<rparr>
         in if an_video_type self = Some 0x1b then
              (case find_h264_sps (an_video_es self) of
                 None \<Rightarrow> self
               | Some sps \<Rightarrow> self\<lparr>an_video_es := [],
                   an_metadata := (an_metadata self)\<lparr>sm_video_width := Some (si_width sps),
                     sm_video_height := Some (si_height sps), sm_video_fps := si_fps sps\<rparr>\<rparr>)
            else self)
      else self)"

definition observe_audio :: "bytes \<Rightarrow> PassiveStreamAnalyzer \<Rightarrow> PassiveStreamAnalyzer" where
  "observe_audio payload self =
     (if sm_audio_sample_rate (an_metadata self) = None \<and> length (an_audio_es self) < MAX_ES_BYTES then
        (let self = self\<lparr>an_audio_es := an_audio_es self @ payload\<rparr>
         in if an_audio_type self = Some 0x0f then
              (case find_adts_header (an_audio_es self) of
                 None \<Rightarrow> self
               | Some (rate, channels) \<Rightarrow> self\<lparr>an_audio_es := [],
                   an_metadata := (an_metadata self)\<lparr>sm_audio_channels := Some channels,
                     sm_audio_sample_rate := Some rate\<rparr>\<rparr>)
            else self)
      else self)"

definition observe_packet :: "bytes \<Rightarrow> PassiveStreamAnalyzer \<Rightarrow> PassiveStreamAnalyzer" where
  "observe_packet packet self =
     (if packet ! 0 \<noteq> 0x47 then self
      else let (tracker, observed) = tr_observe (an_tracker self) packet (an_sequence self);
               self = self\<lparr>an_tracker := tracker\<rparr>;
               self = (if observed \<noteq> None then apply_pmt self else self);
               pid = pid_of (packet ! 1) (packet ! 2);
               is_video = (Some pid = an_video_pid self);
               is_audio = (Some pid = an_audio_pid self)
        in if \<not> is_video \<and> \<not> is_audio then self
           else case packet_payload packet of
               None \<Rightarrow> self
             | Some payload \<Rightarrow>
                 let self = (if is_video then observe_video payload self else self)
                 in if is_audio then observe_audio payload self else self)"

definition analyzer_step :: "bytes \<Rightarrow> PassiveStreamAnalyzer \<Rightarrow> PassiveStreamAnalyzer" where
  "analyzer_step packet self =
     observe_packet packet (self\<lparr>an_sequence := wrapping_add_u64 (an_sequence self) 1\<rparr>)"

definition analyzer_push :: "bytes \<Rightarrow> PassiveStreamAnalyzer \<Rightarrow> PassiveStreamAnalyzer" where
  "analyzer_push bs self = fold analyzer_step (chunks_exact MPEG_TS_PACKET_SIZE bs) self"

section \<open>Sampling a session\<close>

text \<open>
  One turn of the loop of \<open>sample_cursor_metadata\<close>: the ring as it is when the cursor is polled,
  and whether the deadline has passed.  \<open>timeout_at\<close> polls the read before it looks at the clock,
  so a read that is ready wins over an expired deadline; a read that is not ready is polled again
  when the ring changes.  \<open>Inl\<close> is the result of the function.
\<close>

definition sample_result :: "PassiveStreamAnalyzer \<Rightarrow> StreamMetadata option" where
  "sample_result analyzer =
     (if has_video (an_metadata analyzer) then Some (an_metadata analyzer) else None)"

definition sample_turn ::
    "RingInner \<Rightarrow> bool \<Rightarrow> RingCursor \<times> PassiveStreamAnalyzer \<Rightarrow>
     StreamMetadata option + RingCursor \<times> PassiveStreamAnalyzer" where
  "sample_turn ring expired = (\<lambda>(cursor, analyzer).
     (case try_next ring cursor SAMPLE_READ_PACKETS of
        Inl _ \<Rightarrow> Inl (sample_result analyzer)
      | Inr (cursor, None) \<Rightarrow>
          if expired then Inl (sample_result analyzer) else Inr (cursor, analyzer)
      | Inr (cursor, Some (Packets _ _ bs)) \<Rightarrow>
          (let analyzer = analyzer_push bs analyzer
           in if is_complete (an_metadata analyzer) then Inl (sample_result analyzer)
              else Inr (cursor, analyzer))
      | Inr (cursor, Some _) \<Rightarrow> Inr (cursor, analyzer)))"

fun sample_cursor_turns ::
    "(RingInner \<times> bool) list \<Rightarrow> RingCursor \<times> PassiveStreamAnalyzer \<Rightarrow>
     StreamMetadata option + RingCursor \<times> PassiveStreamAnalyzer" where
  "sample_cursor_turns [] s = Inr s"
| "sample_cursor_turns ((ring, expired) # turns) s =
     (case sample_turn ring expired s of
        Inl result \<Rightarrow> Inl result
      | Inr s \<Rightarrow> sample_cursor_turns turns s)"

section \<open>Bounds\<close>

lemma adts_header_ok: "adts_header w = Some (rate, channels) \<Longrightarrow> rate \<in> set RATES \<and> 1 \<le> channels \<and> channels \<le> 8"
  by (auto simp: adts_header_def Let_def get_at_def word_le_nat_alt split: if_splits option.splits)

lemma find_adts_header_ok: "find_adts_header data = Some (rate, channels) \<Longrightarrow> rate \<in> set RATES \<and> 1 \<le> channels \<and> channels \<le> 8"
  by (auto simp: find_adts_header_def dest!: find_map_Some adts_header_ok)

definition metadata_ok :: "StreamMetadata \<Rightarrow> bool" where
  "metadata_ok m \<longleftrightarrow>
     (case (sm_video_width m, sm_video_height m) of
        (None, None) \<Rightarrow> True
      | (Some w, Some h) \<Rightarrow> 0 < w \<and> w \<le> 16384 \<and> 0 < h \<and> h \<le> 16384
      | _ \<Rightarrow> False)
     \<and> (case (sm_audio_sample_rate m, sm_audio_channels m) of
        (None, None) \<Rightarrow> True
      | (Some rate, Some channels) \<Rightarrow> rate \<in> set RATES \<and> 1 \<le> channels \<and> channels \<le> 8
      | _ \<Rightarrow> False)"

definition analyzer_ok :: "PassiveStreamAnalyzer \<Rightarrow> bool" where
  "analyzer_ok a \<longleftrightarrow> metadata_ok (an_metadata a)
     \<and> length (an_video_es a) < MAX_ES_BYTES + 184 \<and> length (an_audio_es a) < MAX_ES_BYTES + 184"

lemma MAX_ES_BYTES_pos [simp]: "0 < MAX_ES_BYTES"
  by (simp add: MAX_ES_BYTES_def)

lemma analyzer_ok_new: "analyzer_ok analyzer_new"
  by (simp add: analyzer_ok_def analyzer_new_def metadata_ok_def StreamMetadata_default_def)

lemma analyzer_ok_tracker: "analyzer_ok (a\<lparr>an_tracker := t\<rparr>) = analyzer_ok a" "analyzer_ok (a\<lparr>an_sequence := q\<rparr>) = analyzer_ok a"
  by (simp_all add: analyzer_ok_def)

lemma analyzer_ok_pmt: "analyzer_ok a \<Longrightarrow> analyzer_ok (apply_pmt a)"
  by (auto simp: apply_pmt_def analyzer_ok_def metadata_ok_def Let_def split: option.splits prod.splits)

lemma analyzer_ok_video: "analyzer_ok a \<Longrightarrow> length payload \<le> 184 \<Longrightarrow> analyzer_ok (observe_video payload a)"
  by (auto simp: observe_video_def analyzer_ok_def metadata_ok_def find_h264_sps_def frame_ok_def Let_def
      dest!: find_sps_from_ok split: option.splits)

lemma analyzer_ok_audio: "analyzer_ok a \<Longrightarrow> length payload \<le> 184 \<Longrightarrow> analyzer_ok (observe_audio payload a)"
  by (auto simp: observe_audio_def analyzer_ok_def metadata_ok_def Let_def
      dest!: find_adts_header_ok split: option.splits prod.splits)

lemma packet_payload_length: "packet_payload p = Some payload \<Longrightarrow> length p = 188 \<Longrightarrow> length payload \<le> 184"
  by (auto simp: packet_payload_def Let_def split: if_splits)

lemma analyzer_ok_step:
  assumes "analyzer_ok a" "length packet = 188"
  shows "analyzer_ok (analyzer_step packet a)"
  using assms packet_payload_length [of packet]
  by (auto simp: analyzer_step_def observe_packet_def Let_def analyzer_ok_tracker
      intro!: analyzer_ok_pmt analyzer_ok_video analyzer_ok_audio split: prod.splits option.splits)

lemma analyzer_ok_push: "analyzer_ok a \<Longrightarrow> analyzer_ok (analyzer_push bs a)"
proof -
  have "analyzer_ok a \<Longrightarrow> \<forall>p \<in> set ps. length p = 188 \<Longrightarrow> analyzer_ok (fold analyzer_step ps a)" for ps
    by (induction ps arbitrary: a) (simp_all add: analyzer_ok_step)
  then show "analyzer_ok a \<Longrightarrow> ?thesis"
    using chunks_exact_lengths [of _ MPEG_TS_PACKET_SIZE bs] by (simp add: analyzer_push_def MPEG_TS_PACKET_SIZE_def)
qed

text \<open>
  Whatever a provider sends, the analyzer stays within its bounds: each elementary stream buffer
  holds less than the limit and one payload more, the width and height are known together and lie
  in 1 to 16384, and the audio rate and channel count are known together and are values of the
  ADTS tables.\<close>

theorem analyzer_stays_bounded: "analyzer_ok (fold analyzer_push segments analyzer_new)"
proof -
  have "analyzer_ok a \<Longrightarrow> analyzer_ok (fold analyzer_push segments a)" for a
    by (induction segments arbitrary: a) (simp_all add: analyzer_ok_push)
  then show ?thesis by (simp add: analyzer_ok_new)
qed

section \<open>The end of sampling\<close>

lemma try_next_closed:
  assumes "rs_closed (ri_state ring) = Some reason" "cu_generation cursor = rs_generation (ri_state ring)"
    and "\<not> cu_waiting_for_safe_boundary cursor" "cu_next_sequence cursor = rs_next_sequence (ri_state ring)"
    and "rs_first_sequence (ri_state ring) \<le> rs_next_sequence (ri_state ring)" "0 < n"
  shows "try_next ring cursor n = Inr (cursor, Some (ReadClosed (rs_generation (ri_state ring)) reason))"
  using assms by (simp add: try_next_def Let_def read_at_def closed_event_def)

text \<open>
  The sampling loop does not leave a closed ring.  Once the ring is closed, the cursor is at its
  end and the metadata is incomplete, every further read is ready with the close event, which the
  loop takes as a reason to read again, and no expired deadline is ever looked at.\<close>

theorem sampling_never_leaves_a_closed_ring:
  assumes "ring_reach cfg entries ring" "rs_closed (ri_state ring) = Some reason"
    and "cu_generation cursor = rs_generation (ri_state ring)"
    and "\<not> cu_waiting_for_safe_boundary cursor" "cu_next_sequence cursor = length entries"
  shows "sample_cursor_turns (map (Pair ring) expired) (cursor, analyzer) = Inr (cursor, analyzer)"
proof -
  note st = ring_reach_store [OF assms(1)]
  have "sample_turn ring e (cursor, analyzer) = Inr (cursor, analyzer)" for e
    using try_next_closed [OF assms(2-4), of SAMPLE_READ_PACKETS] st assms(5)
    by (simp add: sample_turn_def SAMPLE_READ_PACKETS_def)
  then show ?thesis by (induction expired) simp_all
qed

theorem sampling_never_leaves_a_closed_ring_witness:
  "sample_cursor_turns (map (Pair (snd (ring_close sample_ring Shutdown))) [False, True, True])
     (\<lparr>cu_generation = 0, cu_next_sequence = 2, cu_waiting_for_safe_boundary = False\<rparr>, analyzer_new)
   = Inr (\<lparr>cu_generation = 0, cu_next_sequence = 2, cu_waiting_for_safe_boundary = False\<rparr>, analyzer_new)"
proof -
  let ?r = "snd (ring_close sample_ring Shutdown)"
  have reach: "ring_reach sample_cfg [pat_packet, pmt_packet] ?r"
    by (rule ring_closed [OF sample_reach]) (simp add: prod_eq_iff)
  have "rs_closed (ri_state ?r) = Some Shutdown" "rs_generation (ri_state ?r) = 0"
    using sample_ring_state by (simp_all add: ring_close_def)
  then show ?thesis by (intro sampling_never_leaves_a_closed_ring [OF reach]) simp_all
qed

text \<open>The turns that are left: a generation step, a lag and the packets in front of the cursor.\<close>

definition turns_left :: "RingInner \<Rightarrow> RingCursor \<Rightarrow> nat" where
  "turns_left ring cursor =
     (let state = ri_state ring; retained = rs_next_sequence state - rs_first_sequence state
      in if cu_generation cursor \<noteq> rs_generation state then retained + 2
         else if cu_next_sequence cursor < rs_first_sequence state then retained + 1
         else rs_next_sequence state - cu_next_sequence cursor)"

lemma sample_turn_progress:
  assumes r: "ring_reach cfg entries ring" and opn: "rs_closed (ri_state ring) = None" and ok: "cursor_ok ring cursor"
    and turn: "sample_turn ring True (cursor, analyzer) = Inr (cursor', analyzer')"
  shows "cursor_ok ring cursor' \<and> turns_left ring cursor' < turns_left ring cursor"
proof -
  note st = ring_reach_store [OF r]
  obtain ev where tn: "try_next ring cursor SAMPLE_READ_PACKETS = Inr (cursor', ev)" and ev: "ev \<noteq> None"
    using turn by (auto simp: sample_turn_def Let_def split: sum.splits prod.splits option.splits RingRead.splits if_splits)
  have "turns_left ring cursor' < turns_left ring cursor"
    using r ok tn
  proof (cases rule: try_next_cases)
    case (boundary q w)
    with safe_resume_spec [OF r _ boundary(2)] st show ?thesis by (auto simp: turns_left_def Let_def)
  next
    case (lagged q w)
    with safe_resume_spec [OF r _ lagged(3)] st show ?thesis by (auto simp: turns_left_def Let_def)
  next
    case (reading q k)
    then have "cu_next_sequence cursor \<le> q" by (simp split: if_splits)
    with reading st show ?thesis by (auto simp: turns_left_def Let_def)
  qed (use ev opn in \<open>simp_all add: closed_event_def\<close>)
  with cursor_ok_try_next [OF r ok tn] show ?thesis by simp
qed



end
