(* ===== verification/Splice.thy ===== *)
theory Splice
  imports Psi "HOL-Library.Sublist"
begin

text \<open>
  The slate-to-live splice (\<open>crates/media/src/slate.rs\<close>, the part under the heading \<open>Splice
  muxer\<close>): the packet helpers, the program map, the segment, and the \<open>SpliceMuxer\<close> that joins
  slate and live segments into one program with fixed PIDs.

  Timestamps are \<open>64 word\<close>s, so \<open>wrapping_sub\<close>, \<open>+\<close> and \<open>&\<close> are the operators of the source.
  An array \<open>[T; 3]\<close> that the code indexes with \<open>Role::index\<close> is a function of the role.  A
  \<open>&mut out\<close> argument is the list of bytes that the call appends; a \<open>&mut self\<close> or \<open>&mut
  segment\<close> argument is returned.
\<close>

section \<open>Constants and roles\<close>

definition SLATE_PMT_PID :: u16 where
  "SLATE_PMT_PID = 0x1000"

definition SLATE_VIDEO_PID :: u16 where
  "SLATE_VIDEO_PID = 0x100"

definition SLATE_AUDIO_PID :: u16 where
  "SLATE_AUDIO_PID = 0x101"

definition SLATE_PCR_PID :: u16 where
  "SLATE_PCR_PID = 0x102"

definition NULL_PID :: u16 where
  "NULL_PID = 0x1fff"

definition PROGRAM_NUMBER :: u16 where
  "PROGRAM_NUMBER = 1"

definition TRANSPORT_STREAM_ID :: u16 where
  "TRANSPORT_STREAM_ID = 1"

definition TIMESTAMP_MASK :: "64 word" where
  "TIMESTAMP_MASK = push_bit 33 1 - 1"

definition TIMESTAMP_HALF_RANGE :: "64 word" where
  "TIMESTAMP_HALF_RANGE = push_bit 32 1"

definition SPLICE_STEP_TICKS :: "64 word" where
  "SPLICE_STEP_TICKS = 3003"

definition MAX_PES_STEP_TICKS :: "64 word" where
  "MAX_PES_STEP_TICKS = 90000"

definition KEYFRAME_FALLBACK_TICKS :: "64 word" where
  "KEYFRAME_FALLBACK_TICKS = 3 * 90000"

definition NO_PCR_PACKET_BUDGET :: u64 where
  "NO_PCR_PACKET_BUDGET = 20000"

definition AUDIO_GATE_LIMIT_TICKS :: "64 word" where
  "AUDIO_GATE_LIMIT_TICKS = 10 * 90000"

definition MAX_SINGLE_PACKET_SECTION :: usize where
  "MAX_SINGLE_PACKET_SECTION = MPEG_TS_PACKET_SIZE - 5"

datatype Role = Video | Audio | Pcr

definition Role_ALL :: "Role list" where
  "Role_ALL = [Video, Audio, Pcr]"

fun output_pid :: "Role \<Rightarrow> u16" where
  "output_pid Video = SLATE_VIDEO_PID"
| "output_pid Audio = SLATE_AUDIO_PID"
| "output_pid Pcr = SLATE_PCR_PID"

section \<open>Packet helpers\<close>

definition packet_pid :: "bytes \<Rightarrow> u16" where
  "packet_pid packet = pid_of (packet ! 1) (packet ! 2)"

definition payload_unit_start :: "bytes \<Rightarrow> bool" where
  "payload_unit_start packet \<longleftrightarrow> packet ! 1 AND 0x40 \<noteq> 0"

definition payload_offset :: "bytes \<Rightarrow> usize option" where
  "payload_offset packet =
     (let control = drop_bit 4 (packet ! 3) AND 0x03
      in if control = 1 then Some 4
         else if control = 3 then
           (let offset = 5 + unat (packet ! 4)
            in if offset < MPEG_TS_PACKET_SIZE then Some offset else None)
         else None)"

definition has_pcr :: "bytes \<Rightarrow> bool" where
  "has_pcr packet \<longleftrightarrow>
     packet ! 3 AND 0x20 \<noteq> 0 \<and> packet ! 4 \<ge> 7 \<and> packet ! 5 AND 0x10 \<noteq> 0"

definition read_pcr_base :: "bytes \<Rightarrow> 64 word option" where
  "read_pcr_base packet =
     (if \<not> has_pcr packet then None
      else Some (push_bit 25 (ucast (packet ! 6)) OR push_bit 17 (ucast (packet ! 7))
        OR push_bit 9 (ucast (packet ! 8)) OR push_bit 1 (ucast (packet ! 9))
        OR drop_bit 7 (ucast (packet ! 10))))"

definition low_byte :: "64 word \<Rightarrow> u8" where
  "low_byte value = ucast value"

definition write_pcr_base :: "bytes \<Rightarrow> 64 word \<Rightarrow> bytes" where
  "write_pcr_base packet base =
     packet[6 := low_byte (drop_bit 25 base), 7 := low_byte (drop_bit 17 base),
       8 := low_byte (drop_bit 9 base), 9 := low_byte (drop_bit 1 base),
       10 := push_bit 7 (low_byte (base AND 1)) OR (packet ! 10 AND 0x7f)]"

definition is_random_access :: "bytes \<Rightarrow> bool" where
  "is_random_access packet \<longleftrightarrow>
     packet ! 3 AND 0x20 \<noteq> 0 \<and> packet ! 4 > 0 \<and> packet ! 5 AND 0x40 \<noteq> 0"

definition no_optional_header :: "u8 \<Rightarrow> bool" where
  "no_optional_header stream_id \<longleftrightarrow>
     stream_id \<in> {0xbc, 0xbe, 0xbf, 0xf0, 0xf1, 0xf2, 0xf8, 0xff}"

definition pes_header :: "bytes \<Rightarrow> (usize \<times> usize) option" where
  "pes_header packet =
     (case payload_offset packet of
        None \<Rightarrow> None
      | Some start \<Rightarrow>
          let pes = drop start packet in
          if length pes < 9 \<or> take 3 pes \<noteq> [0x00, 0x00, 0x01] then None
          else if no_optional_header (pes ! 3) then None
          else Some (start, unat (pes ! 8)))"

definition read_timestamp :: "bytes \<Rightarrow> 64 word" where
  "read_timestamp bs =
     push_bit 30 (ucast (drop_bit 1 (bs ! 0) AND 0x07)) OR push_bit 22 (ucast (bs ! 1))
       OR push_bit 15 (ucast (drop_bit 1 (bs ! 2))) OR push_bit 7 (ucast (bs ! 3))
       OR drop_bit 1 (ucast (bs ! 4))"

definition write_timestamp :: "bytes \<Rightarrow> 64 word \<Rightarrow> bytes" where
  "write_timestamp bs value =
     bs[0 := (bs ! 0 AND 0xf0) OR (low_byte (drop_bit 29 value) AND 0x0e) OR 0x01,
       1 := low_byte (drop_bit 22 value),
       2 := (low_byte (drop_bit 14 value) AND 0xfe) OR 0x01,
       3 := low_byte (drop_bit 7 value),
       4 := (low_byte (push_bit 1 value) AND 0xfe) OR 0x01]"

definition read_pes_pts :: "bytes \<Rightarrow> 64 word option" where
  "read_pes_pts packet =
     (case pes_header packet of
        None \<Rightarrow> None
      | Some (start, _) \<Rightarrow>
          let pes = drop start packet in
          if pes ! 7 AND 0x80 \<noteq> 0 \<and> length pes \<ge> 14
          then Some (read_timestamp (slice 9 5 pes)) else None)"

definition later_timestamp :: "64 word \<Rightarrow> 64 word \<Rightarrow> 64 word" where
  "later_timestamp left right =
     (if (left - right) AND TIMESTAMP_MASK < TIMESTAMP_HALF_RANGE then left else right)"

text \<open>
  One turn of the loop of \<open>rebase_pes_timestamps\<close> over the two timestamp fields, and the loop;
  the state is the packet and the latest rebased timestamp so far.
\<close>

definition rebase_field ::
    "64 word \<Rightarrow> bool \<Rightarrow> usize \<Rightarrow> bytes \<times> 64 word option \<Rightarrow> bytes \<times> 64 word option" where
  "rebase_field offset present first_byte = (\<lambda>(packet, latest).
     (if \<not> present \<or> first_byte + 5 > MPEG_TS_PACKET_SIZE then (packet, latest)
      else let field = slice first_byte 5 packet;
               rebased = (read_timestamp field + offset) AND TIMESTAMP_MASK
        in (take first_byte packet @ write_timestamp field rebased @ drop (first_byte + 5) packet,
            Some (case latest of None \<Rightarrow> rebased
                  | Some previous \<Rightarrow> later_timestamp previous rebased))))"

definition rebase_pes_timestamps :: "bytes \<Rightarrow> 64 word \<Rightarrow> bytes \<times> 64 word option" where
  "rebase_pes_timestamps packet offset =
     (case pes_header packet of
        None \<Rightarrow> (packet, None)
      | Some (start, _) \<Rightarrow>
          let flags = drop_bit 6 (packet ! (start + 7))
          in rebase_field offset (flags = 0x03) (start + 14)
               (rebase_field offset (flags AND 0x02 \<noteq> 0) (start + 9) (packet, None)))"

definition keyframe_start_code :: "u8 \<Rightarrow> u8 \<Rightarrow> bool" where
  "keyframe_start_code stream_type code =
     (if stream_type = 0x1b then code AND 0x1f \<in> {5, 7}
      else if stream_type = 0x24 then
        (let nal = drop_bit 1 code AND 0x3f in 16 \<le> nal \<and> nal \<le> 21 \<or> 32 \<le> nal \<and> nal \<le> 34)
      else if stream_type = 0x01 \<or> stream_type = 0x02 then code = 0xb3
      else False)"

definition is_keyframe :: "bytes \<Rightarrow> u8 \<Rightarrow> bool" where
  "is_keyframe packet stream_type =
     (if is_random_access packet then True
      else case pes_header packet of
          None \<Rightarrow> False
        | Some (start, header_length) \<Rightarrow>
            if start + 9 + header_length > length packet then False
            else list_ex (\<lambda>window. take 3 window = [0x00, 0x00, 0x01]
                     \<and> keyframe_start_code stream_type (window ! 3))
                   (windows 4 (drop (start + 9 + header_length) packet)))"

section \<open>Program map\<close>

record EsEntry =
  ee_pid :: u16
  ee_stream_type :: u8
  ee_descriptors :: bytes

record ProgramMap =
  pm_video :: "EsEntry option"
  pm_audio :: "EsEntry option"
  pm_pcr_pid :: "u16 option"

definition ProgramMap_default :: ProgramMap where
  "ProgramMap_default = \<lparr>pm_video = None, pm_audio = None, pm_pcr_pid = None\<rparr>"

definition is_video_stream_type :: "u8 \<Rightarrow> bool" where
  "is_video_stream_type stream_type \<longleftrightarrow> stream_type \<in> {0x01, 0x02, 0x10, 0x1b, 0x24}"

function descriptor_tags :: "bytes \<Rightarrow> usize \<Rightarrow> u8 list" where
  "descriptor_tags descriptors offset =
     (case (get_at descriptors offset, get_at descriptors (offset + 1)) of
        (Some tag, Some len) \<Rightarrow> tag # descriptor_tags descriptors (offset + 2 + unat len)
      | _ \<Rightarrow> [])"
  by pat_completeness auto
termination
  by (relation "measure (\<lambda>(descriptors, offset). length descriptors - offset)")
    (auto simp: get_at_def split: if_splits)

declare descriptor_tags.simps [simp del]

definition is_audio_stream :: "u8 \<Rightarrow> bytes \<Rightarrow> bool" where
  "is_audio_stream stream_type descriptors =
     (if stream_type \<in> {0x03, 0x04, 0x0f, 0x11, 0x81, 0x82, 0x83, 0x84, 0x87} then True
      else if stream_type = 0x06 then
        list_ex (\<lambda>tag. tag \<in> {0x6a, 0x7a, 0x7b, 0x7c}) (descriptor_tags descriptors 0)
      else False)"

text \<open>The \<open>while\<close> loop of \<open>ProgramMap::from_pmt\<close>, and the whole function.\<close>

definition add_stream :: "EsEntry \<Rightarrow> ProgramMap \<Rightarrow> ProgramMap" where
  "add_stream entry program =
     (if pm_video program = None \<and> is_video_stream_type (ee_stream_type entry)
      then program\<lparr>pm_video := Some entry\<rparr>
      else if pm_audio program = None \<and> is_audio_stream (ee_stream_type entry) (ee_descriptors entry)
      then program\<lparr>pm_audio := Some entry\<rparr>
      else program)"

function from_pmt_loop :: "bytes \<Rightarrow> usize \<Rightarrow> usize \<Rightarrow> ProgramMap \<Rightarrow> ProgramMap option" where
  "from_pmt_loop section streams_end offset program =
     (if offset + 5 \<le> streams_end then
        (let stream_type = section ! offset;
             pid = pid_of (section ! (offset + 1)) (section ! (offset + 2));
             info_length = length_of (section ! (offset + 3)) (section ! (offset + 4));
             nxt = offset + 5 + info_length
         in case get_range section (offset + 5) nxt of
              None \<Rightarrow> None
            | Some descriptors \<Rightarrow>
                if nxt > streams_end then None
                else from_pmt_loop section streams_end nxt
                  (add_stream \<lparr>ee_pid = pid, ee_stream_type = stream_type,
                                ee_descriptors = descriptors\<rparr> program))
      else Some program)"
  by pat_completeness auto
termination
  by (relation "measure (\<lambda>(section, streams_end, offset, program). streams_end - offset)") auto

declare from_pmt_loop.simps [simp del]

definition from_pmt :: "bytes \<Rightarrow> ProgramMap option" where
  "from_pmt section =
     (if length section < 16 \<or> section ! 0 \<noteq> 0x02 then None
      else let pcr_pid = pid_of (section ! 8) (section ! 9);
               program_info_length = length_of (section ! 10) (section ! 11);
               streams_end = length section - 4;
               offset = 12 + program_info_length
        in case from_pmt_loop section streams_end offset
                  (ProgramMap_default\<lparr>pm_pcr_pid :=
                     if pcr_pid \<noteq> NULL_PID then Some pcr_pid else None\<rparr>) of
             None \<Rightarrow> None
           | Some program \<Rightarrow>
               if pm_video program \<noteq> None \<or> pm_audio program \<noteq> None then Some program else None)"

definition role_of :: "ProgramMap \<Rightarrow> u16 \<Rightarrow> Role option" where
  "role_of self pid =
     (if map_option ee_pid (pm_video self) = Some pid then Some Video
      else if map_option ee_pid (pm_audio self) = Some pid then Some Audio
      else if pm_pcr_pid self = Some pid then Some Pcr
      else None)"

definition has_role :: "ProgramMap \<Rightarrow> Role \<Rightarrow> bool" where
  "has_role self role =
     (case role of
        Video \<Rightarrow> pm_video self \<noteq> None
      | Audio \<Rightarrow> pm_audio self \<noteq> None
      | Pcr \<Rightarrow> (case pm_pcr_pid self of None \<Rightarrow> False | Some pid \<Rightarrow> role_of self pid = Some Pcr))"

definition roles :: "ProgramMap \<Rightarrow> Role list" where
  "roles self = filter (has_role self) Role_ALL"

definition output_pcr_pid :: "ProgramMap \<Rightarrow> u16" where
  "output_pcr_pid self =
     (case Option.bind (pm_pcr_pid self) (role_of self) of
        None \<Rightarrow> NULL_PID
      | Some role \<Rightarrow> output_pid role)"

section \<open>Segment\<close>

record Segment =
  sg_tracker :: PatPmtTracker
  sg_map :: "ProgramMap option"
  sg_started :: bool
  sg_packets_seen :: u64
  sg_first_pcr :: "64 word option"
  sg_latest_pcr :: "64 word option"
  sg_latest_pts :: "64 word option"
  sg_offset :: "64 word"
  sg_audio_gate :: "64 word option"
  sg_cc_delta :: "Role \<Rightarrow> u8 option"
  sg_role_started :: "Role \<Rightarrow> bool"

definition Segment_default :: Segment where
  "Segment_default =
     \<lparr>sg_tracker = PatPmtTracker_default, sg_map = None, sg_started = False, sg_packets_seen = 0,
      sg_first_pcr = None, sg_latest_pcr = None, sg_latest_pts = None, sg_offset = 0,
      sg_audio_gate = None, sg_cc_delta = (\<lambda>_. None), sg_role_started = (\<lambda>_. False)\<rparr>"

definition audio_reached_gate :: "Segment \<Rightarrow> bytes \<Rightarrow> bool" where
  "audio_reached_gate self packet =
     (case (sg_audio_gate self, read_pes_pts packet) of
        (Some gate, Some pts) \<Rightarrow>
          (let ahead = (pts - gate) AND TIMESTAMP_MASK;
               behind = (gate - pts) AND TIMESTAMP_MASK
           in ahead < TIMESTAMP_HALF_RANGE \<or> behind > AUDIO_GATE_LIMIT_TICKS)
      | _ \<Rightarrow> True)"

definition observe_psi :: "Segment \<Rightarrow> bytes \<Rightarrow> Segment \<times> ProgramMap option" where
  "observe_psi self packet =
     (let sequence = sg_packets_seen self;
          self = self\<lparr>sg_packets_seen := wrapping_add_u64 sequence 1\<rparr>;
          (tracker, observed) = tr_observe (sg_tracker self) packet sequence;
          self = self\<lparr>sg_tracker := tracker\<rparr>
      in if observed = None then (self, None)
         else case tr_completed_pmt tracker of
             None \<Rightarrow> (self, None)
           | Some (section, _) \<Rightarrow>
               (case from_pmt section of
                  None \<Rightarrow> (self, None)
                | Some program \<Rightarrow> (self, if sg_map self \<noteq> Some program then Some program else None)))"

section \<open>Written packets\<close>

definition append_crc :: "bytes \<Rightarrow> bytes" where
  "append_crc section = section @ to_be_bytes (mpeg_crc32 section)"

text \<open>\<open>packet[5..5 + length].copy_from_slice(&section[..length])\<close> over a packet of \<open>0xff\<close>.\<close>

definition psi_packet :: "u16 \<Rightarrow> u8 \<Rightarrow> bytes \<Rightarrow> bytes" where
  "psi_packet pid counter section =
     (let len = min (length section) MAX_SINGLE_PACKET_SECTION
      in [0x47, 0x40 OR (ucast (drop_bit 8 pid) AND 0x1f), ucast (pid AND 0xff),
          0x10 OR (counter AND 0x0f), 0x00]
         @ take len section @ replicate (MPEG_TS_PACKET_SIZE - 5 - len) 0xff)"

definition discontinuity_packet :: "u16 \<Rightarrow> u8 \<Rightarrow> bytes" where
  "discontinuity_packet pid counter =
     [0x47, ucast (drop_bit 8 pid) AND 0x1f, ucast (pid AND 0xff), 0x20 OR (counter AND 0x0f),
      183, 0x80] @ replicate (MPEG_TS_PACKET_SIZE - 6) 0xff"

definition pmt_entries :: "ProgramMap \<Rightarrow> (Role \<times> EsEntry) list" where
  "pmt_entries program =
     List.map_filter (\<lambda>(role, entry). map_option (Pair role) entry)
       [(Video, pm_video program), (Audio, pm_audio program)]"

definition pmt_entry_bytes :: "bool \<Rightarrow> Role \<times> EsEntry \<Rightarrow> bytes" where
  "pmt_entry_bytes keep_descriptors = (\<lambda>(role, entry).
     (let pid = output_pid role;
          descriptors = (if keep_descriptors then ee_descriptors entry else []);
          len = (if length descriptors < 2 ^ 16 then of_nat (length descriptors) else 0) :: u16
      in [ee_stream_type entry, 0xe0 OR ucast (drop_bit 8 pid), ucast (pid AND 0xff),
          0xf0 OR ucast (drop_bit 8 len), ucast (len AND 0xff)] @ descriptors))"

definition pmt_section :: "ProgramMap \<Rightarrow> u8 \<Rightarrow> bytes" where
  "pmt_section program version =
     (let entries = pmt_entries program;
          fixed = 12 + 4 + 5 * length entries;
          descriptor_bytes = sum_list (List.map (\<lambda>(_, entry). length (ee_descriptors entry)) entries);
          keep_descriptors = (fixed + descriptor_bytes \<le> MAX_SINGLE_PACKET_SECTION);
          pcr_pid = output_pcr_pid program;
          section = [0x02, 0xb0, 0x00, ucast (drop_bit 8 PROGRAM_NUMBER),
              ucast (PROGRAM_NUMBER AND 0xff), 0xc1 OR push_bit 1 (version AND 0x1f), 0x00, 0x00,
              0xe0 OR ucast (drop_bit 8 pcr_pid), ucast (pcr_pid AND 0xff), 0xf0, 0x00]
            @ concat (List.map (pmt_entry_bytes keep_descriptors) entries);
          section_length = (if length section - 3 + 4 < 2 ^ 16
            then of_nat (length section - 3 + 4) else 0) :: u16
      in append_crc (section[1 := 0xb0 OR (ucast (drop_bit 8 section_length) AND 0x0f),
           2 := ucast (section_length AND 0xff)]))"

section \<open>Splice muxer\<close>

record SpliceMuxer =
  mx_current :: "Segment option"
  mx_pending :: "Segment option"
  mx_output_cc :: "Role \<Rightarrow> u8 option"
  mx_pat_cc :: u8
  mx_pmt_cc :: u8
  mx_pmt_version :: u8
  mx_output_map :: "ProgramMap option"
  mx_last_pcr :: "64 word option"
  mx_pes_time :: "Role \<Rightarrow> 64 word option"
  mx_pes_step :: "Role \<Rightarrow> 64 word"
  mx_media_end :: "64 word option"
  mx_splices :: u64

definition SpliceMuxer_new :: SpliceMuxer where
  "SpliceMuxer_new =
     \<lparr>mx_current = None, mx_pending = None, mx_output_cc = (\<lambda>_. None), mx_pat_cc = 0,
      mx_pmt_cc = 0, mx_pmt_version = 0, mx_output_map = None, mx_last_pcr = None,
      mx_pes_time = (\<lambda>_. None), mx_pes_step = (\<lambda>_. 0), mx_media_end = None, mx_splices = 0\<rparr>"

definition has_pending :: "SpliceMuxer \<Rightarrow> bool" where
  "has_pending self \<longleftrightarrow> mx_pending self \<noteq> None"

definition begin_pending :: "SpliceMuxer \<Rightarrow> SpliceMuxer" where
  "begin_pending self = self\<lparr>mx_pending := Some Segment_default\<rparr>"

definition cancel_pending :: "SpliceMuxer \<Rightarrow> SpliceMuxer" where
  "cancel_pending self = self\<lparr>mx_pending := None\<rparr>"

definition pat_section :: bytes where
  "pat_section =
     append_crc [0x00, 0xb0, 0x0d, ucast (drop_bit 8 TRANSPORT_STREAM_ID),
       ucast (TRANSPORT_STREAM_ID AND 0xff), 0xc1, 0x00, 0x00, ucast (drop_bit 8 PROGRAM_NUMBER),
       ucast (PROGRAM_NUMBER AND 0xff), 0xe0 OR ucast (drop_bit 8 SLATE_PMT_PID),
       ucast (SLATE_PMT_PID AND 0xff)]"

definition write_pat :: "SpliceMuxer \<Rightarrow> SpliceMuxer \<times> bytes" where
  "write_pat self =
     (self\<lparr>mx_pat_cc := (mx_pat_cc self + 1) AND 0x0f\<rparr>,
      psi_packet PAT_PID (mx_pat_cc self) pat_section)"

definition write_pmt :: "SpliceMuxer \<Rightarrow> SpliceMuxer \<times> bytes" where
  "write_pmt self =
     (case mx_output_map self of
        None \<Rightarrow> (self, [])
      | Some program \<Rightarrow>
          (self\<lparr>mx_pmt_cc := (mx_pmt_cc self + 1) AND 0x0f\<rparr>,
           psi_packet SLATE_PMT_PID (mx_pmt_cc self) (pmt_section program (mx_pmt_version self))))"

definition output_reference :: "SpliceMuxer \<Rightarrow> 64 word option" where
  "output_reference self =
     (case (mx_last_pcr self, mx_media_end self) of
        (Some pcr, Some pts) \<Rightarrow> Some (later_timestamp pcr pts)
      | (None, pts) \<Rightarrow> pts
      | (Some pcr, None) \<Rightarrow> Some pcr)"

definition offset_for :: "SpliceMuxer \<Rightarrow> 64 word \<Rightarrow> 64 word" where
  "offset_for self input_reference =
     (case output_reference self of
        Some last_output \<Rightarrow> ((last_output + SPLICE_STEP_TICKS) - input_reference) AND TIMESTAMP_MASK
      | None \<Rightarrow> 0)"

text \<open>
  \<open>seek\<close>: the two updates of the segment before the decision, the reference it rebases on, and
  whether this packet can start the segment.
\<close>

definition seek_observe :: "Segment \<Rightarrow> ProgramMap \<Rightarrow> bytes \<Rightarrow> Segment" where
  "seek_observe segment program packet =
     (let pid = packet_pid packet;
          segment =
            (if pm_pcr_pid program = Some pid then
               (case read_pcr_base packet of
                  None \<Rightarrow> segment
                | Some pcr \<Rightarrow> segment\<lparr>sg_latest_pcr := Some pcr,
                    sg_first_pcr := Some (unwrap_or (sg_first_pcr segment) pcr)\<rparr>)
             else segment)
      in if payload_unit_start packet \<and> role_of program pid \<noteq> None then
           (case read_pes_pts packet of
              None \<Rightarrow> segment
            | Some pts \<Rightarrow> segment\<lparr>sg_latest_pts := Some pts\<rparr>)
         else segment)"

definition seek_reference :: "Segment \<Rightarrow> ProgramMap \<Rightarrow> 64 word option" where
  "seek_reference segment program =
     (case sg_latest_pcr segment of
        Some pcr \<Rightarrow> Some pcr
      | None \<Rightarrow>
          (case sg_latest_pts segment of
             None \<Rightarrow> None
           | Some pts \<Rightarrow>
               if pm_pcr_pid program = None \<or> sg_packets_seen segment \<ge> NO_PCR_PACKET_BUDGET
               then Some ((pts - 90000) AND TIMESTAMP_MASK) else None))"

definition seek_accept :: "Segment \<Rightarrow> ProgramMap \<Rightarrow> bytes \<Rightarrow> bool" where
  "seek_accept segment program packet =
     (let pid = packet_pid packet
      in case pm_video program of
           Some video \<Rightarrow>
             ee_pid video = pid \<and>
             ((case (sg_first_pcr segment, sg_latest_pcr segment) of
                 (Some first, Some latest) \<Rightarrow>
                   (latest - first) AND TIMESTAMP_MASK \<ge> KEYFRAME_FALLBACK_TICKS
               | _ \<Rightarrow> sg_packets_seen segment \<ge> NO_PCR_PACKET_BUDGET)
              \<or> is_keyframe packet (ee_stream_type video))
         | None \<Rightarrow> map_option ee_pid (pm_audio program) = Some pid)"

definition seek :: "SpliceMuxer \<Rightarrow> Segment \<Rightarrow> bytes \<Rightarrow> Segment \<times> bool" where
  "seek self segment packet =
     (if length packet \<noteq> MPEG_TS_PACKET_SIZE \<or> packet ! 0 \<noteq> 0x47 then (segment, False)
      else let (segment, new_map) = observe_psi segment packet;
               segment = (case new_map of None \<Rightarrow> segment | Some program \<Rightarrow> segment\<lparr>sg_map := Some program\<rparr>)
        in case sg_map segment of
             None \<Rightarrow> (segment, False)
           | Some program \<Rightarrow>
               let segment = seek_observe segment program packet
               in case seek_reference segment program of
                    None \<Rightarrow> (segment, False)
                  | Some reference \<Rightarrow>
                      if \<not> payload_unit_start packet then (segment, False)
                      else if \<not> seek_accept segment program packet then (segment, False)
                      else (segment\<lparr>sg_offset := offset_for self reference,
                              sg_audio_gate :=
                                if map_option ee_pid (pm_video program) = Some (packet_pid packet)
                                then read_pes_pts packet else sg_audio_gate segment\<rparr>, True))"

text \<open>The loop of \<open>start_segment\<close> over the roles of the new map.\<close>

fun discontinuities :: "SpliceMuxer \<Rightarrow> Role list \<Rightarrow> SpliceMuxer \<times> bytes" where
  "discontinuities self [] = (self, [])"
| "discontinuities self (role # rest) =
     (let counter = unwrap_or (mx_output_cc self role) 0x0f;
          self = self\<lparr>mx_output_cc := (mx_output_cc self)(role := Some counter)\<rparr>;
          (self, out) = discontinuities self rest
      in (self, discontinuity_packet (output_pid role) counter @ out))"

definition start_segment :: "SpliceMuxer \<Rightarrow> Segment \<Rightarrow> SpliceMuxer \<times> Segment \<times> bytes" where
  "start_segment self segment =
     (let had_output = (mx_output_map self \<noteq> None);
          segment = segment\<lparr>sg_started := True\<rparr>;
          self = self\<lparr>mx_splices := wrapping_add_u64 (mx_splices self) 1,
            mx_pmt_version := (mx_pmt_version self + 1) AND 0x1f,
            mx_output_map := sg_map segment\<rparr>;
          (self, pat) = write_pat self;
          (self, pmt) = write_pmt self;
          (self, marks) = (case sg_map segment of
              None \<Rightarrow> (self, [])
            | Some program \<Rightarrow> if had_output then discontinuities self (roles program) else (self, []))
      in (self, segment, pat @ pmt @ marks))"

text \<open>
  \<open>running_packet\<close> in the order of the source: the program change, the gate of a stream that
  has not started, the rewritten header and continuity counter, the rebased PCR, and the rebased
  timestamps with the estimate of the end of the media.
\<close>

definition program_change ::
    "SpliceMuxer \<Rightarrow> Segment \<Rightarrow> ProgramMap option \<Rightarrow> SpliceMuxer \<times> Segment \<times> bytes" where
  "program_change self segment new_map =
     (case new_map of
        None \<Rightarrow> (self, segment, [])
      | Some program \<Rightarrow>
          let segment = segment\<lparr>sg_map := Some program, sg_audio_gate := None,
                sg_cc_delta := (\<lambda>_. None), sg_role_started := (\<lambda>_. False)\<rparr>;
              self = self\<lparr>mx_pmt_version := (mx_pmt_version self + 1) AND 0x1f,
                mx_output_map := sg_map segment\<rparr>;
              (self, out) = write_pmt self
          in (self, segment, out))"

definition role_gate :: "Segment \<Rightarrow> Role \<Rightarrow> bytes \<Rightarrow> bool" where
  "role_gate segment role packet \<longleftrightarrow>
     sg_role_started segment role \<or>
     ((role = Pcr \<or> payload_unit_start packet) \<and>
      (role = Audio \<longrightarrow> audio_reached_gate segment packet))"

definition set_pid :: "bytes \<Rightarrow> u16 \<Rightarrow> bytes" where
  "set_pid output pid =
     output[1 := (output ! 1 AND 0xe0) OR (ucast (drop_bit 8 pid) AND 0x1f),
            2 := ucast (pid AND 0xff)]"

definition counter_delta :: "SpliceMuxer \<Rightarrow> Segment \<Rightarrow> Role \<Rightarrow> bytes \<Rightarrow> u8" where
  "counter_delta self segment role output =
     (case sg_cc_delta segment role of
        Some delta \<Rightarrow> delta
      | None \<Rightarrow>
          let input_counter = output ! 3 AND 0x0f;
              target = (case mx_output_cc self role of
                  Some last_counter \<Rightarrow>
                    if output ! 3 AND 0x10 \<noteq> 0 then (last_counter + 1) AND 0x0f else last_counter
                | None \<Rightarrow> input_counter)
          in (target - input_counter) AND 0x0f)"

definition set_counter ::
    "SpliceMuxer \<Rightarrow> Segment \<Rightarrow> Role \<Rightarrow> bytes \<Rightarrow> SpliceMuxer \<times> Segment \<times> bytes" where
  "set_counter self segment role output =
     (let delta = counter_delta self segment role output;
          counter = ((output ! 3 AND 0x0f) + delta) AND 0x0f
      in (self\<lparr>mx_output_cc := (mx_output_cc self)(role := Some counter)\<rparr>,
          segment\<lparr>sg_cc_delta := (sg_cc_delta segment)(role := Some delta)\<rparr>,
          output[3 := (output ! 3 AND 0xf0) OR counter]))"

definition rebase_pcr :: "SpliceMuxer \<Rightarrow> Segment \<Rightarrow> bytes \<Rightarrow> SpliceMuxer \<times> bytes" where
  "rebase_pcr self segment output =
     (case read_pcr_base output of
        None \<Rightarrow> (self, output)
      | Some base \<Rightarrow>
          let rebased = (base + sg_offset segment) AND TIMESTAMP_MASK
          in (self\<lparr>mx_last_pcr := Some rebased\<rparr>, write_pcr_base output rebased))"

definition note_pes :: "SpliceMuxer \<Rightarrow> Role \<Rightarrow> 64 word \<Rightarrow> SpliceMuxer" where
  "note_pes self role latest =
     (let self = (case mx_pes_time self role of
            None \<Rightarrow> self
          | Some previous \<Rightarrow>
              let step = (latest - previous) AND TIMESTAMP_MASK
              in if step > 0 \<and> step \<le> MAX_PES_STEP_TICKS
                 then self\<lparr>mx_pes_step := (mx_pes_step self)(role := step)\<rparr> else self);
          self = self\<lparr>mx_pes_time := (mx_pes_time self)(role := Some
            (case mx_pes_time self role of None \<Rightarrow> latest
             | Some previous \<Rightarrow> later_timestamp previous latest))\<rparr>;
          end_time = (latest + mx_pes_step self role) AND TIMESTAMP_MASK
      in self\<lparr>mx_media_end := Some (case mx_media_end self of None \<Rightarrow> end_time
            | Some previous \<Rightarrow> later_timestamp previous end_time)\<rparr>)"

definition rebase_pes :: "SpliceMuxer \<Rightarrow> Segment \<Rightarrow> Role \<Rightarrow> bytes \<Rightarrow> SpliceMuxer \<times> bytes" where
  "rebase_pes self segment role output =
     (if \<not> payload_unit_start output then (self, output)
      else case rebase_pes_timestamps output (sg_offset segment) of
          (output, None) \<Rightarrow> (self, output)
        | (output, Some latest) \<Rightarrow> (note_pes self role latest, output))"

definition forward_packet ::
    "SpliceMuxer \<Rightarrow> Segment \<Rightarrow> Role \<Rightarrow> bytes \<Rightarrow> SpliceMuxer \<times> Segment \<times> bytes" where
  "forward_packet self segment role packet =
     (let segment = segment\<lparr>sg_role_started := (sg_role_started segment)(role := True)\<rparr>;
          output = set_pid packet (output_pid role);
          (self, segment, output) = set_counter self segment role output;
          (self, output) = rebase_pcr self segment output;
          (self, output) = rebase_pes self segment role output
      in (self, segment, output))"

definition running_packet ::
    "SpliceMuxer \<Rightarrow> Segment \<Rightarrow> bytes \<Rightarrow> SpliceMuxer \<times> Segment \<times> bytes" where
  "running_packet self segment packet =
     (if length packet \<noteq> MPEG_TS_PACKET_SIZE \<or> packet ! 0 \<noteq> 0x47 then (self, segment, [])
      else let pid = packet_pid packet in
        if pid = NULL_PID then (self, segment, packet)
        else let (segment, new_map) = observe_psi segment packet;
                 (self, segment, change) = program_change self segment new_map
          in if pid = PAT_PID then
               (if payload_unit_start packet then
                  (let (self, pat) = write_pat self;
                       (self, pmt) = write_pmt self
                   in (self, segment, change @ pat @ pmt))
                else (self, segment, change))
             else case Option.bind (sg_map segment) (\<lambda>program. role_of program pid) of
                 None \<Rightarrow> (self, segment, change)
               | Some role \<Rightarrow>
                   if \<not> role_gate segment role packet then (self, segment, change)
                   else let (self, segment, output) = forward_packet self segment role packet
                     in (self, segment, change @ output))"

text \<open>The two loops over \<open>chunk.chunks_exact(MPEG_TS_PACKET_SIZE)\<close>.\<close>

fun run_packets :: "SpliceMuxer \<Rightarrow> Segment \<Rightarrow> bytes list \<Rightarrow> SpliceMuxer \<times> Segment \<times> bytes" where
  "run_packets self segment [] = (self, segment, [])"
| "run_packets self segment (packet # packets) =
     (let (self, segment, out) = running_packet self segment packet;
          (self, segment, rest) = run_packets self segment packets
      in (self, segment, out @ rest))"

definition push_current :: "SpliceMuxer \<Rightarrow> bytes \<Rightarrow> SpliceMuxer \<times> bytes" where
  "push_current self chunk =
     (case mx_current self of
        None \<Rightarrow> (self, [])
      | Some segment \<Rightarrow>
          let (self, segment, out) =
            run_packets (self\<lparr>mx_current := None\<rparr>) segment (chunks_exact MPEG_TS_PACKET_SIZE chunk)
          in (self\<lparr>mx_current := Some segment\<rparr>, out))"

definition pending_packet ::
    "SpliceMuxer \<Rightarrow> Segment \<Rightarrow> bytes \<Rightarrow> SpliceMuxer \<times> Segment \<times> bytes" where
  "pending_packet self segment packet =
     (if sg_started segment then running_packet self segment packet
      else let (segment, found) = seek self segment packet
        in if found then
             (let (self, segment, head_out) = start_segment self segment;
                  (self, segment, out) = running_packet self segment packet
              in (self, segment, head_out @ out))
           else (self, segment, []))"

fun pending_packets :: "SpliceMuxer \<Rightarrow> Segment \<Rightarrow> bytes list \<Rightarrow> SpliceMuxer \<times> Segment \<times> bytes" where
  "pending_packets self segment [] = (self, segment, [])"
| "pending_packets self segment (packet # packets) =
     (let (self, segment, out) = pending_packet self segment packet;
          (self, segment, rest) = pending_packets self segment packets
      in (self, segment, out @ rest))"

definition push_pending :: "SpliceMuxer \<Rightarrow> bytes \<Rightarrow> SpliceMuxer \<times> bool \<times> bytes" where
  "push_pending self chunk =
     (case mx_pending self of
        None \<Rightarrow> (self, False, [])
      | Some segment \<Rightarrow>
          let (self, segment, out) =
            pending_packets (self\<lparr>mx_pending := None\<rparr>) segment (chunks_exact MPEG_TS_PACKET_SIZE chunk)
          in if sg_started segment then (self\<lparr>mx_current := Some segment\<rparr>, True, out)
             else (self\<lparr>mx_pending := Some segment\<rparr>, False, out))"

section \<open>Timestamps and clock references\<close>

lemma TIMESTAMP_MASK_mask: "TIMESTAMP_MASK = mask 33"
  by (simp add: TIMESTAMP_MASK_def mask_eq_exp_minus_1)

lemma and_TIMESTAMP_MASK [simp]: "x AND TIMESTAMP_MASK = take_bit 33 x"
  by (simp add: TIMESTAMP_MASK_mask take_bit_eq_mask)

lemma and_7: "x AND 7 = take_bit 3 (x :: u8)"
  by (simp add: take_bit_eq_mask mask_eq_exp_minus_1)

lemma bit_read_timestamp:
  "bit (read_timestamp bs) n \<longleftrightarrow>
     (if n < 7 then bit (bs ! 4) (n + 1) else if n < 15 then bit (bs ! 3) (n - 7)
      else if n < 22 then bit (bs ! 2) (n - 14) else if n < 30 then bit (bs ! 1) (n - 22)
      else n < 33 \<and> bit (bs ! 0) (n - 29))"
proof -
  have s: "\<not> n < 15 \<Longrightarrow> Suc (n - 15) = n - 14" "\<not> n < 30 \<Longrightarrow> Suc (n - 30) = n - 29"
    by simp_all
  show ?thesis unfolding read_timestamp_def
    by (auto simp: bit_simps and_7 s dest: bit_u8)
qed

lemma nat_lt4: "0 < n \<Longrightarrow> n < 4 \<Longrightarrow> n = 1 \<or> n = 2 \<or> n = (3::nat)" by auto
lemma nat_lt8: "0 < n \<Longrightarrow> n < 8 \<Longrightarrow> n = 1 \<or> n = 2 \<or> n = (3::nat) \<or> n = 4 \<or> n = 5 \<or> n = 6 \<or> n = 7" by auto

lemma bit_write_timestamp:
  assumes "length bs = 5"
  shows "0 < n \<Longrightarrow> n < 4 \<Longrightarrow> bit (write_timestamp bs v ! 0) n = bit v (n + 29)"
    "n < 8 \<Longrightarrow> bit (write_timestamp bs v ! 1) n = bit v (n + 22)"
    "0 < n \<Longrightarrow> n < 8 \<Longrightarrow> bit (write_timestamp bs v ! 2) n = bit v (n + 14)"
    "n < 8 \<Longrightarrow> bit (write_timestamp bs v ! 3) n = bit v (n + 7)"
    "0 < n \<Longrightarrow> n < 8 \<Longrightarrow> bit (write_timestamp bs v ! 4) n = bit v (n - 1)"
proof -
  note defs = write_timestamp_def low_byte_def
  show "0 < n \<Longrightarrow> n < 4 \<Longrightarrow> bit (write_timestamp bs v ! 0) n = bit v (n + 29)"
    using assms by (drule_tac nat_lt4) (auto simp: defs bit_simps)
  show "n < 8 \<Longrightarrow> bit (write_timestamp bs v ! 1) n = bit v (n + 22)"
    "n < 8 \<Longrightarrow> bit (write_timestamp bs v ! 3) n = bit v (n + 7)"
    using assms by (simp_all add: defs bit_simps add.commute)
  show "0 < n \<Longrightarrow> n < 8 \<Longrightarrow> bit (write_timestamp bs v ! 2) n = bit v (n + 14)"
    using assms by (drule_tac nat_lt8) (auto simp: defs bit_simps)
  show "0 < n \<Longrightarrow> n < 8 \<Longrightarrow> bit (write_timestamp bs v ! 4) n = bit v (n - 1)"
    using assms by (drule_tac nat_lt8) (auto simp: defs bit_simps simp del: push_bit_Suc push_bit_of_1)
qed

lemma read_write_timestamp:
  assumes "length bs = 5"
  shows "read_timestamp (write_timestamp bs v) = take_bit 33 v"
  by (rule bit_word_eqI)
    (auto simp: bit_read_timestamp bit_write_timestamp [OF assms]
      bit_write_timestamp [OF assms, unfolded One_nat_def] bit_take_bit_iff)

lemma length_write_timestamp [simp]: "length (write_timestamp bs v) = length bs"
  by (simp add: write_timestamp_def)

definition pcr_base_bits :: "bytes \<Rightarrow> 64 word" where
  "pcr_base_bits packet = push_bit 25 (ucast (packet ! 6)) OR push_bit 17 (ucast (packet ! 7))
        OR push_bit 9 (ucast (packet ! 8)) OR push_bit 1 (ucast (packet ! 9))
        OR drop_bit 7 (ucast (packet ! 10))"

lemma bit_pcr_base_bits:
  "bit (pcr_base_bits packet) n \<longleftrightarrow>
     (if n = 0 then bit (packet ! 10) 7 else if n < 9 then bit (packet ! 9) (n - 1)
      else if n < 17 then bit (packet ! 8) (n - 9) else if n < 25 then bit (packet ! 7) (n - 17)
      else n < 33 \<and> bit (packet ! 6) (n - 25))"
  unfolding pcr_base_bits_def
  by (auto simp: bit_simps simp del: push_bit_Suc dest: bit_u8)

lemma bit_write_pcr_base:
  assumes "11 \<le> length packet"
  shows "n < 8 \<Longrightarrow> bit (write_pcr_base packet v ! 6) n = bit v (n + 25)"
    "n < 8 \<Longrightarrow> bit (write_pcr_base packet v ! 7) n = bit v (n + 17)"
    "n < 8 \<Longrightarrow> bit (write_pcr_base packet v ! 8) n = bit v (n + 9)"
    "n < 8 \<Longrightarrow> bit (write_pcr_base packet v ! 9) n = bit v (n + 1)"
    "bit (write_pcr_base packet v ! 10) 7 = bit v 0"
  using assms unfolding write_pcr_base_def low_byte_def
  by (simp_all add: bit_simps add.commute)

lemma pcr_base_bits_write:
  assumes "11 \<le> length packet"
  shows "pcr_base_bits (write_pcr_base packet v) = take_bit 33 v"
  by (rule bit_word_eqI)
    (auto simp: bit_pcr_base_bits bit_write_pcr_base [OF assms] bit_take_bit_iff)

section \<open>Packet headers\<close>

lemma and_nibbles:
  "((x AND 0xf0) OR (c AND 0x0f)) AND 0xf0 = x AND (0xf0 :: u8)"
  "((x AND 0xf0) OR (c AND 0x0f)) AND 0x0f = c AND (0x0f :: u8)"
  by (rule u8_eqI; simp add: bit_simps)+

lemma high_nibble:
  "drop_bit 4 x AND 0x03 = drop_bit 4 (x AND 0xf0) AND (0x03 :: u8)"
  "x AND 0x20 = (x AND 0xf0) AND (0x20 :: u8)"
  "x AND 0x10 = (x AND 0xf0) AND (0x10 :: u8)"
  by (rule u8_eqI; simp add: bit_simps)+

lemma pid_bits:
  "((x AND 0xe0) OR (y AND 0x1f)) AND 0x1f = y AND (0x1f :: u8)"
  "((x AND 0xe0) OR (y AND 0x1f)) AND 0x40 = x AND (0x40 :: u8)"
  "((x AND 0xe0) OR (y AND 0x1f)) AND 0x80 = x AND (0x80 :: u8)"
  "((x AND 0xe0) OR 1) AND 0x1f = (1 :: u8)"
  by (rule u8_eqI; simp add: bit_simps)+

lemma output_pid_cases: "output_pid role \<in> {0x100, 0x101, 0x102}"
  by (cases role) (simp_all add: SLATE_VIDEO_PID_def SLATE_AUDIO_PID_def SLATE_PCR_PID_def)

lemmas output_pid_defs = SLATE_VIDEO_PID_def SLATE_AUDIO_PID_def SLATE_PCR_PID_def

lemma length_set_pid [simp]: "length (set_pid packet pid) = length packet"
  by (simp add: set_pid_def)

lemma packet_pid_set_pid:
  "3 \<le> length packet \<Longrightarrow> packet_pid (set_pid packet (output_pid role)) = output_pid role"
  by (cases role) (simp_all add: packet_pid_def set_pid_def pid_of_def pid_bits output_pid_defs)

lemma payload_unit_start_set_pid:
  "3 \<le> length packet \<Longrightarrow> payload_unit_start (set_pid packet pid) = payload_unit_start packet"
  by (simp add: payload_unit_start_def set_pid_def pid_bits)

text \<open>
  Two packets with the same frame differ in their PID, continuity counter and PUSI bytes only; every helper
  reads the same fields from both.
\<close>

definition same_frame :: "bytes \<Rightarrow> bytes \<Rightarrow> bool" where
  "same_frame p q \<longleftrightarrow> length p = 188 \<and> length q = 188 \<and>
     p ! 3 AND 0xf0 = q ! 3 AND 0xf0 \<and> drop 4 p = drop 4 q"

lemma same_frame_nth: "same_frame p q \<Longrightarrow> 4 \<le> i \<Longrightarrow> i < 188 \<Longrightarrow> p ! i = q ! i"
proof -
  assume a: "same_frame p q" "4 \<le> i" "i < 188"
  then have "drop 4 p = drop 4 q" and len: "length p = 188" "length q = 188"
    by (simp_all add: same_frame_def)
  from arg_cong [OF this(1), of "\<lambda>xs. xs ! (i - 4)"] len a(2, 3) show ?thesis by simp
qed

lemma same_frame_drop: "same_frame p q \<Longrightarrow> 4 \<le> n \<Longrightarrow> drop n p = drop n q"
  unfolding same_frame_def by (metis drop_drop le_add_diff_inverse2)

lemma payload_offset_ge: "payload_offset p = Some n \<Longrightarrow> 4 \<le> n \<and> n < 188"
  by (auto simp: payload_offset_def Let_def MPEG_TS_PACKET_SIZE_def split: if_splits)

lemma same_frame_reads:
  assumes "same_frame p q"
  shows "payload_offset p = payload_offset q" "has_pcr p = has_pcr q"
    "read_pcr_base p = read_pcr_base q" "pes_header p = pes_header q"
    "read_pes_pts p = read_pes_pts q"
proof -
  note n = same_frame_nth [OF assms]
  have h: "p ! 3 AND 0xf0 = q ! 3 AND 0xf0" using assms by (simp add: same_frame_def)
  have h1: "drop_bit 4 (p ! 3) AND 0x03 = drop_bit 4 (q ! 3) AND 0x03"
    by (subst (1 2) high_nibble(1)) (simp only: h)
  have h2: "p ! 3 AND 0x20 = q ! 3 AND 0x20"
    by (subst (1 2) high_nibble(2)) (simp only: h)
  show po: "payload_offset p = payload_offset q"
    unfolding payload_offset_def h1 using n [of 4] by (simp add: Let_def)
  show hp: "has_pcr p = has_pcr q"
    unfolding has_pcr_def h2 using n [of 4] n [of 5] by simp
  show "read_pcr_base p = read_pcr_base q"
    unfolding read_pcr_base_def hp using n by simp
  show ph: "pes_header p = pes_header q"
    unfolding pes_header_def po using same_frame_drop [OF assms] payload_offset_ge [of q]
    by (auto split: option.splits)
  have "length p = length q" using assms by (simp add: same_frame_def)
  then show "read_pes_pts p = read_pes_pts q"
    unfolding read_pes_pts_def ph using same_frame_drop [OF assms] payload_offset_ge [of q]
    by (auto simp: pes_header_def Let_def split: option.splits if_splits)
qed

lemma same_frame_set_pid: "length p = 188 \<Longrightarrow> same_frame (set_pid p pid) p"
  by (simp add: same_frame_def set_pid_def)

lemma same_frame_counter:
  "length p = 188 \<Longrightarrow> c AND 0x0f = c \<Longrightarrow> same_frame (p[3 := (p ! 3 AND 0xf0) OR c]) p"
  using and_nibbles(1) [of "p ! 3" c] by (simp add: same_frame_def)

lemma same_frame_trans: "same_frame p q \<Longrightarrow> same_frame q r \<Longrightarrow> same_frame p r"
  by (simp add: same_frame_def)

section \<open>Rebased timestamps\<close>

definition put_field :: "bytes \<Rightarrow> usize \<Rightarrow> 64 word \<Rightarrow> bytes" where
  "put_field p f v = take f p @ write_timestamp (slice f 5 p) v @ drop (f + 5) p"

lemma length_put_field [simp]: "f + 5 \<le> length p \<Longrightarrow> length (put_field p f v) = length p"
  by (simp add: put_field_def)

lemma nth_put_field:
  "f + 5 \<le> length p \<Longrightarrow> i < f \<or> f + 5 \<le> i \<Longrightarrow> i < length p \<Longrightarrow> put_field p f v ! i = p ! i"
  by (auto simp: put_field_def nth_append)

lemma slice_put_field [simp]:
  "f + 5 \<le> length p \<Longrightarrow> slice f 5 (put_field p f v) = write_timestamp (slice f 5 p) v"
  by (simp add: put_field_def slice_def)

lemma slice_put_field_other [simp]:
  "f + 5 \<le> length p \<Longrightarrow> g + 5 \<le> f \<or> f + 5 \<le> g \<Longrightarrow> slice g 5 (put_field p f v) = slice g 5 p"
  by (rule slice_eqI) (auto simp: nth_put_field)

lemma rebase_field_eq:
  "rebase_field offset present f (p, latest) =
     (if \<not> present \<or> f + 5 > 188 then (p, latest)
      else let r = take_bit 33 (read_timestamp (slice f 5 p) + offset)
        in (put_field p f r, Some (case latest of None \<Rightarrow> r | Some t \<Rightarrow> later_timestamp t r)))"
  by (simp add: rebase_field_def put_field_def Let_def MPEG_TS_PACKET_SIZE_def)

text \<open>Where a packet keeps its bytes, the PES header of it is found at the same place.\<close>

lemma pes_header_cong:
  assumes "length p = 188" "length q = 188" "payload_offset p = payload_offset q"
    and "\<And>s i. payload_offset q = Some s \<Longrightarrow> s \<le> i \<Longrightarrow> i < s + 9 \<Longrightarrow> i < 188 \<Longrightarrow> p ! i = q ! i"
  shows "pes_header p = pes_header q"
proof (cases "payload_offset q")
  case (Some s)
  with assms(3) have ps: "payload_offset p = Some s" by simp
  show ?thesis
  proof (cases "s + 9 \<le> 188")
    case True
    have "slice s 3 p = slice s 3 q"
      using assms Some True by (intro slice_eqI) auto
    then have "take 3 (drop s p) = take 3 (drop s q)" by (simp add: slice_def)
    moreover have "p ! (s + 3) = q ! (s + 3)" "p ! (s + 8) = q ! (s + 8)"
      using assms(4) [OF Some] True by simp_all
    ultimately show ?thesis
      using assms(1,2) Some ps True by (simp add: pes_header_def Let_def)
  next
    case False
    then show ?thesis using assms(1,2) Some ps by (simp add: pes_header_def Let_def)
  qed
qed (use assms in \<open>simp add: pes_header_def\<close>)

lemma pes_header_Some:
  "pes_header p = Some (s, h) \<Longrightarrow> length p = 188 \<Longrightarrow> payload_offset p = Some s \<and> s + 9 \<le> 188 \<and> 4 \<le> s"
  using payload_offset_ge [of p s]
  by (auto simp: pes_header_def Let_def split: option.splits if_splits)

lemma flags_pts: "(drop_bit 6 x AND 0x02 = 0) = (x AND 0x80 = (0 :: u8))"
proof -
  have "drop_bit 6 x AND 0x02 = drop_bit 6 (x AND 0x80)"
    by (rule u8_eqI) (simp_all add: bit_simps)
  moreover have "drop_bit 6 (x AND 0x80) = 0 \<longleftrightarrow> x AND 0x80 = (0::u8)"
  proof
    assume "drop_bit 6 (x AND 0x80) = 0"
    then have "bit (drop_bit 6 (x AND 0x80)) 1 = bit (0::u8) 1" by simp
    then have "\<not> bit x 7" by (simp add: bit_simps)
    then show "x AND 0x80 = 0" by (intro u8_eqI) (simp_all add: bit_simps)
  qed simp
  ultimately show ?thesis by simp
qed

lemma flags_both: "drop_bit 6 x = (0x03 :: u8) \<Longrightarrow> x AND 0x80 \<noteq> 0"
  using flags_pts [of x] by simp

lemma read_pes_pts_eq:
  assumes "length p = 188" "pes_header p = Some (s, h)"
  shows "read_pes_pts p =
    (if p ! (s + 7) AND 0x80 \<noteq> 0 \<and> s + 14 \<le> 188 then Some (read_timestamp (slice (s + 9) 5 p)) else None)"
proof -
  have "slice 9 5 (drop s p) = slice (s + 9) 5 p" by (simp add: slice_def add.commute)
  then show ?thesis using assms pes_header_Some [OF assms(2,1)]
    by (auto simp: read_pes_pts_def)
qed

lemma rebase_spec:
  assumes len: "length p = 188"
    and r: "rebase_pes_timestamps p offset = (q, latest)"
  shows rebase_length: "length q = 188"
    and rebase_keeps: "\<And>i. i < 188 \<Longrightarrow>
      (\<And>s h. pes_header p = Some (s, h) \<Longrightarrow> i < s + 9 \<or> s + 19 \<le> i) \<Longrightarrow> q ! i = p ! i"
    and rebase_pts: "read_pes_pts q = map_option (\<lambda>t. take_bit 33 (t + offset)) (read_pes_pts p)"
proof -
  let ?G = "length q = 188 \<and> (\<forall>i < 188. (\<forall>s h. pes_header p = Some (s, h) \<longrightarrow> i < s + 9 \<or> s + 19 \<le> i)
      \<longrightarrow> q ! i = p ! i)
     \<and> read_pes_pts q = map_option (\<lambda>t. take_bit 33 (t + offset)) (read_pes_pts p)"
  have ?G
  proof (cases "pes_header p")
    case None
    with r len show ?thesis by (simp add: rebase_pes_timestamps_def read_pes_pts_def)
  next
    case (Some sh)
    obtain s h where sh: "sh = (s, h)" by force
    note hd = Some [unfolded sh]
    have s: "payload_offset p = Some s" "s + 9 \<le> 188" "4 \<le> s"
      using pes_header_Some [OF hd len] by auto
    define r1 where "r1 = take_bit 33 (read_timestamp (slice (s + 9) 5 p) + offset)"
    define r2 where "r2 = take_bit 33 (read_timestamp (slice (s + 14) 5 p) + offset)"
    define a where "a = (p ! (s + 7) AND 0x80 \<noteq> 0 \<and> s + 14 \<le> 188)"
    define b where "b = (drop_bit 6 (p ! (s + 7)) = 0x03 \<and> s + 19 \<le> 188)"
    have ab: "b \<Longrightarrow> a" using flags_both [of "p ! (s + 7)"] by (auto simp: a_def b_def)
    have q: "q = (if b then put_field (put_field p (s + 9) r1) (s + 14) r2
              else if a then put_field p (s + 9) r1 else p)"
      using r hd len
      by (auto simp: rebase_pes_timestamps_def rebase_field_eq Let_def r1_def r2_def a_def b_def flags_pts
          dest: flags_both split: if_splits)
    have l: "length q = 188" using len ab by (auto simp: q a_def b_def)
    have k: "i < s + 9 \<or> s + 19 \<le> i \<Longrightarrow> i < 188 \<Longrightarrow> q ! i = p ! i" for i
      using len ab by (auto simp: q a_def b_def nth_put_field)
    have po: "payload_offset q = payload_offset p"
      using k [of 3] k [of 4] s(3) by (simp add: payload_offset_def Let_def)
    have hq: "pes_header q = Some (s, h)"
      unfolding hd [symmetric] by (rule pes_header_cong) (use l len po k s in auto)
    have "slice (s + 9) 5 q = write_timestamp (slice (s + 9) 5 p) r1" if a
      using that len by (auto simp: q a_def b_def)
    then have "read_timestamp (slice (s + 9) 5 q) = r1" if a
      using that len by (auto simp: read_write_timestamp r1_def a_def)
    then have "read_pes_pts q = map_option (\<lambda>t. take_bit 33 (t + offset)) (read_pes_pts p)"
      using k [of "s + 7"] s unfolding read_pes_pts_eq [OF len hd] read_pes_pts_eq [OF l hq]
      by (auto simp: a_def r1_def)
    with l k show ?thesis by (auto simp: hd)
  qed
  then show "length q = 188" "\<And>i. i < 188 \<Longrightarrow>
      (\<And>s h. pes_header p = Some (s, h) \<Longrightarrow> i < s + 9 \<or> s + 19 \<le> i) \<Longrightarrow> q ! i = p ! i"
    "read_pes_pts q = map_option (\<lambda>t. take_bit 33 (t + offset)) (read_pes_pts p)"
    by blast+
qed

lemma read_pcr_base_eq: "read_pcr_base p = (if has_pcr p then Some (pcr_base_bits p) else None)"
  by (simp add: read_pcr_base_def pcr_base_bits_def)

lemma length_write_pcr_base [simp]: "length (write_pcr_base p v) = length p"
  by (simp add: write_pcr_base_def)

lemma nth_write_pcr_base: "i < 6 \<or> 10 < i \<Longrightarrow> write_pcr_base p v ! i = p ! i"
  by (auto simp: write_pcr_base_def)

text \<open>The PCR lies in the adaptation field, before the payload.\<close>

lemma u8_unat_ge: "(7 :: u8) \<le> x \<Longrightarrow> 7 \<le> unat x"
  by (simp add: word_le_nat_alt)

lemma adaptation_payload:
  assumes "has_pcr p" "payload_offset p = Some s"
  shows "12 \<le> s"
proof -
  have "drop_bit 4 (p ! 3) AND 0x03 \<noteq> 1"
  proof
    assume "drop_bit 4 (p ! 3) AND 0x03 = 1"
    then have "bit (drop_bit 4 (p ! 3) AND 0x03) 1 = bit (1 :: u8) 1" by simp
    then have "\<not> bit (p ! 3) 5" by (simp add: bit_simps)
    moreover have "bit (p ! 3) 5"
      using assms(1) and_exp_eq_0_iff_not_bit [of "p ! 3" 5] by (simp add: has_pcr_def)
    ultimately show False by simp
  qed
  then show ?thesis using assms u8_unat_ge [of "p ! 4"]
    by (auto simp: payload_offset_def has_pcr_def Let_def split: if_splits)
qed

lemma rebase_pcr_spec:
  assumes len: "length p = 188" and r: "rebase_pcr self segment p = (self', q)"
  shows "length q = 188" "\<And>i. i < 6 \<or> 10 < i \<Longrightarrow> q ! i = p ! i"
    "read_pcr_base q = map_option (\<lambda>b. take_bit 33 (b + sg_offset segment)) (read_pcr_base p)"
    "read_pes_pts q = read_pes_pts p" "pes_header q = pes_header p"
    "mx_last_pcr self' = (case read_pcr_base q of None \<Rightarrow> mx_last_pcr self | Some b \<Rightarrow> Some b)"
proof -
  show l: "length q = 188" and n: "\<And>i. i < 6 \<or> 10 < i \<Longrightarrow> q ! i = p ! i"
    using r len by (auto simp: rebase_pcr_def Let_def nth_write_pcr_base split: option.splits)
  have po: "payload_offset q = payload_offset p" and hp: "has_pcr q = has_pcr p"
    using n [of 3] n [of 4] n [of 5] by (simp_all add: payload_offset_def has_pcr_def Let_def)
  show rb: "read_pcr_base q = map_option (\<lambda>b. take_bit 33 (b + sg_offset segment)) (read_pcr_base p)"
    using r len hp
    by (auto simp: rebase_pcr_def Let_def read_pcr_base_eq pcr_base_bits_write split: option.splits if_splits)
  show "mx_last_pcr self' = (case read_pcr_base q of None \<Rightarrow> mx_last_pcr self | Some b \<Rightarrow> Some b)"
    using r unfolding rb by (auto simp: rebase_pcr_def Let_def split: option.splits)
  have after: "q ! i = p ! i" if "payload_offset p = Some s" "s \<le> i" for s i
    using that n [of i] adaptation_payload [of p s] r payload_offset_ge [of p s]
    by (cases "has_pcr p") (auto simp: rebase_pcr_def read_pcr_base_eq)
  then show ph: "pes_header q = pes_header p"
    by (intro pes_header_cong) (use l len po in auto)
  show "read_pes_pts q = read_pes_pts p"
  proof (cases "pes_header p")
    case (Some sh)
    obtain s h where sh: "sh = (s, h)" by force
    note hd = Some [unfolded sh]
    have s: "payload_offset p = Some s" using pes_header_Some [OF hd len] by simp
    have "slice (s + 9) 5 q = slice (s + 9) 5 p"
      using after [OF s] l len by (intro slice_eqI) auto
    then show ?thesis
      using after [OF s, of "s + 7"] hd ph by (simp add: read_pes_pts_eq [OF l] read_pes_pts_eq [OF len])
  qed (use ph in \<open>simp add: read_pes_pts_def\<close>)
qed

section \<open>Forwarded packets\<close>

lemma and_0f_idem: "(x AND 0x0f) AND 0x0f = (x AND 0x0f :: u8)"
  by (simp add: and.assoc)

lemma add_and_0f: "((x AND 0x0f) + (y AND 0x0f)) AND 0x0f = (x + y) AND (0x0f :: u8)"
proof -
  have m: "z AND 0x0f = take_bit 4 (z :: u8)" for z
    by (simp add: take_bit_eq_mask mask_eq_exp_minus_1)
  show ?thesis unfolding m by (rule take_bit_word_add)
qed

definition next_counter :: "u8 option \<Rightarrow> u8 option \<Rightarrow> u8 \<Rightarrow> u8" where
  "next_counter delta previous control =
     (case delta of
        Some d \<Rightarrow> ((control AND 0x0f) + d) AND 0x0f
      | None \<Rightarrow>
          (case previous of
             Some c \<Rightarrow> if control AND 0x10 \<noteq> 0 then (c + 1) AND 0x0f else c AND 0x0f
           | None \<Rightarrow> control AND 0x0f))"

lemma set_counter_value:
  "((p ! 3 AND 0x0f) + counter_delta self segment role p) AND 0x0f =
     next_counter (sg_cc_delta segment role) (mx_output_cc self role) (p ! 3)"
proof -
  have k: "((p ! 3 AND 0x0f) + ((t - (p ! 3 AND 0x0f)) AND 0x0f)) AND 0x0f = t AND (0x0f :: u8)" for t
    using add_and_0f [of "p ! 3 AND 0x0f" "t - (p ! 3 AND 0x0f)"] by (simp add: and_0f_idem)
  show ?thesis
    by (auto simp: counter_delta_def next_counter_def Let_def k and_0f_idem split: option.splits)
qed

lemma next_counter_nibble: "next_counter d c x AND 0x0f = next_counter d c x"
  by (auto simp: next_counter_def and_0f_idem split: option.splits)

lemma set_counter_spec:
  assumes "length p = 188" "set_counter self segment role p = (self', segment', q)"
  shows "same_frame q p" "take 3 q = take 3 p"
    "q ! 3 AND 0x0f = next_counter (sg_cc_delta segment role) (mx_output_cc self role) (p ! 3)"
    "mx_output_cc self' = (mx_output_cc self)(role := Some (q ! 3 AND 0x0f))"
    "sg_offset segment' = sg_offset segment"
proof -
  let ?c = "next_counter (sg_cc_delta segment role) (mx_output_cc self role) (p ! 3)"
  have q: "q = p[3 := (p ! 3 AND 0xf0) OR ?c]"
    and s: "mx_output_cc self' = (mx_output_cc self)(role := Some ?c)"
      "sg_offset segment' = sg_offset segment"
    using assms(2) by (auto simp: set_counter_def Let_def set_counter_value)
  show "same_frame q p" unfolding q using assms(1) next_counter_nibble by (rule same_frame_counter)
  show "take 3 q = take 3 p" by (simp add: q)
  show c: "q ! 3 AND 0x0f = ?c"
    using assms(1) and_nibbles(2) [of "p ! 3" ?c] by (simp add: q next_counter_nibble)
  show "mx_output_cc self' = (mx_output_cc self)(role := Some (q ! 3 AND 0x0f))"
    by (simp add: s c)
  show "sg_offset segment' = sg_offset segment" by (fact s)
qed

lemma note_pes_frame:
  "mx_output_cc (note_pes self role t) = mx_output_cc self"
  "mx_pat_cc (note_pes self role t) = mx_pat_cc self"
  "mx_pmt_cc (note_pes self role t) = mx_pmt_cc self"
  "mx_output_map (note_pes self role t) = mx_output_map self"
  "mx_last_pcr (note_pes self role t) = mx_last_pcr self"
  "mx_pmt_version (note_pes self role t) = mx_pmt_version self"
  "mx_splices (note_pes self role t) = mx_splices self"
  "mx_current (note_pes self role t) = mx_current self"
  "mx_pending (note_pes self role t) = mx_pending self"
  by (simp_all add: note_pes_def Let_def split: option.splits)

text \<open>Which bytes of a packet the muxer may rewrite.\<close>

definition rewritten :: "bytes \<Rightarrow> usize \<Rightarrow> bool" where
  "rewritten packet i \<longleftrightarrow>
     i \<in> {1, 2, 3} \<or> has_pcr packet \<and> 6 \<le> i \<and> i \<le> 10 \<or>
     payload_unit_start packet \<and>
       (case pes_header packet of None \<Rightarrow> False | Some (s, _) \<Rightarrow> s + 9 \<le> i \<and> i < s + 19)"

lemma rebase_pes_spec:
  assumes len: "length p = 188" and r: "rebase_pes self segment role p = (self', q)"
  shows "length q = 188"
    "\<And>i. i < 188 \<Longrightarrow> \<not> (payload_unit_start p \<and>
       (case pes_header p of None \<Rightarrow> False | Some (s, _) \<Rightarrow> s + 9 \<le> i \<and> i < s + 19)) \<Longrightarrow> q ! i = p ! i"
    "payload_unit_start p \<Longrightarrow>
       read_pes_pts q = map_option (\<lambda>t. take_bit 33 (t + sg_offset segment)) (read_pes_pts p)"
    "mx_output_cc self' = mx_output_cc self" "mx_last_pcr self' = mx_last_pcr self"
    "mx_pat_cc self' = mx_pat_cc self" "mx_pmt_cc self' = mx_pmt_cc self"
    "mx_output_map self' = mx_output_map self"
proof -
  obtain b latest where b: "rebase_pes_timestamps p (sg_offset segment) = (b, latest)" by force
  have q: "q = (if payload_unit_start p then b else p)"
    and s: "self' = self \<or> (\<exists>t. self' = note_pes self role t)"
    using r b by (auto simp: rebase_pes_def split: if_splits option.splits)
  show "length q = 188" using len rebase_length [OF len b] by (simp add: q)
  show "q ! i = p ! i" if "i < 188" "\<not> (payload_unit_start p \<and>
       (case pes_header p of None \<Rightarrow> False | Some (s, _) \<Rightarrow> s + 9 \<le> i \<and> i < s + 19))" for i
  proof (cases "payload_unit_start p")
    case True
    with that have "b ! i = p ! i"
      by (intro rebase_keeps [OF len b]) (auto simp: not_le not_less)
    with True show ?thesis by (simp add: q)
  qed (simp add: q)
  show "read_pes_pts q = map_option (\<lambda>t. take_bit 33 (t + sg_offset segment)) (read_pes_pts p)"
    if "payload_unit_start p"
    using that rebase_pts [OF len b] by (simp add: q)
  show "mx_output_cc self' = mx_output_cc self" "mx_last_pcr self' = mx_last_pcr self"
    "mx_pat_cc self' = mx_pat_cc self" "mx_pmt_cc self' = mx_pmt_cc self"
    "mx_output_map self' = mx_output_map self"
    using s by (auto simp: note_pes_frame)
qed

lemma rebase_pcr_frame:
  assumes "rebase_pcr self segment p = (self', q)"
  shows "mx_output_cc self' = mx_output_cc self" "mx_pat_cc self' = mx_pat_cc self"
    "mx_pmt_cc self' = mx_pmt_cc self" "mx_output_map self' = mx_output_map self"
  using assms by (auto simp: rebase_pcr_def Let_def split: option.splits)

lemma renumbered_packet:
  assumes len: "length packet = 188"
    and c: "set_counter self segment role (set_pid packet (output_pid role)) = (self', segment', q)"
  shows "same_frame q packet" "q ! 0 = packet ! 0" "packet_pid q = output_pid role"
    "payload_unit_start q = payload_unit_start packet"
    "q ! 3 AND 0x0f = next_counter (sg_cc_delta segment role) (mx_output_cc self role) (packet ! 3)"
proof -
  let ?p = "set_pid packet (output_pid role)"
  have l: "length ?p = 188" by (simp add: len)
  note C = set_counter_spec [OF l c]
  show "same_frame q packet"
    using C(1) same_frame_set_pid [OF len] by (rule same_frame_trans)
  have b: "q ! i = ?p ! i" if "i < 3" for i
    using C(2) that by (metis nth_take)
  show "q ! 0 = packet ! 0" using b [of 0] by (simp add: set_pid_def)
  show "packet_pid q = output_pid role"
    using b [of 1] b [of 2] packet_pid_set_pid [of packet role] len by (simp add: packet_pid_def)
  show "payload_unit_start q = payload_unit_start packet"
    using b [of 1] payload_unit_start_set_pid [of packet "output_pid role"] len
    by (simp add: payload_unit_start_def)
  show "q ! 3 AND 0x0f = next_counter (sg_cc_delta segment role) (mx_output_cc self role) (packet ! 3)"
    using C(3) by (simp add: set_pid_def)
qed

lemma forward_packet_stages:
  assumes "forward_packet self segment role packet = (self', segment', out)"
  obtains s2 p2 s3 p3 where
    "set_counter self (segment\<lparr>sg_role_started := (sg_role_started segment)(role := True)\<rparr>) role
       (set_pid packet (output_pid role)) = (s2, segment', p2)"
    "rebase_pcr s2 segment' p2 = (s3, p3)" "rebase_pes s3 segment' role p3 = (self', out)"
  using assms that by (auto simp: forward_packet_def Let_def split: prod.splits)

lemma forward_packet_spec:
  assumes len: "length packet = 188"
    and f: "forward_packet self segment role packet = (self', segment', out)"
  shows "length out = 188" "\<And>i. i < 188 \<Longrightarrow> \<not> rewritten packet i \<Longrightarrow> out ! i = packet ! i"
    "packet_pid out = output_pid role" "payload_unit_start out = payload_unit_start packet"
    "out ! 3 AND 0x0f = next_counter (sg_cc_delta segment role) (mx_output_cc self role) (packet ! 3)"
    "read_pcr_base out = map_option (\<lambda>b. take_bit 33 (b + sg_offset segment)) (read_pcr_base packet)"
    "payload_unit_start packet \<Longrightarrow>
       read_pes_pts out = map_option (\<lambda>t. take_bit 33 (t + sg_offset segment)) (read_pes_pts packet)"
    "mx_output_cc self' = (mx_output_cc self)(role := Some (out ! 3 AND 0x0f))"
    "mx_last_pcr self' = (case read_pcr_base out of None \<Rightarrow> mx_last_pcr self | Some b \<Rightarrow> Some b)"
    "mx_pat_cc self' = mx_pat_cc self" "mx_pmt_cc self' = mx_pmt_cc self"
    "mx_output_map self' = mx_output_map self" "sg_offset segment' = sg_offset segment"
proof -
  obtain s2 p2 s3 p3 where c: "set_counter self
      (segment\<lparr>sg_role_started := (sg_role_started segment)(role := True)\<rparr>) role
      (set_pid packet (output_pid role)) = (s2, segment', p2)"
    and r: "rebase_pcr s2 segment' p2 = (s3, p3)"
    and e: "rebase_pes s3 segment' role p3 = (self', out)"
    by (rule forward_packet_stages [OF f])
  note C = renumbered_packet [OF len c] and D = set_counter_spec [OF _ c, simplified, OF len]
  have l2: "length p2 = 188" using C(1) by (simp add: same_frame_def)
  note R = rebase_pcr_spec [OF l2 r]
  note E = rebase_pes_spec [OF R(1) e]
  have start: "payload_unit_start p3 = payload_unit_start packet"
    using R(2) [of 1] C(4) by (simp add: payload_unit_start_def)
  have "\<not> (case pes_header p3 of None \<Rightarrow> False | Some (s, _) \<Rightarrow> s + 9 \<le> i \<and> i < s + 19)" if "i < 13" for i
    using that pes_header_Some [OF _ R(1)] by (fastforce split: option.splits)
  then have keep: "out ! i = p3 ! i" if "i < 13" for i using that by (intro E(2)) auto
  have low: "out ! i = p2 ! i" if "i < 6" for i using that keep [of i] R(2) [of i] by simp
  show "length out = 188" "sg_offset segment' = sg_offset segment" by (rule E(1), rule D(5))
  show "out ! 3 AND 0x0f = next_counter (sg_cc_delta segment role) (mx_output_cc self role) (packet ! 3)"
    using C(5) low [of 3] by simp
  show "mx_output_cc self' = (mx_output_cc self)(role := Some (out ! 3 AND 0x0f))"
    using E(4) rebase_pcr_frame(1) [OF r] D(4) low [of 3] by simp
  show "packet_pid out = output_pid role" "payload_unit_start out = payload_unit_start packet"
    using low [of 1] low [of 2] C(3,4) by (simp_all add: packet_pid_def payload_unit_start_def)
  have "has_pcr out = has_pcr p3" "pcr_base_bits out = pcr_base_bits p3"
    using keep by (simp_all add: has_pcr_def pcr_base_bits_def)
  then have "read_pcr_base out = read_pcr_base p3" by (simp add: read_pcr_base_eq)
  then show "read_pcr_base out =
      map_option (\<lambda>b. take_bit 33 (b + sg_offset segment)) (read_pcr_base packet)"
    and "mx_last_pcr self' = (case read_pcr_base out of None \<Rightarrow> mx_last_pcr self | Some b \<Rightarrow> Some b)"
    using R(3,6) E(5) c same_frame_reads(3) [OF C(1)] D(5)
    by (auto simp: set_counter_def Let_def split: option.splits)
  show "read_pes_pts out =
      map_option (\<lambda>t. take_bit 33 (t + sg_offset segment)) (read_pes_pts packet)"
    if "payload_unit_start packet"
    using that E(3) start R(4) same_frame_reads(5) [OF C(1)] D(5) by simp
  show "mx_pat_cc self' = mx_pat_cc self" "mx_pmt_cc self' = mx_pmt_cc self"
    "mx_output_map self' = mx_output_map self"
    using E(6,7,8) rebase_pcr_frame(2,3,4) [OF r] c by (auto simp: set_counter_def Let_def)
  show "out ! i = packet ! i" if i: "i < 188" and w: "\<not> rewritten packet i" for i
  proof -
    have "out ! i = p3 ! i"
      using w start same_frame_reads(4) [OF C(1)] R(5) by (intro E(2) i) (auto simp: rewritten_def)
    also have "\<dots> = p2 ! i"
      using w R(2) [of i] r same_frame_reads(2) [OF C(1)]
      by (fastforce simp: rewritten_def rebase_pcr_def read_pcr_base_eq)
    also have "\<dots> = packet ! i"
      using w i C(2) same_frame_nth [OF C(1), of i] by (cases "i = 0") (auto simp: rewritten_def)
    finally show ?thesis .
  qed
qed

section \<open>The output stream\<close>

text \<open>
  A transport stream with the PIDs of the output program: whole packets with a sync byte, each on
  one of the fixed PIDs or the null PID.  \<open>counters\<close> are the continuity counters of one PID in
  order, and \<open>counts c d cs\<close> says that \<open>cs\<close> counts from \<open>c\<close> modulo 16 and that \<open>d\<close> is the
  counter after them.
\<close>

definition OUTPUT_PIDS :: "u16 set" where
  "OUTPUT_PIDS = {0, 0x1000, 0x100, 0x101, 0x102, 0x1fff}"

definition output_packet :: "bytes \<Rightarrow> bool" where
  "output_packet p \<longleftrightarrow> length p = 188 \<and> p ! 0 = 0x47 \<and> packet_pid p \<in> OUTPUT_PIDS"

definition output_stream :: "bytes \<Rightarrow> bool" where
  "output_stream out \<longleftrightarrow> length out mod 188 = 0 \<and> list_all output_packet (chunks_exact 188 out)"

definition counters :: "u16 \<Rightarrow> bytes \<Rightarrow> u8 list" where
  "counters pid out = map (\<lambda>p. p ! 3 AND 0x0f) (filter (\<lambda>p. packet_pid p = pid) (chunks_exact 188 out))"

fun counts :: "u8 \<Rightarrow> u8 list \<Rightarrow> u8 \<Rightarrow> bool" where
  "counts c [] d \<longleftrightarrow> c = d"
| "counts c (x # xs) d \<longleftrightarrow> x = c \<and> counts ((c + 1) AND 0x0f) xs d"

lemma counts_append: "counts c xs d \<Longrightarrow> counts d ys e \<Longrightarrow> counts c (xs @ ys) e"
  by (induction xs arbitrary: c) auto

definition emits :: "SpliceMuxer \<Rightarrow> bytes \<Rightarrow> SpliceMuxer \<Rightarrow> bool" where
  "emits self out self' \<longleftrightarrow> output_stream out \<and>
     counts (mx_pat_cc self) (counters 0 out) (mx_pat_cc self') \<and>
     counts (mx_pmt_cc self) (counters 0x1000 out) (mx_pmt_cc self')"

definition cc_ok :: "SpliceMuxer \<Rightarrow> bool" where
  "cc_ok self \<longleftrightarrow> mx_pat_cc self AND 0x0f = mx_pat_cc self \<and> mx_pmt_cc self AND 0x0f = mx_pmt_cc self"

lemma output_stream_append:
  "output_stream a \<Longrightarrow> output_stream b \<Longrightarrow> output_stream (a @ b)"
  by (auto simp: output_stream_def chunks_exact_append_aligned mod_add_eq)

lemma counters_append:
  "length a mod 188 = 0 \<Longrightarrow> counters pid (a @ b) = counters pid a @ counters pid b"
  by (simp add: counters_def chunks_exact_append_aligned)

lemma emits_trans: "emits s a s' \<Longrightarrow> emits s' b s'' \<Longrightarrow> emits s (a @ b) s''"
  by (auto simp: emits_def output_stream_append counters_append [OF output_stream_def [THEN iffD1, THEN conjunct1]]
      intro: counts_append)

lemma emits_nil:
  "mx_pat_cc s' = mx_pat_cc s \<Longrightarrow> mx_pmt_cc s' = mx_pmt_cc s \<Longrightarrow> emits s [] s'"
  by (simp add: emits_def output_stream_def counters_def)

lemma single_chunk: "length p = 188 \<Longrightarrow> chunks_exact 188 p = [p]"
  using chunks_exact_append [of p 188 "[]"] by simp

lemma emits_packet:
  assumes "length p = 188" "p ! 0 = 0x47" "packet_pid p \<in> {0x100, 0x101, 0x102, 0x1fff}"
    and "mx_pat_cc s' = mx_pat_cc s" "mx_pmt_cc s' = mx_pmt_cc s"
  shows "emits s p s'"
proof -
  have "chunks_exact 188 p = [p]" using assms(1) by (rule single_chunk)
  then show ?thesis using assms
    by (auto simp: emits_def output_stream_def counters_def output_packet_def OUTPUT_PIDS_def)
qed

lemma length_psi_packet [simp]: "length (psi_packet pid c s) = 188"
  by (simp add: psi_packet_def Let_def MPEG_TS_PACKET_SIZE_def MAX_SINGLE_PACKET_SECTION_def)

lemma psi_packet_head:
  "psi_packet pid c s ! 0 = 0x47"
  "psi_packet 0 c s ! 1 = 0x40" "psi_packet 0 c s ! 2 = 0"
  "psi_packet 0x1000 c s ! 1 = 0x50" "psi_packet 0x1000 c s ! 2 = 0"
  "psi_packet pid c s ! 3 = 0x10 OR (c AND 0x0f)"
  by (simp_all add: psi_packet_def Let_def)

lemma psi_counter: "(0x10 OR (c AND 0x0f)) AND 0x0f = c AND (0x0f :: u8)"
  by (rule u8_eqI) (simp_all add: bit_simps)

lemma packet_pid_psi_packet [simp]:
  "packet_pid (psi_packet 0 c s) = 0" "packet_pid (psi_packet 0x1000 c s) = 0x1000"
  by (simp_all only: packet_pid_def psi_packet_head) (simp_all add: pid_of_def)

lemma psi_packet_counter [simp]: "psi_packet pid c s ! 3 AND 0x0f = c AND 0x0f"
  by (simp only: psi_packet_head psi_counter)

lemma emits_write_pat:
  assumes "cc_ok s" "write_pat s = (s', out)"
  shows "emits s out s'" "cc_ok s'"
  using assms
  by (auto simp: write_pat_def PAT_PID_def emits_def output_stream_def counters_def single_chunk
      output_packet_def OUTPUT_PIDS_def psi_packet_head(1) cc_ok_def and_0f_idem)

lemma emits_write_pmt:
  assumes "cc_ok s" "write_pmt s = (s', out)"
  shows "emits s out s'" "cc_ok s'"
  using assms
  by (auto simp: write_pmt_def SLATE_PMT_PID_def emits_def output_stream_def counters_def single_chunk
      output_packet_def OUTPUT_PIDS_def psi_packet_head(1) cc_ok_def and_0f_idem
      split: option.splits)

lemma emits_discontinuities:
  "cc_ok s \<Longrightarrow> discontinuities s rs = (s', out) \<Longrightarrow> emits s out s' \<and> cc_ok s'"
proof (induction rs arbitrary: s s' out)
  case Nil
  then show ?case by (simp add: emits_nil)
next
  case (Cons r rs)
  define c where "c = unwrap_or (mx_output_cc s r) 0x0f"
  define s1 where "s1 = s\<lparr>mx_output_cc := (mx_output_cc s)(r := Some c)\<rparr>"
  define p where "p = discontinuity_packet (output_pid r) c"
  obtain rest where rest: "discontinuities s1 rs = (s', rest)" and out: "out = p @ rest"
    using Cons.prems(2) by (auto simp: Let_def c_def s1_def p_def split: prod.splits)
  have "emits s p s1"
  proof (rule emits_packet)
    show "length p = 188" "p ! 0 = 0x47"
      by (simp_all add: p_def discontinuity_packet_def MPEG_TS_PACKET_SIZE_def)
    show "packet_pid p \<in> {0x100, 0x101, 0x102, 0x1fff}"
      by (cases r) (simp_all add: p_def discontinuity_packet_def packet_pid_def pid_of_def output_pid_defs)
  qed (simp_all add: s1_def)
  moreover have "cc_ok s1" using Cons.prems(1) by (simp add: cc_ok_def s1_def)
  ultimately show ?case using Cons.IH [OF _ rest] emits_trans unfolding out by blast
qed

lemma emits_start_segment:
  assumes "cc_ok s" "start_segment s g = (s', g', out)"
  shows "emits s out s' \<and> cc_ok s'"
proof -
  define s0 where "s0 = s\<lparr>mx_splices := wrapping_add_u64 (mx_splices s) 1,
            mx_pmt_version := (mx_pmt_version s + 1) AND 0x1f, mx_output_map := sg_map g\<rparr>"
  obtain s1 a where a: "write_pat s0 = (s1, a)" by force
  obtain s2 b where b: "write_pmt s1 = (s2, b)" by force
  obtain rs c where c: "discontinuities s2 rs = (s', c)" and out: "out = a @ b @ c"
  proof -
    have "\<exists>rs c. discontinuities s2 rs = (s', c) \<and> out = a @ b @ c"
      using assms(2) a b
      by (auto simp: start_segment_def Let_def s0_def intro: exI [of _ "[]"] split: prod.splits option.splits if_splits)
    then show thesis using that by blast
  qed
  have e0: "emits s [] s0" "cc_ok s0" using assms(1) by (simp_all add: s0_def emits_nil cc_ok_def)
  note ea = emits_write_pat [OF e0(2) a]
  note eb = emits_write_pmt [OF ea(2) b]
  note ec = emits_discontinuities [OF eb(2) c]
  show ?thesis unfolding out using emits_trans [OF e0(1) emits_trans [OF ea(1) emits_trans [OF eb(1)]]] ec by auto
qed

lemma emits_program_change:
  assumes "cc_ok s" "program_change s g m = (s', g', out)"
  shows "emits s out s' \<and> cc_ok s'"
proof (cases m)
  case None
  with assms show ?thesis by (simp add: program_change_def emits_nil)
next
  case (Some program)
  define s0 where "s0 = s\<lparr>mx_pmt_version := (mx_pmt_version s + 1) AND 0x1f, mx_output_map := Some program\<rparr>"
  have "write_pmt s0 = (s', out)"
    using assms(2) Some by (auto simp: program_change_def Let_def s0_def split: prod.splits)
  moreover have "cc_ok s0" "emits s [] s0" using assms(1) by (simp_all add: s0_def cc_ok_def emits_nil)
  ultimately show ?thesis using emits_write_pmt [of s0 s' out] emits_trans [of s "[]" s0 out s'] by simp
qed

lemma running_packet_cases:
  obtains (ignored) "length packet \<noteq> 188 \<or> packet ! 0 \<noteq> 0x47"
      "running_packet s g packet = (s, g, [])"
    | (null) "length packet = 188" "packet ! 0 = 0x47" "packet_pid packet = NULL_PID"
      "running_packet s g packet = (s, g, packet)"
    | (pat) g1 m s2 g2 change s3 pat s4 pmt where "length packet = 188" "packet ! 0 = 0x47"
      "packet_pid packet = PAT_PID" "payload_unit_start packet"
      "observe_psi g packet = (g1, m)" "program_change s g1 m = (s2, g2, change)"
      "write_pat s2 = (s3, pat)" "write_pmt s3 = (s4, pmt)"
      "running_packet s g packet = (s4, g2, change @ pat @ pmt)"
    | (dropped) g1 m s2 g2 change where "length packet = 188" "packet ! 0 = 0x47"
      "packet_pid packet \<noteq> NULL_PID"
      "observe_psi g packet = (g1, m)" "program_change s g1 m = (s2, g2, change)"
      "packet_pid packet = PAT_PID \<or> (\<forall>program role. sg_map g2 = Some program \<longrightarrow>
         role_of program (packet_pid packet) = Some role \<longrightarrow> \<not> role_gate g2 role packet)"
      "running_packet s g packet = (s2, g2, change)"
    | (forwarded) g1 m s2 g2 change program role s3 g3 out where "length packet = 188"
      "packet ! 0 = 0x47" "packet_pid packet \<noteq> NULL_PID" "packet_pid packet \<noteq> PAT_PID"
      "observe_psi g packet = (g1, m)" "program_change s g1 m = (s2, g2, change)"
      "sg_map g2 = Some program" "role_of program (packet_pid packet) = Some role"
      "role_gate g2 role packet" "forward_packet s2 g2 role packet = (s3, g3, out)"
      "running_packet s g packet = (s3, g3, change @ out)"
proof -
  obtain g1 m where o: "observe_psi g packet = (g1, m)" by force
  obtain s2 g2 change where c: "program_change s g1 m = (s2, g2, change)" by (metis prod_cases3)
  obtain s3 pat where p: "write_pat s2 = (s3, pat)" by force
  obtain s4 pmt where w: "write_pmt s3 = (s4, pmt)" by force
  note defs = running_packet_def MPEG_TS_PACKET_SIZE_def Let_def
  show thesis
  proof (cases "length packet = 188 \<and> packet ! 0 = 0x47")
    case False
    then show thesis by (intro ignored) (auto simp: defs)
  next
    case True
    show thesis
    proof (cases "packet_pid packet = NULL_PID")
      case True
      with \<open>length packet = 188 \<and> _\<close> show thesis by (intro null) (auto simp: defs)
    next
      case nn: False
      show thesis
      proof (cases "packet_pid packet = PAT_PID")
        case pid: True
        then show thesis using True nn o c p w
          by (cases "payload_unit_start packet") (auto simp: defs intro: pat dropped)
      next
        case pid: False
        show thesis
        proof (cases "Option.bind (sg_map g2) (\<lambda>program. role_of program (packet_pid packet))")
          case None
          then show thesis using True nn pid o c by (intro dropped) (auto simp: defs)
        next
          case (Some role)
          then obtain program where sm: "sg_map g2 = Some program"
            "role_of program (packet_pid packet) = Some role" by (auto simp: bind_eq_Some_conv)
          obtain s3 g3 out where f: "forward_packet s2 g2 role packet = (s3, g3, out)"
            by (metis prod_cases3)
          show thesis
          proof (cases "role_gate g2 role packet")
            case gate: True
            then show thesis using True nn pid o c sm f by (intro forwarded) (auto simp: defs)
          next
            case False
            then show thesis using True nn pid o c sm by (intro dropped) (auto simp: defs)
          qed
        qed
      qed
    qed
  qed
qed

lemma forward_emits:
  assumes "length packet = 188" "packet ! 0 = 0x47" "forward_packet s g role packet = (s', g', out)"
  shows "emits s out s'" "cc_ok s \<Longrightarrow> cc_ok s'"
proof -
  note F = forward_packet_spec [OF assms(1,3)]
  have "\<not> rewritten packet 0"
    using pes_header_Some [OF _ assms(1)] by (auto simp: rewritten_def split: option.splits)
  then show "emits s out s'"
    using F(1) F(2) [of 0] F(3,10,11) output_pid_cases [of role] assms(2)
    by (intro emits_packet) auto
  show "cc_ok s \<Longrightarrow> cc_ok s'" using F(10,11) by (simp add: cc_ok_def)
qed

lemma emits_running_packet:
  assumes "cc_ok s" "running_packet s g packet = (s', g', out)"
  shows "emits s out s' \<and> cc_ok s'"
proof (cases rule: running_packet_cases [of packet s g])
  case ignored
  then show ?thesis using assms by (simp add: emits_nil)
next
  case null
  then show ?thesis using assms by (auto simp: NULL_PID_def intro!: emits_packet)
next
  case (pat g1 m s2 g2 change s3 pat s4 pmt)
  note c = emits_program_change [OF assms(1) pat(6)]
  note a = emits_write_pat [OF conjunct2 [OF c] pat(7)]
  note b = emits_write_pmt [OF a(2) pat(8)]
  show ?thesis using assms(2) pat(9) c a b emits_trans by auto
next
  case (dropped g1 m s2 g2 change)
  then show ?thesis using assms emits_program_change [OF assms(1) dropped(5)] by simp
next
  case (forwarded g1 m s2 g2 change program role s3 g3 o')
  note c = emits_program_change [OF assms(1) forwarded(6)]
  note f = forward_emits [OF forwarded(1,2,10)]
  show ?thesis using assms(2) forwarded(11) c f emits_trans by auto
qed

lemma emits_run_packets:
  "cc_ok s \<Longrightarrow> run_packets s g ps = (s', g', out) \<Longrightarrow> emits s out s' \<and> cc_ok s'"
proof (induction ps arbitrary: s g s' g' out)
  case (Cons p ps)
  obtain s1 g1 a where a: "running_packet s g p = (s1, g1, a)" by (metis prod_cases3)
  obtain b where b: "run_packets s1 g1 ps = (s', g', b)" "out = a @ b"
    using Cons.prems(2) a by (auto split: prod.splits)
  then show ?case
    using emits_running_packet [OF Cons.prems(1) a] Cons.IH [OF _ b(1)] emits_trans by blast
qed (simp add: emits_nil)

lemma pending_packet_cases:
  obtains (running) "sg_started g" "pending_packet s g p = running_packet s g p"
    | (seeking) g' where "\<not> sg_started g" "seek s g p = (g', False)" "pending_packet s g p = (s, g', [])"
    | (starting) g1 s2 g2 a s3 g3 b where "\<not> sg_started g" "seek s g p = (g1, True)"
      "start_segment s g1 = (s2, g2, a)" "running_packet s2 g2 p = (s3, g3, b)"
      "pending_packet s g p = (s3, g3, a @ b)"
proof -
  obtain g1 found where k: "seek s g p = (g1, found)" by force
  obtain s2 g2 a where a: "start_segment s g1 = (s2, g2, a)" by (metis prod_cases3)
  obtain s3 g3 b where b: "running_packet s2 g2 p = (s3, g3, b)" by (metis prod_cases3)
  show thesis using k a b
    by (cases "sg_started g"; cases found) (auto simp: pending_packet_def intro: running seeking starting)
qed

lemma emits_pending_packet:
  assumes "cc_ok s" "pending_packet s g p = (s', g', out)"
  shows "emits s out s' \<and> cc_ok s'"
proof (cases rule: pending_packet_cases [of g s p])
  case running
  then have "running_packet s g p = (s', g', out)" using assms(2) by simp
  with assms(1) show ?thesis by (rule emits_running_packet)
next
  case (seeking g')
  then show ?thesis using assms by (simp add: emits_nil)
next
  case (starting g1 s2 g2 a s3 g3 b)
  note x = emits_start_segment [OF assms(1) starting(3)]
  note y = emits_running_packet [OF conjunct2 [OF x] starting(4)]
  show ?thesis using assms(2) starting(5) x y emits_trans by auto
qed

lemma emits_pending_packets:
  "cc_ok s \<Longrightarrow> pending_packets s g ps = (s', g', out) \<Longrightarrow> emits s out s' \<and> cc_ok s'"
proof (induction ps arbitrary: s g s' g' out)
  case (Cons p ps)
  obtain s1 g1 a where a: "pending_packet s g p = (s1, g1, a)" by (metis prod_cases3)
  obtain b where b: "pending_packets s1 g1 ps = (s', g', b)" "out = a @ b"
    using Cons.prems(2) a by (auto split: prod.splits)
  then show ?case
    using emits_pending_packet [OF Cons.prems(1) a] Cons.IH [OF _ b(1)] emits_trans by blast
qed (simp add: emits_nil)

datatype MuxCall = BeginPending | CancelPending | PushCurrent bytes | PushPending bytes

fun mux_call :: "SpliceMuxer \<Rightarrow> MuxCall \<Rightarrow> SpliceMuxer \<times> bytes" where
  "mux_call self BeginPending = (begin_pending self, [])"
| "mux_call self CancelPending = (cancel_pending self, [])"
| "mux_call self (PushCurrent chunk) = push_current self chunk"
| "mux_call self (PushPending chunk) = (let (self, _, out) = push_pending self chunk in (self, out))"

fun mux_run :: "SpliceMuxer \<Rightarrow> MuxCall list \<Rightarrow> SpliceMuxer \<times> bytes" where
  "mux_run self [] = (self, [])"
| "mux_run self (call # calls) =
     (let (self, out) = mux_call self call; (self, rest) = mux_run self calls in (self, out @ rest))"

lemma emits_frame:
  "emits s out s' \<Longrightarrow> mx_pat_cc t = mx_pat_cc s \<Longrightarrow> mx_pmt_cc t = mx_pmt_cc s \<Longrightarrow>
   mx_pat_cc t' = mx_pat_cc s' \<Longrightarrow> mx_pmt_cc t' = mx_pmt_cc s' \<Longrightarrow> emits t out t'"
  by (simp add: emits_def)

lemma emits_push_current:
  assumes "cc_ok s" "push_current s chunk = (s', out)"
  shows "emits s out s' \<and> cc_ok s'"
proof (cases "mx_current s")
  case None
  then show ?thesis using assms by (simp add: push_current_def emits_nil)
next
  case (Some g)
  obtain s1 g1 where r: "run_packets (s\<lparr>mx_current := None\<rparr>) g (chunks_exact MPEG_TS_PACKET_SIZE chunk) = (s1, g1, out)"
    and s': "s' = s1\<lparr>mx_current := Some g1\<rparr>"
    using assms(2) Some by (auto simp: push_current_def split: prod.splits)
  have "cc_ok (s\<lparr>mx_current := None\<rparr>)" using assms(1) by (simp add: cc_ok_def)
  from emits_run_packets [OF this r] show ?thesis
    by (auto simp: s' cc_ok_def elim: emits_frame)
qed

lemma emits_push_pending:
  assumes "cc_ok s" "push_pending s chunk = (s', started, out)"
  shows "emits s out s' \<and> cc_ok s'"
proof (cases "mx_pending s")
  case None
  then show ?thesis using assms by (simp add: push_pending_def emits_nil)
next
  case (Some g)
  obtain s1 g1 where r: "pending_packets (s\<lparr>mx_pending := None\<rparr>) g (chunks_exact MPEG_TS_PACKET_SIZE chunk) = (s1, g1, out)"
    and s': "s' = s1\<lparr>mx_current := Some g1\<rparr> \<or> s' = s1\<lparr>mx_pending := Some g1\<rparr>"
    using assms(2) Some by (auto simp: push_pending_def split: prod.splits if_splits)
  have "cc_ok (s\<lparr>mx_pending := None\<rparr>)" using assms(1) by (simp add: cc_ok_def)
  from emits_pending_packets [OF this r] s' show ?thesis
    by (auto simp: cc_ok_def elim: emits_frame)
qed

lemma emits_mux_call:
  assumes "cc_ok s" "mux_call s call = (s', out)"
  shows "emits s out s' \<and> cc_ok s'"
proof (cases call)
  case (PushCurrent chunk)
  then show ?thesis using assms emits_push_current by simp
next
  case (PushPending chunk)
  then show ?thesis using assms emits_push_pending by (auto split: prod.splits)
qed (use assms in \<open>auto simp: begin_pending_def cancel_pending_def cc_ok_def intro: emits_nil\<close>)

lemma emits_mux_run: "cc_ok s \<Longrightarrow> mux_run s calls = (s', out) \<Longrightarrow> emits s out s' \<and> cc_ok s'"
proof (induction calls arbitrary: s s' out)
  case (Cons c cs)
  obtain s1 a where a: "mux_call s c = (s1, a)" by force
  obtain b where b: "mux_run s1 cs = (s', b)" "out = a @ b"
    using Cons.prems(2) a by (auto split: prod.splits)
  then show ?case
    using emits_mux_call [OF Cons.prems(1) a] Cons.IH [OF _ b(1)] emits_trans by blast
qed (simp add: emits_nil)

lemma emits_new: "emits SpliceMuxer_new (snd (mux_run SpliceMuxer_new calls)) (fst (mux_run SpliceMuxer_new calls))"
  using emits_mux_run [of SpliceMuxer_new calls "fst (mux_run SpliceMuxer_new calls)" "snd (mux_run SpliceMuxer_new calls)"]
  by (simp add: cc_ok_def SpliceMuxer_new_def)

lemma counts_nth: "counts c xs d \<Longrightarrow> c AND 0x0f = c \<Longrightarrow> i < length xs \<Longrightarrow> xs ! i = (c + of_nat i) AND 0x0f"
proof (induction xs arbitrary: c i)
  case (Cons x xs)
  show ?case
  proof (cases i)
    case 0
    then show ?thesis using Cons.prems by simp
  next
    case (Suc j)
    have "xs ! j = (((c + 1) AND 0x0f) + of_nat j) AND 0x0f"
      using Cons.prems Suc by (intro Cons.IH) (auto simp: and_0f_idem)
    also have "\<dots> = (c + 1 + of_nat j) AND 0x0f"
      using add_and_0f [of "(c + 1) AND 0x0f" "of_nat j"] add_and_0f [of "c + 1" "of_nat j"]
      by (simp add: and_0f_idem)
    finally show ?thesis by (simp add: Suc ac_simps)
  qed
qed simp

lemma counts_enumerate:
  "counts 0 xs d \<Longrightarrow> xs = map (\<lambda>i. of_nat i AND 0x0f) [0..<length xs]"
  using counts_nth [of 0 xs d] by (intro nth_equalityI) simp_all

section \<open>The announced program\<close>

lemma append_crc_with_crc: "append_crc s = with_crc s"
  by (simp add: append_crc_def with_crc_def)

text \<open>One stream entry of a PMT.\<close>

definition es_bytes :: "u8 \<Rightarrow> u16 \<Rightarrow> bytes \<Rightarrow> bytes" where
  "es_bytes t pid ds = [t, 0xe0 OR ucast (drop_bit 8 pid), ucast (pid AND 0xff),
     0xf0, of_nat (length ds)] @ ds"

lemma length_es_bytes [simp]: "length (es_bytes t pid ds) = 5 + length ds"
  by (simp add: es_bytes_def)

lemma length_of_small: "n < 256 \<Longrightarrow> length_of 0xf0 (of_nat n) = n" "n < 256 \<Longrightarrow> length_of 0xb0 (of_nat n) = n"
  by (simp_all add: length_of_def unat_of_nat)

lemma u16_small:
  assumes "n < 256"
  shows "drop_bit 8 (of_nat n :: u16) = 0" "ucast (of_nat n AND 0xff :: u16) = (of_nat n :: u8)"
proof -
  show "drop_bit 8 (of_nat n :: u16) = 0"
    using assms by (simp add: drop_bit_eq_div word_unat_eq_iff unat_div unat_of_nat)
  have "(of_nat n :: u16) AND 0xff = take_bit 8 (of_nat n)"
    by (simp add: take_bit_eq_mask mask_eq_exp_minus_1)
  also have "\<dots> = of_nat n" using assms by (simp add: take_bit_of_nat take_bit_nat_eq_self)
  finally show "ucast (of_nat n AND 0xff :: u16) = (of_nat n :: u8)"
    using assms by (simp add: unsigned_of_nat take_bit_nat_eq_self)
qed

lemma entry_bytes:
  assumes "length (if keep then ee_descriptors e else []) < 256"
  shows "pmt_entry_bytes keep (role, e) =
    es_bytes (ee_stream_type e) (output_pid role) (if keep then ee_descriptors e else [])"
  using assms u16_small [OF assms]
  by (simp add: pmt_entry_bytes_def es_bytes_def Let_def del: of_nat_0)

lemma pid_of_output:
  "pid_of (0xe0 OR ucast (drop_bit 8 (output_pid role))) (ucast (output_pid role AND 0xff)) = output_pid role"
  by (cases role) (simp_all add: output_pid_defs pid_of_def)

text \<open>The two walks over the entries of a PMT.\<close>

lemma nth_entry:
  assumes "k < 5" "o' = length pre + k"
  shows "(pre @ es_bytes t pid ds @ rest) ! o' =
    [t, 0xe0 OR ucast (drop_bit 8 pid), ucast (pid AND 0xff), 0xf0, of_nat (length ds)] ! k"
proof -
  have "k = 0 \<or> k = 1 \<or> k = 2 \<or> k = 3 \<or> k = 4" using assms(1) by auto
  then show ?thesis using assms(2) by (auto simp: es_bytes_def nth_append)
qed

lemma get_range_entry:
  assumes "n = length pre"
  shows "get_range (pre @ es_bytes t pid ds @ rest) n (n + 5) =
    Some [t, 0xe0 OR ucast (drop_bit 8 pid), ucast (pid AND 0xff), 0xf0, of_nat (length ds)]"
  using assms by (simp add: get_range_def slice_def es_bytes_def)

definition entry_list_bytes :: "(u8 \<times> Role \<times> bytes) list \<Rightarrow> bytes" where
  "entry_list_bytes es = concat (map (\<lambda>(t, role, ds). es_bytes t (output_pid role) ds) es)"

lemma matching_entries:
  assumes "\<And>t role ds. (t, role, ds) \<in> set es \<Longrightarrow> length ds < 256"
  shows "matching_pmt_loop (pre @ entry_list_bytes es @ post)
     (length pre + length (entry_list_bytes es)) (length pre)"
  using assms
proof (induction es arbitrary: pre)
  case Nil
  then show ?case by (simp add: entry_list_bytes_def matching_pmt_loop.simps)
next
  case (Cons e es)
  obtain t role ds where e: "e = (t, role, ds)" by (metis prod_cases3)
  let ?E = "es_bytes t (output_pid role) ds"
  have d: "length ds < 256" using Cons.prems [of t role ds] e by simp
  have "matching_pmt_loop ((pre @ ?E) @ entry_list_bytes es @ post)
     (length (pre @ ?E) + length (entry_list_bytes es)) (length (pre @ ?E))"
    using Cons.prems by (intro Cons.IH) auto
  then show ?case
    using get_range_entry [of _ pre t "output_pid role" ds "entry_list_bytes es @ post"] length_of_small(1) [OF d]
    by (subst matching_pmt_loop.simps) (simp add: e entry_list_bytes_def Let_def add.assoc)
qed

definition map_entry :: "u8 \<times> Role \<times> bytes \<Rightarrow> EsEntry" where
  "map_entry = (\<lambda>(t, role, ds). \<lparr>ee_pid = output_pid role, ee_stream_type = t, ee_descriptors = ds\<rparr>)"

lemma from_pmt_entries:
  assumes "\<And>t role ds. (t, role, ds) \<in> set es \<Longrightarrow> length ds < 256"
  shows "from_pmt_loop (pre @ entry_list_bytes es @ post)
     (length pre + length (entry_list_bytes es)) (length pre) m = Some (fold add_stream (map map_entry es) m)"
  using assms
proof (induction es arbitrary: pre m)
  case Nil
  then show ?case by (simp add: entry_list_bytes_def from_pmt_loop.simps)
next
  case (Cons e es)
  obtain t role ds where e: "e = (t, role, ds)" by (metis prod_cases3)
  let ?E = "es_bytes t (output_pid role) ds"
  let ?R = "entry_list_bytes es @ post"
  have d: "length ds < 256" using Cons.prems [of t role ds] e by simp
  have "from_pmt_loop ((pre @ ?E) @ ?R)
     (length (pre @ ?E) + length (entry_list_bytes es)) (length (pre @ ?E)) (add_stream (map_entry e) m) =
     Some (fold add_stream (map map_entry es) (add_stream (map_entry e) m))"
    using Cons.prems by (intro Cons.IH) auto
  moreover have "get_range (pre @ ?E @ ?R) (length pre + 5) (length pre + 5 + length ds) = Some ds"
    using get_range_append [of "length pre + 5" "pre @ take 5 ?E" "length pre + 5 + length ds" ds ?R]
    by (simp add: es_bytes_def)
  ultimately show ?case
    using nth_entry [of 0 _ pre t "output_pid role" ds ?R] nth_entry [of 1 _ pre t "output_pid role" ds ?R]
      nth_entry [of 2 _ pre t "output_pid role" ds ?R] nth_entry [of 3 _ pre t "output_pid role" ds ?R]
      nth_entry [of 4 _ pre t "output_pid role" ds ?R] length_of_small(1) [OF d] pid_of_output [of role]
    by (subst from_pmt_loop.simps)
      (simp add: e entry_list_bytes_def Let_def add.assoc map_entry_def)
qed

text \<open>The PMT a map is written as.\<close>

definition kept_descriptors :: "ProgramMap \<Rightarrow> bool" where
  "kept_descriptors program \<longleftrightarrow>
     16 + 5 * length (pmt_entries program) +
       sum_list (map (\<lambda>(_, entry). length (ee_descriptors entry)) (pmt_entries program)) \<le> 183"

definition written_entries :: "ProgramMap \<Rightarrow> (u8 \<times> Role \<times> bytes) list" where
  "written_entries program = map (\<lambda>(role, entry). (ee_stream_type entry, role,
     if kept_descriptors program then ee_descriptors entry else [])) (pmt_entries program)"

lemma pmt_entries_eq:
  "pmt_entries program =
     (case pm_video program of None \<Rightarrow> [] | Some e \<Rightarrow> [(Video, e)]) @
     (case pm_audio program of None \<Rightarrow> [] | Some e \<Rightarrow> [(Audio, e)])"
  by (simp add: pmt_entries_def map_filter_simps split: option.splits)

lemma written_entries_size:
  "length (entry_list_bytes (written_entries program)) \<le> 167"
  "\<And>t role ds. (t, role, ds) \<in> set (written_entries program) \<Longrightarrow> length ds < 256"
  by (auto simp: written_entries_def kept_descriptors_def pmt_entries_eq entry_list_bytes_def
      split: option.splits if_splits)

definition pmt_head :: "ProgramMap \<Rightarrow> u8 \<Rightarrow> bytes" where
  "pmt_head program version =
     [0x02, 0xb0, of_nat (13 + length (entry_list_bytes (written_entries program))), 0x00, 0x01,
      0xc1 OR push_bit 1 (version AND 0x1f), 0x00, 0x00,
      0xe0 OR ucast (drop_bit 8 (output_pcr_pid program)), ucast (output_pcr_pid program AND 0xff), 0xf0, 0x00]"

lemma pmt_section_eq:
  "pmt_section program version =
     with_crc (pmt_head program version @ entry_list_bytes (written_entries program))"
proof -
  have k: "12 + 4 + 5 * length (pmt_entries program) +
       sum_list (map (\<lambda>(_, entry). length (ee_descriptors entry)) (pmt_entries program)) \<le> MAX_SINGLE_PACKET_SECTION
     \<longleftrightarrow> kept_descriptors program"
    by (simp add: kept_descriptors_def MAX_SINGLE_PACKET_SECTION_def MPEG_TS_PACKET_SIZE_def)
  have e: "concat (map (pmt_entry_bytes (kept_descriptors program)) (pmt_entries program)) =
      entry_list_bytes (written_entries program)"
  proof -
    have "pmt_entry_bytes (kept_descriptors program) (role, entry) =
       es_bytes (ee_stream_type entry) (output_pid role)
         (if kept_descriptors program then ee_descriptors entry else [])"
      if "(role, entry) \<in> set (pmt_entries program)" for role entry
      using that written_entries_size(2) [of "ee_stream_type entry" role
          "if kept_descriptors program then ee_descriptors entry else []" program]
      by (intro entry_bytes) (force simp: written_entries_def)
    then show ?thesis
      by (auto simp: entry_list_bytes_def written_entries_def o_def intro!: arg_cong [of _ _ concat])
  qed
  let ?E = "entry_list_bytes (written_entries program)"
  have n: "13 + length ?E < 256" using written_entries_size(1) [of program] by simp
  show ?thesis
    unfolding pmt_section_def Let_def k e append_crc_with_crc
    using u16_small [OF n] n by (simp add: pmt_head_def PROGRAM_NUMBER_def)
qed

lemma length_pmt_section: "length (pmt_section program version) \<le> 183" "16 \<le> length (pmt_section program version)"
  using written_entries_size(1) [of program] by (simp_all add: pmt_section_eq pmt_head_def)

lemma odd_c1: "(0xc1 OR x) AND 0x01 = (1 :: u8)"
  by (rule u8_eqI) (simp_all add: bit_simps)

lemma output_pcr_pid_bytes:
  "pid_of (0xe0 OR ucast (drop_bit 8 (output_pcr_pid program))) (ucast (output_pcr_pid program AND 0xff)) =
     output_pcr_pid program"
proof -
  have "output_pcr_pid program = NULL_PID \<or> (\<exists>role. output_pcr_pid program = output_pid role)"
    by (auto simp: output_pcr_pid_def split: option.splits)
  then show ?thesis using pid_of_output by (auto simp: NULL_PID_def pid_of_def)
qed

lemma pmt_section_accepted:
  "section_wf (pmt_section program version)" "is_matching_pmt (pmt_section program version) 1"
proof -
  let ?E = "entry_list_bytes (written_entries program)"
  let ?H = "pmt_head program version"
  have n: "13 + length ?E < 256" using written_entries_size(1) [of program] by simp
  have lh: "length ?H = 12" by (simp add: pmt_head_def)
  have h: "pmt_section program version ! i = ?H ! i" if "i < 12" for i
    using that by (simp add: pmt_section_eq lh nth_append)
  show "section_wf (pmt_section program version)"
    using h [of 1] h [of 2] length_of_small(2) [OF n] n
    by (simp add: section_wf_def pmt_section_eq lh MAX_SECTION_BYTES_def) (simp add: pmt_head_def)
  have "matching_pmt_loop (pmt_section program version) (length (pmt_section program version) - 4) 12"
    using matching_entries [of "written_entries program" ?H, OF written_entries_size(2)]
    by (simp add: pmt_section_eq with_crc_def lh to_be_bytes_def)
  moreover have "mpeg_crc32 (pmt_section program version) = 0" by (simp add: pmt_section_eq)
  ultimately show "is_matching_pmt (pmt_section program version) 1"
    using h [of 0] h [of 1] h [of 3] h [of 4] h [of 5] h [of 10] h [of 11]
    by (simp add: is_matching_pmt_def pmt_section_eq lh)
      (simp add: pmt_head_def PMT_TABLE_ID_def u16_be_def length_of_def odd_c1)
qed

definition map_wf :: "ProgramMap \<Rightarrow> bool" where
  "map_wf program \<longleftrightarrow>
     (\<forall>e. pm_video program = Some e \<longrightarrow> is_video_stream_type (ee_stream_type e)) \<and>
     (\<forall>e. pm_audio program = Some e \<longrightarrow> is_audio_stream (ee_stream_type e) (ee_descriptors e))"

lemma add_stream_wf: "map_wf program \<Longrightarrow> map_wf (add_stream e program)"
  by (auto simp: map_wf_def add_stream_def)

lemma from_pmt_loop_wf:
  "from_pmt_loop s e n program = Some program' \<Longrightarrow> map_wf program \<Longrightarrow> map_wf program'"
proof (induction s e n program rule: from_pmt_loop.induct)
  case (1 s e n program)
  show ?case
  proof (cases "n + 5 \<le> e")
    case True
    then show ?thesis using 1
      by (subst (asm) (2) from_pmt_loop.simps)
        (auto simp: Let_def add_stream_wf split: option.splits if_splits)
  next
    case False
    then show ?thesis using 1(2,3) by (subst (asm) from_pmt_loop.simps) simp
  qed
qed

lemma from_pmt_wf:
  assumes "from_pmt section = Some program"
  shows "map_wf program" "pm_video program \<noteq> None \<or> pm_audio program \<noteq> None"
proof -
  obtain m where "from_pmt_loop section (length section - 4) (12 + length_of (section ! 10) (section ! 11)) m = Some program"
    "map_wf m" and v: "pm_video program \<noteq> None \<or> pm_audio program \<noteq> None"
    using assms by (auto simp: from_pmt_def Let_def map_wf_def ProgramMap_default_def split: if_splits option.splits)
  then show "map_wf program" by (metis from_pmt_loop_wf)
  from v show "pm_video program \<noteq> None \<or> pm_audio program \<noteq> None" .
qed

definition output_entry :: "Role \<Rightarrow> EsEntry \<Rightarrow> EsEntry" where
  "output_entry role e = e\<lparr>ee_pid := output_pid role\<rparr>"

definition output_program :: "ProgramMap \<Rightarrow> ProgramMap" where
  "output_program program =
     \<lparr>pm_video = map_option (output_entry Video) (pm_video program),
      pm_audio = map_option (output_entry Audio) (pm_audio program),
      pm_pcr_pid = if output_pcr_pid program \<noteq> NULL_PID then Some (output_pcr_pid program) else None\<rparr>"

lemma audio_not_video: "is_audio_stream t ds \<Longrightarrow> \<not> is_video_stream_type t"
  by (auto simp: is_audio_stream_def is_video_stream_type_def split: if_splits)

lemma fold_written:
  assumes "map_wf program" "kept_descriptors program" "pm_video m = None" "pm_audio m = None"
  shows "fold add_stream (map map_entry (written_entries program)) m =
    m\<lparr>pm_video := map_option (output_entry Video) (pm_video program),
      pm_audio := map_option (output_entry Audio) (pm_audio program)\<rparr>"
  using assms audio_not_video
  by (cases "pm_video program"; cases "pm_audio program")
    (auto simp: written_entries_def pmt_entries_eq map_entry_def add_stream_def output_entry_def map_wf_def)

lemma from_pmt_written:
  "from_pmt (pmt_section program version) =
     (let m = fold add_stream (map map_entry (written_entries program))
         (ProgramMap_default\<lparr>pm_pcr_pid := if output_pcr_pid program \<noteq> NULL_PID
            then Some (output_pcr_pid program) else None\<rparr>)
      in if pm_video m \<noteq> None \<or> pm_audio m \<noteq> None then Some m else None)"
proof -
  let ?H = "pmt_head program version"
  have lh: "length ?H = 12" by (simp add: pmt_head_def)
  have h: "pmt_section program version ! i = ?H ! i" if "i < 12" for i
    using that by (simp add: pmt_section_eq lh nth_append)
  have l: "from_pmt_loop (pmt_section program version) (length (pmt_section program version) - 4) 12 m =
     Some (fold add_stream (map map_entry (written_entries program)) m)" for m
    using from_pmt_entries [of "written_entries program" ?H, OF written_entries_size(2)]
    by (simp add: pmt_section_eq with_crc_def lh to_be_bytes_def)
  have "\<not> length (pmt_section program version) < 16" using length_pmt_section(2) [of program version] by simp
  moreover have "pmt_section program version ! 0 = 2" "length_of (pmt_section program version ! 10) (pmt_section program version ! 11) = 0"
    "pid_of (pmt_section program version ! 8) (pmt_section program version ! 9) = output_pcr_pid program"
    using h [of 0] h [of 8] h [of 9] h [of 10] h [of 11] output_pcr_pid_bytes [of program]
    by (simp_all add: pmt_head_def length_of_def)
  ultimately show ?thesis by (simp add: from_pmt_def l Let_def)
qed

lemma dropped_descriptors_hide_the_audio:
  assumes "map_wf program" "\<not> kept_descriptors program" "pm_audio program = Some e"
    "ee_stream_type e = 0x06"
  shows "\<forall>m. from_pmt (pmt_section program version) = Some m \<longrightarrow> pm_audio m = None"
  using assms
  by (cases "pm_video program")
    (auto simp: map_wf_def from_pmt_written Let_def written_entries_def pmt_entries_eq map_entry_def add_stream_def
      is_audio_stream_def is_video_stream_type_def descriptor_tags.simps get_at_def ProgramMap_default_def split: if_splits)

lemma psi_header:
  assumes "length s \<le> 183" "pid \<in> {0, 0x1000}"
  shows "packet_header (psi_packet pid c s) = Some \<lparr>ph_pid = pid, ph_payload_unit_start = True,
     ph_continuity_counter = c AND 0x0f, ph_payload = 0 # s @ replicate (183 - length s) 0xff\<rparr>"
proof -
  have p: "psi_packet pid c s = [0x47, 0x40 OR (ucast (drop_bit 8 pid) AND 0x1f), ucast (pid AND 0xff),
     0x10 OR (c AND 0x0f)] @ 0 # s @ replicate (183 - length s) 0xff"
    using assms(1) by (simp add: psi_packet_def Let_def MAX_SINGLE_PACKET_SECTION_def MPEG_TS_PACKET_SIZE_def)
  have b3: "psi_packet pid c s ! 3 = 0x10 OR (c AND 0x0f)" by (simp add: psi_packet_head)
  have bits: "(0x10 OR (c AND 0x0f)) AND 0xc0 = (0 :: u8)"
    "drop_bit 4 (0x10 OR (c AND 0x0f)) AND 0x03 = (1 :: u8)" "(0x10 OR (c AND 0x0f)) AND 0x0f = c AND (0x0f :: u8)"
    by (rule u8_eqI; simp add: bit_simps)+
  have b12: "psi_packet pid c s ! 1 AND 0x80 = 0" "psi_packet pid c s ! 1 AND 0x40 \<noteq> 0"
    "pid_of (psi_packet pid c s ! 1) (psi_packet pid c s ! 2) = pid"
    using assms(2) by (auto simp: p pid_of_def)
  have d: "drop 4 (psi_packet pid c s) = 0 # s @ replicate (183 - length s) 0xff" unfolding p by simp
  show ?thesis
    using b12 psi_packet_head(1) [of pid c s]
    by (simp add: packet_header_def MPEG_TS_PACKET_SIZE_def b3 bits d)
qed

lemma pat_section_accepted: "section_wf pat_section" "parse_pat pat_section = Some (1, 0x1000)" "length pat_section = 16"
proof -
  show "length pat_section = 16" by (simp add: pat_section_def append_crc_with_crc)
  have "get_range pat_section 8 12 = Some [0x00, 0x01, 0xf0, 0x00]"
    by (simp add: get_range_def slice_def pat_section_def append_crc_with_crc with_crc_def PROGRAM_NUMBER_def SLATE_PMT_PID_def)
  then show "parse_pat pat_section = Some (1, 0x1000)"
    by (simp add: parse_pat_def pat_section_def append_crc_with_crc PAT_TABLE_ID_def chunks_exact.simps pat_entry_def u16_be_def pid_of_def)
  show "section_wf pat_section"
    by (simp add: section_wf_def pat_section_def append_crc_with_crc MAX_SECTION_BYTES_def length_of_def)
qed

lemma tracker_accepts_program:
  assumes "tr_observe t (psi_packet PAT_PID c pat_section) q = (t1, b1)"
    and "tr_observe t1 (psi_packet SLATE_PMT_PID d (pmt_section program v)) q' = (t2, b2)"
  shows "b2 = Some q" "tr_completed_pmt t2 = Some (pmt_section program v, 1)"
proof -
  have h1: "packet_header (psi_packet PAT_PID c pat_section) = Some \<lparr>ph_pid = 0, ph_payload_unit_start = True,
     ph_continuity_counter = c AND 0x0f, ph_payload = 0 # pat_section @ replicate 167 0xff\<rparr>"
    using psi_header [of pat_section 0 c] by (simp add: pat_section_accepted PAT_PID_def)
  have pat: "tr_observe_pat t \<lparr>ph_pid = 0, ph_payload_unit_start = True, ph_continuity_counter = c AND 0x0f,
       ph_payload = 0 # pat_section @ replicate 167 0xff\<rparr> q =
     t\<lparr>tr_pat := sa_clear (tr_pat t), tr_candidate := Some \<lparr>pc_program_number = 1, pc_pid = 0x1000,
         pc_pat_start_sequence = q, pc_assembler = SectionAssembler_default\<rparr>\<rparr>"
    using sa_observe_single [OF _ _ pat_section_accepted(1), of _ "replicate 167 0xff"]
    by (simp add: tr_observe_pat_def PAT_PID_def pat_section_accepted)
  have t1: "t1 = t\<lparr>tr_pat := sa_clear (tr_pat t), tr_candidate := Some \<lparr>pc_program_number = 1, pc_pid = 0x1000,
         pc_pat_start_sequence = q, pc_assembler = SectionAssembler_default\<rparr>\<rparr>"
    using assms(1) by (simp add: tr_observe_def h1 pat tr_observe_pmt_def)
  let ?s = "pmt_section program v"
  note len = length_pmt_section(1) [of program v]
  have h2: "packet_header (psi_packet SLATE_PMT_PID d ?s) = Some \<lparr>ph_pid = 0x1000, ph_payload_unit_start = True,
     ph_continuity_counter = d AND 0x0f, ph_payload = 0 # ?s @ replicate (183 - length ?s) 0xff\<rparr>"
    using psi_header [OF len, of "0x1000" d] by (simp add: SLATE_PMT_PID_def)
  have o: "sa_observe a \<lparr>ph_pid = 0x1000, ph_payload_unit_start = True,
     ph_continuity_counter = d AND 0x0f, ph_payload = 0 # ?s @ replicate (183 - length ?s) 0xff\<rparr> q' =
     (sa_clear a, Some \<lparr>cs_bytes = ?s, cs_start_sequence = q'\<rparr>)" for a
    using len by (intro sa_observe_single [OF _ _ pmt_section_accepted(1)]) simp_all
  have "tr_observe t1 (psi_packet SLATE_PMT_PID d ?s) q' =
     (t\<lparr>tr_pat := sa_clear (tr_pat t), tr_candidate := None, tr_last_pmt_section := Some ?s,
        tr_last_program_number := Some 1\<rparr>, Some q)"
    by (simp add: tr_observe_def h2 tr_observe_pat_def tr_observe_pmt_def PAT_PID_def t1 o pmt_section_accepted(2))
  with assms(2) show "b2 = Some q" "tr_completed_pmt t2 = Some (?s, 1)"
    by (auto simp: tr_completed_pmt_def)
qed

section \<open>The start of a segment\<close>

lemma start_segment_out:
  assumes "start_segment s g = (s', g', out)" "sg_map g = Some program"
  shows "take 376 out = psi_packet PAT_PID (mx_pat_cc s) pat_section @
      psi_packet SLATE_PMT_PID (mx_pmt_cc s) (pmt_section program ((mx_pmt_version s + 1) AND 0x1f))"
    "mx_output_map s' = Some program"
    "g' = g\<lparr>sg_started := True\<rparr>"
proof -
  have d: "mx_output_map (fst (discontinuities x rs)) = mx_output_map x" for x rs
    by (induction rs arbitrary: x) (simp_all add: case_prod_beta Let_def)
  show "take 376 out = psi_packet PAT_PID (mx_pat_cc s) pat_section @
      psi_packet SLATE_PMT_PID (mx_pmt_cc s) (pmt_section program ((mx_pmt_version s + 1) AND 0x1f))"
    "g' = g\<lparr>sg_started := True\<rparr>"
    using assms by (auto simp: start_segment_def Let_def write_pat_def write_pmt_def split: prod.splits if_splits)
  show "mx_output_map s' = Some program"
    using assms by (auto simp: start_segment_def Let_def write_pat_def write_pmt_def case_prod_beta d)
qed

lemma seek_observe_map [simp]: "sg_map (seek_observe g program p) = sg_map g"
  by (simp add: seek_observe_def Let_def split: option.splits)

lemma seek_updates [simp]:
  "seek_reference (g\<lparr>sg_offset := x, sg_audio_gate := y\<rparr>) program = seek_reference g program"
  "seek_accept (g\<lparr>sg_offset := x, sg_audio_gate := y\<rparr>) program p = seek_accept g program p"
  by (auto simp: seek_reference_def seek_accept_def Let_def split: option.splits)

lemma seek_found:
  assumes "seek s g p = (g', True)"
  obtains program reference where "sg_map g' = Some program" "seek_reference g' program = Some reference"
    "sg_offset g' = offset_for s reference" "seek_accept g' program p" "payload_unit_start p"
    "length p = 188" "p ! 0 = 0x47"
proof -
  obtain g1 m where o: "observe_psi g p = (g1, m)" by force
  define g2 where "g2 = (case m of None \<Rightarrow> g1 | Some program \<Rightarrow> g1\<lparr>sg_map := Some program\<rparr>)"
  have l: "length p = 188" "p ! 0 = 0x47"
    using assms by (auto simp: seek_def MPEG_TS_PACKET_SIZE_def split: if_splits)
  then have k: "(g', True) = (case sg_map g2 of
             None \<Rightarrow> (g2, False)
           | Some program \<Rightarrow>
               let segment = seek_observe g2 program p
               in case seek_reference segment program of
                    None \<Rightarrow> (segment, False)
                  | Some reference \<Rightarrow>
                      if \<not> payload_unit_start p then (segment, False)
                      else if \<not> seek_accept segment program p then (segment, False)
                      else (segment\<lparr>sg_offset := offset_for s reference,
                              sg_audio_gate :=
                                if map_option ee_pid (pm_video program) = Some (packet_pid p)
                                then read_pes_pts p else sg_audio_gate segment\<rparr>, True))"
    unfolding assms [symmetric] seek_def o g2_def by (simp add: MPEG_TS_PACKET_SIZE_def Let_def)
  then obtain program where m: "sg_map g2 = Some program" by (cases "sg_map g2") auto
  then obtain reference where r: "seek_reference (seek_observe g2 program p) program = Some reference"
    using k by (cases "seek_reference (seek_observe g2 program p) program") (auto simp: Let_def)
  have "payload_unit_start p" "seek_accept (seek_observe g2 program p) program p"
    using k m r by (auto simp: Let_def split: if_splits)
  moreover then have "\<exists>y. g' = (seek_observe g2 program p)\<lparr>sg_offset := offset_for s reference, sg_audio_gate := y\<rparr>"
    using k m r
    by (intro exI [of _ "if map_option ee_pid (pm_video program) = Some (packet_pid p)
          then read_pes_pts p else sg_audio_gate (seek_observe g2 program p)"]) (simp add: Let_def)
  ultimately show thesis using that [of program reference] l m r by auto
qed

section \<open>The media of a running segment\<close>

text \<open>
  What the muxer sends of a segment: \<open>rebased_copy\<close> relates an input packet and the output packet
  that it becomes, \<open>media_packets\<close> are the packets of the three stream PIDs.
\<close>

definition rebased_copy :: "64 word \<Rightarrow> bytes \<Rightarrow> bytes \<Rightarrow> bool" where
  "rebased_copy offset p out \<longleftrightarrow>
     length out = 188 \<and> (\<forall>i<188. \<not> rewritten p i \<longrightarrow> out ! i = p ! i) \<and>
     payload_unit_start out = payload_unit_start p \<and>
     read_pcr_base out = map_option (\<lambda>b. (b + offset) AND TIMESTAMP_MASK) (read_pcr_base p) \<and>
     (payload_unit_start p \<longrightarrow>
        read_pes_pts out = map_option (\<lambda>t. (t + offset) AND TIMESTAMP_MASK) (read_pes_pts p))"

definition media_packets :: "bytes \<Rightarrow> bytes list" where
  "media_packets out = filter (\<lambda>p. packet_pid p \<in> {SLATE_VIDEO_PID, SLATE_AUDIO_PID, SLATE_PCR_PID})
     (chunks_exact 188 out)"

lemma media_packets_append:
  "length a mod 188 = 0 \<Longrightarrow> media_packets (a @ b) = media_packets a @ media_packets b"
  by (simp add: media_packets_def chunks_exact_append_aligned)

lemma media_packets_psi:
  "write_pat s = (s', a) \<Longrightarrow> media_packets a = [] \<and> length a mod 188 = 0"
  "write_pmt s = (s', b) \<Longrightarrow> media_packets b = [] \<and> length b mod 188 = 0"
  by (auto simp: write_pat_def write_pmt_def media_packets_def single_chunk output_pid_defs PAT_PID_def SLATE_PMT_PID_def
      split: option.splits)

lemma media_packets_change:
  "program_change s g m = (s', g', c) \<Longrightarrow> media_packets c = [] \<and> length c mod 188 = 0"
  using media_packets_psi(2)
  by (auto simp: program_change_def Let_def media_packets_def split: option.splits prod.splits)

lemma observe_psi_offset: "observe_psi g p = (g', m) \<Longrightarrow> sg_offset g' = sg_offset g \<and> sg_started g' = sg_started g"
  by (auto simp: observe_psi_def Let_def split: prod.splits option.splits if_splits)

lemma program_change_offset:
  "program_change s g m = (s', g', c) \<Longrightarrow> sg_offset g' = sg_offset g \<and> sg_started g' = sg_started g"
  by (auto simp: program_change_def Let_def split: prod.splits option.splits)

lemma forward_packet_media:
  assumes "length p = 188" "forward_packet s g role p = (s', g', out)"
  shows "media_packets out = [out]" "rebased_copy (sg_offset g) p out" "sg_offset g' = sg_offset g" "length out = 188"
proof -
  note F = forward_packet_spec [OF assms]
  show "length out = 188" "sg_offset g' = sg_offset g" by (rule F(1), rule F(13))
  show "media_packets out = [out]"
    using F(3) by (cases role) (simp_all add: media_packets_def single_chunk F(1))
  show "rebased_copy (sg_offset g) p out" using F by (auto simp: rebased_copy_def)
qed

lemma running_packet_media:
  assumes "running_packet s g p = (s', g', out)"
  shows "sg_offset g' = sg_offset g \<and>
    (media_packets out = [] \<or> (\<exists>o'. media_packets out = [o'] \<and> rebased_copy (sg_offset g) p o')) \<and>
    length out mod 188 = 0"
proof (cases rule: running_packet_cases [of p s g])
  case ignored
  then show ?thesis using assms by (simp add: media_packets_def)
next
  case null
  then show ?thesis using assms by (auto simp: media_packets_def single_chunk NULL_PID_def output_pid_defs)
next
  case (pat g1 m s2 g2 change s3 pat s4 pmt)
  note c = media_packets_change [OF pat(6)] and a = media_packets_psi(1) [OF pat(7)]
    and b = media_packets_psi(2) [OF pat(8)]
  show ?thesis using assms pat(9) a b c observe_psi_offset [OF pat(5)] program_change_offset [OF pat(6)]
    by (auto simp: media_packets_append mod_add_eq mod_0_imp_dvd)
next
  case (dropped g1 m s2 g2 change)
  then show ?thesis using assms media_packets_change [OF dropped(5)] observe_psi_offset [OF dropped(4)]
      program_change_offset [OF dropped(5)] by auto
next
  case (forwarded g1 m s2 g2 change program role s3 g3 o')
  note c = media_packets_change [OF forwarded(6)] and f = forward_packet_media [OF forwarded(1,10)]
  show ?thesis using assms forwarded(11) c f observe_psi_offset [OF forwarded(5)] program_change_offset [OF forwarded(6)]
    by (auto simp: media_packets_append)
qed

lemma run_packets_media:
  "run_packets s g ps = (s', g', out) \<Longrightarrow> sg_offset g' = sg_offset g \<and> length out mod 188 = 0 \<and>
     (\<exists>qs. subseq qs ps \<and> list_all2 (rebased_copy (sg_offset g)) qs (media_packets out))"
proof (induction ps arbitrary: s g s' g' out)
  case (Cons p ps)
  obtain s1 g1 a where a: "running_packet s g p = (s1, g1, a)" by (metis prod_cases3)
  obtain b where b: "run_packets s1 g1 ps = (s', g', b)" "out = a @ b"
    using Cons.prems a by (auto split: prod.splits)
  note A = running_packet_media [OF a]
  obtain qs where qs: "subseq qs ps" "list_all2 (rebased_copy (sg_offset g1)) qs (media_packets b)"
    using Cons.IH [OF b(1)] by blast
  have m: "media_packets out = media_packets a @ media_packets b" using A by (simp add: b(2) media_packets_append)
  have "\<exists>qs. subseq qs (p # ps) \<and> list_all2 (rebased_copy (sg_offset g)) qs (media_packets out)"
  proof (cases "media_packets a = []")
    case True
    then show ?thesis using qs A m by (intro exI [of _ qs]) (auto intro: list_emb_Cons)
  next
    case False
    then show ?thesis using qs A m by (intro exI [of _ "p # qs"]) auto
  qed
  then show ?case using A Cons.IH [OF b(1)] b(2) by (auto simp: mod_add_eq mod_0_imp_dvd)
qed (simp add: media_packets_def)

section \<open>A sample splice\<close>

definition sample_map :: ProgramMap where
  "sample_map = \<lparr>pm_video = Some \<lparr>ee_pid = 0x200, ee_stream_type = 0x1b, ee_descriptors = []\<rparr>,
     pm_audio = Some \<lparr>ee_pid = 0x201, ee_stream_type = 0x0f, ee_descriptors = [0x0a, 1, 2]\<rparr>,
     pm_pcr_pid = Some 0x200\<rparr>"

text \<open>A video packet with a PCR of 9000, the random access flag and a PES start.\<close>

definition sample_key :: bytes where
  "sample_key = [0x47, 0x42, 0x00, 0x30, 7, 0x50, 0, 0, 0x11, 0x94, 0, 0,
     0, 0, 1, 0xe0, 0, 0, 0x80, 0x80, 5, 0x21, 0, 1, 0x8c, 0xa1] @ replicate 162 0xff"

definition sample_seg :: Segment where
  "sample_seg = Segment_default\<lparr>sg_map := Some sample_map\<rparr>"

lemma sample_key_facts:
  "length sample_key = 188" "sample_key ! 0 = 0x47" "packet_pid sample_key = 0x200"
  "payload_unit_start sample_key" "read_pcr_base sample_key = Some 9000" "is_random_access sample_key"
  by (simp_all add: sample_key_def packet_pid_def pid_of_def payload_unit_start_def read_pcr_base_def has_pcr_def is_random_access_def)

lemma sample_header: "pes_header sample_key = Some (12, 5)"
  by (simp add: pes_header_def payload_offset_def sample_key_def MPEG_TS_PACKET_SIZE_def Let_def no_optional_header_def)

lemma sample_pts: "read_pes_pts sample_key = Some 18000"
  by (simp add: read_pes_pts_def sample_header) (simp add: sample_key_def slice_def read_timestamp_def)

lemma sample_psi: "observe_psi sample_seg sample_key = (sample_seg\<lparr>sg_packets_seen := 1\<rparr>, None)"
proof -
  have "tr_observe PatPmtTracker_default sample_key 0 = (PatPmtTracker_default, None)"
    by (simp add: tr_observe_def packet_header_def tr_observe_pat_def tr_observe_pmt_def PatPmtTracker_default_def
        sample_key_def MPEG_TS_PACKET_SIZE_def PAT_PID_def pid_of_def Let_def)
  then show ?thesis by (simp add: observe_psi_def sample_seg_def Segment_default_def)
qed

lemma sample_seek:
  "seek (SpliceMuxer_new\<lparr>mx_last_pcr := Some 50000\<rparr>) sample_seg sample_key =
     (sample_seg\<lparr>sg_packets_seen := 1, sg_latest_pcr := Some 9000, sg_first_pcr := Some 9000,
        sg_latest_pts := Some 18000, sg_offset := 44003, sg_audio_gate := Some 18000\<rparr>, True)"
  unfolding seek_def sample_psi
  by (simp add: sample_key_facts MPEG_TS_PACKET_SIZE_def seek_observe_def role_of_def sample_pts sample_seg_def
     sample_map_def seek_reference_def seek_accept_def is_keyframe_def offset_for_def output_reference_def
     SpliceMuxer_new_def SPLICE_STEP_TICKS_def Segment_default_def)

lemma kept_sample: "kept_descriptors (output_program sample_map)"
  by (simp add: kept_descriptors_def pmt_entries_eq output_program_def sample_map_def output_entry_def)

lemma sample_written: "from_pmt (pmt_section sample_map 0) = Some (output_program sample_map)"
proof -
  have "map_wf sample_map" "kept_descriptors sample_map"
    by (simp_all add: map_wf_def sample_map_def is_video_stream_type_def is_audio_stream_def kept_descriptors_def pmt_entries_eq)
  then show ?thesis
    by (simp add: from_pmt_written Let_def fold_written ProgramMap_default_def output_program_def)
      (simp add: sample_map_def)
qed

section \<open>Properties\<close>

text \<open>
  whatever calls the driver makes, and whatever bytes it pushes, the muxer's output is one
  transport stream: whole packets with a sync byte, each on the PAT PID, the PMT PID, one of the
  three stream PIDs or the null PID.
\<close>

theorem spliced_output_is_one_program: "output_stream (snd (mux_run SpliceMuxer_new calls))"
  using emits_new [of calls] by (simp add: emits_def)

text \<open>
  across every splice and program change the PAT packets of the output count 0, 1, 2, \<open>\<dots>\<close>
  modulo 16 in their continuity counters, and so do the PMT packets.
\<close>

theorem psi_counters_are_continuous:
  "counters PAT_PID (snd (mux_run SpliceMuxer_new calls)) =
     map (\<lambda>i. of_nat i AND 0x0f) [0..<length (counters PAT_PID (snd (mux_run SpliceMuxer_new calls)))]
   \<and> counters SLATE_PMT_PID (snd (mux_run SpliceMuxer_new calls)) =
     map (\<lambda>i. of_nat i AND 0x0f)
       [0..<length (counters SLATE_PMT_PID (snd (mux_run SpliceMuxer_new calls)))]"
  using emits_new [of calls] counts_enumerate
  by (auto simp: emits_def SpliceMuxer_new_def PAT_PID_def SLATE_PMT_PID_def)





text \<open>
  a segment with video starts at a packet of the video PID that begins a PES packet and a
  keyframe, unless three seconds of its clock or 20000 packets went by without one.
\<close>

theorem splice_starts_at_a_keyframe:
  assumes "seek s g p = (g', True)" "sg_map g' = Some program" "pm_video program = Some video"
  shows "payload_unit_start p \<and> packet_pid p = ee_pid video \<and>
    (is_keyframe p (ee_stream_type video) \<or>
     (\<exists>first latest. sg_first_pcr g' = Some first \<and> sg_latest_pcr g' = Some latest \<and>
        KEYFRAME_FALLBACK_TICKS \<le> (latest - first) AND TIMESTAMP_MASK) \<or>
     NO_PCR_PACKET_BUDGET \<le> sg_packets_seen g')"
proof -
  obtain program' where "sg_map g' = Some program'" "seek_accept g' program' p" "payload_unit_start p"
    using seek_found [OF assms(1)] by metis
  then show ?thesis using assms(2,3)
    by (auto simp: seek_accept_def Let_def split: option.splits)
qed

theorem splice_starts_at_a_keyframe_witness:
  "\<exists>video. pm_video sample_map = Some video \<and> packet_pid sample_key = ee_pid video"
proof -
  obtain video where v: "pm_video sample_map = Some video" by (simp add: sample_map_def)
  have "packet_pid sample_key = ee_pid video"
    using splice_starts_at_a_keyframe [OF sample_seek _ v] by (simp add: sample_seg_def)
  with v show ?thesis by blast
qed



text \<open>
  the program map that the muxer reads from an input PMT survives being written: parsing the PMT
  it sends gives the same streams on the output PIDs, provided that the descriptors fit.
\<close>

theorem written_program_reads_back:
  assumes "from_pmt section = Some program" "kept_descriptors program"
  shows "from_pmt (pmt_section program version) = Some (output_program program)"
  using from_pmt_wf [OF assms(1)] assms(2)
  by (auto simp: from_pmt_written Let_def fold_written ProgramMap_default_def output_program_def)

theorem written_program_reads_back_witness:
  "from_pmt (pmt_section (output_program sample_map) 5) = Some (output_program (output_program sample_map))"
  using written_program_reads_back [OF sample_written kept_sample] .

end
