(* ===== verification/Slate.thy ===== *)
theory Slate
  imports Session Splice
begin

text \<open>
  Slates (\<open>crates/media/src/slate.rs\<close>, all but the splice muxer, which is in \<open>Splice\<close>): the
  encode profile and the FFmpeg arguments of a slate, the retry schedule, the readiness of a viewer,
  \<open>open_with_slates\<close> and the \<open>SlateDriver\<close> loop that feeds the muxer from a slate process or from
  the live viewer.

  The clock readings, the ring of the shared session at the moment the code looks at it, what the
  slate process and the live stream deliver, and whether FFmpeg could be started are arguments of
  the handlers: they come from other tasks.  \<open>nearest_frame_rate\<close> works on \<open>f64\<close>; its result is
  an argument of \<open>from_measured\<close>.
\<close>

section \<open>Constants\<close>

definition SLATE_START_LEAD :: duration where
  "SLATE_START_LEAD = 5 * 1000000000"

definition DEFAULT_SLATE_GRACE :: duration where
  "DEFAULT_SLATE_GRACE = 1500 * 1000000"

definition CAPACITY_RETRY_INTERVAL :: duration where
  "CAPACITY_RETRY_INTERVAL = 500 * 1000000"

definition PROVIDER_RETRY_INITIAL :: duration where
  "PROVIDER_RETRY_INITIAL = 1000000000"

definition PROVIDER_RETRY_MAX :: duration where
  "PROVIDER_RETRY_MAX = 30 * 1000000000"

definition STARTING_COUNTDOWN_FLOOR :: duration where
  "STARTING_COUNTDOWN_FLOOR = 3 * 1000000000"

definition LEAD_WAIT_LIMIT :: duration where
  "LEAD_WAIT_LIMIT = 10 * 1000000000"

definition NO_MEDIA_LIMIT :: duration where
  "NO_MEDIA_LIMIT = 30 * 1000000000"

definition SLATE_RESTART_INTERVAL :: duration where
  "SLATE_RESTART_INTERVAL = 2 * 1000000000"

section \<open>Slate profile\<close>

datatype SlateVideoCodec = H264 | H265 | Mpeg2

datatype SlateAudioCodec = Aac | Ac3 | Eac3 | Mp2

record FrameRate =
  fr_numerator :: nat
  fr_denominator :: nat

definition keyframe_interval :: "FrameRate \<Rightarrow> nat" where
  "keyframe_interval self =
     max ((fr_numerator self + fr_denominator self - 1) div fr_denominator self) 1"

record MeasuredStreamProfile =
  ms_video_codec :: "string option"
  ms_video_width :: "int option"
  ms_video_height :: "int option"
  ms_audio_codec :: "string option"
  ms_audio_channels :: "int option"
  ms_audio_sample_rate :: "int option"

record SlateProfile =
  sp_video :: SlateVideoCodec
  sp_width :: nat
  sp_height :: nat
  sp_frame_rate :: FrameRate
  sp_audio :: SlateAudioCodec
  sp_audio_channels :: nat
  sp_sample_rate :: nat

definition SlateProfile_default :: SlateProfile where
  "SlateProfile_default =
     \<lparr>sp_video = H264, sp_width = 1280, sp_height = 720,
      sp_frame_rate = \<lparr>fr_numerator = 30, fr_denominator = 1\<rparr>, sp_audio = Aac,
      sp_audio_channels = 2, sp_sample_rate = 48000\<rparr>"

text \<open>\<open>n & !1\<close> on an unsigned number.\<close>

definition even_down :: "nat \<Rightarrow> nat" where
  "even_down n = n - n mod 2"

definition from_measured :: "FrameRate option \<Rightarrow> MeasuredStreamProfile \<Rightarrow> SlateProfile" where
  "from_measured nearest measured =
     (let defaults = SlateProfile_default;
          video = (case ms_video_codec measured of
              None \<Rightarrow> H264
            | Some codec \<Rightarrow>
                if codec \<in> {''h265'', ''hevc''} then H265
                else if codec \<in> {''mpeg2-video'', ''mpeg2video'', ''mpeg1-video''} then Mpeg2
                else H264);
          (width, height) = (case (ms_video_width measured, ms_video_height measured) of
              (Some width, Some height) \<Rightarrow>
                if 128 \<le> width \<and> width \<le> 4096 \<and> 96 \<le> height \<and> height \<le> 2304
                then (even_down (nat width), even_down (nat height))
                else (sp_width defaults, sp_height defaults)
            | _ \<Rightarrow> (sp_width defaults, sp_height defaults));
          audio = (case ms_audio_codec measured of
              None \<Rightarrow> Aac
            | Some codec \<Rightarrow>
                if codec = ''ac3'' then Ac3
                else if codec = ''eac3'' then Eac3
                else if codec \<in> {''mp2'', ''mpeg1-audio''} then Mp2
                else Aac);
          audio_channels = (case ms_audio_channels measured of
              None \<Rightarrow> 2
            | Some channels \<Rightarrow>
                if channels = 1 then 1
                else if channels \<ge> 6 \<and> audio \<noteq> Mp2 then 6
                else 2);
          sample_rate = (case ms_audio_sample_rate measured of
              None \<Rightarrow> sp_sample_rate defaults
            | Some rate \<Rightarrow>
                if rate \<in> {32000, 44100, 48000} then nat rate else sp_sample_rate defaults)
      in \<lparr>sp_video = video, sp_width = width, sp_height = height,
          sp_frame_rate = unwrap_or nearest (sp_frame_rate defaults), sp_audio = audio,
          sp_audio_channels = audio_channels, sp_sample_rate = sample_rate\<rparr>)"

section \<open>Slate kind and FFmpeg arguments\<close>

datatype SlateKind = StartingSlate | TunersBusy | Retrying

definition backslash :: string where
  "backslash = [CHR 0x5C]"

definition slate_lines :: "SlateKind \<Rightarrow> nat \<Rightarrow> string list" where
  "slate_lines self countdown_seconds =
     (case self of
        StartingSlate \<Rightarrow>
          [''Stream starting in %{eif'' @ backslash @ '':max(1'' @ backslash @ '',ceil('' @
           show_u64 countdown_seconds @ ''-t))'' @ backslash @ '':d} seconds'']
      | TunersBusy \<Rightarrow> [''All tuners in use,'', ''stay tuned for one to open up'']
      | Retrying \<Rightarrow> [''Having trouble reaching this channel,'', ''retrying''])"

definition quote :: string where
  "quote = [CHR 0x27]"

definition join_comma :: "string list \<Rightarrow> string" where
  "join_comma parts =
     (case parts of [] \<Rightarrow> '''' | p # ps \<Rightarrow> p @ concat (map (\<lambda>q. '','' @ q) ps))"

definition video_filter :: "SlateKind \<Rightarrow> nat \<Rightarrow> SlateProfile \<Rightarrow> string" where
  "video_filter kind countdown_seconds profile =
     (let font_size = max (min (sp_height profile div 14) (sp_width profile div 28)) 12;
          step = font_size * 3 div 2;
          lines = slate_lines kind countdown_seconds;
          top = sp_height profile div 2 - step * length lines div 2
      in join_comma (map (\<lambda>(line, index).
           ''drawtext=text='' @ quote @ line @ quote @ '':fontcolor=white:fontsize='' @
           show_u64 font_size @ '':x=(w-text_w)/2:y='' @ show_u64 (top + step * index))
         (zip lines [0..<length lines])))"

definition channel_layout :: "nat \<Rightarrow> string" where
  "channel_layout channels =
     (if channels = 1 then ''mono'' else if channels = 6 then ''5.1'' else ''stereo'')"

definition video_encoder_arguments :: "SlateVideoCodec \<Rightarrow> string \<Rightarrow> string list" where
  "video_encoder_arguments codec gop =
     (case codec of
        H264 \<Rightarrow> [''-c:v'', ''libx264'', ''-preset'', ''veryfast'', ''-tune'', ''zerolatency'',
          ''-profile:v'', ''high'', ''-sc_threshold'', ''0'', ''-keyint_min'', gop]
      | H265 \<Rightarrow> [''-c:v'', ''libx265'', ''-preset'', ''ultrafast'', ''-tune'', ''zerolatency'',
          ''-x265-params'', ''log-level=error'']
      | Mpeg2 \<Rightarrow> [''-c:v'', ''mpeg2video'', ''-q:v'', ''4'', ''-bf'', ''0''])"

definition audio_encoder :: "SlateAudioCodec \<Rightarrow> bool \<Rightarrow> string \<times> string" where
  "audio_encoder codec surround =
     (case codec of
        Aac \<Rightarrow> (''aac'', if surround then ''384k'' else ''128k'')
      | Ac3 \<Rightarrow> (''ac3'', if surround then ''448k'' else ''192k'')
      | Eac3 \<Rightarrow> (''eac3'', if surround then ''448k'' else ''192k'')
      | Mp2 \<Rightarrow> (''mp2'', ''192k''))"

definition ffmpeg_arguments :: "SlateKind \<Rightarrow> nat \<Rightarrow> SlateProfile \<Rightarrow> string list" where
  "ffmpeg_arguments kind countdown_seconds profile =
     (let rate = sp_frame_rate profile;
          gop = show_u64 (keyframe_interval rate);
          (encoder, bitrate) = audio_encoder (sp_audio profile) (sp_audio_channels profile \<ge> 6)
      in [''-hide_banner'', ''-loglevel'', ''error'', ''-nostdin'', ''-re'', ''-f'', ''lavfi'', ''-i'',
          ''color=c=0x08111f:s='' @ show_u64 (sp_width profile) @ ''x'' @ show_u64 (sp_height profile)
            @ '':r='' @ show_u64 (fr_numerator rate) @ ''/'' @ show_u64 (fr_denominator rate),
          ''-re'', ''-f'', ''lavfi'', ''-i'',
          ''anullsrc=channel_layout='' @ channel_layout (sp_audio_channels profile)
            @ '':sample_rate='' @ show_u64 (sp_sample_rate profile),
          ''-map'', ''0:v:0'', ''-map'', ''1:a:0'', ''-vf'',
          video_filter kind (max countdown_seconds 1) profile,
          ''-pix_fmt'', ''yuv420p'', ''-g'', gop]
         @ video_encoder_arguments (sp_video profile) gop
         @ [''-c:a'', encoder, ''-b:a'', bitrate, ''-muxdelay'', ''0'', ''-muxpreload'', ''0'',
            ''-flush_packets'', ''1'', ''-mpegts_service_id'', ''1'', ''-mpegts_pmt_start_pid'', ''4096'',
            ''-mpegts_start_pid'', ''256'', ''-f'', ''mpegts'', ''pipe:1''])"

section \<open>Slate selection and retry rules\<close>

datatype StartFailure = CapacityFailure | ProviderFailure | ConfigurationFailure

fun classify :: "SessionStartError \<Rightarrow> StartFailure" where
  "classify (ProviderError (AtCapacity _ _ _)) = CapacityFailure"
| "classify StartupTimeout = ProviderFailure"
| "classify (HttpError _) = ProviderFailure"
| "classify (ProcessError _) = ProviderFailure"
| "classify (UnknownProvider _) = ConfigurationFailure"
| "classify (ProviderError LeaseIdExhausted) = ConfigurationFailure"
| "classify ProcessInputRequiresProcessAdapter = ConfigurationFailure"

fun failure_slate :: "StartFailure \<Rightarrow> SlateKind" where
  "failure_slate CapacityFailure = TunersBusy"
| "failure_slate ProviderFailure = Retrying"
| "failure_slate ConfigurationFailure = Retrying"

record RetrySchedule =
  rs_provider_failures :: nat

definition RetrySchedule_default :: RetrySchedule where
  "RetrySchedule_default = \<lparr>rs_provider_failures = 0\<rparr>"

definition next_delay :: "StartFailure \<Rightarrow> RetrySchedule \<Rightarrow> duration \<times> RetrySchedule" where
  "next_delay failure self =
     (if failure = CapacityFailure then (CAPACITY_RETRY_INTERVAL, self)
      else let exponent = min (rs_provider_failures self) 16
        in (min (PROVIDER_RETRY_INITIAL * 2 ^ exponent) PROVIDER_RETRY_MAX,
            self\<lparr>rs_provider_failures := min (rs_provider_failures self + 1) (2 ^ 32 - 1)\<rparr>))"

definition retry_reset :: "RetrySchedule \<Rightarrow> RetrySchedule" where
  "retry_reset self = self\<lparr>rs_provider_failures := 0\<rparr>"

datatype Readiness = Ready | ReadyWaiting duration | ReadyFailed

definition start_lead_target :: "duration \<Rightarrow> duration" where
  "start_lead_target viewer_delay = min viewer_delay SLATE_START_LEAD"

definition viewer_readiness :: "duration \<Rightarrow> ViewerStartupStatus \<Rightarrow> duration \<Rightarrow> Readiness" where
  "viewer_readiness target status waited =
     (if vs_closed status then ReadyFailed
      else if \<not> vs_buffered status then
        (if waited \<ge> NO_MEDIA_LIMIT then ReadyFailed
         else ReadyWaiting (max target STARTING_COUNTDOWN_FLOOR))
      else if target = 0 then Ready
      else case vs_lead status of
          Some lead \<Rightarrow>
            if lead \<ge> target then Ready
            else if waited \<ge> target + LEAD_WAIT_LIMIT then Ready
            else ReadyWaiting (target - lead)
        | None \<Rightarrow> if waited \<ge> target then Ready else ReadyWaiting (target - waited))"

text \<open>\<open>remaining.as_millis().div_ceil(1_000)\<close>, at most \<open>u32::MAX\<close> and at least 1.\<close>

definition countdown_seconds :: "duration \<Rightarrow> nat" where
  "countdown_seconds remaining =
     max (min ((remaining div 1000000 + 999) div 1000) (2 ^ 32 - 1)) 1"

section \<open>Driver state\<close>

text \<open>
  A running slate is its kind; the reads of its cursor are events of the driver.  \<open>Splicing\<close> and
  \<open>Live\<close> hold the live byte stream, whose items are events too.
\<close>

record RunningSlate =
  rn_kind :: SlateKind

datatype LiveState =
    Opening
  | WaitingLive Viewer instant
  | IdleLive instant StartFailure
  | Splicing
  | Live

datatype LiveEvent =
    Opened "SessionStartError + Viewer"
  | MediaBytes bytes
  | MediaError
  | MediaEnd

datatype DriverEvent =
    ActiveRead "RingReadError + RingRead"
  | IncomingRead "RingReadError + RingRead"
  | LiveHappens LiveEvent
  | Tick

record SlateDriver =
  sd_target :: duration
  sd_muxer :: SpliceMuxer
  sd_retry :: RetrySchedule
  sd_live :: LiveState
  sd_active :: "RunningSlate option"
  sd_incoming :: "RunningSlate option"
  sd_shown :: "SlateKind option"
  sd_last_slate_start :: "instant option"
  sd_finished :: bool

definition desired_slate :: "SlateDriver \<Rightarrow> SlateKind option" where
  "desired_slate self =
     (case sd_live self of
        Live \<Rightarrow> None
      | Splicing \<Rightarrow> sd_shown self
      | WaitingLive _ _ \<Rightarrow> Some StartingSlate
      | Opening \<Rightarrow> Some (unwrap_or (sd_shown self) StartingSlate)
      | IdleLive _ failure \<Rightarrow> Some (failure_slate failure))"

definition countdown :: "SlateDriver \<Rightarrow> RingInner \<Rightarrow> instant \<Rightarrow> nat" where
  "countdown self ring now =
     countdown_seconds
       (case sd_live self of
          WaitingLive viewer since \<Rightarrow>
            (case viewer_readiness (sd_target self) (startup_status ring viewer now) (now - since) of
               ReadyWaiting remaining \<Rightarrow> remaining
             | _ \<Rightarrow> 0)
        | _ \<Rightarrow> max (sd_target self) STARTING_COUNTDOWN_FLOOR)"

text \<open>
  \<open>ensure_slate\<close>; \<open>start_slate kind countdown\<close> says whether the FFmpeg process could be started.
\<close>

definition ensure_slate ::
    "(SlateKind \<Rightarrow> nat \<Rightarrow> bool) \<Rightarrow> RingInner \<Rightarrow> instant \<Rightarrow> SlateDriver \<Rightarrow> SlateDriver" where
  "ensure_slate start_slate ring now self =
     (case desired_slate self of
        None \<Rightarrow> self
      | Some kind \<Rightarrow>
          if sd_shown self = Some kind then self
          else if (case sd_last_slate_start self of None \<Rightarrow> False
                   | Some previous \<Rightarrow> now - previous < SLATE_RESTART_INTERVAL)
              \<and> sd_active self = None \<and> sd_incoming self = None \<and> sd_shown self = None
          then self
          else let self = self\<lparr>sd_shown := Some kind, sd_last_slate_start := Some now\<rparr>
            in if start_slate kind (countdown self ring now)
               then self\<lparr>sd_muxer := begin_pending (sd_muxer self),
                      sd_incoming := Some \<lparr>rn_kind = kind\<rparr>\<rparr>
               else self\<lparr>sd_muxer := cancel_pending (sd_muxer self), sd_incoming := None\<rparr>)"

definition on_active_read ::
    "(RingReadError + RingRead) \<Rightarrow> SlateDriver \<Rightarrow> SlateDriver \<times> bytes" where
  "on_active_read read self =
     (case read of
        Inr (Packets _ _ bs) \<Rightarrow>
          let (muxer, out) = push_current (sd_muxer self) bs in (self\<lparr>sd_muxer := muxer\<rparr>, out)
      | Inr (Lagged _ _ _) \<Rightarrow> (self, [])
      | Inr (GenerationBoundary _ _) \<Rightarrow> (self, [])
      | _ \<Rightarrow> (self\<lparr>sd_active := None,
               sd_shown := if sd_incoming self = None then None else sd_shown self\<rparr>, []))"

definition on_incoming_read ::
    "(RingReadError + RingRead) \<Rightarrow> SlateDriver \<Rightarrow> SlateDriver \<times> bytes" where
  "on_incoming_read read self =
     (case read of
        Inr (Packets _ _ bs) \<Rightarrow>
          let (muxer, started, out) = push_pending (sd_muxer self) bs;
              self = self\<lparr>sd_muxer := muxer\<rparr>
          in (if started then self\<lparr>sd_active := sd_incoming self, sd_incoming := None\<rparr> else self, out)
      | Inr (Lagged _ _ _) \<Rightarrow> (self, [])
      | Inr (GenerationBoundary _ _) \<Rightarrow> (self, [])
      | _ \<Rightarrow> (self\<lparr>sd_muxer := cancel_pending (sd_muxer self), sd_incoming := None,
               sd_shown := map_option rn_kind (sd_active self)\<rparr>, []))"

definition begin_splice :: "SlateDriver \<Rightarrow> SlateDriver" where
  "begin_splice self =
     self\<lparr>sd_muxer := begin_pending (sd_muxer self), sd_live := Splicing, sd_incoming := None,
       sd_shown := map_option rn_kind (sd_active self)\<rparr>"

definition fail_live :: "StartFailure \<Rightarrow> instant \<Rightarrow> SlateDriver \<Rightarrow> SlateDriver" where
  "fail_live failure now self =
     (let muxer = (if sd_live self = Splicing then cancel_pending (sd_muxer self) else sd_muxer self);
          (delay, retry) = next_delay failure (sd_retry self)
      in self\<lparr>sd_muxer := muxer, sd_retry := retry, sd_live := IdleLive (now + delay) failure\<rparr>)"

definition on_live_event ::
    "LiveEvent \<Rightarrow> RingInner \<Rightarrow> instant \<Rightarrow> SlateDriver \<Rightarrow> SlateDriver \<times> bytes" where
  "on_live_event event ring now self =
     (case event of
        Opened (Inr viewer) \<Rightarrow>
          ((case viewer_readiness (sd_target self) (startup_status ring viewer now) 0 of
              Ready \<Rightarrow> begin_splice self
            | ReadyWaiting _ \<Rightarrow> self\<lparr>sd_live := WaitingLive viewer now\<rparr>
            | ReadyFailed \<Rightarrow> fail_live ProviderFailure now self), [])
      | Opened (Inl error) \<Rightarrow> (fail_live (classify error) now self, [])
      | MediaBytes bs \<Rightarrow>
          if sd_live self = Splicing then
            (let (muxer, started, out) = push_pending (sd_muxer self) bs;
                 self = self\<lparr>sd_muxer := muxer\<rparr>
             in (if started
                 then self\<lparr>sd_retry := retry_reset (sd_retry self), sd_live := Live,
                        sd_active := None, sd_incoming := None, sd_shown := None\<rparr>
                 else self, out))
          else (let (muxer, out) = push_current (sd_muxer self) bs in (self\<lparr>sd_muxer := muxer\<rparr>, out))
      | MediaError \<Rightarrow> (fail_live ProviderFailure now self, [])
      | MediaEnd \<Rightarrow>
          (if sd_live self = Live then self\<lparr>sd_finished := True\<rparr>
           else fail_live ProviderFailure now self, []))"

definition on_tick :: "RingInner \<Rightarrow> instant \<Rightarrow> SlateDriver \<Rightarrow> SlateDriver" where
  "on_tick ring now self =
     (case sd_live self of
        WaitingLive viewer since \<Rightarrow>
          (case viewer_readiness (sd_target self) (startup_status ring viewer now) (now - since) of
             Ready \<Rightarrow> begin_splice self
           | ReadyFailed \<Rightarrow> fail_live ProviderFailure now self
           | ReadyWaiting _ \<Rightarrow> self)
      | IdleLive retry_at _ \<Rightarrow> if now \<ge> retry_at then self\<lparr>sd_live := Opening\<rparr> else self
      | _ \<Rightarrow> self)"

text \<open>
  The \<open>select!\<close> of \<open>into_stream\<close>: a slate is read only while it runs, \<open>next_live_event\<close> is
  pending while the live state waits or idles.  One turn of the loop ends with the bytes it yields.
\<close>

fun event_possible :: "SlateDriver \<Rightarrow> DriverEvent \<Rightarrow> bool" where
  "event_possible self (ActiveRead _) \<longleftrightarrow> sd_active self \<noteq> None"
| "event_possible self (IncomingRead _) \<longleftrightarrow> sd_incoming self \<noteq> None"
| "event_possible self (LiveHappens (Opened _)) \<longleftrightarrow> sd_live self = Opening"
| "event_possible self (LiveHappens _) \<longleftrightarrow> sd_live self = Splicing \<or> sd_live self = Live"
| "event_possible self Tick \<longleftrightarrow> True"

definition on_event ::
    "DriverEvent \<Rightarrow> RingInner \<Rightarrow> instant \<Rightarrow> SlateDriver \<Rightarrow> SlateDriver \<times> bytes" where
  "on_event event ring now self =
     (case event of
        ActiveRead read \<Rightarrow> on_active_read read self
      | IncomingRead read \<Rightarrow> on_incoming_read read self
      | LiveHappens event \<Rightarrow> on_live_event event ring now self
      | Tick \<Rightarrow> (on_tick ring now self, []))"

inductive driver_step :: "SlateDriver \<Rightarrow> DriverEvent \<Rightarrow> bytes \<Rightarrow> SlateDriver \<Rightarrow> bool" where
  turn: "\<lbrakk>\<not> sd_finished self; ready = ensure_slate start_slate ring now self;
      event_possible ready event; on_event event ring' now' ready = (self', out)\<rbrakk>
    \<Longrightarrow> driver_step self event out self'"

section \<open>Opening a channel\<close>

datatype SlatedOpen = Direct Viewer | Slated SlateDriver | OpenFailed SessionStartError

definition driver_new :: "duration \<Rightarrow> RetrySchedule \<Rightarrow> LiveState \<Rightarrow> SlateDriver" where
  "driver_new target retry live_state =
     \<lparr>sd_target = target, sd_muxer = SpliceMuxer_new, sd_retry = retry, sd_live = live_state,
      sd_active = None, sd_incoming = None, sd_shown = None, sd_last_slate_start = None,
      sd_finished = False\<rparr>"

text \<open>
  The readiness loop of \<open>open_with_slates\<close>: each turn looks at the ring and the clock; \<open>None\<close>
  when the script of turns ends before the loop does.
\<close>

fun open_loop ::
    "duration \<Rightarrow> instant \<Rightarrow> Viewer \<Rightarrow> instant \<Rightarrow> RetrySchedule \<Rightarrow> (RingInner \<times> instant) list \<Rightarrow>
     SlatedOpen option" where
  "open_loop target deadline viewer since retry [] = None"
| "open_loop target deadline viewer since retry ((ring, now) # turns) =
     (case viewer_readiness target (startup_status ring viewer now) (now - since) of
        Ready \<Rightarrow> Some (Direct viewer)
      | ReadyFailed \<Rightarrow>
          (let (delay, retry) = next_delay ProviderFailure retry
           in Some (Slated (driver_new target retry (IdleLive (now + delay) ProviderFailure))))
      | ReadyWaiting _ \<Rightarrow>
          if now \<ge> deadline then Some (Slated (driver_new target retry (WaitingLive viewer since)))
          else open_loop target deadline viewer since retry turns)"

text \<open>
  \<open>first\<close> is the result of the first \<open>try_open\<close>, \<open>None\<close> when the grace time ended before it.
\<close>

definition open_with_slates ::
    "duration \<Rightarrow> duration \<Rightarrow> instant \<Rightarrow> (SessionStartError + Viewer) option \<Rightarrow> instant \<Rightarrow>
     (RingInner \<times> instant) list \<Rightarrow> SlatedOpen option" where
  "open_with_slates viewer_delay grace now first now' turns =
     (let target = start_lead_target viewer_delay;
          deadline = now + grace;
          retry = RetrySchedule_default
      in case first of
           None \<Rightarrow> Some (Slated (driver_new target retry Opening))
         | Some (Inl error) \<Rightarrow>
             (let failure = classify error
              in if failure = ConfigurationFailure then Some (OpenFailed error)
                 else let (delay, retry) = next_delay failure retry
                   in Some (Slated (driver_new target retry (IdleLive (now' + delay) failure))))
         | Some (Inr viewer) \<Rightarrow> open_loop target deadline viewer now' retry turns)"

section \<open>The muxer's segments\<close>

text \<open>Processing packets leaves the two segment slots of the muxer alone.\<close>

definition keeps :: "SpliceMuxer \<Rightarrow> SpliceMuxer \<Rightarrow> bool" where
  "keeps s s' \<longleftrightarrow> mx_current s' = mx_current s \<and> mx_pending s' = mx_pending s"

lemma keeps_trans: "keeps a b \<Longrightarrow> keeps b c \<Longrightarrow> keeps a c"
  by (simp add: keeps_def)

lemma keeps_psi: "write_pat s = (s', a) \<Longrightarrow> keeps s s'" "write_pmt s = (s', a) \<Longrightarrow> keeps s s'"
  by (auto simp: write_pat_def write_pmt_def keeps_def split: option.splits)

lemma keeps_change: "program_change s g m = (s', g', c) \<Longrightarrow> keeps s s'"
  by (auto simp: program_change_def keeps_def Let_def write_pmt_def split: option.splits prod.splits)

lemma keeps_forward:
  assumes "forward_packet s g role p = (s', g', out)"
  shows "keeps s s'"
proof -
  obtain s2 g2 p2 s3 p3 where "set_counter s g2 role (set_pid p (output_pid role)) = (s2, g', p2)"
    "rebase_pcr s2 g' p2 = (s3, p3)" "rebase_pes s3 g' role p3 = (s', out)"
    using forward_packet_stages [OF assms] by metis
  then show ?thesis
    by (auto simp: keeps_def set_counter_def Let_def rebase_pcr_def rebase_pes_def note_pes_frame
        split: option.splits if_splits prod.splits)
qed

lemma keeps_running: "running_packet s g p = (s', g', out) \<Longrightarrow> keeps s s' \<and> sg_started g' = sg_started g"
proof (cases rule: running_packet_cases [of p s g])
  assume r: "running_packet s g p = (s', g', out)"
  {
    case ignored
    then show ?thesis using r by (simp add: keeps_def)
  next
    case null
    then show ?thesis using r by (simp add: keeps_def)
  next
    case (pat g1 m s2 g2 change s3 pat s4 pmt)
    have "keeps s s4"
      using keeps_trans [OF keeps_trans [OF keeps_change [OF pat(6)] keeps_psi(1) [OF pat(7)]] keeps_psi(2) [OF pat(8)]] .
    then show ?thesis
      using r pat(9) observe_psi_offset [OF pat(5)] program_change_offset [OF pat(6)] by auto
  next
    case (dropped g1 m s2 g2 change)
    then show ?thesis using r keeps_change [OF dropped(5)]
        observe_psi_offset [OF dropped(4)] program_change_offset [OF dropped(5)] by auto
  next
    case (forwarded g1 m s2 g2 change program role s3 g3 o')
    obtain s4 p2 where "set_counter s2 (g2\<lparr>sg_role_started := (sg_role_started g2)(role := True)\<rparr>) role
        (set_pid p (output_pid role)) = (s4, g3, p2)"
      using forward_packet_stages [OF forwarded(10)] by metis
    then have "sg_started g3 = sg_started g2" by (auto simp: set_counter_def Let_def)
    then show ?thesis
      using r forwarded(11) keeps_trans [OF keeps_change [OF forwarded(6)] keeps_forward [OF forwarded(10)]]
        observe_psi_offset [OF forwarded(5)] program_change_offset [OF forwarded(6)] by auto
  }
qed

lemma keeps_run: "run_packets s g ps = (s', g', out) \<Longrightarrow> keeps s s' \<and> sg_started g' = sg_started g"
proof (induction ps arbitrary: s g s' g' out)
  case (Cons p ps)
  then show ?case
    by (auto split: prod.splits) (metis keeps_running keeps_trans)+
qed (simp add: keeps_def)

lemma keeps_discontinuities: "discontinuities s rs = (s', out) \<Longrightarrow> keeps s s'"
proof (induction rs arbitrary: s s' out)
  case (Cons r rs)
  define s1 where "s1 = s\<lparr>mx_output_cc := (mx_output_cc s)(r := Some (unwrap_or (mx_output_cc s r) 0x0f))\<rparr>"
  have "\<exists>b. discontinuities s1 rs = (s', b)" using Cons.prems by (auto simp: s1_def Let_def split: prod.splits)
  then have "keeps s1 s'" using Cons.IH by blast
  then show ?case by (simp add: keeps_def s1_def)
qed (simp add: keeps_def)

lemma keeps_start: "start_segment s g = (s', g', out) \<Longrightarrow> keeps s s' \<and> sg_started g'"
  by (auto simp: start_segment_def Let_def write_pat_def write_pmt_def keeps_def
      dest!: keeps_discontinuities split: option.splits prod.splits if_splits)

lemma keeps_pending: "pending_packet s g p = (s', g', out) \<Longrightarrow> keeps s s'"
proof (cases rule: pending_packet_cases [of g s p])
  assume r: "pending_packet s g p = (s', g', out)"
  {
    case running
    then show ?thesis using r keeps_running [of s g p s' g' out] by auto
  next
    case (seeking g1)
    then show ?thesis using r by (simp add: keeps_def)
  next
    case (starting g1 s2 g2 a s3 g3 b)
    then show ?thesis using r keeps_start [OF starting(3)] keeps_running [OF starting(4)] by (auto simp: keeps_def)
  }
qed

lemma keeps_pendings:
  "pending_packets s g ps = (s', g', out) \<Longrightarrow> keeps s s'"
proof (induction ps arbitrary: s g s' g' out)
  case (Cons p ps)
  then show ?case
    by (auto split: prod.splits) (metis keeps_pending keeps_trans)
qed (simp add: keeps_def)

lemma push_current_slots:
  assumes "push_current s bs = (s', out)"
  shows "mx_pending s' = mx_pending s" "(mx_current s' = None) = (mx_current s = None)"
  using assms keeps_run
  by (fastforce simp: push_current_def keeps_def split: option.splits prod.splits)+

lemma push_pending_slots:
  assumes "push_pending s bs = (s', started, out)" "mx_pending s \<noteq> None"
  shows "if started then mx_pending s' = None \<and> mx_current s' \<noteq> None
    else mx_pending s' \<noteq> None \<and> mx_current s' = mx_current s"
proof -
  obtain g where g: "mx_pending s = Some g" using assms(2) by auto
  obtain s1 g1 o1 where p: "pending_packets (s\<lparr>mx_pending := None\<rparr>) g (chunks_exact MPEG_TS_PACKET_SIZE bs) = (s1, g1, o1)"
    by (metis prod_cases3)
  have "keeps (s\<lparr>mx_pending := None\<rparr>) s1" using keeps_pendings [OF p] .
  then show ?thesis using assms(1) g p by (auto simp: push_pending_def keeps_def split: if_splits)
qed

section \<open>Driver invariant\<close>

definition driver_inv :: "SlateDriver \<Rightarrow> bool" where
  "driver_inv self \<longleftrightarrow>
     (has_pending (sd_muxer self) \<longleftrightarrow> sd_incoming self \<noteq> None \<or> sd_live self = Splicing) \<and>
     (sd_incoming self \<noteq> None \<longrightarrow> sd_live self \<noteq> Splicing) \<and>
     (sd_active self \<noteq> None \<or> sd_live self = Live \<longrightarrow> mx_current (sd_muxer self) \<noteq> None) \<and>
     (sd_live self = Live \<longrightarrow> sd_active self = None \<and> sd_incoming self = None)"

lemma driver_inv_new: "live_state \<noteq> Splicing \<Longrightarrow> live_state \<noteq> Live \<Longrightarrow> driver_inv (driver_new target retry live_state)"
  by (simp add: driver_inv_def driver_new_def has_pending_def SpliceMuxer_new_def)

lemma muxer_slots [simp]:
  "has_pending (begin_pending m)" "\<not> has_pending (cancel_pending m)"
  "mx_current (begin_pending m) = mx_current m" "mx_current (cancel_pending m) = mx_current m"
  by (simp_all add: has_pending_def begin_pending_def cancel_pending_def)

lemma ensure_slate_cases:
  obtains (same) "ensure_slate start_slate ring now self = self"
    | (started) kind where "desired_slate self = Some kind" "sd_shown self \<noteq> Some kind"
      "ensure_slate start_slate ring now self = self\<lparr>sd_shown := Some kind, sd_last_slate_start := Some now,
         sd_muxer := begin_pending (sd_muxer self), sd_incoming := Some \<lparr>rn_kind = kind\<rparr>\<rparr>"
    | (broken) kind where "desired_slate self = Some kind" "sd_shown self \<noteq> Some kind"
      "ensure_slate start_slate ring now self = self\<lparr>sd_shown := Some kind, sd_last_slate_start := Some now,
         sd_muxer := cancel_pending (sd_muxer self), sd_incoming := None\<rparr>"
proof (cases "desired_slate self")
  case None
  then show thesis by (intro same) (simp add: ensure_slate_def)
next
  case (Some kind)
  let ?shown = "self\<lparr>sd_shown := Some kind, sd_last_slate_start := Some now\<rparr>"
  let ?result = "ensure_slate start_slate ring now self"
  show thesis
  proof (cases "sd_shown self = Some kind")
    case True
    then show thesis using Some by (intro same) (simp add: ensure_slate_def)
  next
    case False
    have "?result = self \<or> ?result = ?shown\<lparr>sd_muxer := begin_pending (sd_muxer self), sd_incoming := Some \<lparr>rn_kind = kind\<rparr>\<rparr>
      \<or> ?result = ?shown\<lparr>sd_muxer := cancel_pending (sd_muxer self), sd_incoming := None\<rparr>"
      using Some False by (simp add: ensure_slate_def Let_def)
    then show thesis using Some False same started [of kind] broken [of kind] by metis
  qed
qed

lemma desired_not_splicing:
  "desired_slate self = Some kind \<Longrightarrow> sd_shown self \<noteq> Some kind \<Longrightarrow> sd_live self \<noteq> Splicing \<and> sd_live self \<noteq> Live"
  by (auto simp: desired_slate_def)

lemma driver_inv_ensure: "driver_inv self \<Longrightarrow> driver_inv (ensure_slate start_slate ring now self)"
  using desired_not_splicing [of self]
  by (cases rule: ensure_slate_cases [of start_slate ring now self]) (auto simp: driver_inv_def)

lemma driver_inv_splice: "driver_inv self \<Longrightarrow> sd_live self \<noteq> Live \<Longrightarrow> driver_inv (begin_splice self)"
  by (auto simp: driver_inv_def begin_splice_def)

lemma driver_inv_fail: "driver_inv self \<Longrightarrow> driver_inv (fail_live failure now self)"
  by (auto simp: driver_inv_def fail_live_def Let_def split: prod.splits)

lemma driver_inv_tick: "driver_inv self \<Longrightarrow> driver_inv (on_tick ring now self)"
proof (cases "sd_live self")
  case (WaitingLive viewer since)
  then show "driver_inv self \<Longrightarrow> driver_inv (on_tick ring now self)"
    by (auto simp: on_tick_def driver_inv_splice driver_inv_fail split: Readiness.splits)
qed (auto simp: on_tick_def driver_inv_def)

lemma driver_inv_active:
  assumes "driver_inv self" "sd_active self \<noteq> None" "on_active_read read self = (self', out)"
  shows "driver_inv self'"
  using assms push_current_slots
  by (fastforce simp: on_active_read_def driver_inv_def has_pending_def split: sum.splits RingRead.splits prod.splits)

lemma driver_inv_incoming:
  assumes "driver_inv self" "sd_incoming self \<noteq> None" "on_incoming_read read self = (self', out)"
  shows "driver_inv self'"
proof -
  have pend: "mx_pending (sd_muxer self) \<noteq> None" using assms(1,2) by (simp add: driver_inv_def has_pending_def)
  show ?thesis
  proof (cases "\<exists>a b bs. read = Inr (Packets a b bs)")
    case True
    then obtain a b bs where r: "read = Inr (Packets a b bs)" by blast
    obtain m st o1 where p: "push_pending (sd_muxer self) bs = (m, st, o1)" by (metis prod_cases3)
    from push_pending_slots [OF p pend] show ?thesis
      using assms r p by (cases st) (auto simp: on_incoming_read_def driver_inv_def has_pending_def)
  next
    case False
    then show ?thesis using assms
      by (auto simp: on_incoming_read_def driver_inv_def split: sum.splits RingRead.splits)
  qed
qed

lemma driver_inv_live:
  assumes "driver_inv self" "event_possible self (LiveHappens event)" "on_live_event event ring now self = (self', out)"
  shows "driver_inv self'"
proof (cases event)
  case (Opened result)
  then show ?thesis using assms
    by (cases result)
      (auto simp: on_live_event_def driver_inv_splice driver_inv_fail split: Readiness.splits,
       auto simp: driver_inv_def)
next
  case (MediaBytes bs)
  show ?thesis
  proof (cases "sd_live self = Splicing")
    case True
    then have pend: "mx_pending (sd_muxer self) \<noteq> None" using assms(1) by (simp add: driver_inv_def has_pending_def)
    obtain m st o1 where p: "push_pending (sd_muxer self) bs = (m, st, o1)" by (metis prod_cases3)
    from push_pending_slots [OF p pend] show ?thesis
      using assms True MediaBytes p by (cases st) (auto simp: on_live_event_def driver_inv_def has_pending_def)
  next
    case False
    obtain m o1 where p: "push_current (sd_muxer self) bs = (m, o1)" by force
    then show ?thesis using assms False MediaBytes push_current_slots [OF p]
      by (auto simp: on_live_event_def driver_inv_def has_pending_def)
  qed
qed (use assms in \<open>auto simp: on_live_event_def driver_inv_fail split: if_splits\<close>, auto simp: driver_inv_def)

lemma driver_inv_step: "driver_step self event out self' \<Longrightarrow> driver_inv self \<Longrightarrow> driver_inv self'"
proof (induction rule: driver_step.induct)
  case (turn self ready start_slate ring now event ring' now' self' out)
  have r: "driver_inv ready" unfolding turn(2) by (rule driver_inv_ensure [OF turn.prems])
  show ?case
  proof (cases event)
    case (ActiveRead read)
    then show ?thesis using turn(3,4) r driver_inv_active [of ready read] by (simp add: on_event_def)
  next
    case (IncomingRead read)
    then show ?thesis using turn(3,4) r driver_inv_incoming [of ready read] by (simp add: on_event_def)
  next
    case (LiveHappens e)
    then show ?thesis using turn(3,4) r driver_inv_live [of ready e ring' now'] by (simp add: on_event_def)
  next
    case Tick
    then show ?thesis using turn(4) driver_inv_tick [OF r] by (auto simp: on_event_def)
  qed
qed

section \<open>Driver output\<close>

text \<open>Runs of the loop, with the events it saw and the bytes it sent.\<close>

inductive driver_runs :: "SlateDriver \<Rightarrow> DriverEvent list \<Rightarrow> bytes \<Rightarrow> SlateDriver \<Rightarrow> bool" where
  rest: "driver_runs self [] [] self"
| step: "\<lbrakk>driver_runs self events out self'; driver_step self' event out' self''\<rbrakk>
    \<Longrightarrow> driver_runs self (events @ [event]) (out @ out') self''"

lemma driver_runs_inv: "driver_runs self events out self' \<Longrightarrow> driver_inv self \<Longrightarrow> driver_inv self'"
  by (induction rule: driver_runs.induct) (auto intro: driver_inv_step)

lemma ensure_muxer:
  "\<exists>m. sd_muxer (ensure_slate start_slate ring now self) = m \<and>
     (m = sd_muxer self \<or> m = begin_pending (sd_muxer self) \<or> m = cancel_pending (sd_muxer self))"
  by (cases rule: ensure_slate_cases [of start_slate ring now self]) auto

definition quiet_muxer :: "SpliceMuxer \<Rightarrow> SpliceMuxer \<Rightarrow> bool" where
  "quiet_muxer m m' \<longleftrightarrow> m' = m \<or> m' = begin_pending m \<or> m' = cancel_pending m"

lemma quiet_emits: "quiet_muxer m m' \<Longrightarrow> cc_ok m \<Longrightarrow> emits m [] m' \<and> cc_ok m'"
  by (auto simp: quiet_muxer_def begin_pending_def cancel_pending_def cc_ok_def intro: emits_nil)

text \<open>A turn of the loop hands the muxer at most one chunk.\<close>

lemma on_event_muxer:
  assumes "on_event event ring now self = (self', out)"
  obtains (quiet) "quiet_muxer (sd_muxer self) (sd_muxer self')" "out = []"
    | (current) bs where "push_current (sd_muxer self) bs = (sd_muxer self', out)"
    | (pending) bs started where "push_pending (sd_muxer self) bs = (sd_muxer self', started, out)"
proof -
  have fl: "quiet_muxer (sd_muxer self) (sd_muxer (fail_live f now self))" for f
    by (auto simp: fail_live_def quiet_muxer_def Let_def split: prod.splits)
  have bs: "quiet_muxer (sd_muxer self) (sd_muxer (begin_splice self))"
    by (simp add: begin_splice_def quiet_muxer_def)
  have "(quiet_muxer (sd_muxer self) (sd_muxer self') \<and> out = []) \<or>
      (\<exists>bs. push_current (sd_muxer self) bs = (sd_muxer self', out)) \<or>
      (\<exists>bs started. push_pending (sd_muxer self) bs = (sd_muxer self', started, out))"
  proof (cases event)
    case (ActiveRead read)
    then show ?thesis using assms
      by (auto simp: on_event_def on_active_read_def quiet_muxer_def split: sum.splits RingRead.splits prod.splits)
  next
    case (IncomingRead read)
    then show ?thesis using assms
      by (auto simp: on_event_def on_incoming_read_def quiet_muxer_def Let_def
          split: sum.splits RingRead.splits prod.splits if_splits) 
  next
    case (LiveHappens e)
    then show ?thesis using assms fl bs
      by (cases e) (auto simp: on_event_def on_live_event_def Let_def quiet_muxer_def
          split: sum.splits Readiness.splits prod.splits if_splits)
  next
    case Tick
    then show ?thesis using assms fl bs
      by (auto simp: on_event_def on_tick_def quiet_muxer_def split: LiveState.splits Readiness.splits if_splits)
  qed
  then show thesis using quiet current pending by blast
qed

lemma driver_step_emits:
  assumes "driver_step self event out self'" "cc_ok (sd_muxer self)"
  shows "emits (sd_muxer self) out (sd_muxer self') \<and> cc_ok (sd_muxer self')"
  using assms
proof (induction rule: driver_step.induct)
  case (turn self ready start_slate ring now event ring' now' self' out)
  have "quiet_muxer (sd_muxer self) (sd_muxer ready)"
    unfolding turn(2) using ensure_muxer [of start_slate ring now self] by (auto simp: quiet_muxer_def)
  from quiet_emits [OF this turn.prems] have q: "emits (sd_muxer self) [] (sd_muxer ready)" "cc_ok (sd_muxer ready)" by auto
  have "emits (sd_muxer ready) out (sd_muxer self') \<and> cc_ok (sd_muxer self')"
    using turn(4)
  proof (cases rule: on_event_muxer)
    case quiet
    then show ?thesis using quiet_emits q(2) by blast
  next
    case (current bs)
    then show ?thesis using emits_push_current q(2) by blast
  next
    case (pending bs started)
    then show ?thesis using emits_push_pending q(2) by blast
  qed
  with emits_trans [OF q(1)] show ?case by fastforce
qed

lemma driver_runs_emits:
  "driver_runs self events out self' \<Longrightarrow> cc_ok (sd_muxer self) \<Longrightarrow>
     emits (sd_muxer self) out (sd_muxer self') \<and> cc_ok (sd_muxer self')"
proof (induction rule: driver_runs.induct)
  case (step self events out self' event out' self'')
  then show ?case using driver_step_emits emits_trans by blast
qed (simp add: emits_nil)

definition fresh_driver :: "duration \<Rightarrow> SlateDriver \<Rightarrow> bool" where
  "fresh_driver target d \<longleftrightarrow> sd_target d = target \<and> sd_muxer d = SpliceMuxer_new \<and>
     sd_live d \<noteq> Splicing \<and> sd_live d \<noteq> Live \<and> sd_active d = None \<and> sd_incoming d = None"

lemma fresh_driver_new [simp]:
  "fresh_driver target (driver_new target retry ls) \<longleftrightarrow> ls \<noteq> Splicing \<and> ls \<noteq> Live"
  by (simp add: fresh_driver_def driver_new_def)

lemma fresh_driver_start:
  assumes "fresh_driver target d"
  shows "driver_inv d" "cc_ok (sd_muxer d)"
  using assms by (simp_all add: fresh_driver_def driver_inv_def has_pending_def cc_ok_def SpliceMuxer_new_def)

lemma open_loop_slated:
  "open_loop target deadline viewer since retry turns = Some (Slated d) \<Longrightarrow> fresh_driver target d"
  by (induction turns) (auto split: Readiness.splits if_splits prod.splits)

lemma open_with_slates_slated:
  assumes "open_with_slates viewer_delay grace now first now' turns = Some (Slated d)"
  shows "fresh_driver (start_lead_target viewer_delay) d"
  using assms open_loop_slated
  by (auto simp: open_with_slates_def Let_def split: option.splits sum.splits if_splits prod.splits)

section \<open>A slate that cannot start\<close>

definition stuck_busy :: "SlateDriver \<Rightarrow> bool" where
  "stuck_busy self \<longleftrightarrow> sd_active self = None \<and> sd_incoming self = None \<and> sd_shown self = Some TunersBusy \<and>
     (sd_live self = Opening \<or> (\<exists>retry_at. sd_live self = IdleLive retry_at CapacityFailure))"

fun pool_full_event :: "DriverEvent \<Rightarrow> bool" where
  "pool_full_event (LiveHappens (Opened (Inl (ProviderError (AtCapacity _ _ _))))) = True"
| "pool_full_event (LiveHappens (Opened _)) = False"
| "pool_full_event _ = True"

lemma stuck_busy_step:
  assumes "driver_step self event out self'" "stuck_busy self" "pool_full_event event"
  shows "stuck_busy self' \<and> out = []"
  using assms
proof (induction rule: driver_step.induct)
  case (turn self ready start_slate ring now event ring' now' self' out)
  have d: "desired_slate self = Some TunersBusy"
    using turn.prems(1) by (auto simp: stuck_busy_def desired_slate_def)
  have r: "ready = self" using turn.prems(1) by (simp add: turn(2) ensure_slate_def d stuck_busy_def)
  show ?case
  proof (cases event)
    case (LiveHappens e)
    then obtain a b c where e: "e = Opened (Inl (ProviderError (AtCapacity a b c)))"
      using turn.prems turn(3) r
      by (cases e) (auto simp: stuck_busy_def elim!: pool_full_event.elims(2))
    then show ?thesis using turn(4) turn.prems(1) LiveHappens r turn(3)
      by (auto simp: on_event_def on_live_event_def fail_live_def stuck_busy_def next_delay_def)
  next
    case Tick
    then show ?thesis using turn(4) turn.prems(1) r
      by (auto simp: on_event_def on_tick_def stuck_busy_def split: if_splits)
  qed (use turn.prems turn(3) r in \<open>auto simp: stuck_busy_def\<close>)
qed

lemma stuck_busy_runs:
  "driver_runs self events out self' \<Longrightarrow> stuck_busy self \<Longrightarrow> list_all pool_full_event events \<Longrightarrow>
     stuck_busy self' \<and> out = []"
proof (induction rule: driver_runs.induct)
  case (step self events out self' event out' self'')
  then have "stuck_busy self' \<and> out = []" "pool_full_event event" by simp_all
  with stuck_busy_step [OF step.hyps(2)] show ?case by simp
qed simp

section \<open>Waiting and retrying\<close>

lemma readiness_decides:
  assumes "target \<le> SLATE_START_LEAD" "NO_MEDIA_LIMIT \<le> waited"
  shows "viewer_readiness target status waited \<noteq> ReadyWaiting remaining"
  using assms
  by (auto simp: viewer_readiness_def SLATE_START_LEAD_def NO_MEDIA_LIMIT_def LEAD_WAIT_LIMIT_def split: option.splits)

lemma next_delay_bounds:
  assumes "next_delay failure retry = (delay, retry')"
  shows "CAPACITY_RETRY_INTERVAL \<le> delay" "delay \<le> PROVIDER_RETRY_MAX"
proof -
  have "(1000000000::nat) \<le> 1000000000 * 2 ^ min (rs_provider_failures retry) 16" by simp
  then show "CAPACITY_RETRY_INTERVAL \<le> delay" "delay \<le> PROVIDER_RETRY_MAX"
    using assms by (auto simp: next_delay_def Let_def CAPACITY_RETRY_INTERVAL_def PROVIDER_RETRY_MAX_def
        PROVIDER_RETRY_INITIAL_def split: if_splits)
qed

lemma fail_live_retry:
  "\<exists>retry_at. sd_live (fail_live failure now self) = IdleLive retry_at failure \<and>
     now + CAPACITY_RETRY_INTERVAL \<le> retry_at \<and> retry_at \<le> now + PROVIDER_RETRY_MAX"
proof -
  obtain delay retry where d: "next_delay failure (sd_retry self) = (delay, retry)" by force
  then show ?thesis using next_delay_bounds [OF d] by (simp add: fail_live_def)
qed

lemma provider_failures_count:
  assumes "failure \<noteq> CapacityFailure" "n < 2 ^ 32"
  shows "rs_provider_failures (((\<lambda>r. snd (next_delay failure r)) ^^ n) RetrySchedule_default) = n"
  using assms(2)
proof (induction n)
  case (Suc n)
  then show ?case using assms(1) by (simp add: next_delay_def Let_def)
qed (simp add: RetrySchedule_default_def)

lemma open_loop_direct:
  "open_loop target deadline viewer since retry turns = Some (Direct v) \<Longrightarrow>
     v = viewer \<and> (\<exists>(ring, now) \<in> set turns. viewer_readiness target (startup_status ring viewer now) (now - since) = Ready)"
  by (induction turns) (auto split: Readiness.splits if_splits prod.splits)

lemma open_loop_not_failed: "open_loop target deadline viewer since retry turns \<noteq> Some (OpenFailed e)"
  by (induction turns) (auto split: Readiness.splits if_splits prod.splits)

lemma even_down_facts:
  "even (even_down n)" "n \<le> 4096 \<Longrightarrow> even_down n \<le> 4096" "128 \<le> n \<Longrightarrow> 128 \<le> even_down n"
  "96 \<le> n \<Longrightarrow> 96 \<le> even_down n" "n \<le> 2304 \<Longrightarrow> even_down n \<le> 2304"
  unfolding even_down_def by presburger+

lemma measured_size:
  "\<exists>w h. (sp_width (from_measured nearest m), sp_height (from_measured nearest m)) = (even_down w, even_down h) \<and>
     128 \<le> w \<and> w \<le> 4096 \<and> 96 \<le> h \<and> h \<le> 2304"
proof -
  have d: "(1280, 720) = (even_down 1280, even_down 720)" by (simp add: even_down_def)
  show ?thesis
  proof (cases "\<exists>w h. ms_video_width m = Some w \<and> ms_video_height m = Some h \<and>
      128 \<le> w \<and> w \<le> 4096 \<and> 96 \<le> h \<and> h \<le> 2304")
    case True
    then obtain w h where wh: "ms_video_width m = Some w" "ms_video_height m = Some h"
      "128 \<le> w" "w \<le> 4096" "96 \<le> h" "h \<le> 2304" by blast
    then show ?thesis
      by (intro exI [of _ "nat w"] exI [of _ "nat h"]) (simp add: from_measured_def Let_def nat_le_iff le_nat_iff)
  next
    case False
    then have "(case (ms_video_width m, ms_video_height m) of
              (Some width, Some height) \<Rightarrow>
                if 128 \<le> width \<and> width \<le> 4096 \<and> 96 \<le> height \<and> height \<le> 2304
                then (even_down (nat width), even_down (nat height))
                else (sp_width SlateProfile_default, sp_height SlateProfile_default)
            | _ \<Rightarrow> (sp_width SlateProfile_default, sp_height SlateProfile_default)) = (1280, 720)"
      by (auto simp: SlateProfile_default_def split: option.splits)
    then have "(sp_width (from_measured nearest m), sp_height (from_measured nearest m)) = (1280, 720)"
      by (simp add: from_measured_def Let_def)
    with d show ?thesis by (intro exI [of _ 1280] exI [of _ 720]) simp
  qed
qed

lemma measured_audio:
  "sp_audio_channels (from_measured nearest m) \<in> {1, 2, 6}"
  "\<not> (sp_audio (from_measured nearest m) = Mp2 \<and> sp_audio_channels (from_measured nearest m) = 6)"
  "sp_sample_rate (from_measured nearest m) \<in> {32000, 44100, 48000}"
  unfolding from_measured_def Let_def case_prod_beta
  by (simp_all add: SlateProfile_default_def split: option.split)

section \<open>A full pool\<close>

lemma busy_open:
  "open_with_slates 0 0 0 (Some (Inl (ProviderError (AtCapacity ''p'' 1 1)))) 0 [] =
     Some (Slated (driver_new 0 RetrySchedule_default (IdleLive 500000000 CapacityFailure)))"
  by (simp add: open_with_slates_def Let_def start_lead_target_def next_delay_def CAPACITY_RETRY_INTERVAL_def)

definition busy_slated :: SlateDriver where
  "busy_slated = driver_new 0 RetrySchedule_default (IdleLive 500000000 CapacityFailure)"

definition busy_shown :: SlateDriver where
  "busy_shown = ensure_slate (\<lambda>_ _. True) sample_ring 1 busy_slated"

lemma busy_shown_eq: "busy_shown = busy_slated\<lparr>sd_muxer := begin_pending SpliceMuxer_new,
    sd_incoming := Some \<lparr>rn_kind = TunersBusy\<rparr>, sd_shown := Some TunersBusy, sd_last_slate_start := Some 1\<rparr>"
  by (simp add: busy_shown_def busy_slated_def driver_new_def ensure_slate_def desired_slate_def Let_def)

lemma busy_run: "driver_runs busy_slated [Tick] [] busy_shown"
proof -
  have "driver_step busy_slated Tick [] busy_shown"
  proof (rule driver_step.turn)
    show "\<not> sd_finished busy_slated" by (simp add: busy_slated_def driver_new_def)
    show "busy_shown = ensure_slate (\<lambda>_ _. True) sample_ring 1 busy_slated" by (fact busy_shown_def)
    show "on_event Tick sample_ring 2 busy_shown = (busy_shown, [])"
      by (simp add: on_event_def on_tick_def busy_shown_eq busy_slated_def driver_new_def)
  qed simp
  from driver_runs.step [OF driver_runs.rest this] show ?thesis by simp
qed

definition stuck_driver :: SlateDriver where
  "stuck_driver = ensure_slate (\<lambda>_ _. False) sample_ring 1 busy_slated"

lemma stuck_driver_run: "driver_runs stuck_driver [Tick] [] stuck_driver"
proof -
  have e: "stuck_driver = busy_slated\<lparr>sd_muxer := cancel_pending SpliceMuxer_new, sd_incoming := None,
      sd_shown := Some TunersBusy, sd_last_slate_start := Some 1\<rparr>"
    by (simp add: stuck_driver_def busy_slated_def driver_new_def ensure_slate_def desired_slate_def Let_def)
  have "driver_step stuck_driver Tick [] stuck_driver"
  proof (rule driver_step.turn)
    show "\<not> sd_finished stuck_driver" by (simp add: e busy_slated_def driver_new_def)
    show "stuck_driver = ensure_slate (\<lambda>_ _. True) sample_ring 100 stuck_driver"
      by (simp add: e busy_slated_def driver_new_def ensure_slate_def desired_slate_def)
    show "on_event Tick sample_ring 200 stuck_driver = (stuck_driver, [])"
      by (simp add: on_event_def on_tick_def e busy_slated_def driver_new_def)
  qed simp
  from driver_runs.step [OF driver_runs.rest this] show ?thesis by simp
qed

section \<open>Properties\<close>

text \<open>
  the bytes of a response that starts with a slate are one transport stream, whatever the slate
  processes, the live session and the retries do: whole packets with a sync byte on the fixed PIDs.
\<close>

theorem slated_response_is_one_program:
  assumes "open_with_slates viewer_delay grace now first now' turns = Some (Slated d)"
    and "driver_runs d events out d'"
  shows "output_stream out"
proof -
  have "cc_ok (sd_muxer d)" using open_with_slates_slated [OF assms(1)] by (rule fresh_driver_start)
  with driver_runs_emits [OF assms(2)] show ?thesis by (simp add: emits_def)
qed

theorem slated_response_is_one_program_witness: "output_stream []"
  using slated_response_is_one_program [OF busy_open busy_run [unfolded busy_slated_def]] .

text \<open>
  C10: in every state the driver reaches, the muxer waits for a new segment exactly when a new slate or
  the live stream feeds it, never both; and whenever a shown slate or the live stream delivers packets
  the muxer has a current segment to take them, so none are dropped for want of one.
\<close>

theorem segment_has_one_feeder:
  assumes "open_with_slates viewer_delay grace now first now' turns = Some (Slated d)"
    and "driver_runs d events out d'"
  shows "(has_pending (sd_muxer d') \<longleftrightarrow> sd_incoming d' \<noteq> None \<or> sd_live d' = Splicing) \<and>
    \<not> (sd_incoming d' \<noteq> None \<and> sd_live d' = Splicing) \<and>
    \<not> (sd_active d' \<noteq> None \<and> sd_live d' = Live) \<and>
    (sd_active d' \<noteq> None \<or> sd_live d' = Live \<longrightarrow> mx_current (sd_muxer d') \<noteq> None)"
proof -
  have "driver_inv d" using open_with_slates_slated [OF assms(1)] by (rule fresh_driver_start)
  from driver_runs_inv [OF assms(2) this] show ?thesis by (auto simp: driver_inv_def)
qed

theorem segment_has_one_feeder_witness:
  "has_pending (sd_muxer busy_shown) \<and> sd_live busy_shown \<noteq> Splicing"
proof -
  have "sd_incoming busy_shown \<noteq> None" by (simp add: busy_shown_eq)
  then show ?thesis
    using segment_has_one_feeder [OF busy_open busy_run [unfolded busy_slated_def]] by blast
qed

text \<open>
  when FFmpeg cannot be started for the first slate while the pool is full, the driver sends no
  byte for as long as the pool stays full, even if FFmpeg could be started later: the kind stays recorded
  as shown, so \<open>ensure_slate\<close> never tries again.
\<close>

theorem failed_slate_is_never_restarted:
  assumes "fresh_driver target d" "sd_shown d = None" "sd_last_slate_start d = None"
    and "sd_live d = IdleLive retry_at CapacityFailure"
    and "\<not> start_slate TunersBusy (countdown d ring now)"
    and "driver_runs (ensure_slate start_slate ring now d) events out d'" "list_all pool_full_event events"
  shows "out = [] \<and> sd_incoming d' = None \<and> sd_active d' = None"
proof -
  have c: "countdown (d\<lparr>sd_shown := x, sd_last_slate_start := y\<rparr>) ring now = countdown d ring now" for x y
    using assms(4) by (simp add: countdown_def)
  have "stuck_busy (ensure_slate start_slate ring now d)"
    using assms(1-5) by (simp add: ensure_slate_def desired_slate_def stuck_busy_def fresh_driver_def Let_def c)
  from stuck_busy_runs [OF assms(6) this assms(7)] show ?thesis by (simp add: stuck_busy_def)
qed

theorem failed_slate_is_never_restarted_witness:
  "sd_incoming stuck_driver = None \<and> sd_active stuck_driver = None"
proof -
  have "fresh_driver 0 busy_slated" "sd_shown busy_slated = None" "sd_last_slate_start busy_slated = None"
    "sd_live busy_slated = IdleLive 500000000 CapacityFailure"
    by (simp_all add: busy_slated_def) (simp_all add: driver_new_def)
  from failed_slate_is_never_restarted [OF this, of "\<lambda>_ _. False" sample_ring 1 "[Tick]" "[]" stuck_driver]
    stuck_driver_run show ?thesis by (simp add: stuck_driver_def)
qed

text \<open>
  the driver is never stuck waiting: a tick 30 seconds after a viewer opened, or once the retry
  time has come, leaves the state for a new attempt, for the splice, or for a retry in at least half a
  second and at most 30 seconds.
\<close>

theorem driver_tick_makes_progress:
  assumes "sd_target self \<le> SLATE_START_LEAD"
    and "case sd_live self of WaitingLive viewer since \<Rightarrow> since + NO_MEDIA_LIMIT \<le> now
       | IdleLive retry_at failure \<Rightarrow> retry_at \<le> now | _ \<Rightarrow> False"
  shows "sd_live (on_tick ring now self) = Opening \<or> sd_live (on_tick ring now self) = Splicing \<or>
    (\<exists>retry_at. sd_live (on_tick ring now self) = IdleLive retry_at ProviderFailure \<and>
       now + CAPACITY_RETRY_INTERVAL \<le> retry_at \<and> retry_at \<le> now + PROVIDER_RETRY_MAX)"
proof (cases "sd_live self")
  case (WaitingLive viewer since)
  have "NO_MEDIA_LIMIT \<le> now - since" using assms(2) WaitingLive by simp
  note r = readiness_decides [OF assms(1) this]
  show ?thesis using fail_live_retry [of ProviderFailure now self] r
    by (auto simp: on_tick_def WaitingLive begin_splice_def split: Readiness.splits)
qed (use assms(2) in \<open>auto simp: on_tick_def\<close>)

theorem driver_tick_makes_progress_witness:
  "sd_live (on_tick sample_ring 600000000 busy_slated) = Opening \<or>
   sd_live (on_tick sample_ring 600000000 busy_slated) = Splicing \<or>
   (\<exists>retry_at. sd_live (on_tick sample_ring 600000000 busy_slated) = IdleLive retry_at ProviderFailure \<and>
      600000000 + CAPACITY_RETRY_INTERVAL \<le> retry_at \<and> retry_at \<le> 600000000 + PROVIDER_RETRY_MAX)"
  by (rule driver_tick_makes_progress) (simp_all add: busy_slated_def driver_new_def SLATE_START_LEAD_def)

text \<open>
  after \<open>n\<close> provider failures in a row the next delay is \<open>2 ^ n\<close> seconds, at most 30.
\<close>

theorem provider_backoff_doubles:
  assumes "failure \<noteq> CapacityFailure" "n < 2 ^ 32"
  shows "fst (next_delay failure (((\<lambda>r. snd (next_delay failure r)) ^^ n) RetrySchedule_default)) =
    min (PROVIDER_RETRY_INITIAL * 2 ^ n) PROVIDER_RETRY_MAX"
proof -
  have "min (PROVIDER_RETRY_INITIAL * 2 ^ min n 16) PROVIDER_RETRY_MAX = min (PROVIDER_RETRY_INITIAL * 2 ^ n) PROVIDER_RETRY_MAX"
  proof (cases "n \<le> 16")
    case False
    then have "(2::nat) ^ 16 \<le> 2 ^ n" by (intro power_increasing) simp_all
    then have "PROVIDER_RETRY_MAX \<le> PROVIDER_RETRY_INITIAL * 2 ^ n"
      by (simp add: PROVIDER_RETRY_MAX_def PROVIDER_RETRY_INITIAL_def)
    with False show ?thesis by (simp add: PROVIDER_RETRY_MAX_def PROVIDER_RETRY_INITIAL_def)
  qed simp
  then show ?thesis using assms(1) provider_failures_count [OF assms] by (simp add: next_delay_def Let_def)
qed

theorem provider_backoff_doubles_witness:
  "fst (next_delay ProviderFailure (((\<lambda>r. snd (next_delay ProviderFailure r)) ^^ 3) RetrySchedule_default)) =
     8000000000"
  using provider_backoff_doubles [of ProviderFailure 3] by (simp add: PROVIDER_RETRY_INITIAL_def PROVIDER_RETRY_MAX_def)

text \<open>
  \<open>open_with_slates\<close> reports an error to the client exactly when the first attempt failed with a
  configuration error; a full pool or a provider problem never does.
\<close>

theorem open_fails_on_configuration_only:
  "open_with_slates viewer_delay grace now first now' turns = Some (OpenFailed e) \<longleftrightarrow>
     first = Some (Inl e) \<and> classify e = ConfigurationFailure"
  using open_loop_not_failed
  by (auto simp: open_with_slates_def Let_def split: option.splits sum.splits if_splits prod.splits)

text \<open>
  C26: whatever was measured, a slate has even dimensions within the encoder limits, one, two or six
  channels (never six with MP2) and a supported sample rate.
\<close>

theorem profile_is_encodable:
  "even (sp_width (from_measured nearest m)) \<and> even (sp_height (from_measured nearest m)) \<and>
   128 \<le> sp_width (from_measured nearest m) \<and> sp_width (from_measured nearest m) \<le> 4096 \<and>
   96 \<le> sp_height (from_measured nearest m) \<and> sp_height (from_measured nearest m) \<le> 2304 \<and>
   sp_audio_channels (from_measured nearest m) \<in> {1, 2, 6} \<and>
   \<not> (sp_audio (from_measured nearest m) = Mp2 \<and> sp_audio_channels (from_measured nearest m) = 6) \<and>
   sp_sample_rate (from_measured nearest m) \<in> {32000, 44100, 48000}"
  using measured_size [of nearest m] measured_audio [of nearest m] by (auto simp: even_down_facts)

end
