(* ===== verification/Registry.thy ===== *)
theory Registry
  imports Prelude
begin

text \<open>
  Single-flight sessions (\<open>crates/media/src/registry.rs\<close>).

  A world holds the map from keys to entries, the entries (named by an address, so that
  \<open>Arc::ptr_eq\<close> is equality), the sessions with their strong counts, and the tasks that run
  \<open>get_or_try_init\<close>.  A task is cut at its await points and at the locks it takes, so the steps of
  different tasks interleave exactly where the code lets them; dropping a future (cancellation) is a
  step of its own, with the effect of \<open>InitializerGuard::drop\<close>.  The initializer's result is an
  argument of the step that ends it.

  Main results: without \<open>prune\<close>, at most one task initializes a key; while an entry is
  \<open>Starting\<close> its initializer is running; a sleeping task waits for a running initializer or has
  been notified; the initializer of a caller is consumed once; a caller only ever gets a session of
  its own key.  \<open>prune\<close> breaks the first of these.
\<close>

section \<open>State\<close>

datatype EntryState = Starting | Ready nat | Failed string | Cancelled

record SessionEntry =
  se_key :: string
  se_state :: EntryState
  se_changed :: nat

datatype Phase =
    Looping
  | Enabled nat
  | Sleeping nat
  | Initializing
  | Removing string
  | Returned "string + nat"
  | Panicked

record Task =
  tk_key :: string
  tk_entry :: nat
  tk_initialize :: bool
  tk_phase :: Phase

record Registry =
  rg_map :: "string \<Rightarrow> nat option"
  rg_entries :: "nat \<Rightarrow> SessionEntry option"
  rg_next :: nat
  rg_session_key :: "nat \<Rightarrow> string option"
  rg_strong :: "nat \<Rightarrow> nat"
  rg_next_session :: nat
  rg_tasks :: "nat \<Rightarrow> Task option"

definition registry_new :: Registry where
  "registry_new = \<lparr>rg_map = (\<lambda>_. None), rg_entries = (\<lambda>_. None), rg_next = 0,
     rg_session_key = (\<lambda>_. None), rg_strong = (\<lambda>_. 0), rg_next_session = 0,
     rg_tasks = (\<lambda>_. None)\<rparr>"

section \<open>Operations\<close>

text \<open>\<open>*entry.state.lock() = s\<close> with or without \<open>notify_waiters\<close>.\<close>

definition set_state :: "Registry \<Rightarrow> nat \<Rightarrow> EntryState \<Rightarrow> bool \<Rightarrow> Registry" where
  "set_state self e s notify =
     (case rg_entries self e of
        None \<Rightarrow> self
      | Some entry \<Rightarrow> self\<lparr>rg_entries := (rg_entries self)(e \<mapsto>
          entry\<lparr>se_state := s,
            se_changed := (if notify then Suc (se_changed entry) else se_changed entry)\<rparr>)\<rparr>)"

definition set_phase :: "Registry \<Rightarrow> nat \<Rightarrow> Phase \<Rightarrow> Registry" where
  "set_phase self t p =
     (case rg_tasks self t of
        None \<Rightarrow> self
      | Some task \<Rightarrow> self\<lparr>rg_tasks := (rg_tasks self)(t \<mapsto> task\<lparr>tk_phase := p\<rparr>)\<rparr>)"

text \<open>\<open>initialize.take().expect(..)()\<close> at the head of the loop in role \<open>Initialize\<close>.\<close>

definition begin_initialize :: "Registry \<Rightarrow> nat \<Rightarrow> Registry" where
  "begin_initialize self t =
     (case rg_tasks self t of
        None \<Rightarrow> self
      | Some task \<Rightarrow>
          if tk_initialize task
          then self\<lparr>rg_tasks := (rg_tasks self)(t \<mapsto>
                 task\<lparr>tk_initialize := False, tk_phase := Initializing\<rparr>)\<rparr>
          else set_phase self t Panicked)"

definition registry_get :: "Registry \<Rightarrow> string \<Rightarrow> nat option" where
  "registry_get self key =
     (case rg_map self key of
        None \<Rightarrow> None
      | Some e \<Rightarrow>
          (case rg_entries self e of
             None \<Rightarrow> None
           | Some entry \<Rightarrow>
               (case se_state entry of
                  Ready session \<Rightarrow> if rg_strong self session > 0 then Some session else None
                | _ \<Rightarrow> None)))"

text \<open>The call of \<open>get_or_try_init\<close> up to the loop: find or insert the entry.\<close>

definition enter :: "Registry \<Rightarrow> nat \<Rightarrow> string \<Rightarrow> Registry" where
  "enter self t key =
     (case rg_map self key of
        Some e \<Rightarrow>
          self\<lparr>rg_tasks := (rg_tasks self)(t \<mapsto>
            \<lparr>tk_key = key, tk_entry = e, tk_initialize = True, tk_phase = Looping\<rparr>)\<rparr>
      | None \<Rightarrow>
          let e = rg_next self;
              self = self\<lparr>rg_map := (rg_map self)(key \<mapsto> e),
                rg_entries := (rg_entries self)(e \<mapsto>
                  \<lparr>se_key = key, se_state = Starting, se_changed = 0\<rparr>),
                rg_next := Suc e,
                rg_tasks := (rg_tasks self)(t \<mapsto>
                  \<lparr>tk_key = key, tk_entry = e, tk_initialize = True, tk_phase = Looping\<rparr>)\<rparr>
          in begin_initialize self t)"

text \<open>\<open>changed.enable()\<close>: from here on the task is woken by a notification.\<close>

definition enable :: "Registry \<Rightarrow> nat \<Rightarrow> Registry" where
  "enable self t =
     (case rg_tasks self t of
        Some task \<Rightarrow>
          (case (tk_phase task, rg_entries self (tk_entry task)) of
             (Looping, Some entry) \<Rightarrow> set_phase self t (Enabled (se_changed entry))
           | _ \<Rightarrow> self)
      | None \<Rightarrow> self)"

text \<open>The match on the state under the entry's lock.\<close>

definition check :: "Registry \<Rightarrow> nat \<Rightarrow> Registry" where
  "check self t =
     (case rg_tasks self t of
        Some task \<Rightarrow>
          let e = tk_entry task in
          (case (tk_phase task, rg_entries self e) of
             (Enabled token, Some entry) \<Rightarrow>
               (case se_state entry of
                  Starting \<Rightarrow> set_phase self t (Sleeping token)
                | Ready session \<Rightarrow>
                    if rg_strong self session > 0
                    then set_phase (self\<lparr>rg_strong := (rg_strong self)
                           (session := Suc (rg_strong self session))\<rparr>) t (Returned (Inr session))
                    else begin_initialize (set_state self e Starting False) t
                | Failed error \<Rightarrow> set_phase self t (Returned (Inl error))
                | Cancelled \<Rightarrow> begin_initialize (set_state self e Starting False) t)
           | _ \<Rightarrow> self)
      | None \<Rightarrow> self)"

definition wake :: "Registry \<Rightarrow> nat \<Rightarrow> Registry" where
  "wake self t =
     (case rg_tasks self t of
        Some task \<Rightarrow>
          (case (tk_phase task, rg_entries self (tk_entry task)) of
             (Sleeping token, Some entry) \<Rightarrow>
               if se_changed entry \<noteq> token then set_phase self t Looping else self
           | _ \<Rightarrow> self)
      | None \<Rightarrow> self)"

definition finish_ok :: "Registry \<Rightarrow> nat \<Rightarrow> Registry" where
  "finish_ok self t =
     (case rg_tasks self t of
        Some task \<Rightarrow>
          if tk_phase task = Initializing
          then let session = rg_next_session self;
                   self = set_state self (tk_entry task) (Ready session) True
               in set_phase (self\<lparr>rg_session_key := (rg_session_key self)(session \<mapsto> tk_key task),
                    rg_strong := (rg_strong self)(session := 1),
                    rg_next_session := Suc session\<rparr>) t (Returned (Inr session))
          else self
      | None \<Rightarrow> self)"

definition finish_err :: "Registry \<Rightarrow> nat \<Rightarrow> string \<Rightarrow> Registry" where
  "finish_err self t error =
     (case rg_tasks self t of
        Some task \<Rightarrow>
          if tk_phase task = Initializing
          then set_phase (set_state self (tk_entry task) (Failed error) True) t (Removing error)
          else self
      | None \<Rightarrow> self)"

definition remove_entry_if_same :: "Registry \<Rightarrow> string \<Rightarrow> nat \<Rightarrow> Registry" where
  "remove_entry_if_same self key expected =
     (if rg_map self key = Some expected then self\<lparr>rg_map := (rg_map self)(key := None)\<rparr> else self)"

definition finish_remove :: "Registry \<Rightarrow> nat \<Rightarrow> Registry" where
  "finish_remove self t =
     (case rg_tasks self t of
        Some task \<Rightarrow>
          (case tk_phase task of
             Removing error \<Rightarrow>
               set_phase (remove_entry_if_same self (tk_key task) (tk_entry task)) t
                 (Returned (Inl error))
           | _ \<Rightarrow> self)
      | None \<Rightarrow> self)"

text \<open>
  Dropping the future.  It can happen only at an await point: while initializing, where
  \<open>InitializerGuard::drop\<close> marks the entry, or while asleep.
\<close>

definition cancel :: "Registry \<Rightarrow> nat \<Rightarrow> Registry" where
  "cancel self t =
     (case rg_tasks self t of
        Some task \<Rightarrow>
          let gone = (\<lambda>self. self\<lparr>rg_tasks := (rg_tasks self)(t := None)\<rparr>) in
          (case tk_phase task of
             Initializing \<Rightarrow>
               gone (if map_option se_state (rg_entries self (tk_entry task)) = Some Starting
                     then set_state self (tk_entry task) Cancelled True else self)
           | Sleeping token \<Rightarrow> gone self
           | _ \<Rightarrow> self)
      | None \<Rightarrow> self)"

definition drop_session :: "Registry \<Rightarrow> nat \<Rightarrow> Registry" where
  "drop_session self session =
     self\<lparr>rg_strong := (rg_strong self)(session := rg_strong self session - 1)\<rparr>"

definition prune_keeps :: "Registry \<Rightarrow> nat \<Rightarrow> bool" where
  "prune_keeps self e =
     (case rg_entries self e of
        None \<Rightarrow> False
      | Some entry \<Rightarrow>
          (case se_state entry of
             Ready session \<Rightarrow> rg_strong self session > 0
           | Starting \<Rightarrow> True
           | _ \<Rightarrow> False))"

definition prune :: "Registry \<Rightarrow> Registry" where
  "prune self = self\<lparr>rg_map := (\<lambda>key. case rg_map self key of
     None \<Rightarrow> None
   | Some e \<Rightarrow> if prune_keeps self e then Some e else None)\<rparr>"

section \<open>Interleavings\<close>

inductive reg_step :: "Registry \<Rightarrow> Registry \<Rightarrow> bool" where
  reg_enter: "rg_tasks r t = None \<Longrightarrow> reg_step r (enter r t key)"
| reg_enable: "reg_step r (enable r t)"
| reg_check: "reg_step r (check r t)"
| reg_wake: "reg_step r (wake r t)"
| reg_ok: "reg_step r (finish_ok r t)"
| reg_err: "reg_step r (finish_err r t error)"
| reg_remove: "reg_step r (finish_remove r t)"
| reg_cancel: "reg_step r (cancel r t)"
| reg_drop: "reg_step r (drop_session r session)"

text \<open>The steps of the program, and the steps with \<open>prune\<close> among them.\<close>

abbreviation reg_reach :: "Registry \<Rightarrow> bool" where
  "reg_reach r \<equiv> reg_step\<^sup>*\<^sup>* registry_new r"

inductive reg_prune_step :: "Registry \<Rightarrow> Registry \<Rightarrow> bool" where
  rp_step: "reg_step r r' \<Longrightarrow> reg_prune_step r r'"
| rp_prune: "reg_prune_step r (prune r)"

section \<open>Invariants\<close>

definition phase_on :: "Registry \<Rightarrow> nat \<Rightarrow> nat \<Rightarrow> Phase \<Rightarrow> bool" where
  "phase_on r t e p \<longleftrightarrow> (\<exists>task. rg_tasks r t = Some task \<and> tk_entry task = e \<and> tk_phase task = p)"

definition heap_inv :: "Registry \<Rightarrow> bool" where
  "heap_inv r \<longleftrightarrow>
     (\<forall>e. rg_entries r e \<noteq> None \<longleftrightarrow> e < rg_next r) \<and>
     (\<forall>k e. rg_map r k = Some e \<longrightarrow> (\<exists>entry. rg_entries r e = Some entry \<and> se_key entry = k)) \<and>
     (\<forall>t task. rg_tasks r t = Some task \<longrightarrow>
        (\<exists>entry. rg_entries r (tk_entry task) = Some entry \<and> se_key entry = tk_key task))"

text \<open>An entry is \<open>Starting\<close> exactly while one task initializes it.\<close>

definition flight_inv :: "Registry \<Rightarrow> bool" where
  "flight_inv r \<longleftrightarrow> (\<forall>e entry. rg_entries r e = Some entry \<longrightarrow>
     (if se_state entry = Starting then \<exists>!t. phase_on r t e Initializing
      else \<forall>t. \<not> phase_on r t e Initializing))"

definition wait_inv :: "Registry \<Rightarrow> bool" where
  "wait_inv r \<longleftrightarrow> (\<forall>t e token entry. rg_entries r e = Some entry \<longrightarrow>
     (phase_on r t e (Enabled token) \<longrightarrow> token \<le> se_changed entry) \<and>
     (phase_on r t e (Sleeping token) \<longrightarrow> token \<le> se_changed entry \<and>
        (token = se_changed entry \<longrightarrow> se_state entry = Starting)))"

definition task_ok :: "Registry \<Rightarrow> Task \<Rightarrow> bool" where
  "task_ok r task \<longleftrightarrow> (case tk_phase task of
      Panicked \<Rightarrow> False
    | Initializing \<Rightarrow> True
    | Removing error \<Rightarrow> map_option se_state (rg_entries r (tk_entry task)) = Some (Failed error)
    | Returned (Inr s) \<Rightarrow> rg_session_key r s = Some (tk_key task)
    | Returned (Inl error) \<Rightarrow> True
    | _ \<Rightarrow> tk_initialize task)"

definition task_inv :: "Registry \<Rightarrow> bool" where
  "task_inv r \<longleftrightarrow> (\<forall>t task. rg_tasks r t = Some task \<longrightarrow> task_ok r task)"

definition session_inv :: "Registry \<Rightarrow> bool" where
  "session_inv r \<longleftrightarrow>
     (\<forall>s. rg_session_key r s \<noteq> None \<longrightarrow> s < rg_next_session r) \<and>
     (\<forall>e entry s. rg_entries r e = Some entry \<longrightarrow> se_state entry = Ready s \<longrightarrow>
        rg_session_key r s = Some (se_key entry))"

definition reg_core :: "Registry \<Rightarrow> bool" where
  "reg_core r \<longleftrightarrow> heap_inv r \<and> flight_inv r \<and> wait_inv r \<and> task_inv r \<and> session_inv r"

text \<open>Without \<open>prune\<close>, every entry that has not failed is the one the map has for its key.\<close>

definition mapped_inv :: "Registry \<Rightarrow> bool" where
  "mapped_inv r \<longleftrightarrow> (\<forall>e entry. rg_entries r e = Some entry \<longrightarrow>
     (\<forall>error. se_state entry \<noteq> Failed error) \<longrightarrow> rg_map r (se_key entry) = Some e)"

subsection \<open>The shape of a step\<close>

text \<open>
  Every step of a task on its entry replaces the task and the entry; \<open>reg_update\<close> collects what
  the steps have in common, and each invariant is shown once for it.
\<close>

definition flight_ok :: "bool \<Rightarrow> bool \<Rightarrow> bool \<Rightarrow> bool \<Rightarrow> bool" where
  "flight_ok init init' starting starting' \<longleftrightarrow>
     (if init = init' then starting' = starting
      else starting = init \<and> starting' = init')"

definition phase_ok :: "(nat \<Rightarrow> string option) \<Rightarrow> SessionEntry \<Rightarrow> Task \<Rightarrow> bool" where
  "phase_ok session_key entry x \<longleftrightarrow> (case tk_phase x of
      Panicked \<Rightarrow> False
    | Initializing \<Rightarrow> True
    | Removing error \<Rightarrow> se_state entry = Failed error
    | Returned (Inr s) \<Rightarrow> session_key s = Some (tk_key x)
    | Returned (Inl error) \<Rightarrow> True
    | Looping \<Rightarrow> tk_initialize x
    | Enabled token \<Rightarrow> tk_initialize x \<and> token \<le> se_changed entry
    | Sleeping token \<Rightarrow> tk_initialize x \<and> token \<le> se_changed entry \<and>
        (token = se_changed entry \<longrightarrow> se_state entry = Starting))"

definition reg_update ::
    "Registry \<Rightarrow> Registry \<Rightarrow> nat \<Rightarrow> Task \<Rightarrow> Task option \<Rightarrow> SessionEntry \<Rightarrow> SessionEntry \<Rightarrow> bool" where
  "reg_update r r' t task task' entry entry' \<longleftrightarrow>
     rg_tasks r t = Some task \<and> rg_entries r (tk_entry task) = Some entry \<and>
     rg_tasks r' = (rg_tasks r)(t := task') \<and>
     rg_entries r' = (rg_entries r)(tk_entry task \<mapsto> entry') \<and> rg_next r' = rg_next r \<and>
     se_key entry' = se_key entry \<and> se_changed entry \<le> se_changed entry' \<and>
     (se_changed entry' = se_changed entry \<longrightarrow> se_state entry = Starting \<longrightarrow> se_state entry' = Starting) \<and>
     (\<forall>error. se_state entry = Failed error \<longrightarrow> se_state entry' = Failed error) \<and>
     flight_ok (tk_phase task = Initializing)
       (map_option tk_phase task' = Some Initializing)
       (se_state entry = Starting) (se_state entry' = Starting) \<and>
     (\<forall>x. task' = Some x \<longrightarrow> tk_key x = tk_key task \<and> tk_entry x = tk_entry task \<and>
        phase_ok (rg_session_key r') entry' x) \<and>
     (rg_map r' = rg_map r \<or>
      (\<exists>error. rg_map r' = (rg_map r)(tk_key task := None) \<and> rg_map r (tk_key task) = Some (tk_entry task) \<and>
         se_state entry' = Failed error)) \<and>
     rg_next_session r \<le> rg_next_session r' \<and>
     (\<forall>s k. rg_session_key r s = Some k \<longrightarrow> rg_session_key r' s = Some k) \<and>
     (\<forall>s. rg_session_key r' s \<noteq> None \<longrightarrow> s < rg_next_session r') \<and>
     (\<forall>s. se_state entry' = Ready s \<longrightarrow> rg_session_key r' s = Some (se_key entry'))"

lemma reg_updateD:
  assumes "reg_update r r' t task task' entry entry'"
  shows "rg_tasks r t = Some task" "rg_entries r (tk_entry task) = Some entry"
    "rg_tasks r' = (rg_tasks r)(t := task')" "rg_entries r' = (rg_entries r)(tk_entry task \<mapsto> entry')"
    "rg_next r' = rg_next r" "se_key entry' = se_key entry"
    "\<And>k e. rg_map r' k = Some e \<Longrightarrow> rg_map r k = Some e"
    "\<And>x. task' = Some x \<Longrightarrow> tk_key x = tk_key task \<and> tk_entry x = tk_entry task"
    "flight_ok (tk_phase task = Initializing) (map_option tk_phase task' = Some Initializing)
       (se_state entry = Starting) (se_state entry' = Starting)"
    "se_changed entry \<le> se_changed entry'"
    "se_changed entry' = se_changed entry \<Longrightarrow> se_state entry = Starting \<Longrightarrow> se_state entry' = Starting"
    "\<And>x. task' = Some x \<Longrightarrow> phase_ok (rg_session_key r') entry' x"
    "\<And>error. se_state entry = Failed error \<Longrightarrow> se_state entry' = Failed error"
  using assms unfolding reg_update_def by (blast, blast, blast, blast, blast, blast, (metis fun_upd_apply option.distinct(1)), blast+)

lemma heap_inv_update:
  assumes inv: "heap_inv r" and up: "reg_update r r' t task task' entry entry'"
  shows "heap_inv r'"
proof -
  note d = reg_updateD [OF up]
  have key: "se_key entry = tk_key task" using inv d(1,2) by (force simp: heap_inv_def)
  have ent: "\<exists>x. rg_entries r' e = Some x \<and> se_key x = k"
    if "\<exists>x. rg_entries r e = Some x \<and> se_key x = k" for e k
    using that d(2,4,6) by auto
  have "\<forall>e. rg_entries r' e \<noteq> None \<longleftrightarrow> e < rg_next r'" using inv d(2,4,5) by (auto simp: heap_inv_def)
  moreover have "\<exists>x. rg_entries r' e = Some x \<and> se_key x = k" if "rg_map r' k = Some e" for k e
    using inv d(7) [OF that] by (intro ent) (simp add: heap_inv_def)
  moreover have "\<exists>x. rg_entries r' (tk_entry y) = Some x \<and> se_key x = tk_key y" if "rg_tasks r' u = Some y" for u y
  proof (cases "u = t")
    case True
    then show ?thesis using that d(3,4,6) d(8) [of y] key by simp
  next
    case False
    then show ?thesis using that inv d(3) by (intro ent) (simp add: heap_inv_def)
  qed
  ultimately show ?thesis unfolding heap_inv_def by blast
qed

lemma phase_on_update:
  assumes "reg_update r r' t task task' entry entry'"
  shows "phase_on r' u e p \<longleftrightarrow>
    (if u = t then e = tk_entry task \<and> map_option tk_phase task' = Some p else phase_on r u e p)"
  using assms by (auto simp: phase_on_def reg_update_def)

lemma flight_inv_update:
  assumes inv: "flight_inv r" and up: "reg_update r r' t task task' entry entry'"
  shows "flight_inv r'"
proof -
  let ?e = "tk_entry task"
  have ent: "rg_entries r ?e = Some entry" "rg_entries r' = (rg_entries r)(?e \<mapsto> entry')"
    and task: "rg_tasks r t = Some task"
    and ok: "flight_ok (tk_phase task = Initializing) (map_option tk_phase task' = Some Initializing)
       (se_state entry = Starting) (se_state entry' = Starting)"
    using up by (auto simp: reg_update_def)
  have t: "phase_on r t e Initializing \<longleftrightarrow> e = ?e \<and> tk_phase task = Initializing" for e
    using task by (auto simp: phase_on_def)
  have other: "if se_state x = Starting then \<exists>!u. phase_on r' u e Initializing
      else \<forall>u. \<not> phase_on r' u e Initializing" if "rg_entries r e = Some x" "e \<noteq> ?e" for e x
  proof -
    have "phase_on r' u e Initializing = phase_on r u e Initializing" for u
      using that(2) by (auto simp: phase_on_update [OF up] t)
    then show ?thesis using inv that(1) by (simp add: flight_inv_def)
  qed
  have same: "if se_state entry' = Starting then \<exists>!u. phase_on r' u ?e Initializing
      else \<forall>u. \<not> phase_on r' u ?e Initializing"
  proof -
    have old: "if se_state entry = Starting then \<exists>!u. phase_on r u ?e Initializing
        else \<forall>u. \<not> phase_on r u ?e Initializing"
      using inv ent(1) by (simp add: flight_inv_def)
    let ?i = "tk_phase task = Initializing" and ?i' = "map_option tk_phase task' = Some Initializing"
    have ph: "phase_on r' u ?e Initializing \<longleftrightarrow> (if u = t then ?i' else phase_on r u ?e Initializing)" for u
      by (simp add: phase_on_update [OF up])
    consider "?i = ?i'" | "?i" "\<not> ?i'" | "\<not> ?i" "?i'" by blast
    then show ?thesis
    proof cases
      case 1
      then have "phase_on r' u ?e Initializing = phase_on r u ?e Initializing" for u
        using t [of ?e] by (auto simp: ph)
      then show ?thesis using old ok 1 by (simp add: flight_ok_def)
    next
      case 2
      then have "\<exists>!u. phase_on r u ?e Initializing" "se_state entry' \<noteq> Starting"
        using old ok by (simp_all add: flight_ok_def)
      then show ?thesis using 2 t [of ?e] by (auto simp: ph)
    next
      case 3
      then have "\<forall>u. \<not> phase_on r u ?e Initializing" "se_state entry' = Starting"
        using old ok by (simp_all add: flight_ok_def)
      then show ?thesis using 3 by (auto simp: ph)
    qed
  qed
  show ?thesis unfolding flight_inv_def ent(2) using other same by auto
qed

lemma wait_inv_update:
  assumes inv: "wait_inv r" and up: "reg_update r r' t task task' entry entry'"
  shows "wait_inv r'"
proof -
  note d = reg_updateD [OF up]
  let ?e = "tk_entry task"
  have old: "(phase_on r u e (Enabled token) \<longrightarrow> token \<le> se_changed x) \<and>
      (phase_on r u e (Sleeping token) \<longrightarrow> token \<le> se_changed x \<and>
        (token = se_changed x \<longrightarrow> se_state x = Starting))" if "rg_entries r e = Some x" for u e token x
    using inv that by (simp add: wait_inv_def)
  have "(phase_on r' u e (Enabled token) \<longrightarrow> token \<le> se_changed x) \<and>
      (phase_on r' u e (Sleeping token) \<longrightarrow> token \<le> se_changed x \<and>
        (token = se_changed x \<longrightarrow> se_state x = Starting))" if "rg_entries r' e = Some x" for u e token x
  proof (cases "u = t")
    case True
    then show ?thesis using that d(4) d(12) by (auto simp: phase_on_update [OF up] phase_ok_def)
  next
    case u: False
    show ?thesis
    proof (cases "e = ?e")
      case True
      then have "x = entry'" using that d(4) by simp
      with u True old [OF d(2), of u token] d(10,11) show ?thesis
        by (auto simp: phase_on_update [OF up])
    next
      case False
      with u that d(4) old [of e x u token] show ?thesis by (auto simp: phase_on_update [OF up])
    qed
  qed
  then show ?thesis unfolding wait_inv_def by blast
qed

lemma task_inv_update:
  assumes inv: "task_inv r" and up: "reg_update r r' t task task' entry entry'"
  shows "task_inv r'"
proof -
  note d = reg_updateD [OF up]
  have keep: "\<And>s k. rg_session_key r s = Some k \<Longrightarrow> rg_session_key r' s = Some k"
    using up by (simp add: reg_update_def)
  have "task_ok r' x" if x: "rg_tasks r' u = Some x" for u x
  proof (cases "u = t")
    case True
    then have "task' = Some x" using x d(3) by simp
    with d(4) d(8) [of x] d(12) [of x] show ?thesis
      by (auto simp: phase_ok_def task_ok_def split: Phase.splits sum.splits)
  next
    case False
    then have "task_ok r x" using x d(3) inv by (simp add: task_inv_def)
    with d(2,4,13) keep show ?thesis
      by (auto simp: task_ok_def split: Phase.splits sum.splits)
  qed
  then show ?thesis unfolding task_inv_def by blast
qed

lemma session_inv_update:
  assumes inv: "session_inv r" and up: "reg_update r r' t task task' entry entry'"
  shows "session_inv r'"
proof -
  note d = reg_updateD [OF up]
  have keep: "\<And>s k. rg_session_key r s = Some k \<Longrightarrow> rg_session_key r' s = Some k"
    and new: "\<And>s. rg_session_key r' s \<noteq> None \<Longrightarrow> s < rg_next_session r'"
    and rdy: "\<And>s. se_state entry' = Ready s \<Longrightarrow> rg_session_key r' s = Some (se_key entry')"
    using up unfolding reg_update_def by blast+
  have "rg_session_key r' s = Some (se_key x)" if "rg_entries r' e = Some x" "se_state x = Ready s" for e x s
    using that d(4) rdy inv keep by (cases "e = tk_entry task") (auto simp: session_inv_def)
  with new show ?thesis unfolding session_inv_def by blast
qed

lemma mapped_inv_update:
  assumes inv: "mapped_inv r" and heap: "heap_inv r" and up: "reg_update r r' t task task' entry entry'"
  shows "mapped_inv r'"
proof -
  note d = reg_updateD [OF up]
  have key: "se_key entry = tk_key task" using heap d(1,2) by (force simp: heap_inv_def)
  have map: "rg_map r' = rg_map r \<or> (\<exists>error. rg_map r' = (rg_map r)(tk_key task := None) \<and>
      rg_map r (tk_key task) = Some (tk_entry task) \<and> se_state entry' = Failed error)"
    using up unfolding reg_update_def by blast
  have "rg_map r' (se_key x) = Some e"
    if x: "rg_entries r' e = Some x" and nf: "\<forall>error. se_state x \<noteq> Failed error" for e x
  proof (cases "e = tk_entry task")
    case True
    then have x': "x = entry'" using x d(4) by simp
    then have "\<forall>error. se_state entry \<noteq> Failed error" using nf d(13) by blast
    then have "rg_map r (se_key entry) = Some e" using inv d(2) True by (simp add: mapped_inv_def)
    with map nf x' d(6) show ?thesis by auto
  next
    case False
    then have old: "rg_map r (se_key x) = Some e" using x d(4) inv nf by (simp add: mapped_inv_def)
    with map False show ?thesis by auto
  qed
  then show ?thesis unfolding mapped_inv_def by blast
qed

lemma reg_core_update: "reg_core r \<Longrightarrow> reg_update r r' t task task' entry entry' \<Longrightarrow> reg_core r'"
  unfolding reg_core_def
  by (blast intro: heap_inv_update flight_inv_update wait_inv_update task_inv_update session_inv_update)

definition stepped :: "Registry \<Rightarrow> Registry \<Rightarrow> bool" where
  "stepped r r' \<longleftrightarrow> r' = r \<or> (\<exists>t task task' entry entry'. reg_update r r' t task task' entry entry')"

lemma stepped_core: "stepped r r' \<Longrightarrow> reg_core r \<Longrightarrow> reg_core r'"
  by (auto simp: stepped_def intro: reg_core_update)

lemma stepped_mapped: "stepped r r' \<Longrightarrow> reg_core r \<Longrightarrow> mapped_inv r \<Longrightarrow> mapped_inv r'"
  by (auto simp: stepped_def reg_core_def intro: mapped_inv_update)

subsection \<open>Every step of a task has that shape\<close>

lemma task_entry:
  assumes "reg_core r" and "rg_tasks r t = Some task"
  obtains entry where "rg_entries r (tk_entry task) = Some entry" "se_key entry = tk_key task"
  using assms that unfolding reg_core_def heap_inv_def by blast

text \<open>A step that only moves the task to another phase.\<close>

lemma stepped_phase_strong:
  assumes core: "reg_core r" and task: "rg_tasks r t = Some task"
    and entry: "rg_entries r (tk_entry task) = Some entry"
    and ph: "tk_phase task \<noteq> Initializing" "p \<noteq> Initializing"
    and ok: "phase_ok (rg_session_key r) entry (task\<lparr>tk_phase := p\<rparr>)"
  shows "stepped r (set_phase (r\<lparr>rg_strong := g\<rparr>) t p)"
proof -
  let ?r = "r\<lparr>rg_strong := g, rg_tasks := (rg_tasks r)(t \<mapsto> task\<lparr>tk_phase := p\<rparr>)\<rparr>"
  have r': "set_phase (r\<lparr>rg_strong := g\<rparr>) t p = ?r"
    using task by (simp add: set_phase_def)
  have same: "(rg_entries r)(tk_entry task \<mapsto> entry) = rg_entries r" using entry by auto
  have "reg_update r ?r t task (Some (task\<lparr>tk_phase := p\<rparr>)) entry entry"
    using core task entry ph ok
    by (auto simp: reg_update_def same flight_ok_def reg_core_def session_inv_def)
  then show ?thesis unfolding stepped_def r' by blast
qed

lemmas stepped_phase = stepped_phase_strong [where g = "rg_strong r" and r = r for r, simplified]

lemma core_task_ok: "reg_core r \<Longrightarrow> rg_tasks r t = Some task \<Longrightarrow> task_ok r task"
  by (simp add: reg_core_def task_inv_def)

lemma core_session:
  assumes "reg_core r"
  shows "rg_session_key r s \<noteq> None \<Longrightarrow> s < rg_next_session r"
    and "rg_entries r e = Some entry \<Longrightarrow> se_state entry = Ready s \<Longrightarrow> rg_session_key r s = Some (se_key entry)"
  using assms by (auto simp: reg_core_def session_inv_def)

lemma core_wait:
  assumes "reg_core r" "rg_tasks r t = Some task" "rg_entries r (tk_entry task) = Some entry"
  shows "tk_phase task = Enabled token \<Longrightarrow> token \<le> se_changed entry"
  using assms unfolding reg_core_def wait_inv_def phase_on_def by blast

lemma core_flight:
  assumes "reg_core r" "rg_tasks r t = Some task" "rg_entries r (tk_entry task) = Some entry"
    and "tk_phase task = Initializing"
  shows "se_state entry = Starting"
  using assms unfolding reg_core_def flight_inv_def phase_on_def by metis

lemma stepped_enable:
  assumes core: "reg_core r"
  shows "stepped r (enable r t)"
proof (cases "rg_tasks r t")
  case (Some task)
  obtain entry where e: "rg_entries r (tk_entry task) = Some entry" using core Some by (rule task_entry)
  show ?thesis
  proof (cases "tk_phase task = Looping")
    case True
    have "stepped r (set_phase r t (Enabled (se_changed entry)))"
      using True core_task_ok [OF core Some] by (intro stepped_phase [OF core Some e]) (auto simp: phase_ok_def task_ok_def)
    then show ?thesis using Some e True by (simp add: enable_def)
  next
    case False
    then show ?thesis using Some e by (auto simp: enable_def stepped_def split: Phase.split)
  qed
qed (simp add: enable_def stepped_def)

lemma stepped_wake:
  assumes core: "reg_core r"
  shows "stepped r (wake r t)"
proof (cases "rg_tasks r t")
  case (Some task)
  obtain entry where e: "rg_entries r (tk_entry task) = Some entry" using core Some by (rule task_entry)
  show ?thesis
  proof (cases "\<exists>token. tk_phase task = Sleeping token \<and> se_changed entry \<noteq> token")
    case True
    then have "stepped r (set_phase r t Looping)"
      using core_task_ok [OF core Some] by (intro stepped_phase [OF core Some e]) (auto simp: phase_ok_def task_ok_def)
    then show ?thesis using Some e True by (auto simp: wake_def)
  next
    case False
    then show ?thesis using Some e by (auto simp: wake_def stepped_def split: Phase.split)
  qed
qed (simp add: wake_def stepped_def)

text \<open>Taking over an entry whose session is gone or whose initializer was cancelled.\<close>

lemma stepped_takeover:
  assumes core: "reg_core r" and task: "rg_tasks r t = Some task"
    and entry: "rg_entries r (tk_entry task) = Some entry"
    and ph: "tk_phase task = Enabled token"
    and st: "se_state entry \<noteq> Starting" "\<And>error. se_state entry \<noteq> Failed error"
  shows "stepped r (begin_initialize (set_state r (tk_entry task) Starting False) t)"
proof -
  let ?entry = "entry\<lparr>se_state := Starting\<rparr>"
  let ?task = "task\<lparr>tk_initialize := False, tk_phase := Initializing\<rparr>"
  have init: "tk_initialize task" using core_task_ok [OF core task] ph by (simp add: task_ok_def)
  have r': "begin_initialize (set_state r (tk_entry task) Starting False) t =
      r\<lparr>rg_entries := (rg_entries r)(tk_entry task \<mapsto> ?entry), rg_tasks := (rg_tasks r)(t \<mapsto> ?task)\<rparr>"
    using task entry init by (simp add: begin_initialize_def set_state_def)
  have "reg_update r (begin_initialize (set_state r (tk_entry task) Starting False) t) t task (Some ?task) entry ?entry"
    using task entry ph st core_session(1) [OF core]
    by (auto simp: reg_update_def r' flight_ok_def phase_ok_def)
  then show ?thesis unfolding stepped_def by blast
qed

lemma stepped_check:
  assumes core: "reg_core r"
  shows "stepped r (check r t)"
proof (cases "rg_tasks r t")
  case (Some task)
  obtain entry where e: "rg_entries r (tk_entry task) = Some entry" "se_key entry = tk_key task"
    using core Some by (rule task_entry)
  show ?thesis
  proof (cases "\<exists>token. tk_phase task = Enabled token")
    case True
    then obtain token where ph: "tk_phase task = Enabled token" by blast
    have init: "tk_initialize task" using core_task_ok [OF core Some] ph by (simp add: task_ok_def)
    note phase = stepped_phase [OF core Some e(1)]
    show ?thesis
    proof (cases "se_state entry")
      case Starting
      have "stepped r (set_phase r t (Sleeping token))"
        using core_wait [OF core Some e(1) ph] init ph Starting by (intro phase) (auto simp: phase_ok_def)
      then show ?thesis using Some e ph Starting by (simp add: check_def)
    next
      case (Ready s)
      show ?thesis
      proof (cases "rg_strong r s > 0")
        case True
        have "rg_session_key r s = Some (tk_key task)" using core_session(2) [OF core e(1) Ready] e(2) by simp
        then have "stepped r (set_phase (r\<lparr>rg_strong := (rg_strong r)(s := Suc (rg_strong r s))\<rparr>) t (Returned (Inr s)))"
          using ph by (intro stepped_phase_strong [OF core Some e(1)]) (auto simp: phase_ok_def)
        then show ?thesis using Some e ph Ready True by (simp add: check_def)
      next
        case False
        then show ?thesis using stepped_takeover [OF core Some e(1) ph] Some e ph Ready by (simp add: check_def)
      qed
    next
      case (Failed error)
      have "stepped r (set_phase r t (Returned (Inl error)))"
        using ph by (intro phase) (auto simp: phase_ok_def)
      then show ?thesis using Some e ph Failed by (simp add: check_def)
    next
      case Cancelled
      then show ?thesis using stepped_takeover [OF core Some e(1) ph] Some e ph by (simp add: check_def)
    qed
  next
    case False
    then have "check r t = r" using Some by (cases "tk_phase task") (auto simp: check_def Let_def)
    then show ?thesis by (simp add: stepped_def)
  qed
qed (simp add: check_def stepped_def)

lemma stepped_ok:
  assumes core: "reg_core r"
  shows "stepped r (finish_ok r t)"
proof (cases "\<exists>task. rg_tasks r t = Some task \<and> tk_phase task = Initializing")
  case True
  then obtain task where task: "rg_tasks r t = Some task" and ph: "tk_phase task = Initializing" by blast
  obtain entry where e: "rg_entries r (tk_entry task) = Some entry" "se_key entry = tk_key task"
    using core task by (rule task_entry)
  let ?s = "rg_next_session r"
  let ?entry = "entry\<lparr>se_state := Ready ?s, se_changed := Suc (se_changed entry)\<rparr>"
  let ?task = "task\<lparr>tk_phase := Returned (Inr ?s)\<rparr>"
  have r': "finish_ok r t = r\<lparr>rg_entries := (rg_entries r)(tk_entry task \<mapsto> ?entry),
      rg_session_key := (rg_session_key r)(?s \<mapsto> tk_key task), rg_strong := (rg_strong r)(?s := 1),
      rg_next_session := Suc ?s, rg_tasks := (rg_tasks r)(t \<mapsto> ?task)\<rparr>"
    using task ph e by (simp add: finish_ok_def Let_def set_state_def set_phase_def)
  have fresh: "rg_session_key r ?s = None" using core_session(1) [OF core, of ?s] by blast
  have "reg_update r (finish_ok r t) t task (Some ?task) entry ?entry"
    using task e ph core_flight [OF core task e(1) ph] core_session(1) [OF core] fresh
    by (auto simp: reg_update_def r' flight_ok_def phase_ok_def less_Suc_eq)
  then show ?thesis unfolding stepped_def by blast
next
  case False
  then show ?thesis by (auto simp: finish_ok_def stepped_def split: option.split)
qed

lemma stepped_err:
  assumes core: "reg_core r"
  shows "stepped r (finish_err r t error)"
proof (cases "\<exists>task. rg_tasks r t = Some task \<and> tk_phase task = Initializing")
  case True
  then obtain task where task: "rg_tasks r t = Some task" and ph: "tk_phase task = Initializing" by blast
  obtain entry where e: "rg_entries r (tk_entry task) = Some entry" using core task by (rule task_entry)
  let ?entry = "entry\<lparr>se_state := Failed error, se_changed := Suc (se_changed entry)\<rparr>"
  let ?task = "task\<lparr>tk_phase := Removing error\<rparr>"
  have r': "finish_err r t error = r\<lparr>rg_entries := (rg_entries r)(tk_entry task \<mapsto> ?entry),
      rg_tasks := (rg_tasks r)(t \<mapsto> ?task)\<rparr>"
    using task ph e by (simp add: finish_err_def set_state_def set_phase_def)
  have "reg_update r (finish_err r t error) t task (Some ?task) entry ?entry"
    using task e ph core_flight [OF core task e ph] core_session(1) [OF core]
    by (auto simp: reg_update_def r' flight_ok_def phase_ok_def)
  then show ?thesis unfolding stepped_def by blast
next
  case False
  then show ?thesis by (auto simp: finish_err_def stepped_def split: option.split)
qed

lemma stepped_remove:
  assumes core: "reg_core r"
  shows "stepped r (finish_remove r t)"
proof (cases "\<exists>task error. rg_tasks r t = Some task \<and> tk_phase task = Removing error")
  case True
  then obtain task error where task: "rg_tasks r t = Some task" and ph: "tk_phase task = Removing error" by blast
  obtain entry where e: "rg_entries r (tk_entry task) = Some entry" using core task by (rule task_entry)
  let ?task = "task\<lparr>tk_phase := Returned (Inl error)\<rparr>"
  have failed: "se_state entry = Failed error" using core_task_ok [OF core task] ph e by (simp add: task_ok_def)
  have same: "(rg_entries r)(tk_entry task \<mapsto> entry) = rg_entries r" using e by auto
  have "reg_update r (finish_remove r t) t task (Some ?task) entry entry"
    using task e ph failed core_session(1) [OF core]
    by (auto simp: reg_update_def finish_remove_def remove_entry_if_same_def set_phase_def same
        flight_ok_def phase_ok_def)
  then show ?thesis unfolding stepped_def by blast
next
  case False
  then show ?thesis by (auto simp: finish_remove_def stepped_def split: option.split Phase.split)
qed

lemma stepped_cancel:
  assumes core: "reg_core r"
  shows "stepped r (cancel r t)"
proof (cases "rg_tasks r t")
  case (Some task)
  obtain entry where e: "rg_entries r (tk_entry task) = Some entry" using core Some by (rule task_entry)
  have same: "(rg_entries r)(tk_entry task \<mapsto> entry) = rg_entries r" using e by auto
  consider "tk_phase task = Initializing" | token where "tk_phase task = Sleeping token"
    | "cancel r t = r" using Some by (cases "tk_phase task") (auto simp: cancel_def Let_def)
  then show ?thesis
  proof cases
    case 1
    let ?entry = "entry\<lparr>se_state := Cancelled, se_changed := Suc (se_changed entry)\<rparr>"
    note st = core_flight [OF core Some e 1]
    have "reg_update r (cancel r t) t task None entry ?entry"
      using Some e 1 st core_session(1) [OF core]
      by (auto simp: reg_update_def cancel_def Let_def set_state_def flight_ok_def)
    then show ?thesis unfolding stepped_def by blast
  next
    case (2 token)
    have "reg_update r (cancel r t) t task None entry entry"
      using Some e 2 core_session [OF core]
      by (auto simp: reg_update_def cancel_def Let_def flight_ok_def same)
    then show ?thesis unfolding stepped_def by blast
  qed (simp add: stepped_def)
qed (simp add: cancel_def stepped_def)

subsection \<open>Calls, drops and prunes\<close>

lemma task_ok_irrelevant [simp]:
  "task_ok (r\<lparr>rg_strong := g\<rparr>) task = task_ok r task" "task_ok (r\<lparr>rg_map := m\<rparr>) task = task_ok r task"
  "task_ok (r\<lparr>rg_tasks := ts\<rparr>) task = task_ok r task"
  by (simp_all add: task_ok_def split: Phase.split sum.split)

lemma reg_core_strong [simp]: "reg_core (r\<lparr>rg_strong := g\<rparr>) = reg_core r"
  unfolding reg_core_def heap_inv_def flight_inv_def wait_inv_def task_inv_def session_inv_def
    phase_on_def by simp

lemma mapped_inv_strong [simp]: "mapped_inv (r\<lparr>rg_strong := g\<rparr>) = mapped_inv r"
  unfolding mapped_inv_def by simp

lemma phase_on_new_task:
  assumes "rg_tasks r t = None" and "rg_tasks r' = (rg_tasks r)(t \<mapsto> task)"
  shows "phase_on r' u e p \<longleftrightarrow> (if u = t then tk_entry task = e \<and> tk_phase task = p else phase_on r u e p)"
    "phase_on r t e p = False"
  using assms by (auto simp: phase_on_def)

lemma reg_core_enter_occupied:
  assumes core: "reg_core r" and t: "rg_tasks r t = None" and m: "rg_map r key = Some e"
  shows "reg_core (enter r t key)"
proof -
  let ?task = "\<lparr>tk_key = key, tk_entry = e, tk_initialize = True, tk_phase = Looping\<rparr>"
  define r' where "r' = enter r t key"
  have r': "r' = r\<lparr>rg_tasks := (rg_tasks r)(t \<mapsto> ?task)\<rparr>" using m by (simp add: r'_def enter_def)
  have tasks: "rg_tasks r' = (rg_tasks r)(t \<mapsto> ?task)" by (simp add: r')
  note ph = phase_on_new_task [OF t tasks]
  have init: "phase_on r' u x Initializing = phase_on r u x Initializing"
    "phase_on r' u x (Enabled k) = phase_on r u x (Enabled k)"
    "phase_on r' u x (Sleeping k) = phase_on r u x (Sleeping k)" for u x k
    by (auto simp: ph)
  have other: "rg_entries r' = rg_entries r" "rg_map r' = rg_map r" "rg_next r' = rg_next r"
    "rg_session_key r' = rg_session_key r" "rg_next_session r' = rg_next_session r" by (simp_all add: r')
  have "heap_inv r'" using core m by (auto simp: reg_core_def heap_inv_def other tasks)
  moreover have "flight_inv r'" "wait_inv r'"
    using core by (simp_all add: reg_core_def flight_inv_def wait_inv_def init other)
  moreover have "task_ok r ?task" by (simp add: task_ok_def)
  then have "task_inv r'" using core by (simp add: reg_core_def task_inv_def r')
  moreover have "session_inv r'" using core by (simp add: reg_core_def session_inv_def other)
  ultimately show ?thesis by (simp add: reg_core_def r'_def)
qed

lemma reg_core_enter_vacant:
  assumes core: "reg_core r" and t: "rg_tasks r t = None" and m: "rg_map r key = None"
  shows "reg_core (enter r t key)"
proof -
  let ?e = "rg_next r"
  let ?task = "\<lparr>tk_key = key, tk_entry = ?e, tk_initialize = False, tk_phase = Initializing\<rparr>"
  let ?entry = "\<lparr>se_key = key, se_state = Starting, se_changed = 0\<rparr>"
  define r' where "r' = enter r t key"
  have r': "r' = r\<lparr>rg_map := (rg_map r)(key \<mapsto> ?e), rg_entries := (rg_entries r)(?e \<mapsto> ?entry),
      rg_next := Suc ?e, rg_tasks := (rg_tasks r)(t \<mapsto> ?task)\<rparr>"
    using m by (simp add: r'_def enter_def Let_def begin_initialize_def)
  have tasks: "rg_tasks r' = (rg_tasks r)(t \<mapsto> ?task)" by (simp add: r')
  note ph = phase_on_new_task [OF t tasks]
  have heap: "heap_inv r" using core by (simp add: reg_core_def)
  have new: "rg_entries r ?e = None" using heap by (auto simp: heap_inv_def)
  then have none: "\<not> phase_on r u ?e p" for u p
    using heap by (fastforce simp: heap_inv_def phase_on_def)
  have other: "rg_entries r' = (rg_entries r)(?e \<mapsto> ?entry)" "rg_map r' = (rg_map r)(key \<mapsto> ?e)"
    "rg_next r' = Suc ?e" "rg_session_key r' = rg_session_key r"
    "rg_next_session r' = rg_next_session r" by (simp_all add: r')
  have ent: "rg_entries r' e = Some x" if "rg_entries r e = Some x" for e x
    using that new by (auto simp: other)
  have "heap_inv r'"
  proof -
    have "\<forall>e. rg_entries r' e \<noteq> None \<longleftrightarrow> e < rg_next r'"
      using heap by (auto simp: heap_inv_def other less_Suc_eq)
    moreover have "\<exists>x. rg_entries r' e = Some x \<and> se_key x = k" if look: "rg_map r' k = Some e" for k e
    proof (cases "k = key")
      case True
      then show ?thesis using look by (simp add: other)
    next
      case False
      then have "rg_map r k = Some e" using look by (simp add: other)
      then obtain x where "rg_entries r e = Some x" "se_key x = k"
        using heap unfolding heap_inv_def by blast
      then show ?thesis using ent by blast
    qed
    moreover have "\<exists>x. rg_entries r' (tk_entry y) = Some x \<and> se_key x = tk_key y" if look: "rg_tasks r' u = Some y" for u y
    proof (cases "u = t")
      case True
      then show ?thesis using look tasks by (auto simp: other)
    next
      case False
      then have "rg_tasks r u = Some y" using look by (simp add: tasks)
      then obtain x where "rg_entries r (tk_entry y) = Some x" "se_key x = tk_key y"
        using heap unfolding heap_inv_def by blast
      then show ?thesis using ent by blast
    qed
    ultimately show ?thesis unfolding heap_inv_def by blast
  qed
  moreover have "flight_inv r'"
  proof -
    have "\<exists>!u. phase_on r' u ?e Initializing" by (auto simp: ph none)
    moreover have "phase_on r' u e Initializing = phase_on r u e Initializing" if "e \<noteq> ?e" for u e
      using that by (auto simp: ph)
    ultimately show ?thesis using core by (auto simp: reg_core_def flight_inv_def other)
  qed
  moreover have "wait_inv r'"
    using core none by (auto simp: reg_core_def wait_inv_def ph other)
  moreover have "task_inv r'"
    unfolding task_inv_def
  proof (intro allI impI)
    fix u x assume x: "rg_tasks r' u = Some x"
    show "task_ok r' x"
    proof (cases "u = t")
      case True
      then show ?thesis using x tasks by (auto simp: task_ok_def)
    next
      case False
      then have old: "rg_tasks r u = Some x" using x tasks by simp
      then obtain y where "rg_entries r (tk_entry x) = Some y" using core by (blast elim: task_entry)
      moreover have "task_ok r x" using core old by (rule core_task_ok)
      ultimately show ?thesis using new by (auto simp: task_ok_def other split: Phase.splits sum.splits)
    qed
  qed
  moreover have "session_inv r'" using core by (auto simp: reg_core_def session_inv_def other)
  ultimately show ?thesis by (simp add: reg_core_def r'_def)
qed

lemma reg_core_enter: "reg_core r \<Longrightarrow> rg_tasks r t = None \<Longrightarrow> reg_core (enter r t key)"
  by (cases "rg_map r key") (auto intro: reg_core_enter_occupied reg_core_enter_vacant)

lemma mapped_inv_enter:
  assumes "mapped_inv r" and "rg_tasks r t = None"
  shows "mapped_inv (enter r t key)"
proof (cases "rg_map r key")
  case None
  have free: "se_key x \<noteq> key" if "rg_entries r e = Some x" "\<forall>error. se_state x \<noteq> Failed error" for e x
    using assms(1) that None by (auto simp: mapped_inv_def)
  have "rg_entries (enter r t key) = (rg_entries r)(rg_next r \<mapsto> \<lparr>se_key = key, se_state = Starting, se_changed = 0\<rparr>)"
    "rg_map (enter r t key) = (rg_map r)(key \<mapsto> rg_next r)"
    using None by (simp_all add: enter_def Let_def begin_initialize_def)
  with assms(1) free show ?thesis by (auto simp: mapped_inv_def)
next
  case (Some e)
  then show ?thesis using assms by (simp add: enter_def mapped_inv_def)
qed

lemma reg_core_prune: "reg_core r \<Longrightarrow> reg_core (prune r)"
  unfolding reg_core_def heap_inv_def flight_inv_def wait_inv_def task_inv_def session_inv_def
    phase_on_def prune_def
  by (simp split: option.splits)

lemma reg_step_stepped:
  assumes core: "reg_core r" and step: "reg_step r r'"
  shows "stepped r r' \<or> (\<exists>t key. rg_tasks r t = None \<and> r' = enter r t key) \<or> (\<exists>s. r' = drop_session r s)"
  using step by (cases rule: reg_step.cases)
    (auto intro: stepped_enable stepped_check stepped_wake stepped_ok stepped_err stepped_remove
      stepped_cancel core)

lemma reg_step_core: "reg_step r r' \<Longrightarrow> reg_core r \<Longrightarrow> reg_core r'"
  using reg_step_stepped [of r r'] by (auto intro: stepped_core reg_core_enter simp: drop_session_def)

lemma reg_step_mapped: "reg_step r r' \<Longrightarrow> reg_core r \<Longrightarrow> mapped_inv r \<Longrightarrow> mapped_inv r'"
  using reg_step_stepped [of r r'] by (auto intro: stepped_mapped mapped_inv_enter simp: drop_session_def)

lemma registry_new_inv: "reg_core registry_new" "mapped_inv registry_new"
  by (simp_all add: registry_new_def reg_core_def heap_inv_def flight_inv_def wait_inv_def task_inv_def
      session_inv_def mapped_inv_def)

lemma reg_reach_inv: "reg_reach r \<Longrightarrow> reg_core r \<and> mapped_inv r"
  by (induction rule: rtranclp_induct) (auto intro: registry_new_inv reg_step_core reg_step_mapped)

lemma reg_prune_reach_inv: "reg_prune_step\<^sup>*\<^sup>* registry_new r \<Longrightarrow> reg_core r"
  by (induction rule: rtranclp_induct)
    (auto intro: registry_new_inv elim!: reg_prune_step.cases intro: reg_step_core reg_core_prune)


section \<open>Properties\<close>

definition initializes :: "Registry \<Rightarrow> nat \<Rightarrow> string \<Rightarrow> bool" where
  "initializes r t key \<longleftrightarrow>
     (\<exists>task. rg_tasks r t = Some task \<and> tk_key task = key \<and> tk_phase task = Initializing)"

lemma initializes_entry:
  assumes core: "reg_core r" and i: "initializes r t key"
  obtains e entry where "phase_on r t e Initializing" "rg_entries r e = Some entry" "se_key entry = key"
    "se_state entry = Starting"
proof -
  obtain task where t: "rg_tasks r t = Some task" "tk_key task = key" "tk_phase task = Initializing"
    using i by (auto simp: initializes_def)
  obtain entry where e: "rg_entries r (tk_entry task) = Some entry" "se_key entry = tk_key task"
    using core t(1) by (rule task_entry)
  have "se_state entry = Starting" using core t(1) e(1) t(3) by (rule core_flight)
  with t e show thesis by (intro that [of "tk_entry task" entry]) (auto simp: phase_on_def)
qed

lemma single_flight:
  assumes "reg_core r" "mapped_inv r" "initializes r t key" "initializes r u key"
  shows "t = u"
proof -
  obtain e x where e: "phase_on r t e Initializing" "rg_entries r e = Some x" "se_key x = key" "se_state x = Starting"
    using assms(1,3) by (rule initializes_entry)
  obtain f y where f: "phase_on r u f Initializing" "rg_entries r f = Some y" "se_key y = key" "se_state y = Starting"
    using assms(1,4) by (rule initializes_entry)
  have ne: "\<forall>error. se_state x \<noteq> Failed error" "\<forall>error. se_state y \<noteq> Failed error"
    using e(4) f(4) by simp_all
  have "rg_map r key = Some e" using assms(2) e(2,3) ne(1) unfolding mapped_inv_def by blast
  moreover have "rg_map r key = Some f" using assms(2) f(2,3) ne(2) unfolding mapped_inv_def by blast
  ultimately have "e = f" by simp
  moreover have "\<exists>!v. phase_on r v e Initializing"
    using assms(1) e(2,4) by (auto simp: reg_core_def flight_inv_def)
  ultimately show ?thesis using e(1) f(1) by blast
qed

text \<open>C24: single flight.  Under every interleaving of calls, polls, results, cancellations and
  session drops, at most one task initializes a key at a time.\<close>

theorem one_initializer_per_key:
  assumes "reg_reach r" and "initializes r t key" and "initializes r u key"
  shows "t = u"
  using single_flight reg_reach_inv [OF assms(1)] assms(2,3) by blast

text \<open>Two callers of one key: the first initializes, the second waits.\<close>

definition two_callers :: Registry where
  "two_callers = check (enable (enter (enter registry_new 1 ''k'') 2 ''k'') 2) 2"

lemma two_callers_reach: "reg_reach two_callers"
proof -
  define r1 where "r1 = enter registry_new 1 ''k''"
  define r2 where "r2 = enter r1 2 ''k''"
  have "reg_step registry_new r1" unfolding r1_def by (rule reg_enter) (simp add: registry_new_def)
  moreover have "reg_step r1 r2"
    unfolding r2_def by (rule reg_enter) (simp add: r1_def enter_def registry_new_def begin_initialize_def)
  moreover have "reg_step r2 (enable r2 2)" by (rule reg_enable)
  moreover have "reg_step (enable r2 2) two_callers"
    unfolding two_callers_def r1_def [symmetric] r2_def [symmetric] by (rule reg_check)
  ultimately show ?thesis by (meson rtranclp.rtrancl_refl rtranclp.rtrancl_into_rtrancl)
qed

lemma one_caller:
  "enter registry_new 1 k = \<lparr>rg_map = [k \<mapsto> 0],
     rg_entries = [0 \<mapsto> \<lparr>se_key = k, se_state = Starting, se_changed = 0\<rparr>], rg_next = 1,
     rg_session_key = (\<lambda>_. None), rg_strong = (\<lambda>_. 0), rg_next_session = 0,
     rg_tasks = [1 \<mapsto> \<lparr>tk_key = k, tk_entry = 0, tk_initialize = False, tk_phase = Initializing\<rparr>]\<rparr>"
  by (simp add: enter_def registry_new_def begin_initialize_def)

lemma two_callers_eq:
  "two_callers = \<lparr>rg_map = [''k'' \<mapsto> 0],
     rg_entries = [0 \<mapsto> \<lparr>se_key = ''k'', se_state = Starting, se_changed = 0\<rparr>], rg_next = 1,
     rg_session_key = (\<lambda>_. None), rg_strong = (\<lambda>_. 0), rg_next_session = 0,
     rg_tasks = [1 \<mapsto> \<lparr>tk_key = ''k'', tk_entry = 0, tk_initialize = False, tk_phase = Initializing\<rparr>,
       2 \<mapsto> \<lparr>tk_key = ''k'', tk_entry = 0, tk_initialize = True, tk_phase = Sleeping 0\<rparr>]\<rparr>"
proof -
  let ?r = "\<lambda>p. \<lparr>rg_map = [''k'' \<mapsto> 0],
     rg_entries = [0 \<mapsto> \<lparr>se_key = ''k'', se_state = Starting, se_changed = 0\<rparr>], rg_next = 1,
     rg_session_key = (\<lambda>_. None), rg_strong = (\<lambda>_. 0), rg_next_session = 0,
     rg_tasks = [1 \<mapsto> \<lparr>tk_key = ''k'', tk_entry = 0, tk_initialize = False, tk_phase = Initializing\<rparr>,
       2 \<mapsto> \<lparr>tk_key = ''k'', tk_entry = 0, tk_initialize = True, tk_phase = p\<rparr>]\<rparr>"
  have "enter (enter registry_new 1 ''k'') 2 ''k'' = ?r Looping"
    unfolding one_caller by (simp add: enter_def)
  moreover have "enable (?r Looping) 2 = ?r (Enabled 0)" by (simp add: enable_def set_phase_def)
  moreover have "check (?r (Enabled 0)) 2 = ?r (Sleeping 0)" by (simp add: check_def set_phase_def)
  ultimately show ?thesis by (simp only: two_callers_def)
qed

lemma two_callers_tasks:
  "rg_tasks two_callers = [1 \<mapsto> \<lparr>tk_key = ''k'', tk_entry = 0, tk_initialize = False, tk_phase = Initializing\<rparr>,
     2 \<mapsto> \<lparr>tk_key = ''k'', tk_entry = 0, tk_initialize = True, tk_phase = Sleeping 0\<rparr>]"
  "rg_entries two_callers = [0 \<mapsto> \<lparr>se_key = ''k'', se_state = Starting, se_changed = 0\<rparr>]"
  "rg_next_session two_callers = 0" "rg_map two_callers = [''k'' \<mapsto> 0]" "rg_next two_callers = 1"
  by (simp_all add: two_callers_eq)

theorem one_initializer_per_key_witness:
  "initializes two_callers 1 ''k'' \<and> {u. initializes two_callers u ''k''} = {1}"
proof -
  have "initializes two_callers 1 ''k''" by (simp add: initializes_def two_callers_tasks)
  with one_initializer_per_key [OF two_callers_reach this] show ?thesis by blast
qed

text \<open>nobody waits for nothing.  A task that sleeps on an entry without a notification since
  it registered waits for an entry that is \<open>Starting\<close>, and some task is initializing it; so every
  sleeper is woken by that task's result or cancellation.\<close>

theorem sleeper_has_an_initializer:
  assumes "reg_prune_step\<^sup>*\<^sup>* registry_new r"
    and "rg_tasks r t = Some task" and "tk_phase task = Sleeping token"
    and "rg_entries r (tk_entry task) = Some entry" and "se_changed entry = token"
  shows "se_state entry = Starting \<and> (\<exists>u. phase_on r u (tk_entry task) Initializing)"
proof -
  have core: "reg_core r" using assms(1) by (rule reg_prune_reach_inv)
  have "phase_on r t (tk_entry task) (Sleeping token)" using assms(2,3) by (auto simp: phase_on_def)
  then have "se_state entry = Starting"
    using core assms(4,5) unfolding reg_core_def wait_inv_def by blast
  moreover from this have "\<exists>!u. phase_on r u (tk_entry task) Initializing"
    using core assms(4) by (auto simp: reg_core_def flight_inv_def)
  ultimately show ?thesis by blast
qed

lemma reach_prune: "reg_reach r \<Longrightarrow> reg_prune_step\<^sup>*\<^sup>* registry_new r"
  by (induction rule: rtranclp_induct) (auto intro: rp_step rtranclp.rtrancl_into_rtrancl)

theorem sleeper_has_an_initializer_witness:
  "\<exists>u. phase_on two_callers u 0 Initializing"
  using sleeper_has_an_initializer [OF reach_prune [OF two_callers_reach], of 2
    "\<lparr>tk_key = ''k'', tk_entry = 0, tk_initialize = True, tk_phase = Sleeping 0\<rparr>" 0
    "\<lparr>se_key = ''k'', se_state = Starting, se_changed = 0\<rparr>"]
  by (simp add: two_callers_tasks)

text \<open>what a caller gets.  A call never panics on a consumed initializer, and a session it
  returns is one that was initialized for its own key.\<close>

theorem caller_gets_its_own_session:
  assumes "reg_prune_step\<^sup>*\<^sup>* registry_new r" and "rg_tasks r t = Some task"
  shows "tk_phase task \<noteq> Panicked \<and>
    (\<forall>s. tk_phase task = Returned (Inr s) \<longrightarrow> rg_session_key r s = Some (tk_key task))"
  using core_task_ok [OF reg_prune_reach_inv [OF assms(1)] assms(2)]
  by (auto simp: task_ok_def)

theorem caller_gets_its_own_session_witness:
  "\<exists>task. rg_tasks (finish_ok two_callers 1) 1 = Some task \<and> tk_phase task = Returned (Inr 0) \<and>
     rg_session_key (finish_ok two_callers 1) 0 = Some ''k''"
proof -
  let ?r = "finish_ok two_callers 1"
  let ?task = "\<lparr>tk_key = ''k'', tk_entry = 0, tk_initialize = False, tk_phase = Returned (Inr 0)\<rparr>"
  have reach: "reg_prune_step\<^sup>*\<^sup>* registry_new ?r"
    using reach_prune [OF two_callers_reach] reg_ok [of two_callers 1]
    by (blast intro: rp_step rtranclp.rtrancl_into_rtrancl)
  have task: "rg_tasks ?r 1 = Some ?task"
    by (simp add: finish_ok_def two_callers_tasks Let_def set_state_def set_phase_def)
  from caller_gets_its_own_session [OF reach task] task show ?thesis by auto
qed

section \<open>Pruning\<close>

text \<open>The first caller is cancelled, \<open>prune\<close> removes the entry that the second still holds, the
  second takes the entry over and a third caller makes a new one.\<close>

definition pruned_race :: Registry where
  "pruned_race = enter (check (enable (wake (prune (cancel two_callers 1)) 2) 2) 2) 3 ''k''"

text \<open>C25: \<open>prune\<close> breaks single flight.  There is a run with one \<open>prune\<close> in which two tasks
  initialize the same key at the same time.\<close>

theorem prune_breaks_single_flight:
  "\<exists>r t u. reg_prune_step\<^sup>*\<^sup>* registry_new r \<and> t \<noteq> u \<and> initializes r t ''k'' \<and> initializes r u ''k''"
proof (intro exI conjI)
  define r1 where "r1 = cancel two_callers 1"
  define r2 where "r2 = wake (prune r1) 2"
  define r3 where "r3 = check (enable r2 2) 2"
  have r1: "rg_tasks r1 = [2 \<mapsto> \<lparr>tk_key = ''k'', tk_entry = 0, tk_initialize = True, tk_phase = Sleeping 0\<rparr>]"
    "rg_entries r1 = [0 \<mapsto> \<lparr>se_key = ''k'', se_state = Cancelled, se_changed = 1\<rparr>]"
    "rg_map r1 = [''k'' \<mapsto> 0]" "rg_next r1 = 1"
    by (auto simp: r1_def cancel_def two_callers_tasks Let_def set_state_def)
  have r2: "rg_tasks r2 = [2 \<mapsto> \<lparr>tk_key = ''k'', tk_entry = 0, tk_initialize = True, tk_phase = Looping\<rparr>]"
    "rg_entries r2 = rg_entries r1" "rg_map r2 = (\<lambda>_. None)" "rg_next r2 = 1"
    by (auto simp: r2_def wake_def prune_def prune_keeps_def r1 set_phase_def)
  have r3: "rg_tasks r3 = [2 \<mapsto> \<lparr>tk_key = ''k'', tk_entry = 0, tk_initialize = False, tk_phase = Initializing\<rparr>]"
    "rg_map r3 = (\<lambda>_. None)" "rg_next r3 = 1"
    by (auto simp: r3_def check_def enable_def r2 r1 set_phase_def set_state_def begin_initialize_def Let_def)
  have race: "pruned_race = enter r3 3 ''k''" by (simp add: pruned_race_def r3_def r2_def r1_def)
  show "initializes pruned_race 2 ''k''" "initializes pruned_race 3 ''k''"
    by (simp_all add: race enter_def r3 begin_initialize_def Let_def initializes_def)
  show "(2 :: nat) \<noteq> 3" by simp
  have "reg_prune_step\<^sup>*\<^sup>* registry_new two_callers" by (rule reach_prune [OF two_callers_reach])
  moreover have "reg_prune_step two_callers r1" unfolding r1_def by (intro rp_step reg_cancel)
  moreover have "reg_prune_step r1 (prune r1)" by (rule rp_prune)
  moreover have "reg_prune_step (prune r1) r2" unfolding r2_def by (intro rp_step reg_wake)
  moreover have "reg_prune_step r2 (enable r2 2)" by (intro rp_step reg_enable)
  moreover have "reg_prune_step (enable r2 2) r3" unfolding r3_def by (intro rp_step reg_check)
  moreover have "reg_prune_step r3 pruned_race" unfolding race by (intro rp_step reg_enter) (simp add: r3)
  ultimately show "reg_prune_step\<^sup>*\<^sup>* registry_new pruned_race"
    by (meson rtranclp.rtrancl_into_rtrancl)
qed

end
