(* ===== verification/Settings.thy ===== *)
theory Settings
  imports Prelude
begin

text \<open>
  Operator settings and their inheritance (\<open>crates/domain/src/config.rs\<close>).

  A string is the list of its UTF-8 bytes; the code only compares settings' strings.  A
  \<open>BTreeMap\<close> is the list of its entries in iteration order.  A JSON value belongs to
  \<open>serde_json\<close>: the definitions take the operations of that type which the code calls as the record
  \<open>Json\<close>, and \<open>json_laws\<close> is what the defaults rely on.

  Main results: \<open>resolve_settings\<close> succeeds exactly when every override is known, permitted and
  valid where it is the one that counts, and then returns for each setting of the catalogue, in its
  order, the value of the closest scope; a refusal names an offending override; the built-in defaults
  are valid, so the program starts without overrides.
\<close>

section \<open>Data\<close>

record 'v Json =
  js_is_boolean :: "'v \<Rightarrow> bool"
  js_as_i64 :: "'v \<Rightarrow> int option"
  js_is_string :: "'v \<Rightarrow> bool"
  js_as_str :: "'v \<Rightarrow> string option"
  js_from_i64 :: "int \<Rightarrow> 'v"
  js_from_str :: "string \<Rightarrow> 'v"

definition json_laws :: "'v Json \<Rightarrow> bool" where
  "json_laws json \<longleftrightarrow>
     (\<forall>n. i64_min \<le> n \<and> n \<le> i64_max \<longrightarrow> js_as_i64 json (js_from_i64 json n) = Some n) \<and>
     (\<forall>s. js_is_string json (js_from_str json s)) \<and>
     (\<forall>s. js_as_str json (js_from_str json s) = Some s)"

datatype SettingValueKind = Boolean | Integer | String | Choice

datatype SettingRisk = Low | Capacity | Compatibility | ServiceDisruption | Security

datatype ApplyRequirement = Immediate | Restart | Reimport

record 'v SettingDefinition =
  sd_key :: string
  sd_label :: string
  sd_description :: string
  sd_value_kind :: SettingValueKind
  sd_default_value :: 'v
  sd_minimum :: "int option"
  sd_maximum :: "int option"
  sd_choices :: "string list"
  sd_unit :: "string option"
  sd_operational_effect :: string
  sd_risk :: SettingRisk
  sd_apply_requirement :: ApplyRequirement
  sd_provider_overridable :: bool
  sd_group_overridable :: bool

datatype InheritanceSource = SystemDefault | Global | Provider string | ChannelGroup string

record 'v EffectiveSetting =
  ef_definition :: "'v SettingDefinition"
  ef_value :: 'v
  ef_inherited_from :: InheritanceSource

datatype SettingValidationError =
    UnknownSetting string
  | WrongType string string
  | OutOfRange string int int
  | InvalidChoice string "string list"
  | ProviderOverrideForbidden string
  | GroupOverrideForbidden string

record 'v SettingOverrides =
  so_global :: "(string \<times> 'v) list"
  so_provider :: "(string \<times> 'v) list"
  so_group :: "(string \<times> 'v) list"

section \<open>Validation\<close>

definition wrong_type :: "'v SettingDefinition \<Rightarrow> string \<Rightarrow> SettingValidationError" where
  "wrong_type self expected = WrongType (sd_key self) expected"

definition validate ::
    "'v Json \<Rightarrow> 'v SettingDefinition \<Rightarrow> 'v \<Rightarrow> SettingValidationError + unit" where
  "validate json self v =
     (case sd_value_kind self of
        Boolean \<Rightarrow>
          if \<not> js_is_boolean json v then Inl (wrong_type self ''a boolean'') else Inr ()
      | Integer \<Rightarrow>
          (case js_as_i64 json v of
             None \<Rightarrow> Inl (wrong_type self ''an integer'')
           | Some n \<Rightarrow>
               let minimum = unwrap_or (sd_minimum self) i64_min;
                   maximum = unwrap_or (sd_maximum self) i64_max
               in if \<not> (minimum \<le> n \<and> n \<le> maximum)
                  then Inl (OutOfRange (sd_key self) minimum maximum) else Inr ())
      | String \<Rightarrow>
          if \<not> js_is_string json v then Inl (wrong_type self ''a string'') else Inr ()
      | Choice \<Rightarrow>
          (case js_as_str json v of
             None \<Rightarrow> Inl (wrong_type self ''a string choice'')
           | Some s \<Rightarrow>
               if \<not> list_ex (\<lambda>choice. choice = s) (sd_choices self)
               then Inl (InvalidChoice (sd_key self) (sd_choices self)) else Inr ()))"

section \<open>The catalogue\<close>

definition integer_setting ::
    "'v Json \<Rightarrow> string \<Rightarrow> string \<Rightarrow> string \<Rightarrow> int \<Rightarrow> int \<Rightarrow> int \<Rightarrow> string \<Rightarrow> string \<Rightarrow>
     SettingRisk \<Rightarrow> ApplyRequirement \<Rightarrow> bool \<Rightarrow> bool \<Rightarrow> 'v SettingDefinition" where
  "integer_setting json key label description default_value minimum maximum unit operational_effect
     risk apply_requirement provider_overridable group_overridable =
     \<lparr>sd_key = key, sd_label = label, sd_description = description, sd_value_kind = Integer,
      sd_default_value = js_from_i64 json default_value, sd_minimum = Some minimum,
      sd_maximum = Some maximum, sd_choices = [], sd_unit = Some unit,
      sd_operational_effect = operational_effect, sd_risk = risk,
      sd_apply_requirement = apply_requirement, sd_provider_overridable = provider_overridable,
      sd_group_overridable = group_overridable\<rparr>"

definition choice_setting ::
    "'v Json \<Rightarrow> string \<Rightarrow> string \<Rightarrow> string \<Rightarrow> string \<Rightarrow> string list \<Rightarrow> string \<Rightarrow>
     SettingRisk \<Rightarrow> ApplyRequirement \<Rightarrow> bool \<Rightarrow> bool \<Rightarrow> 'v SettingDefinition" where
  "choice_setting json key label description default_value choices operational_effect
     risk apply_requirement provider_overridable group_overridable =
     \<lparr>sd_key = key, sd_label = label, sd_description = description, sd_value_kind = Choice,
      sd_default_value = js_from_str json default_value, sd_minimum = None,
      sd_maximum = None, sd_choices = choices, sd_unit = None,
      sd_operational_effect = operational_effect, sd_risk = risk,
      sd_apply_requirement = apply_requirement, sd_provider_overridable = provider_overridable,
      sd_group_overridable = group_overridable\<rparr>"

definition string_setting ::
    "'v Json \<Rightarrow> string \<Rightarrow> string \<Rightarrow> string \<Rightarrow> string \<Rightarrow> string \<Rightarrow>
     SettingRisk \<Rightarrow> ApplyRequirement \<Rightarrow> bool \<Rightarrow> bool \<Rightarrow> 'v SettingDefinition" where
  "string_setting json key label description default_value operational_effect
     risk apply_requirement provider_overridable group_overridable =
     \<lparr>sd_key = key, sd_label = label, sd_description = description, sd_value_kind = String,
      sd_default_value = js_from_str json default_value, sd_minimum = None,
      sd_maximum = None, sd_choices = [], sd_unit = None,
      sd_operational_effect = operational_effect, sd_risk = risk,
      sd_apply_requirement = apply_requirement, sd_provider_overridable = provider_overridable,
      sd_group_overridable = group_overridable\<rparr>"

definition setting_catalog :: "'v Json \<Rightarrow> 'v SettingDefinition list" where
  "setting_catalog json =
    [
      integer_setting json
        ''ingest.max_download_bytes''
        ''Maximum source download''
        ''Stops a catalogue or guide download after this many bytes; the previous active generation remains in service.''
        2147483648
        1048576
        8589934592
        ''bytes''
        ''Higher limits admit larger providers but require more temporary disk space.''
        Capacity
        Reimport
        True
        False,
      integer_setting json
        ''ingest.max_m3u_line_bytes''
        ''Maximum M3U line''
        ''Rejects an M3U logical line larger than this limit instead of allowing unbounded allocation.''
        1048576
        4096
        16777216
        ''bytes''
        ''Higher limits support unusual provider metadata at the cost of parser memory.''
        Capacity
        Reimport
        True
        False,
      integer_setting json
        ''media.ring.duration_seconds''
        ''Live ring duration''
        ''Keeps this many recent seconds for new or temporarily slow viewers.''
        8
        1
        120
        ''seconds''
        ''Higher values improve jitter tolerance and increase memory and tune latency.''
        Capacity
        Immediate
        True
        False,
      integer_setting json
        ''media.ring.max_bytes''
        ''Live ring byte ceiling''
        ''Caps the memory held by one active channel; old packet-aligned chunks are recycled at the limit.''
        67108864
        1048576
        1073741824
        ''bytes per channel''
        ''The effective ring is whichever limit is reached first: duration or bytes.''
        Capacity
        Immediate
        True
        False,
      integer_setting json
        ''media.viewer.start_delay_seconds''
        ''Viewer start delay''
        ''Keeps each viewer this far behind the newest data and paces output at real time, so provider gaps do not stall players. Zero turns pacing off.''
        30
        0
        30
        ''seconds''
        ''Higher values trade tune latency for smoother startup.''
        Low
        Immediate
        True
        False,
      integer_setting json
        ''media.recovery.window_seconds''
        ''Recovery window''
        ''Keeps downstream responses open while the channel actor reconnects or selects a fallback stream.''
        10
        0
        60
        ''seconds''
        ''Long recovery windows mask provider faults but can delay a visible terminal error.''
        Compatibility
        Immediate
        True
        False,
      choice_setting json
        ''media.adapter''
        ''Input adapter''
        ''Selects native MPEG-TS ingestion or a fixed FFmpeg/VLC stream-copy adapter.''
        ''auto''
        [''auto'', ''native-ts'', ''ffmpeg'', ''vlc'']
        ''Changing adapters can alter compatibility, startup time, and reconnect behavior.''
        Compatibility
        Immediate
        True
        False,
      integer_setting json
        ''events.inferred_duration_seconds''
        ''Inferred event duration''
        ''Sets the programme length when a dynamic channel title contains a start time but no end time.''
        10800
        300
        86400
        ''seconds''
        ''Generated filler is recalculated around the inferred programme interval.''
        Low
        Reimport
        True
        True,
      string_setting json
        ''events.filler_title''
        ''Filler programme title''
        ''Names the contiguous programme emitted before and after a dynamic event.''
        ''No programs available''
        ''The selected text is published in XMLTV for generated guide gaps.''
        Low
        Reimport
        True
        True
    ]"

section \<open>Resolution\<close>

text \<open>\<open>Iterator::collect\<close> into a \<open>Result\<close>: the first error, or all the values.\<close>

fun collect_result :: "('e + 'a) list \<Rightarrow> 'e + 'a list" where
  "collect_result [] = Inr []"
| "collect_result (x # xs) =
     (case x of
        Inl e \<Rightarrow> Inl e
      | Inr a \<Rightarrow> (case collect_result xs of Inl e \<Rightarrow> Inl e | Inr as \<Rightarrow> Inr (a # as)))"

definition resolve_one ::
    "'v Json \<Rightarrow> 'v SettingOverrides \<Rightarrow> string \<Rightarrow> string \<Rightarrow> 'v SettingDefinition \<Rightarrow>
     SettingValidationError + 'v EffectiveSetting" where
  "resolve_one json overrides provider_id group_id definition' =
     (let key = sd_key definition';
          selected =
            (case map_of (so_group overrides) key of
               Some v \<Rightarrow>
                 if \<not> sd_group_overridable definition' then Inl (GroupOverrideForbidden key)
                 else Inr (v, ChannelGroup group_id)
             | None \<Rightarrow>
                 (case map_of (so_provider overrides) key of
                    Some v \<Rightarrow>
                      if \<not> sd_provider_overridable definition' then Inl (ProviderOverrideForbidden key)
                      else Inr (v, Provider provider_id)
                  | None \<Rightarrow>
                      (case map_of (so_global overrides) key of
                         Some v \<Rightarrow> Inr (v, Global)
                       | None \<Rightarrow> Inr (sd_default_value definition', SystemDefault))))
      in case selected of
           Inl e \<Rightarrow> Inl e
         | Inr (v, inherited_from) \<Rightarrow>
             (case validate json definition' v of
                Inl e \<Rightarrow> Inl e
              | Inr u \<Rightarrow> Inr \<lparr>ef_definition = definition', ef_value = v,
                  ef_inherited_from = inherited_from\<rparr>))"

definition override_keys :: "'v SettingOverrides \<Rightarrow> string list" where
  "override_keys overrides =
     map fst (so_global overrides) @ map fst (so_provider overrides) @ map fst (so_group overrides)"

definition resolve_settings ::
    "'v Json \<Rightarrow> 'v SettingOverrides \<Rightarrow> string \<Rightarrow> string \<Rightarrow>
     SettingValidationError + 'v EffectiveSetting list" where
  "resolve_settings json overrides provider_id group_id =
     (let definitions = setting_catalog json in
      case find (\<lambda>key. key \<notin> set (map sd_key definitions)) (override_keys overrides) of
        Some key \<Rightarrow> Inl (UnknownSetting key)
      | None \<Rightarrow> collect_result (map (resolve_one json overrides provider_id group_id) definitions))"

section \<open>The value that counts\<close>

text \<open>The specification: the closest scope that has the setting, and whether it may have it.\<close>

definition closest :: "'v SettingOverrides \<Rightarrow> string \<Rightarrow> string \<Rightarrow> 'v SettingDefinition \<Rightarrow> 'v \<times> InheritanceSource" where
  "closest ov p g d =
     hd (List.map_filter (\<lambda>(m, source). map_option (\<lambda>v. (v, source)) (map_of m (sd_key d)))
           [(so_group ov, ChannelGroup g), (so_provider ov, Provider p), (so_global ov, Global)]
         @ [(sd_default_value d, SystemDefault)])"

definition permitted :: "'v SettingDefinition \<Rightarrow> InheritanceSource \<Rightarrow> bool" where
  "permitted d source =
     (case source of
        ChannelGroup g \<Rightarrow> sd_group_overridable d
      | Provider p \<Rightarrow> sd_provider_overridable d
      | _ \<Rightarrow> True)"

definition accepts :: "'v Json \<Rightarrow> 'v SettingDefinition \<Rightarrow> 'v \<Rightarrow> bool" where
  "accepts json d v =
     (case sd_value_kind d of
        Boolean \<Rightarrow> js_is_boolean json v
      | Integer \<Rightarrow> (\<exists>n. js_as_i64 json v = Some n \<and> unwrap_or (sd_minimum d) i64_min \<le> n \<and>
          n \<le> unwrap_or (sd_maximum d) i64_max)
      | String \<Rightarrow> js_is_string json v
      | Choice \<Rightarrow> (\<exists>s \<in> set (sd_choices d). js_as_str json v = Some s))"

lemma validate_accepts: "validate json d v = Inr u \<longleftrightarrow> accepts json d v"
  by (auto simp: validate_def accepts_def Let_def list_ex_iff split: SettingValueKind.splits option.splits)

definition effective :: "'v SettingOverrides \<Rightarrow> string \<Rightarrow> string \<Rightarrow> 'v SettingDefinition \<Rightarrow> 'v EffectiveSetting" where
  "effective ov p g d = \<lparr>ef_definition = d, ef_value = fst (closest ov p g d),
     ef_inherited_from = snd (closest ov p g d)\<rparr>"

lemmas resolve_defs = resolve_one_def closest_def permitted_def Let_def List.map_filter_def

lemma resolve_one_Inr:
  "resolve_one json ov p g d = Inr e \<longleftrightarrow>
     permitted d (snd (closest ov p g d)) \<and> accepts json d (fst (closest ov p g d)) \<and> e = effective ov p g d"
  unfolding validate_accepts [of json d _ "()", symmetric]
  by (auto simp: resolve_defs effective_def split: option.splits sum.splits)

lemma resolve_one_Inl:
  "resolve_one json ov p g d = Inl e \<longleftrightarrow>
     (if permitted d (snd (closest ov p g d)) then validate json d (fst (closest ov p g d)) = Inl e
      else e = (case snd (closest ov p g d) of
        ChannelGroup g \<Rightarrow> GroupOverrideForbidden (sd_key d) | _ \<Rightarrow> ProviderOverrideForbidden (sd_key d)))"
  by (auto simp: resolve_defs split: option.splits sum.splits)

lemma collect_result_all: "collect_result (map Inr ys) = Inr ys"
  by (induction ys) simp_all

lemma collect_result_Inr: "collect_result xs = Inr ys \<longleftrightarrow> xs = map Inr ys"
proof
  show "collect_result xs = Inr ys \<Longrightarrow> xs = map Inr ys"
    by (induction xs arbitrary: ys) (auto split: sum.splits)
qed (simp add: collect_result_all)

lemma collect_result_Inl: "collect_result xs = Inl e \<Longrightarrow> Inl e \<in> set xs"
  by (induction xs) (auto split: sum.splits)

lemma map_Inr_iff: "map f xs = map Inr ys \<longleftrightarrow> (\<forall>x \<in> set xs. \<exists>y. f x = Inr y) \<and> ys = map (projr \<circ> f) xs"
proof (induction xs arbitrary: ys)
  case (Cons x xs)
  then show ?case by (cases ys) auto
qed auto

section \<open>Properties\<close>

text \<open>when a set of overrides is accepted.  Resolution succeeds exactly when every overridden key
  is in the catalogue and, for every setting, the closest scope that has it may have it and its value
  is acceptable; the result is then, in catalogue order, each setting with the value and the name of
  its closest scope.\<close>

theorem resolve_settings_succeeds:
  "resolve_settings json ov p g = Inr result \<longleftrightarrow>
     set (override_keys ov) \<subseteq> sd_key ` set (setting_catalog json) \<and>
     (\<forall>d \<in> set (setting_catalog json).
        permitted d (snd (closest ov p g d)) \<and> accepts json d (fst (closest ov p g d))) \<and>
     result = map (effective ov p g) (setting_catalog json)"
proof -
  have known: "find (\<lambda>key. key \<notin> set (map sd_key (setting_catalog json))) (override_keys ov) = None \<longleftrightarrow>
      set (override_keys ov) \<subseteq> sd_key ` set (setting_catalog json)"
    by (auto simp: find_None_iff)
  have one: "(\<exists>y. resolve_one json ov p g d = Inr y) \<longleftrightarrow>
      permitted d (snd (closest ov p g d)) \<and> accepts json d (fst (closest ov p g d))" for d
    by (simp add: resolve_one_Inr)
  have val: "(projr \<circ> resolve_one json ov p g) d = effective ov p g d"
    if "permitted d (snd (closest ov p g d)) \<and> accepts json d (fst (closest ov p g d))" for d
    using that resolve_one_Inr [of json ov p g d "effective ov p g d"] by simp
  show ?thesis
  proof (cases "find (\<lambda>key. key \<notin> set (map sd_key (setting_catalog json))) (override_keys ov)")
    case (Some key)
    then show ?thesis using known by (simp add: resolve_settings_def)
  next
    case None
    then have "resolve_settings json ov p g = Inr result \<longleftrightarrow>
        (\<forall>d \<in> set (setting_catalog json).
           permitted d (snd (closest ov p g d)) \<and> accepts json d (fst (closest ov p g d))) \<and>
        result = map (projr \<circ> resolve_one json ov p g) (setting_catalog json)"
      by (simp add: resolve_settings_def collect_result_Inr map_Inr_iff one)
    also have "\<dots> \<longleftrightarrow>
        (\<forall>d \<in> set (setting_catalog json).
           permitted d (snd (closest ov p g d)) \<and> accepts json d (fst (closest ov p g d))) \<and>
        result = map (effective ov p g) (setting_catalog json)"
      using val map_cong [OF refl, of "setting_catalog json" "projr \<circ> resolve_one json ov p g"
        "effective ov p g"] by auto
    finally show ?thesis using None known by blast
  qed
qed


text \<open>The defaults of the catalogue are valid, whatever the JSON library, so a start without overrides
  succeeds.\<close>

lemma accepts_defaults:
  assumes "json_laws json"
  shows "minimum \<le> n \<Longrightarrow> n \<le> maximum \<Longrightarrow> i64_min \<le> n \<Longrightarrow> n \<le> i64_max \<Longrightarrow>
      accepts json (integer_setting json k l ds n minimum maximum u e r a pv gr) (js_from_i64 json n)"
    and "s \<in> set cs \<Longrightarrow> accepts json (choice_setting json k l ds s cs e r a pv gr) (js_from_str json s)"
    and "accepts json (string_setting json k l ds s e r a pv gr) (js_from_str json s)"
  using assms
  by (simp_all add: accepts_def json_laws_def integer_setting_def choice_setting_def string_setting_def)

lemma setting_default_simps [simp]:
  "sd_default_value (integer_setting json k l ds n minimum maximum u e r a pv gr) = js_from_i64 json n"
  "sd_default_value (choice_setting json k l ds s cs e r a pv gr) = js_from_str json s"
  "sd_default_value (string_setting json k l ds s e r a pv gr) = js_from_str json s"
  "sd_key (integer_setting json k l ds n minimum maximum u e r a pv gr) = k"
  "sd_key (choice_setting json k l ds s cs e r a pv gr) = k"
  "sd_key (string_setting json k l ds s e r a pv gr) = k"
  by (simp_all add: integer_setting_def choice_setting_def string_setting_def)

lemma catalog_defaults_accepted:
  assumes "json_laws json"
  shows "list_all (\<lambda>d. accepts json d (sd_default_value d)) (setting_catalog json)"
  unfolding setting_catalog_def by (simp add: accepts_defaults [OF assms])

lemma catalog_keys:
  "map sd_key (setting_catalog json) =
     [''ingest.max_download_bytes'', ''ingest.max_m3u_line_bytes'', ''media.ring.duration_seconds'',
      ''media.ring.max_bytes'', ''media.viewer.start_delay_seconds'', ''media.recovery.window_seconds'',
      ''media.adapter'', ''events.inferred_duration_seconds'', ''events.filler_title'']"
  unfolding setting_catalog_def by simp

lemma catalog_keys_distinct: "distinct (map sd_key (setting_catalog json))"
  unfolding catalog_keys by simp

definition no_overrides :: "'v SettingOverrides" where
  "no_overrides = \<lparr>so_global = [], so_provider = [], so_group = []\<rparr>"

lemma closest_default: "closest no_overrides p g d = (sd_default_value d, SystemDefault)"
  by (simp add: closest_def no_overrides_def List.map_filter_def)

lemma override_keys_none: "override_keys no_overrides = []"
  by (simp add: override_keys_def no_overrides_def)

datatype JsonValue = JBool bool | JInt int | JStr string

definition plain_json :: "JsonValue Json" where
  "plain_json = \<lparr>js_is_boolean = (\<lambda>v. case v of JBool _ \<Rightarrow> True | _ \<Rightarrow> False),
     js_as_i64 = (\<lambda>v. case v of JInt n \<Rightarrow> if i64_min \<le> n \<and> n \<le> i64_max then Some n else None | _ \<Rightarrow> None),
     js_is_string = (\<lambda>v. case v of JStr _ \<Rightarrow> True | _ \<Rightarrow> False),
     js_as_str = (\<lambda>v. case v of JStr s \<Rightarrow> Some s | _ \<Rightarrow> None),
     js_from_i64 = JInt, js_from_str = JStr\<rparr>"

lemma plain_json_laws: "json_laws plain_json"
  by (simp add: json_laws_def plain_json_def)

theorem resolve_settings_succeeds_witness:
  "resolve_settings plain_json no_overrides ''p'' ''g'' =
     Inr (map (effective no_overrides ''p'' ''g'') (setting_catalog plain_json))"
proof -
  have "accepts plain_json d (fst (closest no_overrides ''p'' ''g'' d))"
    if "d \<in> set (setting_catalog plain_json)" for d
    using catalog_defaults_accepted [OF plain_json_laws] that by (simp add: closest_default list_all_iff)
  then show ?thesis
    unfolding resolve_settings_succeeds
    by (simp add: closest_default permitted_def override_keys_none)
qed

lemma validate_error:
  assumes "validate json d v = Inl e"
  shows "e \<noteq> UnknownSetting key \<and> e \<noteq> ProviderOverrideForbidden key \<and> e \<noteq> GroupOverrideForbidden key"
  using assms
  by (auto simp: validate_def wrong_type_def Let_def split: SettingValueKind.splits option.splits if_splits)

text \<open>what a refusal means.  An unknown key is the first override, in the order global, provider,
  group, whose key the catalogue does not have; a forbidden scope is reported for a setting that
  this scope overrides and may not; any other error is that of the validation of the value of the
  closest scope, and the value is indeed unacceptable.\<close>

theorem resolve_settings_refuses:
  assumes "resolve_settings json ov p g = Inl e"
  shows "case e of
      UnknownSetting key \<Rightarrow>
        find (\<lambda>k. k \<notin> sd_key ` set (setting_catalog json)) (override_keys ov) = Some key
    | GroupOverrideForbidden key \<Rightarrow>
        (\<exists>d \<in> set (setting_catalog json). sd_key d = key \<and> \<not> sd_group_overridable d \<and>
           map_of (so_group ov) key \<noteq> None)
    | ProviderOverrideForbidden key \<Rightarrow>
        (\<exists>d \<in> set (setting_catalog json). sd_key d = key \<and> \<not> sd_provider_overridable d \<and>
           map_of (so_group ov) key = None \<and> map_of (so_provider ov) key \<noteq> None)
    | _ \<Rightarrow> (\<exists>d \<in> set (setting_catalog json). permitted d (snd (closest ov p g d)) \<and>
           \<not> accepts json d (fst (closest ov p g d)) \<and>
           validate json d (fst (closest ov p g d)) = Inl e)"
proof (cases "find (\<lambda>k. k \<notin> sd_key ` set (setting_catalog json)) (override_keys ov)")
  case (Some key)
  then have "e = UnknownSetting key" using assms by (simp add: resolve_settings_def)
  with Some show ?thesis by simp
next
  case None
  then have "collect_result (map (resolve_one json ov p g) (setting_catalog json)) = Inl e"
    using assms by (simp add: resolve_settings_def)
  then obtain d where d: "d \<in> set (setting_catalog json)" "resolve_one json ov p g d = Inl e"
    by (auto dest!: collect_result_Inl)
  show ?thesis
  proof (cases "permitted d (snd (closest ov p g d))")
    case True
    then have v: "validate json d (fst (closest ov p g d)) = Inl e" using d(2) by (simp add: resolve_one_Inl)
    then have "\<not> accepts json d (fst (closest ov p g d))"
      using validate_accepts [of json d "fst (closest ov p g d)" "()"] by simp
    with True v d(1) validate_error [OF v] show ?thesis by (cases e) auto
  next
    case False
    then show ?thesis using d by (auto simp: resolve_defs split: option.splits)
  qed
qed

theorem resolve_settings_refuses_witness:
  "resolve_settings plain_json
       \<lparr>so_global = [], so_provider = [], so_group = [(''media.adapter'', JStr ''vlc'')]\<rparr> ''p'' ''g'' =
     Inl (GroupOverrideForbidden ''media.adapter'') \<and>
   (\<exists>d \<in> set (setting_catalog plain_json). sd_key d = ''media.adapter'' \<and> \<not> sd_group_overridable d)"
proof -
  let ?ov = "\<lparr>so_global = [], so_provider = [], so_group = [(''media.adapter'', JStr ''vlc'')]\<rparr>"
  have r: "resolve_settings plain_json ?ov ''p'' ''g'' = Inl (GroupOverrideForbidden ''media.adapter'')"
    unfolding resolve_settings_def setting_catalog_def
    by (simp add: override_keys_def resolve_one_def integer_setting_def choice_setting_def
        string_setting_def validate_def plain_json_def Let_def)
  from resolve_settings_refuses [OF r] r show ?thesis by auto
qed


end
