(* ===== verification/Unicode.thy ===== *)
theory Unicode
  imports Prelude
begin

text \<open>
  Rust strings.

  A \<open>str\<close> is the list of its Unicode scalar values.  The operations below are those of
  \<open>core::str\<close> and \<open>core::char\<close> that the parsers and the domain call.  Code that walks the bytes of
  a string only ever compares them with ASCII bytes, which never occur inside the encoding of another
  scalar, so it is a walk over the scalar values; where a byte length matters it is \<open>str_len\<close>.
  \<open>from_utf8\<close> is the strict decoder of \<open>String::from_utf8\<close>, with the ranges of the Unicode
  standard (no surrogates, no overlong forms).
\<close>

section \<open>Scalar values\<close>

type_synonym uchar = nat
type_synonym str = "uchar list"

text \<open>A string literal of the source (all of them are ASCII).\<close>

definition lit :: "string \<Rightarrow> str" where
  "lit s = map of_char s"

lemma lit_simps [simp]: "lit [] = []" "lit (c # s) = of_char c # lit s"
  by (simp_all add: lit_def)

lemma lit_append [simp]: "lit (s @ t) = lit s @ lit t"
  by (simp add: lit_def)

definition is_scalar :: "uchar \<Rightarrow> bool" where
  "is_scalar c \<longleftrightarrow> c < 0xD800 \<or> 0xE000 \<le> c \<and> c < 0x110000"

text \<open>\<open>char::is_whitespace\<close> (the property \<open>White_Space\<close>) and \<open>u8::is_ascii_whitespace\<close>.\<close>

definition is_whitespace :: "uchar \<Rightarrow> bool" where
  "is_whitespace c \<longleftrightarrow> 9 \<le> c \<and> c \<le> 13 \<or> c = 32 \<or> c = 0x85 \<or> c = 0xA0 \<or> c = 0x1680 \<or>
     0x2000 \<le> c \<and> c \<le> 0x200A \<or> c = 0x2028 \<or> c = 0x2029 \<or> c = 0x202F \<or> c = 0x205F \<or> c = 0x3000"

definition is_ascii_whitespace :: "uchar \<Rightarrow> bool" where
  "is_ascii_whitespace c \<longleftrightarrow> c = 32 \<or> c = 9 \<or> c = 10 \<or> c = 12 \<or> c = 13"

definition is_ascii_digit :: "uchar \<Rightarrow> bool" where
  "is_ascii_digit c \<longleftrightarrow> 48 \<le> c \<and> c \<le> 57"

definition ascii_lower :: "uchar \<Rightarrow> uchar" where
  "ascii_lower c = (if 65 \<le> c \<and> c \<le> 90 then c + 32 else c)"

lemma ascii_whitespace_is_whitespace: "is_ascii_whitespace c \<Longrightarrow> is_whitespace c"
  by (auto simp: is_ascii_whitespace_def is_whitespace_def)

lemma ascii_lower_idem [simp]: "ascii_lower (ascii_lower c) = ascii_lower c"
  by (simp add: ascii_lower_def)

section \<open>Operations on strings\<close>

definition utf8_len :: "uchar \<Rightarrow> nat" where
  "utf8_len c = (if c < 0x80 then 1 else if c < 0x800 then 2 else if c < 0x10000 then 3 else 4)"

definition str_len :: "str \<Rightarrow> nat" where
  "str_len s = sum_list (map utf8_len s)"

lemma str_len_simps [simp]: "str_len [] = 0" "str_len (c # s) = utf8_len c + str_len s"
  by (simp_all add: str_len_def)

lemma str_len_append [simp]: "str_len (s @ t) = str_len s + str_len t"
  by (simp add: str_len_def)

lemma length_le_str_len: "length s \<le> str_len s"
  by (induction s) (auto simp: utf8_len_def)

definition to_ascii_lowercase :: "str \<Rightarrow> str" where
  "to_ascii_lowercase s = map ascii_lower s"

definition eq_ignore_ascii_case :: "str \<Rightarrow> str \<Rightarrow> bool" where
  "eq_ignore_ascii_case s t \<longleftrightarrow> to_ascii_lowercase s = to_ascii_lowercase t"

definition trim_start_by :: "(uchar \<Rightarrow> bool) \<Rightarrow> str \<Rightarrow> str" where
  "trim_start_by P s = dropWhile P s"

definition trim_end_by :: "(uchar \<Rightarrow> bool) \<Rightarrow> str \<Rightarrow> str" where
  "trim_end_by P s = rev (dropWhile P (rev s))"

definition str_trim :: "str \<Rightarrow> str" where
  "str_trim s = trim_end_by is_whitespace (trim_start_by is_whitespace s)"

definition strip_prefix :: "str \<Rightarrow> str \<Rightarrow> str option" where
  "strip_prefix p s = (if take (length p) s = p then Some (drop (length p) s) else None)"

definition starts_with :: "str \<Rightarrow> str \<Rightarrow> bool" where
  "starts_with p s \<longleftrightarrow> take (length p) s = p"

definition split_once :: "uchar \<Rightarrow> str \<Rightarrow> (str \<times> str) option" where
  "split_once c s =
     (if c \<in> set s then Some (takeWhile (\<lambda>x. x \<noteq> c) s, drop 1 (dropWhile (\<lambda>x. x \<noteq> c) s)) else None)"

section \<open>Trimming\<close>

lemma trim_end_by_Nil [simp]: "trim_end_by P [] = []"
  by (simp add: trim_end_by_def)

lemma trim_end_by_snoc [simp]:
  "trim_end_by P (s @ [c]) = (if P c then trim_end_by P s else s @ [c])"
  by (simp add: trim_end_by_def)

lemma trim_end_by_none: "\<forall>c \<in> set s. \<not> P c \<Longrightarrow> trim_end_by P s = s"
  by (simp add: trim_end_by_def dropWhile_none)

lemma trim_end_by_set: "set (trim_end_by P s) \<subseteq> set s"
  unfolding trim_end_by_def using set_dropWhileD by fastforce

lemma trim_end_by_split: "\<exists>w. s = trim_end_by P s @ w \<and> (\<forall>c \<in> set w. P c)"
proof -
  have "rev s = takeWhile P (rev s) @ dropWhile P (rev s)" by simp
  then have "s = rev (dropWhile P (rev s)) @ rev (takeWhile P (rev s))" by (metis rev_append rev_rev_ident)
  moreover have "\<forall>c \<in> set (rev (takeWhile P (rev s))). P c" by (auto dest: set_takeWhileD)
  ultimately show ?thesis unfolding trim_end_by_def by blast
qed

lemma trim_end_by_last: "trim_end_by P s \<noteq> [] \<Longrightarrow> \<not> P (last (trim_end_by P s))"
  unfolding trim_end_by_def by (simp add: last_rev hd_dropWhile)

lemma str_trim_none: "\<forall>c \<in> set s. \<not> is_whitespace c \<Longrightarrow> str_trim s = s"
  by (simp add: str_trim_def trim_start_by_def dropWhile_none trim_end_by_none)

lemma str_trim_set: "set (str_trim s) \<subseteq> set s"
proof -
  have "set (dropWhile is_whitespace s) \<subseteq> set s" by (auto dest: set_dropWhileD)
  then show ?thesis
    unfolding str_trim_def trim_start_by_def by (rule subset_trans [OF trim_end_by_set])
qed

lemma trim_end_by_hd: "\<not> P c \<Longrightarrow> \<exists>t. trim_end_by P (c # s) = c # t"
proof (induction s rule: rev_induct)
  case Nil
  then show ?case using trim_end_by_snoc [of P "[]" c] by simp
next
  case (snoc d s)
  have "trim_end_by P ((c # s) @ [d]) = (if P d then trim_end_by P (c # s) else (c # s) @ [d])"
    by (rule trim_end_by_snoc)
  with snoc show ?case by auto
qed

text \<open>A string whose first and last scalars are not white space is not changed by \<open>trim\<close>.\<close>

lemma str_trim_id:
  assumes "s \<noteq> [] \<Longrightarrow> \<not> is_whitespace (hd s)" and "s \<noteq> [] \<Longrightarrow> \<not> is_whitespace (last s)"
  shows "str_trim s = s"
proof (cases s rule: rev_cases)
  case Nil
  then show ?thesis by (simp add: str_trim_def trim_start_by_def)
next
  case (snoc t c)
  then have "dropWhile is_whitespace s = s" using assms(1) by (cases t) auto
  with snoc assms(2) show ?thesis by (simp add: str_trim_def trim_start_by_def)
qed

section \<open>UTF-8\<close>

definition cont :: "u8 \<Rightarrow> nat \<Rightarrow> nat \<Rightarrow> bool" where
  "cont b lo hi \<longleftrightarrow> lo \<le> unat b \<and> unat b \<le> hi"

definition low6 :: "u8 \<Rightarrow> nat" where
  "low6 b = unat b mod 64"

fun from_utf8 :: "bytes \<Rightarrow> str option" where
  "from_utf8 [] = Some []"
| "from_utf8 (a # s) =
     (let n = unat a in
      if n < 0x80 then map_option ((#) n) (from_utf8 s)
      else if 0xC2 \<le> n \<and> n \<le> 0xDF then
        (case s of
           b # s' \<Rightarrow> if cont b 0x80 0xBF
             then map_option ((#) ((n - 0xC0) * 64 + low6 b)) (from_utf8 s') else None
         | _ \<Rightarrow> None)
      else if 0xE0 \<le> n \<and> n \<le> 0xEF then
        (case s of
           b # c # s' \<Rightarrow>
             if cont b (if n = 0xE0 then 0xA0 else 0x80) (if n = 0xED then 0x9F else 0xBF) \<and> cont c 0x80 0xBF
             then map_option ((#) ((n - 0xE0) * 4096 + low6 b * 64 + low6 c)) (from_utf8 s') else None
         | _ \<Rightarrow> None)
      else if 0xF0 \<le> n \<and> n \<le> 0xF4 then
        (case s of
           b # c # d # s' \<Rightarrow>
             if cont b (if n = 0xF0 then 0x90 else 0x80) (if n = 0xF4 then 0x8F else 0xBF) \<and>
                cont c 0x80 0xBF \<and> cont d 0x80 0xBF
             then map_option ((#) ((n - 0xF0) * 262144 + low6 b * 4096 + low6 c * 64 + low6 d)) (from_utf8 s')
             else None
         | _ \<Rightarrow> None)
      else None)"

definition byte :: "nat \<Rightarrow> u8" where
  "byte n = of_nat n"

definition utf8_char :: "uchar \<Rightarrow> bytes" where
  "utf8_char c =
     map byte
       (if c < 0x80 then [c]
        else if c < 0x800 then [0xC0 + c div 64, 0x80 + c mod 64]
        else if c < 0x10000 then [0xE0 + c div 4096, 0x80 + c div 64 mod 64, 0x80 + c mod 64]
        else [0xF0 + c div 262144, 0x80 + c div 4096 mod 64, 0x80 + c div 64 mod 64, 0x80 + c mod 64])"

definition as_bytes :: "str \<Rightarrow> bytes" where
  "as_bytes s = concat (map utf8_char s)"

lemma as_bytes_simps [simp]: "as_bytes [] = []" "as_bytes (c # s) = utf8_char c @ as_bytes s"
  by (simp_all add: as_bytes_def)

lemma as_bytes_append [simp]: "as_bytes (s @ t) = as_bytes s @ as_bytes t"
  by (simp add: as_bytes_def)

lemma length_as_bytes: "length (as_bytes s) = str_len s"
  by (induction s) (auto simp: utf8_char_def utf8_len_def)

lemma unat_byte: "n < 256 \<Longrightarrow> unat (byte n) = n"
  by (simp add: byte_def unat_of_nat)

lemma low6_byte: "n < 64 \<Longrightarrow> low6 (byte (128 + n)) = n"
  by (simp add: low6_def unat_byte mod_add_eq [symmetric, of 128 n])

lemma cont_byte: "n < 64 \<Longrightarrow> cont (byte (128 + n)) lo hi \<longleftrightarrow> lo \<le> 128 + n \<and> 128 + n \<le> hi"
  by (simp add: cont_def unat_byte)

lemma mod_64 [simp]: "(c :: nat) mod 64 < 64" "(c :: nat) mod 64 \<le> 63"
  using mod_less_divisor [of 64 c] by auto

lemma from_utf8_char:
  assumes "is_scalar c"
  shows "from_utf8 (utf8_char c @ s) = map_option ((#) c) (from_utf8 s)"
proof -
  consider "c < 0x80" | "0x80 \<le> c" "c < 0x800" | "0x800 \<le> c" "c < 0x10000" | "0x10000 \<le> c" "c < 0x110000"
    using assms unfolding is_scalar_def by linarith
  then show ?thesis
  proof cases
    case 1
    then show ?thesis by (simp add: utf8_char_def unat_byte)
  next
    case 2
    then have "2 \<le> c div 64" "c div 64 < 32" by auto
    with 2 show ?thesis by (simp add: utf8_char_def unat_byte cont_byte low6_byte Let_def)
  next
    case 3
    have m: "c div 4096 * 64 + c div 64 mod 64 = c div 64"
      using div_mult_mod_eq [of "c div 64" 64] by (simp add: div_mult2_eq [symmetric])
    have d: "c div 4096 < 16" "c div 64 mod 64 < 64" using 3 by auto
    have e0: "c div 4096 = 0 \<Longrightarrow> 32 \<le> c div 64 mod 64" using 3 m by auto
    have ed: "c div 4096 = 13 \<Longrightarrow> c div 64 mod 64 < 32"
      using assms 3 m unfolding is_scalar_def by linarith
    have v: "c div 4096 * 4096 + (c div 64 mod 64) * 64 + c mod 64 = c"
      using m div_mult_mod_eq [of c 64] by linarith
    from 3 d e0 ed v show ?thesis
      by (auto simp: utf8_char_def unat_byte cont_byte low6_byte Let_def)
  next
    case 4
    have m: "c div 4096 * 64 + c div 64 mod 64 = c div 64"
      using div_mult_mod_eq [of "c div 64" 64] by (simp add: div_mult2_eq [symmetric])
    have m': "c div 262144 * 64 + c div 4096 mod 64 = c div 4096"
      using div_mult_mod_eq [of "c div 4096" 64] by (simp add: div_mult2_eq [symmetric])
    have d: "c div 262144 \<le> 4" "c div 4096 mod 64 < 64" "c div 64 mod 64 < 64" using 4 by auto
    have f0: "c div 262144 = 0 \<Longrightarrow> 16 \<le> c div 4096 mod 64" using 4 m' by auto
    have f4: "c div 262144 = 4 \<Longrightarrow> c div 4096 mod 64 < 16" using 4 m' by auto
    have v: "c div 262144 * 262144 + (c div 4096 mod 64) * 4096 + (c div 64 mod 64) * 64 + c mod 64 = c"
      using m m' div_mult_mod_eq [of c 64] by linarith
    from 4 d f0 f4 v show ?thesis
      by (auto simp: utf8_char_def unat_byte cont_byte low6_byte Let_def)
  qed
qed

lemma from_utf8_as_bytes: "\<forall>c \<in> set s. is_scalar c \<Longrightarrow> from_utf8 (as_bytes s) = Some s"
proof (induction s)
  case Nil
  show ?case by simp
next
  case (Cons c s)
  then show ?case using from_utf8_char [of c "as_bytes s"] by simp
qed

section \<open>Numbers and words\<close>

text \<open>
  \<open>str::parse\<close> of an unsigned type below \<open>bound\<close>: an optional plus sign and at least one digit.
  \<open>split_whitespace\<close>, \<open>join\<close> and \<open>contains\<close> are those of \<open>str\<close>.
\<close>

definition digits :: "str \<Rightarrow> bool" where
  "digits s \<longleftrightarrow> (\<forall>c \<in> set s. is_ascii_digit c)"

definition num :: "str \<Rightarrow> nat" where
  "num s = foldl (\<lambda>n c. 10 * n + (c - 48)) 0 s"

lemma digits_simps [simp]:
  "digits []" "digits (c # s) \<longleftrightarrow> is_ascii_digit c \<and> digits s" "digits (s @ t) \<longleftrightarrow> digits s \<and> digits t"
  "digits (replicate n 48)"
  by (auto simp: digits_def is_ascii_digit_def)

lemma num_Nil [simp]: "num [] = 0"
  by (simp add: num_def)

lemma num_snoc: "num (s @ [c]) = 10 * num s + (c - 48)"
  by (simp add: num_def)

lemma num_append: "num (s @ t) = num s * 10 ^ length t + num t"
proof (induction t rule: rev_induct)
  case (snoc c t)
  then show ?case unfolding append_assoc [symmetric] num_snoc by simp
qed simp

lemma num_zeros [simp]: "num (replicate n 48) = 0"
  by (induction n) (simp_all add: num_append [of "[48]", simplified] num_snoc [of "[]", simplified])

lemma num_less: "digits s \<Longrightarrow> num s < 10 ^ length s"
  by (induction s rule: rev_induct) (auto simp: num_snoc is_ascii_digit_def)

text \<open>Digit strings of one length are determined by their value.\<close>

lemma num_inject:
  assumes "length s = length t" and "digits s" and "digits t" and "num s = num t"
  shows "s = t"
  using assms
proof (induction s arbitrary: t rule: rev_induct)
  case (snoc c s)
  then obtain t' d where t: "t = t' @ [d]" by (cases t rule: rev_cases) auto
  have b: "c - 48 < 10" "d - 48 < 10" "48 \<le> c" "48 \<le> d" using snoc.prems t by (auto simp: is_ascii_digit_def)
  have e: "10 * num s + (c - 48) = 10 * num t' + (d - 48)" using snoc.prems t by (simp add: num_snoc)
  then have n: "num s = num t'" using b by linarith
  then have "c = d" using e b(3,4) by simp
  with snoc t n show ?case by simp
qed simp

definition parse_unsigned :: "nat \<Rightarrow> str \<Rightarrow> nat option" where
  "parse_unsigned bound s =
     (let ds = (case s of c # rest \<Rightarrow> if c = 43 then rest else s | [] \<Rightarrow> [])
      in if ds \<noteq> [] \<and> digits ds \<and> num ds < bound then Some (num ds) else None)"

fun split_words :: "str \<Rightarrow> str \<Rightarrow> str list" where
  "split_words word [] = (if word = [] then [] else [word])"
| "split_words word (c # s) =
     (if is_whitespace c then (if word = [] then split_words [] s else word # split_words [] s)
      else split_words (word @ [c]) s)"

definition split_whitespace :: "str \<Rightarrow> str list" where
  "split_whitespace s = split_words [] s"

fun str_join :: "str \<Rightarrow> str list \<Rightarrow> str" where
  "str_join sep [] = []"
| "str_join sep [s] = s"
| "str_join sep (s # t # rest) = s @ sep @ str_join sep (t # rest)"

fun str_has :: "str \<Rightarrow> str \<Rightarrow> bool" where
  "str_has pat [] \<longleftrightarrow> pat = []"
| "str_has pat (c # s) \<longleftrightarrow> starts_with pat (c # s) \<or> str_has pat s"

text \<open>The decimal digits of a number, as its \<open>Display\<close> writes them.\<close>

fun decimal :: "nat \<Rightarrow> str" where
  "decimal n = (if n < 10 then [48 + n] else decimal (n div 10) @ [48 + n mod 10])"

declare decimal.simps [simp del]

lemma decimal_digits: "digits (decimal n)" "decimal n \<noteq> []"
proof (induction n rule: decimal.induct)
  case (1 n)
  { case 1 show ?case using "1.IH" by (subst decimal.simps) (auto simp: is_ascii_digit_def) }
  { case 2 show ?case by (subst decimal.simps) simp }
qed

lemma num_decimal [simp]: "num (decimal n) = n"
proof (induction n rule: decimal.induct)
  case (1 n)
  then show ?case by (subst decimal.simps) (auto simp: num_snoc num_snoc [of "[]", simplified])
qed

lemma parse_unsigned_decimal: "n < bound \<Longrightarrow> parse_unsigned bound (decimal n) = Some n"
proof -
  assume "n < bound"
  moreover have "\<exists>c s. decimal n = c # s \<and> c \<noteq> 43"
    using decimal_digits [of n] by (cases "decimal n") (auto simp: is_ascii_digit_def)
  ultimately show ?thesis using decimal_digits [of n] num_decimal [of n]
    by (auto simp: parse_unsigned_def Let_def simp del: num_decimal)
qed

end
