(* ===== verification/Catalog.thy ===== *)
theory Catalog
  imports Unicode
begin

text \<open>
  Channels and regions (\<open>crates/domain/src/catalog.rs\<close>, \<open>crates/domain/src/regions.rs\<close>).

  Identifiers are fresh UUIDs and arguments of the constructors; URLs belong to the \<open>url\<close> crate and
  are a type parameter.  A channel number is checked scalar by scalar with the byte index the code
  uses, then brought into canonical form.

  Main results: two accepted channel numbers are the same exactly when their decimal values are; a
  canonical number parses to itself; the prefixes suggested for a time zone have no duplicates and
  contain the international ones, and all but one of them are prefixes that providers use.
\<close>

section \<open>Data\<close>

record 'i Provider =
  pr_id :: 'i
  pr_name :: str
  pr_max_connections :: nat
  pr_metadata :: "str \<Rightarrow> str option"

datatype ProviderError = EmptyName | ZeroConnections

datatype SourceKind = Auto | HttpTransportStream | Hls | Udp | Rtp | Rtsp

record ('i, 'u) Source =
  sr_id :: 'i
  sr_provider_id :: 'i
  sr_url :: 'u
  sr_kind :: SourceKind
  sr_priority :: int
  sr_provider_stream_id :: "str option"
  sr_epg_id :: "str option"
  sr_metadata :: "str \<Rightarrow> str option"

record ChannelGroup =
  cg_name :: str
  cg_metadata :: "str \<Rightarrow> str option"

datatype ChannelNumber = ChannelNumber (as_str: str)

datatype ChannelNumberError = Invalid

record ('i, 'u) Channel =
  ch_id :: 'i
  ch_name :: str
  ch_number :: "ChannelNumber option"
  ch_group :: "ChannelGroup option"
  ch_tvg_id :: "str option"
  ch_logo :: "'u option"
  ch_sources :: "'i list"
  ch_metadata :: "str \<Rightarrow> str option"

section \<open>Constructors\<close>

definition provider_new :: "'i \<Rightarrow> str \<Rightarrow> nat \<Rightarrow> ProviderError + 'i Provider" where
  "provider_new fresh name max_connections =
     (let name = str_trim name in
      if name = [] then Inl EmptyName
      else if max_connections = 0 then Inl ZeroConnections
      else Inr \<lparr>pr_id = fresh, pr_name = name, pr_max_connections = max_connections,
             pr_metadata = (\<lambda>_. None)\<rparr>)"

definition channel_new :: "'i \<Rightarrow> str \<Rightarrow> ('i, 'u) Channel" where
  "channel_new fresh name =
     \<lparr>ch_id = fresh, ch_name = name, ch_number = None, ch_group = None, ch_tvg_id = None,
      ch_logo = None, ch_sources = [], ch_metadata = (\<lambda>_. None)\<rparr>"

section \<open>Channel numbers\<close>

text \<open>The loop over \<open>char_indices\<close>; 46 is the dot.\<close>

fun number_scan :: "nat \<Rightarrow> nat \<Rightarrow> bool \<Rightarrow> str \<Rightarrow> bool" where
  "number_scan len index dot_seen [] = True"
| "number_scan len index dot_seen (character # rest) =
     (if is_ascii_digit character then number_scan len (index + utf8_len character) dot_seen rest
      else if character = 46 \<and> \<not> dot_seen \<and> index > 0 \<and> index + 1 < len
      then number_scan len (index + utf8_len character) True rest
      else False)"

definition channel_number_new :: "str \<Rightarrow> ChannelNumberError + ChannelNumber" where
  "channel_number_new input =
     (let v = str_trim input in
      if v = [] \<or> str_len v > 32 then Inl Invalid
      else if \<not> number_scan (str_len v) 0 False v then Inl Invalid
      else
        let (whole, fractional) = unwrap_or (split_once 46 v) (v, []);
            whole = trim_start_by (\<lambda>c. c = 48) whole;
            whole = (if whole = [] then lit ''0'' else whole);
            fractional = trim_end_by (\<lambda>c. c = 48) fractional;
            canonical = (if fractional = [] then whole else whole @ [46] @ fractional)
        in Inr (ChannelNumber canonical))"

section \<open>Regions\<close>

definition REGION_PREFIXES :: "string list" where
  "REGION_PREFIXES =
    [''US'', ''USA'', ''CAN'', ''EN'', ''UK'', ''AU'', ''NZ'', ''LA'', ''BR'', ''ESP'', ''PT'',
     ''IT'', ''FR'', ''QC'', ''DE'', ''AT'', ''CH'', ''NL'', ''BE'', ''SE'', ''DK'', ''NO'',
     ''FI'', ''SCAN'', ''IS'', ''PL'', ''GR'', ''BG'', ''RO'', ''HU'', ''CZ'', ''SK'', ''SL'',
     ''AL'', ''RS'', ''HR'', ''MK'', ''BH'', ''KO'', ''EXYU'', ''RU'', ''BY'', ''UKR'', ''LT'',
     ''LV'', ''EE'', ''EST'', ''TR'', ''IR'', ''ARA'', ''AF'', ''AFRICAN'', ''AFG'', ''IN'',
     ''PK'', ''LK'', ''BAN'', ''PH'', ''ID'', ''TH'', ''VT'', ''MY'', ''SG'', ''HK'', ''CN'',
     ''JP'', ''SK'', ''TW'', ''KA'', ''GLOBAL'', ''MULTI'', ''EU'', ''SPT'', ''MU'']"

definition regional_prefixes :: "string \<Rightarrow> string list" where
  "regional_prefixes timezone =
     (if timezone \<in> set
         [''America/New_York'', ''America/Denver'', ''America/Chicago'', ''America/Los_Angeles'',
          ''America/Phoenix'', ''America/Detroit'', ''America/Toronto'', ''America/Vancouver'',
          ''America/Edmonton'', ''America/Halifax'', ''America/Winnipeg'', ''America/Saskatoon'',
          ''US/Eastern'', ''US/Central'', ''US/Mountain'', ''US/Pacific'', ''US/Arizona'',
          ''Canada/Eastern'', ''Canada/Central'', ''Canada/Mountain'', ''Canada/Pacific'']
      then [''US'', ''USA'', ''CAN'', ''EN'', ''LA'']
      else if timezone \<in> set
         [''America/Mexico_City'', ''America/Bogota'', ''America/Lima'', ''America/Buenos_Aires'',
          ''America/Santiago'', ''America/Sao_Paulo'', ''America/Caracas'', ''America/Guatemala'',
          ''America/Havana'']
      then [''LA'', ''BR'', ''ES'', ''PT'']
      else if timezone \<in> set
         [''Europe/London'', ''Europe/Dublin'', ''GMT'', ''Etc/GMT'', ''Atlantic/Reykjavik'']
      then [''UK'', ''EN'']
      else if timezone \<in> set
         [''Europe/Paris'', ''Europe/Brussels'', ''Europe/Amsterdam'', ''Europe/Luxembourg'',
          ''Europe/Madrid'', ''Europe/Lisbon'', ''CET'']
      then [''FR'', ''QC'', ''ESP'', ''PT'', ''NL'', ''BE'', ''EN'']
      else if timezone \<in> set
         [''Europe/Berlin'', ''Europe/Vienna'', ''Europe/Zurich'', ''Europe/Rome'',
          ''Europe/Athens'', ''Europe/Malta'']
      then [''DE'', ''AT'', ''CH'', ''IT'', ''GR'', ''EN'']
      else if timezone \<in> set
         [''Europe/Stockholm'', ''Europe/Copenhagen'', ''Europe/Oslo'', ''Europe/Helsinki'',
          ''Europe/Tallinn'']
      then [''SE'', ''DK'', ''NO'', ''FI'', ''SCAN'', ''EN'']
      else if timezone \<in> set
         [''Europe/Warsaw'', ''Europe/Budapest'', ''Europe/Prague'', ''Europe/Sofia'',
          ''Europe/Bucharest'', ''Europe/Bratislava'', ''Europe/Ljubljana'', ''Europe/Zagreb'',
          ''Europe/Belgrade'', ''Europe/Skopje'', ''Europe/Sarajevo'', ''Europe/Podgorica'',
          ''Europe/Tirane'', ''Europe/Vilnius'', ''Europe/Riga'', ''Europe/Kiev'']
      then [''PL'', ''CZ'', ''SK'', ''HU'', ''BG'', ''RO'', ''SL'', ''EXYU'', ''AL'', ''LT'', ''LV'', ''UKR'']
      else if timezone \<in> set
         [''Europe/Moscow'', ''Europe/Kaliningrad'', ''Europe/Minsk'', ''Asia/Yekaterinburg'',
          ''Asia/Novosibirsk'', ''Asia/Vladivostok'']
      then [''RU'', ''BY'', ''UKR'']
      else if timezone \<in> set
         [''Asia/Jerusalem'', ''Asia/Riyadh'', ''Asia/Dubai'', ''Asia/Qatar'', ''Asia/Kuwait'',
          ''Asia/Bahrain'', ''Asia/Baghdad'', ''Asia/Beirut'', ''Asia/Damascus'', ''Asia/Amman'',
          ''Africa/Cairo'']
      then [''ARA'', ''IS'', ''TR'']
      else if timezone \<in> set
         [''Europe/Istanbul'']
      then [''TR'', ''ARA'', ''EN'']
      else if timezone \<in> set
         [''Asia/Tehran'']
      then [''IR'', ''TR'', ''ARA'']
      else if timezone \<in> set
         [''Asia/Kolkata'', ''Asia/Karachi'', ''Asia/Dhaka'', ''Asia/Colombo'', ''Asia/Kathmandu'']
      then [''IN'', ''PK'', ''BAN'', ''LK'', ''EN'']
      else if timezone \<in> set
         [''Asia/Bangkok'', ''Asia/Jakarta'', ''Asia/Manila'', ''Asia/Singapore'',
          ''Asia/Kuala_Lumpur'', ''Asia/Ho_Chi_Minh'']
      then [''TH'', ''ID'', ''PH'', ''MY'', ''SG'', ''VT'', ''EN'']
      else if timezone \<in> set
         [''Asia/Tokyo'', ''Asia/Seoul'', ''Asia/Shanghai'', ''Asia/Hong_Kong'', ''Asia/Taipei'',
          ''Asia/Ulaanbaatar'']
      then [''JP'', ''SK'', ''CN'', ''HK'', ''TW'', ''EN'']
      else if timezone \<in> set
         [''Asia/Almaty'', ''Asia/Tashkent'', ''Asia/Baku'', ''Asia/Yerevan'', ''Asia/Tbilisi'']
      then [''KA'', ''RU'', ''EN'']
      else if timezone \<in> set
         [''Africa/Johannesburg'', ''Africa/Lagos'', ''Africa/Nairobi'', ''Africa/Casablanca'',
          ''Africa/Accra'', ''Africa/Addis_Ababa'', ''Africa/Algiers'', ''Africa/Tunis'',
          ''Africa/Dakar'']
      then [''AF'', ''AFRICAN'', ''ARA'', ''FR'', ''EN'']
      else if timezone \<in> set
         [''Australia/Sydney'', ''Australia/Melbourne'', ''Australia/Brisbane'',
          ''Australia/Perth'', ''Pacific/Auckland'', ''Pacific/Fiji'']
      then [''AU'', ''NZ'', ''EN'']
      else [''US'', ''USA'', ''EN'', ''UK'', ''GLOBAL''])"

definition suggested_prefixes_for_timezone :: "string \<Rightarrow> string list" where
  "suggested_prefixes_for_timezone timezone =
     foldl (\<lambda>result prefix. if prefix \<in> set result then result else result @ [prefix])
       (regional_prefixes timezone) [''GLOBAL'', ''MULTI'', ''SPT'']"

section \<open>Decimal values\<close>

text \<open>The value of a number in units of \<open>10 ^ -32\<close>; there are at most 32 digits.\<close>

definition decimal_value :: "str \<Rightarrow> nat" where
  "decimal_value v =
     (let (whole, fractional) = unwrap_or (split_once 46 v) (v, [])
      in num whole * 10 ^ 32 + num fractional * 10 ^ (32 - length fractional))"

definition pad_left :: "str \<Rightarrow> str" where
  "pad_left s = replicate (32 - length s) 48 @ s"

definition pad_right :: "str \<Rightarrow> str" where
  "pad_right s = s @ replicate (32 - length s) 48"

lemma pad_simps [simp]:
  "length s \<le> 32 \<Longrightarrow> length (pad_left s) = 32" "length s \<le> 32 \<Longrightarrow> length (pad_right s) = 32"
  "digits (pad_left s) \<longleftrightarrow> digits s" "digits (pad_right s) \<longleftrightarrow> digits s"
  "num (pad_left s) = num s" "num (pad_right s) = num s * 10 ^ (32 - length s)"
  by (simp_all add: pad_left_def pad_right_def num_append)

lemma pad_left_trim:
  assumes "length s \<le> 32"
  shows "pad_left (dropWhile (\<lambda>c. c = 48) s) = pad_left s"
proof -
  have s: "s = takeWhile (\<lambda>c. c = 48) s @ dropWhile (\<lambda>c. c = 48) s" by simp
  have z: "takeWhile (\<lambda>c. c = 48) s = replicate (length (takeWhile (\<lambda>c. c = 48) s)) 48"
    by (rule replicate_eqI [symmetric, THEN sym]) (auto dest: set_takeWhileD)
  have l: "length s = length (takeWhile (\<lambda>c. c = 48) s) + length (dropWhile (\<lambda>c. c = 48) s)"
    by (metis length_append s)
  have "pad_left s = replicate (32 - length s) 48 @ replicate (length (takeWhile (\<lambda>c. c = 48) s)) 48 @
      dropWhile (\<lambda>c. c = 48) s"
    unfolding pad_left_def using s z by metis
  also have "\<dots> = pad_left (dropWhile (\<lambda>c. c = 48) s)"
    unfolding pad_left_def append_assoc [symmetric] replicate_add [symmetric]
    using l assms by simp
  finally show ?thesis by simp
qed

lemma pad_left_zero: "pad_left [] = pad_left [48]"
  by (simp add: pad_left_def numeral_eq_Suc replicate_app_Cons_same)

lemma rev_pad: "rev (pad_right s) = pad_left (rev s)"
  by (simp add: pad_left_def pad_right_def)

lemma pad_right_trim:
  assumes "length s \<le> 32"
  shows "pad_right (trim_end_by (\<lambda>c. c = 48) s) = pad_right s"
  using pad_left_trim [of "rev s"] assms rev_pad by (metis length_rev rev_rev_ident trim_end_by_def)

lemma pad_left_cancel:
  "dropWhile (\<lambda>c. c = 48) (pad_left s) = dropWhile (\<lambda>c. c = 48) s"
proof -
  have "dropWhile (\<lambda>c. c = 48) (replicate n 48 @ s) = dropWhile (\<lambda>c. c = 48) s" for n
    by (induction n) simp_all
  then show ?thesis by (simp add: pad_left_def)
qed

lemma pad_right_cancel:
  "trim_end_by (\<lambda>c. c = 48) (pad_right s) = trim_end_by (\<lambda>c. c = 48) s"
  unfolding trim_end_by_def rev_pad pad_left_cancel ..

section \<open>The form of an accepted number\<close>

definition parts :: "str \<Rightarrow> str \<times> str" where
  "parts v = unwrap_or (split_once 46 v) (v, [])"

lemma parts_digits [simp]: "46 \<notin> set v \<Longrightarrow> parts v = (v, [])"
  by (simp add: parts_def split_once_def)

lemma parts_dot [simp]: "46 \<notin> set w \<Longrightarrow> parts (w @ 46 # f) = (w, f)"
proof -
  assume w: "46 \<notin> set w"
  then have "takeWhile (\<lambda>x. x \<noteq> 46) (w @ 46 # f) = w \<and> dropWhile (\<lambda>x. x \<noteq> 46) (w @ 46 # f) = 46 # f"
    by (induction w) auto
  then show ?thesis by (simp add: parts_def split_once_def)
qed

lemma digits_no_dot: "digits s \<Longrightarrow> 46 \<notin> set s"
  by (auto simp: digits_def is_ascii_digit_def)

lemma digits_len [simp]: "digits s \<Longrightarrow> str_len s = length s"
  by (induction s) (auto simp: utf8_len_def is_ascii_digit_def)

lemma digit_utf8 [simp]: "is_ascii_digit c \<Longrightarrow> utf8_len c = Suc 0" "utf8_len 46 = Suc 0"
  by (auto simp: utf8_len_def is_ascii_digit_def)

lemma scan_after_dot: "number_scan len i True s \<longleftrightarrow> digits s"
  by (induction s arbitrary: i) auto

text \<open>The scan accepts exactly digits, or digits with one inner dot.\<close>

lemma scan_from:
  assumes "len = i + str_len s"
  shows "number_scan len i False s \<longleftrightarrow>
    digits s \<or> (\<exists>w f. s = w @ 46 # f \<and> digits w \<and> digits f \<and> (0 < i \<or> w \<noteq> []) \<and> f \<noteq> [])"
  using assms
proof (induction s arbitrary: i)
  case (Cons c s)
  show ?case
  proof (cases "is_ascii_digit c")
    case True
    then have "number_scan len i False (c # s) = number_scan len (Suc i) False s" by simp
    also have "\<dots> \<longleftrightarrow> digits s \<or> (\<exists>w f. s = w @ 46 # f \<and> digits w \<and> digits f \<and> f \<noteq> [])"
      using Cons True by simp
    also have "\<dots> \<longleftrightarrow> digits (c # s) \<or>
        (\<exists>w f. c # s = w @ 46 # f \<and> digits w \<and> digits f \<and> (0 < i \<or> w \<noteq> []) \<and> f \<noteq> [])"
    proof -
      have "c \<noteq> 46" using True by (auto simp: is_ascii_digit_def)
      then have "(\<exists>w f. c # s = w @ 46 # f \<and> digits w \<and> digits f \<and> (0 < i \<or> w \<noteq> []) \<and> f \<noteq> []) \<longleftrightarrow>
          (\<exists>w f. s = w @ 46 # f \<and> digits w \<and> digits f \<and> f \<noteq> [])"
        using True unfolding Cons_eq_append_conv by (fastforce intro: digits_simps(2) [THEN iffD2])
      with True show ?thesis by simp
    qed
    finally show ?thesis .
  next
    case False
    have len: "i + 1 < len \<longleftrightarrow> s \<noteq> []" if "c = 46"
      using that Cons.prems length_le_str_len [of s] by (cases s) auto
    have "(\<exists>w f. c # s = w @ 46 # f \<and> digits w \<and> digits f \<and> (0 < i \<or> w \<noteq> []) \<and> f \<noteq> []) \<longleftrightarrow>
        c = 46 \<and> digits s \<and> 0 < i \<and> s \<noteq> []"
      using False unfolding Cons_eq_append_conv
      by (auto intro: exI [of _ "[]"])
    then show ?thesis using False len by (auto simp: scan_after_dot)
  qed
qed simp

lemma parts_whole_zeros:
  assumes "digits w" "length w \<le> 32" "w \<noteq> []"
  defines "w' \<equiv> trim_start_by (\<lambda>c. c = 48) w"
  shows "pad_left (if w' = [] then [48] else w') = pad_left w"
    "digits (if w' = [] then [48] else w')" "length (if w' = [] then [48] else w') \<le> length w"
    "(if w' = [] then [48] else w') \<noteq> []"
proof -
  show "pad_left (if w' = [] then [48] else w') = pad_left w"
    using pad_left_trim [OF assms(2)] pad_left_zero unfolding w'_def trim_start_by_def
    by (cases "dropWhile (\<lambda>c. c = 48) w") (simp_all only: if_True if_False list.distinct simp_thms)
  show "digits (if w' = [] then [48] else w')"
    using assms(1) by (auto simp: w'_def trim_start_by_def digits_def is_ascii_digit_def dest: set_dropWhileD)
  show "length (if w' = [] then [48] else w') \<le> length w"
    using assms(3) length_dropWhile_le [of "\<lambda>c. c = 48" w]
    by (cases w) (auto simp: w'_def trim_start_by_def)
qed simp

definition number_form :: "str \<Rightarrow> bool" where
  "number_form v \<longleftrightarrow> v \<noteq> [] \<and> length v \<le> 32 \<and>
     (digits v \<or> (\<exists>w f. v = w @ 46 # f \<and> digits w \<and> digits f \<and> w \<noteq> [] \<and> f \<noteq> []))"

lemma number_form_parts:
  assumes "number_form v"
  obtains w f where "parts v = (w, f)" "digits w" "digits f" "w \<noteq> []" "length w \<le> 32" "length f \<le> 32"
    "length v = length w + (if f = [] then 0 else Suc (length f))"
  using assms unfolding number_form_def
  by (elim conjE disjE exE) (auto simp: digits_no_dot)

definition canonical :: "str \<Rightarrow> str" where
  "canonical v = (let (w, f) = parts v;
       w = trim_start_by (\<lambda>c. c = 48) w; w = (if w = [] then lit ''0'' else w);
       f = trim_end_by (\<lambda>c. c = 48) f
     in if f = [] then w else w @ [46] @ f)"

lemma number_form_len: "number_form v \<Longrightarrow> str_len v = length v"
  unfolding number_form_def by (elim conjE disjE exE) auto

lemma channel_number_new_eq:
  "channel_number_new input =
     (if number_form (str_trim input) then Inr (ChannelNumber (canonical (str_trim input))) else Inl Invalid)"
proof -
  let ?v = "str_trim input"
  have scan: "number_scan (str_len ?v) 0 False ?v \<longleftrightarrow>
      digits ?v \<or> (\<exists>w f. ?v = w @ 46 # f \<and> digits w \<and> digits f \<and> w \<noteq> [] \<and> f \<noteq> [])"
    using scan_from [of "str_len ?v" 0 ?v] by simp
  have len: "str_len ?v = length ?v" if "number_scan (str_len ?v) 0 False ?v"
    using that unfolding scan by (elim disjE exE conjE) auto
  have form: "number_form ?v \<longleftrightarrow> \<not> (?v = [] \<or> str_len ?v > 32) \<and> number_scan (str_len ?v) 0 False ?v"
    using scan len number_form_len [of ?v] unfolding number_form_def by auto
  show ?thesis
    unfolding form by (simp add: channel_number_new_def canonical_def parts_def Let_def split: prod.splits)
qed

text \<open>The canonical form keeps the padded digits, is itself of the accepted form, and depends on the
  padded digits only.\<close>

definition padded :: "str \<Rightarrow> str" where
  "padded v = (case parts v of (w, f) \<Rightarrow> pad_left w @ pad_right f)"

lemma canonical_form:
  assumes "number_form v"
  shows "number_form (canonical v) \<and> padded (canonical v) = padded v"
proof -
  obtain w f where p: "parts v = (w, f)" "digits w" "digits f" "w \<noteq> []" "length w \<le> 32" "length f \<le> 32"
    "length v = length w + (if f = [] then 0 else Suc (length f))"
    using assms by (rule number_form_parts)
  define w' where "w' = (let x = trim_start_by (\<lambda>c. c = 48) w in if x = [] then [48] else x)"
  define f' where "f' = trim_end_by (\<lambda>c. c = 48) f"
  have w': "pad_left w' = pad_left w" "digits w'" "length w' \<le> length w" "w' \<noteq> []"
    using parts_whole_zeros [OF p(2,5,4)] by (simp_all add: w'_def Let_def)
  have f': "pad_right f' = pad_right f" "digits f'" "length f' \<le> length f"
    using pad_right_trim [OF p(6)] p(3) trim_end_by_set [of "\<lambda>c. c = 48" f]
      length_dropWhile_le [of "\<lambda>c. c = 48" "rev f"]
    by (auto simp: f'_def digits_def trim_end_by_def)
  have c: "canonical v = (if f' = [] then w' else w' @ 46 # f')"
    by (simp add: canonical_def p(1) w'_def f'_def Let_def)
  have len: "length (canonical v) \<le> length v"
    using p(7) w'(3) f'(3) by (auto simp: c split: if_splits)
  have "parts (canonical v) = (w', f')" using w' f' by (simp add: c digits_no_dot)
  moreover have "length v \<le> 32" using assms by (simp add: number_form_def)
  ultimately show ?thesis using w' f' len by (auto simp: number_form_def padded_def p(1) c)
qed

lemma canonical_padded:
  assumes "number_form v" and "number_form u" and "padded v = padded u"
  shows "canonical v = canonical u"
proof -
  obtain w f where p: "parts v = (w, f)" "length w \<le> 32" "length f \<le> 32"
    using assms(1) by (rule number_form_parts)
  obtain w' f' where q: "parts u = (w', f')" "length w' \<le> 32" "length f' \<le> 32"
    using assms(2) by (rule number_form_parts)
  have "pad_left w = pad_left w' \<and> pad_right f = pad_right f'"
    using assms(3) p q by (simp add: padded_def)
  then have "dropWhile (\<lambda>c. c = 48) w = dropWhile (\<lambda>c. c = 48) w'"
    "trim_end_by (\<lambda>c. c = 48) f = trim_end_by (\<lambda>c. c = 48) f'"
    by (metis pad_left_cancel, metis pad_right_cancel)
  then show ?thesis by (simp only: canonical_def p(1) q(1) trim_start_by_def Let_def prod.case)
qed

lemma padded_value:
  assumes "number_form v"
  shows "decimal_value v = num (padded v)" "length (padded v) = 64" "digits (padded v)"
proof -
  obtain w f where p: "parts v = (w, f)" "digits w" "digits f" "length w \<le> 32" "length f \<le> 32"
    using assms by (rule number_form_parts)
  show "decimal_value v = num (padded v)"
    using p by (simp add: decimal_value_def parts_def [symmetric] padded_def num_append)
  show "length (padded v) = 64" "digits (padded v)" using p by (simp_all add: padded_def)
qed

lemma canonical_iff_value:
  assumes "number_form v" and "number_form u"
  shows "canonical v = canonical u \<longleftrightarrow> decimal_value v = decimal_value u"
proof
  assume "canonical v = canonical u"
  then have "padded v = padded u" using canonical_form assms by metis
  then show "decimal_value v = decimal_value u" using padded_value assms by simp
next
  assume "decimal_value v = decimal_value u"
  then have "padded v = padded u"
    using num_inject [of "padded v" "padded u"] padded_value [OF assms(1)] padded_value [OF assms(2)] by simp
  then show "canonical v = canonical u" using canonical_padded assms by blast
qed

lemma number_form_trim: "number_form v \<Longrightarrow> str_trim v = v"
proof (rule str_trim_none)
  assume "number_form v"
  then have "\<forall>c \<in> set v. is_ascii_digit c \<or> c = 46"
    unfolding number_form_def by (elim conjE disjE exE) (auto simp: digits_def)
  then show "\<forall>c \<in> set v. \<not> is_whitespace c"
    by (auto simp: is_ascii_digit_def is_whitespace_def)
qed

section \<open>Properties\<close>

text \<open>a channel number is its decimal value.  Two inputs that are accepted give the same number
  exactly when they denote the same decimal value, and the number denotes that value.\<close>

theorem channel_number_identity:
  assumes "channel_number_new v = Inr m" and "channel_number_new u = Inr n"
  shows "(m = n \<longleftrightarrow> decimal_value (str_trim v) = decimal_value (str_trim u)) \<and>
    decimal_value (as_str m) = decimal_value (str_trim v)"
proof -
  have v: "number_form (str_trim v)" "m = ChannelNumber (canonical (str_trim v))"
    using assms(1) by (auto simp: channel_number_new_eq split: if_splits)
  have u: "number_form (str_trim u)" "n = ChannelNumber (canonical (str_trim u))"
    using assms(2) by (auto simp: channel_number_new_eq split: if_splits)
  have "decimal_value (canonical (str_trim v)) = decimal_value (str_trim v)"
    using canonical_form [OF v(1)] padded_value v(1) by metis
  with canonical_iff_value [OF v(1) u(1)] v(2) u(2) show ?thesis by simp
qed

theorem channel_number_identity_witness:
  "channel_number_new (lit ''007.100'') = channel_number_new (lit '' 7.1 '') \<and>
   decimal_value (lit ''7.1'') = decimal_value (lit ''007.100'')"
proof -
  have a: "channel_number_new (lit ''007.100'') = Inr (ChannelNumber (lit ''7.1''))"
    by (simp add: channel_number_new_def str_trim_def trim_start_by_def trim_end_by_def is_whitespace_def
        utf8_len_def is_ascii_digit_def split_once_def unwrap_or_def)
  have b: "channel_number_new (lit '' 7.1 '') = Inr (ChannelNumber (lit ''7.1''))"
    by (simp add: channel_number_new_def str_trim_def trim_start_by_def trim_end_by_def is_whitespace_def
        utf8_len_def is_ascii_digit_def split_once_def unwrap_or_def)
  from channel_number_identity [OF a b] a b show ?thesis by (simp add: str_trim_none is_whitespace_def)
qed

text \<open>Printing and parsing.  The text of an accepted number is accepted again and gives the same
  number, so a number survives being stored as text.\<close>

theorem channel_number_roundtrip:
  assumes "channel_number_new v = Inr n"
  shows "channel_number_new (as_str n) = Inr n"
proof -
  have v: "number_form (str_trim v)" "n = ChannelNumber (canonical (str_trim v))"
    using assms by (auto simp: channel_number_new_eq split: if_splits)
  have c: "number_form (canonical (str_trim v))" "padded (canonical (str_trim v)) = padded (str_trim v)"
    using canonical_form [OF v(1)] by auto
  show ?thesis
    using canonical_padded [OF c(1) v(1) c(2)] c(1) v(2)
    by (simp add: channel_number_new_eq number_form_trim)
qed

theorem channel_number_roundtrip_witness:
  "channel_number_new (lit ''7.1'') = Inr (ChannelNumber (lit ''7.1''))"
proof -
  have "channel_number_new (lit ''007.100'') = Inr (ChannelNumber (lit ''7.1''))"
    by (simp add: channel_number_new_def str_trim_def trim_start_by_def trim_end_by_def is_whitespace_def
        utf8_len_def is_ascii_digit_def split_once_def unwrap_or_def)
  from channel_number_roundtrip [OF this] show ?thesis by simp
qed

text \<open>The prefixes of every arm of the table.\<close>

definition known_prefixes :: "string list \<Rightarrow> bool" where
  "known_prefixes ps \<longleftrightarrow> distinct ps \<and> list_all (\<lambda>p. p = ''ES'' \<or> p \<in> set REGION_PREFIXES) ps"

lemma known_prefixes_if: "known_prefixes ps \<Longrightarrow> known_prefixes qs \<Longrightarrow> known_prefixes (if b then ps else qs)"
  by simp

lemma regional_prefixes_known: "known_prefixes (regional_prefixes timezone)"
  unfolding regional_prefixes_def
  by (intro known_prefixes_if) (simp_all add: known_prefixes_def REGION_PREFIXES_def)

text \<open>The suggested prefixes.  The suggestion for a time zone has no duplicates, contains the
  three international prefixes, and consists of prefixes that occur in provider data, with one
  exception: \<open>ES\<close>, which the Latin American zones get, is not among the known prefixes (providers
  write \<open>ESP\<close>).\<close>

theorem suggested_prefixes:
  "distinct (suggested_prefixes_for_timezone timezone) \<and>
   {''GLOBAL'', ''MULTI'', ''SPT''} \<subseteq> set (suggested_prefixes_for_timezone timezone) \<and>
   set (suggested_prefixes_for_timezone timezone) - set REGION_PREFIXES \<subseteq> {''ES''} \<and>
   ''ES'' \<in> set (suggested_prefixes_for_timezone ''America/Lima'') - set REGION_PREFIXES"
proof -
  have "{''GLOBAL'', ''MULTI'', ''SPT''} \<subseteq> set REGION_PREFIXES"
    by (simp add: REGION_PREFIXES_def)
  moreover have "''ES'' \<in> set (regional_prefixes ''America/Lima'')" by (simp add: regional_prefixes_def)
  moreover have "''ES'' \<notin> set REGION_PREFIXES" by (simp add: REGION_PREFIXES_def)
  ultimately show ?thesis
    using regional_prefixes_known [of timezone]
    by (auto simp: suggested_prefixes_for_timezone_def known_prefixes_def list_all_iff)
qed


end
