(* ===== verification/M3u.thy ===== *)
theory M3u
  imports Unicode
begin

text \<open>
  The M3U parser (\<open>crates/parsers/src/m3u.rs\<close>, \<open>crates/parsers/src/diagnostics.rs\<close>).

  The input is a \<open>BufRead\<close>: the list of the buffers that \<open>fill_buf\<close> returns, any of which may be
  an I/O error.  The line reader, the attribute scanner, the \<open>EXTINF\<close> parser and the loop of
  \<open>parse_m3u_visit\<close> are translated with their error returns; a visitor is a state transformer that
  may fail.  \<open>Url::parse\<close>, the parser and the finiteness test of \<open>f64\<close> and the \<open>{:?}\<close> format of
  strings are the fields of \<open>M3uEnv\<close>: the code passes their results on without looking inside.
  Counters are \<open>u64\<close> with the wrap-around of the release profile.

  Main results: the parser ends on every input; how the bytes are cut into buffers does not matter to
  the result; the statistics of a parsed playlist add up and respect the limits; a printed
  \<open>EXTINF\<close> line parses to what was printed; a word without an equals sign hides the attribute
  after it.
\<close>

declare lit_simps [simp del] lit_append [simp del]

section \<open>Diagnostics\<close>

datatype Severity = Warning | Error

datatype DiagnosticCode =
    MissingHeader | OrphanMetadata | OrphanUrl | ReplacedPendingEntry | InvalidAttribute
  | InvalidDuration | InvalidUrl | UnknownDirective | InvalidXmltvRecord | UnknownXmlElement
  | InvalidTimestamp | InvalidInterval | UndeclaredChannel | DuplicateIdentity | InvalidEventRule
  | InvalidXtreamRecord

record Diagnostic =
  dg_severity :: Severity
  dg_code :: DiagnosticCode
  dg_line :: "u64 option"
  dg_byte_offset :: "u64 option"
  dg_message :: str

definition dg_warning :: "DiagnosticCode \<Rightarrow> u64 option \<Rightarrow> u64 option \<Rightarrow> str \<Rightarrow> Diagnostic" where
  "dg_warning code line byte_offset message = \<lparr>dg_severity = Warning, dg_code = code, dg_line = line,
     dg_byte_offset = byte_offset, dg_message = message\<rparr>"

definition dg_error :: "DiagnosticCode \<Rightarrow> u64 option \<Rightarrow> u64 option \<Rightarrow> str \<Rightarrow> Diagnostic" where
  "dg_error code line byte_offset message = \<lparr>dg_severity = Error, dg_code = code, dg_line = line,
     dg_byte_offset = byte_offset, dg_message = message\<rparr>"

record ParseStats =
  ps_bytes_read :: u64
  ps_lines_read :: u64
  ps_records_seen :: u64
  ps_records_emitted :: u64
  ps_records_skipped :: u64
  ps_unknown_metadata :: u64
  ps_warnings :: u64
  ps_errors :: u64

definition stats_default :: ParseStats where
  "stats_default = \<lparr>ps_bytes_read = 0, ps_lines_read = 0, ps_records_seen = 0, ps_records_emitted = 0,
     ps_records_skipped = 0, ps_unknown_metadata = 0, ps_warnings = 0, ps_errors = 0\<rparr>"

definition stats_observe :: "ParseStats \<Rightarrow> Diagnostic \<Rightarrow> ParseStats" where
  "stats_observe self diagnostic =
     (case dg_severity diagnostic of
        Warning \<Rightarrow> self\<lparr>ps_warnings := wrapping_add_u64 (ps_warnings self) 1\<rparr>
      | Error \<Rightarrow> self\<lparr>ps_errors := wrapping_add_u64 (ps_errors self) 1\<rparr>)"

record ParseLimits =
  pl_max_input_bytes :: u64
  pl_max_line_bytes :: usize
  pl_max_records :: usize
  pl_max_text_bytes :: usize
  pl_max_xml_depth :: usize

definition limits_default :: ParseLimits where
  "limits_default = \<lparr>pl_max_input_bytes = 64 * 1024 * 1024, pl_max_line_bytes = 64 * 1024,
     pl_max_records = 1000000, pl_max_text_bytes = 1024 * 1024, pl_max_xml_depth = 64\<rparr>"

datatype 'io ParseError =
    Io 'io
  | InputTooLarge u64
  | LineTooLong u64 usize
  | TooManyRecords usize
  | TextTooLarge usize
  | XmlTooDeep usize
  | InvalidUtf8 u64
  | MalformedM3u str
  | MalformedXmltv u64 str
  | XmlDoctypeForbidden
  | MalformedEventRules str
  | MalformedXtream str

section \<open>Playlists\<close>

record M3uHeader =
  mh_attributes :: "str \<Rightarrow> str option"
  mh_raw :: str

record M3uDirective =
  md_name :: str
  md_value :: "str option"
  md_raw :: str

record ('u, 'f) M3uEntry =
  me_duration_seconds :: "'f option"
  me_title :: str
  me_attributes :: "str \<Rightarrow> str option"
  me_url :: 'u
  me_directives :: "M3uDirective list"
  me_raw_extinf :: "str option"

definition entry_tvg_id :: "('u, 'f) M3uEntry \<Rightarrow> str option" where
  "entry_tvg_id self = me_attributes self (lit ''tvg-id'')"

definition entry_group_title :: "('u, 'f) M3uEntry \<Rightarrow> str option" where
  "entry_group_title self = me_attributes self (lit ''group-title'')"

record ('u, 'f) M3uPlaylist =
  mp_header :: M3uHeader
  mp_entries :: "('u, 'f) M3uEntry list"
  mp_global_directives :: "M3uDirective list"
  mp_diagnostics :: "Diagnostic list"
  mp_stats :: ParseStats

definition playlist_default :: "('u, 'f) M3uPlaylist" where
  "playlist_default = \<lparr>mp_header = \<lparr>mh_attributes = (\<lambda>_. None), mh_raw = []\<rparr>, mp_entries = [],
     mp_global_directives = [], mp_diagnostics = [], mp_stats = stats_default\<rparr>"

record 'f PendingEntry =
  pe_duration_seconds :: "'f option"
  pe_title :: str
  pe_attributes :: "str \<Rightarrow> str option"
  pe_directives :: "M3uDirective list"
  pe_raw_extinf :: str
  pe_line :: u64

record ('u, 'f) M3uEnv =
  url_parse :: "str \<Rightarrow> str + 'u"
  f64_parse :: "str \<Rightarrow> 'f option"
  f64_is_finite :: "'f \<Rightarrow> bool"
  debug_str :: "str \<Rightarrow> str"

section \<open>Lines\<close>

datatype 'io Fill = Bytes bytes | IoError 'io

record 'io BoundedLineReader =
  lr_inner :: "'io Fill list"
  lr_limits :: ParseLimits
  lr_bytes_read :: u64
  lr_line_number :: u64

definition reader_new :: "'io Fill list \<Rightarrow> ParseLimits \<Rightarrow> 'io BoundedLineReader" where
  "reader_new inner limits = \<lparr>lr_inner = inner, lr_limits = limits, lr_bytes_read = 0, lr_line_number = 0\<rparr>"

text \<open>
  The loop of \<open>next_line\<close>.  An empty buffer is the end of the input.  Without a newline the whole
  buffer is taken, so the loop goes on with the buffers that follow.
\<close>

fun next_line_loop ::
    "ParseLimits \<Rightarrow> u64 \<Rightarrow> bytes \<Rightarrow> u64 \<Rightarrow> 'io Fill list \<Rightarrow>
     'io ParseError + (bytes option \<times> u64 \<times> 'io Fill list)" where
  "next_line_loop limits line_number line bytes_read [] =
     Inr (if line = [] then None else Some line, bytes_read, [])"
| "next_line_loop limits line_number line bytes_read (IoError e # inner) = Inl (Io e)"
| "next_line_loop limits line_number line bytes_read (Bytes available # inner) =
     (if available = [] then
        Inr (if line = [] then None else Some line, bytes_read, Bytes available # inner)
      else
        let found_newline = (10 \<in> set available);
            took = (if found_newline then Suc (length (takeWhile (\<lambda>byte. byte \<noteq> 10) available))
                    else length available)
        in if saturating_add_u64 (length line) took > pl_max_line_bytes limits
           then Inl (LineTooLong (wrapping_add_u64 line_number 1) (pl_max_line_bytes limits))
           else
             let chunk = take took available;
                 bytes_read = saturating_add_u64 bytes_read took
             in if bytes_read > pl_max_input_bytes limits
                then Inl (InputTooLarge (pl_max_input_bytes limits))
                else if found_newline
                then Inr (Some (line @ chunk), bytes_read,
                       if took = length available then inner else Bytes (drop took available) # inner)
                else next_line_loop limits line_number (line @ chunk) bytes_read inner)"

definition trim_line_end :: "bytes \<Rightarrow> bytes" where
  "trim_line_end line = rev (dropWhile (\<lambda>byte. byte = 10 \<or> byte = 13) (rev line))"

definition next_line ::
    "'io BoundedLineReader \<Rightarrow> 'io ParseError + ((u64 \<times> str) option \<times> 'io BoundedLineReader)" where
  "next_line self =
     (case next_line_loop (lr_limits self) (lr_line_number self) [] (lr_bytes_read self) (lr_inner self) of
        Inl e \<Rightarrow> Inl e
      | Inr (None, bytes_read, inner) \<Rightarrow>
          Inr (None, self\<lparr>lr_inner := inner, lr_bytes_read := bytes_read\<rparr>)
      | Inr (Some line, bytes_read, inner) \<Rightarrow>
          let line_number = wrapping_add_u64 (lr_line_number self) 1;
              self = self\<lparr>lr_inner := inner, lr_bytes_read := bytes_read, lr_line_number := line_number\<rparr>
          in case from_utf8 (trim_line_end line) of
               None \<Rightarrow> Inl (InvalidUtf8 line_number)
             | Some s \<Rightarrow> Inr (Some (line_number, s), self))"

section \<open>Attributes\<close>

text \<open>
  The scanner keeps the part of the string from \<open>index\<close> on; 61 is the equals sign, 34 and 39 are the
  quotes.
\<close>

definition attribute_value :: "str \<Rightarrow> str \<times> str \<times> bool" where
  "attribute_value s =
     (case s of
        q # rest \<Rightarrow>
          if q = 39 \<or> q = 34
          then (takeWhile (\<lambda>c. c \<noteq> q) rest, drop 1 (dropWhile (\<lambda>c. c \<noteq> q) rest), q \<notin> set rest)
          else (takeWhile (\<lambda>c. \<not> is_ascii_whitespace c) s,
                dropWhile (\<lambda>c. \<not> is_ascii_whitespace c) s, False)
      | [] \<Rightarrow> ([], [], False))"

lemma attribute_value_shorter: "length (fst (snd (attribute_value s))) \<le> length s"
proof (cases s)
  case (Cons q rest)
  have "length (dropWhile (\<lambda>c. c \<noteq> q) rest) \<le> length rest" by (rule length_dropWhile_le)
  then show ?thesis
    using Cons length_dropWhile_le [of "\<lambda>c. \<not> is_ascii_whitespace c" s]
    by (auto simp: attribute_value_def)
qed (simp add: attribute_value_def)

text \<open>After the white space every turn of the scanner consumes at least one scalar: the key, or the
  equals sign.\<close>

lemma key_progress:
  assumes "dropWhile is_ascii_whitespace s \<noteq> []"
  defines "t \<equiv> dropWhile is_ascii_whitespace
    (dropWhile (\<lambda>c. \<not> is_ascii_whitespace c \<and> c \<noteq> 61) (dropWhile is_ascii_whitespace s))"
  shows "length t \<le> length s" and "t = [] \<or> hd t \<noteq> 61 \<Longrightarrow> length t < length s"
proof -
  let ?P = "\<lambda>c. \<not> is_ascii_whitespace c \<and> c \<noteq> 61"
  let ?u = "dropWhile is_ascii_whitespace s"
  have u: "length ?u \<le> length s" by (rule length_dropWhile_le)
  have t: "length t \<le> length (dropWhile ?P ?u)" unfolding t_def by (rule length_dropWhile_le)
  have v: "length (dropWhile ?P ?u) \<le> length ?u" by (rule length_dropWhile_le)
  show "length t \<le> length s" using t u v by linarith
  assume no: "t = [] \<or> hd t \<noteq> 61"
  obtain c r where c: "?u = c # r" using assms(1) by (cases ?u) auto
  have ws: "\<not> is_ascii_whitespace c" using c hd_dropWhile [OF assms(1)] by simp
  have "c \<noteq> 61" using no ws unfolding t_def c by auto
  then have "length (dropWhile ?P ?u) \<le> length r" using ws c length_dropWhile_le [of ?P r] by simp
  then show "length t < length s" using t u c by simp
qed

function parse_attributes_from ::
    "('u, 'f) M3uEnv \<Rightarrow> u64 \<Rightarrow> str \<Rightarrow> (str \<Rightarrow> str option) \<Rightarrow> Diagnostic list \<Rightarrow>
     (str \<Rightarrow> str option) \<times> Diagnostic list" where
  "parse_attributes_from env line_number s attributes diagnostics =
     (let s = dropWhile is_ascii_whitespace s in
      if s = [] then (attributes, diagnostics)
      else
        let key = takeWhile (\<lambda>c. \<not> is_ascii_whitespace c \<and> c \<noteq> 61) s;
            s = dropWhile is_ascii_whitespace (dropWhile (\<lambda>c. \<not> is_ascii_whitespace c \<and> c \<noteq> 61) s)
        in if s = [] \<or> hd s \<noteq> 61
           then parse_attributes_from env line_number (dropWhile (\<lambda>c. \<not> is_ascii_whitespace c) s)
                  attributes
                  (diagnostics @ [dg_warning InvalidAttribute (Some line_number) None
                     (lit ''attribute '' @ debug_str env key @ lit '' has no '' @ [39, 61, 39] @
                      lit '' and was ignored'')])
           else
             let (v, rest, unterminated) =
                   attribute_value (dropWhile is_ascii_whitespace (drop 1 s));
                 diagnostics =
                   (if unterminated
                    then diagnostics @ [dg_warning InvalidAttribute (Some line_number) None
                           (lit ''attribute '' @ debug_str env key @ lit '' has an unterminated quote'')]
                    else diagnostics);
                 attributes = (if key \<noteq> [] then attributes(to_ascii_lowercase key \<mapsto> v) else attributes)
             in parse_attributes_from env line_number rest attributes diagnostics)"
  by pat_completeness auto

termination
proof (relation "measure (\<lambda>(env, line_number, s, attributes, diagnostics). length s)", goal_cases)
  case 1
  then show ?case by simp
next
  case (2 env line_number s attributes diagnostics x xa xb)
  then have "length xb < length s" using key_progress(2) [of s] by simp
  then show ?case using length_dropWhile_le [of "\<lambda>c. \<not> is_ascii_whitespace c" xb] by simp
next
  case (3 env line_number s attributes diagnostics x xa xb xc xd y xe ya xf xg)
  let ?r = "dropWhile is_ascii_whitespace (drop 1 xb)"
  have "length ?r \<le> length (drop 1 xb)" by (rule length_dropWhile_le)
  also have "\<dots> < length xb" using 3 by (cases xb) auto
  finally have "length (fst (snd (attribute_value ?r))) < length xb"
    using attribute_value_shorter [of ?r] by linarith
  moreover have "length xb \<le> length s" using key_progress(1) [of s] 3 by simp
  moreover have "xe = fst (snd (attribute_value ?r))" using 3 by (metis fst_conv snd_conv)
  ultimately show ?case by simp
qed

declare parse_attributes_from.simps [simp del]

definition parse_attributes ::
    "('u, 'f) M3uEnv \<Rightarrow> str \<Rightarrow> Diagnostic list \<Rightarrow> u64 \<Rightarrow> (str \<Rightarrow> str option) \<times> Diagnostic list" where
  "parse_attributes env v diagnostics line_number =
     parse_attributes_from env line_number v (\<lambda>_. None) diagnostics"

section \<open>Records\<close>

definition parse_header ::
    "('u, 'f) M3uEnv \<Rightarrow> str \<Rightarrow> Diagnostic list \<Rightarrow> u64 \<Rightarrow> M3uHeader \<times> Diagnostic list" where
  "parse_header env line diagnostics line_number =
     (let suffix = str_trim (unwrap_or (strip_prefix (lit ''#EXTM3U'') line) []);
          (attributes, diagnostics) = parse_attributes env suffix diagnostics line_number
      in (\<lparr>mh_attributes = attributes, mh_raw = line\<rparr>, diagnostics))"

text \<open>The index of the first comma outside quotes; 44 is the comma.\<close>

fun comma_from :: "nat \<Rightarrow> uchar option \<Rightarrow> str \<Rightarrow> nat option" where
  "comma_from index quote [] = None"
| "comma_from index quote (c # rest) =
     (if (c = 39 \<or> c = 34) \<and> quote = Some c then comma_from (Suc index) None rest
      else if (c = 39 \<or> c = 34) \<and> quote = None then comma_from (Suc index) (Some c) rest
      else if c = 44 \<and> quote = None then Some index
      else comma_from (Suc index) quote rest)"

definition comma_outside_quotes :: "str \<Rightarrow> nat option" where
  "comma_outside_quotes v = comma_from 0 None v"

definition parse_extinf ::
    "('u, 'f) M3uEnv \<Rightarrow> str \<Rightarrow> u64 \<Rightarrow> Diagnostic list \<Rightarrow> ParseStats \<Rightarrow>
     'f PendingEntry \<times> Diagnostic list \<times> ParseStats" where
  "parse_extinf env line line_number diagnostics stats =
     (let body = unwrap_or (strip_prefix (lit ''#EXTINF:'') line) [];
          (metadata, title) =
            (case comma_outside_quotes body of
               None \<Rightarrow> (body, [])
             | Some index \<Rightarrow> (take index body, drop (Suc index) body));
          metadata = str_trim metadata;
          duration_raw = takeWhile (\<lambda>c. \<not> is_whitespace c) metadata;
          attribute_raw = str_trim (dropWhile (\<lambda>c. \<not> is_whitespace c) metadata);
          (duration_seconds, diagnostics, stats) =
            (if duration_raw = [] then (None, diagnostics, stats)
             else
               let invalid =
                     (let diagnostic = dg_warning InvalidDuration (Some line_number) None
                            (lit ''invalid EXTINF duration '' @ debug_str env duration_raw)
                      in (None, diagnostics @ [diagnostic], stats_observe stats diagnostic))
               in case f64_parse env duration_raw of
                    Some v \<Rightarrow> if f64_is_finite env v then (Some v, diagnostics, stats) else invalid
                  | None \<Rightarrow> invalid);
          (attributes, diagnostics) = parse_attributes env attribute_raw diagnostics line_number
      in (\<lparr>pe_duration_seconds = duration_seconds, pe_title = str_trim title,
           pe_attributes = attributes, pe_directives = [], pe_raw_extinf = line,
           pe_line = line_number\<rparr>, diagnostics, stats))"

definition parse_directive :: "str \<Rightarrow> M3uDirective" where
  "parse_directive line =
     (let without_hash = unwrap_or (strip_prefix (lit ''#'') line) line;
          (name, v) =
            (case split_once 58 without_hash of
               None \<Rightarrow> (without_hash, None)
             | Some (name, v) \<Rightarrow> (name, Some v))
      in \<lparr>md_name = name, md_value = v, md_raw = line\<rparr>)"

definition push_diagnostic :: "('u, 'f) M3uPlaylist \<Rightarrow> Diagnostic \<Rightarrow> ('u, 'f) M3uPlaylist" where
  "push_diagnostic playlist diagnostic =
     playlist\<lparr>mp_diagnostics := mp_diagnostics playlist @ [diagnostic],
       mp_stats := stats_observe (mp_stats playlist) diagnostic\<rparr>"

definition record_limit_reached :: "u64 \<Rightarrow> usize \<Rightarrow> bool" where
  "record_limit_reached seen maximum \<longleftrightarrow> seen \<ge> maximum"

section \<open>The parser\<close>

text \<open>The variables of the loop, with the state of the visitor.\<close>

record ('u, 'f, 's) M3uState =
  st_playlist :: "('u, 'f) M3uPlaylist"
  st_pending :: "'f PendingEntry option"
  st_saw_content :: bool
  st_saw_header :: bool
  st_visitor :: 's

definition bump_seen :: "ParseStats \<Rightarrow> ParseStats" where
  "bump_seen stats = stats\<lparr>ps_records_seen := wrapping_add_u64 (ps_records_seen stats) 1\<rparr>"

definition bump_skipped :: "ParseStats \<Rightarrow> ParseStats" where
  "bump_skipped stats = stats\<lparr>ps_records_skipped := wrapping_add_u64 (ps_records_skipped stats) 1\<rparr>"

definition bump_emitted :: "ParseStats \<Rightarrow> ParseStats" where
  "bump_emitted stats = stats\<lparr>ps_records_emitted := wrapping_add_u64 (ps_records_emitted stats) 1\<rparr>"

definition on_stats ::
    "(ParseStats \<Rightarrow> ParseStats) \<Rightarrow> ('u, 'f) M3uPlaylist \<Rightarrow> ('u, 'f) M3uPlaylist" where
  "on_stats f playlist = playlist\<lparr>mp_stats := f (mp_stats playlist)\<rparr>"

definition extinf_line ::
    "('u, 'f) M3uEnv \<Rightarrow> ParseLimits \<Rightarrow> u64 \<Rightarrow> str \<Rightarrow> ('u, 'f, 's) M3uState \<Rightarrow>
     'io ParseError + ('u, 'f, 's) M3uState" where
  "extinf_line env limits line_number line st =
     (if record_limit_reached (ps_records_seen (mp_stats (st_playlist st))) (pl_max_records limits)
      then Inl (TooManyRecords (pl_max_records limits))
      else
        let playlist = on_stats bump_seen (st_playlist st);
            playlist =
              (case st_pending st of
                 None \<Rightarrow> playlist
               | Some previous \<Rightarrow>
                   push_diagnostic (on_stats bump_skipped playlist)
                     (dg_warning ReplacedPendingEntry (Some (pe_line previous)) None
                       (lit ''EXTINF was replaced by another EXTINF before a URL was found'')));
            (pending, diagnostics, stats) =
              parse_extinf env line line_number (mp_diagnostics playlist) (mp_stats playlist)
        in Inr (st\<lparr>st_playlist := playlist\<lparr>mp_diagnostics := diagnostics, mp_stats := stats\<rparr>,
             st_pending := Some pending\<rparr>))"

definition directive_line :: "str \<Rightarrow> ('u, 'f, 's) M3uState \<Rightarrow> ('u, 'f, 's) M3uState" where
  "directive_line line st =
     (let directive = parse_directive line;
          playlist =
            (if md_name directive = lit ''EXTGRP'' \<or> md_name directive = lit ''EXTVLCOPT''
             then st_playlist st
             else on_stats (\<lambda>stats. stats\<lparr>ps_unknown_metadata :=
                    wrapping_add_u64 (ps_unknown_metadata stats) 1\<rparr>) (st_playlist st))
      in case st_pending st of
           Some entry \<Rightarrow>
             let attributes =
                   (case md_value directive of
                      Some v \<Rightarrow>
                        if eq_ignore_ascii_case (md_name directive) (lit ''EXTGRP'') \<and>
                           pe_attributes entry (lit ''group-title'') = None
                        then (pe_attributes entry)(lit ''group-title'' \<mapsto> str_trim v)
                        else pe_attributes entry
                    | None \<Rightarrow> pe_attributes entry)
             in st\<lparr>st_playlist := playlist,
                  st_pending := Some (entry\<lparr>pe_attributes := attributes,
                    pe_directives := pe_directives entry @ [directive]\<rparr>)\<rparr>
         | None \<Rightarrow>
             st\<lparr>st_playlist := playlist\<lparr>mp_global_directives :=
                  mp_global_directives playlist @ [directive]\<rparr>\<rparr>)"

definition url_line ::
    "('u, 'f) M3uEnv \<Rightarrow> ParseLimits \<Rightarrow> ('s \<Rightarrow> ('u, 'f) M3uEntry \<Rightarrow> 'io ParseError + 's) \<Rightarrow>
     u64 \<Rightarrow> str \<Rightarrow> ('u, 'f, 's) M3uState \<Rightarrow> 'io ParseError + ('u, 'f, 's) M3uState" where
  "url_line env limits visit line_number line st =
     (case url_parse env line of
        Inr url \<Rightarrow>
          if ps_records_emitted (mp_stats (st_playlist st)) \<ge> pl_max_records limits
          then Inl (TooManyRecords (pl_max_records limits))
          else
            let (entry, playlist) =
                  (case st_pending st of
                     Some pending \<Rightarrow>
                       (\<lparr>me_duration_seconds = pe_duration_seconds pending, me_title = pe_title pending,
                         me_attributes = pe_attributes pending, me_url = url,
                         me_directives = pe_directives pending,
                         me_raw_extinf = Some (pe_raw_extinf pending)\<rparr>, st_playlist st)
                   | None \<Rightarrow>
                       (\<lparr>me_duration_seconds = None, me_title = [], me_attributes = (\<lambda>_. None),
                         me_url = url, me_directives = [], me_raw_extinf = None\<rparr>,
                        on_stats bump_seen (push_diagnostic (st_playlist st)
                          (dg_warning OrphanUrl (Some line_number) None
                            (lit ''URL has no preceding EXTINF; preserving it as an unnamed entry'')))))
            in (case visit (st_visitor st) entry of
                  Inl e \<Rightarrow> Inl e
                | Inr visitor \<Rightarrow>
                    Inr (st\<lparr>st_playlist := on_stats bump_emitted playlist, st_pending := None,
                      st_visitor := visitor\<rparr>))
      | Inl error \<Rightarrow>
          let playlist = (if st_pending st = None then st_playlist st
                          else on_stats bump_skipped (st_playlist st))
          in Inr (st\<lparr>st_playlist := push_diagnostic playlist
                 (dg_error InvalidUrl (Some line_number) None
                   (lit ''invalid absolute stream URL: '' @ error)),
               st_pending := None\<rparr>))"

text \<open>One turn of the loop of \<open>parse_m3u_visit\<close>.\<close>

definition process_content ::
    "('u, 'f) M3uEnv \<Rightarrow> ParseLimits \<Rightarrow> ('s \<Rightarrow> ('u, 'f) M3uEntry \<Rightarrow> 'io ParseError + 's) \<Rightarrow>
     u64 \<Rightarrow> str \<Rightarrow> ('u, 'f, 's) M3uState \<Rightarrow> 'io ParseError + ('u, 'f, 's) M3uState" where
  "process_content env limits visit line_number line st =
     (if starts_with (lit ''#EXTINF:'') line then extinf_line env limits line_number line st
      else if starts_with (lit ''#'') line then Inr (directive_line line st)
      else url_line env limits visit line_number line st)"

definition process_line ::
    "('u, 'f) M3uEnv \<Rightarrow> ParseLimits \<Rightarrow> ('s \<Rightarrow> ('u, 'f) M3uEntry \<Rightarrow> 'io ParseError + 's) \<Rightarrow>
     u64 \<Rightarrow> str \<Rightarrow> ('u, 'f, 's) M3uState \<Rightarrow> 'io ParseError + ('u, 'f, 's) M3uState" where
  "process_line env limits visit line_number line st =
     (let st = st\<lparr>st_playlist := on_stats (\<lambda>stats. stats\<lparr>ps_lines_read :=
                wrapping_add_u64 (ps_lines_read stats) 1\<rparr>) (st_playlist st)\<rparr>;
          line = str_trim (unwrap_or (strip_prefix [0xFEFF] line) line)
      in if line = [] then Inr st
         else if st_saw_content st then process_content env limits visit line_number line st
         else
           let st = st\<lparr>st_saw_content := True\<rparr> in
           if starts_with (lit ''#EXTM3U'') line
           then let (header, diagnostics) =
                      parse_header env line (mp_diagnostics (st_playlist st)) line_number
                in Inr (st\<lparr>st_saw_header := True,
                     st_playlist := (st_playlist st)\<lparr>mp_header := header, mp_diagnostics := diagnostics\<rparr>\<rparr>)
           else process_content env limits visit line_number line
                  (st\<lparr>st_playlist := push_diagnostic (st_playlist st)
                     (dg_warning MissingHeader (Some line_number) None
                       (lit ''playlist does not begin with #EXTM3U''))\<rparr>))"

text \<open>Every line takes bytes from the reader.\<close>

definition fill_size :: "'io Fill \<Rightarrow> nat" where
  "fill_size f = (case f of Bytes b \<Rightarrow> Suc (length b) | IoError e \<Rightarrow> 1)"

definition input_size :: "'io Fill list \<Rightarrow> nat" where
  "input_size inner = sum_list (map fill_size inner)"

lemma input_size_simps [simp]:
  "input_size [] = 0" "input_size (Bytes b # inner) = Suc (length b) + input_size inner"
  "input_size (IoError e # inner) = Suc (input_size inner)"
  by (simp_all add: input_size_def fill_size_def)

text \<open>The length of the bytes up to and including the first newline.\<close>

abbreviation line_end :: "bytes \<Rightarrow> nat" where
  "line_end available \<equiv> Suc (length (takeWhile (\<lambda>byte. byte \<noteq> 10) available))"

lemma line_end_le: "10 \<in> set available \<Longrightarrow> line_end available \<le> length available"
  by (induction available) auto

lemma next_line_loop_plain:
  assumes "available \<noteq> []" and "10 \<notin> set available"
  shows "next_line_loop limits n line r (Bytes available # inner) =
    (let took = length available in
     if saturating_add_u64 (length line) took > pl_max_line_bytes limits
     then Inl (LineTooLong (wrapping_add_u64 n 1) (pl_max_line_bytes limits))
     else if saturating_add_u64 r took > pl_max_input_bytes limits
     then Inl (InputTooLarge (pl_max_input_bytes limits))
     else next_line_loop limits n (line @ available) (saturating_add_u64 r took) inner)"
  using assms by (simp add: Let_def)

lemma next_line_loop_newline:
  assumes "10 \<in> set available"
  shows "next_line_loop limits n line r (Bytes available # inner) =
    (let took = line_end available in
     if saturating_add_u64 (length line) took > pl_max_line_bytes limits
     then Inl (LineTooLong (wrapping_add_u64 n 1) (pl_max_line_bytes limits))
     else if saturating_add_u64 r took > pl_max_input_bytes limits
     then Inl (InputTooLarge (pl_max_input_bytes limits))
     else Inr (Some (line @ take took available), saturating_add_u64 r took,
            if took = length available then inner else Bytes (drop took available) # inner))"
proof -
  have "available \<noteq> []" using assms by auto
  with assms show ?thesis by (simp add: Let_def)
qed

lemma next_line_loop_empty:
  "next_line_loop limits n line r (Bytes [] # inner) =
     Inr (if line = [] then None else Some line, r, Bytes [] # inner)"
  by simp

lemmas next_line_loop_rules = next_line_loop.simps(1,2) next_line_loop_empty

declare next_line_loop.simps(3) [simp del]

text \<open>Induction over the buffers, with the three forms a buffer can have.\<close>

lemma fill_induct [case_names End IoError Empty Newline Plain]:
  assumes "\<And>line r. P line r []"
    and "\<And>line r e inner. P line r (IoError e # inner)"
    and "\<And>line r inner. P line r (Bytes [] # inner)"
    and "\<And>line r available inner. 10 \<in> set available \<Longrightarrow> P line r (Bytes available # inner)"
    and "\<And>line r available inner. available \<noteq> [] \<Longrightarrow> 10 \<notin> set available \<Longrightarrow>
      (\<And>line r. P line r inner) \<Longrightarrow> P line r (Bytes available # inner)"
  shows "P line r inner"
proof (induction inner arbitrary: line r)
  case (Cons f inner)
  show ?case
  proof (cases f)
    case (Bytes available)
    then show ?thesis
      using Cons assms(3-5) by (cases "available = []"; cases "10 \<in> set available") auto
  qed (simp add: assms(2))
qed (rule assms(1))

lemma next_line_loop_shrinks:
  assumes "next_line_loop limits n line r inner = Inr (Some line', r', inner')"
  shows "input_size inner' < input_size inner \<or> line \<noteq> [] \<and> input_size inner' \<le> input_size inner"
  using assms
proof (induction line r inner rule: fill_induct)
  case (Newline line r available inner)
  then show ?case using line_end_le [of available]
    by (auto simp: next_line_loop_newline Let_def split: if_splits)
next
  case (Plain line r available inner)
  then show ?case by (fastforce simp: next_line_loop_plain Let_def split: if_splits)
qed (auto simp: next_line_loop_empty split: if_splits)

lemma next_line_shrinks:
  assumes "next_line reader = Inr (Some line, reader')"
  shows "input_size (lr_inner reader') < input_size (lr_inner reader)"
proof (cases "next_line_loop (lr_limits reader) (lr_line_number reader) [] (lr_bytes_read reader) (lr_inner reader)")
  case (Inr r)
  obtain l b i where r: "r = (l, b, i)" by (cases r)
  show ?thesis
    using assms Inr next_line_loop_shrinks [of _ _ "[]"]
    by (auto simp: next_line_def r Let_def split: option.splits dest!: next_line_loop_shrinks)
qed (use assms in \<open>simp add: next_line_def\<close>)

function parse_loop ::
    "('u, 'f) M3uEnv \<Rightarrow> ('s \<Rightarrow> ('u, 'f) M3uEntry \<Rightarrow> 'io ParseError + 's) \<Rightarrow> 'io BoundedLineReader \<Rightarrow>
     ('u, 'f, 's) M3uState \<Rightarrow> 'io ParseError + (('u, 'f, 's) M3uState \<times> 'io BoundedLineReader)" where
  "parse_loop env visit reader st =
     (case next_line reader of
        Inl e \<Rightarrow> Inl e
      | Inr (None, reader) \<Rightarrow> Inr (st, reader)
      | Inr (Some (line_number, line), reader') \<Rightarrow>
          (case process_line env (lr_limits reader) visit line_number line st of
             Inl e \<Rightarrow> Inl e
           | Inr st \<Rightarrow> parse_loop env visit reader' st))"
  by pat_completeness auto
termination
  by (relation "measure (\<lambda>(env, visit, reader, st). input_size (lr_inner reader))")
    (auto dest: next_line_shrinks)

declare parse_loop.simps [simp del]

definition count_severity :: "Severity \<Rightarrow> Diagnostic list \<Rightarrow> u64" where
  "count_severity severity diagnostics =
     unwrap_or (try_u64 (length (filter (\<lambda>item. dg_severity item = severity) diagnostics))) u64_max"

definition finish_playlist ::
    "('u, 'f, 's) M3uState \<Rightarrow> u64 \<Rightarrow> ('u, 'f) M3uPlaylist" where
  "finish_playlist st bytes_read =
     (let playlist =
            (case st_pending st of
               None \<Rightarrow> st_playlist st
             | Some entry \<Rightarrow>
                 push_diagnostic (on_stats bump_skipped (st_playlist st))
                   (dg_warning OrphanMetadata (Some (pe_line entry)) None
                     (lit ''EXTINF at end of input has no URL'')));
          playlist =
            (if \<not> st_saw_header st \<and> \<not> st_saw_content st
             then push_diagnostic playlist (dg_warning MissingHeader None None (lit ''empty playlist''))
             else playlist)
      in on_stats (\<lambda>stats. stats\<lparr>ps_bytes_read := bytes_read,
             ps_warnings := count_severity Warning (mp_diagnostics playlist),
             ps_errors := count_severity Error (mp_diagnostics playlist)\<rparr>) playlist)"

definition parse_m3u_visit ::
    "('u, 'f) M3uEnv \<Rightarrow> 'io Fill list \<Rightarrow> ParseLimits \<Rightarrow>
     ('s \<Rightarrow> ('u, 'f) M3uEntry \<Rightarrow> 'io ParseError + 's) \<Rightarrow> 's \<Rightarrow>
     'io ParseError + (('u, 'f) M3uPlaylist \<times> 's)" where
  "parse_m3u_visit env input limits visit visitor =
     (case parse_loop env visit (reader_new input limits)
             \<lparr>st_playlist = playlist_default, st_pending = None, st_saw_content = False,
              st_saw_header = False, st_visitor = visitor\<rparr> of
        Inl e \<Rightarrow> Inl e
      | Inr (st, reader) \<Rightarrow> Inr (finish_playlist st (lr_bytes_read reader), st_visitor st))"

definition collect_entry ::
    "('u, 'f) M3uEntry list \<Rightarrow> ('u, 'f) M3uEntry \<Rightarrow> 'io ParseError + ('u, 'f) M3uEntry list" where
  "collect_entry entries entry = Inr (entries @ [entry])"

definition parse_m3u ::
    "('u, 'f) M3uEnv \<Rightarrow> 'io Fill list \<Rightarrow> ParseLimits \<Rightarrow> 'io ParseError + ('u, 'f) M3uPlaylist" where
  "parse_m3u env input limits =
     (case parse_m3u_visit env input limits collect_entry [] of
        Inl e \<Rightarrow> Inl e
      | Inr (playlist, entries) \<Rightarrow> Inr (playlist\<lparr>mp_entries := entries\<rparr>))"

section \<open>Buffering\<close>

text \<open>An input without I/O errors: every buffer is non-empty.\<close>

definition buffers :: "'io Fill list \<Rightarrow> bool" where
  "buffers input \<longleftrightarrow> list_all (\<lambda>f. case f of Bytes b \<Rightarrow> b \<noteq> [] | IoError e \<Rightarrow> False) input"

definition contents :: "'io Fill list \<Rightarrow> bytes" where
  "contents input = concat (map (\<lambda>f. case f of Bytes b \<Rightarrow> b | IoError e \<Rightarrow> []) input)"

lemma buffers_simps [simp]:
  "buffers []" "buffers (Bytes b # inner) \<longleftrightarrow> b \<noteq> [] \<and> buffers inner" "\<not> buffers (IoError e # inner)"
  by (simp_all add: buffers_def)

lemma contents_simps [simp]:
  "contents [] = []" "contents (Bytes b # inner) = b @ contents inner"
  "contents (IoError e # inner) = contents inner"
  by (simp_all add: contents_def)

lemma contents_Nil: "buffers inner \<Longrightarrow> contents inner = [] \<longleftrightarrow> inner = []"
  by (cases inner) (auto simp: buffers_def contents_def split: Fill.splits)

text \<open>The length of the next line of a byte string, its newline included.\<close>

definition line_len :: "bytes \<Rightarrow> nat" where
  "line_len bs = (if 10 \<in> set bs then line_end bs else length bs)"

lemma line_len_le: "line_len bs \<le> length bs"
  using line_end_le by (auto simp: line_len_def)

lemma line_len_pos: "bs \<noteq> [] \<Longrightarrow> 0 < line_len bs"
  by (simp add: line_len_def)

lemma line_len_append:
  "10 \<in> set b \<Longrightarrow> line_len (b @ bs) = line_end b"
  "10 \<notin> set b \<Longrightarrow> line_len (b @ bs) = length b + line_len bs"
proof -
  show "line_len (b @ bs) = line_end b" if "10 \<in> set b" using that by (simp add: line_len_def)
  show "line_len (b @ bs) = length b + line_len bs" if "10 \<notin> set b"
  proof -
    have "takeWhile (\<lambda>byte. byte \<noteq> 10) (b @ bs) = b @ takeWhile (\<lambda>byte. byte \<noteq> 10) bs"
      using that by (intro takeWhile_append2) auto
    with that show ?thesis by (simp add: line_len_def)
  qed
qed

definition too_large :: "'io ParseError \<Rightarrow> bool" where
  "too_large e \<longleftrightarrow> (\<exists>n l. e = LineTooLong n l) \<or> (\<exists>l. e = InputTooLarge l)"

text \<open>What the line loop returns, in terms of the contents alone.\<close>

lemma next_line_loop_spec:
  assumes "buffers inner" and "length line + length (contents inner) < u64_bound"
    and "r + length (contents inner) < u64_bound" and "contents inner \<noteq> []"
  defines "k \<equiv> line_len (contents inner)"
  shows "if length line + k \<le> pl_max_line_bytes limits \<and> r + k \<le> pl_max_input_bytes limits
    then \<exists>inner'. next_line_loop limits n line r inner = Inr (Some (line @ take k (contents inner)), r + k, inner') \<and>
      buffers inner' \<and> contents inner' = drop k (contents inner)
    else \<exists>e. next_line_loop limits n line r inner = Inl e \<and> too_large e"
  using assms(1-4) unfolding k_def
proof (induction line r inner rule: fill_induct)
  case (Newline line r available inner)
  then have k: "line_len (contents (Bytes available # inner)) = line_end available"
    by (simp add: line_len_append)
  have le: "line_end available \<le> length available" using Newline(1) by (rule line_end_le)
  have sat: "saturating_add_u64 (length line) (line_end available) = length line + line_end available"
    "saturating_add_u64 r (line_end available) = r + line_end available"
    using Newline le by (simp_all add: saturating_add_u64_exact)
  show ?case
    using Newline le unfolding k next_line_loop_newline [OF Newline(1)] Let_def sat
    by (auto simp: too_large_def)
next
  case (Plain line r available inner)
  let ?l = "length available"
  have k: "line_len (contents (Bytes available # inner)) = ?l + line_len (contents inner)"
    using Plain by (simp add: line_len_append)
  have sat: "saturating_add_u64 (length line) ?l = length line + ?l" "saturating_add_u64 r ?l = r + ?l"
    using Plain by (simp_all add: saturating_add_u64_exact)
  show ?case
  proof (cases "contents inner = []")
    case True
    then have i: "inner = []" using Plain contents_Nil [of inner] by simp
    show ?thesis
      using Plain unfolding k next_line_loop_plain [OF Plain(1,2)] Let_def sat
      by (auto simp: i too_large_def line_len_def)
  next
    case False
    then have IH: "if length (line @ available) + line_len (contents inner) \<le> pl_max_line_bytes limits \<and>
          r + ?l + line_len (contents inner) \<le> pl_max_input_bytes limits
        then \<exists>inner'. next_line_loop limits n (line @ available) (r + ?l) inner =
            Inr (Some ((line @ available) @ take (line_len (contents inner)) (contents inner)),
              r + ?l + line_len (contents inner), inner') \<and>
          buffers inner' \<and> contents inner' = drop (line_len (contents inner)) (contents inner)
        else \<exists>e. next_line_loop limits n (line @ available) (r + ?l) inner = Inl e \<and> too_large e"
      using Plain by (intro Plain(3)) auto
    show ?thesis
      using IH unfolding k next_line_loop_plain [OF Plain(1,2)] Let_def sat
      by (auto simp: too_large_def add.assoc split: if_splits)
  qed
qed simp_all

definition same_input :: "'io BoundedLineReader \<Rightarrow> 'io BoundedLineReader \<Rightarrow> bool" where
  "same_input a b \<longleftrightarrow> buffers (lr_inner a) \<and> buffers (lr_inner b) \<and>
     contents (lr_inner a) = contents (lr_inner b) \<and> lr_limits a = lr_limits b \<and>
     lr_bytes_read a = lr_bytes_read b \<and> lr_line_number a = lr_line_number b \<and>
     lr_bytes_read a + length (contents (lr_inner a)) < u64_bound"

lemma same_input_sym: "same_input a b \<Longrightarrow> same_input b a"
  by (auto simp: same_input_def)

lemma next_line_same:
  assumes "same_input a b"
  shows "(\<exists>e f. next_line a = Inl e \<and> next_line b = Inl f) \<or>
    (\<exists>x a' b'. next_line a = Inr (x, a') \<and> next_line b = Inr (x, b') \<and> same_input a' b' \<and>
       lr_limits a' = lr_limits a)"
proof -
  let ?bs = "contents (lr_inner a)" and ?k = "line_len (contents (lr_inner a))"
  have ab: "buffers (lr_inner a)" "buffers (lr_inner b)" "contents (lr_inner b) = ?bs"
    "lr_limits b = lr_limits a" "lr_bytes_read b = lr_bytes_read a" "lr_line_number b = lr_line_number a"
    "lr_bytes_read a + length ?bs < u64_bound"
    using assms by (auto simp: same_input_def)
  show ?thesis
  proof (cases "?bs = []")
    case True
    then have "lr_inner a = []" "lr_inner b = []" using ab contents_Nil by metis+
    then show ?thesis using assms by (auto simp: next_line_def same_input_def)
  next
    case False
    let ?l = "\<lambda>x. next_line_loop (lr_limits a) (lr_line_number a) [] (lr_bytes_read a) (lr_inner x)"
    note A = next_line_loop_spec [of "lr_inner a" "[]" "lr_bytes_read a" "lr_limits a" "lr_line_number a"]
    note B = next_line_loop_spec [of "lr_inner b" "[]" "lr_bytes_read a" "lr_limits a" "lr_line_number a"]
    show ?thesis
    proof (cases "?k \<le> pl_max_line_bytes (lr_limits a) \<and> lr_bytes_read a + ?k \<le> pl_max_input_bytes (lr_limits a)")
      case True
      obtain i where i: "?l a = Inr (Some (take ?k ?bs), lr_bytes_read a + ?k, i)" "buffers i" "contents i = drop ?k ?bs"
        using A False ab True by auto
      obtain j where j: "?l b = Inr (Some (take ?k ?bs), lr_bytes_read a + ?k, j)" "buffers j" "contents j = drop ?k ?bs"
        using B False ab True by auto
      show ?thesis
        using i j ab line_len_le [of ?bs]
        by (cases "from_utf8 (trim_line_end (take ?k ?bs))") (auto simp: next_line_def same_input_def Let_def)
    next
      case nofit: False
      obtain e where "?l a = Inl e" using A False ab nofit by auto
      moreover obtain f where "?l b = Inl f" using B False ab nofit by auto
      ultimately show ?thesis using ab by (simp add: next_line_def)
    qed
  qed
qed

lemma parse_loop_same:
  assumes "same_input a b" and "parse_loop env visit a st = Inr (st', a')"
  shows "\<exists>b'. parse_loop env visit b st = Inr (st', b') \<and> same_input a' b'"
  using assms
proof (induction env visit a st arbitrary: b rule: parse_loop.induct)
  case (1 env visit a st)
  from next_line_same [OF 1(2)] show ?case
  proof (elim disjE exE conjE)
    fix e f assume "next_line a = Inl e"
    then show ?thesis using 1(3) by (simp add: parse_loop.simps [of env visit a])
  next
    fix x a1 b1
    assume n: "next_line a = Inr (x, a1)" "next_line b = Inr (x, b1)" "same_input a1 b1" "lr_limits a1 = lr_limits a"
    have lim: "lr_limits b = lr_limits a" using 1(2) by (simp add: same_input_def)
    show ?thesis
    proof (cases x)
      case None
      then show ?thesis using n 1(3) by (auto simp: parse_loop.simps [of env visit a] parse_loop.simps [of env visit b])
    next
      case (Some nl)
      obtain l s where l: "nl = (l, s)" by (cases nl)
      show ?thesis
      proof (cases "process_line env (lr_limits a) visit l s st")
        case (Inl e)
        then show ?thesis using n 1(3) Some l by (simp add: parse_loop.simps [of env visit a])
      next
        case (Inr st1)
        have "parse_loop env visit a1 st1 = Inr (st', a')"
          using n 1(3) Some l Inr by (simp add: parse_loop.simps [of env visit a])
        then have "\<exists>b'. parse_loop env visit b1 st1 = Inr (st', b') \<and> same_input a' b'"
          using n Some l Inr by (intro 1(1)) auto
        then show ?thesis using n Some l Inr lim by (simp add: parse_loop.simps [of env visit b])
      qed
    qed
  qed
qed

lemma parse_m3u_visit_same:
  assumes "buffers a" "buffers b" "contents a = contents b" "length (contents a) < u64_bound"
    and "parse_m3u_visit env a limits visit v = Inr p"
  shows "parse_m3u_visit env b limits visit v = Inr p"
proof -
  let ?st = "\<lparr>st_playlist = playlist_default, st_pending = None, st_saw_content = False,
              st_saw_header = False, st_visitor = v\<rparr>"
  have s: "same_input (reader_new a limits) (reader_new b limits)"
    using assms by (simp add: same_input_def reader_new_def)
  obtain st r where l: "parse_loop env visit (reader_new a limits) ?st = Inr (st, r)"
    and p: "p = (finish_playlist st (lr_bytes_read r), st_visitor st)"
    using assms(5) by (auto simp: parse_m3u_visit_def split: sum.splits)
  obtain r' where "parse_loop env visit (reader_new b limits) ?st = Inr (st, r')" "same_input r r'"
    using parse_loop_same [OF s l] by blast
  then show ?thesis by (simp add: parse_m3u_visit_def p same_input_def)
qed

text \<open>C39: buffering does not matter.  How the bytes of an input are cut into buffers decides neither
  whether the playlist parses nor the result; it can only decide which of two limits a refusal
  names.\<close>

theorem m3u_independent_of_buffering:
  fixes a b :: "'io Fill list"
  assumes "buffers a" and "buffers b" and "contents a = contents b" and "length (contents a) < u64_bound"
  shows "parse_m3u env a limits = Inr playlist \<longleftrightarrow> parse_m3u env b limits = Inr playlist"
proof -
  have "parse_m3u env b limits = Inr playlist"
    if "parse_m3u env a limits = Inr playlist" "buffers a" "buffers b" "contents a = contents b"
      "length (contents a) < u64_bound" for a b :: "'io Fill list"
    using that parse_m3u_visit_same [of a b env limits collect_entry "[]"]
    by (auto simp: parse_m3u_def split: sum.splits)
  with assms show ?thesis by metis
qed


text \<open>A concrete environment: absolute URLs start with \<open>http\<close>, a duration is kept as text.\<close>

definition plain_env :: "(str, str) M3uEnv" where
  "plain_env = \<lparr>url_parse = (\<lambda>s. if starts_with (lit ''http'') s then Inr s else Inl (lit ''relative URL'')),
     f64_parse = Some, f64_is_finite = (\<lambda>_. True), debug_str = (\<lambda>s. [34] @ s @ [34])\<rparr>"

theorem m3u_independent_of_buffering_witness:
  "\<forall>playlist. parse_m3u plain_env [Bytes (as_bytes (lit ''#EXTM3U'' @ [10] @ lit ''http://a''))] limits_default =
       (Inr playlist :: unit ParseError + _) \<longleftrightarrow>
     parse_m3u plain_env [Bytes (as_bytes (lit ''#EXT'')), Bytes (as_bytes (lit ''M3U'' @ [10])),
         Bytes (as_bytes (lit ''http://a''))] limits_default = (Inr playlist :: unit ParseError + _)"
proof
  fix playlist
  have n: "utf8_char c \<noteq> []" for c by (simp add: utf8_char_def)
  have len: "length (as_bytes (lit ''#EXTM3U'' @ [10] @ lit ''http://a'')) < u64_bound"
    unfolding length_as_bytes by (simp add: utf8_len_def lit_simps)
  show "parse_m3u plain_env [Bytes (as_bytes (lit ''#EXTM3U'' @ [10] @ lit ''http://a''))] limits_default =
       (Inr playlist :: unit ParseError + _) \<longleftrightarrow>
     parse_m3u plain_env [Bytes (as_bytes (lit ''#EXT'')), Bytes (as_bytes (lit ''M3U'' @ [10])),
         Bytes (as_bytes (lit ''http://a''))] limits_default = (Inr playlist :: unit ParseError + _)"
    using m3u_independent_of_buffering [of "[Bytes (as_bytes (lit ''#EXTM3U'' @ [10] @ lit ''http://a''))]"
        "[Bytes (as_bytes (lit ''#EXT'')), Bytes (as_bytes (lit ''M3U'' @ [10])), Bytes (as_bytes (lit ''http://a''))]"]
      len by (simp add: n lit_simps)
qed

section \<open>Accounting\<close>

text \<open>The counters that the records move.\<close>

definition tally :: "ParseStats \<Rightarrow> nat \<times> nat \<times> nat \<times> nat" where
  "tally s = (ps_lines_read s, ps_records_seen s, ps_records_emitted s, ps_records_skipped s)"

named_theorems tally_simps \<open>how an update of the statistics changes the tally\<close>

lemma tally_updates [tally_simps]:
  "tally (s\<lparr>ps_warnings := w\<rparr>) = tally s" "tally (s\<lparr>ps_errors := w\<rparr>) = tally s"
  "tally (s\<lparr>ps_unknown_metadata := w\<rparr>) = tally s" "tally (s\<lparr>ps_bytes_read := w\<rparr>) = tally s"
  by (simp_all add: tally_def)

lemma tally_bumps [tally_simps]:
  assumes "tally s = (l, n, e, k)"
  shows "tally (bump_seen s) = (l, wrapping_add_u64 n 1, e, k)"
    "tally (bump_emitted s) = (l, n, wrapping_add_u64 e 1, k)"
    "tally (bump_skipped s) = (l, n, e, wrapping_add_u64 k 1)"
    "tally (s\<lparr>ps_lines_read := wrapping_add_u64 (ps_lines_read s) 1\<rparr>) = (wrapping_add_u64 l 1, n, e, k)"
  using assms by (simp_all add: tally_def bump_seen_def bump_emitted_def bump_skipped_def)

lemma tally_observe [tally_simps]: "tally (stats_observe s d) = tally s"
  by (simp add: stats_observe_def tally_simps split: Severity.splits)

lemma tally_playlist [tally_simps]:
  "mp_stats (push_diagnostic p d) = stats_observe (mp_stats p) d" "mp_stats (on_stats f p) = f (mp_stats p)"
  by (simp_all add: push_diagnostic_def on_stats_def)

lemma tally_extinf [tally_simps]:
  "tally (snd (snd (parse_extinf env line n d s))) = tally s"
  by (auto simp: parse_extinf_def Let_def tally_simps split: prod.splits option.splits if_splits)

definition m3u_inv :: "ParseLimits \<Rightarrow> nat \<Rightarrow> ('u, 'f, ('u, 'f) M3uEntry list) M3uState \<Rightarrow> bool" where
  "m3u_inv limits lines st \<longleftrightarrow>
     (\<exists>n e k. tally (mp_stats (st_playlist st)) = (lines, n, e, k) \<and> n \<le> lines \<and>
        n = e + k + (if st_pending st = None then 0 else 1) \<and>
        e = length (st_visitor st) \<and> e \<le> pl_max_records limits)"

lemma extinf_line_inv:
  assumes "tally (mp_stats (st_playlist st)) = (Suc lines, n, e, k)" and "n \<le> lines" and "Suc lines < u64_bound"
    and "n = e + k + (if st_pending st = None then 0 else 1)"
    and "e = length (st_visitor st)" and "e \<le> pl_max_records limits"
    and "extinf_line env limits number line st = Inr st'"
  shows "m3u_inv limits (Suc lines) st'"
proof (cases "st_pending st")
  case None
  have b: "tally (bump_seen (mp_stats (st_playlist st))) = (Suc lines, Suc n, e, k)"
    using tally_bumps(1) [OF assms(1)] assms(2,3) by simp
  have "st_visitor st' = st_visitor st \<and> st_pending st' \<noteq> None \<and>
      tally (mp_stats (st_playlist st')) = (Suc lines, Suc n, e, k)"
    using assms(7) b
    by (auto simp: extinf_line_def None Let_def tally_simps split: if_splits prod.splits)
      (metis snd_conv tally_extinf)
  with assms None show ?thesis by (simp add: m3u_inv_def)
next
  case (Some previous)
  have b: "tally (bump_seen (mp_stats (st_playlist st))) = (Suc lines, Suc n, e, k)"
    using tally_bumps(1) [OF assms(1)] assms(2,3) by simp
  have c: "tally (bump_skipped (bump_seen (mp_stats (st_playlist st)))) = (Suc lines, Suc n, e, Suc k)"
    using tally_bumps(3) [OF b] assms(2-4) by simp
  have "st_visitor st' = st_visitor st \<and> st_pending st' \<noteq> None \<and>
      tally (mp_stats (st_playlist st')) = (Suc lines, Suc n, e, Suc k)"
    using assms(7) c
    by (auto simp: extinf_line_def Some Let_def tally_simps split: if_splits prod.splits)
      (metis snd_conv tally_extinf tally_observe)
  with assms Some show ?thesis by (simp add: m3u_inv_def)
qed

lemma directive_line_inv:
  assumes "tally (mp_stats (st_playlist st)) = (Suc lines, n, e, k)" and "n \<le> lines"
    and "n = e + k + (if st_pending st = None then 0 else 1)"
    and "e = length (st_visitor st)" and "e \<le> pl_max_records limits"
  shows "m3u_inv limits (Suc lines) (directive_line line st)"
proof -
  have "st_visitor (directive_line line st) = st_visitor st \<and>
      (st_pending (directive_line line st) = None \<longleftrightarrow> st_pending st = None) \<and>
      tally (mp_stats (st_playlist (directive_line line st))) = tally (mp_stats (st_playlist st))"
    by (simp add: directive_line_def Let_def tally_simps split: option.splits)
  with assms show ?thesis by (simp add: m3u_inv_def)
qed

lemma url_line_inv:
  assumes "tally (mp_stats (st_playlist st)) = (Suc lines, n, e, k)" and "n \<le> lines" and "Suc lines < u64_bound"
    and "n = e + k + (if st_pending st = None then 0 else 1)"
    and "e = length (st_visitor st)" and "e \<le> pl_max_records limits"
    and "url_line env limits collect_entry number line st = Inr st'"
  shows "m3u_inv limits (Suc lines) st'"
proof (cases "url_parse env line")
  case (Inl error)
  have s: "tally (bump_skipped (mp_stats (st_playlist st))) = (Suc lines, n, e, Suc k)" if "st_pending st \<noteq> None"
    using tally_bumps(3) [OF assms(1)] assms(2-4) that by simp
  show ?thesis
    using assms Inl s
    by (cases "st_pending st") (auto simp: url_line_def Let_def m3u_inv_def tally_simps)
next
  case (Inr url)
  have e: "ps_records_emitted (mp_stats (st_playlist st)) = e" using assms(1) by (simp add: tally_def)
  have u: "tally (bump_emitted (mp_stats (st_playlist st))) = (Suc lines, n, Suc e, k)"
    using tally_bumps(2) [OF assms(1)] assms(2-4) by simp
  have v: "tally (bump_emitted (bump_seen (stats_observe (mp_stats (st_playlist st)) d))) =
      (Suc lines, Suc n, Suc e, k)" for d
  proof -
    have "tally (bump_seen (stats_observe (mp_stats (st_playlist st)) d)) = (Suc lines, Suc n, e, k)"
      using tally_bumps(1) [of "stats_observe (mp_stats (st_playlist st)) d"] assms by (simp add: tally_observe)
    from tally_bumps(2) [OF this] show ?thesis using assms(2-4) by simp
  qed
  show ?thesis
    using assms Inr e u v
    by (cases "st_pending st")
      (auto simp: url_line_def Let_def m3u_inv_def tally_simps collect_entry_def split: if_splits)
qed

lemma process_content_inv:
  assumes "tally (mp_stats (st_playlist st)) = (Suc lines, n, e, k)" and "n \<le> lines" and "Suc lines < u64_bound"
    and "n = e + k + (if st_pending st = None then 0 else 1)"
    and "e = length (st_visitor st)" and "e \<le> pl_max_records limits"
    and "process_content env limits collect_entry number line st = Inr st'"
  shows "m3u_inv limits (Suc lines) st'"
  using assms(7) extinf_line_inv [OF assms(1-6)] directive_line_inv [OF assms(1,2,4-6)] url_line_inv [OF assms(1-6)]
  by (auto simp: process_content_def split: if_splits)

lemma process_line_inv:
  assumes "m3u_inv limits lines st" and "Suc lines < u64_bound"
    and "process_line env limits collect_entry number line st = Inr st'"
  shows "m3u_inv limits (Suc lines) st'"
proof -
  obtain n e k where t: "tally (mp_stats (st_playlist st)) = (lines, n, e, k)" and n: "n \<le> lines"
      "n = e + k + (if st_pending st = None then 0 else 1)" "e = length (st_visitor st)" "e \<le> pl_max_records limits"
    using assms(1) by (auto simp: m3u_inv_def)
  define st1 where "st1 = st\<lparr>st_playlist := on_stats (\<lambda>stats. stats\<lparr>ps_lines_read :=
    wrapping_add_u64 (ps_lines_read stats) 1\<rparr>) (st_playlist st)\<rparr>"
  have t1: "tally (mp_stats (st_playlist st1)) = (Suc lines, n, e, k)"
    using tally_bumps(4) [OF t] assms(2) by (simp add: st1_def tally_simps)
  have s1: "st_pending st1 = st_pending st" "st_visitor st1 = st_visitor st" by (simp_all add: st1_def)
  define l where "l = str_trim (unwrap_or (strip_prefix [0xFEFF] line) line)"
  note step = assms(3) [unfolded process_line_def Let_def, folded st1_def l_def]
  note content = process_content_inv [of _ lines n e k limits env number l st']
  consider "l = []" | "l \<noteq> []" "st_saw_content st1" | "l \<noteq> []" "\<not> st_saw_content st1" "starts_with (lit ''#EXTM3U'') l"
    | "l \<noteq> []" "\<not> st_saw_content st1" "\<not> starts_with (lit ''#EXTM3U'') l" by blast
  then show ?thesis
  proof cases
    case 1
    then show ?thesis using step t1 n s1 by (auto simp: m3u_inv_def)
  next
    case 2
    then show ?thesis using step t1 n s1 assms(2) by (intro content [of st1]) simp_all
  next
    case 3
    then show ?thesis using step t1 n s1 by (auto simp: m3u_inv_def split: prod.splits)
  next
    case 4
    show ?thesis
      by (rule content [OF _ n(1) assms(2) _ _ n(4)], use 4 step t1 n s1 in \<open>simp_all add: tally_simps\<close>)
  qed
qed


lemma next_line_end:
  assumes "buffers (lr_inner r)" and "lr_bytes_read r + length (contents (lr_inner r)) < u64_bound"
    and "next_line r = Inr (None, r')"
  shows "contents (lr_inner r) = []" "r' = r"
proof -
  show c: "contents (lr_inner r) = []"
  proof (rule ccontr)
    assume "contents (lr_inner r) \<noteq> []"
    with assms show False
      using next_line_loop_spec [of "lr_inner r" "[]" "lr_bytes_read r" "lr_limits r" "lr_line_number r"]
      by (auto simp: next_line_def Let_def split: if_splits option.splits)
  qed
  have "lr_inner r = []" using contents_Nil [OF assms(1)] c by simp
  then show "r' = r" using assms(3) by (cases r) (simp add: next_line_def)
qed

lemma next_line_some:
  assumes "buffers (lr_inner r)" and "lr_bytes_read r + length (contents (lr_inner r)) < u64_bound"
    and "next_line r = Inr (Some (number, line), r')"
  defines "k \<equiv> line_len (contents (lr_inner r))"
  shows "buffers (lr_inner r') \<and> contents (lr_inner r') = drop k (contents (lr_inner r)) \<and>
    0 < k \<and> k \<le> length (contents (lr_inner r)) \<and> lr_bytes_read r' = lr_bytes_read r + k \<and>
    lr_bytes_read r' \<le> pl_max_input_bytes (lr_limits r) \<and> k \<le> pl_max_line_bytes (lr_limits r) \<and>
    lr_limits r' = lr_limits r \<and> lr_line_number r' = wrapping_add_u64 (lr_line_number r) 1"
proof -
  have c: "contents (lr_inner r) \<noteq> []"
  proof
    assume "contents (lr_inner r) = []"
    then have "lr_inner r = []" using contents_Nil [OF assms(1)] by simp
    with assms(3) show False by (simp add: next_line_def)
  qed
  from c assms(1-3) show ?thesis
    using next_line_loop_spec [of "lr_inner r" "[]" "lr_bytes_read r" "lr_limits r" "lr_line_number r"]
      line_len_le [of "contents (lr_inner r)"] line_len_pos [OF c]
    unfolding k_def by (auto simp: next_line_def Let_def split: if_splits option.splits)
qed

lemma parse_loop_inv:
  fixes r :: "'io BoundedLineReader"
  assumes "buffers (lr_inner r)" and "lr_bytes_read r + length (contents (lr_inner r)) < u64_bound"
    and "lr_line_number r \<le> lr_bytes_read r" and "lr_bytes_read r \<le> pl_max_input_bytes (lr_limits r)"
    and "m3u_inv (lr_limits r) (lr_line_number r) st"
    and "parse_loop env collect_entry r st = Inr (st', r')"
  shows "m3u_inv (lr_limits r) (lr_line_number r') st' \<and> lr_line_number r' < u64_bound \<and>
    lr_bytes_read r' = lr_bytes_read r + length (contents (lr_inner r)) \<and>
    lr_bytes_read r' \<le> pl_max_input_bytes (lr_limits r)"
  using assms
proof (induction "length (contents (lr_inner r))" arbitrary: r st rule: less_induct)
  case less
  note unfold_loop = less.prems(6) [unfolded parse_loop.simps [of env collect_entry r st]]
  show ?case
  proof (cases "next_line r")
    case (Inl e)
    then show ?thesis using unfold_loop by simp
  next
    case (Inr xr)
    obtain x r1 where xr: "xr = (x, r1)" by (cases xr)
    show ?thesis
    proof (cases x)
      case None
      then show ?thesis
        using unfold_loop Inr xr next_line_end [OF less.prems(1,2), of r1] less.prems by auto
    next
      case (Some nl)
      obtain number line where nl: "nl = (number, line)" by (cases nl)
      note N = next_line_some [OF less.prems(1,2), of number line r1]
      have n: "next_line r = Inr (Some (number, line), r1)" using Inr xr Some nl by simp
      obtain st1 where st1: "process_line env (lr_limits r) collect_entry number line st = (Inr st1 :: 'io ParseError + _)"
        and go: "parse_loop env collect_entry r1 st1 = Inr (st', r')"
        using unfold_loop n by (auto split: sum.splits)
      have bound: "Suc (lr_line_number r) < u64_bound" using N [OF n] less.prems(2,3) by linarith
      then have l1: "lr_line_number r1 = Suc (lr_line_number r)" using N [OF n] by simp
      have inv: "m3u_inv (lr_limits r) (Suc (lr_line_number r)) st1"
        using less.prems(5) bound st1 by (rule process_line_inv)
      have "m3u_inv (lr_limits r1) (lr_line_number r') st' \<and> lr_line_number r' < u64_bound \<and>
          lr_bytes_read r' = lr_bytes_read r1 + length (contents (lr_inner r1)) \<and>
          lr_bytes_read r' \<le> pl_max_input_bytes (lr_limits r1)"
      proof (rule less.hyps)
        show "length (contents (lr_inner r1)) < length (contents (lr_inner r))" using N [OF n] by (simp, linarith)
        show "lr_bytes_read r1 + length (contents (lr_inner r1)) < u64_bound" using N [OF n] less.prems(2) by simp
        show "lr_line_number r1 \<le> lr_bytes_read r1" using N [OF n] less.prems(3) l1 by linarith
        have "lr_limits r1 = lr_limits r" using N [OF n] by blast
        then show "m3u_inv (lr_limits r1) (lr_line_number r1) st1" using inv l1 by (simp only:)
      qed (use N [OF n] go in simp_all)
      with N [OF n] show ?thesis by auto
    qed
  qed
qed

text \<open>the statistics of a parsed playlist add up.  Every record that was seen was either emitted
  or skipped, the emitted ones are the entries of the playlist and at most the permitted number, the
  bytes are those of the input and at most the permitted number, and the warnings and errors are
  counted from the diagnostics.\<close>

theorem m3u_accounting:
  fixes input :: "'io Fill list"
  assumes "buffers input" and "length (contents input) < u64_bound"
    and "parse_m3u env input limits = Inr playlist"
  shows "let stats = mp_stats playlist in
    ps_records_seen stats = ps_records_emitted stats + ps_records_skipped stats \<and>
    ps_records_emitted stats = length (mp_entries playlist) \<and>
    ps_records_emitted stats \<le> pl_max_records limits \<and>
    ps_records_seen stats \<le> ps_lines_read stats \<and>
    ps_bytes_read stats = length (contents input) \<and>
    ps_bytes_read stats \<le> pl_max_input_bytes limits \<and>
    ps_warnings stats = min u64_max (length (filter (\<lambda>d. dg_severity d = Warning) (mp_diagnostics playlist))) \<and>
    ps_errors stats = min u64_max (length (filter (\<lambda>d. dg_severity d = Error) (mp_diagnostics playlist)))"
proof -
  let ?st = "\<lparr>st_playlist = playlist_default, st_pending = None, st_saw_content = False,
    st_saw_header = False, st_visitor = []\<rparr> :: (_, _, ('a, 'b) M3uEntry list) M3uState"
  let ?r = "reader_new input limits"
  obtain st r where loop: "parse_loop env collect_entry ?r ?st = Inr (st, r)"
    and p: "playlist = (finish_playlist st (lr_bytes_read r))\<lparr>mp_entries := st_visitor st\<rparr>"
    using assms(3) by (auto simp: parse_m3u_def parse_m3u_visit_def split: sum.splits)
  have "m3u_inv limits (lr_line_number r) st \<and> lr_line_number r < u64_bound \<and>
      lr_bytes_read r = length (contents input) \<and> lr_bytes_read r \<le> pl_max_input_bytes limits"
    using parse_loop_inv [of ?r ?st env st r] loop assms(1,2)
    by (simp add: reader_new_def m3u_inv_def tally_def playlist_default_def stats_default_def)
  then obtain n e k where t: "tally (mp_stats (st_playlist st)) = (lr_line_number r, n, e, k)"
    and inv: "n \<le> lr_line_number r" "n = e + k + (if st_pending st = None then 0 else 1)"
      "e = length (st_visitor st)" "e \<le> pl_max_records limits" "lr_line_number r < u64_bound"
      "lr_bytes_read r = length (contents input)" "lr_bytes_read r \<le> pl_max_input_bytes limits"
    by (auto simp: m3u_inv_def)
  have count: "count_severity s ds = min u64_max (length (filter (\<lambda>d. dg_severity d = s) ds))" for s ds
    by (auto simp: count_severity_def try_u64_def)
  have "tally (mp_stats (finish_playlist st (lr_bytes_read r))) = (lr_line_number r, n, e, n - e)"
  proof (cases "st_pending st")
    case None
    then show ?thesis using t inv by (simp add: finish_playlist_def Let_def tally_simps)
  next
    case (Some entry)
    then have "tally (bump_skipped (mp_stats (st_playlist st))) = (lr_line_number r, n, e, Suc k)"
      using tally_bumps(3) [OF t] inv by simp
    then show ?thesis using Some inv by (simp add: finish_playlist_def Let_def tally_simps)
  qed
  then have "ps_lines_read (mp_stats playlist) = lr_line_number r \<and> ps_records_seen (mp_stats playlist) = n \<and>
      ps_records_emitted (mp_stats playlist) = e \<and> ps_records_skipped (mp_stats playlist) = n - e"
    by (simp add: p tally_def)
  moreover have "ps_bytes_read (mp_stats playlist) = lr_bytes_read r \<and>
      ps_warnings (mp_stats playlist) = count_severity Warning (mp_diagnostics playlist) \<and>
      ps_errors (mp_stats playlist) = count_severity Error (mp_diagnostics playlist)"
    unfolding p by (simp add: finish_playlist_def Let_def on_stats_def)
  moreover have "mp_entries playlist = st_visitor st" by (simp add: p)
  ultimately show ?thesis using inv count by (simp add: Let_def)
qed


lemma parse_loop_none: "next_line r = Inr (None, r') \<Longrightarrow> parse_loop env visit r st = Inr (st, r')"
  by (simp add: parse_loop.simps [of env visit r])

lemma parse_loop_some:
  "next_line r = Inr (Some (n, line), r') \<Longrightarrow> process_line env (lr_limits r) visit n line st = Inr st' \<Longrightarrow>
     parse_loop env visit r st = parse_loop env visit r' st'"
  by (simp add: parse_loop.simps [of env visit r])

definition one_url :: bytes where
  "one_url = [104, 116, 116, 112, 58, 47, 47, 97]"

lemma one_url_parse:
  "\<exists>playlist. parse_m3u plain_env [Bytes one_url] limits_default = (Inr playlist :: unit ParseError + _) \<and>
     length (mp_entries playlist) = 1"
proof -
  let ?s = "[104, 116, 116, 112, 58, 47, 47, 97] :: str"
  let ?r = "reader_new [Bytes one_url] limits_default :: unit BoundedLineReader"
  have s: "str_trim (unwrap_or (strip_prefix [0xFEFF] ?s) ?s) = ?s" "starts_with (lit ''http'') ?s"
      "\<not> starts_with (lit ''#EXTM3U'') ?s" "\<not> starts_with (lit ''#EXTINF:'') ?s" "\<not> starts_with (lit ''#'') ?s"
    by (simp_all add: strip_prefix_def str_trim_none is_whitespace_def starts_with_def lit_simps)
  have one: "next_line ?r = Inr (Some (1, ?s), ?r\<lparr>lr_inner := [], lr_bytes_read := 8, lr_line_number := 1\<rparr>)"
    by (simp add: next_line_def reader_new_def next_line_loop_plain one_url_def limits_default_def
        saturating_add_u64_def trim_line_end_def Let_def)
  have none: "next_line (?r\<lparr>lr_inner := [], lr_bytes_read := 8, lr_line_number := 1\<rparr>) =
      Inr (None, ?r\<lparr>lr_inner := [], lr_bytes_read := 8, lr_line_number := 1\<rparr>)"
    by (simp add: next_line_def)
  let ?st = "\<lparr>st_playlist = playlist_default, st_pending = None, st_saw_content = False,
    st_saw_header = False, st_visitor = []\<rparr> :: (str, str, (str, str) M3uEntry list) M3uState"
  have lim: "ps_records_emitted (stats_observe s d) = ps_records_emitted s" for s d
    by (simp add: stats_observe_def split: Severity.splits)
  have "\<exists>st. process_line plain_env limits_default collect_entry 1 ?s ?st = (Inr st :: unit ParseError + _) \<and>
      length (st_visitor st) = 1"
    using s unfolding process_line_def Let_def s(1)
    by (simp add: process_content_def url_line_def collect_entry_def plain_env_def playlist_default_def
        stats_default_def on_stats_def push_diagnostic_def limits_default_def lim)
  then obtain st where st: "process_line plain_env limits_default collect_entry 1 ?s ?st = (Inr st :: unit ParseError + _)"
    "length (st_visitor st) = 1" by blast
  have "parse_loop plain_env collect_entry ?r ?st = Inr (st, ?r\<lparr>lr_inner := [], lr_bytes_read := 8, lr_line_number := 1\<rparr>)"
  proof -
    have "lr_limits ?r = limits_default" by (simp add: reader_new_def)
    then show ?thesis using parse_loop_some [OF one, of plain_env collect_entry ?st st] st(1) parse_loop_none [OF none]
      by (simp only:)
  qed
  then show ?thesis by (simp add: parse_m3u_def parse_m3u_visit_def st(2) [simplified])
qed

theorem m3u_accounting_witness:
  "\<exists>playlist. parse_m3u plain_env [Bytes one_url] limits_default = (Inr playlist :: unit ParseError + _) \<and>
     ps_records_seen (mp_stats playlist) = 1 + ps_records_skipped (mp_stats playlist) \<and>
     ps_bytes_read (mp_stats playlist) = 8"
proof -
  obtain playlist where p: "parse_m3u plain_env [Bytes one_url] limits_default = (Inr playlist :: unit ParseError + _)"
    "length (mp_entries playlist) = 1"
    using one_url_parse by blast
  have "buffers [Bytes one_url]" "length (contents [Bytes one_url]) = 8" by (simp_all add: one_url_def)
  with m3u_accounting [OF _ _ p(1)] p show ?thesis by (auto simp: Let_def)
qed

section \<open>Attributes\<close>

definition render_attribute :: "str \<times> str \<Rightarrow> str" where
  "render_attribute kv = [32] @ fst kv @ [61, 34] @ snd kv @ [34]"

definition render_attributes :: "(str \<times> str) list \<Rightarrow> str" where
  "render_attributes kvs = concat (map render_attribute kvs)"

definition plain_key :: "str \<Rightarrow> bool" where
  "plain_key k \<longleftrightarrow> k \<noteq> [] \<and> (\<forall>c \<in> set k. \<not> is_whitespace c \<and> c \<notin> {34, 39, 44, 61})"

definition plain_attributes :: "(str \<times> str) list \<Rightarrow> bool" where
  "plain_attributes kvs \<longleftrightarrow> (\<forall>(k, v) \<in> set kvs. plain_key k \<and> 34 \<notin> set v)"

definition attribute_map :: "(str \<times> str) list \<Rightarrow> (str \<Rightarrow> str option) \<Rightarrow> (str \<Rightarrow> str option)" where
  "attribute_map kvs m = foldl (\<lambda>m (k, v). m(to_ascii_lowercase k \<mapsto> v)) m kvs"

lemma render_simps [simp]:
  "render_attributes [] = []"
  "render_attributes (kv # kvs) = 32 # fst kv @ 61 # 34 # snd kv @ 34 # render_attributes kvs"
  by (simp_all add: render_attributes_def render_attribute_def)

lemma plain_attributes_Cons [simp]:
  "plain_attributes (kv # kvs) \<longleftrightarrow> plain_key (fst kv) \<and> 34 \<notin> set (snd kv) \<and> plain_attributes kvs"
  by (auto simp: plain_attributes_def)

lemma parse_attributes_pair:
  assumes "dropWhile is_ascii_whitespace s = t" and "key \<noteq> []"
    and "takeWhile (\<lambda>c. \<not> is_ascii_whitespace c \<and> c \<noteq> 61) t = key"
    and "dropWhile is_ascii_whitespace (dropWhile (\<lambda>c. \<not> is_ascii_whitespace c \<and> c \<noteq> 61) t) = 61 # u"
    and "attribute_value (dropWhile is_ascii_whitespace u) = (v, rest, False)"
  shows "parse_attributes_from env n s m ds =
    parse_attributes_from env n rest (m(to_ascii_lowercase key \<mapsto> v)) ds"
proof -
  have "t \<noteq> []" using assms(2,3) by auto
  then show ?thesis
    unfolding parse_attributes_from.simps [of env n s] assms(1,3,4) Let_def using assms(2,5) by simp
qed

lemma parse_rendered_attributes:
  assumes "plain_attributes kvs"
  shows "parse_attributes_from env n (render_attributes kvs) m ds = (attribute_map kvs m, ds)"
  using assms
proof (induction kvs arbitrary: m)
  case Nil
  show ?case by (simp add: parse_attributes_from.simps attribute_map_def)
next
  case (Cons kv kvs)
  obtain k v where kv: "kv = (k, v)" by (cases kv)
  have k: "k \<noteq> []" "\<forall>c \<in> set k. \<not> is_ascii_whitespace c \<and> c \<noteq> 61" and v: "34 \<notin> set v"
    using Cons.prems kv ascii_whitespace_is_whitespace by (auto simp: plain_key_def)
  let ?rest = "61 # 34 # v @ 34 # render_attributes kvs"
  have eq: "\<not> is_ascii_whitespace 61" "\<not> is_ascii_whitespace 34" "is_ascii_whitespace 32"
    by (simp_all add: is_ascii_whitespace_def)
  have drop1: "dropWhile is_ascii_whitespace (32 # k @ ?rest) = k @ ?rest"
    using k eq by (cases k) auto
  have key: "takeWhile (\<lambda>c. \<not> is_ascii_whitespace c \<and> c \<noteq> 61) (k @ ?rest) = k"
    "dropWhile (\<lambda>c. \<not> is_ascii_whitespace c \<and> c \<noteq> 61) (k @ ?rest) = ?rest"
    using k by (simp_all add: takeWhile_stop dropWhile_stop)
  have val: "attribute_value (34 # v @ 34 # render_attributes kvs) = (v, render_attributes kvs, False)"
  proof -
    have "takeWhile (\<lambda>c. c \<noteq> 34) (v @ 34 # render_attributes kvs) = v"
      "dropWhile (\<lambda>c. c \<noteq> 34) (v @ 34 # render_attributes kvs) = 34 # render_attributes kvs"
      using v by (intro takeWhile_stop, auto) (intro dropWhile_stop, auto)
    then show ?thesis by (simp add: attribute_value_def)
  qed
  have "parse_attributes_from env n (render_attributes (kv # kvs)) m ds =
      parse_attributes_from env n (render_attributes kvs) (m(to_ascii_lowercase k \<mapsto> v)) ds"
    unfolding kv render_simps fst_conv snd_conv
    by (rule parse_attributes_pair [OF drop1 k(1) key(1)]) (use key(2) eq val in auto)
  also have "\<dots> = (attribute_map kvs (m(to_ascii_lowercase k \<mapsto> v)), ds)"
    using Cons by simp
  finally show ?case by (simp add: attribute_map_def kv)
qed

section \<open>EXTINF lines\<close>

definition render_extinf :: "str \<Rightarrow> (str \<times> str) list \<Rightarrow> str \<Rightarrow> str" where
  "render_extinf duration kvs title =
     lit ''#EXTINF:'' @ duration @ render_attributes kvs @ [44] @ title"

lemma comma_plain:
  assumes "\<forall>c \<in> set s. c \<notin> {34, 39, 44}"
  shows "comma_from i None (s @ r) = comma_from (i + length s) None r"
  using assms by (induction s arbitrary: i) auto

lemma comma_quoted:
  assumes "34 \<notin> set v"
  shows "comma_from i (Some 34) (v @ 34 # r) = comma_from (Suc (i + length v)) None r"
  using assms by (induction v arbitrary: i) auto

lemma comma_rendered:
  assumes "plain_attributes kvs"
  shows "comma_from i None (render_attributes kvs @ r) = comma_from (i + length (render_attributes kvs)) None r"
  using assms
proof (induction kvs arbitrary: i)
  case (Cons kv kvs)
  have k: "\<forall>c \<in> set (fst kv). c \<notin> {34, 39, 44}" and v: "34 \<notin> set (snd kv)"
    using Cons.prems by (auto simp: plain_key_def)
  have "comma_from i None (render_attributes (kv # kvs) @ r) =
      comma_from (Suc i) None (fst kv @ 61 # 34 # snd kv @ 34 # render_attributes kvs @ r)"
    by simp
  also have "\<dots> = comma_from (Suc i + length (fst kv) + 2) (Some 34) (snd kv @ 34 # render_attributes kvs @ r)"
    unfolding comma_plain [OF k] by simp
  also have "\<dots> = comma_from (i + length (render_attributes (kv # kvs))) None r"
    unfolding comma_quoted [OF v] using Cons by (simp add: algebra_simps)
  finally show ?case .
qed simp

lemma render_last: "kvs \<noteq> [] \<Longrightarrow> last (render_attributes kvs) = 34"
  by (induction kvs rule: rev_induct) (simp_all add: render_attributes_def render_attribute_def)

lemma render_hd: "kvs \<noteq> [] \<Longrightarrow> \<exists>t. render_attributes kvs = 32 # t"
  by (cases kvs) simp_all

lemma render_trim:
  assumes "plain_attributes kvs"
  shows "\<exists>w. render_attributes kvs = w @ str_trim (render_attributes kvs) \<and> (\<forall>c \<in> set w. c = 32)"
proof (cases kvs)
  case (Cons kv rest)
  have k: "fst kv \<noteq> []" "\<not> is_whitespace (hd (fst kv))"
    using assms Cons by (auto simp: plain_key_def)
  let ?t = "fst kv @ 61 # 34 # snd kv @ 34 # render_attributes rest"
  have r: "render_attributes kvs = 32 # ?t" using Cons by simp
  have t: "?t \<noteq> []" "\<not> is_whitespace (hd ?t)" "\<not> is_whitespace (last ?t)"
    using k render_last [of kvs] r Cons by (auto simp: is_whitespace_def)
  have "dropWhile is_whitespace (32 # ?t) = ?t"
    using t by (cases ?t) (auto simp: is_whitespace_def)
  moreover have "trim_end_by is_whitespace ?t = ?t"
    using str_trim_id [of ?t] t calculation unfolding str_trim_def trim_start_by_def
    by (cases ?t) (simp_all add: is_whitespace_def)
  ultimately have "str_trim (render_attributes kvs) = ?t" unfolding r str_trim_def trim_start_by_def by simp
  then show ?thesis using r by (intro exI [of _ "[32]"]) simp
qed (simp add: str_trim_none)

lemma parse_attributes_skip:
  assumes "\<forall>c \<in> set w. c = 32"
  shows "parse_attributes_from env n (w @ s) m ds = parse_attributes_from env n s m ds"
proof -
  have "dropWhile is_ascii_whitespace (w @ s) = dropWhile is_ascii_whitespace s"
    using assms by (intro dropWhile_append2) (auto simp: is_ascii_whitespace_def)
  then show ?thesis
    unfolding parse_attributes_from.simps [of env n "w @ s"] parse_attributes_from.simps [of env n s]
    by (simp only:)
qed

lemma extinf_metadata:
  assumes "plain_attributes kvs" and "duration \<noteq> []"
    and "\<forall>c \<in> set duration. \<not> is_whitespace c \<and> c \<notin> {34, 39, 44}"
  defines "m \<equiv> duration @ render_attributes kvs"
  shows "comma_outside_quotes (m @ 44 # title) = Some (length m)" and "str_trim m = m"
    and "takeWhile (\<lambda>c. \<not> is_whitespace c) m = duration"
    and "dropWhile (\<lambda>c. \<not> is_whitespace c) m = render_attributes kvs"
proof -
  have plain: "\<forall>c \<in> set duration. c \<notin> {34, 39, 44}" using assms(3) by blast
  show "comma_outside_quotes (m @ 44 # title) = Some (length m)"
    unfolding m_def comma_outside_quotes_def append_assoc comma_plain [OF plain] comma_rendered [OF assms(1)]
    by simp
  have lst: "\<not> is_whitespace (last m)"
  proof (cases "kvs = []")
    case True
    then show ?thesis using assms(2,3) by (simp add: m_def)
  next
    case False
    then have "last m = 34" using render_last [OF False] render_hd [OF False] by (auto simp: m_def)
    then show ?thesis by (simp add: is_whitespace_def)
  qed
  then show "str_trim m = m" using assms(2,3) by (intro str_trim_id) (auto simp: m_def)
  have "takeWhile (\<lambda>c. \<not> is_whitespace c) m = duration \<and>
      dropWhile (\<lambda>c. \<not> is_whitespace c) m = render_attributes kvs"
  proof (cases "kvs = []")
    case True
    then show ?thesis using assms(3) by (simp add: m_def takeWhile_eq_all_conv)
  next
    case False
    then obtain t where "render_attributes kvs = 32 # t" using render_hd by blast
    with assms(3) show ?thesis
      by (simp add: m_def takeWhile_stop dropWhile_stop is_whitespace_def)
  qed
  then show "takeWhile (\<lambda>c. \<not> is_whitespace c) m = duration"
    "dropWhile (\<lambda>c. \<not> is_whitespace c) m = render_attributes kvs" by auto
qed

lemma parse_trimmed_attributes:
  assumes "plain_attributes kvs"
  shows "parse_attributes env (str_trim (render_attributes kvs)) ds n = (attribute_map kvs (\<lambda>_. None), ds)"
proof -
  obtain w where w: "render_attributes kvs = w @ str_trim (render_attributes kvs)" "\<forall>c \<in> set w. c = 32"
    using render_trim [OF assms] by blast
  have "parse_attributes env (str_trim (render_attributes kvs)) ds n =
      parse_attributes_from env n (w @ str_trim (render_attributes kvs)) (\<lambda>_. None) ds"
    unfolding parse_attributes_def by (rule parse_attributes_skip [OF w(2), symmetric])
  also have "\<dots> = parse_attributes_from env n (render_attributes kvs) (\<lambda>_. None) ds"
    by (simp only: w(1) [symmetric])
  finally show ?thesis by (simp only: parse_rendered_attributes [OF assms])
qed

text \<open>C40: printing and parsing an \<open>EXTINF\<close> line.  A line with a duration, attributes in double
  quotes and a title parses to exactly these, without a diagnostic: values may contain commas,
  equals signs, single quotes and white space, and the title may contain anything that survives
  trimming.\<close>

theorem extinf_roundtrip:
  assumes "plain_attributes kvs"
    and "duration \<noteq> []" and "\<forall>c \<in> set duration. \<not> is_whitespace c \<and> c \<notin> {34, 39, 44}"
    and "f64_parse env duration = Some v" and "f64_is_finite env v" and "str_trim title = title"
  shows "parse_extinf env (render_extinf duration kvs title) n ds stats =
    (\<lparr>pe_duration_seconds = Some v, pe_title = title, pe_attributes = attribute_map kvs (\<lambda>_. None),
      pe_directives = [], pe_raw_extinf = render_extinf duration kvs title, pe_line = n\<rparr>, ds, stats)"
proof -
  have body: "unwrap_or (strip_prefix (lit ''#EXTINF:'') (render_extinf duration kvs title)) [] =
      (duration @ render_attributes kvs) @ 44 # title"
    by (simp add: strip_prefix_def render_extinf_def)
  note meta = extinf_metadata [OF assms(1-3)]
  show ?thesis
    unfolding parse_extinf_def body Let_def meta(1)
    using assms(2,4-6) by (simp add: meta(2-4) parse_trimmed_attributes [OF assms(1)])
qed

theorem extinf_roundtrip_witness:
  "parse_extinf plain_env (render_extinf (lit ''-1'') [(lit ''tvg-id'', lit ''a,b=c'')] (lit ''News, HD'')) 7 [] stats_default =
    (\<lparr>pe_duration_seconds = Some (lit ''-1''), pe_title = lit ''News, HD'',
      pe_attributes = [lit ''tvg-id'' \<mapsto> lit ''a,b=c''], pe_directives = [],
      pe_raw_extinf = render_extinf (lit ''-1'') [(lit ''tvg-id'', lit ''a,b=c'')] (lit ''News, HD''),
      pe_line = 7\<rparr>, [], stats_default)"
proof -
  have "str_trim (lit ''News, HD'') = lit ''News, HD''"
    by (intro str_trim_id) (simp_all add: lit_simps is_whitespace_def)
  moreover have "plain_attributes [(lit ''tvg-id'', lit ''a,b=c'')]"
    by (simp add: plain_attributes_def plain_key_def lit_simps is_whitespace_def)
  moreover have "to_ascii_lowercase (lit ''tvg-id'') = lit ''tvg-id''"
    by (simp add: to_ascii_lowercase_def ascii_lower_def lit_simps)
  ultimately show ?thesis
    by (subst extinf_roundtrip [where v = "lit ''-1''"])
      (simp_all add: attribute_map_def plain_env_def lit_simps is_whitespace_def)
qed

text \<open>A word without an equals sign takes the next attribute with it.  The diagnostic says that
  the word was ignored; the attribute after it is lost as well, without a diagnostic.\<close>

theorem valueless_attribute_hides_the_next:
  "parse_attributes plain_env (lit ''radio tvg-id=news group-title=x'') [] 1 =
     ([lit ''group-title'' \<mapsto> lit ''x''],
      [dg_warning InvalidAttribute (Some 1) None
        (lit ''attribute '' @ [34] @ lit ''radio'' @ [34] @ lit '' has no '' @ [39, 61, 39] @ lit '' and was ignored'')])"
  unfolding parse_attributes_def
  by (simp add: parse_attributes_from.simps lit_simps is_ascii_whitespace_def attribute_value_def
      plain_env_def to_ascii_lowercase_def ascii_lower_def Let_def)


end
