(* ===== verification/Events.thy ===== *)
theory Events
  imports Unicode
begin

text \<open>
  Event rules of the domain (\<open>crates/domain/src/events.rs\<close>): the data of a rule, its defaults and
  the built-in sports rules.  A rule identifier is the number of its UUID.  An ordered string map is an
  association list with distinct keys where the code walks it, and a partial function where it only
  looks keys up.
\<close>

section \<open>Data\<close>

datatype EventIdentityPolicy = ChannelUuid | SourceTvgId

record EventMatch =
  ma_name_regex :: "str option"
  ma_group_regex :: "str option"
  ma_epg_title_regex :: "str option"
  ma_categories_any :: "str list"
  ma_metadata :: "(str \<times> str) list"

definition EventMatch_default :: EventMatch where
  "EventMatch_default = \<lparr>ma_name_regex = None, ma_group_regex = None, ma_epg_title_regex = None,
     ma_categories_any = [], ma_metadata = []\<rparr>"

record DatePattern =
  dp_regex :: str
  dp_format :: str
  dp_timezone :: "str option"

record EventLifecyclePolicy =
  lc_pre_roll_seconds :: u64
  lc_post_roll_seconds :: u64
  lc_archive_after_seconds :: u64

definition default_archive_seconds :: u64 where
  "default_archive_seconds = 86400"

definition EventLifecyclePolicy_default :: EventLifecyclePolicy where
  "EventLifecyclePolicy_default = \<lparr>lc_pre_roll_seconds = 0, lc_post_roll_seconds = 0,
     lc_archive_after_seconds = default_archive_seconds\<rparr>"

record EventGuidePolicy =
  gd_duration_seconds :: u64
  gd_filler_title :: str
  gd_title_template :: str

definition default_duration_seconds :: u64 where
  "default_duration_seconds = 10800"

definition default_filler_title :: str where
  "default_filler_title = lit ''No programs available''"

definition default_title_template :: str where
  "default_title_template = lit ''{source}''"

definition EventGuidePolicy_default :: EventGuidePolicy where
  "EventGuidePolicy_default = \<lparr>gd_duration_seconds = default_duration_seconds,
     gd_filler_title = default_filler_title, gd_title_template = default_title_template\<rparr>"

record EventChannelTemplate =
  ct_group :: str
  ct_name :: str
  ct_number_start :: "nat option"
  ct_identity :: EventIdentityPolicy

definition default_event_group :: str where
  "default_event_group = lit ''Sports''"

definition default_name_template :: str where
  "default_name_template = lit ''{title}''"

definition EventChannelTemplate_default :: EventChannelTemplate where
  "EventChannelTemplate_default = \<lparr>ct_group = default_event_group, ct_name = default_name_template,
     ct_number_start = None, ct_identity = ChannelUuid\<rparr>"

definition default_timezone :: str where
  "default_timezone = lit ''UTC''"

record EventRule =
  er_id :: nat
  er_name :: str
  er_enabled :: bool
  er_matcher :: EventMatch
  er_date_patterns :: "DatePattern list"
  er_timezone :: str
  er_lifecycle :: EventLifecyclePolicy
  er_guide :: EventGuidePolicy
  er_channel :: EventChannelTemplate
  er_metadata :: "str \<Rightarrow> str option"

type_synonym EventRuleSet = "EventRule list"

definition EVENT_TITLE_METADATA_KEY :: str where
  "EVENT_TITLE_METADATA_KEY = lit ''event_title''"

section \<open>Built-in rules\<close>

text \<open>A regular expression of the source, with a tilde for each backslash (none has a tilde).\<close>

definition re :: "string \<Rightarrow> str" where
  "re s = map (\<lambda>c. if c = 126 then 92 else c) (lit s)"

definition RE_PREFIX :: str where
  "RE_PREFIX = re ''(?:~[[^~]]{1,32}~]~s*|(?:event|vip|sports|slot)~s*~d*~s*[:|]~s*|(?:[A-Z]{2}~s+)?~([^()]{1,32}~)~s*:~s*)*''"

definition LEAGUE_NAMES :: str where
  "LEAGUE_NAMES = re ''NCAA(?:~s+(?:Football|Basketball|Hockey|Baseball|Soccer))?|WNBA|NFL|NHL|NBA|MLB|MLS|CFL|EPL|UFC|hockey|fc|soccer|football|basketball|baseball|rugby|cricket|tennis|golf''"

definition RE_LEAGUE :: str where
  "RE_LEAGUE = re ''(?:(?P<league>NCAA(?:~s+(?:Football|Basketball|Hockey|Baseball|Soccer))?|WNBA|NFL|NHL|NBA|MLB|MLS|CFL|EPL|UFC|hockey|fc|soccer|football|basketball|baseball|rugby|cricket|tennis|golf)~b(?:~s*:~s*(?:(?P<slot>[0-9]{1,3})~b~s*(?:[-~u{2013}]~s*)?)?|~s+(?P<slot_b>[0-9]{1,3})~s*:~s*))?''"

definition RE_SUFFIX :: str where
  "RE_SUFFIX = re ''(?:~s+[A-Za-z]{3,9}~s+[0-9]{1,2}~s+[0-9]{1,2}(?::[0-9]{2})?~s*[AP]M(?:~s+[A-Z]{2,4})?)?(?:~s+~([^()]{1,64}~))*''"

definition RE_TRAILER :: str where
  "RE_TRAILER = re ''(?:~s*[-|]?~s*(?:~[[^~]]{1,32}~]|~([^()]{1,64}~)|UHD|4K|FHD|HD|SD|2160p|1080p|720p))*~s*$''"

definition RE_TIME :: str where
  "RE_TIME = re ''[0-9]{1,2}(?::[0-9]{2})?~s*[ap]m''"

definition RE_EXPLICIT :: str where
  "RE_EXPLICIT = re ''20[0-9]{2}-[0-9]{2}-[0-9]{2} [0-9]{2}:[0-9]{2}:[0-9]{2}''"

text \<open>The label, date pattern, trailing seconds and chrono format of the three dated forms.\<close>

definition builtin_formats :: "(str \<times> str \<times> str \<times> str) list" where
  "builtin_formats =
     [(lit ''ISO local time'', re ''20[0-9]{2}-[0-9]{2}-[0-9]{2} [0-9]{2}:[0-9]{2}'',
       re ''(?::[0-9]{2})?'', lit ''%Y-%m-%d %H:%M''),
      (lit ''ISO T local time'', re ''20[0-9]{2}-[0-9]{2}-[0-9]{2}T[0-9]{2}:[0-9]{2}'',
       re ''(?::[0-9]{2})?'', lit ''%Y-%m-%dT%H:%M''),
      (lit ''US local time'', re ''[0-9]{1,2}/[0-9]{1,2}/20[0-9]{2} [0-9]{1,2}:[0-9]{2} [AP]M'',
       [], lit ''%m/%d/%Y %I:%M %p'')]"

definition builtin_sports_rule ::
    "nat \<Rightarrow> str \<Rightarrow> str \<Rightarrow> (str \<times> str) option \<Rightarrow> str \<Rightarrow> EventRule" where
  "builtin_sports_rule index name name_regex date title_template =
     \<lparr>er_id = 0x8b2d571e91de70008000000000000000 + index,
      er_name = name,
      er_enabled = True,
      er_matcher = EventMatch_default\<lparr>ma_name_regex := Some name_regex\<rparr>,
      er_date_patterns = (case date of
          None \<Rightarrow> []
        | Some (date_regex, date_format) \<Rightarrow>
            [\<lparr>dp_regex = re ''(?i)(?P<datetime>'' @ date_regex @ re '')'', dp_format = date_format,
              dp_timezone = None\<rparr>]),
      er_timezone = default_timezone,
      er_lifecycle = EventLifecyclePolicy_default,
      er_guide = EventGuidePolicy_default\<lparr>gd_title_template := title_template\<rparr>,
      er_channel = EventChannelTemplate_default,
      er_metadata = [EVENT_TITLE_METADATA_KEY \<mapsto> title_template]\<rparr>"

definition dated_rules :: "nat \<times> str \<times> str \<times> str \<times> str \<Rightarrow> EventRule list" where
  "dated_rules = (\<lambda>(format_index, label, date_regex, seconds, date_format).
     [builtin_sports_rule (format_index * 2) (lit ''Built-in sports: vs ('' @ label @ lit '')'')
        (re ''(?i)^'' @ RE_PREFIX @ RE_LEAGUE @ re ''(?P<home>.+?)~s+(?:v|vs|versus)~.?~s+(?P<away>.+?)''
           @ RE_SUFFIX @ re ''~s+~(?(?:'' @ date_regex @ re '')'' @ seconds @ re ''~)?'' @ RE_TRAILER)
        (Some (date_regex, date_format)) (lit ''{home} vs {away}''),
      builtin_sports_rule (format_index * 2 + 1) (lit ''Built-in sports: at ('' @ label @ lit '')'')
        (re ''(?i)^'' @ RE_PREFIX @ RE_LEAGUE @ re ''(?P<away>.+?)~s+@~s+(?P<home>.+?)''
           @ RE_SUFFIX @ re ''~s+~(?(?:'' @ date_regex @ re '')'' @ seconds @ re ''~)?'' @ RE_TRAILER)
        (Some (date_regex, date_format)) (lit ''{away} @ {home}'')])"

definition time_only_rules :: "EventRule list" where
  "time_only_rules =
     [builtin_sports_rule 6 (lit ''Built-in sports: vs (time only)'')
        (re ''(?i)^'' @ RE_PREFIX @ RE_LEAGUE @ re ''(?P<time>'' @ RE_TIME
           @ re '')~s+(?P<home>.+?)~s+(?:v|vs|versus)~.?~s+(?P<away>.+?)'' @ RE_SUFFIX @ RE_TRAILER)
        None (lit ''{home} vs {away}''),
      builtin_sports_rule 7 (lit ''Built-in sports: at (time only)'')
        (re ''(?i)^'' @ RE_PREFIX @ RE_LEAGUE @ re ''(?P<time>'' @ RE_TIME
           @ re '')~s+(?P<away>.+?)~s+@~s+(?P<home>.+?)'' @ RE_SUFFIX @ RE_TRAILER)
        None (lit ''{away} @ {home}'')]"

definition spelled_date_rule :: EventRule where
  "spelled_date_rule =
     builtin_sports_rule 8 (lit ''Built-in sports: vs, spelled date, trailing league'')
       (re ''(?i)^'' @ RE_PREFIX @ re ''(?P<team_a>.+?)~s+(?:v|vs|versus)~.?~s+(?P<team_b>.+?)~s+@~s+(?P<month>[A-Za-z]{3,9})~.?~s+(?P<day>[0-9]{1,2})~s+(?P<time>''
          @ RE_TIME @ re '')(?:~s+[A-Z]{2,4})?~s*:~s*(?P<league>'' @ LEAGUE_NAMES
          @ re '')~b(?:~s*[-~u{2013}]?~s*(?P<slot>[0-9]{1,3})~b)?'' @ RE_TRAILER)
       None (lit ''{team_a} vs {team_b}'')"

definition explicit_rule :: EventRule where
  "explicit_rule =
     (builtin_sports_rule 9 (lit ''Built-in sports: x, explicit start and stop'')
        (re ''(?i)^'' @ RE_PREFIX @ RE_LEAGUE
           @ re ''(?P<team_a>.+?)~s+(?:x|v|vs|versus)~.?~s+(?P<team_b>.+?)~s+start:~s*'' @ RE_EXPLICIT
           @ re ''~s+stop:~s*(?P<stop>'' @ RE_EXPLICIT @ re '')'' @ RE_TRAILER)
        None (lit ''{team_a} vs {team_b}''))
       \<lparr>er_date_patterns := [\<lparr>dp_regex = re ''(?i)start:~s*(?P<datetime>'' @ RE_EXPLICIT @ re '')'',
          dp_format = lit ''%Y-%m-%d %H:%M:%S'', dp_timezone = None\<rparr>]\<rparr>"

definition builtin_sports_event_rules :: EventRuleSet where
  "builtin_sports_event_rules =
     concat (map dated_rules (enumerate 0 builtin_formats)) @ time_only_rules
       @ [spelled_date_rule, explicit_rule]"

end
