(* ===== verification/Guide.thy ===== *)
theory Guide
  imports Events "HOL-Library.Product_Lexorder" "HOL-Library.List_Lexorder" "HOL-Library.Multiset"
begin

text \<open>
  Generated guides for dynamic events (the second half of \<open>crates/parsers/src/events.rs\<close>): the
  duration of an event, the title template, the stable key and the two schedule builders.

  Instants are those of the crate \<open>chrono\<close>: an arbitrary linear order, with the operations that the
  code calls as the fields of \<open>GuideEnv\<close>.  \<open>ge_seconds\<close> is \<open>Duration::seconds\<close>, which is
  \<open>None\<close> where it panics.  \<open>ge_to_lowercase\<close> is the Unicode mapping of \<open>str::to_lowercase\<close>.
\<close>

section \<open>Data\<close>

record ('t, 'd) GuideEnv =
  ge_seconds :: "int \<Rightarrow> 'd option"
  ge_checked_add :: "'t \<Rightarrow> 'd \<Rightarrow> 't option"
  ge_checked_sub :: "'t \<Rightarrow> 'd \<Rightarrow> 't option"
  ge_rfc3339 :: "'t \<Rightarrow> str"
  ge_to_lowercase :: "str \<Rightarrow> str"

record 't MatchedEvent =
  mt_rule :: EventRule
  mt_starts_at :: "'t option"
  mt_captures :: "str \<Rightarrow> str option"

datatype GeneratedProgrammeKind = Event | Filler

record 't GeneratedProgramme =
  gp_starts_at :: 't
  gp_stops_at :: 't
  gp_title :: str
  gp_kind :: GeneratedProgrammeKind
  gp_stable_event_key :: "str option"
  gp_source_title :: str

text \<open>The errors of the source, and the panic of \<open>Duration::seconds\<close>.\<close>

datatype EventGuideError =
    MissingStart
  | InvalidWindow
  | InvalidDuration
  | InvalidCapturedDuration str
  | UnknownTemplateField str
  | DateOverflow
  | GuidePanic

section \<open>Durations\<close>

definition parse_u64 :: "str \<Rightarrow> nat option" where
  "parse_u64 s = parse_unsigned u64_bound s"

definition parse_seconds :: "str \<Rightarrow> EventGuideError + u64" where
  "parse_seconds v =
     (case parse_u64 (str_trim v) of
        Some seconds \<Rightarrow> if seconds > 0 then Inr seconds else Inl (InvalidCapturedDuration v)
      | None \<Rightarrow> Inl (InvalidCapturedDuration v))"

text \<open>\<open>value.trim().to_ascii_lowercase().replace(' ', "")\<close>\<close>

definition squeeze :: "str \<Rightarrow> str" where
  "squeeze v = filter (\<lambda>c. c \<noteq> 32) (to_ascii_lowercase (str_trim v))"

definition hours_minutes :: "str \<Rightarrow> str \<Rightarrow> u64 option" where
  "hours_minutes hours minutes =
     (case (parse_u64 hours, parse_u64 minutes) of
        (Some h, Some m) \<Rightarrow>
          if m \<ge> 60 then None
          else case checked_mul_u64 h 3600 of
              None \<Rightarrow> None
            | Some seconds \<Rightarrow>
                (case checked_mul_u64 m 60 of
                   None \<Rightarrow> None
                 | Some extra \<Rightarrow>
                     (case checked_add_u64 seconds extra of
                        None \<Rightarrow> None
                      | Some seconds \<Rightarrow> if seconds > 0 then Some seconds else None))
      | _ \<Rightarrow> None)"

definition unit_multiplier :: "str \<Rightarrow> u64 option" where
  "unit_multiplier unit =
     (if unit \<in> set (map lit [''s'', ''sec'', ''secs'', ''second'', ''seconds'']) then Some 1
      else if unit \<in> set (map lit [''m'', ''min'', ''mins'', ''minute'', ''minutes'']) then Some 60
      else if unit \<in> set (map lit [''h'', ''hr'', ''hrs'', ''hour'', ''hours'']) then Some 3600
      else None)"

definition amount_unit :: "str \<Rightarrow> u64 option" where
  "amount_unit normalized =
     (if digits normalized then None
      else case (parse_u64 (takeWhile is_ascii_digit normalized),
                 unit_multiplier (dropWhile is_ascii_digit normalized)) of
          (Some amount, Some multiplier) \<Rightarrow>
            (case checked_mul_u64 amount multiplier of
               None \<Rightarrow> None
             | Some seconds \<Rightarrow> if seconds > 0 then Some seconds else None)
        | _ \<Rightarrow> None)"

definition parse_duration :: "str \<Rightarrow> EventGuideError + u64" where
  "parse_duration v =
     (let normalized = squeeze v;
          seconds = (case split_once 58 normalized of
              Some (hours, minutes) \<Rightarrow> hours_minutes hours minutes
            | None \<Rightarrow> amount_unit normalized)
      in case seconds of None \<Rightarrow> Inl (InvalidCapturedDuration v) | Some s \<Rightarrow> Inr s)"

definition event_duration_seconds :: "'t MatchedEvent \<Rightarrow> EventGuideError + u64" where
  "event_duration_seconds matched =
     (let duration = (case mt_captures matched (lit ''duration_seconds'') of
            Some v \<Rightarrow> parse_seconds v
          | None \<Rightarrow> (case mt_captures matched (lit ''duration'') of
                Some v \<Rightarrow> parse_duration v
              | None \<Rightarrow> Inr (gd_duration_seconds (er_guide (mt_rule matched)))))
      in case duration of
           Inl e \<Rightarrow> Inl e
         | Inr seconds \<Rightarrow> if seconds = 0 then Inl InvalidDuration else Inr seconds)"

definition signed_seconds :: "('t, 'd) GuideEnv \<Rightarrow> u64 \<Rightarrow> EventGuideError + 'd" where
  "signed_seconds env seconds =
     (if seconds \<ge> 2 ^ 63 then Inl DateOverflow
      else case ge_seconds env (int seconds) of None \<Rightarrow> Inl GuidePanic | Some d \<Rightarrow> Inr d)"

section \<open>Titles\<close>

definition template_value ::
    "str \<Rightarrow> (str \<Rightarrow> str option) \<Rightarrow> str option \<Rightarrow> str \<Rightarrow> EventGuideError + str" where
  "template_value source_title captures event field =
     (if field = lit ''source'' \<or> field = lit ''title'' then Inr source_title
      else if field = lit ''event'' then Inr (case event of Some e \<Rightarrow> e | None \<Rightarrow> [])
      else case captures field of Some v \<Rightarrow> Inr v | None \<Rightarrow> Inl (UnknownTemplateField field))"

lemma split_once_length:
  assumes "split_once c s = Some (a, b)"
  shows "length b < length s"
proof -
  have "s \<noteq> []" "length b = length (dropWhile (\<lambda>x. x \<noteq> c) s) - 1"
    using assms by (auto simp: split_once_def split: if_splits)
  moreover have "length (dropWhile (\<lambda>x. x \<noteq> c) s) \<le> length s" by (rule length_dropWhile_le)
  moreover have "0 < length s" using \<open>s \<noteq> []\<close> by simp
  ultimately show ?thesis by linarith
qed

text \<open>The \<open>while let\<close> loop of \<open>render_template\<close>, with the text rendered so far.\<close>

function render_from ::
    "str \<Rightarrow> (str \<Rightarrow> str option) \<Rightarrow> str option \<Rightarrow> str \<Rightarrow> str \<Rightarrow> EventGuideError + str" where
  "render_from source_title captures event rendered remaining =
     (case split_once 123 remaining of
        None \<Rightarrow> Inr (rendered @ remaining)
      | Some (before, after_open) \<Rightarrow>
          (case split_once 125 after_open of
             None \<Rightarrow> Inl (UnknownTemplateField after_open)
           | Some (field, rest) \<Rightarrow>
               (case template_value source_title captures event field of
                  Inl e \<Rightarrow> Inl e
                | Inr v \<Rightarrow> render_from source_title captures event (rendered @ before @ v) rest)))"
  by pat_completeness auto
termination
  by (relation "measure (\<lambda>(_, _, _, _, remaining). length remaining)")
    (auto dest!: split_once_length)

declare render_from.simps [simp del]

definition render_template ::
    "str \<Rightarrow> str \<Rightarrow> (str \<Rightarrow> str option) \<Rightarrow> str option \<Rightarrow> EventGuideError + str" where
  "render_template template source_title captures event =
     render_from source_title captures event [] template"

definition render_event_title ::
    "str \<Rightarrow> str \<Rightarrow> (str \<Rightarrow> str option) \<Rightarrow> str \<Rightarrow> EventGuideError + str" where
  "render_event_title template source_title captures default_title =
     (case render_template template source_title captures None of
        Inl e \<Rightarrow> Inl e
      | Inr rendered \<Rightarrow>
          if str_has (lit ''{event}'') template then
            (case render_template default_title source_title captures None of
               Inl e \<Rightarrow> Inl e
             | Inr event \<Rightarrow> render_template template source_title captures (Some event))
          else Inr rendered)"

definition default_event_title :: "'t MatchedEvent \<Rightarrow> str" where
  "default_event_title matched =
     (let fallback = (if mt_captures matched (lit ''home'') \<noteq> None \<and> mt_captures matched (lit ''away'') \<noteq> None
            then lit ''{away} @ {home}'' else lit ''{source}'')
      in case er_metadata (mt_rule matched) EVENT_TITLE_METADATA_KEY of
           Some v \<Rightarrow> if \<not> str_has (lit ''{event}'') v then v else fallback
         | None \<Rightarrow> fallback)"

definition render_matched_event_title ::
    "'t MatchedEvent \<Rightarrow> str \<Rightarrow> str \<Rightarrow> EventGuideError + str" where
  "render_matched_event_title matched source_title template =
     render_event_title template source_title (mt_captures matched) (default_event_title matched)"

section \<open>Keys\<close>

definition normalize_identity :: "('t, 'd) GuideEnv \<Rightarrow> str \<Rightarrow> str" where
  "normalize_identity env v = str_join [32] (map (ge_to_lowercase env) (split_whitespace v))"

definition IDENTITY_FIELDS :: "str list" where
  "IDENTITY_FIELDS = map lit [''league'', ''home'', ''away'', ''team_a'', ''team_b'', ''event'']"

definition stable_event_key :: "('t, 'd) GuideEnv \<Rightarrow> 't MatchedEvent \<Rightarrow> str \<Rightarrow> 't \<Rightarrow> str" where
  "stable_event_key env matched source_title starts_at =
     (let identity = str_join [124] (filter (\<lambda>v. v \<noteq> []) (map (normalize_identity env)
            (List.map_filter (mt_captures matched) IDENTITY_FIELDS)));
          identity = (if identity = [] then normalize_identity env source_title else identity)
      in identity @ [124] @ ge_rfc3339 env starts_at)"

section \<open>Programmes\<close>

definition filler :: "'t \<Rightarrow> 't \<Rightarrow> str \<Rightarrow> str \<Rightarrow> 't GeneratedProgramme" where
  "filler starts_at stops_at title source_title =
     \<lparr>gp_starts_at = starts_at, gp_stops_at = stops_at, gp_title = title, gp_kind = Filler,
      gp_stable_event_key = None, gp_source_title = source_title\<rparr>"

definition build_event_programme ::
    "('t, 'd) GuideEnv \<Rightarrow> 't MatchedEvent \<Rightarrow> str \<Rightarrow> EventGuideError + 't GeneratedProgramme" where
  "build_event_programme env matched source_title =
     (case mt_starts_at matched of
        None \<Rightarrow> Inl MissingStart
      | Some starts_at \<Rightarrow>
     (case signed_seconds env (lc_pre_roll_seconds (er_lifecycle (mt_rule matched))) of
        Inl e \<Rightarrow> Inl e
      | Inr pre_roll \<Rightarrow>
     (case event_duration_seconds matched of
        Inl e \<Rightarrow> Inl e
      | Inr seconds \<Rightarrow>
     (case signed_seconds env seconds of
        Inl e \<Rightarrow> Inl e
      | Inr duration \<Rightarrow>
     (case signed_seconds env (lc_post_roll_seconds (er_lifecycle (mt_rule matched))) of
        Inl e \<Rightarrow> Inl e
      | Inr post_roll \<Rightarrow>
     (case ge_checked_sub env starts_at pre_roll of
        None \<Rightarrow> Inl DateOverflow
      | Some event_start \<Rightarrow>
     (case Option.bind (ge_checked_add env starts_at duration) (\<lambda>v. ge_checked_add env v post_roll) of
        None \<Rightarrow> Inl DateOverflow
      | Some event_end \<Rightarrow>
     (case render_matched_event_title matched source_title (gd_title_template (er_guide (mt_rule matched))) of
        Inl e \<Rightarrow> Inl e
      | Inr title \<Rightarrow>
          Inr \<lparr>gp_starts_at = event_start, gp_stops_at = event_end, gp_title = title, gp_kind = Event,
               gp_stable_event_key = Some (stable_event_key env matched source_title starts_at),
               gp_source_title = source_title\<rparr>))))))))"

section \<open>Guides\<close>

definition generate_event_guide ::
    "('t :: linorder, 'd) GuideEnv \<Rightarrow> 't MatchedEvent \<Rightarrow> str \<Rightarrow> 't \<Rightarrow> 't \<Rightarrow>
     EventGuideError + 't GeneratedProgramme list" where
  "generate_event_guide env matched source_title window_start window_end =
     (if window_end \<le> window_start then Inl InvalidWindow
      else case build_event_programme env matched source_title of
          Inl e \<Rightarrow> Inl e
        | Inr event \<Rightarrow>
            let filler_title = gd_filler_title (er_guide (mt_rule matched)) in
            if gp_stops_at event \<le> window_start \<or> gp_starts_at event \<ge> window_end then
              Inr [filler window_start window_end filler_title source_title]
            else
              let clipped_start = max (gp_starts_at event) window_start;
                  clipped_end = min (gp_stops_at event) window_end;
                  filler_start = max clipped_end window_start
              in Inr ((if clipped_start > window_start
                       then [filler window_start clipped_start filler_title source_title] else [])
                    @ (if clipped_end > clipped_start
                       then [event\<lparr>gp_starts_at := clipped_start, gp_stops_at := clipped_end\<rparr>] else [])
                    @ (if filler_start < window_end
                       then [filler filler_start window_end filler_title source_title] else [])))"

definition event_order :: "'t GeneratedProgramme \<Rightarrow> 't \<times> 't \<times> str \<times> str" where
  "event_order p = (gp_starts_at p, gp_stops_at p, unwrap_or (gp_stable_event_key p) [], gp_source_title p)"

fun build_events ::
    "('t, 'd) GuideEnv \<Rightarrow> ('t MatchedEvent \<times> str) list \<Rightarrow> EventGuideError + 't GeneratedProgramme list" where
  "build_events env [] = Inr []"
| "build_events env ((matched, source_title) # inputs) =
     (case build_event_programme env matched source_title of
        Inl e \<Rightarrow> Inl e
      | Inr event \<Rightarrow> map_sum (\<lambda>e. e) (\<lambda>events. event # events) (build_events env inputs))"

text \<open>The loop over the sorted events, with the schedule so far and the cursor.\<close>

fun place_events ::
    "'t \<Rightarrow> 't \<Rightarrow> str \<Rightarrow> 't :: linorder GeneratedProgramme list \<Rightarrow> 't \<times> 't GeneratedProgramme list \<Rightarrow>
     't \<times> 't GeneratedProgramme list" where
  "place_events window_start window_end filler_title [] s = s"
| "place_events window_start window_end filler_title (event # events) (cursor, schedule) =
     (if gp_stops_at event \<le> cursor \<or> gp_stops_at event \<le> window_start \<or> gp_starts_at event \<ge> window_end
      then place_events window_start window_end filler_title events (cursor, schedule)
      else let starts_at = max (gp_starts_at event) window_start in
        if starts_at < cursor then place_events window_start window_end filler_title events (cursor, schedule)
        else
          let schedule = (if starts_at > cursor
                then schedule @ [filler cursor starts_at filler_title []] else schedule);
              event = event\<lparr>gp_starts_at := starts_at, gp_stops_at := min (gp_stops_at event) window_end\<rparr>
          in place_events window_start window_end filler_title events
               (gp_stops_at event, schedule @ [event]))"

definition generate_event_schedule ::
    "('t :: linorder, 'd) GuideEnv \<Rightarrow> ('t MatchedEvent \<times> str) list \<Rightarrow> 't \<Rightarrow> 't \<Rightarrow> str \<Rightarrow>
     EventGuideError + 't GeneratedProgramme list" where
  "generate_event_schedule env inputs window_start window_end filler_title =
     (if window_end \<le> window_start then Inl InvalidWindow
      else case build_events env inputs of
          Inl e \<Rightarrow> Inl e
        | Inr events \<Rightarrow>
            let (cursor, schedule) =
                  place_events window_start window_end filler_title (sort_key event_order events) (window_start, [])
            in Inr (if cursor < window_end
                    then schedule @ [filler cursor window_end filler_title []] else schedule))"

section \<open>Intervals\<close>

text \<open>The programmes follow each other without a gap from \<open>a\<close> to \<open>b\<close>, and none is empty.\<close>

fun tiles :: "'t :: linorder \<Rightarrow> 't \<Rightarrow> 't GeneratedProgramme list \<Rightarrow> bool" where
  "tiles a b [] \<longleftrightarrow> a = b"
| "tiles a b (p # ps) \<longleftrightarrow> gp_starts_at p = a \<and> a < gp_stops_at p \<and> tiles (gp_stops_at p) b ps"

lemma tiles_append: "tiles a c (ps @ qs) \<longleftrightarrow> (\<exists>b. tiles a b ps \<and> tiles b c qs)"
  by (induction ps arbitrary: a) auto

lemma tiles_snoc: "tiles a b ps \<Longrightarrow> gp_starts_at p = b \<Longrightarrow> b < gp_stops_at p \<Longrightarrow> tiles a (gp_stops_at p) (ps @ [p])"
  by (auto simp: tiles_append)

lemma filler_fields [simp]:
  "gp_starts_at (filler a b t s) = a" "gp_stops_at (filler a b t s) = b" "gp_kind (filler a b t s) = Filler"
  by (simp_all add: filler_def)

text \<open>What the library documents: adding a positive duration moves an instant forward.\<close>

definition clock_laws :: "('t :: linorder, 'd) GuideEnv \<Rightarrow> bool" where
  "clock_laws env \<longleftrightarrow> (\<forall>n d t t'. 0 \<le> n \<longrightarrow> ge_seconds env n = Some d \<longrightarrow>
     (ge_checked_add env t d = Some t' \<longrightarrow> t \<le> t' \<and> (0 < n \<longrightarrow> t < t')) \<and>
     (ge_checked_sub env t d = Some t' \<longrightarrow> t' \<le> t))"

lemma signed_seconds_Inr: "signed_seconds env s = Inr d \<Longrightarrow> ge_seconds env (int s) = Some d"
  by (auto simp: signed_seconds_def split: if_splits option.splits)

lemma event_duration_pos: "event_duration_seconds m = Inr s \<Longrightarrow> 0 < s"
  by (auto simp: event_duration_seconds_def Let_def split: sum.splits if_splits)

lemma build_event_programme_spec:
  assumes "clock_laws env" "build_event_programme env m src = Inr e"
  shows "gp_kind e = Event" "gp_source_title e = src" "gp_starts_at e < gp_stops_at e"
    "\<exists>t. mt_starts_at m = Some t \<and> gp_starts_at e \<le> t \<and> t < gp_stops_at e"
proof -
  obtain t pre s dur post st md en title where
    b: "mt_starts_at m = Some t" "signed_seconds env (lc_pre_roll_seconds (er_lifecycle (mt_rule m))) = Inr pre"
      "event_duration_seconds m = Inr s" "signed_seconds env s = Inr dur"
      "signed_seconds env (lc_post_roll_seconds (er_lifecycle (mt_rule m))) = Inr post"
      "ge_checked_sub env t pre = Some st" "ge_checked_add env t dur = Some md" "ge_checked_add env md post = Some en"
    and e: "gp_kind e = Event" "gp_source_title e = src" "gp_starts_at e = st" "gp_stops_at e = en"
    using assms(2) by (auto simp: build_event_programme_def bind_eq_Some_conv split: option.splits sum.splits)
  note law = assms(1) [unfolded clock_laws_def, rule_format]
  have "st \<le> t" using law [OF of_nat_0_le_iff signed_seconds_Inr [OF b(2)], of t st] b(6) by simp
  moreover have "t < md" using law [of "int s" dur t md] signed_seconds_Inr [OF b(4)] b(7) event_duration_pos [OF b(3)] by simp
  moreover have "md \<le> en" using law [OF of_nat_0_le_iff signed_seconds_Inr [OF b(5)], of md en] b(8) by simp
  ultimately show "gp_kind e = Event" "gp_source_title e = src" "gp_starts_at e < gp_stops_at e"
    "\<exists>t. mt_starts_at m = Some t \<and> gp_starts_at e \<le> t \<and> t < gp_stops_at e"
    using b(1) e by auto
qed

lemma build_events_spec:
  "build_events env inputs = Inr events \<longleftrightarrow>
     list_all2 (\<lambda>(m, src) e. build_event_programme env m src = Inr e) inputs events"
proof (induction inputs arbitrary: events)
  case (Cons i inputs)
  obtain m src where i: "i = (m, src)" by fastforce
  show ?case
  proof (cases "build_event_programme env m src")
    case (Inr e)
    have "map_sum (\<lambda>e. e) ((#) e) (build_events env inputs) = Inr events \<longleftrightarrow>
        (\<exists>rest. events = e # rest \<and> build_events env inputs = Inr rest)"
      by (cases "build_events env inputs") auto
    with Inr Cons.IH show ?thesis by (auto simp: i list_all2_Cons1)
  qed (simp add: i list_all2_Cons1)
qed auto

text \<open>An event cut to the window.\<close>

definition clip :: "'t :: linorder \<Rightarrow> 't \<Rightarrow> 't GeneratedProgramme \<Rightarrow> 't GeneratedProgramme" where
  "clip a b e = e\<lparr>gp_starts_at := max (gp_starts_at e) a, gp_stops_at := min (gp_stops_at e) b\<rparr>"

definition in_window :: "'t :: linorder \<Rightarrow> 't \<Rightarrow> 't GeneratedProgramme \<Rightarrow> bool" where
  "in_window a b e \<longleftrightarrow> a < gp_stops_at e \<and> gp_starts_at e < b"

text \<open>One event of the loop.\<close>

definition place_event ::
    "'t \<Rightarrow> 't \<Rightarrow> str \<Rightarrow> 't :: linorder GeneratedProgramme \<Rightarrow> 't \<times> 't GeneratedProgramme list \<Rightarrow>
     't \<times> 't GeneratedProgramme list" where
  "place_event a b ft e = (\<lambda>(cursor, schedule).
     if in_window a b e \<and> cursor < gp_stops_at e \<and> cursor \<le> max (gp_starts_at e) a then
       (gp_stops_at (clip a b e), schedule
          @ (if cursor < max (gp_starts_at e) a then [filler cursor (max (gp_starts_at e) a) ft []] else [])
          @ [clip a b e])
     else (cursor, schedule))"

lemma place_events_step:
  "place_events a b ft (e # events) s = place_events a b ft events (place_event a b ft e s)"
proof -
  obtain cursor schedule where s: "s = (cursor, schedule)" by fastforce
  show ?thesis
  proof (cases "in_window a b e \<and> cursor < gp_stops_at e \<and> cursor \<le> max (gp_starts_at e) a")
    case True
    then have "\<not> gp_stops_at e \<le> cursor" "\<not> gp_stops_at e \<le> a" "\<not> b \<le> gp_starts_at e"
      "\<not> max (gp_starts_at e) a < cursor" by (auto simp: in_window_def le_max_iff_disj)
    with True show ?thesis by (simp add: s place_event_def clip_def Let_def del: max_less_iff_conj less_max_iff_disj)
  next
    case False
    then have "gp_stops_at e \<le> cursor \<or> gp_stops_at e \<le> a \<or> b \<le> gp_starts_at e \<or> max (gp_starts_at e) a < cursor"
      by (auto simp: in_window_def le_max_iff_disj)
    with False show ?thesis by (auto simp: s place_event_def Let_def)
  qed
qed

lemma place_events_fold: "place_events a b ft events s = fold (place_event a b ft) events s"
  by (induction events arbitrary: s) (simp_all add: place_events_step del: place_events.simps(2))

lemma place_event_tiles:
  assumes "tiles a cursor schedule" "cursor \<le> b" "gp_starts_at e < gp_stops_at e" "a < b"
    and "place_event a b ft e (cursor, schedule) = (cursor', schedule')"
  shows "tiles a cursor' schedule'" "cursor' \<le> b" "cursor \<le> cursor'"
proof -
  have "tiles a cursor' schedule' \<and> cursor' \<le> b \<and> cursor \<le> cursor'"
  proof (cases "in_window a b e \<and> cursor < gp_stops_at e \<and> cursor \<le> max (gp_starts_at e) a")
    case True
    let ?s = "max (gp_starts_at e) a"
    have stop: "?s < gp_stops_at (clip a b e)" using True assms(3,4) by (auto simp: clip_def in_window_def)
    have res: "cursor' = gp_stops_at (clip a b e)" "schedule' = schedule
          @ (if cursor < ?s then [filler cursor ?s ft []] else []) @ [clip a b e]"
      using True assms(5) by (auto simp: place_event_def)
    have clipped: "gp_starts_at (clip a b e) = ?s" "gp_stops_at (clip a b e) \<le> b" by (simp_all add: clip_def)
    have later: "cursor \<le> ?s" "cursor \<le> gp_stops_at (clip a b e)" using True stop by (simp, meson less_imp_le order_trans)
    from assms(1) stop later clipped show ?thesis unfolding res
      by (cases "cursor = ?s") (auto simp: tiles_append order_less_le)
  qed (use assms in \<open>auto simp: place_event_def\<close>)
  then show "tiles a cursor' schedule'" "cursor' \<le> b" "cursor \<le> cursor'" by auto
qed

lemma place_events_tiles:
  assumes "tiles a cursor schedule" "cursor \<le> b" "a < b" "\<forall>e \<in> set events. gp_starts_at e < gp_stops_at e"
    and "place_events a b ft events (cursor, schedule) = (cursor', schedule')"
  shows "tiles a cursor' schedule' \<and> cursor' \<le> b"
  using assms unfolding place_events_fold
proof (induction events arbitrary: cursor schedule)
  case (Cons e events)
  obtain c s where p: "place_event a b ft e (cursor, schedule) = (c, s)" by fastforce
  note t = place_event_tiles [OF Cons.prems(1,2) _ Cons.prems(3) p]
  show ?case by (rule Cons.IH [of c s]) (use Cons.prems t p in auto)
qed simp

text \<open>Every event programme of the schedule is an event of the list, cut to the window.\<close>

lemma place_events_origin:
  assumes "place_events a b ft events (cursor, schedule) = (cursor', schedule')" "p \<in> set schedule'" "gp_kind p = Event"
  shows "p \<in> set schedule \<or> (\<exists>e \<in> set events. in_window a b e \<and> p = clip a b e)"
  using assms unfolding place_events_fold
proof (induction events arbitrary: cursor schedule)
  case (Cons e events)
  obtain c s where q: "place_event a b ft e (cursor, schedule) = (c, s)" by fastforce
  from Cons.IH [of c s] Cons.prems q have "p \<in> set s \<or> (\<exists>e \<in> set events. in_window a b e \<and> p = clip a b e)" by simp
  moreover have "p \<in> set s \<Longrightarrow> p \<in> set schedule \<or> (in_window a b e \<and> p = clip a b e)"
    using q assms(3) by (auto simp: place_event_def split: if_splits)
  ultimately show ?case by auto
qed simp

lemma place_events_keep:
  assumes "place_events a b ft events (cursor, schedule) = (cursor', schedule')"
  shows "set schedule \<subseteq> set schedule'"
  using assms unfolding place_events_fold
proof (induction events arbitrary: cursor schedule)
  case (Cons e events)
  obtain c s where q: "place_event a b ft e (cursor, schedule) = (c, s)" by fastforce
  moreover have "set schedule \<subseteq> set s" using q by (auto simp: place_event_def split: if_splits)
  ultimately show ?case using Cons.IH [of c s] Cons.prems by auto
qed simp

text \<open>
  The cursor is the start of the window or the end of the last event that was placed, which then
  started no later than any event still to come.
\<close>

definition cursor_of :: "'t :: linorder \<Rightarrow> 't \<times> 't GeneratedProgramme list \<Rightarrow> 't GeneratedProgramme list \<Rightarrow> bool" where
  "cursor_of a = (\<lambda>(cursor, schedule) events.
     cursor = a \<or> (\<exists>p \<in> set schedule. gp_kind p = Event \<and> gp_stops_at p = cursor \<and>
       (\<forall>e \<in> set events. gp_starts_at p \<le> max (gp_starts_at e) a)))"

lemma place_event_cursor:
  assumes "cursor_of a (cursor, schedule) (e # events)" "gp_kind e = Event"
    and "\<forall>e' \<in> set events. gp_starts_at e \<le> gp_starts_at e'"
    and "place_event a b ft e (cursor, schedule) = (cursor', schedule')"
  shows "cursor_of a (cursor', schedule') events"
proof (cases "in_window a b e \<and> cursor < gp_stops_at e \<and> cursor \<le> max (gp_starts_at e) a")
  case True
  then have "cursor' = gp_stops_at (clip a b e)" "clip a b e \<in> set schedule'"
    using assms(4) by (auto simp: place_event_def)
  moreover have "gp_starts_at (clip a b e) \<le> max (gp_starts_at e') a" if "e' \<in> set events" for e'
    using assms(3) that by (simp add: clip_def max.coboundedI1)
  moreover have "gp_kind (clip a b e) = Event" using assms(2) by (simp add: clip_def)
  ultimately show ?thesis unfolding cursor_of_def by blast
next
  case False
  then have "cursor' = cursor" "schedule' = schedule" using assms(4) by (auto simp: place_event_def split: if_splits)
  with assms(1) show ?thesis by (auto simp: cursor_of_def)
qed

definition overlaps :: "'t :: linorder GeneratedProgramme \<Rightarrow> 't GeneratedProgramme \<Rightarrow> bool" where
  "overlaps p q \<longleftrightarrow> gp_starts_at p < gp_stops_at q \<and> gp_starts_at q < gp_stops_at p"

lemma place_events_complete:
  assumes "place_events a b ft events (cursor, schedule) = (cursor', schedule')"
    and "sorted (map gp_starts_at events)" "\<forall>e \<in> set events. gp_kind e = Event \<and> gp_starts_at e < gp_stops_at e"
    and "a < b" "tiles a cursor schedule" "cursor \<le> b" "cursor_of a (cursor, schedule) events"
    and "e \<in> set events" "in_window a b e"
  shows "\<exists>p \<in> set schedule'. gp_kind p = Event \<and> (p = clip a b e \<or> overlaps p (clip a b e))"
  using assms(1-3,5-)
proof (induction events arbitrary: cursor schedule)
  case (Cons f events)
  obtain c s where q: "place_event a b ft f (cursor, schedule) = (c, s)" by fastforce
  have rest: "place_events a b ft events (c, s) = (cursor', schedule')"
    using Cons.prems(1) q by (simp add: place_events_step del: place_events.simps(2))
  note t = place_event_tiles [OF Cons.prems(4,5) _ assms(4) q]
  have cur: "cursor_of a (c, s) events"
    using place_event_cursor [OF Cons.prems(6) _ _ q] Cons.prems(2,3) by simp
  show ?case
  proof (cases "e = f")
    case False
    then show ?thesis using Cons.IH [OF rest _ _ _ _ cur] Cons.prems t by simp
  next
    case True
    show ?thesis
    proof (cases "cursor < gp_stops_at e \<and> cursor \<le> max (gp_starts_at e) a")
      case True
      with q Cons.prems(8) \<open>e = f\<close> have "clip a b e \<in> set s" by (auto simp: place_event_def)
      moreover have "gp_kind (clip a b e) = Event" using Cons.prems(3) \<open>e = f\<close> by (simp add: clip_def)
      ultimately show ?thesis using place_events_keep [OF rest] by blast
    next
      case False
      have e: "gp_starts_at e < gp_stops_at e" "a < gp_stops_at e" "gp_starts_at e < b"
        using Cons.prems(3,8) \<open>e = f\<close> by (auto simp: in_window_def)
      have late: "max (gp_starts_at e) a < cursor"
        using False e by (auto simp: not_less le_max_iff_disj)
      then have "cursor \<noteq> a" by auto
      then obtain p where p: "p \<in> set schedule" "gp_kind p = Event" "gp_stops_at p = cursor" "gp_starts_at p \<le> max (gp_starts_at e) a"
        using Cons.prems(6) \<open>e = f\<close> by (auto simp: cursor_of_def)
      have "max (gp_starts_at e) a < min (gp_stops_at e) b" using e assms(4) by simp
      with p late have "overlaps p (clip a b e)" unfolding overlaps_def clip_def by (simp del: max_less_iff_conj) (metis order_le_less_trans)
      moreover have "p \<in> set schedule'" using place_events_keep [OF Cons.prems(1)] p(1) by blast
      ultimately show ?thesis using p(2) by blast
    qed
  qed
qed simp

lemma sort_key_starts: "sorted (map gp_starts_at (sort_key event_order events))"
proof -
  have "sorted (map event_order (sort_key event_order events))" by simp
  then have "sorted_wrt (\<lambda>p q. event_order p \<le> event_order q) (sort_key event_order events)"
    by (simp add: sorted_map)
  then have "sorted_wrt (\<lambda>p q. gp_starts_at p \<le> gp_starts_at q) (sort_key event_order events)"
    by (rule sorted_wrt_mono_rel [rotated]) (auto simp: event_order_def less_eq_prod_def order_less_imp_le)
  then show ?thesis by (simp add: sorted_map)
qed

lemma generate_event_schedule_Inr:
  assumes "generate_event_schedule env inputs a b ft = Inr schedule"
  obtains events cursor placed where "a < b" "build_events env inputs = Inr events"
    "place_events a b ft (sort_key event_order events) (a, []) = (cursor, placed)"
    "schedule = placed @ (if cursor < b then [filler cursor b ft []] else [])"
  using assms that by (auto simp: generate_event_schedule_def Let_def not_le split: sum.splits prod.splits if_splits)

lemma built_events:
  assumes "build_events env inputs = Inr events" "e \<in> set events"
  shows "\<exists>(m, src) \<in> set inputs. build_event_programme env m src = Inr e"
proof -
  have "list_all2 (\<lambda>(m, src) e. build_event_programme env m src = Inr e) inputs events"
    using assms(1) by (simp add: build_events_spec)
  with assms(2) show ?thesis by (fastforce simp: list_all2_conv_all_nth in_set_conv_nth)
qed

lemma built_inputs:
  assumes "build_events env inputs = Inr events" "(m, src) \<in> set inputs"
  shows "\<exists>e \<in> set events. build_event_programme env m src = Inr e"
proof -
  have "list_all2 (\<lambda>(m, src) e. build_event_programme env m src = Inr e) inputs events"
    using assms(1) by (simp add: build_events_spec)
  with assms(2) show ?thesis by (fastforce simp: list_all2_conv_all_nth in_set_conv_nth)
qed

text \<open>
  C33: A generated schedule covers the requested window without a gap and without an overlap: its
  programmes are not empty, the first starts with the window, each next one starts where the one before
  ends, and the last ends with the window.  Every event programme is the programme of one of the
  inputs, cut to the window.\<close>

theorem schedule_tiles_the_window:
  assumes "clock_laws env" "generate_event_schedule env inputs window_start window_end filler_title = Inr schedule"
  shows "tiles window_start window_end schedule \<and>
    (\<forall>p \<in> set schedule. gp_kind p = Event \<longrightarrow>
       (\<exists>(matched, source_title) \<in> set inputs. \<exists>e. build_event_programme env matched source_title = Inr e \<and>
          in_window window_start window_end e \<and> p = clip window_start window_end e))"
  using assms(2)
proof (cases rule: generate_event_schedule_Inr)
  case (1 events cursor placed)
  have pos: "\<forall>e \<in> set (sort_key event_order events). gp_starts_at e < gp_stops_at e"
    using built_events [OF 1(2)] build_event_programme_spec(3) [OF assms(1)] by fastforce
  have t: "tiles window_start cursor placed \<and> cursor \<le> window_end"
    by (rule place_events_tiles [OF _ _ 1(1) pos 1(3)]) (use 1(1) in auto)
  have "tiles window_start window_end schedule"
    using t unfolding 1(4) by (auto simp: tiles_append)
  moreover have "\<exists>(matched, source_title) \<in> set inputs. \<exists>e. build_event_programme env matched source_title = Inr e \<and>
      in_window window_start window_end e \<and> p = clip window_start window_end e"
    if p: "p \<in> set schedule" and kind: "gp_kind p = Event" for p
  proof -
    have "p \<in> set placed" using p kind unfolding 1(4) by (auto split: if_splits)
    then obtain e where "e \<in> set events" "in_window window_start window_end e" "p = clip window_start window_end e"
      using place_events_origin [OF 1(3) _ kind] by auto
    with built_events [OF 1(2)] show ?thesis by fastforce
  qed
  ultimately show ?thesis by blast
qed


lemma sort_key_perm:
  assumes "mset xs = mset ys" "inj_on f (set xs)"
  shows "sort_key f xs = sort_key f ys"
proof -
  have "sort (map f xs) = map f (sort_key f xs)" "sort (map f xs) = map f (sort_key f ys)"
    by (rule properties_for_sort; simp add: assms(1))+
  then have "map f (sort_key f xs) = map f (sort_key f ys)" by simp
  moreover have "set xs = set ys" using assms(1) by (rule mset_eq_setD)
  ultimately show ?thesis using assms(2) by (auto dest: map_inj_on)
qed

lemma build_events_perm:
  assumes "build_events env inputs = Inr events" "mset inputs' = mset inputs"
  shows "\<exists>events'. build_events env inputs' = Inr events' \<and> mset events' = mset events"
proof -
  have "list_all2 (\<lambda>(m, src) e. build_event_programme env m src = Inr e) inputs events"
    using assms(1) by (simp add: build_events_spec)
  from list_all2_reorder_left_invariance [OF this assms(2)] show ?thesis
    by (auto simp: build_events_spec)
qed

text \<open>
  The order of the inputs does not matter: as long as different programmes differ in their start, end,
  key or source title, a permutation of the inputs gives the same schedule.\<close>

theorem schedule_independent_of_input_order:
  assumes "generate_event_schedule env inputs window_start window_end filler_title = Inr schedule"
    and "mset inputs' = mset inputs"
    and "inj_on event_order {e. \<exists>(matched, source_title) \<in> set inputs. build_event_programme env matched source_title = Inr e}"
  shows "generate_event_schedule env inputs' window_start window_end filler_title = Inr schedule"
  using assms(1)
proof (cases rule: generate_event_schedule_Inr)
  case (1 events cursor placed)
  obtain events' where e: "build_events env inputs' = Inr events'" "mset events' = mset events"
    using build_events_perm [OF 1(2) assms(2)] by blast
  have "set events \<subseteq> {e. \<exists>(matched, source_title) \<in> set inputs. build_event_programme env matched source_title = Inr e}"
    using built_events [OF 1(2)] by blast
  with assms(3) have "inj_on event_order (set events)" by (rule inj_on_subset)
  from sort_key_perm [OF e(2) [symmetric] this]
  have "sort_key event_order events' = sort_key event_order events" by (rule sym)
  with 1 e(1) show ?thesis by (auto simp: generate_event_schedule_def)
qed


definition anonymous :: "'t GeneratedProgramme \<Rightarrow> 't GeneratedProgramme" where
  "anonymous p = (if gp_kind p = Filler then p\<lparr>gp_source_title := []\<rparr> else p)"

text \<open>
  The guide of a single event is the schedule of that event alone: the same intervals, titles and
  keys, except that its fillers carry the source title.\<close>

theorem guide_is_a_single_schedule:
  assumes "clock_laws env"
  shows "map_sum (\<lambda>e. e) (map anonymous) (generate_event_guide env matched source_title window_start window_end) =
    generate_event_schedule env [(matched, source_title)] window_start window_end
      (gd_filler_title (er_guide (mt_rule matched)))"
proof (cases "window_end \<le> window_start")
  case True
  then show ?thesis by (simp add: generate_event_guide_def generate_event_schedule_def)
next
  case False
  show ?thesis
  proof (cases "build_event_programme env matched source_title")
    case (Inl e)
    with False show ?thesis by (simp add: generate_event_guide_def generate_event_schedule_def)
  next
    case (Inr e)
    note spec = build_event_programme_spec [OF assms Inr]
    have anon: "anonymous (filler a b t s) = filler a b t []" "anonymous (clip a b e) = clip a b e" for a b t s
      using spec(1) by (simp_all add: anonymous_def filler_def clip_def)
    have stops: "gp_stops_at (clip a b e) = min (gp_stops_at e) b" for a b by (simp add: clip_def)
    have c: "e\<lparr>gp_starts_at := max (gp_starts_at e) a, gp_stops_at := min (gp_stops_at e) b\<rparr> = clip a b e" for a b
      by (simp add: clip_def)
    show ?thesis
    proof (cases "gp_stops_at e \<le> window_start \<or> gp_starts_at e \<ge> window_end")
      case True
      then show ?thesis using False Inr
        by (auto simp: generate_event_guide_def generate_event_schedule_def Let_def anon)
    next
      case inside: False
      then have "window_start < min (gp_stops_at e) window_end" "max (gp_starts_at e) window_start < min (gp_stops_at e) window_end"
        using spec(3) False by auto
      then show ?thesis using False Inr inside
        by (auto simp: generate_event_guide_def generate_event_schedule_def Let_def anon c stops max_absorb1)
    qed
  qed
qed

section \<open>A sample\<close>

definition sample_clock :: "(int, int) GuideEnv" where
  "sample_clock = \<lparr>ge_seconds = Some, ge_checked_add = (\<lambda>t d. Some (t + d)), ge_checked_sub = (\<lambda>t d. Some (t - d)),
     ge_rfc3339 = (\<lambda>t. decimal (nat t)), ge_to_lowercase = to_ascii_lowercase\<rparr>"

lemma sample_clock_laws: "clock_laws sample_clock"
  by (simp add: clock_laws_def sample_clock_def)

definition sample_match :: "int \<Rightarrow> int MatchedEvent" where
  "sample_match t = \<lparr>mt_rule = explicit_rule, mt_starts_at = Some t,
     mt_captures = [lit ''team_a'' \<mapsto> lit ''Bears'', lit ''team_b'' \<mapsto> lit ''Lions'', lit ''duration'' \<mapsto> lit ''2h'']\<rparr>"

lemma sample_parts:
  "er_lifecycle explicit_rule = EventLifecyclePolicy_default"
  "gd_title_template (er_guide explicit_rule) = lit ''{team_a} vs {team_b}''"
  "er_metadata explicit_rule EVENT_TITLE_METADATA_KEY = Some (lit ''{team_a} vs {team_b}'')"
  by (simp_all add: explicit_rule_def builtin_sports_rule_def)

lemma sample_duration: "parse_duration (lit ''2h'') = Inr 7200"
  by (simp add: parse_duration_def squeeze_def to_ascii_lowercase_def str_trim_id is_whitespace_def ascii_lower_def
      split_once_def amount_unit_def is_ascii_digit_def parse_u64_def parse_unsigned_def num_def unit_multiplier_def checked_mul_u64_def)

lemma sample_title:
  "render_matched_event_title (sample_match t) src (lit ''{team_a} vs {team_b}'') = Inr (lit ''Bears vs Lions'')"
  by (simp add: render_matched_event_title_def render_event_title_def render_template_def render_from.simps
      split_once_def template_value_def sample_match_def starts_with_def)

lemma sample_programme:
  "\<exists>key. build_event_programme sample_clock (sample_match t) src =
     Inr \<lparr>gp_starts_at = t, gp_stops_at = t + 7200, gp_title = lit ''Bears vs Lions'', gp_kind = Event,
       gp_stable_event_key = Some key, gp_source_title = src\<rparr>"
proof -
  have "mt_rule (sample_match t) = explicit_rule" "mt_starts_at (sample_match t) = Some t" by (simp_all add: sample_match_def)
  moreover have "event_duration_seconds (sample_match t) = Inr 7200"
    using sample_duration by (simp add: event_duration_seconds_def sample_match_def)
  ultimately show ?thesis using sample_title [of t src]
    by (simp add: build_event_programme_def sample_parts signed_seconds_def sample_clock_def EventLifecyclePolicy_default_def)
qed

lemma generate_event_schedule_total:
  assumes "a < b" "build_events env inputs = Inr events"
  shows "\<exists>schedule. generate_event_schedule env inputs a b ft = Inr schedule"
  using assms by (simp add: generate_event_schedule_def split_beta Let_def)

definition sample_inputs :: "(int MatchedEvent \<times> str) list" where
  "sample_inputs = [(sample_match 7200, lit ''late''), (sample_match 3600, lit ''early'')]"

lemma sample_schedule:
  "\<exists>schedule. generate_event_schedule sample_clock sample_inputs 0 86400 (lit ''-'') = Inr schedule"
proof -
  obtain k1 where k1: "build_event_programme sample_clock (sample_match 7200) (lit ''late'') =
     Inr \<lparr>gp_starts_at = 7200, gp_stops_at = 7200 + 7200, gp_title = lit ''Bears vs Lions'', gp_kind = Event,
       gp_stable_event_key = Some k1, gp_source_title = lit ''late''\<rparr>" using sample_programme by blast
  obtain k2 where k2: "build_event_programme sample_clock (sample_match 3600) (lit ''early'') =
     Inr \<lparr>gp_starts_at = 3600, gp_stops_at = 3600 + 7200, gp_title = lit ''Bears vs Lions'', gp_kind = Event,
       gp_stable_event_key = Some k2, gp_source_title = lit ''early''\<rparr>" using sample_programme by blast
  have "\<exists>events. build_events sample_clock sample_inputs = Inr events"
    by (simp add: sample_inputs_def k1 k2 del: lit_simps)
  then obtain events where "build_events sample_clock sample_inputs = Inr events" by blast
  then show ?thesis by (rule generate_event_schedule_total [rotated]) simp
qed

theorem schedule_tiles_the_window_witness:
  "\<exists>schedule. generate_event_schedule sample_clock sample_inputs 0 86400 (lit ''-'') = Inr schedule \<and> tiles 0 86400 schedule"
  using sample_schedule schedule_tiles_the_window [OF sample_clock_laws] by blast


theorem schedule_independent_of_input_order_witness:
  "generate_event_schedule sample_clock (rev sample_inputs) 0 86400 (lit ''-'') =
   generate_event_schedule sample_clock sample_inputs 0 86400 (lit ''-'')"
proof -
  obtain schedule where s: "generate_event_schedule sample_clock sample_inputs 0 86400 (lit ''-'') = Inr schedule"
    using sample_schedule by blast
  have "inj_on event_order {e. \<exists>(m, src) \<in> set sample_inputs. build_event_programme sample_clock m src = Inr e}"
  proof (rule inj_onI)
    fix x y assume x: "x \<in> {e. \<exists>(m, src) \<in> set sample_inputs. build_event_programme sample_clock m src = Inr e}"
      and y: "y \<in> {e. \<exists>(m, src) \<in> set sample_inputs. build_event_programme sample_clock m src = Inr e}"
      and eq: "event_order x = event_order y"
    have start: "gp_starts_at z = t" if "build_event_programme sample_clock (sample_match t) src = Inr z" for z t src
      using that sample_programme [of t src] by auto
    from x obtain t src where tx: "build_event_programme sample_clock (sample_match t) src = Inr x"
      "(t, src) \<in> {(7200, lit ''late''), (3600, lit ''early'')}"
      by (auto simp: sample_inputs_def simp del: lit_simps)
    from y obtain u src' where ty: "build_event_programme sample_clock (sample_match u) src' = Inr y"
      "(u, src') \<in> {(7200, lit ''late''), (3600, lit ''early'')}"
      by (auto simp: sample_inputs_def simp del: lit_simps)
    from eq start [OF tx(1)] start [OF ty(1)] have "t = u" by (simp add: event_order_def)
    with tx ty show "x = y" by auto
  qed
  with schedule_independent_of_input_order [OF s, of "rev sample_inputs"] s show ?thesis by simp
qed

theorem guide_is_a_single_schedule_witness:
  "map_sum (\<lambda>e. e) (map anonymous) (generate_event_guide sample_clock (sample_match 3600) (lit ''early'') 0 86400) =
    generate_event_schedule sample_clock [(sample_match 3600, lit ''early'')] 0 86400 default_filler_title"
  using guide_is_a_single_schedule [OF sample_clock_laws, of "sample_match 3600" "lit ''early''" 0 86400]
  by (simp add: sample_match_def explicit_rule_def builtin_sports_rule_def EventGuidePolicy_default_def del: lit_simps)

section \<open>Templates and durations\<close>

datatype TemplatePart = Literal str | Field str

fun print_part :: "TemplatePart \<Rightarrow> str" where
  "print_part (Literal s) = s"
| "print_part (Field f) = 123 # f @ [125]"

fun part_ok :: "TemplatePart \<Rightarrow> bool" where
  "part_ok (Literal s) \<longleftrightarrow> 123 \<notin> set s"
| "part_ok (Field f) \<longleftrightarrow> 125 \<notin> set f"

fun render_parts :: "str \<Rightarrow> (str \<Rightarrow> str option) \<Rightarrow> str option \<Rightarrow> TemplatePart list \<Rightarrow> EventGuideError + str" where
  "render_parts src captures event [] = Inr []"
| "render_parts src captures event (Literal s # parts) =
     map_sum (\<lambda>e. e) (\<lambda>t. s @ t) (render_parts src captures event parts)"
| "render_parts src captures event (Field f # parts) =
     (case template_value src captures event f of
        Inl e \<Rightarrow> Inl e
      | Inr v \<Rightarrow> map_sum (\<lambda>e. e) (\<lambda>t. v @ t) (render_parts src captures event parts))"

lemma split_once_append: "c \<notin> set a \<Longrightarrow> split_once c (a @ c # b) = Some (a, b)"
  by (induction a) (auto simp: split_once_def)

lemma split_once_none: "split_once c s = None \<longleftrightarrow> c \<notin> set s"
  by (simp add: split_once_def)

lemma split_once_some: "split_once c s = Some (a, b) \<Longrightarrow> s = a @ c # b \<and> c \<notin> set a"
proof (induction s arbitrary: a)
  case (Cons d s)
  then show ?case
  proof (cases "d = c")
    case False
    with Cons.prems obtain a' where "split_once c s = Some (a', b)" "a = d # a'" by (auto simp: split_once_def split: if_splits)
    with Cons.IH False show ?thesis by simp
  next
    case True
    with Cons.prems show ?thesis by (simp add: split_once_def)
  qed
qed (simp add: split_once_def)

lemma render_from_literal:
  assumes "123 \<notin> set s"
  shows "render_from src captures event r (s @ rest) = render_from src captures event (r @ s) rest"
proof (cases "split_once 123 rest")
  case None
  then have "split_once 123 (s @ rest) = None" using assms by (simp add: split_once_none)
  with None show ?thesis by (simp add: render_from.simps [of _ _ _ _ "s @ rest"] render_from.simps [of _ _ _ _ rest])
next
  case (Some ab)
  obtain a b where ab: "ab = (a, b)" by fastforce
  with split_once_some [of 123 rest a b] Some have "rest = a @ 123 # b" "123 \<notin> set a" by simp_all
  then have "split_once 123 (s @ rest) = Some (s @ a, b)" using split_once_append [of 123 "s @ a" b] assms by simp
  with Some ab show ?thesis
    by (simp add: render_from.simps [of _ _ _ _ "s @ rest"] render_from.simps [of _ _ _ _ rest]
        split: option.splits sum.splits prod.splits)
qed

lemma render_from_field:
  assumes "125 \<notin> set f"
  shows "render_from src captures event r (123 # f @ 125 # rest) =
    (case template_value src captures event f of
       Inl e \<Rightarrow> Inl e | Inr v \<Rightarrow> render_from src captures event (r @ v) rest)"
  using split_once_append [of 125 f rest, OF assms] split_once_append [of 123 "[]" "f @ 125 # rest"]
  by (simp add: render_from.simps [of _ _ _ _ "123 # f @ 125 # rest"] split: sum.splits)

lemma render_from_parts:
  assumes "\<forall>p \<in> set parts. part_ok p"
  shows "render_from src captures event r (concat (map print_part parts)) =
    map_sum (\<lambda>e. e) (\<lambda>t. r @ t) (render_parts src captures event parts)"
  using assms
proof (induction parts arbitrary: r)
  case Nil
  then show ?case by (simp add: render_from.simps split_once_def)
next
  case (Cons p parts)
  show ?case
  proof (cases p)
    case (Literal s)
    with Cons show ?thesis by (cases "render_parts src captures event parts") (simp_all add: render_from_literal)
  next
    case (Field f)
    with Cons show ?thesis
      by (cases "render_parts src captures event parts") (auto simp: render_from_field split: sum.split)
  qed
qed

text \<open>
  A template is rendered part by part: literal text is kept, \<open>source\<close> and \<open>title\<close> are the provider's
  title, \<open>event\<close> is the default title, every other field is the capture of that name, and the first
  field without a capture is the error; the text of a capture is never read as a template again.\<close>

theorem template_renders_its_parts:
  assumes "\<forall>p \<in> set parts. part_ok p"
  shows "render_template (concat (map print_part parts)) source_title captures event =
    render_parts source_title captures event parts"
  unfolding render_template_def render_from_parts [OF assms]
  by (cases "render_parts source_title captures event parts") simp_all

theorem template_renders_its_parts_witness:
  "render_template (lit ''{away} @ {home}'') [] [lit ''home'' \<mapsto> lit ''{away}'', lit ''away'' \<mapsto> lit ''X''] None =
   Inr (lit ''X @ {away}'')"
  using template_renders_its_parts [of "[Field (lit ''away''), Literal (lit '' @ ''), Field (lit ''home'')]" "[]"
      "[lit ''home'' \<mapsto> lit ''{away}'', lit ''away'' \<mapsto> lit ''X'']" None]
  by (simp add: template_value_def)

lemma squeeze_plain: "\<forall>c \<in> set s. \<not> is_whitespace c \<and> ascii_lower c = c \<Longrightarrow> squeeze s = s"
  by (auto simp: squeeze_def str_trim_none to_ascii_lowercase_def map_idI is_whitespace_def filter_id_conv)

lemma digits_plain: "digits s \<Longrightarrow> c \<in> set s \<Longrightarrow> \<not> is_whitespace c \<and> ascii_lower c = c \<and> c \<noteq> 58"
  by (auto simp: digits_def is_ascii_digit_def is_whitespace_def ascii_lower_def)

definition UNITS :: "str list" where
  "UNITS = map lit [''s'', ''sec'', ''secs'', ''second'', ''seconds'', ''m'', ''min'', ''mins'', ''minute'', ''minutes'',
     ''h'', ''hr'', ''hrs'', ''hour'', ''hours'']"

lemma UNITS_plain: "\<forall>u \<in> set UNITS. u \<noteq> [] \<and> (\<forall>c \<in> set u. 97 \<le> c \<and> c \<le> 122)"
  by (simp add: UNITS_def)

lemma unit_plain:
  assumes "unit_multiplier unit = Some k"
  shows "unit \<noteq> []" "c \<in> set unit \<Longrightarrow> \<not> is_whitespace c \<and> ascii_lower c = c \<and> c \<noteq> 58 \<and> \<not> is_ascii_digit c" "0 < k"
proof -
  have "unit \<in> set UNITS \<and> 0 < k"
    using assms unfolding unit_multiplier_def UNITS_def by (simp del: lit_simps split: if_splits) blast+
  with UNITS_plain show "unit \<noteq> []" "0 < k" by auto
  assume "c \<in> set unit"
  with UNITS_plain \<open>unit \<in> set UNITS \<and> 0 < k\<close> have "97 \<le> c \<and> c \<le> 122" by blast
  then show "\<not> is_whitespace c \<and> ascii_lower c = c \<and> c \<noteq> 58 \<and> \<not> is_ascii_digit c"
    by (auto simp: is_whitespace_def ascii_lower_def is_ascii_digit_def)
qed

lemma parse_u64_decimal: "parse_u64 (decimal n) = (if n < u64_bound then Some n else None)"
  using decimal_digits [of n] num_decimal [of n]
  by (cases "decimal n") (auto simp: parse_u64_def parse_unsigned_def is_ascii_digit_def Let_def simp del: num_decimal)

lemma amount_unit_read:
  assumes "unit_multiplier unit = Some k"
  shows "amount_unit (decimal n @ unit) = (if 0 < n * k \<and> n * k < u64_bound then Some (n * k) else None)"
proof -
  obtain c u where u: "unit = c # u" "\<not> is_ascii_digit c" using unit_plain [OF assms] by (cases unit) auto
  have d: "\<forall>c \<in> set (decimal n). is_ascii_digit c" using decimal_digits(1) [of n] by (simp add: digits_def)
  have "takeWhile is_ascii_digit (decimal n @ unit) = decimal n" "dropWhile is_ascii_digit (decimal n @ unit) = unit"
    using d u by (simp_all add: takeWhile_append2 dropWhile_append2)
  moreover have "\<not> digits (decimal n @ unit)" using u by simp
  moreover have "n < u64_bound" if "n * k < u64_bound"
    using that unit_plain(3) [OF assms] by (metis le_less_trans mult.right_neutral mult_le_mono2 Suc_leI One_nat_def)
  ultimately show ?thesis using assms
    by (auto simp: amount_unit_def parse_u64_decimal checked_mul_u64_def)
qed

lemma hours_minutes_read:
  "hours_minutes (decimal h) (decimal m) =
    (if m < 60 \<and> 0 < h * 3600 + m * 60 \<and> h * 3600 + m * 60 < u64_bound then Some (h * 3600 + m * 60) else None)"
  by (auto simp: hours_minutes_def parse_u64_decimal checked_mul_u64_def checked_add_u64_def)

text \<open>
  A captured duration is read exactly.  An amount with a unit, or hours and minutes with a colon, gives
  its number of seconds whenever that is positive and below \<open>2 ^ 64\<close>, and an error otherwise, for
  every amount however large.\<close>

theorem duration_is_read:
  assumes "unit_multiplier unit = Some k"
  shows "parse_duration (decimal n @ unit) = (if 0 < n * k \<and> n * k < u64_bound then Inr (n * k)
      else Inl (InvalidCapturedDuration (decimal n @ unit))) \<and>
    parse_duration (decimal h @ [58] @ decimal m) =
      (if m < 60 \<and> 0 < h * 3600 + m * 60 \<and> h * 3600 + m * 60 < u64_bound then Inr (h * 3600 + m * 60)
       else Inl (InvalidCapturedDuration (decimal h @ [58] @ decimal m)))"
proof
  have "squeeze (decimal n @ unit) = decimal n @ unit"
    by (rule squeeze_plain) (use digits_plain [OF decimal_digits(1)] unit_plain(2) [OF assms] in auto)
  moreover have "split_once 58 (decimal n @ unit) = None"
    using digits_plain [OF decimal_digits(1)] unit_plain(2) [OF assms] by (auto simp: split_once_none)
  ultimately show "parse_duration (decimal n @ unit) = (if 0 < n * k \<and> n * k < u64_bound then Inr (n * k)
      else Inl (InvalidCapturedDuration (decimal n @ unit)))"
    by (simp add: parse_duration_def Let_def amount_unit_read [OF assms])
  have colon: "\<not> is_whitespace 58" "ascii_lower 58 = 58" by (simp_all add: is_whitespace_def ascii_lower_def)
  have "squeeze (decimal h @ [58] @ decimal m) = decimal h @ [58] @ decimal m"
    by (rule squeeze_plain) (use digits_plain [OF decimal_digits(1)] colon in auto)
  moreover have "split_once 58 (decimal h @ [58] @ decimal m) = Some (decimal h, decimal m)"
    using split_once_append [of 58 "decimal h" "decimal m"] digits_plain [OF decimal_digits(1), of 58 h] by auto
  ultimately show "parse_duration (decimal h @ [58] @ decimal m) =
      (if m < 60 \<and> 0 < h * 3600 + m * 60 \<and> h * 3600 + m * 60 < u64_bound then Inr (h * 3600 + m * 60)
       else Inl (InvalidCapturedDuration (decimal h @ [58] @ decimal m)))"
    by (simp add: parse_duration_def Let_def hours_minutes_read)
qed

theorem duration_is_read_witness: "parse_duration (decimal 90 @ lit ''min'') = Inr 5400"
  using duration_is_read [of "lit ''min''" 60 90] by (simp add: unit_multiplier_def)

section \<open>Titles of the built-in rules\<close>

lemma starts_with_iff: "starts_with p s \<longleftrightarrow> (\<exists>r. s = p @ r)"
  by (metis starts_with_def append_eq_conv_conj append_take_drop_id)

lemma starts_with_Nil [simp]: "starts_with [] s"
  by (simp add: starts_with_def)

lemma str_has_Nil [simp]: "str_has [] s"
  by (cases s) simp_all

lemma str_has_right: "str_has p s \<Longrightarrow> str_has p (s @ t)"
proof (induction s)
  case (Cons c s)
  then show ?case by (auto simp: starts_with_iff) (metis append_Cons append_assoc)
qed auto

lemma str_has_left: "str_has p s \<Longrightarrow> str_has p (t @ s)"
  by (induction t) simp_all

lemma str_has_mid: "str_has p m \<Longrightarrow> str_has p (a @ m @ b)"
  by (intro str_has_left str_has_right)

definition group_of :: "string \<Rightarrow> str" where
  "group_of g = lit ''(?P<'' @ lit g @ lit ''>''"

definition has_group :: "EventRule \<Rightarrow> string \<Rightarrow> bool" where
  "has_group rule g \<longleftrightarrow> (\<exists>p. ma_name_regex (er_matcher rule) = Some p \<and> str_has (group_of g) p)"

definition titled :: "EventRule \<Rightarrow> bool" where
  "titled rule \<longleftrightarrow>
     er_metadata rule EVENT_TITLE_METADATA_KEY = Some (gd_title_template (er_guide rule)) \<and>
     (gd_title_template (er_guide rule) \<in> {lit ''{home} vs {away}'', lit ''{away} @ {home}''} \<and>
        has_group rule ''home'' \<and> has_group rule ''away''
      \<or> gd_title_template (er_guide rule) = lit ''{team_a} vs {team_b}'' \<and>
        has_group rule ''team_a'' \<and> has_group rule ''team_b'')"

lemma titled_rule:
  assumes "template \<in> {lit ''{home} vs {away}'', lit ''{away} @ {home}''} \<and>
        str_has (group_of ''home'') p \<and> str_has (group_of ''away'') p
      \<or> template = lit ''{team_a} vs {team_b}'' \<and> str_has (group_of ''team_a'') p \<and> str_has (group_of ''team_b'') p"
  shows "titled (builtin_sports_rule i n p d template)"
  using assms by (auto simp: titled_def has_group_def builtin_sports_rule_def simp del: lit_simps)

lemma group_samples:
  "str_has (group_of ''home'') (re ''(?P<home>.+?)~s+(?:v|vs|versus)~.?~s+(?P<away>.+?)'')"
  "str_has (group_of ''away'') (re ''(?P<home>.+?)~s+(?:v|vs|versus)~.?~s+(?P<away>.+?)'')"
  "str_has (group_of ''home'') (re ''(?P<away>.+?)~s+@~s+(?P<home>.+?)'')"
  "str_has (group_of ''away'') (re ''(?P<away>.+?)~s+@~s+(?P<home>.+?)'')"
  "str_has (group_of ''home'') (re '')~s+(?P<home>.+?)~s+(?:v|vs|versus)~.?~s+(?P<away>.+?)'')"
  "str_has (group_of ''away'') (re '')~s+(?P<home>.+?)~s+(?:v|vs|versus)~.?~s+(?P<away>.+?)'')"
  "str_has (group_of ''home'') (re '')~s+(?P<away>.+?)~s+@~s+(?P<home>.+?)'')"
  "str_has (group_of ''away'') (re '')~s+(?P<away>.+?)~s+@~s+(?P<home>.+?)'')"
  "str_has (group_of ''team_a'') (re ''(?P<team_a>.+?)~s+(?:v|vs|versus)~.?~s+(?P<team_b>.+?)~s+@~s+(?P<month>[A-Za-z]{3,9})~.?~s+(?P<day>[0-9]{1,2})~s+(?P<time>'')"
  "str_has (group_of ''team_b'') (re ''(?P<team_a>.+?)~s+(?:v|vs|versus)~.?~s+(?P<team_b>.+?)~s+@~s+(?P<month>[A-Za-z]{3,9})~.?~s+(?P<day>[0-9]{1,2})~s+(?P<time>'')"
  "str_has (group_of ''team_a'') (re ''(?P<team_a>.+?)~s+(?:x|v|vs|versus)~.?~s+(?P<team_b>.+?)~s+start:~s*'')"
  "str_has (group_of ''team_b'') (re ''(?P<team_a>.+?)~s+(?:x|v|vs|versus)~.?~s+(?P<team_b>.+?)~s+start:~s*'')"
  by (simp_all add: group_of_def re_def starts_with_def)

lemma titled_builtin:
  assumes "rule \<in> set builtin_sports_event_rules"
  shows "titled rule"
proof -
  have dated: "list_all titled (dated_rules x)" for x
    by (cases x) (auto simp: dated_rules_def group_samples str_has_left str_has_right intro!: titled_rule simp del: lit_simps)
  have "list_all titled time_only_rules"
    by (auto simp: time_only_rules_def group_samples str_has_left str_has_right intro!: titled_rule simp del: lit_simps)
  moreover have "titled spelled_date_rule" unfolding spelled_date_rule_def
    by (auto simp: group_samples str_has_left str_has_right intro!: titled_rule simp del: lit_simps)
  moreover have "titled explicit_rule"
  proof -
    have "titled (explicit_rule\<lparr>er_date_patterns := []\<rparr>)" unfolding explicit_rule_def
      by (auto simp: group_samples str_has_left str_has_right builtin_sports_rule_def titled_def has_group_def simp del: lit_simps)
    then show ?thesis by (simp add: titled_def has_group_def)
  qed
  ultimately show ?thesis using assms dated unfolding builtin_sports_event_rules_def
    by (auto simp: list_all_iff)
qed

lemma part_renders:
  assumes "captures (lit f) \<noteq> None" "captures (lit g) \<noteq> None" "125 \<notin> set (lit f)" "125 \<notin> set (lit g)" "123 \<notin> set sep"
  shows "\<exists>t. render_template (concat (map print_part [Field (lit f), Literal sep, Field (lit g)])) src captures event = Inr t"
proof -
  have v: "\<exists>v. template_value src captures event (lit x) = Inr v" if "captures (lit x) \<noteq> None" for x
    using that by (auto simp: template_value_def)
  obtain a b where "template_value src captures event (lit f) = Inr a" "template_value src captures event (lit g) = Inr b"
    using v assms(1,2) by blast
  then show ?thesis unfolding render_template_def using assms(3-5) by (subst render_from_parts) auto
qed

lemma pair_renders:
  "captures (lit ''home'') \<noteq> None \<Longrightarrow> captures (lit ''away'') \<noteq> None \<Longrightarrow>
     template \<in> {lit ''{home} vs {away}'', lit ''{away} @ {home}''} \<Longrightarrow>
     (\<exists>t. render_template template src captures event = Inr t) \<and> \<not> str_has (lit ''{event}'') template"
  "captures (lit ''team_a'') \<noteq> None \<Longrightarrow> captures (lit ''team_b'') \<noteq> None \<Longrightarrow>
     template = lit ''{team_a} vs {team_b}'' \<Longrightarrow>
     (\<exists>t. render_template template src captures event = Inr t) \<and> \<not> str_has (lit ''{event}'') template"
proof -
  have t: "lit ''{home} vs {away}'' = concat (map print_part [Field (lit ''home''), Literal (lit '' vs ''), Field (lit ''away'')])"
    "lit ''{away} @ {home}'' = concat (map print_part [Field (lit ''away''), Literal (lit '' @ ''), Field (lit ''home'')])"
    "lit ''{team_a} vs {team_b}'' = concat (map print_part [Field (lit ''team_a''), Literal (lit '' vs ''), Field (lit ''team_b'')])"
    by simp_all
  have n: "\<not> str_has (lit ''{event}'') (lit ''{home} vs {away}'')" "\<not> str_has (lit ''{event}'') (lit ''{away} @ {home}'')"
    "\<not> str_has (lit ''{event}'') (lit ''{team_a} vs {team_b}'')"
    by (simp_all add: starts_with_def)
  have p: "125 \<notin> set (lit ''home'')" "125 \<notin> set (lit ''away'')" "125 \<notin> set (lit ''team_a'')" "125 \<notin> set (lit ''team_b'')"
    "123 \<notin> set (lit '' vs '')" "123 \<notin> set (lit '' @ '')" by simp_all
  show "captures (lit ''home'') \<noteq> None \<Longrightarrow> captures (lit ''away'') \<noteq> None \<Longrightarrow>
     template \<in> {lit ''{home} vs {away}'', lit ''{away} @ {home}''} \<Longrightarrow>
     (\<exists>t. render_template template src captures event = Inr t) \<and> \<not> str_has (lit ''{event}'') template"
    using n part_renders [of captures "''home''" "''away''", OF _ _ p(1,2,5)] part_renders [of captures "''away''" "''home''", OF _ _ p(2,1,6)]
    unfolding t by blast
  show "captures (lit ''team_a'') \<noteq> None \<Longrightarrow> captures (lit ''team_b'') \<noteq> None \<Longrightarrow>
     template = lit ''{team_a} vs {team_b}'' \<Longrightarrow>
     (\<exists>t. render_template template src captures event = Inr t) \<and> \<not> str_has (lit ''{event}'') template"
    using n part_renders [of captures "''team_a''" "''team_b''", OF _ _ p(3,4,5)] unfolding t by blast
qed

text \<open>
  The title of a built-in rule can always be rendered: when the captures of a match hold every named
  group of the rule's own expression, neither its title template nor the default event title it names
  refers to an unknown field.\<close>

theorem builtin_titles_render:
  assumes "mt_rule matched \<in> set builtin_sports_event_rules"
    and "\<forall>g. has_group (mt_rule matched) g \<longrightarrow> mt_captures matched (lit g) \<noteq> None"
  shows "\<exists>title. render_matched_event_title matched source_title (gd_title_template (er_guide (mt_rule matched))) = Inr title"
proof -
  let ?template = "gd_title_template (er_guide (mt_rule matched))"
  have "titled (mt_rule matched)" by (rule titled_builtin [OF assms(1)])
  then have "\<exists>t. render_template ?template source_title (mt_captures matched) None = Inr t"
    "\<not> str_has (lit ''{event}'') ?template"
    using assms(2) pair_renders [of "mt_captures matched" ?template source_title None]
    unfolding titled_def by blast+
  then show ?thesis by (auto simp: render_matched_event_title_def render_event_title_def)
qed

theorem builtin_titles_render_witness:
  "\<exists>title. render_matched_event_title
     \<lparr>mt_rule = explicit_rule, mt_starts_at = Some (0 :: int), mt_captures = (\<lambda>_. Some (lit ''x''))\<rparr> []
     (gd_title_template (er_guide explicit_rule)) = Inr title"
proof -
  have "explicit_rule \<in> set builtin_sports_event_rules" by (simp add: builtin_sports_event_rules_def)
  with builtin_titles_render [of "\<lparr>mt_rule = explicit_rule, mt_starts_at = Some (0 :: int), mt_captures = (\<lambda>_. Some (lit ''x''))\<rparr>" "[]"]
  show ?thesis by (simp del: lit_simps)
qed

end
