(* ===== verification/EventRules.thy ===== *)
theory EventRules
  imports Guide M3u
begin

text \<open>
  Event rules (the first half of \<open>crates/parsers/src/events.rs\<close>): reading and validating a rule
  document, compiling and matching rules, and finding the start of an event from a date, a clock time or
  a spelled date.

  The crates \<open>regex\<close>, \<open>chrono\<close>, \<open>chrono_tz\<close>, \<open>serde_json\<close> and \<open>uuid\<close> are the fields of
  \<open>RuleEnv\<close>: a compiled expression, a time zone, an instant, a local date, a clock time and a
  local date with a time are arbitrary types.  \<open>rv_rules_from_json\<close> reads both forms of the
  document.  The reader is the list of buffers of the M3U parser.
\<close>

section \<open>Environment\<close>

datatype 't LocalResult = Single 't | Ambiguous | NoLocal

record Captures =
  cp_name :: "str \<Rightarrow> str option"
  cp_get :: "nat \<Rightarrow> str option"

record ('t, 'd, 'c, 'n, 'z, 'r) RuleEnv =
  rv_regex_new :: "str \<Rightarrow> str + 'r"
  rv_is_match :: "'r \<Rightarrow> str \<Rightarrow> bool"
  rv_captures :: "'r \<Rightarrow> str \<Rightarrow> Captures option"
  rv_capture_names :: "'r \<Rightarrow> str list"
  rv_captures_len :: "'r \<Rightarrow> nat"
  rv_tz :: "str \<Rightarrow> 'z option"
  rv_tz_name :: "'z \<Rightarrow> str"
  rv_debug :: "str \<Rightarrow> str"
  rv_id :: "nat \<Rightarrow> str"
  rv_rules_from_json :: "bytes \<Rightarrow> str + EventRule list"
  rv_parse_datetime :: "str \<Rightarrow> str \<Rightarrow> 't option"
  rv_parse_naive :: "str \<Rightarrow> str \<Rightarrow> 'n option"
  rv_parse_date :: "str \<Rightarrow> str \<Rightarrow> 'd option"
  rv_midnight :: "'d \<Rightarrow> 'n"
  rv_hms :: "nat \<Rightarrow> nat \<Rightarrow> 'c option"
  rv_and_time :: "'d \<Rightarrow> 'c \<Rightarrow> 'n"
  rv_from_local :: "'z \<Rightarrow> 'n \<Rightarrow> 't LocalResult"
  rv_local_date :: "'z \<Rightarrow> 't \<Rightarrow> 'd"
  rv_minus_hours :: "'t \<Rightarrow> int \<Rightarrow> 't"
  rv_seconds_between :: "'t \<Rightarrow> 't \<Rightarrow> int"
  rv_succ :: "'d \<Rightarrow> 'd option"
  rv_ymd :: "int \<Rightarrow> nat \<Rightarrow> nat \<Rightarrow> 'd option"
  rv_year :: "'d \<Rightarrow> int"
  rv_days :: "'d \<Rightarrow> 'd \<Rightarrow> int"
  rv_naive_string :: "'n \<Rightarrow> str"
  rv_date_string :: "'d \<Rightarrow> str"

section \<open>Documents\<close>

record EventRuleDocument =
  ed_rules :: EventRuleSet
  ed_diagnostics :: "Diagnostic list"
  ed_stats :: ParseStats

text \<open>\<open>take(n).read_to_end\<close>: an empty buffer is the end of the input.\<close>

fun read_to_end :: "nat \<Rightarrow> 'io Fill list \<Rightarrow> 'io + bytes" where
  "read_to_end n [] = Inr []"
| "read_to_end n (IoError e # fills) = (if n = 0 then Inr [] else Inl e)"
| "read_to_end n (Bytes bs # fills) =
     (if n = 0 \<or> bs = [] then Inr []
      else map_sum (\<lambda>e. e) (\<lambda>rest. take n bs @ rest) (read_to_end (n - length bs) fills))"

fun split_inclusive :: "bytes \<Rightarrow> bytes \<Rightarrow> bytes list" where
  "split_inclusive line [] = (if line = [] then [] else [line])"
| "split_inclusive line (b # bs) =
     (if b = 10 then (line @ [b]) # split_inclusive [] bs else split_inclusive (line @ [b]) bs)"

fun long_line :: "usize \<Rightarrow> nat \<Rightarrow> bytes list \<Rightarrow> nat option" where
  "long_line limit index [] = None"
| "long_line limit index (line # lines) =
     (if length line > limit then Some index else long_line limit (index + 1) lines)"

definition event_rule_diagnostic :: "EventRuleDocument \<Rightarrow> str \<Rightarrow> EventRuleDocument" where
  "event_rule_diagnostic document message =
     (let diagnostic = dg_error InvalidEventRule None None message
      in document\<lparr>ed_stats := stats_observe (ed_stats document) diagnostic,
           ed_diagnostics := ed_diagnostics document @ [diagnostic]\<rparr>)"

text \<open>The checks of a rule: the messages they report, in order; a rule is valid when there are none.\<close>

definition name_messages :: "('t, 'd, 'c, 'n, 'z, 'r) RuleEnv \<Rightarrow> str set \<Rightarrow> EventRule \<Rightarrow> str list" where
  "name_messages env seen_names rule =
     (if str_trim (er_name rule) = [] then [lit ''event rule name must not be empty'']
      else if er_name rule \<in> seen_names
      then [lit ''duplicate event rule name '' @ rv_debug env (er_name rule)] else [])"

definition id_messages :: "('t, 'd, 'c, 'n, 'z, 'r) RuleEnv \<Rightarrow> nat set \<Rightarrow> EventRule \<Rightarrow> str list" where
  "id_messages env seen_ids rule =
     (if er_id rule \<in> seen_ids then [lit ''duplicate event rule id '' @ rv_id env (er_id rule)] else [])"

definition timezone_messages :: "('t, 'd, 'c, 'n, 'z, 'r) RuleEnv \<Rightarrow> EventRule \<Rightarrow> str list" where
  "timezone_messages env rule =
     (if rv_tz env (er_timezone rule) = None
      then [lit ''event rule '' @ rv_debug env (er_name rule) @ lit '' has unknown timezone ''
              @ rv_debug env (er_timezone rule)] else [])"

definition regex_message ::
    "('t, 'd, 'c, 'n, 'z, 'r) RuleEnv \<Rightarrow> EventRule \<Rightarrow> string \<times> str option \<Rightarrow> str list" where
  "regex_message env rule = (\<lambda>(field, pattern).
     (case pattern of
        None \<Rightarrow> []
      | Some pattern \<Rightarrow>
          (case rv_regex_new env pattern of
             Inl error \<Rightarrow> [lit ''event rule '' @ rv_debug env (er_name rule) @ lit '' has invalid ''
                 @ lit field @ lit '': '' @ error]
           | Inr _ \<Rightarrow> [])))"

definition regex_messages :: "('t, 'd, 'c, 'n, 'z, 'r) RuleEnv \<Rightarrow> EventRule \<Rightarrow> str list" where
  "regex_messages env rule = concat (map (regex_message env rule)
     [(''name_regex'', ma_name_regex (er_matcher rule)),
      (''group_regex'', ma_group_regex (er_matcher rule)),
      (''epg_title_regex'', ma_epg_title_regex (er_matcher rule))])"

definition date_messages :: "('t, 'd, 'c, 'n, 'z, 'r) RuleEnv \<Rightarrow> EventRule \<Rightarrow> DatePattern \<Rightarrow> str list" where
  "date_messages env rule pattern =
     (case rv_regex_new env (dp_regex pattern) of
        Inr regex \<Rightarrow>
          if lit ''datetime'' \<in> set (rv_capture_names env regex) \<or> rv_captures_len env regex \<ge> 2 then []
          else [lit ''event rule '' @ rv_debug env (er_name rule)
                 @ lit '' date regex must contain a named 'datetime' or positional capture'']
      | Inl error \<Rightarrow> [lit ''event rule '' @ rv_debug env (er_name rule)
            @ lit '' has invalid date regex: '' @ error])
     @ (case dp_timezone pattern of
          Some timezone \<Rightarrow>
            if rv_tz env timezone = None
            then [lit ''event rule '' @ rv_debug env (er_name rule) @ lit '' has unknown date timezone ''
                    @ rv_debug env timezone] else []
        | None \<Rightarrow> [])"

definition rule_messages ::
    "('t, 'd, 'c, 'n, 'z, 'r) RuleEnv \<Rightarrow> str set \<Rightarrow> nat set \<Rightarrow> EventRule \<Rightarrow> str list" where
  "rule_messages env seen_names seen_ids rule =
     name_messages env seen_names rule @ id_messages env seen_ids rule @ timezone_messages env rule
     @ regex_messages env rule @ concat (map (date_messages env rule) (er_date_patterns rule))"

definition check_rule ::
    "('t, 'd, 'c, 'n, 'z, 'r) RuleEnv \<Rightarrow> EventRule \<Rightarrow> EventRuleDocument \<times> str set \<times> nat set \<Rightarrow>
     EventRuleDocument \<times> str set \<times> nat set" where
  "check_rule env rule = (\<lambda>(document, seen_names, seen_ids).
     (let messages = rule_messages env seen_names seen_ids rule;
          document = fold (\<lambda>message document. event_rule_diagnostic document message) messages document;
          document = (if messages = []
            then document\<lparr>ed_rules := ed_rules document @ [rule], ed_stats := bump_emitted (ed_stats document)\<rparr>
            else document\<lparr>ed_stats := bump_skipped (ed_stats document)\<rparr>)
      in (document, if str_trim (er_name rule) = [] then seen_names else insert (er_name rule) seen_names,
          insert (er_id rule) seen_ids)))"

definition parse_event_rules ::
    "('t, 'd, 'c, 'n, 'z, 'r) RuleEnv \<Rightarrow> 'io Fill list \<Rightarrow> ParseLimits \<Rightarrow>
     'io ParseError + EventRuleDocument" where
  "parse_event_rules env reader limits =
     (case read_to_end (wrapping_add_u64 (pl_max_input_bytes limits) 1) reader of
        Inl e \<Rightarrow> Inl (Io e)
      | Inr bs \<Rightarrow>
          if length bs > pl_max_input_bytes limits then Inl (InputTooLarge (pl_max_input_bytes limits))
          else case long_line (pl_max_line_bytes limits) 0 (split_inclusive [] bs) of
              Some index \<Rightarrow> Inl (LineTooLong (saturating_add_u64 index 1) (pl_max_line_bytes limits))
            | None \<Rightarrow>
                (case rv_rules_from_json env bs of
                   Inl error \<Rightarrow> Inl (MalformedEventRules error)
                 | Inr rules \<Rightarrow>
                     if length rules > pl_max_records limits then Inl (TooManyRecords (pl_max_records limits))
                     else Inr (fst (fold (check_rule env) rules
                       (\<lparr>ed_rules = [], ed_diagnostics = [],
                         ed_stats = stats_default\<lparr>ps_bytes_read := length bs, ps_records_seen := length rules\<rparr>\<rparr>,
                        {}, {})))))"

section \<open>Compilation\<close>

record 'r CompiledRule =
  cr_rule :: EventRule
  cr_name :: "'r option"
  cr_group :: "'r option"
  cr_epg_title :: "'r option"
  cr_dates :: "('r \<times> DatePattern) list"

definition compile_optional ::
    "('t, 'd, 'c, 'n, 'z, 'r) RuleEnv \<Rightarrow> str option \<Rightarrow> 'io ParseError + 'r option" where
  "compile_optional env pattern =
     (case pattern of
        None \<Rightarrow> Inr None
      | Some p \<Rightarrow> map_sum MalformedEventRules Some (rv_regex_new env p))"

fun compile_dates ::
    "('t, 'd, 'c, 'n, 'z, 'r) RuleEnv \<Rightarrow> DatePattern list \<Rightarrow> 'io ParseError + ('r \<times> DatePattern) list" where
  "compile_dates env [] = Inr []"
| "compile_dates env (pattern # patterns) =
     (case rv_regex_new env (dp_regex pattern) of
        Inl error \<Rightarrow> Inl (MalformedEventRules error)
      | Inr regex \<Rightarrow> map_sum (\<lambda>e. e) (\<lambda>rest. (regex, pattern) # rest) (compile_dates env patterns))"

definition compile_rule ::
    "('t, 'd, 'c, 'n, 'z, 'r) RuleEnv \<Rightarrow> EventRule \<Rightarrow> 'io ParseError + 'r CompiledRule" where
  "compile_rule env rule =
     (case compile_optional env (ma_name_regex (er_matcher rule)) of
        Inl e \<Rightarrow> Inl e
      | Inr name \<Rightarrow>
     (case compile_optional env (ma_group_regex (er_matcher rule)) of
        Inl e \<Rightarrow> Inl e
      | Inr grp \<Rightarrow>
     (case compile_optional env (ma_epg_title_regex (er_matcher rule)) of
        Inl e \<Rightarrow> Inl e
      | Inr epg_title \<Rightarrow>
     (case compile_dates env (er_date_patterns rule) of
        Inl e \<Rightarrow> Inl e
      | Inr dates \<Rightarrow>
          Inr \<lparr>cr_rule = rule, cr_name = name, cr_group = grp, cr_epg_title = epg_title, cr_dates = dates\<rparr>))))"

fun compile_rules ::
    "('t, 'd, 'c, 'n, 'z, 'r) RuleEnv \<Rightarrow> EventRuleSet \<Rightarrow> 'io ParseError + 'r CompiledRule list" where
  "compile_rules env [] = Inr []"
| "compile_rules env (rule # rules) =
     (case compile_rule env rule of
        Inl e \<Rightarrow> Inl e
      | Inr compiled \<Rightarrow> map_sum (\<lambda>e. e) (\<lambda>rest. compiled # rest) (compile_rules env rules))"

section \<open>Dates and times\<close>

datatype EventDateError =
    UnknownTimezone str
  | InvalidDate str str
  | AmbiguousLocalTime str str
  | NonexistentLocalTime str str
  | InvalidTime str

definition local_instant :: "('t, 'd, 'c, 'n, 'z, 'r) RuleEnv \<Rightarrow> 'z \<Rightarrow> 'n \<Rightarrow> str \<Rightarrow> EventDateError + 't" where
  "local_instant env tz naive shown =
     (case rv_from_local env tz naive of
        Single v \<Rightarrow> Inr v
      | Ambiguous \<Rightarrow> Inl (AmbiguousLocalTime shown (rv_tz_name env tz))
      | NoLocal \<Rightarrow> Inl (NonexistentLocalTime shown (rv_tz_name env tz)))"

definition parse_event_local_datetime ::
    "('t, 'd, 'c, 'n, 'z, 'r) RuleEnv \<Rightarrow> str \<Rightarrow> str \<Rightarrow> str \<Rightarrow> EventDateError + 't" where
  "parse_event_local_datetime env v format timezone =
     (case rv_parse_datetime env v format of
        Some datetime \<Rightarrow> Inr datetime
      | None \<Rightarrow>
          (let naive = (case rv_parse_naive env v format of
                 Some naive \<Rightarrow> Some naive
               | None \<Rightarrow> map_option (rv_midnight env) (rv_parse_date env v format))
           in case naive of
                None \<Rightarrow> Inl (InvalidDate v format)
              | Some naive \<Rightarrow>
                  (case rv_tz env timezone of
                     None \<Rightarrow> Inl (UnknownTimezone timezone)
                   | Some tz \<Rightarrow> local_instant env tz naive v)))"

definition strip_suffix :: "str \<Rightarrow> str \<Rightarrow> str option" where
  "strip_suffix p s = map_option rev (strip_prefix (rev p) (rev s))"

definition clock_digits :: "str \<Rightarrow> str \<times> bool option" where
  "clock_digits normalized =
     (case strip_suffix (lit ''am'') normalized of
        Some rest \<Rightarrow> (rest, Some False)
      | None \<Rightarrow>
          (case strip_suffix (lit ''pm'') normalized of
             Some rest \<Rightarrow> (rest, Some True)
           | None \<Rightarrow> (normalized, None)))"

definition clock_hour :: "bool option \<Rightarrow> nat \<Rightarrow> nat option" where
  "clock_hour meridiem hour =
     (case meridiem of
        Some pm \<Rightarrow> if 1 \<le> hour \<and> hour \<le> 12 then Some (hour mod 12 + (if pm then 12 else 0)) else None
      | None \<Rightarrow> Some hour)"

definition parse_clock_time :: "('t, 'd, 'c, 'n, 'z, 'r) RuleEnv \<Rightarrow> str \<Rightarrow> EventDateError + 'c" where
  "parse_clock_time env v =
     (let (ds, meridiem) = clock_digits (squeeze v);
          parts = (case split_once 58 ds of
              Some parts \<Rightarrow> Some parts
            | None \<Rightarrow> if meridiem \<noteq> None then Some (ds, lit ''0'') else None)
      in case parts of
           None \<Rightarrow> Inl (InvalidTime v)
         | Some (hour, minute) \<Rightarrow>
             (case (parse_unsigned (2 ^ 32) hour, parse_unsigned (2 ^ 32) minute) of
                (Some hour, Some minute) \<Rightarrow>
                  (case Option.bind (clock_hour meridiem hour) (\<lambda>hour. rv_hms env hour minute) of
                     None \<Rightarrow> Inl (InvalidTime v)
                   | Some clock \<Rightarrow> Inr clock)
              | _ \<Rightarrow> Inl (InvalidTime v)))"

definition TIME_ONLY_LOOKBACK_HOURS :: int where
  "TIME_ONLY_LOOKBACK_HOURS = 12"

definition resolve_time_only_start ::
    "('t :: linorder, 'd, 'c, 'n, 'z, 'r) RuleEnv \<Rightarrow> str \<Rightarrow> 't \<Rightarrow> str \<Rightarrow> EventDateError + 't" where
  "resolve_time_only_start env time reference timezone =
     (case parse_clock_time env time of
        Inl e \<Rightarrow> Inl e
      | Inr clock \<Rightarrow>
     (case rv_tz env timezone of
        None \<Rightarrow> Inl (UnknownTimezone timezone)
      | Some tz \<Rightarrow>
          let date = rv_local_date env tz reference;
              resolve = (\<lambda>date. let naive = rv_and_time env date clock
                in local_instant env tz naive (rv_naive_string env naive))
          in case resolve date of
               Inl e \<Rightarrow> Inl e
             | Inr today \<Rightarrow>
                 if today < rv_minus_hours env reference TIME_ONLY_LOOKBACK_HOURS then
                   (case rv_succ env date of
                      None \<Rightarrow> Inl (InvalidDate (rv_date_string env date) (lit ''next local day''))
                    | Some tomorrow \<Rightarrow> resolve tomorrow)
                 else Inr today))"

definition MONTHS :: "str list" where
  "MONTHS = map lit [''january'', ''february'', ''march'', ''april'', ''may'', ''june'', ''july'',
     ''august'', ''september'', ''october'', ''november'', ''december'']"

definition month_position :: "str \<Rightarrow> nat option" where
  "month_position lowered =
     map_option (\<lambda>(i, _). i + 1)
       (find (\<lambda>(_, name). str_len lowered \<ge> 3 \<and> starts_with lowered name) (enumerate 0 MONTHS))"

text \<open>\<open>min_by_key\<close>: the first of the elements with the least key.\<close>

fun min_by_key :: "('a \<Rightarrow> 'k :: linorder) \<Rightarrow> 'a list \<Rightarrow> 'a option" where
  "min_by_key key [] = None"
| "min_by_key key (x # xs) =
     (case min_by_key key xs of
        None \<Rightarrow> Some x
      | Some y \<Rightarrow> if key x \<le> key y then Some x else Some y)"

definition resolve_spelled_date_start ::
    "('t, 'd, 'c, 'n, 'z, 'r) RuleEnv \<Rightarrow> str \<Rightarrow> str \<Rightarrow> str \<Rightarrow> 't \<Rightarrow> str \<Rightarrow> EventDateError + 't" where
  "resolve_spelled_date_start env month day time reference timezone =
     (let invalid = InvalidDate (month @ lit '' '' @ day) (lit ''month day time'') in
      case month_position (to_ascii_lowercase month) of
        None \<Rightarrow> Inl invalid
      | Some month_number \<Rightarrow>
     (case parse_unsigned (2 ^ 32) day of
        None \<Rightarrow> Inl invalid
      | Some day_number \<Rightarrow>
     (case parse_clock_time env time of
        Inl e \<Rightarrow> Inl e
      | Inr clock \<Rightarrow>
     (case rv_tz env timezone of
        None \<Rightarrow> Inl (UnknownTimezone timezone)
      | Some tz \<Rightarrow>
          let local_reference = rv_local_date env tz reference;
              dates = List.map_filter (\<lambda>offset. rv_ymd env (rv_year env local_reference + offset) month_number day_number)
                [-1, 0, 1]
          in case min_by_key (\<lambda>date. \<bar>rv_days env date local_reference\<bar>) dates of
               None \<Rightarrow> Inl invalid
             | Some date \<Rightarrow>
                 (let naive = rv_and_time env date clock
                  in local_instant env tz naive (rv_naive_string env naive))))))"

definition resolve_start ::
    "('t :: linorder, 'd, 'c, 'n, 'z, 'r) RuleEnv \<Rightarrow> 't MatchedEvent \<Rightarrow> 't \<Rightarrow> str \<Rightarrow> EventDateError + 't option" where
  "resolve_start env self reference timezone =
     (if mt_starts_at self \<noteq> None then Inr (mt_starts_at self)
      else case mt_captures self (lit ''time'') of
          None \<Rightarrow> Inr None
        | Some time \<Rightarrow>
            map_sum (\<lambda>e. e) Some
              (case (mt_captures self (lit ''month''), mt_captures self (lit ''day'')) of
                 (Some month, Some day) \<Rightarrow> resolve_spelled_date_start env month day time reference timezone
               | _ \<Rightarrow> resolve_time_only_start env time reference timezone))"

section \<open>Matching\<close>

record EventCandidate =
  ec_name :: str
  ec_group :: "str option"
  ec_epg_title :: "str option"
  ec_categories :: "str list"
  ec_metadata :: "str \<Rightarrow> str option"

definition optional_match :: "('t, 'd, 'c, 'n, 'z, 'r) RuleEnv \<Rightarrow> 'r option \<Rightarrow> str option \<Rightarrow> bool" where
  "optional_match env regex v \<longleftrightarrow>
     (case regex of None \<Rightarrow> True | Some regex \<Rightarrow> (case v of None \<Rightarrow> False | Some v \<Rightarrow> rv_is_match env regex v))"

definition matches_rule ::
    "('t, 'd, 'c, 'n, 'z, 'r) RuleEnv \<Rightarrow> 'r CompiledRule \<Rightarrow> EventCandidate \<Rightarrow> bool" where
  "matches_rule env compiled candidate \<longleftrightarrow>
     optional_match env (cr_name compiled) (Some (ec_name candidate))
     \<and> optional_match env (cr_group compiled) (ec_group candidate)
     \<and> optional_match env (cr_epg_title compiled) (ec_epg_title candidate)
     \<and> (let expected = ma_categories_any (er_matcher (cr_rule compiled)) in
         expected = [] \<or> list_ex (\<lambda>e. list_ex (\<lambda>actual. eq_ignore_ascii_case actual e) (ec_categories candidate)) expected)
     \<and> list_all (\<lambda>(key, expected). ec_metadata candidate key = Some expected)
         (ma_metadata (er_matcher (cr_rule compiled)))"

definition date_inputs :: "EventCandidate \<Rightarrow> str list" where
  "date_inputs candidate =
     ec_name candidate # (case ec_epg_title candidate of None \<Rightarrow> [] | Some title \<Rightarrow> [title])"

text \<open>One pass of the inner loop of \<open>parse_candidate_date\<close>; \<open>None\<close> is \<open>continue\<close>.\<close>

definition date_at ::
    "('t, 'd, 'c, 'n, 'z, 'r) RuleEnv \<Rightarrow> str \<Rightarrow> ('r \<times> DatePattern) \<times> str \<Rightarrow> (EventDateError + 't) option" where
  "date_at env rule_timezone = (\<lambda>((regex, definition_of), input).
     (case rv_captures env regex input of
        None \<Rightarrow> None
      | Some captures \<Rightarrow>
          (case (case cp_name captures (lit ''datetime'') of Some v \<Rightarrow> Some v | None \<Rightarrow> cp_get captures 1) of
             None \<Rightarrow> None
           | Some v \<Rightarrow>
               let timezone = (case dp_timezone definition_of of
                     Some timezone \<Rightarrow> timezone
                   | None \<Rightarrow> (case cp_name captures (lit ''timezone'') of
                         Some timezone \<Rightarrow> str_trim timezone
                       | None \<Rightarrow> rule_timezone))
               in Some (parse_event_local_datetime env (str_trim v) (dp_format definition_of) timezone))))"

definition parse_candidate_date ::
    "('t, 'd, 'c, 'n, 'z, 'r) RuleEnv \<Rightarrow> 'r CompiledRule \<Rightarrow> EventCandidate \<Rightarrow> EventDateError + 't option" where
  "parse_candidate_date env compiled candidate =
     (case find_map (date_at env (er_timezone (cr_rule compiled)))
          (List.product (cr_dates compiled) (date_inputs candidate)) of
        None \<Rightarrow> Inr None
      | Some result \<Rightarrow> map_sum (\<lambda>e. e) Some result)"

definition collect_regex_captures ::
    "('t, 'd, 'c, 'n, 'z, 'r) RuleEnv \<Rightarrow> 'r option \<Rightarrow> str \<Rightarrow> (str \<Rightarrow> str option) \<Rightarrow> (str \<Rightarrow> str option)" where
  "collect_regex_captures env regex input values =
     (case regex of
        None \<Rightarrow> values
      | Some regex \<Rightarrow>
          (case rv_captures env regex input of
             None \<Rightarrow> values
           | Some captures \<Rightarrow>
               fold (\<lambda>name values.
                   (case cp_name captures name of
                      None \<Rightarrow> values
                    | Some v \<Rightarrow> if values name = None
                        then values(name \<mapsto> str_join [32] (split_whitespace v)) else values))
                 (rv_capture_names env regex) values))"

definition collect_captures ::
    "('t, 'd, 'c, 'n, 'z, 'r) RuleEnv \<Rightarrow> 'r CompiledRule \<Rightarrow> EventCandidate \<Rightarrow> (str \<Rightarrow> str option)" where
  "collect_captures env compiled candidate =
     (let values = collect_regex_captures env (cr_name compiled) (ec_name candidate) (\<lambda>_. None);
          values = (case ec_group candidate of
              None \<Rightarrow> values
            | Some grp \<Rightarrow> collect_regex_captures env (cr_group compiled) grp values);
          values = (case ec_epg_title candidate of
              None \<Rightarrow> values
            | Some title \<Rightarrow> collect_regex_captures env (cr_epg_title compiled) title values);
          values = fold (\<lambda>((regex, _), input). collect_regex_captures env (Some regex) input)
            (List.product (cr_dates compiled) (date_inputs candidate)) values
      in case values (lit ''slot_b'') of
           None \<Rightarrow> values
         | Some slot \<Rightarrow>
             (let values = values(lit ''slot_b'' := None)
              in if values (lit ''slot'') = None then values(lit ''slot'' \<mapsto> slot) else values))"

definition apply_stop_capture ::
    "('t, 'd, 'c, 'n, 'z, 'r) RuleEnv \<Rightarrow> 'r CompiledRule \<Rightarrow> 't option \<Rightarrow> (str \<Rightarrow> str option) \<Rightarrow>
     EventDateError + (str \<Rightarrow> str option)" where
  "apply_stop_capture env compiled starts_at captures =
     (case (starts_at, captures (lit ''stop''), cr_dates compiled) of
        (Some start, Some stop, (_, pattern) # _) \<Rightarrow>
          (let timezone = (case dp_timezone pattern of
                 Some timezone \<Rightarrow> timezone | None \<Rightarrow> er_timezone (cr_rule compiled))
           in case parse_event_local_datetime env stop (dp_format pattern) timezone of
                Inl e \<Rightarrow> Inl e
              | Inr stop_at \<Rightarrow>
                  (let seconds = rv_seconds_between env stop_at start
                   in if seconds \<le> 0 then Inl (InvalidDate stop (lit ''stop after start''))
                      else Inr (captures(lit ''duration_seconds'' \<mapsto> decimal (nat seconds)))))
      | _ \<Rightarrow> Inr captures)"

fun first_match ::
    "('t, 'd, 'c, 'n, 'z, 'r) RuleEnv \<Rightarrow> 'r CompiledRule list \<Rightarrow> EventCandidate \<Rightarrow>
     EventDateError + 't MatchedEvent option" where
  "first_match env [] candidate = Inr None"
| "first_match env (compiled # rules) candidate =
     (if \<not> er_enabled (cr_rule compiled) \<or> \<not> matches_rule env compiled candidate
      then first_match env rules candidate
      else case parse_candidate_date env compiled candidate of
          Inl e \<Rightarrow> Inl e
        | Inr starts_at \<Rightarrow>
            (case apply_stop_capture env compiled starts_at (collect_captures env compiled candidate) of
               Inl e \<Rightarrow> Inl e
             | Inr captures \<Rightarrow>
                 Inr (Some \<lparr>mt_rule = cr_rule compiled, mt_starts_at = starts_at, mt_captures = captures\<rparr>)))"

section \<open>Valid rules compile\<close>

definition regex_ok :: "('t, 'd, 'c, 'n, 'z, 'r) RuleEnv \<Rightarrow> str \<Rightarrow> bool" where
  "regex_ok env p \<longleftrightarrow> (\<exists>r. rv_regex_new env p = Inr r)"

definition rule_ok :: "('t, 'd, 'c, 'n, 'z, 'r) RuleEnv \<Rightarrow> EventRule \<Rightarrow> bool" where
  "rule_ok env rule \<longleftrightarrow>
     str_trim (er_name rule) \<noteq> [] \<and> rv_tz env (er_timezone rule) \<noteq> None \<and>
     (\<forall>p \<in> set_option (ma_name_regex (er_matcher rule)). regex_ok env p) \<and>
     (\<forall>p \<in> set_option (ma_group_regex (er_matcher rule)). regex_ok env p) \<and>
     (\<forall>p \<in> set_option (ma_epg_title_regex (er_matcher rule)). regex_ok env p) \<and>
     (\<forall>d \<in> set (er_date_patterns rule). regex_ok env (dp_regex d) \<and>
        (\<forall>z \<in> set_option (dp_timezone d). rv_tz env z \<noteq> None))"

lemma rule_messages_empty:
  assumes "rule_messages env names ids rule = []"
  shows "rule_ok env rule" "er_name rule \<notin> names" "er_id rule \<notin> ids"
proof -
  have d: "date_messages env rule p = [] \<Longrightarrow> regex_ok env (dp_regex p) \<and> (\<forall>z \<in> set_option (dp_timezone p). rv_tz env z \<noteq> None)" for p
    by (auto simp: date_messages_def regex_ok_def split: sum.splits option.splits if_splits)
  have r: "regex_message env rule (f, p) = [] \<Longrightarrow> \<forall>q \<in> set_option p. regex_ok env q" for f p
    by (auto simp: regex_message_def regex_ok_def split: sum.splits option.splits)
  have "\<forall>p \<in> set (er_date_patterns rule). date_messages env rule p = []"
    using assms by (simp add: rule_messages_def)
  with d have dates: "\<forall>d \<in> set (er_date_patterns rule). regex_ok env (dp_regex d) \<and> (\<forall>z \<in> set_option (dp_timezone d). rv_tz env z \<noteq> None)" by blast
  have names: "str_trim (er_name rule) \<noteq> []" "er_name rule \<notin> names" "er_id rule \<notin> ids" "rv_tz env (er_timezone rule) \<noteq> None"
    using assms by (auto simp: rule_messages_def name_messages_def id_messages_def timezone_messages_def split: if_splits)
  have "regex_messages env rule = []" using assms by (simp add: rule_messages_def)
  then have "\<forall>q \<in> set_option (ma_name_regex (er_matcher rule)). regex_ok env q"
    "\<forall>q \<in> set_option (ma_group_regex (er_matcher rule)). regex_ok env q"
    "\<forall>q \<in> set_option (ma_epg_title_regex (er_matcher rule)). regex_ok env q"
    using r by (auto simp: regex_messages_def)
  with dates names show "rule_ok env rule" "er_name rule \<notin> names" "er_id rule \<notin> ids"
    by (simp_all add: rule_ok_def)
qed

lemma compile_optional_ok:
  assumes "\<forall>p \<in> set_option pattern. regex_ok env p"
  shows "\<exists>r. compile_optional env pattern = Inr r"
  using assms by (cases pattern) (auto simp: compile_optional_def regex_ok_def)

lemma compile_dates_ok:
  assumes "\<forall>d \<in> set patterns. regex_ok env (dp_regex d)"
  shows "\<exists>rs. compile_dates env patterns = Inr rs"
  using assms by (induction patterns) (auto simp: regex_ok_def)

lemma compile_rule_ok:
  assumes "rule_ok env rule"
  shows "\<exists>c. compile_rule env rule = (Inr c :: 'io ParseError + _) \<and> cr_rule c = rule"
proof -
  obtain a where a: "compile_optional env (ma_name_regex (er_matcher rule)) = (Inr a :: 'io ParseError + _)"
    using assms compile_optional_ok unfolding rule_ok_def by metis
  obtain b where b: "compile_optional env (ma_group_regex (er_matcher rule)) = (Inr b :: 'io ParseError + _)"
    using assms compile_optional_ok unfolding rule_ok_def by metis
  obtain c where c: "compile_optional env (ma_epg_title_regex (er_matcher rule)) = (Inr c :: 'io ParseError + _)"
    using assms compile_optional_ok unfolding rule_ok_def by metis
  obtain d where d: "compile_dates env (er_date_patterns rule) = (Inr d :: 'io ParseError + _)"
    using assms compile_dates_ok unfolding rule_ok_def by metis
  from a b c d show ?thesis by (simp add: compile_rule_def)
qed

lemma compile_rules_ok:
  assumes "\<forall>rule \<in> set rules. rule_ok env rule"
  shows "\<exists>cs. compile_rules env rules = (Inr cs :: 'io ParseError + _) \<and> map cr_rule cs = rules"
  using assms
proof (induction rules)
  case (Cons rule rules)
  obtain c where "compile_rule env rule = (Inr c :: 'io ParseError + _)" "cr_rule c = rule"
    using compile_rule_ok [of env rule] Cons.prems by auto
  moreover obtain cs where "compile_rules env rules = (Inr cs :: 'io ParseError + _)" "map cr_rule cs = rules"
    using Cons by auto
  ultimately show ?case by simp
qed simp

section \<open>The document\<close>

lemma diagnostics_fields [simp]:
  "ed_rules (event_rule_diagnostic d m) = ed_rules d"
  "ps_records_emitted (ed_stats (event_rule_diagnostic d m)) = ps_records_emitted (ed_stats d)"
  "ps_records_skipped (ed_stats (event_rule_diagnostic d m)) = ps_records_skipped (ed_stats d)"
  "ps_records_seen (ed_stats (event_rule_diagnostic d m)) = ps_records_seen (ed_stats d)"
  by (simp_all add: event_rule_diagnostic_def Let_def stats_observe_def dg_error_def)

lemma diagnostics_fold [simp]:
  "ed_rules (fold (\<lambda>m d. event_rule_diagnostic d m) ms d) = ed_rules d"
  "ps_records_emitted (ed_stats (fold (\<lambda>m d. event_rule_diagnostic d m) ms d)) = ps_records_emitted (ed_stats d)"
  "ps_records_skipped (ed_stats (fold (\<lambda>m d. event_rule_diagnostic d m) ms d)) = ps_records_skipped (ed_stats d)"
  "ps_records_seen (ed_stats (fold (\<lambda>m d. event_rule_diagnostic d m) ms d)) = ps_records_seen (ed_stats d)"
  by (induction ms arbitrary: d) simp_all

definition rules_inv :: "('t, 'd, 'c, 'n, 'z, 'r) RuleEnv \<Rightarrow> nat \<Rightarrow> EventRuleDocument \<times> str set \<times> nat set \<Rightarrow> bool" where
  "rules_inv env n = (\<lambda>(d, names, ids).
     (\<forall>rule \<in> set (ed_rules d). rule_ok env rule \<and> er_name rule \<in> names \<and> er_id rule \<in> ids) \<and>
     distinct (map er_name (ed_rules d)) \<and> distinct (map er_id (ed_rules d)) \<and>
     ps_records_emitted (ed_stats d) = length (ed_rules d) \<and>
     ps_records_emitted (ed_stats d) + ps_records_skipped (ed_stats d) = n)"

lemma rules_inv_step:
  assumes "rules_inv env n s" "n + 1 < u64_bound"
  shows "rules_inv env (n + 1) (check_rule env rule s)"
    "ps_records_seen (ed_stats (fst (check_rule env rule s))) = ps_records_seen (ed_stats (fst s))"
proof -
  obtain d names ids where s: "s = (d, names, ids)" by (metis prod_cases3)
  have bounds: "ps_records_emitted (ed_stats d) + 1 < u64_bound" "ps_records_skipped (ed_stats d) + 1 < u64_bound"
    using assms by (auto simp: rules_inv_def s)
  show "ps_records_seen (ed_stats (fst (check_rule env rule s))) = ps_records_seen (ed_stats (fst s))"
    by (simp add: s check_rule_def Let_def bump_emitted_def bump_skipped_def)
  show "rules_inv env (n + 1) (check_rule env rule s)"
  proof (cases "rule_messages env names ids rule = []")
    case True
    note ok = rule_messages_empty [OF True]
    have "str_trim (er_name rule) \<noteq> []" using ok(1) by (simp add: rule_ok_def)
    with True ok assms(1) bounds show ?thesis
      by (auto simp: s check_rule_def Let_def rules_inv_def bump_emitted_def wrapping_add_u64_def)
  next
    case False
    with assms(1) bounds show ?thesis
      by (auto simp: s check_rule_def Let_def rules_inv_def bump_skipped_def wrapping_add_u64_def)
  qed
qed

lemma rules_inv_fold:
  assumes "rules_inv env n s" "n + length rules < u64_bound"
  shows "rules_inv env (n + length rules) (fold (check_rule env) rules s) \<and>
    ps_records_seen (ed_stats (fst (fold (check_rule env) rules s))) = ps_records_seen (ed_stats (fst s))"
  using assms
proof (induction rules arbitrary: n s)
  case (Cons rule rules)
  then show ?case using rules_inv_step [of env n s rule] Cons.IH [of "n + 1" "check_rule env rule s"] by simp
qed simp


section \<open>A sample environment\<close>

text \<open>Days of 24 hours, one time zone, and expressions that are matched literally.\<close>

definition sample_rule_env :: "(int, int, int, int, unit, str) RuleEnv" where
  "sample_rule_env = \<lparr>rv_regex_new = Inr, rv_is_match = (\<lambda>r s. r = s),
     rv_captures = (\<lambda>r s. if r = s then Some \<lparr>cp_name = (\<lambda>_. None), cp_get = (\<lambda>_. None)\<rparr> else None),
     rv_capture_names = (\<lambda>_. [lit ''datetime'']), rv_captures_len = (\<lambda>_. 1), rv_tz = (\<lambda>_. Some ()),
     rv_tz_name = (\<lambda>_. lit ''UTC''), rv_debug = (\<lambda>s. s), rv_id = decimal,
     rv_rules_from_json = (\<lambda>_. Inr [explicit_rule, explicit_rule]), rv_parse_datetime = (\<lambda>_ _. None),
     rv_parse_naive = (\<lambda>_ _. None), rv_parse_date = (\<lambda>_ _. None), rv_midnight = (\<lambda>d. 86400 * d),
     rv_hms = (\<lambda>h m. if h < 24 \<and> m < 60 then Some (int (3600 * h + 60 * m)) else None),
     rv_and_time = (\<lambda>d c. 86400 * d + c), rv_from_local = (\<lambda>_ n. Single n), rv_local_date = (\<lambda>_ t. t div 86400),
     rv_minus_hours = (\<lambda>t h. t - 3600 * h), rv_seconds_between = (\<lambda>a b. a - b), rv_succ = (\<lambda>d. Some (d + 1)),
     rv_ymd = (\<lambda>_ _ _. None), rv_year = (\<lambda>_. 0), rv_days = (\<lambda>a b. a - b), rv_naive_string = (\<lambda>_. []),
     rv_date_string = (\<lambda>_. [])\<rparr>"


text \<open>
  A candidate is given to the first enabled rule that matches it, in the order of declaration: the
  rules before that one are disabled or do not match, and no match is reported exactly when every rule
  is disabled or does not match.\<close>

theorem first_match_is_the_first:
  "(case first_match env rules candidate of
      Inr None \<Rightarrow> list_all (\<lambda>c. \<not> (er_enabled (cr_rule c) \<and> matches_rule env c candidate)) rules
    | Inr (Some matched) \<Rightarrow> (\<exists>before c after. rules = before @ c # after \<and> mt_rule matched = cr_rule c \<and>
        er_enabled (cr_rule c) \<and> matches_rule env c candidate \<and>
        list_all (\<lambda>c. \<not> (er_enabled (cr_rule c) \<and> matches_rule env c candidate)) before)
    | Inl _ \<Rightarrow> list_ex (\<lambda>c. er_enabled (cr_rule c) \<and> matches_rule env c candidate) rules)"
proof (induction rules)
  case (Cons c rules)
  show ?case
  proof (cases "er_enabled (cr_rule c) \<and> matches_rule env c candidate")
    case True
    have "\<exists>before d after. c # rules = before @ d # after \<and> cr_rule c = cr_rule d \<and>
        er_enabled (cr_rule d) \<and> matches_rule env d candidate \<and>
        list_all (\<lambda>c. \<not> (er_enabled (cr_rule c) \<and> matches_rule env c candidate)) before"
      by (rule exI [of _ "[]"]) (use True in auto)
    with True show ?thesis by (auto split: sum.splits option.splits)
  next
    case False
    then have eq: "first_match env (c # rules) candidate = first_match env rules candidate" by auto
    have "\<exists>before d after. c # rules = before @ d # after \<and> r = cr_rule d \<and>
        er_enabled (cr_rule d) \<and> matches_rule env d candidate \<and>
        list_all (\<lambda>c. \<not> (er_enabled (cr_rule c) \<and> matches_rule env c candidate)) before"
      if "\<exists>before d after. rules = before @ d # after \<and> r = cr_rule d \<and>
        er_enabled (cr_rule d) \<and> matches_rule env d candidate \<and>
        list_all (\<lambda>c. \<not> (er_enabled (cr_rule c) \<and> matches_rule env c candidate)) before" for r
    proof -
      from that obtain before d after where b: "rules = before @ d # after" "r = cr_rule d"
        "er_enabled (cr_rule d)" "matches_rule env d candidate"
        "list_all (\<lambda>c. \<not> (er_enabled (cr_rule c) \<and> matches_rule env c candidate)) before" by blast
      show ?thesis by (rule exI [of _ "c # before"]) (use b False in auto)
    qed
    with Cons.IH False show ?thesis unfolding eq by (simp split: sum.splits option.splits)
  qed
qed simp

text \<open>
  What the library promises of local days: they are at most 26 hours long, the same clock time on
  consecutive days is 22 to 26 hours apart, and an hour is 3600 seconds.\<close>

definition day_laws :: "(int, 'd, 'c, 'n, 'z, 'r) RuleEnv \<Rightarrow> bool" where
  "day_laws env \<longleftrightarrow>
     (\<forall>t h. rv_minus_hours env t h = t - 3600 * h) \<and>
     (\<forall>tz r h m c t. rv_hms env h m = Some c \<longrightarrow>
        rv_from_local env tz (rv_and_time env (rv_local_date env tz r) c) = Single t \<longrightarrow>
        r - 26 * 3600 < t \<and> t < r + 26 * 3600) \<and>
     (\<forall>tz d d' c t t'. rv_succ env d = Some d' \<longrightarrow> rv_from_local env tz (rv_and_time env d c) = Single t \<longrightarrow>
        rv_from_local env tz (rv_and_time env d' c) = Single t' \<longrightarrow> t + 22 * 3600 \<le> t' \<and> t' \<le> t + 26 * 3600)"

lemma local_instant_Inr: "local_instant env tz n s = Inr t \<longleftrightarrow> rv_from_local env tz n = Single t"
  by (auto simp: local_instant_def split: LocalResult.splits)

text \<open>
  A time without a date is resolved near the reference: the start is never more than 12 hours in the
  past, and less than 26 hours in the future.\<close>

theorem time_only_start_is_near:
  assumes "day_laws env" "resolve_time_only_start env time reference timezone = Inr start"
  shows "reference - 12 * 3600 \<le> start \<and> start < reference + 26 * 3600"
proof -
  obtain clock tz today where c: "parse_clock_time env time = Inr clock" "rv_tz env timezone = Some tz"
    "rv_from_local env tz (rv_and_time env (rv_local_date env tz reference) clock) = Single today"
    and res: "if today < rv_minus_hours env reference TIME_ONLY_LOOKBACK_HOURS
      then \<exists>d. rv_succ env (rv_local_date env tz reference) = Some d \<and>
        rv_from_local env tz (rv_and_time env d clock) = Single start
      else start = today"
    using assms(2) by (auto simp: resolve_time_only_start_def Let_def local_instant_Inr split: sum.splits option.splits if_splits)
  obtain h m where hm: "rv_hms env h m = Some clock"
    using c(1) by (auto simp: parse_clock_time_def Let_def bind_eq_Some_conv split: prod.splits option.splits if_splits)
  have near: "reference - 26 * 3600 < today" "today < reference + 26 * 3600"
    using assms(1) c(3) hm unfolding day_laws_def by blast+
  have late: "rv_minus_hours env reference TIME_ONLY_LOOKBACK_HOURS = reference - 12 * 3600"
    using assms(1) by (simp add: day_laws_def TIME_ONLY_LOOKBACK_HOURS_def)
  show ?thesis
  proof (cases "today < reference - 12 * 3600")
    case True
    with res late obtain d where "rv_succ env (rv_local_date env tz reference) = Some d"
      "rv_from_local env tz (rv_and_time env d clock) = Single start" by auto
    with assms(1) c(3) have "today + 22 * 3600 \<le> start" "start \<le> today + 26 * 3600"
      unfolding day_laws_def by blast+
    with True near show ?thesis by simp
  next
    case False
    with res late near show ?thesis by simp
  qed
qed

lemma sample_day_laws: "day_laws sample_rule_env"
  by (auto simp: day_laws_def sample_rule_env_def)


lemma sample_clock_time: "parse_clock_time sample_rule_env (lit ''7:30pm'') = Inr 70200"
proof -
  have "squeeze (lit ''7:30pm'') = lit ''7:30pm''"
    by (rule squeeze_plain) (simp add: is_whitespace_def ascii_lower_def)
  moreover have "clock_digits (lit ''7:30pm'') = (lit ''7:30'', Some True)"
    by (simp add: clock_digits_def strip_suffix_def strip_prefix_def)
  moreover have "split_once 58 (lit ''7:30'') = Some (lit ''7'', lit ''30'')" by (simp add: split_once_def)
  moreover have "parse_unsigned (2 ^ 32) (lit ''7'') = Some 7" "parse_unsigned (2 ^ 32) (lit ''30'') = Some 30"
    by (simp_all add: parse_unsigned_def is_ascii_digit_def num_def)
  ultimately show ?thesis
    unfolding parse_clock_time_def by (simp add: clock_hour_def sample_rule_env_def del: lit_simps)
qed

theorem time_only_start_is_near_witness:
  "\<exists>start. resolve_time_only_start sample_rule_env (lit ''7:30pm'') 864000 [] = Inr start \<and>
     864000 - 12 * 3600 \<le> start \<and> start < 864000 + 26 * 3600"
proof -
  have "resolve_time_only_start sample_rule_env (lit ''7:30pm'') 864000 [] = Inr 934200"
    unfolding resolve_time_only_start_def sample_clock_time
    by (simp add: sample_rule_env_def local_instant_def TIME_ONLY_LOOKBACK_HOURS_def del: lit_simps)
  with time_only_start_is_near [OF sample_day_laws this] show ?thesis by blast
qed

end
