(* ===== verification/Auth.thy ===== *)
theory Auth
  imports Unicode
begin

text \<open>
  Operator authentication (\<open>crates/api/src/auth.rs\<close>) and the handlers of \<open>crates/api/src/lib.rs\<close>
  that guard requests with it.

  The state is that of \<open>AuthInner\<close>.  An operation holds one of the three tables at a time and reads or
  writes each of them once, so it is a function of the state; the sign-in of \<open>verify_login\<close> and
  \<open>complete_login\<close> is two operations, between which others run.  The clock readings, the random tokens (\<open>None\<close> where \<open>getrandom\<close> fails) and
  the outcome of the blocking task are arguments.  SHA-256 and the verification of Argon2 are the fields
  of \<open>AuthEnv\<close>.  A header map is the list of its fields with lower-case names, a value being
  \<open>None\<close> where \<open>to_str\<close> fails.  The table of login tokens is a list in the iteration order of
  the hash map, which the code looks at only to find an oldest entry.
\<close>

unbundle bit_operations_syntax

section \<open>Constants and data\<close>

definition SESSION_COOKIE :: str where
  "SESSION_COOKIE = lit ''iptv_session''"

definition CSRF_COOKIE :: str where
  "CSRF_COOKIE = lit ''iptv_csrf''"

definition CSRF_HEADER :: str where
  "CSRF_HEADER = lit ''x-csrf-token''"

definition SESSION_TTL :: duration where
  "SESSION_TTL = 12 * 3600 * 10 ^ 9"

definition LOGIN_CSRF_TTL :: duration where
  "LOGIN_CSRF_TTL = 30 * 60 * 10 ^ 9"

definition MAX_LOGIN_CSRF_TOKENS :: usize where
  "MAX_LOGIN_CSRF_TOKENS = 4096"

definition ADMIN_USERNAME :: str where
  "ADMIN_USERNAME = lit ''operator''"

definition OPERATOR_TOKEN_READ_SCOPE :: str where
  "OPERATOR_TOKEN_READ_SCOPE = lit ''read''"

definition OPERATOR_TOKEN_CONTROL_SCOPE :: str where
  "OPERATOR_TOKEN_CONTROL_SCOPE = lit ''control''"

definition OPERATOR_TOKEN_OUTPUT_SCOPE :: str where
  "OPERATOR_TOKEN_OUTPUT_SCOPE = lit ''output''"

definition OPERATOR_TOKEN_ADMIN_SCOPE :: str where
  "OPERATOR_TOKEN_ADMIN_SCOPE = lit ''admin''"

record AuthEnv =
  ae_digest :: "str \<Rightarrow> bytes"
  ae_verify :: "str \<Rightarrow> str \<Rightarrow> bool"

record SessionUser =
  su_id :: str
  su_username :: str
  su_display_name :: str
  su_scopes :: "str list"

definition built_in_operator :: SessionUser where
  "built_in_operator = \<lparr>su_id = lit ''operator-1'', su_username = ADMIN_USERNAME,
     su_display_name = lit ''Relay operator'', su_scopes = [OPERATOR_TOKEN_ADMIN_SCOPE]\<rparr>"

record SessionRecord =
  sr_csrf_hash :: bytes
  sr_expires_at :: instant
  sr_user :: SessionUser

record StoredUserCredential =
  sc_user :: SessionUser
  sc_password_hash :: str

definition role_scopes :: "str \<Rightarrow> str list option" where
  "role_scopes role =
     (if role = lit ''admin'' then Some [OPERATOR_TOKEN_ADMIN_SCOPE]
      else if role = lit ''operator'' then Some [OPERATOR_TOKEN_CONTROL_SCOPE, OPERATOR_TOKEN_OUTPUT_SCOPE]
      else if role = lit ''viewer'' then Some [OPERATOR_TOKEN_READ_SCOPE, OPERATOR_TOKEN_OUTPUT_SCOPE]
      else None)"

record IssuedSession =
  is_session_cookie :: str
  is_csrf_cookie :: str

datatype Authorization = Bearer | Session | OperatorToken | Development

record OperatorTokenRecord =
  ot_id :: nat
  ot_token_hash :: bytes
  ot_scopes :: "str list"
  ot_expires_at :: "int option"

datatype CsrfBinding = LoginToken bytes | SessionToken bytes

record VerifiedLogin =
  vl_csrf_binding :: CsrfBinding
  vl_user :: SessionUser

datatype LoginError = CsrfValidationFailed | InvalidCredentials | Unavailable

record AuthInner =
  ai_password_hash :: str
  ai_bearer_hash :: bytes
  ai_bootstrap_bearer_enabled :: bool
  ai_secure_cookies :: bool
  ai_sessions :: "bytes \<Rightarrow> SessionRecord option"
  ai_login_csrf_tokens :: "(bytes \<times> instant) list"
  ai_operator_tokens :: "bytes \<Rightarrow> OperatorTokenRecord option"
  ai_oidc :: bool
  ai_dev_auth_disabled :: bool

definition auth_new :: "AuthEnv \<Rightarrow> str \<Rightarrow> str \<Rightarrow> bool \<Rightarrow> bool \<Rightarrow> bool \<Rightarrow> AuthInner" where
  "auth_new env password_hash bearer_token secure_cookies oidc_config dev_auth_disabled =
     \<lparr>ai_password_hash = password_hash, ai_bearer_hash = ae_digest env bearer_token,
      ai_bootstrap_bearer_enabled = True, ai_secure_cookies = secure_cookies,
      ai_sessions = (\<lambda>_. None), ai_login_csrf_tokens = [], ai_operator_tokens = (\<lambda>_. None),
      ai_oidc = oidc_config, ai_dev_auth_disabled = dev_auth_disabled\<rparr>"

section \<open>Helpers\<close>

type_synonym HeaderMap = "(str \<times> str option) list"

text \<open>\<open>headers.get(name).and_then(|value| value.to_str().ok())\<close>\<close>

definition header_str :: "HeaderMap \<Rightarrow> str \<Rightarrow> str option" where
  "header_str headers name = Option.bind (map_of headers name) (\<lambda>v. v)"

fun split_on :: "uchar \<Rightarrow> str \<Rightarrow> str \<Rightarrow> str list" where
  "split_on c part [] = [part]"
| "split_on c part (x # s) = (if x = c then part # split_on c [] s else split_on c (part @ [x]) s)"

definition cookie_pairs :: "HeaderMap \<Rightarrow> (str \<times> str) list" where
  "cookie_pairs headers =
     List.map_filter (\<lambda>pair. split_once 61 (str_trim pair))
       (concat (map (split_on 59 [])
         (List.map_filter (\<lambda>(name, v). if name = lit ''cookie'' then v else None) headers)))"

definition cookie :: "HeaderMap \<Rightarrow> str \<Rightarrow> str option" where
  "cookie headers name = map_of (cookie_pairs headers) name"

definition bearer_token :: "HeaderMap \<Rightarrow> str option" where
  "bearer_token headers = Option.bind (header_str headers (lit ''authorization'')) (strip_prefix (lit ''Bearer ''))"

definition constant_time_eq :: "bytes \<Rightarrow> bytes \<Rightarrow> bool" where
  "constant_time_eq left right \<longleftrightarrow> fold (\<lambda>(a, b) difference. difference OR (a XOR b)) (zip left right) 0 = 0"

definition scope_satisfied :: "str list \<Rightarrow> str \<Rightarrow> bool" where
  "scope_satisfied scopes required \<longleftrightarrow>
     list_ex (\<lambda>scope. scope = OPERATOR_TOKEN_ADMIN_SCOPE \<or> scope = required
       \<or> required = OPERATOR_TOKEN_READ_SCOPE \<and> scope = OPERATOR_TOKEN_CONTROL_SCOPE) scopes"

definition scope_ok :: "str list \<Rightarrow> str option \<Rightarrow> bool" where
  "scope_ok scopes required \<longleftrightarrow> (case required of None \<Rightarrow> True | Some scope \<Rightarrow> scope_satisfied scopes scope)"

definition secure_attribute :: "AuthInner \<Rightarrow> str" where
  "secure_attribute self = (if ai_secure_cookies self then lit ''; Secure'' else [])"

definition session_cookie :: "AuthInner \<Rightarrow> str \<Rightarrow> str" where
  "session_cookie self token =
     SESSION_COOKIE @ [61] @ token @ lit ''; Path=/; HttpOnly; SameSite=Strict; Max-Age=''
       @ decimal (SESSION_TTL div 10 ^ 9) @ secure_attribute self"

definition csrf_cookie :: "AuthInner \<Rightarrow> str \<Rightarrow> duration \<Rightarrow> str" where
  "csrf_cookie self token ttl =
     CSRF_COOKIE @ [61] @ token @ lit ''; Path=/; SameSite=Strict; Max-Age=''
       @ decimal (ttl div 10 ^ 9) @ secure_attribute self"

definition clear_cookies :: "AuthInner \<Rightarrow> str list" where
  "clear_cookies self =
     [SESSION_COOKIE @ lit ''=; Path=/; HttpOnly; SameSite=Strict; Max-Age=0'' @ secure_attribute self,
      CSRF_COOKIE @ lit ''=; Path=/; SameSite=Strict; Max-Age=0'' @ secure_attribute self]"

text \<open>\<open>sessions.retain(|_, session| session.expires_at > now)\<close> and the same for the other tables.\<close>

definition retain_sessions :: "instant \<Rightarrow> AuthInner \<Rightarrow> AuthInner" where
  "retain_sessions now self = self\<lparr>ai_sessions := (\<lambda>h. case ai_sessions self h of
      None \<Rightarrow> None | Some session \<Rightarrow> if sr_expires_at session > now then Some session else None)\<rparr>"

definition retain_login_tokens :: "instant \<Rightarrow> AuthInner \<Rightarrow> AuthInner" where
  "retain_login_tokens now self =
     self\<lparr>ai_login_csrf_tokens := filter (\<lambda>(_, expires_at). expires_at > now) (ai_login_csrf_tokens self)\<rparr>"

definition retain_operator_tokens :: "int \<Rightarrow> AuthInner \<Rightarrow> AuthInner" where
  "retain_operator_tokens now self = self\<lparr>ai_operator_tokens := (\<lambda>h. case ai_operator_tokens self h of
      None \<Rightarrow> None
    | Some token \<Rightarrow> (case ot_expires_at token of
          None \<Rightarrow> Some token
        | Some expires_at \<Rightarrow> if expires_at > now then Some token else None))\<rparr>"

definition remove_key :: "'k \<Rightarrow> ('k \<times> 'v) list \<Rightarrow> ('k \<times> 'v) list" where
  "remove_key k table = filter (\<lambda>(k', _). k' \<noteq> k) table"

definition insert_key :: "'k \<Rightarrow> 'v \<Rightarrow> ('k \<times> 'v) list \<Rightarrow> ('k \<times> 'v) list" where
  "insert_key k v table = (k, v) # remove_key k table"

text \<open>The eviction of an oldest entry from a full table.\<close>

definition evict_oldest :: "usize \<Rightarrow> ('v \<Rightarrow> instant) \<Rightarrow> ('k \<times> 'v) list \<Rightarrow> ('k \<times> 'v) list" where
  "evict_oldest limit expiry table =
     (if length table \<ge> limit then
        (case table of
           [] \<Rightarrow> []
         | _ \<Rightarrow> remove_key (fst (arg_min_list (\<lambda>(_, v). expiry v) table)) table)
      else table)"

section \<open>Sign-in\<close>

definition ensure_csrf_cookie ::
    "AuthEnv \<Rightarrow> HeaderMap \<Rightarrow> instant \<Rightarrow> str option \<Rightarrow> AuthInner \<Rightarrow> AuthInner \<times> str option" where
  "ensure_csrf_cookie env headers now random self =
     (let cookie_csrf = cookie headers CSRF_COOKIE;
          self = retain_sessions now self;
          found = Option.bind (cookie headers SESSION_COOKIE)
            (\<lambda>token. map_option (\<lambda>session. (ae_digest env token, session)) (ai_sessions self (ae_digest env token)))
      in case found of
           Some (key, session) \<Rightarrow>
             if (case cookie_csrf of None \<Rightarrow> False | Some v \<Rightarrow> constant_time_eq (ae_digest env v) (sr_csrf_hash session))
             then (self, None)
             else (case random of
                 None \<Rightarrow> (self, None)
               | Some csrf_token \<Rightarrow>
                   (self\<lparr>ai_sessions := (ai_sessions self)(key \<mapsto> session\<lparr>sr_csrf_hash := ae_digest env csrf_token\<rparr>)\<rparr>,
                    Some (csrf_cookie self csrf_token SESSION_TTL)))
         | None \<Rightarrow>
             (let self = retain_login_tokens now self
              in if (case cookie_csrf of None \<Rightarrow> False
                     | Some v \<Rightarrow> map_of (ai_login_csrf_tokens self) (ae_digest env v) \<noteq> None)
                 then (self, None)
                 else let self = self\<lparr>ai_login_csrf_tokens :=
                          evict_oldest MAX_LOGIN_CSRF_TOKENS (\<lambda>t. t) (ai_login_csrf_tokens self)\<rparr>
                   in case random of
                        None \<Rightarrow> (self, None)
                      | Some csrf_token \<Rightarrow>
                          (self\<lparr>ai_login_csrf_tokens := insert_key (ae_digest env csrf_token) (now + LOGIN_CSRF_TTL)
                             (ai_login_csrf_tokens self)\<rparr>,
                           Some (csrf_cookie self csrf_token LOGIN_CSRF_TTL))))"

definition csrf_binding ::
    "AuthEnv \<Rightarrow> HeaderMap \<Rightarrow> instant \<Rightarrow> AuthInner \<Rightarrow> AuthInner \<times> CsrfBinding option" where
  "csrf_binding env headers now self =
     (case (cookie headers CSRF_COOKIE, header_str headers CSRF_HEADER) of
        (Some cookie_token, Some header_token) \<Rightarrow>
          (let csrf_hash = ae_digest env header_token in
           if \<not> constant_time_eq csrf_hash (ae_digest env cookie_token) then (self, None)
           else
             let self = retain_sessions now self;
                 found = Option.bind (cookie headers SESSION_COOKIE)
                   (\<lambda>token. map_option (\<lambda>session. (ae_digest env token, session)) (ai_sessions self (ae_digest env token)))
             in case found of
                  Some (session_hash, session) \<Rightarrow>
                    (self, if constant_time_eq csrf_hash (sr_csrf_hash session)
                       then Some (SessionToken session_hash) else None)
                | None \<Rightarrow>
                    (let self = retain_login_tokens now self
                     in (self, if map_of (ai_login_csrf_tokens self) csrf_hash \<noteq> None
                           then Some (LoginToken csrf_hash) else None)))
      | _ \<Rightarrow> (self, None))"

text \<open>\<open>completed\<close> is false where the blocking task that verifies the password fails.\<close>

definition verify_login ::
    "AuthEnv \<Rightarrow> HeaderMap \<Rightarrow> str \<Rightarrow> str \<Rightarrow> StoredUserCredential option \<Rightarrow> bool \<Rightarrow> instant \<Rightarrow> AuthInner \<Rightarrow>
     AuthInner \<times> (LoginError + VerifiedLogin)" where
  "verify_login env headers username password stored completed now self =
     (case csrf_binding env headers now self of
        (self, None) \<Rightarrow> (self, Inl CsrfValidationFailed)
      | (self, Some binding) \<Rightarrow>
          (self,
           if password = [] \<or> str_len password > 1024 \<or> str_len username > 128 then Inl InvalidCredentials
           else
             let built_in = constant_time_eq (ae_digest env username) (ae_digest env ADMIN_USERNAME);
                 candidate = (if built_in then None
                   else case stored of
                       None \<Rightarrow> None
                     | Some credential \<Rightarrow> if su_username (sc_user credential) = username then Some credential else None);
                 (expected, user) = (case candidate of
                     Some credential \<Rightarrow> (sc_password_hash credential, Some (sc_user credential))
                   | None \<Rightarrow> (ai_password_hash self, if built_in then Some built_in_operator else None))
             in if \<not> completed then Inl Unavailable
                else case user of
                    Some user \<Rightarrow> if ae_verify env expected password
                      then Inr \<lparr>vl_csrf_binding = binding, vl_user = user\<rparr> else Inl InvalidCredentials
                  | None \<Rightarrow> Inl InvalidCredentials))"

definition session_user :: "AuthEnv \<Rightarrow> HeaderMap \<Rightarrow> instant \<Rightarrow> AuthInner \<Rightarrow> SessionUser option" where
  "session_user env headers now self =
     (case cookie headers SESSION_COOKIE of
        None \<Rightarrow> None
      | Some token \<Rightarrow>
          (case ai_sessions self (ae_digest env token) of
             None \<Rightarrow> None
           | Some session \<Rightarrow> if sr_expires_at session > now then Some (sr_user session) else None))"

definition issue_session ::
    "AuthEnv \<Rightarrow> SessionUser \<Rightarrow> str \<Rightarrow> str \<Rightarrow> instant \<Rightarrow> AuthInner \<Rightarrow> AuthInner \<times> IssuedSession" where
  "issue_session env user session_token csrf_token now self =
     (self\<lparr>ai_sessions := (ai_sessions self)(ae_digest env session_token \<mapsto>
          \<lparr>sr_csrf_hash = ae_digest env csrf_token, sr_expires_at = now + SESSION_TTL, sr_user = user\<rparr>)\<rparr>,
      \<lparr>is_session_cookie = session_cookie self session_token,
       is_csrf_cookie = csrf_cookie self csrf_token SESSION_TTL\<rparr>)"

definition complete_login ::
    "AuthEnv \<Rightarrow> VerifiedLogin \<Rightarrow> str option \<Rightarrow> str option \<Rightarrow> instant \<Rightarrow> AuthInner \<Rightarrow>
     AuthInner \<times> (LoginError + IssuedSession)" where
  "complete_login env verified random_session random_csrf now self =
     (case (random_session, random_csrf) of
        (Some session_token, Some csrf_token) \<Rightarrow>
          (let self = (case vl_csrf_binding verified of
                 SessionToken previous \<Rightarrow> self\<lparr>ai_sessions := (ai_sessions self)(previous := None)\<rparr>
               | LoginToken _ \<Rightarrow> self);
               (self, issued) = issue_session env (vl_user verified) session_token csrf_token now self;
               self = (case vl_csrf_binding verified of
                 LoginToken token \<Rightarrow> self\<lparr>ai_login_csrf_tokens := remove_key token (ai_login_csrf_tokens self)\<rparr>
               | SessionToken _ \<Rightarrow> self)
           in (self, Inr issued))
      | _ \<Rightarrow> (self, Inl Unavailable))"

section \<open>Authorization\<close>

definition csrf_header_valid :: "AuthEnv \<Rightarrow> HeaderMap \<Rightarrow> SessionRecord \<Rightarrow> bool" where
  "csrf_header_valid env headers session \<longleftrightarrow>
     (case (header_str headers CSRF_HEADER, cookie headers CSRF_COOKIE) of
        (Some header_csrf, Some cookie_csrf) \<Rightarrow>
          constant_time_eq (ae_digest env header_csrf) (ae_digest env cookie_csrf)
          \<and> constant_time_eq (ae_digest env header_csrf) (sr_csrf_hash session)
      | _ \<Rightarrow> False)"

definition authorize_session ::
    "AuthEnv \<Rightarrow> HeaderMap \<Rightarrow> bool \<Rightarrow> str option \<Rightarrow> instant \<Rightarrow> AuthInner \<Rightarrow> AuthInner \<times> Authorization option" where
  "authorize_session env headers require_csrf required_scope now self =
     (case cookie headers SESSION_COOKIE of
        None \<Rightarrow> (self, None)
      | Some token \<Rightarrow>
          (let self = retain_sessions now self
           in (self, case ai_sessions self (ae_digest env token) of
                None \<Rightarrow> None
              | Some session \<Rightarrow>
                  if \<not> scope_ok (su_scopes (sr_user session)) required_scope then None
                  else if require_csrf \<and> \<not> csrf_header_valid env headers session then None
                  else Some Session)))"

definition authorize_with_scope ::
    "AuthEnv \<Rightarrow> HeaderMap \<Rightarrow> bool \<Rightarrow> str option \<Rightarrow> instant \<Rightarrow> int \<Rightarrow> AuthInner \<Rightarrow>
     AuthInner \<times> Authorization option" where
  "authorize_with_scope env headers require_csrf required_scope now utc_now self =
     (if ai_dev_auth_disabled self then (self, Some Development)
      else case bearer_token headers of
          None \<Rightarrow> authorize_session env headers require_csrf required_scope now self
        | Some token \<Rightarrow>
            if ai_bootstrap_bearer_enabled self \<and> constant_time_eq (ae_digest env token) (ai_bearer_hash self)
            then (self, Some Bearer)
            else
              let token_hash = ae_digest env token;
                  self = retain_operator_tokens utc_now self
              in case ai_operator_tokens self token_hash of
                   Some token \<Rightarrow>
                     if constant_time_eq token_hash (ot_token_hash token) \<and> scope_ok (ot_scopes token) required_scope
                     then (self, Some OperatorToken)
                     else authorize_session env headers require_csrf required_scope now self
                 | None \<Rightarrow> authorize_session env headers require_csrf required_scope now self)"

definition load_operator_tokens :: "OperatorTokenRecord list \<Rightarrow> AuthInner \<Rightarrow> AuthInner" where
  "load_operator_tokens tokens self =
     self\<lparr>ai_operator_tokens := fold (\<lambda>token table. table(ot_token_hash token \<mapsto> token)) tokens (\<lambda>_. None)\<rparr>"

definition add_operator_token :: "OperatorTokenRecord \<Rightarrow> AuthInner \<Rightarrow> AuthInner" where
  "add_operator_token token self =
     self\<lparr>ai_operator_tokens := (ai_operator_tokens self)(ot_token_hash token \<mapsto> token)\<rparr>"

definition revoke_operator_token :: "nat \<Rightarrow> AuthInner \<Rightarrow> AuthInner" where
  "revoke_operator_token token_id self =
     self\<lparr>ai_operator_tokens := (\<lambda>h. case ai_operator_tokens self h of
        None \<Rightarrow> None | Some token \<Rightarrow> if ot_id token \<noteq> token_id then Some token else None)\<rparr>"

definition operator_token_actor :: "AuthEnv \<Rightarrow> (nat \<Rightarrow> str) \<Rightarrow> HeaderMap \<Rightarrow> instant \<Rightarrow> AuthInner \<Rightarrow> str" where
  "operator_token_actor env show_id headers now self =
     (case Option.bind (bearer_token headers) (\<lambda>token. ai_operator_tokens self (ae_digest env token)) of
        Some token \<Rightarrow> lit ''operator-api-token:'' @ show_id (ot_id token)
      | None \<Rightarrow> (case session_user env headers now self of None \<Rightarrow> ADMIN_USERNAME | Some user \<Rightarrow> su_username user))"

definition auth_logout :: "AuthEnv \<Rightarrow> HeaderMap \<Rightarrow> AuthInner \<Rightarrow> AuthInner" where
  "auth_logout env headers self =
     (case cookie headers SESSION_COOKIE of
        None \<Rightarrow> self
      | Some token \<Rightarrow> self\<lparr>ai_sessions := (ai_sessions self)(ae_digest env token := None)\<rparr>)"

definition disable_bootstrap_bearer :: "AuthInner \<Rightarrow> AuthInner" where
  "disable_bootstrap_bearer self = self\<lparr>ai_bootstrap_bearer_enabled := False\<rparr>"

section \<open>Request guards\<close>

text \<open>
  \<open>authorize_scope\<close> and \<open>authorize\<close> call \<open>authorize_with_scope\<close>; each call reads the two clocks
  again.
\<close>

datatype Refusal = InsufficientTokenScope | CsrfFailed | InsufficientScope | AuthenticationRequired

definition require_scope ::
    "AuthEnv \<Rightarrow> HeaderMap \<Rightarrow> str \<Rightarrow> bool \<Rightarrow> instant \<times> int \<Rightarrow> instant \<times> int \<Rightarrow> AuthInner \<Rightarrow>
     AuthInner \<times> Refusal option" where
  "require_scope env headers scope require_csrf clock clock' self =
     (case authorize_with_scope env headers require_csrf (Some scope) (fst clock) (snd clock) self of
        (self, Some _) \<Rightarrow> (self, None)
      | (self, None) \<Rightarrow>
          (case authorize_with_scope env headers False None (fst clock') (snd clock') self of
             (self, Some OperatorToken) \<Rightarrow> (self, Some InsufficientTokenScope)
           | (self, Some Session) \<Rightarrow> (self, Some (if require_csrf then CsrfFailed else InsufficientScope))
           | (self, Some _) \<Rightarrow> (self, Some InsufficientScope)
           | (self, None) \<Rightarrow> (self, Some AuthenticationRequired)))"

definition require_admin :: "AuthEnv \<Rightarrow> HeaderMap \<Rightarrow> instant \<times> int \<Rightarrow> instant \<times> int \<Rightarrow> AuthInner \<Rightarrow>
     AuthInner \<times> Refusal option" where
  "require_admin env headers clock clock' self =
     require_scope env headers OPERATOR_TOKEN_READ_SCOPE False clock clock' self"

definition require_admin_mutation ::
    "AuthEnv \<Rightarrow> HeaderMap \<Rightarrow> instant \<times> int \<Rightarrow> instant \<times> int \<Rightarrow> AuthInner \<Rightarrow> AuthInner \<times> Refusal option" where
  "require_admin_mutation env headers clock clock' self =
     require_scope env headers OPERATOR_TOKEN_CONTROL_SCOPE True clock clock' self"

text \<open>The handler \<open>logout\<close> after the body of the request is read: the refusal, or the cookies it clears.\<close>

definition logout_handler ::
    "AuthEnv \<Rightarrow> HeaderMap \<Rightarrow> instant \<times> int \<Rightarrow> instant \<times> int \<Rightarrow> AuthInner \<Rightarrow>
     AuthInner \<times> (Refusal + str list)" where
  "logout_handler env headers clock clock' self =
     (case require_admin_mutation env headers clock clock' self of
        (self, Some refusal) \<Rightarrow> (self, Inl refusal)
      | (self, None) \<Rightarrow> (let self = auth_logout env headers self in (self, Inr (clear_cookies self))))"

section \<open>Comparison of digests\<close>

lemma or_fold_zero:
  "fold (\<lambda>(a, b) d. d OR (a XOR b)) zs (d :: u8) = 0 \<longleftrightarrow> d = 0 \<and> (\<forall>(a, b) \<in> set zs. a = b)"
proof (induction zs arbitrary: d)
  case (Cons z zs)
  obtain a b where z: "z = (a, b)" by fastforce
  have "d OR (a XOR b) = 0 \<longleftrightarrow> d = 0 \<and> a = b"
    by (auto simp: bit_eq_iff bit_simps)
  with Cons.IH show ?case by (auto simp: z)
qed simp

lemma constant_time_eq_iff: "length left = length right \<Longrightarrow> constant_time_eq left right \<longleftrightarrow> left = right"
  by (auto simp: constant_time_eq_def or_fold_zero list_eq_iff_nth_eq set_zip)

text \<open>SHA-256 has 32 bytes.\<close>

definition digest_laws :: "AuthEnv \<Rightarrow> bool" where
  "digest_laws env \<longleftrightarrow> (\<forall>s. length (ae_digest env s) = 32)"

lemma digest_eq: "digest_laws env \<Longrightarrow> constant_time_eq (ae_digest env a) (ae_digest env b) \<longleftrightarrow> ae_digest env a = ae_digest env b"
  by (simp add: digest_laws_def constant_time_eq_iff)

section \<open>Histories\<close>

text \<open>
  The operations of the manager as events, the newest first; \<open>verified\<close> are the values that
  \<open>verify_login\<close> has returned, without which \<open>complete_login\<close> cannot be called.  \<open>OidcLoggedIn\<close> is a
  session issued after a callback of the identity provider was accepted.
\<close>

datatype AuthEvent =
    PasswordVerified str str "StoredUserCredential option" VerifiedLogin
  | LoggedIn VerifiedLogin str instant
  | OidcLoggedIn str instant
  | LoggedOut str
  | TokensLoaded "OperatorTokenRecord list"
  | TokenAdded OperatorTokenRecord
  | TokenRevoked nat
  | BearerDisabled

inductive auth_reach :: "AuthEnv \<Rightarrow> AuthInner \<Rightarrow> AuthEvent list \<Rightarrow> VerifiedLogin set \<Rightarrow> AuthInner \<Rightarrow> bool"
  for env :: AuthEnv and start :: AuthInner where
  auth_start: "auth_reach env start [] {} start"
| auth_ensure: "auth_reach env start events V s \<Longrightarrow> ensure_csrf_cookie env headers now random s = (s', c) \<Longrightarrow>
    auth_reach env start events V s'"
| auth_denied: "auth_reach env start events V s \<Longrightarrow>
    verify_login env headers username password stored completed now s = (s', Inl e) \<Longrightarrow> auth_reach env start events V s'"
| auth_verified: "auth_reach env start events V s \<Longrightarrow>
    verify_login env headers username password stored completed now s = (s', Inr v) \<Longrightarrow>
    auth_reach env start (PasswordVerified username password stored v # events) (insert v V) s'"
| auth_login: "auth_reach env start events V s \<Longrightarrow> v \<in> V \<Longrightarrow>
    complete_login env v (Some token) (Some csrf) now s = (s', r) \<Longrightarrow>
    auth_reach env start (LoggedIn v token now # events) V s'"
| auth_oidc: "auth_reach env start events V s \<Longrightarrow>
    issue_session env built_in_operator token csrf now s = (s', i) \<Longrightarrow>
    auth_reach env start (OidcLoggedIn token now # events) V s'"
| auth_authorize: "auth_reach env start events V s \<Longrightarrow>
    authorize_with_scope env headers require_csrf scope now utc s = (s', a) \<Longrightarrow> auth_reach env start events V s'"
| auth_load: "auth_reach env start events V s \<Longrightarrow>
    auth_reach env start (TokensLoaded tokens # events) V (load_operator_tokens tokens s)"
| auth_add: "auth_reach env start events V s \<Longrightarrow>
    auth_reach env start (TokenAdded token # events) V (add_operator_token token s)"
| auth_revoke: "auth_reach env start events V s \<Longrightarrow>
    auth_reach env start (TokenRevoked i # events) V (revoke_operator_token i s)"
| auth_logout: "auth_reach env start events V s \<Longrightarrow> cookie headers SESSION_COOKIE = Some token \<Longrightarrow>
    auth_reach env start (LoggedOut token # events) V (auth_logout env headers s)"
| auth_disable: "auth_reach env start events V s \<Longrightarrow>
    auth_reach env start (BearerDisabled # events) V (disable_bootstrap_bearer s)"

text \<open>What an operation may do to the tables: nothing but to drop entries, or to change a CSRF hash.\<close>

definition shrinks :: "AuthInner \<Rightarrow> AuthInner \<Rightarrow> bool" where
  "shrinks s s' \<longleftrightarrow>
     (\<forall>h r. ai_sessions s' h = Some r \<longrightarrow> (\<exists>q. ai_sessions s h = Some q \<and> sr_user r = sr_user q \<and> sr_expires_at r = sr_expires_at q)) \<and>
     (\<forall>h r. ai_operator_tokens s' h = Some r \<longrightarrow> ai_operator_tokens s h = Some r) \<and>
     ai_password_hash s' = ai_password_hash s \<and> ai_bearer_hash s' = ai_bearer_hash s \<and>
     ai_bootstrap_bearer_enabled s' = ai_bootstrap_bearer_enabled s \<and> ai_dev_auth_disabled s' = ai_dev_auth_disabled s"

lemma shrinks_refl [simp]: "shrinks s s"
  by (simp add: shrinks_def)

lemma shrinks_retain [simp]:
  "shrinks s (retain_sessions now s)" "shrinks s (retain_login_tokens now s)" "shrinks s (retain_operator_tokens utc s)"
  by (auto simp: shrinks_def retain_sessions_def retain_login_tokens_def retain_operator_tokens_def split: option.splits if_splits)

lemma shrinks_sessions: "shrinks s t \<Longrightarrow> ai_sessions t h = Some r \<Longrightarrow>
    \<exists>q. ai_sessions s h = Some q \<and> sr_user r = sr_user q \<and> sr_expires_at r = sr_expires_at q"
  by (simp add: shrinks_def)

lemma shrinks_tokens: "shrinks s t \<Longrightarrow> ai_operator_tokens t h = Some r \<Longrightarrow> ai_operator_tokens s h = Some r"
  by (simp add: shrinks_def)

lemma shrinks_trans: assumes "shrinks a b" "shrinks b c" shows "shrinks a c"
proof -
  have "\<exists>q. ai_sessions a h = Some q \<and> sr_user r = sr_user q \<and> sr_expires_at r = sr_expires_at q"
    if "ai_sessions c h = Some r" for h r
    using shrinks_sessions [OF assms(2) that] shrinks_sessions [OF assms(1)] by metis
  moreover have "ai_operator_tokens a h = Some r" if "ai_operator_tokens c h = Some r" for h r
    using shrinks_tokens [OF assms(1) shrinks_tokens [OF assms(2) that]] .
  ultimately show ?thesis using assms unfolding shrinks_def by presburger
qed

lemma shrinks_login_tokens: "shrinks s t \<Longrightarrow> shrinks s (t\<lparr>ai_login_csrf_tokens := l\<rparr>)"
  by (simp add: shrinks_def)

lemma shrinks_csrf: "shrinks s t \<Longrightarrow> ai_sessions t h = Some r \<Longrightarrow>
   shrinks s (t\<lparr>ai_sessions := (ai_sessions t)(h \<mapsto> r\<lparr>sr_csrf_hash := c\<rparr>)\<rparr>)"
  by (auto simp: shrinks_def)

lemma ensure_shrinks: "ensure_csrf_cookie env headers now random s = (s', c) \<Longrightarrow> shrinks s s'"
  using shrinks_trans [OF shrinks_retain(1) [of s now] shrinks_retain(2) [of "retain_sessions now s" now]]
  by (auto simp: ensure_csrf_cookie_def Let_def bind_eq_Some_conv
      split: option.splits if_splits intro!: shrinks_csrf shrinks_login_tokens shrinks_retain)

lemma binding_shrinks: "csrf_binding env headers now s = (s', b) \<Longrightarrow> shrinks s s'"
  using shrinks_trans [OF shrinks_retain(1) [of s now] shrinks_retain(2) [of "retain_sessions now s" now]]
  by (auto simp: csrf_binding_def Let_def split: option.splits if_splits)

lemma verify_shrinks: "verify_login env headers username password stored completed now s = (s', r) \<Longrightarrow> shrinks s s'"
  by (auto simp: verify_login_def split: prod.splits option.splits dest: binding_shrinks)

lemma authorize_session_shrinks: "authorize_session env headers q scope now s = (s', a) \<Longrightarrow> shrinks s s'"
  by (auto simp: authorize_session_def Let_def split: option.splits)

lemma authorize_shrinks: "authorize_with_scope env headers q scope now utc s = (s', a) \<Longrightarrow> shrinks s s'"
  by (auto simp: authorize_with_scope_def Let_def split: option.splits if_splits
      intro: shrinks_trans [OF shrinks_retain(3)] dest: authorize_session_shrinks)

section \<open>What a history says of the tables\<close>

text \<open>The session a history leaves for a digest: its user and when it was issued.\<close>

fun session_of :: "AuthEnv \<Rightarrow> AuthEvent list \<Rightarrow> bytes \<Rightarrow> (SessionUser \<times> instant) option" where
  "session_of env [] h = None"
| "session_of env (LoggedIn v token at # events) h =
     (if ae_digest env token = h then Some (vl_user v, at)
      else if vl_csrf_binding v = SessionToken h then None else session_of env events h)"
| "session_of env (OidcLoggedIn token at # events) h =
     (if ae_digest env token = h then Some (built_in_operator, at) else session_of env events h)"
| "session_of env (LoggedOut token # events) h =
     (if ae_digest env token = h then None else session_of env events h)"
| "session_of env (e # events) h = session_of env events h"

fun token_of :: "AuthEvent list \<Rightarrow> bytes \<Rightarrow> OperatorTokenRecord option" where
  "token_of [] h = None"
| "token_of (TokensLoaded tokens # events) h = find (\<lambda>token. ot_token_hash token = h) (rev tokens)"
| "token_of (TokenAdded token # events) h = (if ot_token_hash token = h then Some token else token_of events h)"
| "token_of (TokenRevoked i # events) h =
     (case token_of events h of None \<Rightarrow> None | Some token \<Rightarrow> if ot_id token = i then None else Some token)"
| "token_of (e # events) h = token_of events h"

text \<open>The tables hold nothing but what the history left there.\<close>

definition explained :: "AuthEnv \<Rightarrow> AuthInner \<Rightarrow> AuthEvent list \<Rightarrow> AuthInner \<Rightarrow> bool" where
  "explained env start events s \<longleftrightarrow>
     (\<forall>h r. ai_sessions s h = Some r \<longrightarrow>
        (\<exists>at. session_of env events h = Some (sr_user r, at) \<and> sr_expires_at r = at + SESSION_TTL)) \<and>
     (\<forall>h token. ai_operator_tokens s h = Some token \<longrightarrow> token_of events h = Some token) \<and>
     ai_password_hash s = ai_password_hash start \<and> ai_bearer_hash s = ai_bearer_hash start \<and>
     ai_dev_auth_disabled s = ai_dev_auth_disabled start \<and>
     (ai_bootstrap_bearer_enabled s \<longrightarrow> BearerDisabled \<notin> set events)"

lemma explained_session: "explained env start events s \<Longrightarrow> ai_sessions s h = Some r \<Longrightarrow>
    \<exists>at. session_of env events h = Some (sr_user r, at) \<and> sr_expires_at r = at + SESSION_TTL"
  by (simp add: explained_def)

lemma explained_shrinks:
  assumes "explained env start events s" "shrinks s s'"
  shows "explained env start events s'"
proof -
  have "\<exists>at. session_of env events h = Some (sr_user r, at) \<and> sr_expires_at r = at + SESSION_TTL"
    if "ai_sessions s' h = Some r" for h r
    using shrinks_sessions [OF assms(2) that] assms(1) by (force simp: explained_def)
  moreover have "token_of events h = Some t" if "ai_operator_tokens s' h = Some t" for h t
    using shrinks_tokens [OF assms(2) that] assms(1) by (simp add: explained_def)
  ultimately show ?thesis using assms by (simp add: explained_def shrinks_def)
qed

lemma explained_verified: "explained env start events s \<Longrightarrow> explained env start (PasswordVerified u p c v # events) s"
  by (simp add: explained_def)

lemma explained_issue:
  assumes "explained env start events s"
  shows "explained env start (OidcLoggedIn token now # events) (fst (issue_session env built_in_operator token csrf now s))"
  using assms by (auto simp: explained_def issue_session_def)

lemma explained_login:
  assumes "explained env start events s" "complete_login env v (Some token) (Some csrf) now s = (s', r)"
  shows "explained env start (LoggedIn v token now # events) s'"
  using assms by (cases "vl_csrf_binding v") (auto simp: explained_def complete_login_def issue_session_def Let_def split: if_splits)

lemma fold_tokens: "fold (\<lambda>token table. table(ot_token_hash token \<mapsto> token)) tokens m h =
    (case find (\<lambda>token. ot_token_hash token = h) (rev tokens) of None \<Rightarrow> m h | Some t \<Rightarrow> Some t)"
proof (induction tokens rule: rev_induct)
  case (snoc x xs)
  then show ?case by auto
qed simp

lemma explained_load: "explained env start events s \<Longrightarrow>
    explained env start (TokensLoaded tokens # events) (load_operator_tokens tokens s)"
  by (auto simp: explained_def load_operator_tokens_def fold_tokens split: option.splits)

lemma explained_add: "explained env start events s \<Longrightarrow> explained env start (TokenAdded token # events) (add_operator_token token s)"
  by (auto simp: explained_def add_operator_token_def)

lemma explained_revoke: "explained env start events s \<Longrightarrow> explained env start (TokenRevoked i # events) (revoke_operator_token i s)"
  by (force simp: explained_def revoke_operator_token_def split: option.splits if_splits)

lemma explained_logout: "explained env start events s \<Longrightarrow> cookie headers SESSION_COOKIE = Some token \<Longrightarrow>
    explained env start (LoggedOut token # events) (auth_logout env headers s)"
  by (auto simp: explained_def auth_logout_def)

lemma explained_disable: "explained env start events s \<Longrightarrow> explained env start (BearerDisabled # events) (disable_bootstrap_bearer s)"
  by (simp add: explained_def disable_bootstrap_bearer_def)

lemmas explained_steps = explained_verified explained_login explained_load explained_add explained_revoke
  explained_logout explained_disable

lemma reach_explained:
  assumes "auth_reach env start events V s"
    "ai_sessions start = (\<lambda>_. None)" "ai_operator_tokens start = (\<lambda>_. None)"
  shows "explained env start events s"
  using assms
proof (induction rule: auth_reach.induct)
  case auth_start
  then show ?case by (simp add: explained_def)
next
  case (auth_oidc events V s token csrf now s' i)
  then show ?case using explained_issue [of env start events s token now csrf] by simp
next
  case (auth_verified events V s headers username password stored completed now s' v)
  then show ?case by (metis explained_shrinks explained_verified verify_shrinks)
qed (auto intro: explained_steps explained_shrinks ensure_shrinks verify_shrinks authorize_shrinks)

text \<open>What \<open>verify_login\<close> has checked of a password.\<close>

definition password_checked :: "AuthEnv \<Rightarrow> AuthInner \<Rightarrow> str \<Rightarrow> str \<Rightarrow> StoredUserCredential option \<Rightarrow> SessionUser \<Rightarrow> bool" where
  "password_checked env start username password stored user \<longleftrightarrow>
     password \<noteq> [] \<and>
     (user = built_in_operator \<and> ae_digest env username = ae_digest env ADMIN_USERNAME
        \<and> ae_verify env (ai_password_hash start) password \<or>
      (\<exists>credential. stored = Some credential \<and> sc_user credential = user \<and> su_username user = username
         \<and> ae_verify env (sc_password_hash credential) password))"

lemma verify_login_checks:
  assumes "digest_laws env" "verify_login env headers username password stored completed now s = (s', Inr v)"
  shows "password_checked env s username password stored (vl_user v)"
  using assms(2) binding_shrinks [of env headers now s]
  by (auto simp: verify_login_def password_checked_def Let_def digest_eq [OF assms(1)] shrinks_def
      split: prod.splits option.splits if_splits)

lemma reach_verified:
  assumes "auth_reach env start events V s" "digest_laws env"
    "ai_sessions start = (\<lambda>_. None)" "ai_operator_tokens start = (\<lambda>_. None)" "v \<in> V"
  shows "\<exists>u p c. PasswordVerified u p c v \<in> set events \<and> password_checked env start u p c (vl_user v)"
  using assms
proof (induction arbitrary: v rule: auth_reach.induct)
  case (auth_verified events V s headers username password stored completed now s' w)
  show ?case
  proof (cases "v = w")
    case True
    have "ai_password_hash s = ai_password_hash start"
      using reach_explained [OF auth_verified.hyps(1) auth_verified.prems(2,3)] by (simp add: explained_def)
    with verify_login_checks [OF auth_verified.prems(1) auth_verified.hyps(2)]
    have "password_checked env start username password stored (vl_user w)" by (simp add: password_checked_def)
    with True show ?thesis by auto
  next
    case False
    with auth_verified show ?thesis by fastforce
  qed
qed (simp; blast)+

text \<open>What an authorization by a session shows of the history.\<close>

definition session_justified ::
    "AuthEnv \<Rightarrow> AuthEvent list \<Rightarrow> HeaderMap \<Rightarrow> bool \<Rightarrow> str option \<Rightarrow> instant \<Rightarrow> bool" where
  "session_justified env events headers require_csrf scope now \<longleftrightarrow>
     (\<exists>t user at. cookie headers SESSION_COOKIE = Some t
        \<and> session_of env events (ae_digest env t) = Some (user, at) \<and> now < at + SESSION_TTL
        \<and> scope_ok (su_scopes user) scope
        \<and> (require_csrf \<longrightarrow> (\<exists>c c'. header_str headers CSRF_HEADER = Some c
             \<and> cookie headers CSRF_COOKIE = Some c' \<and> ae_digest env c = ae_digest env c')))"

lemma session_authorized:
  assumes "digest_laws env" "explained env start events s" "ai_sessions t = ai_sessions s"
    "authorize_session env headers require_csrf scope now t = (s', Some how)"
  shows "how = Session \<and> session_justified env events headers require_csrf scope now"
proof -
  obtain k r where k: "cookie headers SESSION_COOKIE = Some k" "ai_sessions s (ae_digest env k) = Some r"
      "now < sr_expires_at r" "scope_ok (su_scopes (sr_user r)) scope" "how = Session"
      and c: "require_csrf \<Longrightarrow> csrf_header_valid env headers r"
    using assms(4) by (auto simp: authorize_session_def retain_sessions_def assms(3) Let_def split: option.splits if_splits)
  note explained_session [OF assms(2) k(2)]
  moreover have "\<exists>c c'. header_str headers CSRF_HEADER = Some c
           \<and> cookie headers CSRF_COOKIE = Some c' \<and> ae_digest env c = ae_digest env c'" if require_csrf
    using c [OF that] by (auto simp: csrf_header_valid_def digest_eq [OF assms(1)] split: option.splits)
  ultimately show ?thesis using k by (auto simp: session_justified_def)
qed

lemma bearer_authorized:
  assumes "digest_laws env" "explained env start events s" "bearer_token headers = Some b"
    "\<not> ai_dev_auth_disabled s" "authorize_with_scope env headers require_csrf scope now utc s = (s', Some how)"
    "length (ai_bearer_hash s) = 32"
  shows "how = Bearer \<and> BearerDisabled \<notin> set events \<and> ae_digest env b = ai_bearer_hash s \<or>
    how = OperatorToken \<and> (\<exists>token. token_of events (ae_digest env b) = Some token
        \<and> (\<forall>e. ot_expires_at token = Some e \<longrightarrow> utc < e) \<and> scope_ok (ot_scopes token) scope) \<or>
    how = Session \<and> session_justified env events headers require_csrf scope now"
proof -
  let ?r = "retain_operator_tokens utc s"
  have eq: "constant_time_eq (ae_digest env b) (ai_bearer_hash s) \<longleftrightarrow> ae_digest env b = ai_bearer_hash s"
    using assms(1,6) by (simp add: digest_laws_def constant_time_eq_iff)
  consider (bearer) "how = Bearer" "BearerDisabled \<notin> set events" "ae_digest env b = ai_bearer_hash s"
    | (session) "authorize_session env headers require_csrf scope now ?r = (s', Some how)"
    | (token) tok where "ai_operator_tokens ?r (ae_digest env b) = Some tok" "scope_ok (ot_scopes tok) scope"
        "how = OperatorToken"
    using assms(2-5) eq
    by (auto simp: authorize_with_scope_def explained_def Let_def split: option.splits if_splits)
  then show ?thesis
  proof cases
    case session
    have "ai_sessions ?r = ai_sessions s" by (simp add: retain_operator_tokens_def)
    from session_authorized [OF assms(1,2) this session] show ?thesis by simp
  next
    case token
    have "token_of events (ae_digest env b) = Some tok"
      using shrinks_tokens [OF shrinks_retain(3) token(1)] assms(2) by (simp add: explained_def)
    moreover have "\<forall>e. ot_expires_at tok = Some e \<longrightarrow> utc < e"
      using token(1) by (auto simp: retain_operator_tokens_def split: option.splits if_splits)
    ultimately show ?thesis using token by auto
  qed simp
qed


lemma session_of_events: "session_of env events h = Some (user, at) \<Longrightarrow>
    (\<exists>token. OidcLoggedIn token at \<in> set events \<and> user = built_in_operator) \<or>
    (\<exists>v token. LoggedIn v token at \<in> set events \<and> vl_user v = user)"
  by (induction env events h rule: session_of.induct) (auto split: if_splits)

lemma reach_logged_in: "auth_reach env start events V s \<Longrightarrow> LoggedIn v token at \<in> set events \<Longrightarrow> v \<in> V"
  by (induction rule: auth_reach.induct) auto

text \<open>
  C15: a session that is valid goes back to a sign-in whose password was verified, against the built-in
  password for the built-in operator and against the stored hash of the account otherwise, or to an accepted
  callback of the identity provider.\<close>

theorem sign_in_needs_a_password:
  assumes "digest_laws env" "auth_reach env (auth_new env password_hash bearer secure oidc dev) events V s"
    "session_user env headers now s = Some user"
  shows "(\<exists>token at. OidcLoggedIn token at \<in> set events \<and> user = built_in_operator) \<or>
    (\<exists>v token at username password stored. LoggedIn v token at \<in> set events \<and> vl_user v = user
       \<and> PasswordVerified username password stored v \<in> set events
       \<and> password_checked env (auth_new env password_hash bearer secure oidc dev) username password stored user)"
proof -
  let ?start = "auth_new env password_hash bearer secure oidc dev"
  have empty: "ai_sessions ?start = (\<lambda>_. None)" "ai_operator_tokens ?start = (\<lambda>_. None)"
    by (auto simp: auth_new_def)
  obtain k r where "cookie headers SESSION_COOKIE = Some k" "ai_sessions s (ae_digest env k) = Some r" "sr_user r = user"
    using assms(3) by (auto simp: session_user_def split: option.splits if_splits)
  then obtain at where "session_of env events (ae_digest env k) = Some (user, at)"
    using explained_session [OF reach_explained [OF assms(2) empty]] by blast
  from session_of_events [OF this] show ?thesis
    using reach_verified [OF assms(2,1) empty] reach_logged_in [OF assms(2)] by metis
qed

section \<open>Bounds of the login tokens\<close>

lemma remove_key_length: "length (remove_key k t) \<le> length t"
  by (simp add: remove_key_def)

lemma remove_key_set: "set (remove_key k t) \<subseteq> set t"
  by (auto simp: remove_key_def)

lemma remove_key_subset: "set (map fst (remove_key k t)) = set (map fst t) - {k}"
  by (auto simp: remove_key_def image_iff)

lemma remove_key_distinct: "distinct (map fst t) \<Longrightarrow> distinct (map fst (remove_key k t))"
  by (simp add: remove_key_def distinct_map_filter)

lemma remove_key_less: "k \<in> set (map fst t) \<Longrightarrow> length (remove_key k t) < length t"
  unfolding remove_key_def by (auto intro: length_filter_less)

lemma evict_oldest_distinct: "distinct (map fst t) \<Longrightarrow> distinct (map fst (evict_oldest n f t))"
  by (auto simp: evict_oldest_def remove_key_distinct split: list.splits simp del: distinct.simps list.map)

lemma evict_oldest_bound:
  assumes "length t \<le> n" "0 < n"
  shows "length (evict_oldest n f t) < n"
proof (cases "length t = n")
  case True
  then have "t \<noteq> []" using assms by auto
  then have "fst (arg_min_list (\<lambda>(_, v). f v) t) \<in> set (map fst t)"
    using arg_min_list_in [of t "\<lambda>(_, v). f v"] by force
  from remove_key_less [OF this] show ?thesis using True \<open>t \<noteq> []\<close>
    by (auto simp: evict_oldest_def split: list.splits)
next
  case False
  with assms show ?thesis by (simp add: evict_oldest_def)
qed

lemma insert_key_length: "length (insert_key k v t) \<le> Suc (length t)"
  by (simp add: insert_key_def remove_key_def)

lemma insert_key_distinct: "distinct (map fst t) \<Longrightarrow> distinct (map fst (insert_key k v t))"
  by (simp add: insert_key_def remove_key_distinct remove_key_subset flip: set_map)

definition login_tokens_ok :: "(bytes \<times> instant) list \<Rightarrow> bool" where
  "login_tokens_ok t \<longleftrightarrow> length t \<le> MAX_LOGIN_CSRF_TOKENS \<and> distinct (map fst t)"

lemma login_tokens_filter: "login_tokens_ok t \<Longrightarrow> login_tokens_ok (filter P t)"
  using length_filter_le [of P t] by (auto simp: login_tokens_ok_def distinct_map_filter simp del: length_filter_le)

lemma login_tokens_evict: "login_tokens_ok t \<Longrightarrow>
    login_tokens_ok (evict_oldest MAX_LOGIN_CSRF_TOKENS (\<lambda>t. t) t)
    \<and> login_tokens_ok (insert_key k v (evict_oldest MAX_LOGIN_CSRF_TOKENS (\<lambda>t. t) t))"
  using evict_oldest_bound [of t MAX_LOGIN_CSRF_TOKENS "\<lambda>t. t"]
    insert_key_length [of k v "evict_oldest MAX_LOGIN_CSRF_TOKENS (\<lambda>t. t) t"]
  by (auto simp: login_tokens_ok_def evict_oldest_distinct insert_key_distinct MAX_LOGIN_CSRF_TOKENS_def)

lemma retain_tables [simp]:
  "ai_login_csrf_tokens (retain_sessions now s) = ai_login_csrf_tokens s"
  "ai_login_csrf_tokens (retain_operator_tokens utc s) = ai_login_csrf_tokens s"
  "login_tokens_ok (ai_login_csrf_tokens s) \<Longrightarrow> login_tokens_ok (ai_login_csrf_tokens (retain_login_tokens now s))"
  by (simp_all add: retain_sessions_def retain_operator_tokens_def retain_login_tokens_def login_tokens_filter)

lemma ensure_login_tokens:
  assumes "ensure_csrf_cookie env headers now random s = (s', c)" "login_tokens_ok (ai_login_csrf_tokens s)"
  shows "login_tokens_ok (ai_login_csrf_tokens s')"
proof -
  have "login_tokens_ok (ai_login_csrf_tokens (retain_login_tokens now (retain_sessions now s)))"
    using assms(2) by simp
  from login_tokens_evict [OF this] this assms show ?thesis
    by (auto simp: ensure_csrf_cookie_def Let_def split: option.splits if_splits)
qed

lemma binding_login_tokens: "csrf_binding env headers now s = (s', b) \<Longrightarrow> login_tokens_ok (ai_login_csrf_tokens s) \<Longrightarrow>
    login_tokens_ok (ai_login_csrf_tokens s')"
  by (auto simp: csrf_binding_def Let_def split: option.splits if_splits)

lemma verify_login_tokens: "verify_login env headers username password stored completed now s = (s', r) \<Longrightarrow>
    login_tokens_ok (ai_login_csrf_tokens s) \<Longrightarrow> login_tokens_ok (ai_login_csrf_tokens s')"
  by (auto simp: verify_login_def split: prod.splits option.splits dest: binding_login_tokens)

lemma authorize_session_tables: "authorize_session env headers q scope now s = (s', a) \<Longrightarrow>
    ai_login_csrf_tokens s' = ai_login_csrf_tokens s"
  by (auto simp: authorize_session_def Let_def split: option.splits)

lemma authorize_login_tokens: "authorize_with_scope env headers q scope now utc s = (s', a) \<Longrightarrow>
    ai_login_csrf_tokens s' = ai_login_csrf_tokens s"
  by (auto simp: authorize_with_scope_def Let_def split: option.splits if_splits dest: authorize_session_tables)

lemma complete_login_tokens: "complete_login env v a b now s = (s', r) \<Longrightarrow> login_tokens_ok (ai_login_csrf_tokens s) \<Longrightarrow>
    login_tokens_ok (ai_login_csrf_tokens s')"
  by (auto simp: complete_login_def issue_session_def Let_def remove_key_def login_tokens_filter
      split: option.splits CsrfBinding.splits)

text \<open>
  however many browsers ask for a sign-in page, the table of login tokens never holds more than
  \<open>MAX_LOGIN_CSRF_TOKENS\<close> entries, one for each token.\<close>

theorem login_tokens_bounded:
  assumes "auth_reach env (auth_new env password_hash bearer secure oidc dev) events V s"
  shows "length (ai_login_csrf_tokens s) \<le> MAX_LOGIN_CSRF_TOKENS \<and> distinct (map fst (ai_login_csrf_tokens s))"
proof -
  have "login_tokens_ok (ai_login_csrf_tokens s)"
    using assms
  proof (induction rule: auth_reach.induct)
    case auth_start
    then show ?case by (simp add: auth_new_def login_tokens_ok_def)
  next
    case (auth_oidc events V s token csrf now s' i)
    then show ?case by (auto simp: issue_session_def)
  qed (auto intro: ensure_login_tokens verify_login_tokens complete_login_tokens
      simp: authorize_login_tokens load_operator_tokens_def add_operator_token_def revoke_operator_token_def
        auth_logout_def disable_bootstrap_bearer_def split: option.splits)
  then show ?thesis by (simp add: login_tokens_ok_def)
qed

section \<open>Round trip of the cookies\<close>

lemma split_on_skip: "c \<notin> set xs \<Longrightarrow> split_on c p (xs @ ys) = split_on c (p @ xs) ys"
  by (induction xs arbitrary: p) auto

text \<open>A random token is in the URL-safe alphabet of base 64.\<close>

definition token_text :: "str \<Rightarrow> bool" where
  "token_text s \<longleftrightarrow> list_all (\<lambda>c. 48 \<le> c \<and> c \<le> 57 \<or> 65 \<le> c \<and> c \<le> 90 \<or> 97 \<le> c \<and> c \<le> 122 \<or> c = 45 \<or> c = 95) s"

lemma token_text_plain: "token_text s \<Longrightarrow> 59 \<notin> set s \<and> 61 \<notin> set s \<and> (\<forall>c \<in> set s. \<not> is_whitespace c)"
  by (auto simp: token_text_def list_all_iff is_whitespace_def)

text \<open>What a browser keeps of a cookie: its name and value, up to the first semicolon.\<close>

definition cookie_pair :: "str \<Rightarrow> str" where
  "cookie_pair set_cookie = hd (split_on 59 [] set_cookie)"

lemma split_on_first: "59 \<notin> set xs \<Longrightarrow> hd (split_on 59 [] (xs @ 59 # ys)) = xs"
  by (simp add: split_on_skip)

lemma issued_pairs:
  assumes "token_text token"
  shows "cookie_pair (session_cookie s token) = SESSION_COOKIE @ [61] @ token"
    and "cookie_pair (csrf_cookie s token ttl) = CSRF_COOKIE @ [61] @ token"
proof -
  have a: "59 \<notin> set (SESSION_COOKIE @ [61] @ token)" and b: "59 \<notin> set (CSRF_COOKIE @ [61] @ token)"
    using token_text_plain [OF assms] by (auto simp: SESSION_COOKIE_def CSRF_COOKIE_def)
  show "cookie_pair (session_cookie s token) = SESSION_COOKIE @ [61] @ token"
    using split_on_first [OF a] by (simp add: cookie_pair_def session_cookie_def)
  show "cookie_pair (csrf_cookie s token ttl) = CSRF_COOKIE @ [61] @ token"
    using split_on_first [OF b] by (simp add: cookie_pair_def csrf_cookie_def)
qed

lemma split_once_pair: "c \<notin> set k \<Longrightarrow> split_once c (k @ c # v) = Some (k, v)"
  by (simp add: split_once_def takeWhile_append dropWhile_append)

definition browser_headers :: "IssuedSession \<Rightarrow> str \<Rightarrow> HeaderMap" where
  "browser_headers issued csrf =
     [(lit ''cookie'', Some (cookie_pair (is_session_cookie issued) @ lit ''; '' @ cookie_pair (is_csrf_cookie issued))),
      (CSRF_HEADER, Some csrf)]"

lemma browser_cookies:
  assumes "token_text token" "token_text csrf"
    "issued = \<lparr>is_session_cookie = session_cookie s token, is_csrf_cookie = csrf_cookie s csrf ttl\<rparr>"
  shows "cookie_pairs (browser_headers issued csrf') = [(SESSION_COOKIE, token), (CSRF_COOKIE, csrf)]"
proof -
  let ?a = "SESSION_COOKIE @ 61 # token" and ?b = "CSRF_COOKIE @ 61 # csrf"
  have ws: "\<forall>c \<in> set ?a. \<not> is_whitespace c" "\<forall>c \<in> set ?b. \<not> is_whitespace c"
    and semi: "59 \<notin> set ?a" "59 \<notin> set (32 # ?b)"
    using token_text_plain [OF assms(1)] token_text_plain [OF assms(2)]
    by (auto simp: SESSION_COOKIE_def CSRF_COOKIE_def is_whitespace_def)
  have "split_on 59 [] (?a @ 59 # (32 # ?b)) = [?a, 32 # ?b]"
    using split_on_skip [OF semi(1), of "[]" "59 # (32 # ?b)"] split_on_skip [OF semi(2), of "[]" "[]"] by simp
  moreover have "str_trim ?a = ?a" using ws(1) by (rule str_trim_none)
  moreover have "str_trim (32 # ?b) = str_trim ?b"
    by (simp add: str_trim_def trim_start_by_def is_whitespace_def)
  moreover have "str_trim ?b = ?b" using ws(2) by (rule str_trim_none)
  moreover have "61 \<notin> set SESSION_COOKIE" "61 \<notin> set CSRF_COOKIE"
    by (simp_all add: SESSION_COOKIE_def CSRF_COOKIE_def)
  ultimately show ?thesis
    by (simp add: cookie_pairs_def browser_headers_def assms(3) issued_pairs [OF assms(1)] issued_pairs [OF assms(2)]
        List.map_filter_simps split_once_pair CSRF_HEADER_def)
qed


text \<open>
  C32: a user with the role \<open>viewer\<close> cannot sign out: the handler asks for the scope \<open>control\<close>, so a valid
  session with the right CSRF token is refused, as a failed CSRF validation, and stays valid.\<close>

theorem viewer_cannot_log_out:
  assumes "digest_laws env" "\<not> ai_dev_auth_disabled s" "bearer_token headers = None"
    "cookie headers SESSION_COOKIE = Some token" "ai_sessions s (ae_digest env token) = Some session"
    "csrf_header_valid env headers session" "role_scopes (lit ''viewer'') = Some (su_scopes (sr_user session))"
    "fst clock < sr_expires_at session" "fst clock' < sr_expires_at session"
  shows "\<exists>s'. logout_handler env headers clock clock' s = (s', Inl CsrfFailed)
    \<and> ai_sessions s' (ae_digest env token) = Some session"
proof -
  have "su_scopes (sr_user session) = [OPERATOR_TOKEN_READ_SCOPE, OPERATOR_TOKEN_OUTPUT_SCOPE]"
    using assms(7) by (simp add: role_scopes_def)
  then have "\<not> scope_ok (su_scopes (sr_user session)) (Some OPERATOR_TOKEN_CONTROL_SCOPE)"
    by (simp add: scope_ok_def scope_satisfied_def OPERATOR_TOKEN_CONTROL_SCOPE_def
        OPERATOR_TOKEN_READ_SCOPE_def OPERATOR_TOKEN_OUTPUT_SCOPE_def OPERATOR_TOKEN_ADMIN_SCOPE_def)
  moreover have "scope_ok (su_scopes (sr_user session)) None" by (simp add: scope_ok_def)
  ultimately show ?thesis
    using assms by (simp add: logout_handler_def require_admin_mutation_def require_scope_def authorize_with_scope_def
        authorize_session_def retain_sessions_def Let_def)
qed

section \<open>Examples\<close>

definition example_auth :: AuthEnv where
  "example_auth = \<lparr>ae_digest = (\<lambda>s. take 32 (map of_nat s @ replicate 32 0)), ae_verify = (=)\<rparr>"

definition example_start :: AuthInner where
  "example_start = auth_new example_auth (lit ''pw'') (lit ''bt'') True False False"

definition example_headers :: HeaderMap where
  "example_headers = [(lit ''cookie'', Some (lit ''iptv_session=s1; iptv_csrf=c1'')), (CSRF_HEADER, Some (lit ''c1''))]"

definition example_login_headers :: HeaderMap where
  "example_login_headers = [(lit ''cookie'', Some (lit ''iptv_csrf=l1'')), (CSRF_HEADER, Some (lit ''l1''))]"

definition example_viewer :: SessionUser where
  "example_viewer = \<lparr>su_id = lit ''u'', su_username = lit ''v'', su_display_name = lit ''V'',
     su_scopes = [OPERATOR_TOKEN_READ_SCOPE, OPERATOR_TOKEN_OUTPUT_SCOPE]\<rparr>"

definition example_login :: VerifiedLogin where
  "example_login = \<lparr>vl_csrf_binding = LoginToken (ae_digest example_auth (lit ''l1'')), vl_user = example_viewer\<rparr>"

definition example_signed_in :: AuthInner where
  "example_signed_in = fst (complete_login example_auth example_login (Some (lit ''s1'')) (Some (lit ''c1'')) 5 example_start)"

lemma example_laws: "digest_laws example_auth"
  by (simp add: digest_laws_def example_auth_def min_def)

lemmas example_eval = example_headers_def example_login_headers_def cookie_def cookie_pairs_def map_filter_simps
  SESSION_COOKIE_def CSRF_COOKIE_def CSRF_HEADER_def header_str_def bearer_token_def str_trim_def trim_start_by_def
  trim_end_by_def is_whitespace_def split_once_def

lemma example_password: "ae_verify example_auth a b \<longleftrightarrow> a = b"
  by (simp add: example_auth_def)

lemma example_cookies:
  "cookie example_headers SESSION_COOKIE = Some (lit ''s1'')" "cookie example_headers CSRF_COOKIE = Some (lit ''c1'')"
  "header_str example_headers CSRF_HEADER = Some (lit ''c1'')" "bearer_token example_headers = None"
  by (simp_all add: example_eval)

lemma example_login_cookies:
  "cookie example_login_headers SESSION_COOKIE = None" "cookie example_login_headers CSRF_COOKIE = Some (lit ''l1'')"
  "header_str example_login_headers CSRF_HEADER = Some (lit ''l1'')" "cookie [] c = None"
  by (simp_all add: example_eval)

lemma example_operator: "ae_digest example_auth (lit ''v'') \<noteq> ae_digest example_auth ADMIN_USERNAME"
  by (simp add: example_auth_def ADMIN_USERNAME_def)

lemma example_session: "ai_sessions example_signed_in (ae_digest example_auth (lit ''s1'')) =
    Some \<lparr>sr_csrf_hash = ae_digest example_auth (lit ''c1''), sr_expires_at = 5 + SESSION_TTL, sr_user = example_viewer\<rparr>"
  by (simp add: example_signed_in_def complete_login_def example_login_def issue_session_def Let_def)

lemma example_dev: "\<not> ai_dev_auth_disabled example_signed_in"
  by (simp add: example_signed_in_def complete_login_def example_login_def issue_session_def Let_def example_start_def auth_new_def)

theorem viewer_cannot_log_out_witness:
  "\<exists>s'. logout_handler example_auth example_headers (6, 0) (7, 0) example_signed_in = (s', Inl CsrfFailed)
    \<and> ai_sessions s' (ae_digest example_auth (lit ''s1'')) \<noteq> None"
  using viewer_cannot_log_out [OF example_laws example_dev example_cookies(4,1) example_session, of "(6, 0)" "(7, 0)"]
  by (auto simp: csrf_header_valid_def example_cookies digest_eq [OF example_laws] role_scopes_def example_viewer_def
      SESSION_TTL_def)

text \<open>The sign-in of a stored account, from the sign-in page on.\<close>

definition example_credential :: StoredUserCredential where
  "example_credential = \<lparr>sc_user = example_viewer, sc_password_hash = lit ''pw''\<rparr>"

definition example_page :: AuthInner where
  "example_page = fst (ensure_csrf_cookie example_auth [] 1 (Some (lit ''l1'')) example_start)"

definition example_verified :: AuthInner where
  "example_verified = fst (verify_login example_auth example_login_headers (lit ''v'') (lit ''pw'') (Some example_credential) True 2 example_page)"

definition example_done :: AuthInner where
  "example_done = fst (complete_login example_auth example_login (Some (lit ''s1'')) (Some (lit ''c1'')) 5 example_verified)"

lemma example_page_tokens: "ai_login_csrf_tokens example_page = [(ae_digest example_auth (lit ''l1''), 1 + LOGIN_CSRF_TTL)]"
  by (simp add: example_page_def ensure_csrf_cookie_def example_login_cookies Let_def evict_oldest_def insert_key_def
      remove_key_def MAX_LOGIN_CSRF_TOKENS_def retain_sessions_def retain_login_tokens_def example_start_def auth_new_def)

lemma example_page_reach: "auth_reach example_auth example_start [] {} example_page"
  using auth_ensure [OF auth_start, of example_auth "[]" 1 "Some (lit ''l1'')" example_start example_page]
  by (metis example_page_def fst_conv surj_pair)

lemma example_verify:
  "verify_login example_auth example_login_headers (lit ''v'') (lit ''pw'') (Some example_credential) True 2 example_page
    = (example_verified, Inr example_login)"
proof -
  have "snd (verify_login example_auth example_login_headers (lit ''v'') (lit ''pw'') (Some example_credential) True 2 example_page)
    = Inr example_login"
    by (simp add: verify_login_def csrf_binding_def example_login_cookies digest_eq [OF example_laws] Let_def
        example_page_tokens retain_sessions_def retain_login_tokens_def LOGIN_CSRF_TTL_def
        example_operator [simplified] example_password example_credential_def example_login_def example_viewer_def
        str_len_def utf8_len_def)
  then show ?thesis by (simp add: example_verified_def prod_eq_iff)
qed

lemma example_reach:
  "auth_reach example_auth example_start
     [LoggedIn example_login (lit ''s1'') 5, PasswordVerified (lit ''v'') (lit ''pw'') (Some example_credential) example_login]
     {example_login} example_done"
proof -
  from auth_login [OF auth_verified [OF example_page_reach example_verify], of example_login "lit ''s1''" "lit ''c1''" 5]
  show ?thesis by (metis example_done_def fst_conv surj_pair insertI1)
qed

lemma example_done_session: "ai_sessions example_done (ae_digest example_auth (lit ''s1'')) =
    Some \<lparr>sr_csrf_hash = ae_digest example_auth (lit ''c1''), sr_expires_at = 5 + SESSION_TTL, sr_user = example_viewer\<rparr>"
  by (simp add: example_done_def complete_login_def example_login_def issue_session_def Let_def)

lemma example_done_dev: "\<not> ai_dev_auth_disabled example_done"
proof -
  have "explained example_auth example_start
      [LoggedIn example_login (lit ''s1'') 5, PasswordVerified (lit ''v'') (lit ''pw'') (Some example_credential) example_login]
      example_done"
    using reach_explained [OF example_reach] by (simp add: example_start_def auth_new_def)
  then show ?thesis by (simp add: explained_def example_start_def auth_new_def)
qed


theorem sign_in_needs_a_password_witness:
  "session_user example_auth example_headers 9 example_done = Some example_viewer \<and>
   (\<exists>v token at username password stored.
      LoggedIn v token at \<in> set [LoggedIn example_login (lit ''s1'') 5,
        PasswordVerified (lit ''v'') (lit ''pw'') (Some example_credential) example_login] \<and> vl_user v = example_viewer
      \<and> password_checked example_auth example_start username password stored example_viewer)"
proof -
  have u: "session_user example_auth example_headers 9 example_done = Some example_viewer"
    by (simp add: session_user_def example_cookies example_done_session [simplified] SESSION_TTL_def)
  from sign_in_needs_a_password [OF example_laws example_reach [unfolded example_start_def] u] u show ?thesis
    by (auto simp: example_start_def)
qed

theorem login_tokens_bounded_witness:
  "length (ai_login_csrf_tokens example_page) \<le> MAX_LOGIN_CSRF_TOKENS \<and> length (ai_login_csrf_tokens example_page) = 1"
proof -
  from login_tokens_bounded [OF example_page_reach [unfolded example_start_def]] have "length (ai_login_csrf_tokens example_page) \<le> MAX_LOGIN_CSRF_TOKENS" ..
  moreover have "length (ai_login_csrf_tokens example_page) = 1" by (simp add: example_page_tokens)
  ultimately show ?thesis by simp
qed


end
