(* ===== verification/Tickets.thy ===== *)
theory Tickets
  imports Prelude
begin

text \<open>
  Tickets with a budget: the contract of the tables that hand out a secret and honour it a bounded number of
  times (the tokens of the HLS broker, the states of a sign-in through an identity provider).

  A provider is a labelled step relation; a step may leave an event in the log.  What a state still allows for a
  key, \<open>left\<close>, is nothing at first, grows by at most the budget when the key is issued, shrinks with every use and
  never grows otherwise.  The client's lemma is that uses stay within the budget of the issues.
\<close>

inductive history :: "('s \<Rightarrow> bool) \<Rightarrow> ('s \<Rightarrow> 'e option \<Rightarrow> 's \<Rightarrow> bool) \<Rightarrow> 'e list \<Rightarrow> 's \<Rightarrow> bool"
  for init :: "'s \<Rightarrow> bool" and step :: "'s \<Rightarrow> 'e option \<Rightarrow> 's \<Rightarrow> bool" where
  history_init: "init s \<Longrightarrow> history init step [] s"
| history_quiet: "history init step log s \<Longrightarrow> step s None s' \<Longrightarrow> history init step log s'"
| history_event: "history init step log s \<Longrightarrow> step s (Some e) s' \<Longrightarrow> history init step (e # log) s'"

definition occurrences :: "('e \<Rightarrow> 'k option) \<Rightarrow> 'k \<Rightarrow> 'e list \<Rightarrow> nat" where
  "occurrences f k log = length (filter (\<lambda>e. f e = Some k) log)"

lemma occurrences_simps [simp]:
  "occurrences f k [] = 0"
  "occurrences f k (e # log) = (if f e = Some k then 1 else 0) + occurrences f k log"
  by (simp_all add: occurrences_def)

locale limited_use =
  fixes init :: "'s \<Rightarrow> bool" and step :: "'s \<Rightarrow> 'e option \<Rightarrow> 's \<Rightarrow> bool"
    and ok :: "'s \<Rightarrow> bool" and left :: "'s \<Rightarrow> 'k \<Rightarrow> nat" and budget :: nat
    and issue_of :: "'e \<Rightarrow> 'k option" and use_of :: "'e \<Rightarrow> 'k option"
  assumes init_ok: "init s \<Longrightarrow> ok s"
    and init_left: "init s \<Longrightarrow> left s k = 0"
    and step_ok: "ok s \<Longrightarrow> step s label s' \<Longrightarrow> ok s'"
    and quiet_left: "ok s \<Longrightarrow> step s None s' \<Longrightarrow> left s' k \<le> left s k"
    and event_left: "ok s \<Longrightarrow> step s (Some e) s' \<Longrightarrow>
      (if use_of e = Some k then 1 else 0) + left s' k \<le> left s k + (if issue_of e = Some k then budget else 0)"
begin

lemma history_ok: "history init step log s \<Longrightarrow> ok s"
  by (induction rule: history.induct) (auto intro: init_ok step_ok)

lemma uses_within_budget:
  "history init step log s \<Longrightarrow> occurrences use_of k log + left s k \<le> budget * occurrences issue_of k log"
proof (induction rule: history.induct)
  case (history_init s)
  then show ?case by (simp add: init_left)
next
  case (history_quiet log s s')
  from quiet_left [OF history_ok [OF history_quiet.hyps(1)] history_quiet.hyps(2), of k] history_quiet.IH
  show ?case by linarith
next
  case (history_event log s e s')
  from event_left [OF history_ok [OF history_event.hyps(1)] history_event.hyps(2), of k] history_event.IH
  show ?case by (simp add: algebra_simps split: if_splits)
qed

text \<open>A key that a state still allows has been issued more often than it was used up.\<close>

lemma left_means_unused:
  assumes "history init step log s" "0 < left s k"
  shows "occurrences use_of k log < budget * occurrences issue_of k log"
  using uses_within_budget [OF assms(1), of k] assms(2) by linarith

end

end
