(* ===== verification/Oidc.thy ===== *)
theory Oidc
  imports Auth Tickets
begin

text \<open>
  Sign-in through an identity provider (\<open>crates/api/src/oidc.rs\<close> and the methods of
  \<open>crates/api/src/auth.rs\<close> that call it).

  Parsing of URLs, JSON and JSON Web Tokens, RSA keys and the URL-safe base 64 of SHA-256 are the fields of
  \<open>OidcEnv\<close>; an HTTP exchange is a function of the request in \<open>OidcNet\<close>, whose result is
  an error or a response with its chunks.  The client has two mutexes, each held for one section:
  \<open>insert_pending\<close>, \<open>take_pending\<close>, the read of the cached provider and its write.  What other
  tasks do between two sections of an operation is an argument \<open>others\<close> of the operation, a function on
  the state.
\<close>

section \<open>Configuration\<close>

definition OIDC_STATE_COOKIE :: str where
  "OIDC_STATE_COOKIE = lit ''iptv_oidc_state''"

definition OIDC_STATE_TTL :: duration where
  "OIDC_STATE_TTL = 10 * 60 * 10 ^ 9"

definition MAX_PENDING_LOGINS :: usize where
  "MAX_PENDING_LOGINS = 4096"

definition MAX_STATE_BYTES :: usize where
  "MAX_STATE_BYTES = 128"

definition MAX_CODE_BYTES :: usize where
  "MAX_CODE_BYTES = 8192"

definition OIDC_CLOCK_SKEW_SECS :: int where
  "OIDC_CLOCK_SKEW_SECS = 60"

definition MAX_DISCOVERY_BODY_BYTES :: usize where
  "MAX_DISCOVERY_BODY_BYTES = 64 * 1024"

definition MAX_TOKEN_BODY_BYTES :: usize where
  "MAX_TOKEN_BODY_BYTES = 64 * 1024"

definition MAX_JWKS_BODY_BYTES :: usize where
  "MAX_JWKS_BODY_BYTES = 256 * 1024"

datatype JsonValue = JsonString str | JsonArray "JsonValue list" | JsonOther

datatype Algorithm = HS256 | HS384 | HS512 | ES256 | ES384 | RS256 | RS384 | RS512 | PS256 | PS384 | PS512 | EdDSA

record DiscoveryDocument =
  dd_issuer :: str
  dd_authorization_endpoint :: str
  dd_token_endpoint :: str
  dd_jwks_uri :: str
  dd_token_endpoint_auth_methods_supported :: "str list option"

record JsonWebKey =
  jk_kty :: str
  jk_kid :: "str option"
  jk_n :: "str option"
  jk_e :: "str option"
  jk_alg :: "str option"
  jk_use :: "str option"

record IdTokenClaims =
  cl_iss :: str
  cl_sub :: str
  cl_aud :: JsonValue
  cl_exp :: int
  cl_iat :: int
  cl_nonce :: str
  cl_email :: "str option"
  cl_email_verified :: "bool option"
  cl_azp :: "str option"

record ('u, 'k) OidcEnv =
  oe_auth :: AuthEnv
  oe_url_parse :: "str \<Rightarrow> 'u option"
  oe_scheme :: "'u \<Rightarrow> str"
  oe_host_str :: "'u \<Rightarrow> str option"
  oe_username :: "'u \<Rightarrow> str"
  oe_password :: "'u \<Rightarrow> str option"
  oe_query :: "'u \<Rightarrow> str option"
  oe_fragment :: "'u \<Rightarrow> str option"
  oe_as_str :: "'u \<Rightarrow> str"
  oe_append_pairs :: "'u \<Rightarrow> (str \<times> str) list \<Rightarrow> str"
  oe_challenge :: "str \<Rightarrow> str"
  oe_discovery_json :: "bytes \<Rightarrow> DiscoveryDocument option"
  oe_token_json :: "bytes \<Rightarrow> str option option"
  oe_keys_json :: "bytes \<Rightarrow> JsonWebKey list option"
  oe_decode_header :: "str \<Rightarrow> (str option \<times> Algorithm) option"
  oe_rsa_key :: "str \<Rightarrow> str \<Rightarrow> 'k option"
  oe_decode :: "str \<Rightarrow> 'k \<Rightarrow> Algorithm \<Rightarrow> str \<Rightarrow> str \<Rightarrow> IdTokenClaims option"

record OidcConfig =
  oc_issuer_url :: str
  oc_client_id :: str
  oc_client_secret :: "str option"
  oc_redirect_url :: str
  oc_allowed_subjects :: "str list"
  oc_allowed_emails :: "str list"
  oc_scopes :: "str list"

datatype OidcError = NotConfigured | InvalidConfiguration | InvalidProvider | ProviderUnavailable
  | InvalidState | InvalidCallback | IdentityNotAllowed | InvalidIdentityToken

text \<open>\<open>char::is_control\<close>: the general category \<open>Cc\<close>.\<close>

definition is_control :: "uchar \<Rightarrow> bool" where
  "is_control c \<longleftrightarrow> c \<le> 31 \<or> 127 \<le> c \<and> c \<le> 159"

definition contains_control :: "str \<Rightarrow> bool" where
  "contains_control value = list_ex is_control value"

definition normalize_entries :: "str list \<Rightarrow> bool \<Rightarrow> str list" where
  "normalize_entries values lowercase =
     map (\<lambda>value. if lowercase then to_ascii_lowercase value else value)
       (filter (\<lambda>value. value \<noteq> [] \<and> \<not> contains_control value) (map str_trim values))"

definition normalize_scopes :: "str list \<Rightarrow> str list" where
  "normalize_scopes values =
     (let values = filter (\<lambda>value. value \<noteq> []) (concat (map split_whitespace values))
      in if values = [] then [lit ''openid'', lit ''profile'', lit ''email''] else values)"

definition is_loopback_host :: "str \<Rightarrow> bool" where
  "is_loopback_host host \<longleftrightarrow> eq_ignore_ascii_case host (lit ''localhost'') \<or> host = lit ''127.0.0.1''
     \<or> host = lit ''[::1]'' \<or> host = lit ''::1''"

text \<open>The conditions that \<open>validate_endpoint_url\<close> and \<open>parse_provider_endpoint\<close> share.\<close>

definition url_is_bare :: "('u, 'k) OidcEnv \<Rightarrow> 'u \<Rightarrow> bool" where
  "url_is_bare env url \<longleftrightarrow> (oe_scheme env url = lit ''https'' \<or> oe_scheme env url = lit ''http'')
     \<and> oe_host_str env url \<noteq> None \<and> oe_username env url = [] \<and> oe_password env url = None
     \<and> oe_query env url = None \<and> oe_fragment env url = None"

definition url_is_exposed :: "('u, 'k) OidcEnv \<Rightarrow> 'u \<Rightarrow> bool" where
  "url_is_exposed env url \<longleftrightarrow> oe_scheme env url = lit ''http''
     \<and> \<not> is_loopback_host (case oe_host_str env url of None \<Rightarrow> [] | Some host \<Rightarrow> host)"

definition validate_endpoint_url :: "('u, 'k) OidcEnv \<Rightarrow> str \<Rightarrow> str \<Rightarrow> str + unit" where
  "validate_endpoint_url env value name =
     (case oe_url_parse env value of
        None \<Rightarrow> Inl (lit ''OIDC '' @ name @ lit '' URL is invalid'')
      | Some url \<Rightarrow>
          if \<not> url_is_bare env url
          then Inl (lit ''OIDC '' @ name @ lit '' URL must use HTTPS and have no credentials, query, or fragment'')
          else if url_is_exposed env url
          then Inl (lit ''OIDC '' @ name @ lit '' URL must use HTTPS outside loopback development hosts'')
          else Inr ())"

definition parse_provider_endpoint :: "('u, 'k) OidcEnv \<Rightarrow> str \<Rightarrow> OidcError + 'u" where
  "parse_provider_endpoint env value =
     (case oe_url_parse env value of
        None \<Rightarrow> Inl InvalidProvider
      | Some url \<Rightarrow> if \<not> url_is_bare env url \<or> url_is_exposed env url then Inl InvalidProvider else Inr url)"

definition discovery_url :: "('u, 'k) OidcEnv \<Rightarrow> 'u \<Rightarrow> OidcError + 'u" where
  "discovery_url env issuer =
     (case oe_url_parse env (trim_end_by (\<lambda>c. c = 47) (oe_as_str env issuer) @ lit ''/.well-known/openid-configuration'') of
        None \<Rightarrow> Inl InvalidConfiguration | Some url \<Rightarrow> Inr url)"

definition OidcConfig_new ::
    "('u, 'k) OidcEnv \<Rightarrow> str \<Rightarrow> str \<Rightarrow> str option \<Rightarrow> str \<Rightarrow> str list \<Rightarrow> str list \<Rightarrow> str list \<Rightarrow> str + OidcConfig" where
  "OidcConfig_new env issuer_url client_id client_secret redirect_url allowed_subjects allowed_emails scopes =
     (let issuer_url = str_trim issuer_url;
          client_id = str_trim client_id;
          redirect_url = str_trim redirect_url;
          client_secret = (case client_secret of None \<Rightarrow> None
            | Some secret \<Rightarrow> if str_trim secret = [] then None else Some (str_trim secret));
          allowed_subjects = normalize_entries allowed_subjects False;
          allowed_emails = normalize_entries allowed_emails True;
          scopes = normalize_scopes scopes
      in case validate_endpoint_url env issuer_url (lit ''issuer'') of Inl e \<Rightarrow> Inl e | Inr _ \<Rightarrow>
         case validate_endpoint_url env redirect_url (lit ''redirect'') of Inl e \<Rightarrow> Inl e | Inr _ \<Rightarrow>
         if client_id = [] \<or> str_len client_id > 256 \<or> contains_control client_id
         then Inl (lit ''OIDC client ID must contain 1-256 non-control characters'')
         else if (case client_secret of None \<Rightarrow> False | Some secret \<Rightarrow> str_len secret > 4096 \<or> contains_control secret)
         then Inl (lit ''OIDC client secret is too long or contains a control character'')
         else if allowed_subjects = [] \<and> allowed_emails = []
         then Inl (lit ''OIDC requires an approved subject or email allowlist'')
         else if scopes = [] \<or> list_ex contains_control scopes
         then Inl (lit ''OIDC scope values must contain non-control characters'')
         else Inr \<lparr>oc_issuer_url = issuer_url, oc_client_id = client_id, oc_client_secret = client_secret,
           oc_redirect_url = redirect_url, oc_allowed_subjects = allowed_subjects,
           oc_allowed_emails = allowed_emails, oc_scopes = scopes\<rparr>)"

definition allows :: "OidcConfig \<Rightarrow> str \<Rightarrow> str option \<Rightarrow> bool option \<Rightarrow> bool" where
  "allows self subject email email_verified =
     (if list_ex (\<lambda>value. value = subject) (oc_allowed_subjects self) then True
      else case email of
          None \<Rightarrow> False
        | Some email \<Rightarrow>
            if email_verified \<noteq> Some True then False
            else list_ex (\<lambda>value. value = to_ascii_lowercase (str_trim email)) (oc_allowed_emails self))"

section \<open>The client\<close>

record PendingLogin =
  pl_verifier :: str
  pl_nonce :: str
  pl_expires_at :: instant

record 'u OidcProvider =
  op_issuer :: str
  op_authorization_endpoint :: 'u
  op_token_endpoint :: 'u
  op_jwks_uri :: 'u

record 'u OidcInner =
  oi_config :: OidcConfig
  oi_provider :: "'u OidcProvider option"
  oi_pending :: "(bytes \<times> PendingLogin) list"

record OidcAuthorization =
  oz_location :: str
  oz_state_cookie :: str

definition OidcClient_new :: "OidcConfig \<Rightarrow> 'u OidcInner" where
  "OidcClient_new config = \<lparr>oi_config = config, oi_provider = None, oi_pending = []\<rparr>"

record Response =
  rp_success :: bool
  rp_content_length :: "nat option"
  rp_chunks :: "(unit + bytes) list"

record 'u OidcNet =
  nw_discovery :: "'u \<Rightarrow> unit + Response"
  nw_token :: "'u \<Rightarrow> (str \<times> str) list \<Rightarrow> (str \<times> str) option \<Rightarrow> unit + Response"
  nw_keys :: "'u \<Rightarrow> unit + Response"

datatype LimitedBodyError = BodyTooLarge | BodyRequest

definition append_limited_chunk :: "bytes \<Rightarrow> bytes \<Rightarrow> usize \<Rightarrow> LimitedBodyError + bytes" where
  "append_limited_chunk body chunk limit =
     (if length chunk > limit - length body then Inl BodyTooLarge else Inr (body @ chunk))"

fun read_chunks :: "(unit + bytes) list \<Rightarrow> usize \<Rightarrow> bytes \<Rightarrow> LimitedBodyError + bytes" where
  "read_chunks [] limit body = Inr body"
| "read_chunks (Inl _ # stream) limit body = Inl BodyRequest"
| "read_chunks (Inr chunk # stream) limit body =
     (case append_limited_chunk body chunk limit of
        Inl e \<Rightarrow> Inl e
      | Inr body \<Rightarrow> read_chunks stream limit body)"

definition read_limited_body :: "Response \<Rightarrow> usize \<Rightarrow> LimitedBodyError + bytes" where
  "read_limited_body response limit =
     (if (case rp_content_length response of None \<Rightarrow> False | Some len \<Rightarrow> len > limit) then Inl BodyTooLarge
      else read_chunks (rp_chunks response) limit [])"

text \<open>A request whose response must be a success with a body that is short enough and parses.\<close>

definition fetch :: "unit + Response \<Rightarrow> usize \<Rightarrow> OidcError \<Rightarrow> (bytes \<Rightarrow> 'a option) \<Rightarrow> OidcError + 'a" where
  "fetch sent limit invalid parse =
     (case sent of
        Inl _ \<Rightarrow> Inl ProviderUnavailable
      | Inr response \<Rightarrow>
          if \<not> rp_success response then Inl ProviderUnavailable
          else case read_limited_body response limit of
              Inl _ \<Rightarrow> Inl invalid
            | Inr body \<Rightarrow> (case parse body of None \<Rightarrow> Inl invalid | Some value \<Rightarrow> Inr value))"

definition state_cookie :: "str \<Rightarrow> bool \<Rightarrow> str" where
  "state_cookie state secure =
     OIDC_STATE_COOKIE @ [61] @ state @ lit ''; Path=/api/v1/auth/oidc; HttpOnly; SameSite=Lax; Max-Age=''
       @ decimal (OIDC_STATE_TTL div 10 ^ 9) @ (if secure then lit ''; Secure'' else [])"

definition clear_state_cookie :: "bool \<Rightarrow> str" where
  "clear_state_cookie secure =
     OIDC_STATE_COOKIE @ lit ''=; Path=/api/v1/auth/oidc; HttpOnly; SameSite=Lax; Max-Age=0''
       @ (if secure then lit ''; Secure'' else [])"

definition verify_state_cookie :: "('u, 'k) OidcEnv \<Rightarrow> HeaderMap \<Rightarrow> str \<Rightarrow> OidcError + unit" where
  "verify_state_cookie env headers state =
     (if state = [] \<or> str_len state > MAX_STATE_BYTES \<or> \<not> token_text state
         \<or> \<not> (case cookie headers OIDC_STATE_COOKIE of
               None \<Rightarrow> False
             | Some value \<Rightarrow> constant_time_eq (ae_digest (oe_auth env) value) (ae_digest (oe_auth env) state))
      then Inl InvalidState else Inr ())"

definition take_pending ::
    "('u, 'k) OidcEnv \<Rightarrow> str \<Rightarrow> instant \<Rightarrow> 'u OidcInner \<Rightarrow> 'u OidcInner \<times> (OidcError + PendingLogin)" where
  "take_pending env state now self =
     (let h = ae_digest (oe_auth env) state in
      case map_of (oi_pending self) h of
        None \<Rightarrow> (self, Inl InvalidState)
      | Some login \<Rightarrow>
          (self\<lparr>oi_pending := remove_key h (oi_pending self)\<rparr>,
           if pl_expires_at login > now then Inr login else Inl InvalidState))"

text \<open>The section of \<open>start\<close> that holds the table.\<close>

definition insert_pending ::
    "('u, 'k) OidcEnv \<Rightarrow> str \<Rightarrow> str \<Rightarrow> str \<Rightarrow> instant \<Rightarrow> 'u OidcInner \<Rightarrow> 'u OidcInner" where
  "insert_pending env state verifier nonce now self =
     (let pending = filter (\<lambda>(_, login). pl_expires_at login > now) (oi_pending self);
          pending = evict_oldest MAX_PENDING_LOGINS pl_expires_at pending
      in self\<lparr>oi_pending := insert_key (ae_digest (oe_auth env) state)
           \<lparr>pl_verifier = verifier, pl_nonce = nonce, pl_expires_at = now + OIDC_STATE_TTL\<rparr> pending\<rparr>)"

definition provider_of_document ::
    "('u, 'k) OidcEnv \<Rightarrow> OidcConfig \<Rightarrow> DiscoveryDocument \<Rightarrow> OidcError + 'u OidcProvider" where
  "provider_of_document env config document =
     (if dd_issuer document \<noteq> oc_issuer_url config then Inl InvalidProvider
      else if (case dd_token_endpoint_auth_methods_supported document of
          None \<Rightarrow> False
        | Some methods \<Rightarrow>
            \<not> list_ex (\<lambda>m. m = (if oc_client_secret config \<noteq> None then lit ''client_secret_basic'' else lit ''none'')) methods)
      then Inl InvalidProvider
      else case parse_provider_endpoint env (dd_authorization_endpoint document) of Inl e \<Rightarrow> Inl e
      | Inr authorization \<Rightarrow> case parse_provider_endpoint env (dd_token_endpoint document) of Inl e \<Rightarrow> Inl e
      | Inr token \<Rightarrow> case parse_provider_endpoint env (dd_jwks_uri document) of Inl e \<Rightarrow> Inl e
      | Inr keys \<Rightarrow> Inr \<lparr>op_issuer = dd_issuer document, op_authorization_endpoint = authorization,
          op_token_endpoint = token, op_jwks_uri = keys\<rparr>)"

definition oidc_provider ::
    "('u, 'k) OidcEnv \<Rightarrow> 'u OidcNet \<Rightarrow> ('u OidcInner \<Rightarrow> 'u OidcInner) \<Rightarrow> 'u OidcInner \<Rightarrow>
     'u OidcInner \<times> (OidcError + 'u OidcProvider)" where
  "oidc_provider env net others self =
     (case oi_provider self of
        Some provider \<Rightarrow> (self, Inr provider)
      | None \<Rightarrow>
          case oe_url_parse env (oc_issuer_url (oi_config self)) of
            None \<Rightarrow> (self, Inl InvalidConfiguration)
          | Some issuer \<Rightarrow>
              case discovery_url env issuer of
                Inl e \<Rightarrow> (self, Inl e)
              | Inr metadata_url \<Rightarrow>
                  let found = (case fetch (nw_discovery net metadata_url) MAX_DISCOVERY_BODY_BYTES InvalidProvider
                                   (oe_discovery_json env) of
                                 Inl e \<Rightarrow> Inl e
                               | Inr document \<Rightarrow> provider_of_document env (oi_config self) document);
                      self = others self
                  in case found of
                       Inl e \<Rightarrow> (self, Inl e)
                     | Inr provider \<Rightarrow> (self\<lparr>oi_provider := Some provider\<rparr>, Inr provider))"

definition oidc_start ::
    "('u, 'k) OidcEnv \<Rightarrow> 'u OidcNet \<Rightarrow> ('u OidcInner \<Rightarrow> 'u OidcInner) \<Rightarrow> ('u OidcInner \<Rightarrow> 'u OidcInner) \<Rightarrow>
     bool \<Rightarrow> str option \<Rightarrow> str option \<Rightarrow> str option \<Rightarrow> instant \<Rightarrow> 'u OidcInner \<Rightarrow>
     'u OidcInner \<times> (OidcError + OidcAuthorization)" where
  "oidc_start env net others others' secure_cookies random_state random_verifier random_nonce now self =
     (let config = oi_config self in
      case oidc_provider env net others self of
        (self, Inl e) \<Rightarrow> (self, Inl e)
      | (self, Inr provider) \<Rightarrow>
          (case (random_state, random_verifier, random_nonce) of
             (Some state, Some verifier, Some nonce) \<Rightarrow>
               (insert_pending env state verifier nonce now (others' self),
                Inr \<lparr>oz_location = oe_append_pairs env (op_authorization_endpoint provider)
                       [(lit ''client_id'', oc_client_id config), (lit ''response_type'', lit ''code''),
                        (lit ''redirect_uri'', oc_redirect_url config),
                        (lit ''scope'', str_join [32] (oc_scopes config)),
                        (lit ''state'', state), (lit ''nonce'', nonce),
                        (lit ''code_challenge'', oe_challenge env verifier), (lit ''code_challenge_method'', lit ''S256'')],
                     oz_state_cookie = state_cookie state secure_cookies\<rparr>)
           | _ \<Rightarrow> (self, Inl ProviderUnavailable)))"

section \<open>Identity tokens\<close>

fun json_str :: "JsonValue \<Rightarrow> str option" where
  "json_str (JsonString value) = Some value"
| "json_str _ = None"

fun audience_contains :: "JsonValue \<Rightarrow> str \<Rightarrow> bool" where
  "audience_contains (JsonString value) client_id = (value = client_id)"
| "audience_contains (JsonArray values) client_id = list_ex (\<lambda>value. json_str value = Some client_id) values"
| "audience_contains JsonOther client_id = False"

fun audience_party_is_valid :: "JsonValue \<Rightarrow> str option \<Rightarrow> str \<Rightarrow> bool" where
  "audience_party_is_valid (JsonArray values) authorized_party client_id =
     (if length values > 1 then authorized_party = Some client_id else True)"
| "audience_party_is_valid _ authorized_party client_id = True"

fun algorithm_name :: "Algorithm \<Rightarrow> str" where
  "algorithm_name HS256 = lit ''HS256''"
| "algorithm_name HS384 = lit ''HS384''"
| "algorithm_name HS512 = lit ''HS512''"
| "algorithm_name ES256 = lit ''ES256''"
| "algorithm_name ES384 = lit ''ES384''"
| "algorithm_name RS256 = lit ''RS256''"
| "algorithm_name RS384 = lit ''RS384''"
| "algorithm_name RS512 = lit ''RS512''"
| "algorithm_name PS256 = lit ''PS256''"
| "algorithm_name PS384 = lit ''PS384''"
| "algorithm_name PS512 = lit ''PS512''"
| "algorithm_name EdDSA = lit ''EdDSA''"

text \<open>\<open>i64::saturating_add\<close>.\<close>

definition i64_saturating_add :: "int \<Rightarrow> int \<Rightarrow> int" where
  "i64_saturating_add a b = max (- (2 ^ 63)) (min (2 ^ 63 - 1) (a + b))"

definition issued_at_is_valid :: "int \<Rightarrow> int \<Rightarrow> bool" where
  "issued_at_is_valid iat now \<longleftrightarrow> iat > 0 \<and> iat \<le> i64_saturating_add now OIDC_CLOCK_SKEW_SECS"

definition key_usable :: "str \<Rightarrow> Algorithm \<Rightarrow> JsonWebKey \<Rightarrow> bool" where
  "key_usable kid algorithm key \<longleftrightarrow> jk_kty key = lit ''RSA'' \<and> jk_kid key = Some kid
     \<and> (case jk_alg key of None \<Rightarrow> True | Some v \<Rightarrow> v = algorithm_name algorithm)
     \<and> (case jk_use key of None \<Rightarrow> True | Some v \<Rightarrow> v = lit ''sig'')"

text \<open>The checks on the claims of a token whose signature is valid; \<open>clock\<close> is the seconds since the epoch.\<close>

definition claims_valid :: "'u OidcProvider \<Rightarrow> str \<Rightarrow> int \<Rightarrow> IdTokenClaims \<Rightarrow> bool" where
  "claims_valid provider client_id now claims \<longleftrightarrow> cl_iss claims = op_issuer provider
     \<and> audience_contains (cl_aud claims) client_id
     \<and> audience_party_is_valid (cl_aud claims) (cl_azp claims) client_id
     \<and> cl_exp claims > 0 \<and> issued_at_is_valid (cl_iat claims) now"

definition verify_id_token ::
    "('u, 'k) OidcEnv \<Rightarrow> 'u OidcNet \<Rightarrow> OidcConfig \<Rightarrow> 'u OidcProvider \<Rightarrow> str \<Rightarrow> nat option \<Rightarrow>
     OidcError + IdTokenClaims" where
  "verify_id_token env net config provider id_token clock =
     (case oe_decode_header env id_token of
        None \<Rightarrow> Inl InvalidIdentityToken
      | Some (kid, algorithm) \<Rightarrow>
      case kid of None \<Rightarrow> Inl InvalidIdentityToken | Some kid \<Rightarrow>
      if algorithm \<notin> set [RS256, RS384, RS512, PS256, PS384, PS512] then Inl InvalidIdentityToken else
      case fetch (nw_keys net (op_jwks_uri provider)) MAX_JWKS_BODY_BYTES InvalidProvider (oe_keys_json env) of
        Inl e \<Rightarrow> Inl e
      | Inr keys \<Rightarrow>
      case find (key_usable kid algorithm) keys of
        None \<Rightarrow> Inl InvalidIdentityToken
      | Some key \<Rightarrow>
      case (jk_n key, jk_e key) of
        (Some n, Some e) \<Rightarrow>
          (case oe_rsa_key env n e of
             None \<Rightarrow> Inl InvalidIdentityToken
           | Some decoding_key \<Rightarrow>
           case oe_decode env id_token decoding_key algorithm (op_issuer provider) (oc_client_id config) of
             None \<Rightarrow> Inl InvalidIdentityToken
           | Some claims \<Rightarrow>
           case clock of
             None \<Rightarrow> Inl InvalidIdentityToken
           | Some secs \<Rightarrow>
               if secs \<ge> 2 ^ 63 then Inl InvalidIdentityToken
               else if \<not> claims_valid provider (oc_client_id config) (int secs) claims then Inl InvalidIdentityToken
               else Inr claims)
      | _ \<Rightarrow> Inl InvalidIdentityToken)"

section \<open>Callbacks\<close>

definition code_ok :: "str option \<Rightarrow> str option" where
  "code_ok code = (case code of None \<Rightarrow> None
     | Some value \<Rightarrow> if value \<noteq> [] \<and> str_len value \<le> MAX_CODE_BYTES then Some value else None)"

text \<open>The exchange of the code, which touches no state of the client.\<close>

definition exchange_code ::
    "('u, 'k) OidcEnv \<Rightarrow> 'u OidcNet \<Rightarrow> OidcConfig \<Rightarrow> 'u OidcProvider \<Rightarrow> PendingLogin \<Rightarrow> str \<Rightarrow> nat option \<Rightarrow>
     OidcError + unit" where
  "exchange_code env net config provider pending code clock =
     (let form = [(lit ''grant_type'', lit ''authorization_code''), (lit ''code'', code),
            (lit ''redirect_uri'', oc_redirect_url config), (lit ''client_id'', oc_client_id config),
            (lit ''code_verifier'', pl_verifier pending)];
          basic = map_option (\<lambda>secret. (oc_client_id config, secret)) (oc_client_secret config)
      in case fetch (nw_token net (op_token_endpoint provider) form basic) MAX_TOKEN_BODY_BYTES InvalidCallback
               (oe_token_json env) of
           Inl e \<Rightarrow> Inl e
         | Inr token \<Rightarrow>
         case token of None \<Rightarrow> Inl InvalidCallback | Some id_token \<Rightarrow>
         if id_token = [] then Inl InvalidCallback else
         case verify_id_token env net config provider id_token clock of
           Inl e \<Rightarrow> Inl e
         | Inr claims \<Rightarrow>
             if cl_nonce claims \<noteq> pl_nonce pending \<or> cl_sub claims = [] \<or> str_len (cl_sub claims) > 256
             then Inl InvalidIdentityToken
             else if \<not> allows config (cl_sub claims) (cl_email claims) (cl_email_verified claims)
             then Inl IdentityNotAllowed
             else Inr ())"

definition oidc_callback ::
    "('u, 'k) OidcEnv \<Rightarrow> 'u OidcNet \<Rightarrow> ('u OidcInner \<Rightarrow> 'u OidcInner) \<Rightarrow> ('u OidcInner \<Rightarrow> 'u OidcInner) \<Rightarrow>
     HeaderMap \<Rightarrow> str \<Rightarrow> str option \<Rightarrow> instant \<Rightarrow> nat option \<Rightarrow> 'u OidcInner \<Rightarrow> 'u OidcInner \<times> (OidcError + unit)" where
  "oidc_callback env net others others' headers state code now clock self =
     (let config = oi_config self in
      case verify_state_cookie env headers state of
        Inl e \<Rightarrow> (self, Inl e)
      | Inr _ \<Rightarrow>
          (case take_pending env state now self of
             (self, Inl e) \<Rightarrow> (self, Inl e)
           | (self, Inr pending) \<Rightarrow>
               (case code_ok code of
                  None \<Rightarrow> (self, Inl InvalidCallback)
                | Some code \<Rightarrow>
                    (case oidc_provider env net others' (others self) of
                       (self, Inl e) \<Rightarrow> (self, Inl e)
                     | (self, Inr provider) \<Rightarrow>
                         (self, exchange_code env net config provider pending code clock)))))"

definition oidc_cancel ::
    "('u, 'k) OidcEnv \<Rightarrow> HeaderMap \<Rightarrow> str \<Rightarrow> instant \<Rightarrow> 'u OidcInner \<Rightarrow> 'u OidcInner \<times> (OidcError + unit)" where
  "oidc_cancel env headers state now self =
     (case verify_state_cookie env headers state of
        Inl e \<Rightarrow> (self, Inl e)
      | Inr _ \<Rightarrow> (case take_pending env state now self of
            (self, Inl e) \<Rightarrow> (self, Inl e)
          | (self, Inr _) \<Rightarrow> (self, Inr ())))"

section \<open>The methods of the authentication manager\<close>

text \<open>The second component of the state is the client in the field \<open>oidc\<close>, \<open>None\<close> without a configuration.\<close>

definition start_oidc ::
    "('u, 'k) OidcEnv \<Rightarrow> 'u OidcNet \<Rightarrow> ('u OidcInner \<Rightarrow> 'u OidcInner) \<Rightarrow> ('u OidcInner \<Rightarrow> 'u OidcInner) \<Rightarrow>
     str option \<Rightarrow> str option \<Rightarrow> str option \<Rightarrow> instant \<Rightarrow> AuthInner \<times> 'u OidcInner option \<Rightarrow>
     (AuthInner \<times> 'u OidcInner option) \<times> (OidcError + OidcAuthorization)" where
  "start_oidc env net others others' random_state random_verifier random_nonce now self =
     (case self of
        (auth, None) \<Rightarrow> (self, Inl NotConfigured)
      | (auth, Some client) \<Rightarrow>
          (case oidc_start env net others others' (ai_secure_cookies auth) random_state random_verifier random_nonce now client of
             (client, r) \<Rightarrow> ((auth, Some client), r)))"

definition complete_oidc_login ::
    "('u, 'k) OidcEnv \<Rightarrow> 'u OidcNet \<Rightarrow> ('u OidcInner \<Rightarrow> 'u OidcInner) \<Rightarrow> ('u OidcInner \<Rightarrow> 'u OidcInner) \<Rightarrow>
     (AuthInner \<Rightarrow> AuthInner) \<Rightarrow> HeaderMap \<Rightarrow> str \<Rightarrow> str option \<Rightarrow> str option \<Rightarrow> str option \<Rightarrow>
     instant \<Rightarrow> instant \<Rightarrow> nat option \<Rightarrow> AuthInner \<times> 'u OidcInner option \<Rightarrow>
     (AuthInner \<times> 'u OidcInner option) \<times> (OidcError + IssuedSession)" where
  "complete_oidc_login env net others others' requests headers state code random_session random_csrf now now' clock self =
     (case self of
        (auth, None) \<Rightarrow> (self, Inl NotConfigured)
      | (auth, Some client) \<Rightarrow>
          (case oidc_callback env net others others' headers state code now clock client of
             (client, r) \<Rightarrow>
               let auth = requests auth
               in case r of
                    Inl e \<Rightarrow> ((auth, Some client), Inl e)
                  | Inr _ \<Rightarrow>
                      (case (random_session, random_csrf) of
                         (Some session_token, Some csrf_token) \<Rightarrow>
                           (case issue_session (oe_auth env) built_in_operator session_token csrf_token now' auth of
                              (auth, issued) \<Rightarrow> ((auth, Some client), Inr issued))
                       | _ \<Rightarrow> ((auth, Some client), Inl ProviderUnavailable))))"

definition cancel_oidc ::
    "('u, 'k) OidcEnv \<Rightarrow> HeaderMap \<Rightarrow> str \<Rightarrow> instant \<Rightarrow> AuthInner \<times> 'u OidcInner option \<Rightarrow>
     (AuthInner \<times> 'u OidcInner option) \<times> (OidcError + unit)" where
  "cancel_oidc env headers state now self =
     (case self of
        (auth, None) \<Rightarrow> (self, Inl NotConfigured)
      | (auth, Some client) \<Rightarrow>
          (case oidc_cancel env headers state now client of (client, r) \<Rightarrow> ((auth, Some client), r)))"

definition clear_oidc_state_cookie :: "AuthInner \<times> 'u OidcInner option \<Rightarrow> str" where
  "clear_oidc_state_cookie self =
     (case self of (auth, None) \<Rightarrow> [] | (auth, Some _) \<Rightarrow> clear_state_cookie (ai_secure_cookies auth))"

section \<open>Bodies\<close>

lemma read_chunks_ok: "length body \<le> limit \<Longrightarrow> read_chunks stream limit body = Inr r \<longleftrightarrow>
    (\<exists>chunks. stream = map Inr chunks \<and> r = body @ concat chunks \<and> length r \<le> limit)"
proof (induction stream limit body rule: read_chunks.induct)
  case (2 u stream limit body)
  show ?case by (auto simp: map_eq_Cons_conv dest!: sym [of "_ # _"])
next
  case (3 chunk stream limit body)
  show ?case
  proof (cases "length chunk > limit - length body")
    case True
    then show ?thesis using 3(2) by (auto simp: append_limited_chunk_def Cons_eq_map_conv)
  next
    case False
    then have "append_limited_chunk body chunk limit = Inr (body @ chunk)" "length (body @ chunk) \<le> limit"
      using 3(2) by (auto simp: append_limited_chunk_def)
    with 3(1) [OF this] show ?thesis by (auto simp: Cons_eq_map_conv)
  qed
qed auto

text \<open>
  a response body is read exactly when its announced length is not above the limit, no chunk fails and
  the chunks together are not longer than the limit; it is then the concatenation of the chunks.\<close>

theorem limited_body_is_exact:
  "read_limited_body response limit = Inr body \<longleftrightarrow>
     (case rp_content_length response of None \<Rightarrow> True | Some len \<Rightarrow> len \<le> limit)
     \<and> (\<exists>chunks. rp_chunks response = map Inr chunks \<and> body = concat chunks) \<and> length body \<le> limit"
  using read_chunks_ok [of "[]" limit "rp_chunks response" body]
  by (auto simp: read_limited_body_def split: option.splits)

section \<open>Histories of the client\<close>

datatype OidcEvent = OidcStarted bytes PendingLogin | OidcTaken bytes

inductive oidc_step :: "('u, 'k) OidcEnv \<Rightarrow> OidcConfig \<Rightarrow> 'u OidcInner \<Rightarrow> OidcEvent option \<Rightarrow> 'u OidcInner \<Rightarrow> bool"
  for env :: "('u, 'k) OidcEnv" and config :: OidcConfig where
  oidc_starts: "oidc_step env config s (Some (OidcStarted (ae_digest (oe_auth env) state)
        \<lparr>pl_verifier = verifier, pl_nonce = nonce, pl_expires_at = now + OIDC_STATE_TTL\<rparr>))
      (insert_pending env state verifier nonce now s)"
| oidc_takes: "take_pending env state now s = (s', Inr login) \<Longrightarrow>
    oidc_step env config s (Some (OidcTaken (ae_digest (oe_auth env) state))) s'"
| oidc_misses: "take_pending env state now s = (s', Inl e) \<Longrightarrow> oidc_step env config s None s'"
| oidc_caches: "provider_of_document env config document = Inr provider \<Longrightarrow>
    oidc_step env config s None (s\<lparr>oi_provider := Some provider\<rparr>)"

abbreviation oidc_reach :: "('u, 'k) OidcEnv \<Rightarrow> OidcConfig \<Rightarrow> OidcEvent list \<Rightarrow> 'u OidcInner \<Rightarrow> bool" where
  "oidc_reach env config \<equiv> history (\<lambda>s. s = OidcClient_new config) (oidc_step env config)"

lemmas oidc_started = history_event [where step = "oidc_step env config" for env config, OF _ oidc_starts]
  and oidc_taken = history_event [where step = "oidc_step env config" for env config, OF _ oidc_takes]
  and oidc_cached = history_quiet [where step = "oidc_step env config" for env config, OF _ oidc_caches]

fun started_of :: "OidcEvent \<Rightarrow> bytes option" where
  "started_of (OidcStarted h login) = Some h"
| "started_of (OidcTaken h) = None"

fun taken_of :: "OidcEvent \<Rightarrow> bytes option" where
  "taken_of (OidcStarted h login) = None"
| "taken_of (OidcTaken h) = Some h"

abbreviation starts :: "bytes \<Rightarrow> OidcEvent list \<Rightarrow> nat" where
  "starts \<equiv> occurrences started_of"

abbreviation takes :: "bytes \<Rightarrow> OidcEvent list \<Rightarrow> nat" where
  "takes \<equiv> occurrences taken_of"

definition pending_ok :: "(bytes \<times> PendingLogin) list \<Rightarrow> bool" where
  "pending_ok pending \<longleftrightarrow> distinct (map fst pending) \<and> length pending \<le> MAX_PENDING_LOGINS"

definition pending_left :: "'u OidcInner \<Rightarrow> bytes \<Rightarrow> nat" where
  "pending_left s h = (if h \<in> fst ` set (oi_pending s) then 1 else 0)"

lemma evict_oldest_set: "set (evict_oldest n f t) \<subseteq> set t"
  by (auto simp: evict_oldest_def remove_key_def split: list.splits if_splits)

lemma insert_pending_effect:
  assumes "pending_ok (oi_pending s)"
  shows "pending_ok (oi_pending (insert_pending env state verifier nonce now s))
    \<and> set (oi_pending (insert_pending env state verifier nonce now s)) \<subseteq> insert (ae_digest (oe_auth env) state,
        \<lparr>pl_verifier = verifier, pl_nonce = nonce, pl_expires_at = now + OIDC_STATE_TTL\<rparr>) (set (oi_pending s))"
proof -
  define f where "f = filter (\<lambda>(_, login). pl_expires_at login > now) (oi_pending s)"
  define t where "t = evict_oldest MAX_PENDING_LOGINS pl_expires_at f"
  have f: "distinct (map fst f)" "length f \<le> MAX_PENDING_LOGINS"
    using assms by (auto simp: f_def pending_ok_def distinct_map_filter intro: order_trans [OF length_filter_le])
  then have "length t < MAX_PENDING_LOGINS"
    unfolding t_def by (intro evict_oldest_bound) (auto simp: MAX_PENDING_LOGINS_def)
  moreover have "set t \<subseteq> set (oi_pending s)" "distinct (map fst t)"
    using evict_oldest_set [of MAX_PENDING_LOGINS pl_expires_at f] f by (auto simp: t_def f_def evict_oldest_distinct)
  ultimately have "length (insert_key k l t) \<le> MAX_PENDING_LOGINS" "distinct (map fst (insert_key k l t))"
      "set (insert_key k l t) \<subseteq> insert (k, l) (set (oi_pending s))" for k l
    using insert_key_length [of k l t] insert_key_distinct [of t k l] remove_key_set [of k t]
    by (simp_all add: insert_key_def) blast
  then show ?thesis
    unfolding insert_pending_def f_def [symmetric] t_def [symmetric] Let_def pending_ok_def by simp
qed

lemma take_pending_effect:
  assumes "take_pending env state now s = (s', r)"
  shows "pending_ok (oi_pending s) \<Longrightarrow> pending_ok (oi_pending s')"
    "set (oi_pending s') \<subseteq> set (oi_pending s)"
    "r = Inr login \<Longrightarrow> (ae_digest (oe_auth env) state, login) \<in> set (oi_pending s) \<and> now < pl_expires_at login
       \<and> ae_digest (oe_auth env) state \<notin> fst ` set (oi_pending s')"
proof -
  let ?h = "ae_digest (oe_auth env) state"
  have s': "oi_pending s' \<in> {oi_pending s, remove_key ?h (oi_pending s)}"
    using assms by (auto simp: take_pending_def Let_def split: option.splits)
  then show "pending_ok (oi_pending s) \<Longrightarrow> pending_ok (oi_pending s')"
    by (auto simp: pending_ok_def remove_key_distinct intro: order_trans [OF remove_key_length])
  show "set (oi_pending s') \<subseteq> set (oi_pending s)" using s' remove_key_set [of ?h "oi_pending s"] by auto
  show "(?h, login) \<in> set (oi_pending s) \<and> now < pl_expires_at login \<and> ?h \<notin> fst ` set (oi_pending s')" if "r = Inr login"
  proof -
    have "map_of (oi_pending s) ?h = Some login" "now < pl_expires_at login" "oi_pending s' = remove_key ?h (oi_pending s)"
      using assms that by (auto simp: take_pending_def Let_def split: option.splits if_splits)
    with remove_key_subset [of ?h "oi_pending s"] show ?thesis by (simp add: map_of_SomeD)
  qed
qed

lemma oidc_step_pending: "pending_ok (oi_pending s) \<Longrightarrow> oidc_step env config s e s' \<Longrightarrow> pending_ok (oi_pending s')"
  by (erule oidc_step.cases) (auto simp: insert_pending_effect take_pending_effect(1))

lemma pending_left_mono: "set (oi_pending s') \<subseteq> set (oi_pending s) \<Longrightarrow> pending_left s' k \<le> pending_left s k"
  by (auto simp: pending_left_def)

interpretation oidc_states: limited_use "\<lambda>s. s = OidcClient_new config" "oidc_step env config"
  "\<lambda>s. pending_ok (oi_pending s)" pending_left 1 started_of taken_of
  for config :: OidcConfig and env :: "('u, 'k) OidcEnv"
proof
  show "pending_left s' k \<le> pending_left s k" if "oidc_step env config s None s'" for s s' :: "'u OidcInner" and k
    using that by (cases rule: oidc_step.cases) (auto intro: pending_left_mono dest: take_pending_effect(2))
  show "(if taken_of e = Some k then 1 else 0) + pending_left s' k
      \<le> pending_left s k + (if started_of e = Some k then 1 else 0)"
    if "pending_ok (oi_pending s)" "oidc_step env config s (Some e) s'" for s s' :: "'u OidcInner" and e k
    using that(2)
  proof (cases rule: oidc_step.cases)
    case (oidc_starts state verifier nonce now)
    with insert_pending_effect [OF that(1), of env state verifier nonce now] show ?thesis
      by (fastforce simp: pending_left_def)
  next
    case (oidc_takes state now login)
    with take_pending_effect(2,3) [OF oidc_takes(2)] pending_left_mono [of s' s k] show ?thesis
      by (force simp: pending_left_def)
  qed
qed (erule (1) oidc_step_pending | simp add: OidcClient_new_def pending_left_def pending_ok_def)+

text \<open>The endpoints of an accepted document are plain HTTPS URLs, or HTTP ones of a loopback host.\<close>

definition provider_ok :: "('u, 'k) OidcEnv \<Rightarrow> OidcConfig \<Rightarrow> 'u OidcProvider \<Rightarrow> bool" where
  "provider_ok env config provider \<longleftrightarrow> op_issuer provider = oc_issuer_url config
     \<and> (\<forall>url \<in> {op_authorization_endpoint provider, op_token_endpoint provider, op_jwks_uri provider}.
          url_is_bare env url \<and> \<not> url_is_exposed env url)"

lemma parse_provider_endpoint_ok: "parse_provider_endpoint env v = Inr url \<Longrightarrow> url_is_bare env url \<and> \<not> url_is_exposed env url"
  by (auto simp: parse_provider_endpoint_def split: option.splits if_splits)

lemma provider_of_document_ok: "provider_of_document env config document = Inr provider \<Longrightarrow> provider_ok env config provider"
  by (auto simp: provider_of_document_def provider_ok_def parse_provider_endpoint_ok split: if_splits sum.splits)

lemma take_pending_keeps: "take_pending env state now s = (s', r) \<Longrightarrow>
    oi_config s' = oi_config s \<and> oi_provider s' = oi_provider s"
  by (auto simp: take_pending_def Let_def split: option.splits)

lemma oidc_reach_inv:
  assumes "oidc_reach env config log s"
  shows "oi_config s = config \<and> (\<forall>h login. (h, login) \<in> set (oi_pending s) \<longrightarrow> OidcStarted h login \<in> set log)
    \<and> (\<forall>provider. oi_provider s = Some provider \<longrightarrow> provider_ok env config provider)"
  using assms
proof (induction rule: history.induct)
  case (history_init s)
  then show ?case by (simp add: OidcClient_new_def)
next
  case (history_quiet log s s')
  from history_quiet(2,3) show ?case
    by (cases rule: oidc_step.cases)
      (auto dest: take_pending_keeps provider_of_document_ok take_pending_effect(2))
next
  case (history_event log s e s')
  from history_event(2) show ?case
  proof (cases rule: oidc_step.cases)
    case (oidc_starts state verifier nonce now)
    with insert_pending_effect [OF oidc_states.history_ok [OF history_event(1)], of env state verifier nonce now] history_event(3)
    show ?thesis by (auto simp: insert_pending_def Let_def)
  next
    case (oidc_takes state now login)
    with history_event(3) take_pending_keeps [OF oidc_takes(2)] take_pending_effect(2) [OF oidc_takes(2)] show ?thesis by auto
  qed
qed

text \<open>What other tasks do is a sequence of sections.\<close>

definition tasks_ok :: "('u, 'k) OidcEnv \<Rightarrow> OidcConfig \<Rightarrow> ('u OidcInner \<Rightarrow> 'u OidcInner) \<Rightarrow> bool" where
  "tasks_ok env config others \<longleftrightarrow>
     (\<forall>log s. oidc_reach env config log s \<longrightarrow> (\<exists>log'. oidc_reach env config (log' @ log) (others s)))"

lemma provider_reach:
  assumes "oidc_reach env config log s" "tasks_ok env config others" "oidc_provider env net others s = (s', r)"
  shows "(\<exists>log'. oidc_reach env config (log' @ log) s')
    \<and> (\<forall>provider. r = Inr provider \<longrightarrow> provider_ok env config provider)"
proof -
  have inv: "oi_config s = config" "\<And>p. oi_provider s = Some p \<Longrightarrow> provider_ok env config p"
    using oidc_reach_inv [OF assms(1)] by auto
  obtain log' where l: "oidc_reach env config (log' @ log) (others s)"
    using assms(1,2) by (auto simp: tasks_ok_def)
  have self: "\<exists>log'. oidc_reach env config (log' @ log) s" using assms(1) by (metis append_Nil)
  show ?thesis
    using assms(3) self l inv oidc_cached [OF l] provider_of_document_ok
    by (auto simp: oidc_provider_def Let_def split: option.splits sum.splits)
qed

lemma callback_reach:
  assumes "oidc_reach env config log s" "tasks_ok env config others" "tasks_ok env config others'"
    "oidc_callback env net others others' headers state code now clock s = (s', Inr u)"
  shows "\<exists>log' login provider code'. oidc_reach env config (log' @ OidcTaken (ae_digest (oe_auth env) state) # log) s'
    \<and> OidcStarted (ae_digest (oe_auth env) state) login \<in> set log
    \<and> takes (ae_digest (oe_auth env) state) log < starts (ae_digest (oe_auth env) state) log
    \<and> now < pl_expires_at login \<and> provider_ok env config provider
    \<and> exchange_code env net config provider login code' clock = Inr ()"
proof -
  let ?h = "ae_digest (oe_auth env) state"
  obtain t login code' provider where t: "take_pending env state now s = (t, Inr login)"
      and p: "oidc_provider env net others' (others t) = (s', Inr provider)"
      and e: "exchange_code env net (oi_config s) provider login code' clock = Inr ()"
    using assms(4) by (auto simp: oidc_callback_def Let_def split: sum.splits prod.splits option.splits)
  have inv: "oi_config s = config" "\<And>h login. (h, login) \<in> set (oi_pending s) \<Longrightarrow> OidcStarted h login \<in> set log"
    using oidc_reach_inv [OF assms(1)] by auto
  obtain log1 where "oidc_reach env config (log1 @ OidcTaken ?h # log) (others t)"
    using oidc_taken [OF assms(1) t] assms(2) by (auto simp: tasks_ok_def)
  from provider_reach [OF this assms(3) p] obtain log2
    where "oidc_reach env config ((log2 @ log1) @ OidcTaken ?h # log) s'" "provider_ok env config provider" by auto
  moreover have pending: "(?h, login) \<in> set (oi_pending s)" "now < pl_expires_at login"
    using take_pending_effect(3) [OF t refl] by simp_all
  moreover have "0 < pending_left s ?h" using pending(1) by (force simp: pending_left_def)
  then have "takes ?h log < starts ?h log" using oidc_states.left_means_unused [OF assms(1)] by fastforce
  ultimately show ?thesis using inv e by blast
qed

lemma verify_id_token_ok:
  assumes "verify_id_token env net config provider id_token clock = Inr claims"
  shows "\<exists>key algorithm secs. oe_decode env id_token key algorithm (op_issuer provider) (oc_client_id config) = Some claims
    \<and> algorithm \<in> {RS256, RS384, RS512, PS256, PS384, PS512} \<and> clock = Some secs
    \<and> claims_valid provider (oc_client_id config) (int secs) claims"
  using assms unfolding verify_id_token_def
  by (simp split: option.splits if_splits sum.splits prod.splits) blast

lemma exchange_code_ok:
  assumes "exchange_code env net config provider login code clock = Inr ()"
  shows "\<exists>id_token claims. verify_id_token env net config provider id_token clock = Inr claims
    \<and> cl_nonce claims = pl_nonce login \<and> allows config (cl_sub claims) (cl_email claims) (cl_email_verified claims)"
  using assms by (auto simp: exchange_code_def Let_def split: option.splits if_splits sum.splits)

lemma verify_state_cookie_ok:
  assumes "digest_laws (oe_auth env)" "verify_state_cookie env headers state = Inr u"
  shows "\<exists>value. cookie headers OIDC_STATE_COOKIE = Some value
    \<and> ae_digest (oe_auth env) value = ae_digest (oe_auth env) state"
  using assms(2) by (auto simp: verify_state_cookie_def digest_eq [OF assms(1)] split: if_splits option.splits)

text \<open>What the acceptance of an identity means: a token signed for this client and this sign-in, of an approved identity.\<close>

definition identity_accepted :: "('u, 'k) OidcEnv \<Rightarrow> OidcConfig \<Rightarrow> PendingLogin \<Rightarrow> bool" where
  "identity_accepted env config login \<longleftrightarrow>
     (\<exists>id_token key algorithm claims.
        oe_decode env id_token key algorithm (oc_issuer_url config) (oc_client_id config) = Some claims
        \<and> algorithm \<in> {RS256, RS384, RS512, PS256, PS384, PS512}
        \<and> cl_iss claims = oc_issuer_url config \<and> audience_contains (cl_aud claims) (oc_client_id config)
        \<and> audience_party_is_valid (cl_aud claims) (cl_azp claims) (oc_client_id config)
        \<and> cl_nonce claims = pl_nonce login
        \<and> allows config (cl_sub claims) (cl_email claims) (cl_email_verified claims))"

lemma exchange_accepts:
  assumes "exchange_code env net config provider login code clock = Inr ()" "provider_ok env config provider"
  shows "identity_accepted env config login"
proof -
  obtain id_token claims where c: "verify_id_token env net config provider id_token clock = Inr claims"
      "cl_nonce claims = pl_nonce login" "allows config (cl_sub claims) (cl_email claims) (cl_email_verified claims)"
    using exchange_code_ok [OF assms(1)] by blast
  from verify_id_token_ok [OF c(1)] c(2,3) assms(2) show ?thesis
    unfolding identity_accepted_def provider_ok_def claims_valid_def by metis
qed


text \<open>
  C17: however sign-ins are started, completed and cancelled, a state is used at most as often as a sign-in
  was started with it, at most \<open>MAX_PENDING_LOGINS\<close> sign-ins are pending, and a cached provider has the
  configured issuer and endpoints that are plain HTTPS URLs, or HTTP ones of a loopback host.\<close>

theorem oidc_states_are_single_use:
  assumes "oidc_reach env config log client"
  shows "takes h log \<le> starts h log \<and> length (oi_pending client) \<le> MAX_PENDING_LOGINS
    \<and> (case oi_provider client of None \<Rightarrow> True | Some provider \<Rightarrow> provider_ok env config provider)"
  using oidc_reach_inv [OF assms] oidc_states.uses_within_budget [OF assms, of h] oidc_states.history_ok [OF assms]
  by (auto simp: pending_ok_def split: option.splits)

text \<open>
  the allow-list of an accepted configuration approves a subject exactly as the operator wrote it, up to
  surrounding white space, and an address only when the provider has verified it, without regard to the case
  of ASCII letters and to surrounding white space; empty entries and entries with control characters count for
  nothing, and there is always one entry.\<close>

theorem allow_list_is_respected:
  assumes "OidcConfig_new env issuer client_id secret redirect subjects emails scopes = Inr config"
  shows "(allows config subject email email_verified \<longleftrightarrow>
      (\<exists>s \<in> set subjects. str_trim s = subject \<and> subject \<noteq> [] \<and> \<not> contains_control subject) \<or>
      (email_verified = Some True \<and> (\<exists>address. email = Some address \<and>
         (\<exists>e \<in> set emails. eq_ignore_ascii_case (str_trim e) (str_trim address)
            \<and> str_trim e \<noteq> [] \<and> \<not> contains_control (str_trim e)))))
    \<and> (oc_allowed_subjects config \<noteq> [] \<or> oc_allowed_emails config \<noteq> [])"
proof -
  have c: "oc_allowed_subjects config = normalize_entries subjects False"
      "oc_allowed_emails config = normalize_entries emails True"
      "normalize_entries subjects False \<noteq> [] \<or> normalize_entries emails True \<noteq> []"
    using assms by (auto simp: OidcConfig_new_def Let_def split: sum.splits if_splits)
  have "list_ex (\<lambda>v. v = subject) (normalize_entries subjects False) \<longleftrightarrow>
      (\<exists>s \<in> set subjects. str_trim s = subject \<and> subject \<noteq> [] \<and> \<not> contains_control subject)"
    by (auto simp: normalize_entries_def list_ex_iff)
  moreover have "list_ex (\<lambda>v. v = to_ascii_lowercase (str_trim a)) (normalize_entries emails True) \<longleftrightarrow>
      (\<exists>e \<in> set emails. eq_ignore_ascii_case (str_trim e) (str_trim a) \<and> str_trim e \<noteq> [] \<and> \<not> contains_control (str_trim e))" for a
    by (force simp: normalize_entries_def list_ex_iff eq_ignore_ascii_case_def image_iff)
  ultimately show ?thesis
    using c(3) unfolding allows_def c(1,2) by (auto split: option.splits)
qed

section \<open>Examples\<close>

text \<open>An identity provider that signs the nonce it was given, in a world where every string is a URL.\<close>

definition example_config :: OidcConfig where
  "example_config = \<lparr>oc_issuer_url = lit ''https://i'', oc_client_id = lit ''c'', oc_client_secret = None,
     oc_redirect_url = lit ''https://r'', oc_allowed_subjects = [lit ''s''], oc_allowed_emails = [], oc_scopes = [lit ''openid'']\<rparr>"

definition example_claims :: IdTokenClaims where
  "example_claims = \<lparr>cl_iss = lit ''https://i'', cl_sub = lit ''s'', cl_aud = JsonString (lit ''c''), cl_exp = 9,
     cl_iat = 1, cl_nonce = lit ''n'', cl_email = None, cl_email_verified = None, cl_azp = None\<rparr>"

definition example_oidc :: "(str, unit) OidcEnv" where
  "example_oidc = \<lparr>oe_auth = example_auth, oe_url_parse = Some, oe_scheme = (\<lambda>_. lit ''https''),
     oe_host_str = (\<lambda>_. Some (lit ''i'')), oe_username = (\<lambda>_. []), oe_password = (\<lambda>_. None), oe_query = (\<lambda>_. None),
     oe_fragment = (\<lambda>_. None), oe_as_str = (\<lambda>u. u), oe_append_pairs = (\<lambda>u _. u), oe_challenge = (\<lambda>v. v),
     oe_discovery_json = (\<lambda>_. Some \<lparr>dd_issuer = lit ''https://i'', dd_authorization_endpoint = lit ''a'',
        dd_token_endpoint = lit ''t'', dd_jwks_uri = lit ''k'', dd_token_endpoint_auth_methods_supported = None\<rparr>),
     oe_token_json = (\<lambda>_. Some (Some (lit ''token''))),
     oe_keys_json = (\<lambda>_. Some [\<lparr>jk_kty = lit ''RSA'', jk_kid = Some (lit ''k''), jk_n = Some [], jk_e = Some [],
        jk_alg = None, jk_use = None\<rparr>]),
     oe_decode_header = (\<lambda>_. Some (Some (lit ''k''), RS256)), oe_rsa_key = (\<lambda>_ _. Some ()),
     oe_decode = (\<lambda>_ _ _ _ _. Some example_claims)\<rparr>"

definition example_response :: Response where
  "example_response = \<lparr>rp_success = True, rp_content_length = None, rp_chunks = [Inr [1]]\<rparr>"

definition example_net :: "str OidcNet" where
  "example_net = \<lparr>nw_discovery = (\<lambda>_. Inr example_response), nw_token = (\<lambda>_ _ _. Inr example_response),
     nw_keys = (\<lambda>_. Inr example_response)\<rparr>"

definition example_client :: "str OidcInner" where
  "example_client = insert_pending example_oidc (lit ''st'') (lit ''v'') (lit ''n'') 5 (OidcClient_new example_config)"

definition example_state_headers :: HeaderMap where
  "example_state_headers = [(lit ''cookie'', Some (lit ''iptv_oidc_state=st''))]"

definition example_log :: "OidcEvent list" where
  "example_log = [OidcStarted (ae_digest example_auth (lit ''st''))
     \<lparr>pl_verifier = lit ''v'', pl_nonce = lit ''n'', pl_expires_at = 5 + OIDC_STATE_TTL\<rparr>]"

lemma example_client_reach: "oidc_reach example_oidc example_config example_log example_client"
proof -
  have "oidc_reach example_oidc example_config [] (OidcClient_new example_config)" by (rule history_init) (rule refl)
  from oidc_started [OF this, of "lit ''st''" "lit ''v''" "lit ''n''" 5] show ?thesis
    by (simp add: example_client_def example_log_def example_oidc_def)
qed

lemma tasks_ok_id: "tasks_ok env config (\<lambda>s. s)"
  by (auto simp: tasks_ok_def intro: exI [of _ "[]"])

lemma example_fetch: "parse [1] = Some v \<Longrightarrow> 0 < limit \<Longrightarrow> fetch (Inr example_response) limit e parse = Inr v"
  by (simp add: fetch_def example_response_def read_limited_body_def append_limited_chunk_def)

lemma example_callback:
  "\<exists>client'. oidc_callback example_oidc example_net (\<lambda>s. s) (\<lambda>s. s) example_state_headers (lit ''st'') (Some (lit ''code''))
     6 (Some 100) example_client = (client', Inr ())"
proof -
  have "cookie example_state_headers OIDC_STATE_COOKIE = Some (lit ''st'')"
    by (simp add: example_state_headers_def OIDC_STATE_COOKIE_def cookie_def cookie_pairs_def map_filter_simps
        str_trim_def trim_start_by_def trim_end_by_def is_whitespace_def split_once_def)
  then have "verify_state_cookie example_oidc example_state_headers (lit ''st'') = Inr ()"
    by (simp add: verify_state_cookie_def example_oidc_def digest_eq [OF example_laws] token_text_def MAX_STATE_BYTES_def
        str_len_def utf8_len_def)
  moreover obtain t where "take_pending example_oidc (lit ''st'') 6 example_client = (t, Inr \<lparr>pl_verifier = lit ''v'',
      pl_nonce = lit ''n'', pl_expires_at = 5 + OIDC_STATE_TTL\<rparr>)" "oi_provider t = None" "oi_config t = example_config"
    by (simp add: take_pending_def example_client_def insert_pending_def OidcClient_new_def insert_key_def remove_key_def
        evict_oldest_def MAX_PENDING_LOGINS_def example_oidc_def OIDC_STATE_TTL_def Let_def)
  moreover have "code_ok (Some (lit ''code'')) = Some (lit ''code'')"
    by (simp add: code_ok_def MAX_CODE_BYTES_def str_len_def utf8_len_def)
  moreover obtain t' provider where "oidc_provider example_oidc example_net (\<lambda>s. s) t = (t', Inr provider)"
      "op_issuer provider = lit ''https://i''"
    using calculation
    by (simp add: oidc_provider_def example_net_def example_fetch MAX_DISCOVERY_BODY_BYTES_def discovery_url_def example_oidc_def
        provider_of_document_def parse_provider_endpoint_def url_is_bare_def url_is_exposed_def example_config_def Let_def)
  moreover have "exchange_code example_oidc example_net example_config provider
      \<lparr>pl_verifier = lit ''v'', pl_nonce = lit ''n'', pl_expires_at = 5 + OIDC_STATE_TTL\<rparr> (lit ''code'') (Some 100) = Inr ()"
    using calculation
    by (simp add: exchange_code_def example_net_def example_fetch MAX_TOKEN_BODY_BYTES_def MAX_JWKS_BODY_BYTES_def example_oidc_def
        verify_id_token_def key_usable_def claims_valid_def example_claims_def example_config_def issued_at_is_valid_def
        i64_saturating_add_def OIDC_CLOCK_SKEW_SECS_def str_len_def utf8_len_def allows_def)
  moreover have "oi_config example_client = example_config"
    by (simp add: example_client_def insert_pending_def OidcClient_new_def Let_def)
  ultimately show ?thesis by (simp add: oidc_callback_def Let_def)
qed


theorem oidc_states_are_single_use_witness:
  "takes (ae_digest example_auth (lit ''st'')) example_log \<le> starts (ae_digest example_auth (lit ''st'')) example_log
   \<and> starts (ae_digest example_auth (lit ''st'')) example_log = 1"
  using oidc_states_are_single_use [OF example_client_reach, of "ae_digest example_auth (lit ''st'')"]
  by (simp add: example_log_def)

theorem allow_list_is_respected_witness:
  "\<exists>config. OidcConfig_new example_oidc (lit ''https://i'') (lit ''c'') None (lit ''https://r'') [] [lit '' A@x ''] [] = Inr config
     \<and> allows config (lit ''s'') (Some (lit ''a@X'')) (Some True) \<and> \<not> allows config (lit ''s'') (Some (lit ''a@X'')) None"
proof -
  have a: "str_trim (lit '' A@x '') = lit ''A@x''" "str_trim (lit ''a@X'') = lit ''a@X''"
      "str_trim (lit ''c'') = lit ''c''" "str_trim (lit ''https://i'') = lit ''https://i''" "str_trim (lit ''https://r'') = lit ''https://r''"
    by (simp_all add: str_trim_def trim_start_by_def trim_end_by_def is_whitespace_def)
  obtain config where config: "OidcConfig_new example_oidc (lit ''https://i'') (lit ''c'') None (lit ''https://r'') [] [lit '' A@x ''] [] = Inr config"
    by (simp add: OidcConfig_new_def a [simplified] validate_endpoint_url_def url_is_bare_def url_is_exposed_def example_oidc_def
        str_len_def utf8_len_def contains_control_def is_control_def normalize_entries_def normalize_scopes_def Let_def)
  have "eq_ignore_ascii_case (lit ''A@x'') (lit ''a@X'')"
    by (simp add: eq_ignore_ascii_case_def to_ascii_lowercase_def ascii_lower_def)
  moreover have "\<not> contains_control (lit ''A@x'')" by (simp add: contains_control_def is_control_def)
  ultimately show ?thesis
    using config allow_list_is_respected [OF config, of "lit ''s''" "Some (lit ''a@X'')" "Some True"]
      allow_list_is_respected [OF config, of "lit ''s''" "Some (lit ''a@X'')" None] a by auto
qed

end
