(* ===== verification/Credentials.thy ===== *)
theory Credentials
  imports Auth Tickets
begin

text \<open>
  The loopback credential broker (\<open>crates/media/src/credential_broker.rs\<close>) and the fixed commands of the
  media processes (the first part of \<open>crates/media/src/process.rs\<close>).

  URLs, the parser of IP addresses and SHA-256 are the fields of \<open>UrlEnv\<close>.  The table of HLS tokens is
  an association list in the iteration order of the hash map, which the code does not depend on.  A turn of
  \<open>HlsTurn\<close> holds what one insertion into the table meets: what other requests have done to the table
  since the last one, the fresh token and the two clock readings.
\<close>

section \<open>Inputs and commands of the processes\<close>

record 'u UrlEnv =
  ue_digest :: "str \<Rightarrow> bytes"
  ue_parse :: "str \<Rightarrow> 'u option"
  ue_join :: "'u \<Rightarrow> str \<Rightarrow> 'u option"
  ue_as_str :: "'u \<Rightarrow> str"
  ue_scheme :: "'u \<Rightarrow> str"
  ue_username :: "'u \<Rightarrow> str"
  ue_password :: "'u \<Rightarrow> str option"
  ue_host_str :: "'u \<Rightarrow> str option"
  ue_path :: "'u \<Rightarrow> str"
  ue_fragment :: "'u \<Rightarrow> str option"
  ue_loopback_ip :: "str \<Rightarrow> bool"

datatype InputSourceError = InvalidUrl | UnsupportedScheme | NotLoopback | UserInformation | Fragment

record 'u InputSource =
  in_broker_url :: 'u

text \<open>\<open>str::strip_suffix\<close> of a character.\<close>

definition strip_last :: "uchar \<Rightarrow> str \<Rightarrow> str option" where
  "strip_last c s = (if s \<noteq> [] \<and> last s = c then Some (butlast s) else None)"

definition strip_brackets :: "str \<Rightarrow> str" where
  "strip_brackets host =
     (case Option.bind (strip_prefix [91] host) (strip_last 93) of None \<Rightarrow> host | Some inner \<Rightarrow> inner)"

definition loopback_http :: "'u UrlEnv \<Rightarrow> str \<Rightarrow> InputSourceError + 'u InputSource" where
  "loopback_http env url =
     (case ue_parse env url of
        None \<Rightarrow> Inl InvalidUrl
      | Some broker_url \<Rightarrow>
          if ue_scheme env broker_url \<noteq> lit ''http'' then Inl UnsupportedScheme
          else if ue_username env broker_url \<noteq> [] \<or> ue_password env broker_url \<noteq> None then Inl UserInformation
          else if ue_fragment env broker_url \<noteq> None then Inl Fragment
          else case ue_host_str env broker_url of
              None \<Rightarrow> Inl NotLoopback
            | Some host \<Rightarrow>
                let host = strip_brackets host in
                if \<not> (eq_ignore_ascii_case host (lit ''localhost'') \<or> ue_loopback_ip env host) then Inl NotLoopback
                else Inr \<lparr>in_broker_url = broker_url\<rparr>)"

datatype ProcessAdapterKind = Ffmpeg | Vlc

fun executable :: "ProcessAdapterKind \<Rightarrow> str" where
  "executable Ffmpeg = lit ''ffmpeg''"
| "executable Vlc = lit ''vlc''"

record AuditedProcessCommand =
  ap_adapter :: ProcessAdapterKind
  ap_executable :: str
  ap_arguments :: "str list"

definition ffmpeg_command :: "'u UrlEnv \<Rightarrow> 'u InputSource \<Rightarrow> AuditedProcessCommand" where
  "ffmpeg_command env input = \<lparr>ap_adapter = Ffmpeg, ap_executable = executable Ffmpeg,
     ap_arguments =
       [lit ''-hide_banner'', lit ''-loglevel'', lit ''error'', lit ''-nostdin'', lit ''-reconnect'', lit ''1'',
        lit ''-reconnect_at_eof'', lit ''1'', lit ''-reconnect_on_network_error'', lit ''1'',
        lit ''-reconnect_on_http_error'', lit ''4xx,5xx'', lit ''-reconnect_streamed'', lit ''1'',
        lit ''-reconnect_delay_max'', lit ''2'', lit ''-i'', ue_as_str env (in_broker_url input), lit ''-map'', lit ''0'',
        lit ''-c'', lit ''copy'', lit ''-f'', lit ''mpegts'', lit ''pipe:1'']\<rparr>"

definition vlc_command :: "'u UrlEnv \<Rightarrow> 'u InputSource \<Rightarrow> AuditedProcessCommand" where
  "vlc_command env input = \<lparr>ap_adapter = Vlc, ap_executable = executable Vlc,
     ap_arguments =
       [lit ''--intf'', lit ''dummy'', lit ''--no-video-title-show'', lit ''--quiet'', lit ''--repeat'',
        ue_as_str env (in_broker_url input), lit ''--sout'', lit ''#standard{access=fd,mux=ts,dst=1}'', lit ''vlc://quit'']\<rparr>"

section \<open>Configuration of the broker\<close>

record CredentialBrokerEndpoint =
  ce_url :: str
  ce_headers :: HeaderMap

record HlsBrokerConfig =
  hc_token_ttl :: duration
  hc_max_requests_per_token :: usize
  hc_max_response_bytes :: usize
  hc_max_uri_bytes :: usize
  hc_max_tokens :: usize

datatype HlsBrokerConfigError = ZeroTokenLifetime | ZeroTokenRequests | ZeroResponseSize | ZeroUriSize | ZeroTokens

definition DEFAULT_HLS_TOKEN_TTL :: duration where
  "DEFAULT_HLS_TOKEN_TTL = 30 * 10 ^ 9"

definition DEFAULT_HLS_TOKEN_REQUESTS :: usize where
  "DEFAULT_HLS_TOKEN_REQUESTS = 4"

definition DEFAULT_HLS_MAX_RESPONSE_BYTES :: usize where
  "DEFAULT_HLS_MAX_RESPONSE_BYTES = 16 * 1024 * 1024"

definition DEFAULT_HLS_MAX_URI_BYTES :: usize where
  "DEFAULT_HLS_MAX_URI_BYTES = 8 * 1024"

definition DEFAULT_HLS_MAX_TOKENS :: usize where
  "DEFAULT_HLS_MAX_TOKENS = 4096"

definition hls_default :: HlsBrokerConfig where
  "hls_default = \<lparr>hc_token_ttl = DEFAULT_HLS_TOKEN_TTL, hc_max_requests_per_token = DEFAULT_HLS_TOKEN_REQUESTS,
     hc_max_response_bytes = DEFAULT_HLS_MAX_RESPONSE_BYTES, hc_max_uri_bytes = DEFAULT_HLS_MAX_URI_BYTES,
     hc_max_tokens = DEFAULT_HLS_MAX_TOKENS\<rparr>"

definition HlsBrokerConfig_new ::
    "duration \<Rightarrow> usize \<Rightarrow> usize \<Rightarrow> usize \<Rightarrow> usize \<Rightarrow> HlsBrokerConfigError + HlsBrokerConfig" where
  "HlsBrokerConfig_new token_ttl max_requests_per_token max_response_bytes max_uri_bytes max_tokens =
     (if token_ttl = 0 then Inl ZeroTokenLifetime
      else if max_requests_per_token = 0 then Inl ZeroTokenRequests
      else if max_response_bytes = 0 then Inl ZeroResponseSize
      else if max_uri_bytes = 0 then Inl ZeroUriSize
      else if max_tokens = 0 then Inl ZeroTokens
      else Inr \<lparr>hc_token_ttl = token_ttl, hc_max_requests_per_token = max_requests_per_token,
        hc_max_response_bytes = max_response_bytes, hc_max_uri_bytes = max_uri_bytes, hc_max_tokens = max_tokens\<rparr>)"

definition hls_validate :: "HlsBrokerConfig \<Rightarrow> HlsBrokerConfigError + unit" where
  "hls_validate self =
     (case HlsBrokerConfig_new (hc_token_ttl self) (hc_max_requests_per_token self) (hc_max_response_bytes self)
        (hc_max_uri_bytes self) (hc_max_tokens self) of Inl e \<Rightarrow> Inl e | Inr _ \<Rightarrow> Inr ())"

section \<open>The tokens of HLS resources\<close>

datatype HlsResourceKind = Manifest | Binary

record 'u HlsResourceToken =
  hr_url :: 'u
  hr_kind :: HlsResourceKind
  hr_expires_at :: instant
  hr_remaining_requests :: usize

record 'u HlsBrokerState =
  hs_endpoint :: CredentialBrokerEndpoint
  hs_config :: HlsBrokerConfig
  hs_base_url :: str
  hs_tokens :: "(bytes \<times> 'u HlsResourceToken) list"

record 'u HlsTurn =
  tu_others :: "'u HlsBrokerState \<Rightarrow> 'u HlsBrokerState"
  tu_token :: str
  tu_now :: instant
  tu_inserted :: instant

definition insert_token ::
    "'u UrlEnv \<Rightarrow> str \<Rightarrow> 'u \<Rightarrow> HlsResourceKind \<Rightarrow> instant \<Rightarrow> instant \<Rightarrow> 'u HlsBrokerState \<Rightarrow> 'u HlsBrokerState \<times> bool" where
  "insert_token env token url kind now inserted self =
     (let tokens = filter (\<lambda>(_, resource). hr_expires_at resource > now \<and> hr_remaining_requests resource > 0) (hs_tokens self)
      in if length tokens \<ge> hc_max_tokens (hs_config self) then (self\<lparr>hs_tokens := tokens\<rparr>, False)
         else (self\<lparr>hs_tokens := insert_key (ue_digest env token)
             \<lparr>hr_url = url, hr_kind = kind, hr_expires_at = inserted + hc_token_ttl (hs_config self),
              hr_remaining_requests = hc_max_requests_per_token (hs_config self)\<rparr> tokens\<rparr>, True))"

text \<open>The entry is updated in place.\<close>

definition update_key :: "'k \<Rightarrow> 'v \<Rightarrow> ('k \<times> 'v) list \<Rightarrow> ('k \<times> 'v) list" where
  "update_key k v table = map (\<lambda>(k', v'). (k', if k' = k then v else v')) table"

definition take_token ::
    "'u UrlEnv \<Rightarrow> str \<Rightarrow> instant \<Rightarrow> 'u HlsBrokerState \<Rightarrow> 'u HlsBrokerState \<times> 'u HlsResourceToken option" where
  "take_token env token now self =
     (let key = ue_digest env token in
      case map_of (hs_tokens self) key of
        None \<Rightarrow> (self, None)
      | Some resource \<Rightarrow>
          if hr_expires_at resource \<le> now \<or> hr_remaining_requests resource = 0
          then (self\<lparr>hs_tokens := remove_key key (hs_tokens self)\<rparr>, None)
          else let resource = resource\<lparr>hr_remaining_requests := hr_remaining_requests resource - 1\<rparr>
               in (self\<lparr>hs_tokens := update_key key resource (hs_tokens self)\<rparr>, Some resource))"

section \<open>URIs\<close>

fun str_find :: "str \<Rightarrow> str \<Rightarrow> nat option" where
  "str_find p [] = (if p = [] then Some 0 else None)"
| "str_find p (c # s) = (if take (length p) (c # s) = p then Some 0 else map_option Suc (str_find p s))"

definition validate_hls_url :: "'u UrlEnv \<Rightarrow> 'u \<Rightarrow> bool" where
  "validate_hls_url env url \<longleftrightarrow> (ue_scheme env url = lit ''http'' \<or> ue_scheme env url = lit ''https'') \<and> ue_fragment env url = None"

definition validated_hls_url :: "'u UrlEnv \<Rightarrow> str \<Rightarrow> usize \<Rightarrow> 'u option" where
  "validated_hls_url env value max_uri_bytes =
     (if str_len value > max_uri_bytes \<or> 0 \<in> set value then None
      else case ue_parse env value of
          None \<Rightarrow> None
        | Some url \<Rightarrow> if validate_hls_url env url then Some url else None)"

text \<open>\<open>split\<close> at a slash or a backslash.\<close>

fun split_slashes :: "str \<Rightarrow> str \<Rightarrow> str list" where
  "split_slashes part [] = [part]"
| "split_slashes part (c # s) = (if c = 47 \<or> c = 92 then part # split_slashes [] s else split_slashes (part @ [c]) s)"

definition contains_traversal :: "str \<Rightarrow> bool" where
  "contains_traversal value =
     (let lower = to_ascii_lowercase value in
      if str_find (lit ''%2e'') lower \<noteq> None \<or> str_find (lit ''%2f'') lower \<noteq> None \<or> str_find (lit ''%5c'') lower \<noteq> None
      then True
      else list_ex (\<lambda>segment. segment \<in> set [lit ''..'', lit ''%2e%2e'', lit ''.%2e'', lit ''%2e.''])
             (map to_ascii_lowercase (split_slashes [] value)))"

definition resolve_hls_uri :: "'u UrlEnv \<Rightarrow> 'u \<Rightarrow> str \<Rightarrow> usize \<Rightarrow> 'u option" where
  "resolve_hls_uri env base value max_uri_bytes =
     (if value = [] \<or> str_len value > max_uri_bytes \<or> 0 \<in> set value \<or> take 2 value = lit ''//'' \<or> contains_traversal value
      then None
      else case ue_join env base value of
          None \<Rightarrow> None
        | Some url \<Rightarrow> if validate_hls_url env url then Some url else None)"

text \<open>
  \<open>Path::extension\<close>: the last component that is neither empty nor a dot, unless it is the parent
  directory, and what follows its last dot, unless that is its first character.
\<close>

definition path_file_name :: "str \<Rightarrow> str option" where
  "path_file_name path =
     (let components = filter (\<lambda>c. c \<noteq> [] \<and> c \<noteq> lit ''.'') (split_on 47 [] path)
      in if components = [] \<or> last components = lit ''..'' then None else Some (last components))"

definition path_extension :: "str \<Rightarrow> str option" where
  "path_extension path =
     (case path_file_name path of
        None \<Rightarrow> None
      | Some name \<Rightarrow>
          if 46 \<in> set (tl name)
          then Some (rev (takeWhile (\<lambda>c. c \<noteq> 46) (rev name))) else None)"

definition is_manifest_url :: "'u UrlEnv \<Rightarrow> 'u \<Rightarrow> bool" where
  "is_manifest_url env url =
     (case path_extension (ue_path env url) of
        None \<Rightarrow> False
      | Some extension \<Rightarrow> eq_ignore_ascii_case extension (lit ''m3u8'') \<or> eq_ignore_ascii_case extension (lit ''m3u''))"

definition hls_resource_name :: "str \<Rightarrow> str" where
  "hls_resource_name raw_uri =
     (let path = takeWhile (\<lambda>c. c \<noteq> 63 \<and> c \<noteq> 35) raw_uri in
      case path_extension path of
        None \<Rightarrow> lit ''resource.bin''
      | Some extension \<Rightarrow>
          if extension = [] \<or> str_len extension > 16
             \<or> \<not> list_all (\<lambda>c. 48 \<le> c \<and> c \<le> 57 \<or> 65 \<le> c \<and> c \<le> 90 \<or> 97 \<le> c \<and> c \<le> 122) extension
          then lit ''resource.bin''
          else if extension = lit ''ts'' then lit ''resource.ts''
          else if extension = lit ''m4s'' then lit ''resource.m4s''
          else if extension = lit ''mp4'' then lit ''resource.mp4''
          else if extension = lit ''key'' then lit ''resource.key''
          else lit ''resource.bin'')"

definition broker_url :: "str \<Rightarrow> str \<Rightarrow> str \<Rightarrow> str" where
  "broker_url base_url token name = base_url @ [47] @ token @ [47] @ name"

definition resource_kind :: "'u UrlEnv \<Rightarrow> 'u \<Rightarrow> HlsResourceKind \<Rightarrow> HlsResourceKind" where
  "resource_kind env url kind = (if kind = Manifest \<or> is_manifest_url env url then Manifest else Binary)"

definition resource_name :: "HlsResourceKind \<Rightarrow> str \<Rightarrow> str" where
  "resource_name kind raw_uri = (case kind of Manifest \<Rightarrow> lit ''manifest.m3u8'' | Binary \<Rightarrow> hls_resource_name raw_uri)"

text \<open>The state of a rewriting is the number of turns it has used and the state of the broker.\<close>

definition rewrite_url ::
    "'u UrlEnv \<Rightarrow> (nat \<Rightarrow> 'u HlsTurn) \<Rightarrow> 'u \<Rightarrow> str \<Rightarrow> HlsResourceKind \<Rightarrow> nat \<times> 'u HlsBrokerState \<Rightarrow>
     (nat \<times> 'u HlsBrokerState) \<times> str option" where
  "rewrite_url env turns base raw_uri kind = (\<lambda>(n, self).
     (case resolve_hls_uri env base raw_uri (hc_max_uri_bytes (hs_config self)) of
        None \<Rightarrow> ((n, self), None)
      | Some url \<Rightarrow>
          (let kind = resource_kind env url kind;
               token = tu_token (turns n);
               base_url = hs_base_url self;
               (self, inserted) = insert_token env token url kind (tu_now (turns n)) (tu_inserted (turns n))
                 (tu_others (turns n) self)
           in ((Suc n, self), if inserted then Some (broker_url base_url token (resource_name kind raw_uri)) else None))))"

section \<open>Manifests\<close>

lemma str_find_bound: "str_find p s = Some i \<Longrightarrow> i + length p \<le> length s"
proof (induction p s arbitrary: i rule: str_find.induct)
  case (2 p c s)
  show ?case
  proof (cases "take (length p) (c # s) = p")
    case True
    then have "length p \<le> length (c # s)" by (metis length_take min_def nat_le_linear)
    with True 2 show ?thesis by simp
  next
    case False
    with 2 show ?thesis by fastforce
  qed
qed (auto split: if_splits)

function rewrite_hls_attributes ::
    "'u UrlEnv \<Rightarrow> (nat \<Rightarrow> 'u HlsTurn) \<Rightarrow> 'u \<Rightarrow> str \<Rightarrow> str \<Rightarrow> nat \<times> 'u HlsBrokerState \<Rightarrow>
     (nat \<times> 'u HlsBrokerState) \<times> str option" where
  "rewrite_hls_attributes env turns base output remaining st =
     (case str_find (lit ''URI='') remaining of
        None \<Rightarrow> (st, Some (output @ remaining))
      | Some offset \<Rightarrow>
          if \<not> (offset = 0 \<or> remaining ! (offset - 1) = 44 \<or> remaining ! (offset - 1) = 58)
          then rewrite_hls_attributes env turns base (output @ take (offset + 4) remaining) (drop (offset + 4) remaining) st
          else
            (case drop (offset + 4) remaining of
               [] \<Rightarrow> (st, None)
             | q # uri_tail \<Rightarrow>
                 if q \<noteq> 34 then (st, None)
                 else (case str_find [34] uri_tail of
                     None \<Rightarrow> (st, None)
                   | Some closing \<Rightarrow>
                       (case rewrite_url env turns base (take closing uri_tail) Binary st of
                          (st, None) \<Rightarrow> (st, None)
                        | (st, Some url) \<Rightarrow>
                            rewrite_hls_attributes env turns base (output @ take (offset + 4) remaining @ [34] @ url @ [34])
                              (drop (closing + 1) uri_tail) st))))"
  by pat_completeness auto
termination
proof (relation "measure (\<lambda>(env, turns, base, out, remaining, st). length remaining)", goal_cases)
  case (2 env turns base out remaining st offset)
  then show ?case using str_find_bound [of "lit ''URI=''" remaining offset] by simp
next
  case (3 env turns base out remaining st offset q uri_tail)
  have "drop (offset + 4) remaining = q # uri_tail" by fact
  from arg_cong [OF this, of length] have "length uri_tail < length remaining" by simp
  then show ?case by simp
qed simp

declare rewrite_hls_attributes.simps [simp del]

text \<open>\<open>str::lines\<close>.\<close>

definition strip_cr :: "str \<Rightarrow> str" where
  "strip_cr line = (if line \<noteq> [] \<and> last line = 13 then butlast line else line)"

fun str_lines :: "str \<Rightarrow> str \<Rightarrow> str list" where
  "str_lines line [] = (if line = [] then [] else [line])"
| "str_lines line (c # s) = (if c = 10 then strip_cr line # str_lines [] s else str_lines (line @ [c]) s)"

definition rewrite_line ::
    "'u UrlEnv \<Rightarrow> (nat \<Rightarrow> 'u HlsTurn) \<Rightarrow> 'u \<Rightarrow> str \<Rightarrow> nat \<times> 'u HlsBrokerState \<Rightarrow> (nat \<times> 'u HlsBrokerState) \<times> str option" where
  "rewrite_line env turns base line st =
     (if str_len line > hc_max_uri_bytes (hs_config (snd st)) \<or> 0 \<in> set line then (st, None)
      else if take 1 line = [35] then rewrite_hls_attributes env turns base [] line st
      else if str_trim line = [] then (st, Some line)
      else if str_trim line \<noteq> line then (st, None)
      else rewrite_url env turns base line Binary st)"

fun rewrite_lines ::
    "'u UrlEnv \<Rightarrow> (nat \<Rightarrow> 'u HlsTurn) \<Rightarrow> 'u \<Rightarrow> str \<Rightarrow> str list \<Rightarrow> nat \<times> 'u HlsBrokerState \<Rightarrow>
     (nat \<times> 'u HlsBrokerState) \<times> str option" where
  "rewrite_lines env turns base rewritten [] st = (st, Some rewritten)"
| "rewrite_lines env turns base rewritten (line # rest) st =
     (case rewrite_line env turns base line st of
        (st, None) \<Rightarrow> (st, None)
      | (st, Some text) \<Rightarrow> rewrite_lines env turns base (rewritten @ text @ [10]) rest st)"

definition manifest_lines :: "bytes \<Rightarrow> str list option" where
  "manifest_lines body =
     (case from_utf8 body of
        None \<Rightarrow> None
      | Some manifest \<Rightarrow>
          (case str_lines [] (case strip_prefix [0xFEFF] manifest of None \<Rightarrow> manifest | Some rest \<Rightarrow> rest) of
             [] \<Rightarrow> None
           | first # rest \<Rightarrow> if first = lit ''#EXTM3U'' then Some rest else None))"

definition rewrite_hls_manifest ::
    "'u UrlEnv \<Rightarrow> (nat \<Rightarrow> 'u HlsTurn) \<Rightarrow> 'u \<Rightarrow> bytes \<Rightarrow> nat \<times> 'u HlsBrokerState \<Rightarrow>
     (nat \<times> 'u HlsBrokerState) \<times> str option" where
  "rewrite_hls_manifest env turns base body st =
     (if length body > hc_max_response_bytes (hs_config (snd st)) then (st, None)
      else case manifest_lines body of
          None \<Rightarrow> (st, None)
        | Some rest \<Rightarrow> rewrite_lines env turns base (lit ''#EXTM3U'' @ [10]) rest st)"

section \<open>Requests\<close>

record Upstream =
  up_success :: bool
  up_content_length :: "nat option"
  up_content_type :: "bytes option"
  up_chunks :: "(unit + bytes) list"

fun collect_chunks :: "usize \<Rightarrow> bytes \<Rightarrow> (unit + bytes) list \<Rightarrow> bytes option" where
  "collect_chunks limit bytes [] = Some bytes"
| "collect_chunks limit bytes (Inl _ # stream) = None"
| "collect_chunks limit bytes (Inr chunk # stream) =
     (if length bytes + length chunk > limit then None else collect_chunks limit (bytes @ chunk) stream)"

text \<open>The response to the request with the headers of the endpoint; its headers count for their content type.\<close>

definition fetch_hls_resource :: "unit + Upstream \<Rightarrow> 'u HlsBrokerState \<Rightarrow> (bytes option \<times> bytes) option" where
  "fetch_hls_resource sent state =
     (case sent of
        Inl _ \<Rightarrow> None
      | Inr upstream \<Rightarrow>
          if \<not> up_success upstream then None
          else if (case up_content_length upstream of None \<Rightarrow> False
              | Some len \<Rightarrow> len > hc_max_response_bytes (hs_config state)) then None
          else map_option (Pair (up_content_type upstream))
            (collect_chunks (hc_max_response_bytes (hs_config state)) [] (up_chunks upstream)))"

datatype BrokerResponse = NotFound | BadGateway | Served "bytes option" bytes

text \<open>The request for a resource; \<open>encode\<close> is the UTF-8 encoder, \<open>get\<close> the exchange with the provider.\<close>

definition proxy_hls_resource ::
    "'u UrlEnv \<Rightarrow> (str \<Rightarrow> bytes) \<Rightarrow> ('u \<Rightarrow> HeaderMap \<Rightarrow> unit + Upstream) \<Rightarrow> (nat \<Rightarrow> 'u HlsTurn) \<Rightarrow> str \<Rightarrow> instant \<Rightarrow>
     'u HlsBrokerState \<Rightarrow> 'u HlsBrokerState \<times> BrokerResponse" where
  "proxy_hls_resource env encode get turns token now state =
     (case take_token env token now state of
        (state, None) \<Rightarrow> (state, NotFound)
      | (state, Some resource) \<Rightarrow>
          (case fetch_hls_resource (get (hr_url resource) (ce_headers (hs_endpoint state))) state of
             None \<Rightarrow> (state, BadGateway)
           | Some (content_type, bytes) \<Rightarrow>
               (case hr_kind resource of
                  Binary \<Rightarrow> (state, Served content_type bytes)
                | Manifest \<Rightarrow>
                    (case rewrite_hls_manifest env turns (hr_url resource) bytes (0, state) of
                       ((_, state), None) \<Rightarrow> (state, BadGateway)
                     | ((_, state), Some manifest) \<Rightarrow>
                         (state, Served (Some (case content_type of
                              None \<Rightarrow> encode (lit ''application/vnd.apple.mpegurl'') | Some t \<Rightarrow> t))
                            (encode manifest))))))"

datatype CredentialBrokerError = Bind | InputSourceFailed InputSourceError | InvalidHlsEndpoint
  | HlsConfig HlsBrokerConfigError | TaskStopped

text \<open>The start of a broker; \<open>address\<close> is the bound socket address, \<open>None\<close> where binding fails.\<close>

definition start_hls ::
    "'u UrlEnv \<Rightarrow> CredentialBrokerEndpoint \<Rightarrow> HlsBrokerConfig \<Rightarrow> str option \<Rightarrow> str \<Rightarrow> instant \<Rightarrow> instant \<Rightarrow>
     CredentialBrokerError + 'u HlsBrokerState \<times> 'u InputSource" where
  "start_hls env endpoint config address session_token now inserted =
     (case hls_validate config of Inl e \<Rightarrow> Inl (HlsConfig e)
      | Inr _ \<Rightarrow>
      case validated_hls_url env (ce_url endpoint) (hc_max_uri_bytes config) of None \<Rightarrow> Inl InvalidHlsEndpoint
      | Some manifest_url \<Rightarrow>
      case address of None \<Rightarrow> Inl Bind
      | Some address \<Rightarrow>
          let base_url = lit ''http://'' @ address @ lit ''/hls'';
              (state, inserted) = insert_token env session_token manifest_url Manifest now inserted
                \<lparr>hs_endpoint = endpoint, hs_config = config, hs_base_url = base_url, hs_tokens = []\<rparr>
          in if \<not> inserted then Inl InvalidHlsEndpoint
             else case loopback_http env (base_url @ [47] @ session_token @ lit ''/manifest.m3u8'') of
                 Inl e \<Rightarrow> Inl (InputSourceFailed e)
               | Inr input_source \<Rightarrow> Inr (state, input_source))"

record DirectBrokerState =
  bs_endpoint :: CredentialBrokerEndpoint
  bs_token_hash :: bytes

definition broker_start ::
    "'u UrlEnv \<Rightarrow> CredentialBrokerEndpoint \<Rightarrow> str option \<Rightarrow> str \<Rightarrow> CredentialBrokerError + DirectBrokerState \<times> 'u InputSource" where
  "broker_start env endpoint address token =
     (case address of None \<Rightarrow> Inl Bind
      | Some address \<Rightarrow>
          (case loopback_http env (lit ''http://'' @ address @ lit ''/session/'' @ token) of
             Inl e \<Rightarrow> Inl (InputSourceFailed e)
           | Inr input_source \<Rightarrow> Inr (\<lparr>bs_endpoint = endpoint, bs_token_hash = ue_digest env token\<rparr>, input_source)))"

text \<open>The request to a direct broker, once the lock of the session is held; the body is the stream of chunks.\<close>

definition proxy_session ::
    "'u UrlEnv \<Rightarrow> (str \<Rightarrow> HeaderMap \<Rightarrow> unit + Upstream) \<Rightarrow> str \<Rightarrow> DirectBrokerState \<Rightarrow>
     BrokerResponse + (bytes option \<times> (unit + bytes) list)" where
  "proxy_session env get token state =
     (if \<not> constant_time_eq (ue_digest env token) (bs_token_hash state) then Inl NotFound
      else case get (ce_url (bs_endpoint state)) (ce_headers (bs_endpoint state)) of
          Inl _ \<Rightarrow> Inl BadGateway
        | Inr upstream \<Rightarrow>
            if \<not> up_success upstream then Inl BadGateway
            else Inr (up_content_type upstream, up_chunks upstream))"

section \<open>Manifests as pieces\<close>

text \<open>The reading of a manifest that the rewriting implements: text that is kept and URIs that are replaced.\<close>

datatype Piece = Kept str | Link str

function attribute_pieces :: "str \<Rightarrow> Piece list option" where
  "attribute_pieces remaining =
     (case str_find (lit ''URI='') remaining of
        None \<Rightarrow> Some [Kept remaining]
      | Some offset \<Rightarrow>
          if \<not> (offset = 0 \<or> remaining ! (offset - 1) = 44 \<or> remaining ! (offset - 1) = 58)
          then map_option ((#) (Kept (take (offset + 4) remaining))) (attribute_pieces (drop (offset + 4) remaining))
          else
            (case drop (offset + 4) remaining of
               [] \<Rightarrow> None
             | q # uri_tail \<Rightarrow>
                 if q \<noteq> 34 then None
                 else (case str_find [34] uri_tail of
                     None \<Rightarrow> None
                   | Some closing \<Rightarrow>
                       map_option (\<lambda>ps. Kept (take (offset + 4) remaining @ [34]) # Link (take closing uri_tail) # Kept [34] # ps)
                         (attribute_pieces (drop (closing + 1) uri_tail)))))"
  by pat_completeness auto
termination
proof (relation "measure length", goal_cases)
  case (2 remaining offset)
  then show ?case using str_find_bound [of "lit ''URI=''" remaining offset] by simp
next
  case (3 remaining offset q uri_tail)
  have "drop (offset + 4) remaining = q # uri_tail" by fact
  from arg_cong [OF this, of length] have "length uri_tail < length remaining" by simp
  then show ?case by simp
qed simp

declare attribute_pieces.simps [simp del]

definition line_pieces :: "str \<Rightarrow> Piece list option" where
  "line_pieces line =
     (if take 1 line = [35] then attribute_pieces line
      else if str_trim line = [] then Some [Kept line]
      else if str_trim line \<noteq> line then None
      else Some [Link line])"

fun manifest_pieces :: "str list \<Rightarrow> Piece list option" where
  "manifest_pieces [] = Some []"
| "manifest_pieces (line # rest) =
     Option.bind (line_pieces line) (\<lambda>ps. map_option (\<lambda>qs. ps @ [Kept [10]] @ qs) (manifest_pieces rest))"

fun links :: "Piece list \<Rightarrow> str list" where
  "links [] = []"
| "links (Kept _ # ps) = links ps"
| "links (Link u # ps) = u # links ps"

fun render :: "(nat \<Rightarrow> str \<Rightarrow> str) \<Rightarrow> nat \<Rightarrow> Piece list \<Rightarrow> str" where
  "render f n [] = []"
| "render f n (Kept t # ps) = t @ render f n ps"
| "render f n (Link u # ps) = f n u @ render f (Suc n) ps"

lemma links_append [simp]: "links (ps @ qs) = links ps @ links qs"
  by (induction ps rule: links.induct) auto

lemma render_append: "render f n (ps @ qs) = render f n ps @ render f (n + length (links ps)) qs"
  by (induction f n ps rule: render.induct) auto

section \<open>Issued links\<close>

definition link_kind :: "'u UrlEnv \<Rightarrow> 'u \<Rightarrow> HlsBrokerConfig \<Rightarrow> str \<Rightarrow> HlsResourceKind" where
  "link_kind env base config uri =
     resource_kind env (the (resolve_hls_uri env base uri (hc_max_uri_bytes config))) Binary"

definition link_url :: "'u UrlEnv \<Rightarrow> (nat \<Rightarrow> 'u HlsTurn) \<Rightarrow> 'u \<Rightarrow> HlsBrokerConfig \<Rightarrow> str \<Rightarrow> nat \<Rightarrow> str \<Rightarrow> str" where
  "link_url env turns base config base_url n uri =
     broker_url base_url (tu_token (turns n)) (resource_name (link_kind env base config uri) uri)"

definition issued :: "'u UrlEnv \<Rightarrow> (nat \<Rightarrow> 'u HlsTurn) \<Rightarrow> 'u \<Rightarrow> 'u HlsBrokerState \<Rightarrow> nat \<Rightarrow> str \<Rightarrow> bool" where
  "issued env turns base s n uri \<longleftrightarrow>
     (\<exists>url. resolve_hls_uri env base uri (hc_max_uri_bytes (hs_config s)) = Some url \<and>
        map_of (hs_tokens s) (ue_digest env (tu_token (turns n))) =
          Some \<lparr>hr_url = url, hr_kind = link_kind env base (hs_config s) uri,
            hr_expires_at = tu_inserted (turns n) + hc_token_ttl (hs_config s),
            hr_remaining_requests = hc_max_requests_per_token (hs_config s)\<rparr>)"

text \<open>
  The first \<open>N\<close> turns of a rewriting: their tokens differ, it takes less than the lifetime of a token, and
  the other requests leave its tokens alone, which they do not know yet.
\<close>

definition turns_ok :: "'u UrlEnv \<Rightarrow> HlsBrokerConfig \<Rightarrow> (nat \<Rightarrow> 'u HlsTurn) \<Rightarrow> nat \<Rightarrow> bool" where
  "turns_ok env config turns N \<longleftrightarrow>
     inj_on (\<lambda>i. ue_digest env (tu_token (turns i))) {..<N} \<and>
     (\<forall>i<N. \<forall>j<N. tu_now (turns j) < tu_inserted (turns i) + hc_token_ttl config) \<and>
     (\<forall>i<N. \<forall>s. hs_config (tu_others (turns i) s) = hs_config s \<and> hs_base_url (tu_others (turns i) s) = hs_base_url s \<and>
        (\<forall>j<N. \<forall>r. map_of (hs_tokens s) (ue_digest env (tu_token (turns j))) = Some r \<longrightarrow>
           map_of (hs_tokens (tu_others (turns i) s)) (ue_digest env (tu_token (turns j))) = Some r))"

lemma map_of_filter_keep: "map_of t h = Some e \<Longrightarrow> P (h, e) \<Longrightarrow> map_of (filter P t) h = Some e"
  by (induction t) (auto split: if_splits)

lemma map_of_remove_key: "k \<noteq> h \<Longrightarrow> map_of (remove_key k t) h = map_of t h"
  by (induction t) (auto simp: remove_key_def)

lemma map_of_insert_key: "map_of (insert_key k v t) h = (if k = h then Some v else map_of t h)"
  by (simp add: insert_key_def map_of_remove_key)

lemma rewrite_url_ok:
  assumes "turns_ok env (hs_config s) turns N" "0 < hc_max_requests_per_token (hs_config s)"
    "rewrite_url env turns base uri Binary (n, s) = ((n', s'), Some text)" "n' \<le> N"
  shows "n' = Suc n" "text = link_url env turns base (hs_config s) (hs_base_url s) n uri"
    "hs_config s' = hs_config s" "hs_base_url s' = hs_base_url s" "issued env turns base s' n uri"
    "\<And>i u. i < n \<Longrightarrow> issued env turns base s i u \<Longrightarrow> issued env turns base s' i u"
proof -
  obtain url where url: "resolve_hls_uri env base uri (hc_max_uri_bytes (hs_config s)) = Some url"
    using assms(3) by (auto simp: rewrite_url_def split: option.splits)
  let ?kind = "link_kind env base (hs_config s) uri" and ?t = "turns n" and ?o = "tu_others (turns n) s"
  have kind: "resource_kind env url Binary = ?kind" using url by (simp add: link_kind_def)
  have n: "n' = Suc n" and ins: "insert_token env (tu_token ?t) url ?kind (tu_now ?t) (tu_inserted ?t) ?o = (s', True)"
    and tx: "text = link_url env turns base (hs_config s) (hs_base_url s) n uri"
    using assms(3) by (auto simp: rewrite_url_def url kind link_url_def Let_def split: prod.splits if_splits)
  then have N: "n < N" using assms(4) by simp
  have o: "hs_config ?o = hs_config s" "hs_base_url ?o = hs_base_url s"
    and keep: "\<And>j r. j < N \<Longrightarrow> map_of (hs_tokens s) (ue_digest env (tu_token (turns j))) = Some r \<Longrightarrow>
      map_of (hs_tokens ?o) (ue_digest env (tu_token (turns j))) = Some r"
    using assms(1) N by (auto simp: turns_ok_def)
  show "n' = Suc n" "text = link_url env turns base (hs_config s) (hs_base_url s) n uri" by fact+
  show c: "hs_config s' = hs_config s" "hs_base_url s' = hs_base_url s"
    using ins o by (auto simp: insert_token_def Let_def split: if_splits)
  let ?P = "\<lambda>(_, resource). hr_expires_at resource > tu_now ?t \<and> hr_remaining_requests resource > 0"
  have tokens: "map_of (hs_tokens s') h = (if ue_digest env (tu_token ?t) = h
      then Some \<lparr>hr_url = url, hr_kind = ?kind, hr_expires_at = tu_inserted ?t + hc_token_ttl (hs_config s),
        hr_remaining_requests = hc_max_requests_per_token (hs_config s)\<rparr>
      else map_of (filter ?P (hs_tokens ?o)) h)" for h
    using ins by (auto simp: insert_token_def Let_def o map_of_insert_key split: if_splits)
  show "issued env turns base s' n uri"
    by (simp add: issued_def tokens c url)
  show "issued env turns base s' i u" if i: "i < n" and u: "issued env turns base s i u" for i u
  proof -
    have ne: "ue_digest env (tu_token ?t) \<noteq> ue_digest env (tu_token (turns i))"
      using inj_onD [of "\<lambda>i. ue_digest env (tu_token (turns i))" "{..<N}" n i] assms(1) i N by (auto simp: turns_ok_def)
    from u obtain e where e: "map_of (hs_tokens s) (ue_digest env (tu_token (turns i))) = Some e" "?P (ue_digest env (tu_token (turns i)), e)"
      using assms(1,2) i N by (auto simp: issued_def turns_ok_def)
    have "map_of (filter ?P (hs_tokens ?o)) (ue_digest env (tu_token (turns i))) = Some e"
      using keep [OF _ e(1)] i N e(2) by (intro map_of_filter_keep) auto
    with e(1) u ne show ?thesis by (auto simp: issued_def tokens c)
  qed
qed

definition all_issued :: "'u UrlEnv \<Rightarrow> (nat \<Rightarrow> 'u HlsTurn) \<Rightarrow> 'u \<Rightarrow> 'u HlsBrokerState \<Rightarrow> nat \<Rightarrow> str list \<Rightarrow> bool" where
  "all_issued env turns base s n uris \<longleftrightarrow> (\<forall>i < length uris. issued env turns base s (n + i) (uris ! i))"

text \<open>What a part of the rewriting does for the pieces of its input.\<close>

definition rewriting ::
    "'u UrlEnv \<Rightarrow> (nat \<Rightarrow> 'u HlsTurn) \<Rightarrow> 'u \<Rightarrow> Piece list \<Rightarrow> nat \<times> 'u HlsBrokerState \<Rightarrow> nat \<times> 'u HlsBrokerState \<Rightarrow> str \<Rightarrow> bool" where
  "rewriting env turns base ps = (\<lambda>(n, s) (n', s') out.
     n' = n + length (links ps) \<and> hs_config s' = hs_config s \<and> hs_base_url s' = hs_base_url s \<and>
     out = render (link_url env turns base (hs_config s) (hs_base_url s)) n ps \<and>
     all_issued env turns base s' n (links ps) \<and>
     (\<forall>i u. i < n \<longrightarrow> issued env turns base s i u \<longrightarrow> issued env turns base s' i u))"

lemma rewriting_kept: "rewriting env turns base [Kept t] st st t"
  by (cases st) (simp add: rewriting_def all_issued_def)

lemma rewriting_append:
  assumes "rewriting env turns base ps a b x" "rewriting env turns base qs b c y"
  shows "rewriting env turns base (ps @ qs) a c (x @ y)"
proof -
  obtain n s n1 s1 n2 s2 where st: "a = (n, s)" "b = (n1, s1)" "c = (n2, s2)" by (metis surj_pair)
  have n1: "n1 = n + length (links ps)" using assms(1) by (simp add: rewriting_def st)
  have "all_issued env turns base s2 n (links ps @ links qs)"
    unfolding all_issued_def
  proof (intro allI impI)
    fix i assume i: "i < length (links ps @ links qs)"
    show "issued env turns base s2 (n + i) ((links ps @ links qs) ! i)"
    proof (cases "i < length (links ps)")
      case True
      then show ?thesis using assms by (auto simp: rewriting_def st all_issued_def nth_append)
    next
      case False
      define k where "k = i - length (links ps)"
      have k: "i = length (links ps) + k" "k < length (links qs)" using False i by (auto simp: k_def)
      have "\<forall>k < length (links qs). issued env turns base s2 (n1 + k) (links qs ! k)"
        using assms(2) by (simp add: rewriting_def st all_issued_def)
      with k show ?thesis by (simp add: n1 add.assoc)
    qed
  qed
  with assms show ?thesis by (auto simp: rewriting_def st render_append)
qed

lemma rewriting_link:
  assumes "turns_ok env (hs_config s) turns N" "0 < hc_max_requests_per_token (hs_config s)"
    "rewrite_url env turns base uri Binary (n, s) = ((n', s'), Some text)" "n' \<le> N"
  shows "rewriting env turns base [Link uri] (n, s) (n', s') text"
  using rewrite_url_ok [OF assms] by (auto simp: rewriting_def all_issued_def)

lemma rewrite_url_mono: "rewrite_url env turns base uri kind st = (st', r) \<Longrightarrow> fst st \<le> fst st'"
  by (auto simp: rewrite_url_def Let_def split: option.splits prod.splits)

lemma attributes_cases:
  assumes "rewrite_hls_attributes env turns base out remaining st = (st', r)"
  obtains (kept) "str_find (lit ''URI='') remaining = None" "st' = st" "r = Some (out @ remaining)"
  | (failed) "r = None" "fst st \<le> fst st'"
  | (skipped) offset where "str_find (lit ''URI='') remaining = Some offset"
      "\<not> (offset = 0 \<or> remaining ! (offset - 1) = 44 \<or> remaining ! (offset - 1) = 58)"
      "rewrite_hls_attributes env turns base (out @ take (offset + 4) remaining) (drop (offset + 4) remaining) st = (st', r)"
  | (linked) offset uri_tail closing st1 url where "str_find (lit ''URI='') remaining = Some offset"
      "offset = 0 \<or> remaining ! (offset - 1) = 44 \<or> remaining ! (offset - 1) = 58"
      "drop (offset + 4) remaining = 34 # uri_tail" "str_find [34] uri_tail = Some closing"
      "rewrite_url env turns base (take closing uri_tail) Binary st = (st1, Some url)"
      "rewrite_hls_attributes env turns base (out @ take (offset + 4) remaining @ [34] @ url @ [34])
         (drop (closing + 1) uri_tail) st1 = (st', r)"
proof (cases "str_find (lit ''URI='') remaining")
  case None
  then show ?thesis using assms kept by (subst (asm) rewrite_hls_attributes.simps) auto
next
  case (Some offset)
  note run = assms [unfolded rewrite_hls_attributes.simps [of _ _ _ _ remaining] Some option.case]
  show ?thesis
  proof (cases "offset = 0 \<or> remaining ! (offset - 1) = 44 \<or> remaining ! (offset - 1) = 58")
    case False
    with run skipped [OF Some] show ?thesis by auto
  next
    case True
    show ?thesis
      using run True failed linked [OF Some True] rewrite_url_mono [of env turns base _ Binary st]
      by (auto split: list.splits option.splits if_splits prod.splits)
  qed
qed

lemma skipped_shorter: "str_find (lit ''URI='') remaining = Some offset \<Longrightarrow> length (drop (offset + 4) remaining) < length remaining"
  using str_find_bound [of "lit ''URI=''" remaining offset] by simp

lemma linked_shorter: "drop n remaining = c # uri_tail \<Longrightarrow> length (drop m uri_tail) < length remaining"
  by (drule arg_cong [of _ _ length]) simp

lemma attributes_mono: "rewrite_hls_attributes env turns base out remaining st = (st', r) \<Longrightarrow> fst st \<le> fst st'"
proof (induction remaining arbitrary: out st rule: length_induct)
  case (1 remaining)
  from 1(2) show ?case
  proof (cases rule: attributes_cases)
    case (skipped offset)
    then show ?thesis using 1(1) skipped_shorter by blast
  next
    case (linked offset uri_tail closing st1 url)
    have "fst st1 \<le> fst st'" using 1(1) linked_shorter [OF linked(3)] linked(6) by blast
    with rewrite_url_mono [OF linked(5)] show ?thesis by simp
  qed auto
qed

lemma attributes_rewriting:
  assumes "rewrite_hls_attributes env turns base out remaining st = (st', Some t)"
    "turns_ok env (hs_config (snd st)) turns N" "0 < hc_max_requests_per_token (hs_config (snd st))" "fst st' \<le> N"
  shows "\<exists>ps x. attribute_pieces remaining = Some ps \<and> t = out @ x \<and> rewriting env turns base ps st st' x"
  using assms
proof (induction remaining arbitrary: out st rule: length_induct)
  case (1 remaining)
  from 1(2) show ?case
  proof (cases rule: attributes_cases)
    case kept
    then show ?thesis using rewriting_kept [of env turns base remaining st] by (subst attribute_pieces.simps) auto
  next
    case (skipped offset)
    from 1(1) skipped_shorter [OF skipped(1)] skipped(3) 1(3-5) obtain ps x where
      ps: "attribute_pieces (drop (offset + 4) remaining) = Some ps" "t = (out @ take (offset + 4) remaining) @ x"
      "rewriting env turns base ps st st' x" by blast
    from rewriting_append [OF rewriting_kept ps(3), of "take (offset + 4) remaining"] ps skipped(1,2)
    show ?thesis by (subst attribute_pieces.simps) auto
  next
    case (linked offset uri_tail closing st1 url)
    have N: "fst st1 \<le> N" using attributes_mono [OF linked(6)] 1(5) by simp
    obtain n s n1 s1 where st: "st = (n, s)" "st1 = (n1, s1)" by (metis surj_pair)
    have link: "rewriting env turns base [Link (take closing uri_tail)] st st1 url"
      using rewriting_link [of env s turns N base "take closing uri_tail" n n1 s1 url] 1(3,4) linked(5) N by (simp add: st)
    then have "hs_config (snd st1) = hs_config (snd st)" by (simp add: rewriting_def st)
    with 1(1) linked_shorter [OF linked(3)] linked(6) 1(3-5) obtain ps x where
      ps: "attribute_pieces (drop (closing + 1) uri_tail) = Some ps"
      "t = (out @ take (offset + 4) remaining @ [34] @ url @ [34]) @ x" "rewriting env turns base ps st1 st' x"
      by metis
    have "rewriting env turns base ([Kept (take (offset + 4) remaining @ [34])] @ [Link (take closing uri_tail)] @ [Kept [34]] @ ps)
        st st' ((take (offset + 4) remaining @ [34]) @ url @ [34] @ x)"
      by (intro rewriting_append [OF rewriting_kept] rewriting_append [OF link] ps(3))
    then show ?thesis using ps linked(1-4) by (subst attribute_pieces.simps) auto
  qed simp
qed

lemma line_rewriting:
  assumes "rewrite_line env turns base line st = (st', Some t)"
    "turns_ok env (hs_config (snd st)) turns N" "0 < hc_max_requests_per_token (hs_config (snd st))" "fst st' \<le> N"
  shows "\<exists>ps. line_pieces line = Some ps \<and> rewriting env turns base ps st st' t"
proof -
  obtain n s n' s' where st: "st = (n, s)" "st' = (n', s')" by (metis surj_pair)
  consider (attr) "take 1 line = [35]" "rewrite_hls_attributes env turns base [] line st = (st', Some t)"
    | (blank) "take 1 line \<noteq> [35]" "str_trim line = []" "st' = st" "t = line"
    | (uri) "take 1 line \<noteq> [35]" "str_trim line \<noteq> []" "str_trim line = line" "rewrite_url env turns base line Binary st = (st', Some t)"
    using assms(1) by (auto simp: rewrite_line_def split: if_splits)
  then show ?thesis
  proof cases
    case attr
    with attributes_rewriting [OF attr(2) assms(2-4)] show ?thesis by (auto simp: line_pieces_def)
  next
    case blank
    then show ?thesis using rewriting_kept [of env turns base line st] by (simp add: line_pieces_def)
  next
    case uri
    with rewriting_link [of env s turns N base line n n' s' t] assms(2-4) show ?thesis by (auto simp: line_pieces_def st)
  qed
qed

lemma lines_mono: "rewrite_lines env turns base out ls st = (st', r) \<Longrightarrow> fst st \<le> fst st'"
proof (induction env turns base out ls st arbitrary: st' r rule: rewrite_lines.induct)
  case (2 env turns base out line rest st)
  obtain st1 x where l: "rewrite_line env turns base line st = (st1, x)" by (metis surj_pair)
  then have "fst st \<le> fst st1"
    by (auto simp: rewrite_line_def split: if_splits dest: attributes_mono rewrite_url_mono)
  moreover have "fst st1 \<le> fst st'"
  proof (cases x)
    case None
    then show ?thesis using 2(2) l by simp
  next
    case (Some w)
    then show ?thesis using 2(1) [OF l [symmetric] Some] 2(2) l by simp
  qed
  ultimately show ?case by simp
qed simp

lemma lines_rewriting:
  assumes "rewrite_lines env turns base out ls st = (st', Some t)"
    "turns_ok env (hs_config (snd st)) turns N" "0 < hc_max_requests_per_token (hs_config (snd st))" "fst st' \<le> N"
  shows "\<exists>ps x. manifest_pieces ls = Some ps \<and> t = out @ x \<and> rewriting env turns base ps st st' x"
  using assms
proof (induction env turns base out ls st arbitrary: st' t rule: rewrite_lines.induct)
  case (1 env turns base out st)
  then show ?case by (cases st) (auto simp: rewriting_def all_issued_def)
next
  case (2 env turns base out line rest st)
  obtain st1 w where l: "rewrite_line env turns base line st = (st1, Some w)"
      and r: "rewrite_lines env turns base (out @ w @ [10]) rest st1 = (st', Some t)"
    using 2(2) by (auto split: prod.splits option.splits)
  have "fst st1 \<le> N" using lines_mono [OF r] 2(5) by simp
  from line_rewriting [OF l 2(3,4) this] obtain ps where ps: "line_pieces line = Some ps" "rewriting env turns base ps st st1 w" by blast
  have "hs_config (snd st1) = hs_config (snd st)" using ps(2) by (auto simp: rewriting_def split: prod.splits)
  with 2(1) [OF l [symmetric] _ r _ _ 2(5)] 2(3,4) obtain qs x where qs: "manifest_pieces rest = Some qs"
      "t = (out @ w @ [10]) @ x" "rewriting env turns base qs st1 st' x" by auto
  have "rewriting env turns base (ps @ [Kept [10]] @ qs) st st' (w @ [10] @ x)"
    by (intro rewriting_append [OF ps(2)] rewriting_append [OF rewriting_kept] qs(3))
  then show ?case using ps qs by auto
qed


section \<open>Limits of the tokens\<close>

datatype HlsEvent = HlsIssued bytes | HlsServed bytes

inductive hls_step :: "'u UrlEnv \<Rightarrow> 'u HlsBrokerState \<Rightarrow> HlsEvent option \<Rightarrow> 'u HlsBrokerState \<Rightarrow> bool"
  for env :: "'u UrlEnv" where
  hls_inserted: "insert_token env token url kind now inserted s = (s', True) \<Longrightarrow>
    hls_step env s (Some (HlsIssued (ue_digest env token))) s'"
| hls_full: "insert_token env token url kind now inserted s = (s', False) \<Longrightarrow> hls_step env s None s'"
| hls_served: "take_token env token now s = (s', Some resource) \<Longrightarrow>
    hls_step env s (Some (HlsServed (ue_digest env token))) s'"
| hls_refused: "take_token env token now s = (s', None) \<Longrightarrow> hls_step env s None s'"

definition hls_new :: "HlsBrokerConfig \<Rightarrow> 'u HlsBrokerState \<Rightarrow> bool" where
  "hls_new config s \<longleftrightarrow> hs_config s = config \<and> hs_tokens s = []"

fun hls_issue :: "HlsEvent \<Rightarrow> bytes option" where
  "hls_issue (HlsIssued h) = Some h"
| "hls_issue (HlsServed h) = None"

fun hls_serve :: "HlsEvent \<Rightarrow> bytes option" where
  "hls_serve (HlsIssued h) = None"
| "hls_serve (HlsServed h) = Some h"

definition left_of :: "(bytes \<times> 'u HlsResourceToken) list \<Rightarrow> bytes \<Rightarrow> nat" where
  "left_of t h = (case map_of t h of None \<Rightarrow> 0 | Some r \<Rightarrow> hr_remaining_requests r)"

definition hls_inv :: "HlsBrokerConfig \<Rightarrow> 'u HlsBrokerState \<Rightarrow> bool" where
  "hls_inv config s \<longleftrightarrow> hs_config s = config \<and> distinct (map fst (hs_tokens s))
     \<and> length (hs_tokens s) \<le> hc_max_tokens config"

lemma map_of_filter_distinct: "distinct (map fst t) \<Longrightarrow> map_of (filter P t) h = Some e \<Longrightarrow> map_of t h = Some e"
  by (metis filter_is_subset map_of_SomeD map_of_is_SomeI subsetD)

lemma left_of_filter: "distinct (map fst t) \<Longrightarrow> left_of (filter P t) h \<le> left_of t h"
  using map_of_filter_distinct [of t P h] by (cases "map_of (filter P t) h") (auto simp: left_of_def)

lemma left_of_remove: "left_of (remove_key k t) h = (if k = h then 0 else left_of t h)"
proof -
  have "map_of (remove_key h t) h = None" by (induction t) (auto simp: remove_key_def)
  then show ?thesis by (auto simp: left_of_def map_of_remove_key)
qed

lemma left_of_insert: "left_of (insert_key k v t) h = (if k = h then hr_remaining_requests v else left_of t h)"
  by (simp add: left_of_def map_of_insert_key)

lemma map_of_update_key: "map_of (update_key k v t) h = (if h = k then map_option (\<lambda>_. v) (map_of t k) else map_of t h)"
  by (induction t) (auto simp: update_key_def)

lemma update_key_fst: "map fst (update_key k v t) = map fst t"
  by (induction t) (auto simp: update_key_def)

text \<open>Both operations on the table, at any budget left: what they keep and what they leave for each token.\<close>

lemma insert_token_effect:
  assumes "hls_inv config s" "insert_token env token url kind now inserted s = (s', ok)"
  shows "hls_inv config s' \<and> left_of (hs_tokens s') h \<le> left_of (hs_tokens s) h
    + (if ok \<and> h = ue_digest env token then hc_max_requests_per_token config else 0)"
proof -
  define t where "t = filter (\<lambda>(_, r). hr_expires_at r > now \<and> hr_remaining_requests r > 0) (hs_tokens s)"
  have d: "distinct (map fst t)" "length t \<le> hc_max_tokens config" and c: "hs_config s = config"
    using assms(1) by (auto simp: hls_inv_def t_def distinct_map_filter intro: order_trans [OF length_filter_le])
  have l: "left_of t k \<le> left_of (hs_tokens s) k" for k
    using assms(1) by (auto simp: hls_inv_def t_def intro: left_of_filter)
  show ?thesis
  proof (cases ok)
    case True
    then have "length t < hc_max_tokens config" and s': "hs_config s' = config"
      and t': "hs_tokens s' = insert_key (ue_digest env token) \<lparr>hr_url = url, hr_kind = kind,
         hr_expires_at = inserted + hc_token_ttl config, hr_remaining_requests = hc_max_requests_per_token config\<rparr> t"
      using assms(2) c by (auto simp: insert_token_def t_def [symmetric] Let_def split: if_splits)
    moreover have "length (hs_tokens s') \<le> hc_max_tokens config"
      using order_trans [OF insert_key_length Suc_leI] calculation by metis
    ultimately show ?thesis using True d l [of h] by (auto simp: hls_inv_def left_of_insert insert_key_distinct)
  next
    case False
    then show ?thesis using assms(2) l d c by (auto simp: hls_inv_def insert_token_def t_def [symmetric] Let_def split: if_splits)
  qed
qed

lemma take_token_effect:
  assumes "hls_inv config s" "take_token env token now s = (s', r)"
  shows "hls_inv config s'
    \<and> (if r \<noteq> None \<and> h = ue_digest env token then 1 else 0) + left_of (hs_tokens s') h \<le> left_of (hs_tokens s) h"
proof -
  let ?h = "ue_digest env token"
  have c: "hs_config s = config" "distinct (map fst (hs_tokens s))" "length (hs_tokens s) \<le> hc_max_tokens config"
    using assms(1) by (auto simp: hls_inv_def)
  consider "map_of (hs_tokens s) ?h = None"
    | q where "map_of (hs_tokens s) ?h = Some q" "hr_expires_at q \<le> now \<or> hr_remaining_requests q = 0"
    | q where "map_of (hs_tokens s) ?h = Some q" "\<not> (hr_expires_at q \<le> now \<or> hr_remaining_requests q = 0)"
    by (cases "map_of (hs_tokens s) ?h") auto
  then show ?thesis
  proof cases
    case 1
    then show ?thesis using assms by (simp add: take_token_def Let_def)
  next
    case 2
    then have "r = None" "s' = s\<lparr>hs_tokens := remove_key ?h (hs_tokens s)\<rparr>"
      using assms(2) by (auto simp: take_token_def Let_def)
    moreover have "length (remove_key ?h (hs_tokens s)) \<le> hc_max_tokens config"
      using order_trans [OF remove_key_length c(3)] .
    ultimately show ?thesis using c by (auto simp: hls_inv_def left_of_remove remove_key_distinct)
  next
    case 3
    define q' where "q' = q\<lparr>hr_remaining_requests := hr_remaining_requests q - 1\<rparr>"
    have r: "r = Some q'" "s' = s\<lparr>hs_tokens := update_key ?h q' (hs_tokens s)\<rparr>"
      using assms(2) 3 by (auto simp: take_token_def Let_def q'_def)
    have "left_of (update_key ?h q' (hs_tokens s)) k = (if k = ?h then left_of (hs_tokens s) ?h - 1 else left_of (hs_tokens s) k)" for k
      by (simp add: left_of_def map_of_update_key 3(1) q'_def)
    moreover have "0 < left_of (hs_tokens s) ?h" using 3 by (simp add: left_of_def)
    moreover have "length (update_key ?h q' (hs_tokens s)) = length (hs_tokens s)" by (simp add: update_key_def)
    ultimately show ?thesis using c unfolding hls_inv_def r by (simp add: update_key_fst)
  qed
qed

lemma hls_step_inv: "hls_inv config s \<Longrightarrow> hls_step env s e s' \<Longrightarrow> hls_inv config s'"
  by (erule hls_step.cases) (auto dest: insert_token_effect take_token_effect)

interpretation hls_tokens: limited_use "hls_new config" "hls_step env" "hls_inv config"
  "\<lambda>s. left_of (hs_tokens s)" "hc_max_requests_per_token config" hls_issue hls_serve
  for config :: HlsBrokerConfig and env :: "'u UrlEnv"
proof
  show "left_of (hs_tokens s') k \<le> left_of (hs_tokens s) k"
    if "hls_inv config s" "hls_step env s None s'" for s s' :: "'u HlsBrokerState" and k
    using that(2) by (cases rule: hls_step.cases)
      (fastforce dest: insert_token_effect [OF that(1), where h = k] take_token_effect [OF that(1), where h = k])+
  show "(if hls_serve e = Some k then 1 else 0) + left_of (hs_tokens s') k
      \<le> left_of (hs_tokens s) k + (if hls_issue e = Some k then hc_max_requests_per_token config else 0)"
    if "hls_inv config s" "hls_step env s (Some e) s'" for s s' :: "'u HlsBrokerState" and e k
    using that(2)
  proof (cases rule: hls_step.cases)
    case (hls_inserted token url kind now inserted)
    with insert_token_effect [OF that(1) hls_inserted(2), where h = k] show ?thesis by (auto split: if_splits)
  next
    case (hls_served token now resource)
    with take_token_effect [OF that(1) hls_served(2), where h = k] show ?thesis by (auto split: if_splits)
  qed
qed (erule (1) hls_step_inv | simp add: hls_new_def hls_inv_def left_of_def)+

abbreviation hls_reach :: "'u UrlEnv \<Rightarrow> HlsBrokerConfig \<Rightarrow> HlsEvent list \<Rightarrow> 'u HlsBrokerState \<Rightarrow> bool" where
  "hls_reach env config \<equiv> history (hls_new config) (hls_step env)"

abbreviation issues :: "bytes \<Rightarrow> HlsEvent list \<Rightarrow> nat" where
  "issues \<equiv> occurrences hls_issue"

abbreviation serves :: "bytes \<Rightarrow> HlsEvent list \<Rightarrow> nat" where
  "serves \<equiv> occurrences hls_serve"

text \<open>
  C19: a token is served at most \<open>max_requests_per_token\<close> times for each time it was issued, after which
  a request for it is not found, and the table holds at most \<open>max_tokens\<close> tokens.\<close>

theorem token_requests_are_limited:
  assumes "hls_reach env config log s"
  shows "serves (ue_digest env token) log \<le> hc_max_requests_per_token config * issues (ue_digest env token) log
    \<and> length (hs_tokens s) \<le> hc_max_tokens config
    \<and> (serves (ue_digest env token) log = hc_max_requests_per_token config * issues (ue_digest env token) log \<longrightarrow>
        snd (proxy_hls_resource env encode get turns token now s) = NotFound)"
proof -
  let ?h = "ue_digest env token"
  have inv: "hls_inv config s" by (rule hls_tokens.history_ok [OF assms])
  have b: "serves ?h log + left_of (hs_tokens s) ?h \<le> hc_max_requests_per_token config * issues ?h log"
    by (rule hls_tokens.uses_within_budget [OF assms])
  have "snd (proxy_hls_resource env encode get turns token now s) = NotFound"
    if "serves ?h log = hc_max_requests_per_token config * issues ?h log"
  proof -
    have "left_of (hs_tokens s) ?h = 0" using b that by simp
    then have "snd (take_token env token now s) = None"
      by (auto simp: take_token_def left_of_def Let_def split: option.splits)
    then show ?thesis by (auto simp: proxy_hls_resource_def split: prod.splits)
  qed
  moreover have "serves ?h log \<le> hc_max_requests_per_token config * issues ?h log" using b by simp
  ultimately show ?thesis using inv by (simp add: hls_inv_def)
qed

text \<open>
  An attribute whose name does not follow a comma or a colon at once is not seen: the line, with the
  provider's URL in it, is passed on as it is.
\<close>

definition spaced_key_line :: "str \<Rightarrow> str" where
  "spaced_key_line uri = lit ''#EXT-X-KEY:METHOD=AES-128, URI='' @ [34] @ uri @ [34]"

theorem spaced_attribute_is_not_rewritten:
  assumes "100 \<le> hc_max_uri_bytes (hs_config s)"
  shows "rewrite_line env turns base (spaced_key_line (lit ''http://p/user/secret'')) (n, s)
    = ((n, s), Some (spaced_key_line (lit ''http://p/user/secret'')))"
  using assms by (simp add: rewrite_line_def spaced_key_line_def rewrite_hls_attributes.simps utf8_len_def)

text \<open>
  the command of a process shows nothing of the provider: it depends on the address and the token of the
  broker only, not on the endpoint or its headers, and its input is an HTTP URL of a loopback host without
  user information.\<close>

theorem commands_hide_the_endpoint:
  assumes "start_hls env endpoint config address token now inserted = Inr (s, input)"
    "start_hls env endpoint' config' address token now' inserted' = Inr (s', input')"
  shows "ffmpeg_command env input = ffmpeg_command env input' \<and> vlc_command env input = vlc_command env input'
    \<and> ue_scheme env (in_broker_url input) = lit ''http'' \<and> ue_username env (in_broker_url input) = []
    \<and> ue_password env (in_broker_url input) = None
    \<and> (\<exists>host. ue_host_str env (in_broker_url input) = Some host
        \<and> (eq_ignore_ascii_case (strip_brackets host) (lit ''localhost'') \<or> ue_loopback_ip env (strip_brackets host)))"
proof -
  obtain url where url: "loopback_http env url = Inr input" "loopback_http env url = Inr input'"
    using assms by (auto simp: start_hls_def Let_def split: sum.splits option.splits prod.splits if_splits)
  then have "input = input'" by simp
  with url(1) show ?thesis
    by (auto simp: loopback_http_def Let_def split: option.splits if_splits)
qed

section \<open>Examples\<close>

text \<open>A world where every string is its own URL on the loopback host.\<close>

definition example_urls :: "str UrlEnv" where
  "example_urls = \<lparr>ue_digest = ae_digest example_auth, ue_parse = Some, ue_join = (\<lambda>base uri. Some (base @ uri)), ue_as_str = (\<lambda>u. u),
     ue_scheme = (\<lambda>_. lit ''http''), ue_username = (\<lambda>_. []), ue_password = (\<lambda>_. None), ue_host_str = (\<lambda>_. Some (lit ''localhost'')),
     ue_path = (\<lambda>u. u), ue_fragment = (\<lambda>_. None), ue_loopback_ip = (\<lambda>_. False)\<rparr>"

definition example_broker :: "str HlsBrokerState" where
  "example_broker = \<lparr>hs_endpoint = \<lparr>ce_url = lit ''p'', ce_headers = []\<rparr>, hs_config = hls_default, hs_base_url = lit ''http://l/hls'',
     hs_tokens = []\<rparr>"

definition example_turns :: "nat \<Rightarrow> str HlsTurn" where
  "example_turns n = \<lparr>tu_others = (\<lambda>s. s), tu_token = [48 + n], tu_now = 5, tu_inserted = 6\<rparr>"

definition example_manifest :: bytes where
  "example_manifest = map of_nat (lit ''#EXTM3U'' @ [10] @ lit ''a.ts'' @ [10])"

lemma example_manifest_lines: "manifest_lines example_manifest = Some [lit ''a.ts'']"
  by (simp add: manifest_lines_def example_manifest_def strip_prefix_def strip_cr_def)


theorem token_requests_are_limited_witness:
  "\<exists>s'. hls_reach example_urls hls_default [HlsIssued (ue_digest example_urls (lit ''t''))] s'
    \<and> serves (ue_digest example_urls (lit ''t'')) [HlsIssued (ue_digest example_urls (lit ''t''))] \<le> 4 \<and> length (hs_tokens s') \<le> 4096"
proof -
  have "hls_reach example_urls hls_default [] example_broker" by (rule history_init) (simp add: example_broker_def hls_new_def)
  moreover obtain s' where "insert_token example_urls (lit ''t'') (lit ''p'') Binary 0 0 example_broker = (s', True)"
    by (simp add: insert_token_def example_broker_def hls_default_def DEFAULT_HLS_MAX_TOKENS_def Let_def)
  ultimately have r: "hls_reach example_urls hls_default [HlsIssued (ue_digest example_urls (lit ''t''))] s'"
    by (blast intro: history_event hls_inserted)
  from token_requests_are_limited [OF r, of "lit ''t''"] r show ?thesis
    by (auto simp: hls_default_def DEFAULT_HLS_TOKEN_REQUESTS_def DEFAULT_HLS_MAX_TOKENS_def)
qed

theorem commands_hide_the_endpoint_witness:
  "\<exists>s input s' input'. start_hls example_urls \<lparr>ce_url = lit ''p'', ce_headers = []\<rparr> hls_default (Some (lit ''l'')) (lit ''t'') 0 0 = Inr (s, input)
    \<and> start_hls example_urls \<lparr>ce_url = lit ''q'', ce_headers = []\<rparr> hls_default (Some (lit ''l'')) (lit ''t'') 0 0 = Inr (s', input')
    \<and> hs_tokens s \<noteq> hs_tokens s' \<and> ffmpeg_command example_urls input = ffmpeg_command example_urls input'"
proof -
  have start: "\<exists>s input. start_hls example_urls \<lparr>ce_url = u, ce_headers = []\<rparr> hls_default (Some (lit ''l'')) (lit ''t'') 0 0 = Inr (s, input)
      \<and> map (hr_url \<circ> snd) (hs_tokens s) = [u]" if "u = lit ''p'' \<or> u = lit ''q''" for u
    using that by (auto simp: start_hls_def hls_validate_def HlsBrokerConfig_new_def hls_default_def DEFAULT_HLS_TOKEN_TTL_def
        DEFAULT_HLS_TOKEN_REQUESTS_def DEFAULT_HLS_MAX_RESPONSE_BYTES_def DEFAULT_HLS_MAX_URI_BYTES_def DEFAULT_HLS_MAX_TOKENS_def
        validated_hls_url_def validate_hls_url_def example_urls_def insert_token_def insert_key_def remove_key_def loopback_http_def
        strip_brackets_def strip_prefix_def utf8_len_def eq_ignore_ascii_case_def Let_def)
  obtain s input where a: "start_hls example_urls \<lparr>ce_url = lit ''p'', ce_headers = []\<rparr> hls_default (Some (lit ''l'')) (lit ''t'') 0 0
      = Inr (s, input)" "map (hr_url \<circ> snd) (hs_tokens s) = [lit ''p'']" using start [OF disjI1 [OF refl]] by (elim exE conjE)
  obtain s' input' where b: "start_hls example_urls \<lparr>ce_url = lit ''q'', ce_headers = []\<rparr> hls_default (Some (lit ''l'')) (lit ''t'') 0 0
      = Inr (s', input')" "map (hr_url \<circ> snd) (hs_tokens s') = [lit ''q'']" using start [OF disjI2 [OF refl]] by (elim exE conjE)
  have "hs_tokens s \<noteq> hs_tokens s'" using a(2) b(2) by auto
  moreover have "ffmpeg_command example_urls input = ffmpeg_command example_urls input'"
    using commands_hide_the_endpoint [OF a(1) b(1)] by (rule conjunct1)
  ultimately show ?thesis using a(1) b(1) by (intro exI conjI)
qed

end
