(* ===== verification/Process.thy ===== *)
theory Process
  imports Session Credentials
begin

text \<open>
  The supervisor of a media process (the second part of \<open>crates/media/src/process.rs\<close>).

  The operating system is the record \<open>Child\<close> with the results of killing and reaping the process, and the
  list of what the biased selection of the supervisor sees: a request to shut down, or a read of the standard
  output, which is an error, the end (no bytes) or a chunk, with the clock readings of the write to the ring.
  When the list ends the supervisor is still running.
\<close>

type_synonym ErrorKind = nat

record ExitStatus =
  ex_success :: bool
  ex_code :: "int option"

record Child =
  ch_start_kill :: "ErrorKind option"
  ch_try_wait :: bool
  ch_wait :: "ErrorKind + ExitStatus"

datatype ProcessFailureStage = ReadStdout | Packetize | WriteRing | Kill | Wait | SupervisorLost

datatype ProcessExit =
    Completed bool "int option"
  | Cancelled "int option"
  | Failed ProcessFailureStage "ErrorKind option"

datatype ProcessEvent = ShutdownRequest | Read "ErrorKind + bytes" instant instant

fun adapter_name :: "ProcessAdapterKind \<Rightarrow> string" where
  "adapter_name Ffmpeg = ''FFmpeg''"
| "adapter_name Vlc = ''VLC''"

definition redacted_process_failure :: "ProcessAdapterKind \<Rightarrow> string \<Rightarrow> RingCloseReason" where
  "redacted_process_failure adapter detail =
     UpstreamError (adapter_name adapter @ '' '' @ detail @ ''; arguments redacted'')"

definition completed_exit :: "ExitStatus \<Rightarrow> ProcessExit" where
  "completed_exit status = Completed (ex_success status) (ex_code status)"

definition fail_and_reap ::
    "Child \<Rightarrow> RingInner \<Rightarrow> ProcessFailureStage \<Rightarrow> ErrorKind option \<Rightarrow> RingInner \<times> ProcessExit" where
  "fail_and_reap child ring stage kind =
     (snd (ring_close ring (UpstreamError ''process input failed; arguments redacted'')),
      case ch_wait child of Inl error \<Rightarrow> Failed Wait (Some error) | Inr _ \<Rightarrow> Failed stage kind)"

definition terminate_and_reap :: "Child \<Rightarrow> ProcessExit" where
  "terminate_and_reap child =
     (case (ch_start_kill child, ch_try_wait child) of
        (Some error, False) \<Rightarrow> Failed Kill (Some error)
      | _ \<Rightarrow> (case ch_wait child of Inl error \<Rightarrow> Failed Wait (Some error) | Inr status \<Rightarrow> Cancelled (ex_code status)))"

definition finish_naturally ::
    "ProcessAdapterKind \<Rightarrow> Child \<Rightarrow> RingInner \<Rightarrow> MpegTsPacketizer \<Rightarrow> RingInner \<times> ProcessExit" where
  "finish_naturally adapter child ring packetizer =
     (case packetizer_finish packetizer of
        Inl _ \<Rightarrow> fail_and_reap child ring Packetize None
      | Inr _ \<Rightarrow>
          (case ch_wait child of
             Inr status \<Rightarrow>
               (snd (ring_close ring (if ex_success status then EndOfStream
                  else redacted_process_failure adapter ''exited unsuccessfully'')), completed_exit status)
           | Inl error \<Rightarrow>
               (snd (ring_close ring (redacted_process_failure adapter ''could not be reaped'')), Failed Wait (Some error))))"

fun supervise_process ::
    "ProcessAdapterKind \<Rightarrow> Child \<Rightarrow> ProcessEvent list \<Rightarrow> MpegTsPacketizer \<Rightarrow> RingInner \<Rightarrow> RingInner \<times> ProcessExit option" where
  "supervise_process adapter child [] packetizer ring = (ring, None)"
| "supervise_process adapter child (ShutdownRequest # events) packetizer ring =
     (snd (ring_close ring Shutdown), Some (terminate_and_reap child))"
| "supervise_process adapter child (Read (Inl error) now t # events) packetizer ring =
     map_prod (\<lambda>r. r) Some (fail_and_reap child ring ReadStdout (Some error))"
| "supervise_process adapter child (Read (Inr chunk) now t # events) packetizer ring =
     (if chunk = [] then map_prod (\<lambda>r. r) Some (finish_naturally adapter child ring packetizer)
      else case packetizer_push packetizer chunk of
          (Inl _, packetizer) \<Rightarrow> map_prod (\<lambda>r. r) Some (fail_and_reap child ring Packetize None)
        | (Inr packets, packetizer) \<Rightarrow>
            if packets = [] then supervise_process adapter child events packetizer ring
            else (case ring_push ring packets now t of
                (Inl _, ring) \<Rightarrow> map_prod (\<lambda>r. r) Some (fail_and_reap child ring WriteRing None)
              | (Inr _, ring) \<Rightarrow> supervise_process adapter child events packetizer ring))"

section \<open>The output reaches the ring\<close>

text \<open>The chunks that are read before the supervisor stops reading.\<close>

fun output_chunks :: "ProcessEvent list \<Rightarrow> bytes list" where
  "output_chunks (Read (Inr chunk) now t # events) = (if chunk = [] then [] else chunk # output_chunks events)"
| "output_chunks _ = []"

lemma closed_after_close [simp]: "\<exists>y. rs_closed (ri_state (snd (ring_close r reason))) = Some y"
  by (auto simp: ring_close_def)

lemma ring_close_reach: "ring_reach cfg entries r \<Longrightarrow> ring_reach cfg entries (snd (ring_close r reason))"
  by (metis prod.collapse ring_closed)

lemma fail_and_reap_spec:
  "ring_reach cfg entries r \<Longrightarrow> fail_and_reap child r stage kind = (r', e) \<Longrightarrow>
   ring_reach cfg entries r' \<and> rs_closed (ri_state r') \<noteq> None \<and> (\<forall>c. e \<noteq> Completed True c)"
  using ring_close_reach by (auto simp: fail_and_reap_def split: sum.splits)

lemma fail_and_reap_never_completes [simp]: "fail_and_reap child r stage kind \<noteq> (r', Completed b c)"
  by (auto simp: fail_and_reap_def split: sum.splits)

lemma ring_push_Inl: "ring_push r bs now t = (Inl e, r') \<Longrightarrow> r' = r"
  using ring_push_rejected [of r bs now t] ring_push_accepted [of r bs now t] by (cases "push_accepts r bs") auto

lemma finish_naturally_spec:
  assumes "ring_reach cfg entries r" "finish_naturally adapter child r pk = (r', e)"
  shows "ring_reach cfg entries r' \<and> rs_closed (ri_state r') \<noteq> None"
    and "rs_closed (ri_state r) = None \<Longrightarrow> e = Completed True c \<Longrightarrow>
      rs_closed (ri_state r') = Some EndOfStream \<and> pk_pending pk = []"
proof -
  show "ring_reach cfg entries r' \<and> rs_closed (ri_state r') \<noteq> None"
    using assms fail_and_reap_spec [OF assms(1)] ring_close_reach [OF assms(1)]
    by (auto simp: finish_naturally_def split: sum.splits)
  show "rs_closed (ri_state r') = Some EndOfStream \<and> pk_pending pk = []"
    if "rs_closed (ri_state r) = None" "e = Completed True c"
    using assms(2) that
    by (auto simp: finish_naturally_def completed_exit_def ring_close_def packetizer_finish_def split: sum.splits if_splits)
qed

lemma chunks_extend:
  "chunks_exact MPEG_TS_PACKET_SIZE (bs @ c) =
     chunks_exact MPEG_TS_PACKET_SIZE bs @ chunks_exact MPEG_TS_PACKET_SIZE (aligned (leftover bs @ c))"
proof -
  have "chunks_exact MPEG_TS_PACKET_SIZE (bs @ c) = chunks_exact MPEG_TS_PACKET_SIZE (aligned bs @ aligned (leftover bs @ c))"
    using packets_cut(2) [of bs c] chunks_aligned [of "bs @ c"] by simp
  also have "\<dots> = chunks_exact MPEG_TS_PACKET_SIZE (aligned bs) @ chunks_exact MPEG_TS_PACKET_SIZE (aligned (leftover bs @ c))"
    by (rule chunks_exact_append_aligned) simp_all
  finally show ?thesis by simp
qed

text \<open>The state of the supervisor after it has read the bytes \<open>bs\<close>.\<close>

definition supervised :: "MpegTsRingConfig \<Rightarrow> bytes \<Rightarrow> MpegTsPacketizer \<Rightarrow> RingInner \<Rightarrow> bool" where
  "supervised cfg bs pk r \<longleftrightarrow> ring_reach cfg (chunks_exact MPEG_TS_PACKET_SIZE bs) r \<and> rs_closed (ri_state r) = None
     \<and> pk_pending pk = leftover bs \<and> synced bs"

lemma ring_push_keeps_open: "ring_push r bs now t = (Inr outcome, r') \<Longrightarrow> rs_closed (ri_state r') = None"
  using ring_push_Inr [of r bs now t outcome r'] ring_push_accepted [of r bs now t]
  by (auto simp: push_accepts_def)

lemma supervised_read:
  assumes "supervised cfg bs pk r" "packetizer_push pk c = (Inr packets, pk')"
  shows "packets = [] \<Longrightarrow> supervised cfg (bs @ c) pk' r"
    and "ring_push r packets now t = (Inr outcome, r') \<Longrightarrow> supervised cfg (bs @ c) pk' r'"
proof -
  have syn: "synced (leftover bs @ c)" and p: "packets = aligned (leftover bs @ c)" "pk' = \<lparr>pk_pending = leftover (leftover bs @ c)\<rparr>"
    using assms by (auto simp: supervised_def packetizer_push_spec Let_def split: if_splits prod.splits)
  then have rest: "synced (bs @ c)" "pk_pending pk' = leftover (bs @ c)"
    using assms(1) packets_cut [of bs c] by (auto simp: supervised_def)
  note chunks = chunks_extend [of bs c, folded p(1)]
  show "supervised cfg (bs @ c) pk' r" if "packets = []"
    using assms(1) rest chunks that by (simp add: supervised_def)
  show "supervised cfg (bs @ c) pk' r'" if push: "ring_push r packets now t = (Inr outcome, r')"
    using assms(1) rest chunks ring_pushed [OF _ push] ring_push_keeps_open [OF push] by (simp add: supervised_def)
qed

text \<open>What the supervisor leaves after further chunks: a prefix of them in the ring, all of them if the process succeeded.\<close>

definition outcome_ok ::
    "MpegTsRingConfig \<Rightarrow> bytes \<Rightarrow> bytes list \<Rightarrow> RingInner \<Rightarrow> ProcessExit option \<Rightarrow> bool" where
  "outcome_ok cfg bs chunks r exit \<longleftrightarrow>
     (\<exists>n \<le> length chunks. ring_reach cfg (chunks_exact MPEG_TS_PACKET_SIZE (bs @ concat (take n chunks))) r
        \<and> (exit \<noteq> None \<longrightarrow> rs_closed (ri_state r) \<noteq> None)
        \<and> (\<forall>c. exit = Some (Completed True c) \<longrightarrow> n = length chunks \<and> rs_closed (ri_state r) = Some EndOfStream
            \<and> leftover (bs @ concat chunks) = []))"

lemma outcome_ok_Cons: "outcome_ok cfg (bs @ c) chunks r exit \<Longrightarrow> outcome_ok cfg bs (c # chunks) r exit"
proof -
  assume "outcome_ok cfg (bs @ c) chunks r exit"
  then obtain n where n: "n \<le> length chunks"
      "ring_reach cfg (chunks_exact MPEG_TS_PACKET_SIZE ((bs @ c) @ concat (take n chunks))) r"
      "exit \<noteq> None \<longrightarrow> rs_closed (ri_state r) \<noteq> None"
      "\<forall>c'. exit = Some (Completed True c') \<longrightarrow> n = length chunks \<and> rs_closed (ri_state r) = Some EndOfStream
          \<and> leftover ((bs @ c) @ concat chunks) = []" unfolding outcome_ok_def by (elim exE conjE)
  then show ?thesis unfolding outcome_ok_def by (intro exI [of _ "Suc n"] conjI) simp_all
qed

lemma outcome_ok_stop:
  "ring_reach cfg (chunks_exact MPEG_TS_PACKET_SIZE bs) r \<Longrightarrow> rs_closed (ri_state r) \<noteq> None \<Longrightarrow> \<forall>c. e \<noteq> Completed True c \<Longrightarrow>
   outcome_ok cfg bs chunks r (Some e)"
  unfolding outcome_ok_def by (rule exI [of _ 0]) simp

lemma supervise_spec:
  assumes "supervised cfg bs pk r" "supervise_process adapter child events pk r = (r', exit)"
  shows "outcome_ok cfg bs (output_chunks events) r' exit"
  using assms
proof (induction adapter child events pk r arbitrary: bs rule: supervise_process.induct)
  case (1 adapter child pk r)
  then show ?case by (simp add: supervised_def outcome_ok_def)
next
  case (2 adapter child events pk r)
  have "\<forall>c. terminate_and_reap child \<noteq> Completed True c"
    by (auto simp: terminate_and_reap_def split: option.splits bool.splits sum.splits)
  moreover have "r' = snd (ring_close r Shutdown)" "exit = Some (terminate_and_reap child)" using 2(2) by auto
  ultimately show ?case using 2(1) ring_close_reach outcome_ok_stop by (simp add: supervised_def)
next
  case (3 adapter child error now t events pk r)
  obtain e where "fail_and_reap child r ReadStdout (Some error) = (r', e)" "exit = Some e"
    using 3(2) by (auto simp: map_prod_def split: prod.splits)
  with 3(1) show ?case using fail_and_reap_spec outcome_ok_stop by (auto simp: supervised_def simp del: output_chunks.simps)
next
  case (4 adapter child chunk now t events pk r)
  have reach: "ring_reach cfg (chunks_exact MPEG_TS_PACKET_SIZE bs) r" using 4(3) by (simp add: supervised_def)
  consider (finish) e where "chunk = []" "finish_naturally adapter child r pk = (r', e)" "exit = Some e"
    | (fail) stage e where "chunk \<noteq> []" "fail_and_reap child r stage None = (r', e)" "exit = Some e"
    | (quiet) pk' where "chunk \<noteq> []" "packetizer_push pk chunk = (Inr [], pk')" "supervise_process adapter child events pk' r = (r', exit)"
    | (written) packets pk' outcome r1 where "chunk \<noteq> []" "packetizer_push pk chunk = (Inr packets, pk')" "packets \<noteq> []"
        "ring_push r packets now t = (Inr outcome, r1)" "supervise_process adapter child events pk' r1 = (r', exit)"
  proof (cases "chunk = []")
    case True
    then show ?thesis using 4(4) finish by (auto simp: map_prod_def split: prod.splits)
  next
    case False
    obtain p pk' where p: "packetizer_push pk chunk = (p, pk')" by fastforce
    show ?thesis
    proof (cases p)
      case (Inl e)
      then show ?thesis using 4(4) False p fail by (auto simp: map_prod_def split: prod.splits)
    next
      case (Inr packets)
      obtain w r1 where w: "ring_push r packets now t = (w, r1)" by fastforce
      show ?thesis
        using 4(4) False p Inr w quiet written fail ring_push_Inl [of r packets now t _ r1]
        by (cases w) (auto simp: map_prod_def split: prod.splits if_splits)
    qed
  qed
  then show ?case
  proof cases
    case finish
    then show ?thesis using finish_naturally_spec [OF reach finish(2)] 4(3) by (auto simp: supervised_def outcome_ok_def)
  next
    case fail
    then show ?thesis using fail_and_reap_spec [OF reach fail(2)] outcome_ok_stop by (simp del: output_chunks.simps)
  next
    case quiet
    from 4(1) [OF quiet(1) quiet(2) [symmetric] _ _ supervised_read(1) [OF 4(3) quiet(2)] quiet(3)]
    show ?thesis using quiet(1) by (simp add: outcome_ok_Cons)
  next
    case written
    from 4(2) [OF written(1) written(2) [symmetric] _ written(3) written(4) [symmetric] _ supervised_read(2) [OF 4(3) written(2,4)] written(5)]
    show ?thesis using written(1) by (simp add: outcome_ok_Cons)
  qed
qed

text \<open>
  C20: whatever a process does, its ring receives the whole packets of a prefix of its output, in order and
  nothing else; when the supervisor ends, the ring is closed; and when the process ends with success, the ring
  has received all of the output, which is then made of whole packets, and is closed as an end of stream.\<close>

theorem process_output_reaches_the_ring:
  assumes "cfg_ok cfg" "supervise_process adapter child events packetizer_new (ring_new cfg) = (ring, exit)"
  shows "\<exists>n \<le> length (output_chunks events).
      ring_reach cfg (chunks_exact MPEG_TS_PACKET_SIZE (concat (take n (output_chunks events)))) ring
      \<and> (exit \<noteq> None \<longrightarrow> rs_closed (ri_state ring) \<noteq> None)
      \<and> (\<forall>c. exit = Some (Completed True c) \<longrightarrow> n = length (output_chunks events)
          \<and> rs_closed (ri_state ring) = Some EndOfStream \<and> MPEG_TS_PACKET_SIZE dvd length (concat (output_chunks events)))"
proof -
  have "supervised cfg [] packetizer_new (ring_new cfg)"
    using ring_created [OF assms(1)] by (simp add: supervised_def packetizer_new_def ring_new_def)
  from supervise_spec [OF this assms(2)] have ok: "outcome_ok cfg [] (output_chunks events) ring exit" .
  have "MPEG_TS_PACKET_SIZE dvd length bs" if "leftover bs = []" for bs :: bytes
    using that length_aligned [of bs] aligned_leftover [of bs] by (metis append_Nil2 dvd_eq_mod_eq_0)
  with ok show ?thesis unfolding outcome_ok_def by auto
qed

definition example_child :: Child where
  "example_child = \<lparr>ch_start_kill = None, ch_try_wait = True, ch_wait = Inr \<lparr>ex_success = True, ex_code = Some 0\<rparr>\<rparr>"

theorem process_output_reaches_the_ring_witness:
  "\<exists>ring. supervise_process Ffmpeg example_child [Read (Inr (pat_packet @ pmt_packet)) 0 0, Read (Inr []) 1 1] packetizer_new (ring_new sample_cfg)
     = (ring, Some (Completed True (Some 0)))
   \<and> ring_reach sample_cfg [pat_packet, pmt_packet] ring \<and> rs_closed (ri_state ring) = Some EndOfStream"
proof -
  let ?events = "[Read (Inr (pat_packet @ pmt_packet)) 0 0, Read (Inr []) 1 1]"
  have len: "length (pat_packet @ pmt_packet) mod MPEG_TS_PACKET_SIZE = 0" using sample_accepts by (simp add: push_accepts_def)
  have syn: "synced (pat_packet @ pmt_packet)" using sample_accepts by (simp add: synced_def push_accepts_def)
  have al: "aligned (pat_packet @ pmt_packet) = pat_packet @ pmt_packet" "leftover (pat_packet @ pmt_packet) = []"
    using packets_aligned_append(1,2) [OF len, of "[]"] by simp_all
  have ne: "pat_packet @ pmt_packet \<noteq> []"
    using arg_cong [of "pat_packet @ pmt_packet" "[]" length] MPEG_TS_PACKET_SIZE_pos by (metis add_gr_0 length_append list.size(3) not_less0 sample_packets(1))
  obtain out r where "ring_push (ring_new sample_cfg) (pat_packet @ pmt_packet) 0 0 = (Inr out, r)"
    using sample_accepts by (rule ring_push_outcome)
  then obtain ring where run: "supervise_process Ffmpeg example_child ?events packetizer_new (ring_new sample_cfg)
      = (ring, Some (Completed True (Some 0)))"
    using ne syn al by (auto simp: packetizer_push_spec packetizer_new_def finish_naturally_def packetizer_finish_def example_child_def completed_exit_def)
  have "cfg_ok sample_cfg" by (simp add: cfg_ok_def sample_cfg_def capacity_bytes_def MPEG_TS_PACKET_SIZE_def)
  from process_output_reaches_the_ring [OF this run] ne run show ?thesis by auto
qed

end
