(* ===== verification/Reconcile.thy ===== *)
theory Reconcile
  imports Unicode Complex_Main "HOL-Library.List_Lexorder" "HOL-Library.Product_Lexorder" "HOL-Library.Multiset"
begin

text \<open>
  Reconciliation of stations with guide channels (\<open>crates/domain/src/reconcile.rs\<close>).

  A finite \<open>f32\<close> is the rational number it stands for; \<open>f32_round\<close> is the rounding to nearest, ties
  to even, of a number that is not negative and below the overflow threshold.  \<open>char::is_alphanumeric\<close> is
  the argument \<open>alnum\<close>.  Strings compare as the lists of their characters, which is the order of their
  UTF-8 encodings.
\<close>

section \<open>Single precision\<close>

type_synonym f32 = rat

definition round_half_even :: "rat \<Rightarrow> int" where
  "round_half_even x =
     (let f = \<lfloor>x\<rfloor>; d = x - of_int f
      in if d < 1 / 2 \<or> d = 1 / 2 \<and> even f then f else f + 1)"

text \<open>The exponent of the last bit of the significand: the least one, from that of the subnormal numbers on, that fits.\<close>

definition f32_exponent :: "rat \<Rightarrow> int" where
  "f32_exponent x = (case find (\<lambda>e. x < 2 powi (24 + e)) [-149..104] of None \<Rightarrow> 104 | Some e \<Rightarrow> e)"

definition f32_round :: "rat \<Rightarrow> f32" where
  "f32_round x = (let e = f32_exponent x in of_int (round_half_even (x / 2 powi e)) * 2 powi e)"

text \<open>\<open>{:.3}\<close> of a value that is not negative.\<close>

definition show_fixed3 :: "f32 \<Rightarrow> str" where
  "show_fixed3 x =
     (let n = nat (round_half_even (x * 1000))
      in decimal (n div 1000) @ [46, 48 + n div 100 mod 10, 48 + n div 10 mod 10, 48 + n mod 10])"

section \<open>Data\<close>

record StationEvidence =
  st_id :: str
  st_name :: str
  st_tvg_id :: "str option"
  st_callsign :: "str option"
  st_group :: "str option"
  st_country :: "str option"

datatype MappingMethod = Manual | Previous | TvgId | Callsign | Alias | ExactName | Fuzzy

record MappingCandidate =
  mc_epg_id :: str
  mc_method :: MappingMethod
  mc_confidence :: f32
  mc_evidence :: "str list"

datatype MappingDecision =
    Applied MappingCandidate
  | Review "MappingCandidate list" str
  | Unresolved str

record MappingContext =
  cx_manual :: "str \<Rightarrow> str option"
  cx_previous :: "str \<Rightarrow> str option"
  cx_aliases :: "str \<Rightarrow> str option"
  cx_fuzzy_threshold :: f32

definition with_safe_defaults :: MappingContext where
  "with_safe_defaults = \<lparr>cx_manual = (\<lambda>_. None), cx_previous = (\<lambda>_. None), cx_aliases = (\<lambda>_. None),
     cx_fuzzy_threshold = f32_round (82 / 100)\<rparr>"

section \<open>Text\<close>

definition nonblank :: "str option \<Rightarrow> str option" where
  "nonblank value = (case value of None \<Rightarrow> None | Some s \<Rightarrow> if str_trim s = [] then None else Some (str_trim s))"

definition reconcile_normalize :: "(uchar \<Rightarrow> bool) \<Rightarrow> str \<Rightarrow> str" where
  "reconcile_normalize alnum value =
     str_join [32] (split_whitespace (map (\<lambda>c. if alnum c then ascii_lower c else 32) value))"

definition option_scope_matches :: "(uchar \<Rightarrow> bool) \<Rightarrow> str option \<Rightarrow> str option \<Rightarrow> bool" where
  "option_scope_matches alnum left right =
     (case (nonblank left, nonblank right) of
        (Some left, Some right) \<Rightarrow> reconcile_normalize alnum left = reconcile_normalize alnum right
      | _ \<Rightarrow> True)"

definition same_scope :: "(uchar \<Rightarrow> bool) \<Rightarrow> StationEvidence \<Rightarrow> StationEvidence \<Rightarrow> bool" where
  "same_scope alnum left right \<longleftrightarrow> option_scope_matches alnum (st_group left) (st_group right)
     \<and> option_scope_matches alnum (st_country left) (st_country right)"

definition token_similarity :: "(uchar \<Rightarrow> bool) \<Rightarrow> str \<Rightarrow> str \<Rightarrow> f32" where
  "token_similarity alnum left right =
     (let left = remdups (split_whitespace (reconcile_normalize alnum left));
          right = remdups (split_whitespace (reconcile_normalize alnum right))
      in if left = [] \<or> right = [] then 0
         else let intersection = f32_round (of_nat (length (filter (\<lambda>t. t \<in> set right) left)))
              in f32_round (f32_round (2 * intersection) / f32_round (of_nat (length left + length right))))"

section \<open>Decisions\<close>

definition applied :: "str \<Rightarrow> MappingMethod \<Rightarrow> f32 \<Rightarrow> str \<Rightarrow> MappingDecision" where
  "applied epg_id method confidence evidence =
     Applied \<lparr>mc_epg_id = epg_id, mc_method = method, mc_confidence = confidence, mc_evidence = [evidence]\<rparr>"

definition unique_or_review ::
    "StationEvidence list \<Rightarrow> MappingMethod \<Rightarrow> f32 \<Rightarrow> str \<Rightarrow> MappingDecision option" where
  "unique_or_review candidates method confidence evidence =
     (case candidates of
        [] \<Rightarrow> None
      | [candidate] \<Rightarrow> Some (applied (st_id candidate) method confidence evidence)
      | _ \<Rightarrow> Some (Review
          (map (\<lambda>candidate. \<lparr>mc_epg_id = st_id candidate, mc_method = method, mc_confidence = confidence,
                 mc_evidence = [lit ''ambiguous exact '' @ evidence]\<rparr>) (sort_key st_id candidates))
          (lit ''multiple EPG channels share the same '' @ evidence)))"

definition configured :: "StationEvidence list \<Rightarrow> MappingMethod \<Rightarrow> f32 \<Rightarrow> str \<Rightarrow> str option \<Rightarrow> MappingDecision option" where
  "configured candidates method confidence evidence epg_id =
     (case epg_id of
        None \<Rightarrow> None
      | Some epg_id \<Rightarrow>
          if list_ex (\<lambda>candidate. st_id candidate = epg_id) candidates then Some (applied epg_id method confidence evidence) else None)"

definition tvg_candidates :: "StationEvidence list \<Rightarrow> str \<Rightarrow> StationEvidence list" where
  "tvg_candidates candidates tvg_id =
     filter (\<lambda>candidate. (case nonblank (st_tvg_id candidate) of None \<Rightarrow> False | Some v \<Rightarrow> eq_ignore_ascii_case v tvg_id)
       \<or> eq_ignore_ascii_case (st_id candidate) tvg_id) candidates"

definition callsign_candidates :: "StationEvidence list \<Rightarrow> str \<Rightarrow> StationEvidence list" where
  "callsign_candidates candidates callsign =
     filter (\<lambda>candidate. case nonblank (st_callsign candidate) of None \<Rightarrow> False | Some v \<Rightarrow> eq_ignore_ascii_case v callsign)
       candidates"

definition name_candidates :: "(uchar \<Rightarrow> bool) \<Rightarrow> StationEvidence list \<Rightarrow> str \<Rightarrow> StationEvidence list" where
  "name_candidates alnum candidates name =
     filter (\<lambda>candidate. reconcile_normalize alnum name \<noteq> []
       \<and> reconcile_normalize alnum (st_name candidate) = reconcile_normalize alnum name) candidates"

definition alias_decision :: "(uchar \<Rightarrow> bool) \<Rightarrow> MappingContext \<Rightarrow> StationEvidence list \<Rightarrow> StationEvidence \<Rightarrow> MappingDecision option" where
  "alias_decision alnum context candidates station =
     List.find (\<lambda>_. True) (List.map_filter
       (\<lambda>key. configured candidates Alias (f32_round (97 / 100)) (lit ''configured alias'')
          (cx_aliases context (reconcile_normalize alnum key)))
       (List.map_filter (\<lambda>k. k) [st_callsign station, Some (st_name station)]))"

definition fuzzy_candidate :: "(uchar \<Rightarrow> bool) \<Rightarrow> f32 \<Rightarrow> StationEvidence \<Rightarrow> StationEvidence \<Rightarrow> MappingCandidate option" where
  "fuzzy_candidate alnum threshold station candidate =
     (let confidence = token_similarity alnum (st_name station) (st_name candidate)
      in if same_scope alnum station candidate \<and> confidence \<ge> threshold
         then Some \<lparr>mc_epg_id = st_id candidate, mc_method = Fuzzy, mc_confidence = confidence,
                mc_evidence = [lit ''scope-constrained token similarity '' @ show_fixed3 confidence]\<rparr>
         else None)"

definition fuzzy_order :: "MappingCandidate \<Rightarrow> rat \<times> str" where
  "fuzzy_order candidate = (- mc_confidence candidate, mc_epg_id candidate)"

definition fuzzy_decision :: "(uchar \<Rightarrow> bool) \<Rightarrow> MappingContext \<Rightarrow> StationEvidence list \<Rightarrow> StationEvidence \<Rightarrow> MappingDecision" where
  "fuzzy_decision alnum context candidates station =
     (let threshold = (if cx_fuzzy_threshold context > 0 then cx_fuzzy_threshold context else f32_round (82 / 100));
          fuzzy = sort_key fuzzy_order (List.map_filter (fuzzy_candidate alnum threshold station) candidates)
      in if fuzzy \<noteq> [] then Review fuzzy (lit ''fuzzy evidence is never activated without review'')
         else Unresolved (lit ''no sufficiently corroborated EPG candidate''))"

text \<open>The first decision of a list of attempts, in their order.\<close>

fun first_decision :: "MappingDecision option list \<Rightarrow> MappingDecision \<Rightarrow> MappingDecision" where
  "first_decision [] otherwise = otherwise"
| "first_decision (None # rest) otherwise = first_decision rest otherwise"
| "first_decision (Some decision # rest) otherwise = decision"

definition reconcile_epg ::
    "(uchar \<Rightarrow> bool) \<Rightarrow> StationEvidence \<Rightarrow> StationEvidence list \<Rightarrow> MappingContext \<Rightarrow> MappingDecision" where
  "reconcile_epg alnum station candidates context =
     (if candidates = []
      then Unresolved (lit ''the EPG source returned no candidates; the current binding must be retained'')
      else first_decision
        [configured candidates Manual 1 (lit ''configured stable binding'') (cx_manual context (st_id station)),
         configured candidates Previous 1 (lit ''configured stable binding'') (cx_previous context (st_id station)),
         (case nonblank (st_tvg_id station) of None \<Rightarrow> None
          | Some tvg_id \<Rightarrow> unique_or_review (tvg_candidates candidates tvg_id) TvgId (f32_round (99 / 100)) (lit ''tvg-id'')),
         (case nonblank (st_callsign station) of None \<Rightarrow> None
          | Some callsign \<Rightarrow> unique_or_review (callsign_candidates candidates callsign) Callsign (f32_round (98 / 100)) (lit ''callsign'')),
         alias_decision alnum context candidates station,
         unique_or_review (name_candidates alnum candidates (st_name station)) ExactName (f32_round (95 / 100)) (lit ''name'')]
        (fuzzy_decision alnum context candidates station))"

definition apply_non_destructive :: "str option \<Rightarrow> MappingDecision \<Rightarrow> str option" where
  "apply_non_destructive current_epg_id decision =
     (case decision of
        Applied candidate \<Rightarrow> Some (mc_epg_id candidate)
      | Review _ _ \<Rightarrow> current_epg_id
      | Unresolved _ \<Rightarrow> current_epg_id)"

section \<open>Independence of the order of the candidates\<close>

lemma sort_key_perm_map:
  assumes "mset xs = mset ys" "\<And>x y. x \<in> set xs \<Longrightarrow> y \<in> set xs \<Longrightarrow> f x = f y \<Longrightarrow> g x = g y"
  shows "map g (sort_key f xs) = map g (sort_key f ys)"
proof -
  have sorted: "map f (sort_key f zs) = sort (map f zs)" for zs
    by (rule properties_for_sort [symmetric]) simp_all
  have eq: "map f (sort_key f xs) = map f (sort_key f ys)"
    unfolding sorted using assms(1) by (intro properties_for_sort) simp_all
  have set_eq: "set (sort_key f xs) = set xs" "set (sort_key f ys) = set xs" "length (sort_key f xs) = length (sort_key f ys)"
    using mset_eq_setD [OF assms(1)] mset_eq_length [OF assms(1)] by simp_all
  show ?thesis
  proof (rule nth_equalityI)
    fix i assume "i < length (map g (sort_key f xs))"
    then have i: "i < length (sort_key f xs)" "i < length (sort_key f ys)" using set_eq(3) by auto
    have f: "f (sort_key f xs ! i) = f (sort_key f ys ! i)" using arg_cong [OF eq, of "\<lambda>l. l ! i"] i by simp
    have mem: "sort_key f xs ! i \<in> set xs" "sort_key f ys ! i \<in> set xs"
      using nth_mem [OF i(1)] nth_mem [OF i(2)] unfolding set_eq(1,2) .
    from assms(2) [OF mem f] i show "map g (sort_key f xs) ! i = map g (sort_key f ys) ! i" by simp
  qed (use mset_eq_length [OF assms(1)] in simp)
qed

lemma configured_perm: "mset candidates = mset candidates' \<Longrightarrow>
    configured candidates m c e x = configured candidates' m c e x"
  by (auto simp: configured_def list_ex_iff dest: mset_eq_setD split: option.splits)

lemma unique_or_review_perm:
  assumes "mset xs = mset ys"
  shows "unique_or_review xs m c e = unique_or_review ys m c e"
proof -
  have len: "length xs = length ys" using assms by (rule mset_eq_length)
  consider "xs = []" | x where "xs = [x]" | x y zs where "xs = x # y # zs" by (metis neq_Nil_conv)
  then show ?thesis
  proof cases
    case 1
    then show ?thesis using len by simp
  next
    case 2
    then have "ys = [x]" using assms by simp
    with 2 show ?thesis by simp
  next
    case 3
    then obtain x' y' zs' where ys: "ys = x' # y' # zs'" using len by (cases ys; cases "tl ys") auto
    have "map (\<lambda>s. \<lparr>mc_epg_id = st_id s, mc_method = m, mc_confidence = c, mc_evidence = [lit ''ambiguous exact '' @ e]\<rparr>) (sort_key st_id xs)
      = map (\<lambda>s. \<lparr>mc_epg_id = st_id s, mc_method = m, mc_confidence = c, mc_evidence = [lit ''ambiguous exact '' @ e]\<rparr>) (sort_key st_id ys)"
      by (rule sort_key_perm_map [OF assms]) simp
    then show ?thesis by (simp add: unique_or_review_def 3 ys)
  qed
qed

lemma map_filter_perm: "mset xs = mset ys \<Longrightarrow> mset (List.map_filter f xs) = mset (List.map_filter f ys)"
  by (simp add: List.map_filter_def mset_filter)

lemma fuzzy_inj:
  assumes "a \<in> set (List.map_filter (fuzzy_candidate alnum t station) xs)" "b \<in> set (List.map_filter (fuzzy_candidate alnum t station) xs)"
    "fuzzy_order a = fuzzy_order b"
  shows "a = b"
  using assms by (auto simp: List.map_filter_def fuzzy_candidate_def fuzzy_order_def Let_def split: if_splits)

lemma fuzzy_decision_perm:
  assumes "mset candidates = mset candidates'"
  shows "fuzzy_decision alnum context candidates station = fuzzy_decision alnum context candidates' station"
proof -
  have "sort_key fuzzy_order (List.map_filter (fuzzy_candidate alnum t station) candidates)
    = sort_key fuzzy_order (List.map_filter (fuzzy_candidate alnum t station) candidates')" for t
    using sort_key_perm_map [OF map_filter_perm [OF assms], where f = fuzzy_order and g = "\<lambda>x. x"] fuzzy_inj by (metis list.map_ident)
  then show ?thesis by (simp add: fuzzy_decision_def Let_def)
qed

text \<open>
  C36: the decision on a station does not depend on the order in which the guide lists its candidates, in all
  of its parts: the candidate, the candidates for review and their order, the evidence and the reason.\<close>

theorem reconcile_is_stable:
  assumes "mset candidates' = mset candidates"
  shows "reconcile_epg alnum station candidates' context = reconcile_epg alnum station candidates context"
proof -
  have "mset (filter P candidates') = mset (filter P candidates)" for P using assms by (simp add: mset_filter)
  note p = unique_or_review_perm [OF this] configured_perm [OF assms] fuzzy_decision_perm [OF assms]
  have "candidates' = [] \<longleftrightarrow> candidates = []" using mset_eq_length [OF assms] by auto
  then show ?thesis
    unfolding reconcile_epg_def alias_decision_def tvg_candidates_def callsign_candidates_def name_candidates_def p by simp
qed

section \<open>Activation\<close>

lemma first_decision_cases: "first_decision attempts d = Applied c \<Longrightarrow> Some (Applied c) \<in> set attempts \<or> d = Applied c"
  by (induction attempts d rule: first_decision.induct) auto

lemma unique_or_review_Applied: "unique_or_review xs m c e = Some (Applied cand) \<Longrightarrow>
    \<exists>x. xs = [x] \<and> cand = \<lparr>mc_epg_id = st_id x, mc_method = m, mc_confidence = c, mc_evidence = [e]\<rparr>"
  by (auto simp: unique_or_review_def applied_def split: list.splits)

lemma unique_filter_Applied:
  assumes "unique_or_review (filter P candidates) m c e = Some (Applied cand)"
  shows "mc_epg_id cand \<in> st_id ` set candidates \<and> mc_method cand = m \<and> map st_id (filter P candidates) = [mc_epg_id cand]"
proof -
  obtain x where x: "filter P candidates = [x]" "mc_epg_id cand = st_id x" "mc_method cand = m"
    using unique_or_review_Applied [OF assms] by auto
  moreover have "x \<in> set candidates" using arg_cong [OF x(1), of set] by auto
  ultimately show ?thesis by auto
qed

lemma configured_Applied: "configured xs m c e k = Some (Applied cand) \<Longrightarrow>
    k = Some (mc_epg_id cand) \<and> mc_epg_id cand \<in> st_id ` set xs \<and> mc_method cand = m"
  by (auto simp: configured_def applied_def list_ex_iff split: option.splits if_splits)

text \<open>The evidence that each method of an activation needs.\<close>

definition evidence_for ::
    "(uchar \<Rightarrow> bool) \<Rightarrow> StationEvidence \<Rightarrow> StationEvidence list \<Rightarrow> MappingContext \<Rightarrow> MappingMethod \<Rightarrow> str \<Rightarrow> bool" where
  "evidence_for alnum station candidates context method epg_id =
     (case method of
        Manual \<Rightarrow> cx_manual context (st_id station) = Some epg_id
      | Previous \<Rightarrow> cx_previous context (st_id station) = Some epg_id
      | TvgId \<Rightarrow> (\<exists>v. nonblank (st_tvg_id station) = Some v \<and> map st_id (tvg_candidates candidates v) = [epg_id])
      | Callsign \<Rightarrow> (\<exists>v. nonblank (st_callsign station) = Some v \<and> map st_id (callsign_candidates candidates v) = [epg_id])
      | Alias \<Rightarrow> (\<exists>key \<in> set_option (st_callsign station) \<union> {st_name station}. cx_aliases context (reconcile_normalize alnum key) = Some epg_id)
      | ExactName \<Rightarrow> map st_id (name_candidates alnum candidates (st_name station)) = [epg_id]
      | Fuzzy \<Rightarrow> False)"

lemma alias_decision_Applied:
  assumes "alias_decision alnum context candidates station = Some (Applied c)"
  shows "mc_epg_id c \<in> st_id ` set candidates \<and> evidence_for alnum station candidates context (mc_method c) (mc_epg_id c)"
proof -
  obtain key where "key \<in> set_option (st_callsign station) \<union> {st_name station}"
      "configured candidates Alias (f32_round (97 / 100)) (lit ''configured alias'') (cx_aliases context (reconcile_normalize alnum key)) = Some (Applied c)"
    using assms by (auto simp: alias_decision_def List.map_filter_def split: option.splits if_splits)
  then show ?thesis using configured_Applied by (fastforce simp: evidence_for_def)
qed

lemma activation_cases:
  assumes "reconcile_epg alnum station candidates context = Applied c"
  obtains
      (configured) m e k where "configured candidates m 1 e k = Some (Applied c)"
        "m = Manual \<and> k = cx_manual context (st_id station) \<or> m = Previous \<and> k = cx_previous context (st_id station)"
    | (tvg) v cf e where "nonblank (st_tvg_id station) = Some v" "unique_or_review (tvg_candidates candidates v) TvgId cf e = Some (Applied c)"
    | (callsign) v cf e where "nonblank (st_callsign station) = Some v"
        "unique_or_review (callsign_candidates candidates v) Callsign cf e = Some (Applied c)"
    | (aliased) "alias_decision alnum context candidates station = Some (Applied c)"
    | (name) cf e where "unique_or_review (name_candidates alnum candidates (st_name station)) ExactName cf e = Some (Applied c)"
proof -
  have "fuzzy_decision alnum context candidates station \<noteq> Applied c" by (auto simp: fuzzy_decision_def Let_def)
  then have "Some (Applied c) \<in> set
     [configured candidates Manual 1 (lit ''configured stable binding'') (cx_manual context (st_id station)),
      configured candidates Previous 1 (lit ''configured stable binding'') (cx_previous context (st_id station)),
      (case nonblank (st_tvg_id station) of None \<Rightarrow> None
       | Some tvg_id \<Rightarrow> unique_or_review (tvg_candidates candidates tvg_id) TvgId (f32_round (99 / 100)) (lit ''tvg-id'')),
      (case nonblank (st_callsign station) of None \<Rightarrow> None
       | Some callsign \<Rightarrow> unique_or_review (callsign_candidates candidates callsign) Callsign (f32_round (98 / 100)) (lit ''callsign'')),
      alias_decision alnum context candidates station,
      unique_or_review (name_candidates alnum candidates (st_name station)) ExactName (f32_round (95 / 100)) (lit ''name'')]"
    using assms first_decision_cases unfolding reconcile_epg_def by (metis MappingDecision.distinct(3))
  then show ?thesis using that by (auto split: option.splits dest!: sym [of "Some _"])
qed

text \<open>
  C35: a binding is activated only for a channel that the guide lists and only on a configured or earlier
  binding, an alias, or exact evidence that no other candidate shares; never on similarity; and what is
  not activated leaves the current binding as it is.\<close>

theorem activation_needs_exact_evidence:
  "case reconcile_epg alnum station candidates context of
     Applied c \<Rightarrow> mc_epg_id c \<in> st_id ` set candidates
       \<and> evidence_for alnum station candidates context (mc_method c) (mc_epg_id c)
   | decision \<Rightarrow> apply_non_destructive current decision = current"
proof (cases "reconcile_epg alnum station candidates context")
  case (Applied c)
  then have "mc_epg_id c \<in> st_id ` set candidates \<and> evidence_for alnum station candidates context (mc_method c) (mc_epg_id c)"
  proof (cases rule: activation_cases)
    case configured
    then show ?thesis using configured_Applied [OF configured(1)] by (auto simp: evidence_for_def)
  next
    case tvg
    then show ?thesis using unique_filter_Applied [OF tvg(2) [unfolded tvg_candidates_def]]
      by (auto simp: evidence_for_def tvg_candidates_def)
  next
    case callsign
    then show ?thesis using unique_filter_Applied [OF callsign(2) [unfolded callsign_candidates_def]]
      by (auto simp: evidence_for_def callsign_candidates_def)
  next
    case aliased
    then show ?thesis by (rule alias_decision_Applied)
  next
    case name
    then show ?thesis using unique_filter_Applied [OF name [unfolded name_candidates_def]]
      by (auto simp: evidence_for_def name_candidates_def)
  qed
  then show ?thesis by (simp add: Applied)
qed (simp_all add: apply_non_destructive_def)

section \<open>Examples\<close>

definition example_station :: "str \<Rightarrow> StationEvidence" where
  "example_station i = \<lparr>st_id = i, st_name = [], st_tvg_id = Some (lit ''T''), st_callsign = None, st_group = None, st_country = None\<rparr>"

theorem reconcile_is_stable_witness:
  "\<exists>candidates reason. reconcile_epg (\<lambda>_. True) (example_station (lit ''s'')) [example_station (lit ''b''), example_station (lit ''a'')] with_safe_defaults
     = Review candidates reason
   \<and> reconcile_epg (\<lambda>_. True) (example_station (lit ''s'')) [example_station (lit ''a''), example_station (lit ''b'')] with_safe_defaults
     = Review candidates reason \<and> map mc_epg_id candidates = [lit ''a'', lit ''b'']"
proof -
  have trim: "nonblank (st_tvg_id (example_station i)) = Some (lit ''T'')" for i
    by (simp add: nonblank_def example_station_def str_trim_def trim_start_by_def trim_end_by_def is_whitespace_def)
  obtain candidates reason where r: "reconcile_epg (\<lambda>_. True) (example_station (lit ''s'')) [example_station (lit ''b''), example_station (lit ''a'')]
      with_safe_defaults = Review candidates reason" "map mc_epg_id candidates = [lit ''a'', lit ''b'']"
    using trim by (simp add: reconcile_epg_def configured_def with_safe_defaults_def tvg_candidates_def unique_or_review_def
        eq_ignore_ascii_case_def) (simp add: example_station_def)
  have "mset [example_station (lit ''a''), example_station (lit ''b'')] = mset [example_station (lit ''b''), example_station (lit ''a'')]"
    by simp
  from reconcile_is_stable [OF this] r show ?thesis by metis
qed

end
