(* ===== verification/EventScan.thy ===== *)
theory EventScan
  imports Guide Settings
begin

text \<open>
  The scan of event channels (\<open>crates/persistence/src/event_scan.rs\<close>).

  Instants and durations are ordered types; addition, rounding to the hour, the local format of an instant, the
  names of time zones and the expression for provider labels are the fields of \<open>ScanEnv\<close>.
\<close>

section \<open>Settings and reports\<close>

record ('t, 'd, 'z) ScanEnv =
  se_checked_add :: "'t \<Rightarrow> 'd \<Rightarrow> 't option"
  se_trunc_hour :: "'t \<Rightarrow> 't option"
  se_zero :: 'd
  se_format_local :: "'t \<Rightarrow> 'z \<Rightarrow> str"
  se_parse_tz :: "str \<Rightarrow> 'z option"
  se_utc :: 'z
  se_provider_label :: "str \<Rightarrow> str option"

definition MAX_EVENT_SCAN_SKIPS :: usize where
  "MAX_EVENT_SCAN_SKIPS = 200"

definition DEFAULT_INFERRED_DURATION_SECONDS :: u64 where
  "DEFAULT_INFERRED_DURATION_SECONDS = 10800"

record EventScanSettings =
  es_upcoming_prefix :: str
  es_ended_title :: str
  es_inferred_duration_seconds :: u64

definition scan_default :: EventScanSettings where
  "scan_default = \<lparr>es_upcoming_prefix = lit ''Upcoming'', es_ended_title = lit ''Event ended'',
     es_inferred_duration_seconds = DEFAULT_INFERRED_DURATION_SECONDS\<rparr>"

text \<open>\<open>as_str\<close> and \<open>as_u64\<close> are those of JSON values.\<close>

definition scan_from_settings ::
    "('v \<Rightarrow> str option) \<Rightarrow> ('v \<Rightarrow> u64 option) \<Rightarrow> 'v EffectiveSetting list \<Rightarrow> EventScanSettings" where
  "scan_from_settings as_str as_u64 settings =
     (let find_setting = (\<lambda>key. find (\<lambda>setting. sd_key (ef_definition setting) = key) settings) in
      scan_default\<lparr>
        es_ended_title :=
          (case find_setting ''events.filler_title'' of
             None \<Rightarrow> es_ended_title scan_default
           | Some setting \<Rightarrow>
               if ef_inherited_from setting = SystemDefault then es_ended_title scan_default
               else (case as_str (ef_value setting) of
                   None \<Rightarrow> es_ended_title scan_default
                 | Some title \<Rightarrow> if str_trim title = [] then es_ended_title scan_default else str_trim title)),
        es_inferred_duration_seconds :=
          (case Option.bind (find_setting ''events.inferred_duration_seconds'') (\<lambda>setting. as_u64 (ef_value setting)) of
             None \<Rightarrow> es_inferred_duration_seconds scan_default
           | Some seconds \<Rightarrow> seconds)\<rparr>)"

record EventScanSkip =
  sk_template_id :: "nat option"
  sk_channel_id :: "nat option"
  sk_stream_name :: str
  sk_reason :: str

record EventScanReport =
  rp_channels_scanned :: u64
  rp_matched :: u64
  rp_scheduled :: u64
  rp_skipped :: u64
  rp_pruned :: u64
  rp_skips :: "EventScanSkip list"

definition report_skip :: "nat option \<Rightarrow> nat option \<Rightarrow> str \<Rightarrow> str \<Rightarrow> EventScanReport \<Rightarrow> EventScanReport" where
  "report_skip template_id channel_id stream_name reason self =
     (if length (rp_skips self) < MAX_EVENT_SCAN_SKIPS
      then self\<lparr>rp_skips := rp_skips self @ [\<lparr>sk_template_id = template_id, sk_channel_id = channel_id,
             sk_stream_name = stream_name, sk_reason = reason\<rparr>]\<rparr>
      else self)"

section \<open>Names, slots and zones\<close>

fun postgres_word_boundaries_to_rust :: "str \<Rightarrow> str" where
  "postgres_word_boundaries_to_rust [] = []"
| "postgres_word_boundaries_to_rust [c] = [c]"
| "postgres_word_boundaries_to_rust (c # d # s) =
     (if c \<noteq> 92 then c # postgres_word_boundaries_to_rust (d # s)
      else if d = 121 \<or> d = 109 \<or> d = 77 then 92 # 98 # postgres_word_boundaries_to_rust s
      else 92 # d # postgres_word_boundaries_to_rust s)"

definition display_league :: "str \<Rightarrow> str" where
  "display_league league =
     (let collapsed = str_join [32] (split_whitespace league)
      in if str_len collapsed \<le> 4 \<and> list_all (\<lambda>c. 65 \<le> c \<and> c \<le> 90 \<or> 97 \<le> c \<and> c \<le> 122) collapsed
         then map (\<lambda>c. if 97 \<le> c \<and> c \<le> 122 then c - 32 else c) collapsed else collapsed)"

definition stable_event_channel_name :: "('t, 'd, 'z) ScanEnv \<Rightarrow> (str \<Rightarrow> str option) \<Rightarrow> str \<Rightarrow> str option" where
  "stable_event_channel_name env captures stream_name =
     (let field = (\<lambda>name. case captures name of None \<Rightarrow> None
            | Some v \<Rightarrow> if str_trim v = [] then None else Some (str_trim v))
      in case (field (lit ''league''), field (lit ''slot'')) of
           (Some league, Some slot) \<Rightarrow> Some (display_league league @ [32] @ slot)
         | _ \<Rightarrow> (case se_provider_label env stream_name of
               None \<Rightarrow> None
             | Some label \<Rightarrow>
                 (let label = str_join [32] (split_whitespace label) in if label = [] then None else Some label)))"

definition resolve_event_timezone :: "('t, 'd, 'z) ScanEnv \<Rightarrow> str \<Rightarrow> str option \<Rightarrow> str option \<Rightarrow> 'z" where
  "resolve_event_timezone env template source region =
     (let not_utc = (\<lambda>v. if str_trim v = lit ''UTC'' then None else Some v)
      in case List.map_filter (\<lambda>v. Option.bind v (\<lambda>v. se_parse_tz env (str_trim v)))
             [not_utc template, Option.bind source not_utc, region] of
           [] \<Rightarrow> se_utc env
         | tz # _ \<Rightarrow> tz)"

text \<open>\<open>str::parse::<i32>\<close>: an optional sign and decimal digits.\<close>

definition parse_i32 :: "str \<Rightarrow> int option" where
  "parse_i32 s =
     (case s of
        [] \<Rightarrow> None
      | c # rest \<Rightarrow>
          let ds = (if c = 43 \<or> c = 45 then rest else s);
              n = (if c = 45 then - int (num ds) else int (num ds))
          in if ds \<noteq> [] \<and> list_all is_ascii_digit ds \<and> - (2 ^ 31) \<le> n \<and> n < 2 ^ 31 then Some n else None)"

definition slot_number :: "(str \<Rightarrow> str option) \<Rightarrow> int" where
  "slot_number captures =
     (case Option.bind (captures (lit ''slot'')) (\<lambda>slot. parse_i32 (str_trim slot)) of None \<Rightarrow> 0 | Some n \<Rightarrow> n)"

section \<open>Lifecycle and guide\<close>

datatype EventChannelState = Scheduled | Live | Ended | Hidden

fun state_name :: "EventChannelState \<Rightarrow> str" where
  "state_name Scheduled = lit ''scheduled''"
| "state_name Live = lit ''live''"
| "state_name Ended = lit ''ended''"
| "state_name Hidden = lit ''hidden''"

definition state_at :: "('t :: linorder, 'd, 'z) ScanEnv \<Rightarrow> 't \<Rightarrow> 't \<Rightarrow> 'd \<Rightarrow> 't \<Rightarrow> EventChannelState" where
  "state_at env starts_at stops_at grace now =
     (if now < starts_at then Scheduled
      else if now < stops_at then Live
      else if (case se_checked_add env stops_at grace of None \<Rightarrow> False | Some hidden_at \<Rightarrow> now < hidden_at) then Ended
      else Hidden)"

definition upcoming_title :: "('t, 'd, 'z) ScanEnv \<Rightarrow> str \<Rightarrow> str \<Rightarrow> 't \<Rightarrow> 'z \<Rightarrow> str" where
  "upcoming_title env prefix title starts_at timezone =
     prefix @ lit '': '' @ title @ lit '', '' @ se_format_local env starts_at timezone"

definition upcoming_filler ::
    "('t, 'd, 'z) ScanEnv \<Rightarrow> 't GeneratedProgramme \<Rightarrow> 'z \<Rightarrow> 't \<Rightarrow> EventScanSettings \<Rightarrow> 't GeneratedProgramme" where
  "upcoming_filler env event timezone window_start settings =
     \<lparr>gp_starts_at = window_start, gp_stops_at = gp_starts_at event,
      gp_title = upcoming_title env (es_upcoming_prefix settings) (gp_title event) (gp_starts_at event) timezone,
      gp_kind = Filler, gp_stable_event_key = None, gp_source_title = gp_source_title event\<rparr>"

definition ended_filler :: "'t GeneratedProgramme \<Rightarrow> 't \<Rightarrow> EventScanSettings \<Rightarrow> 't GeneratedProgramme" where
  "ended_filler event ended_stop settings =
     \<lparr>gp_starts_at = gp_stops_at event, gp_stops_at = ended_stop, gp_title = es_ended_title settings,
      gp_kind = Filler, gp_stable_event_key = None, gp_source_title = gp_source_title event\<rparr>"

definition plan_event_channel_guide ::
    "('t :: linorder, 'd :: linorder, 'z) ScanEnv \<Rightarrow> 't GeneratedProgramme \<Rightarrow> 'z \<Rightarrow> 't \<Rightarrow> 'd \<Rightarrow> EventScanSettings \<Rightarrow>
     't GeneratedProgramme list" where
  "plan_event_channel_guide env event timezone now grace settings =
     (let window_start = (case se_trunc_hour env now of None \<Rightarrow> now | Some t \<Rightarrow> t)
      in (if window_start < gp_starts_at event then [upcoming_filler env event timezone window_start settings] else [])
         @ [event]
         @ (if grace > se_zero env then
              (case se_checked_add env (gp_stops_at event) grace of
                 None \<Rightarrow> []
               | Some ended_stop \<Rightarrow> [ended_filler event ended_stop settings])
            else []))"

section \<open>The guide follows the state\<close>

text \<open>Addition goes forward by a positive duration only, and rounding down does not go forward.\<close>

definition scan_laws :: "('t :: linorder, 'd :: linorder, 'z) ScanEnv \<Rightarrow> bool" where
  "scan_laws env \<longleftrightarrow>
     (\<forall>t d t'. se_checked_add env t d = Some t' \<longrightarrow> (if se_zero env < d then t < t' else t' \<le> t)) \<and>
     (\<forall>t t'. se_trunc_hour env t = Some t' \<longrightarrow> t' \<le> t)"

definition on_air :: "'t :: linorder \<Rightarrow> 't GeneratedProgramme list \<Rightarrow> 't GeneratedProgramme list" where
  "on_air now guide = filter (\<lambda>p. gp_starts_at p \<le> now \<and> now < gp_stops_at p) guide"

lemma filler_times [simp]:
  "gp_starts_at (upcoming_filler env event tz w settings) = w" "gp_stops_at (upcoming_filler env event tz w settings) = gp_starts_at event"
  "gp_starts_at (ended_filler event t settings) = gp_stops_at event" "gp_stops_at (ended_filler event t settings) = t"
  by (simp_all add: upcoming_filler_def ended_filler_def)

text \<open>The plan in its parts: the start of the window, the end of the closing filler and what each phase has on the air.\<close>

definition window_of :: "('t :: linorder, 'd, 'z) ScanEnv \<Rightarrow> 't \<Rightarrow> 't" where
  "window_of env now = (case se_trunc_hour env now of None \<Rightarrow> now | Some t \<Rightarrow> t)"

lemma window_of_le: "scan_laws env \<Longrightarrow> window_of env now \<le> now"
  by (auto simp: window_of_def scan_laws_def split: option.splits)

lemma on_air_append: "on_air now (xs @ ys) = on_air now xs @ on_air now ys"
  by (simp add: on_air_def)

definition closing_part ::
    "bool \<Rightarrow> 't option \<Rightarrow> 't GeneratedProgramme \<Rightarrow> EventScanSettings \<Rightarrow> 't GeneratedProgramme list" where
  "closing_part graced ended_stop event settings =
     (if graced then (case ended_stop of None \<Rightarrow> [] | Some t \<Rightarrow> [ended_filler event t settings]) else [])"

lemma plan_parts:
  "plan_event_channel_guide env event timezone now grace settings =
     (if window_of env now < gp_starts_at event then [upcoming_filler env event timezone (window_of env now) settings] else [])
     @ [event] @ closing_part (se_zero env < grace) (se_checked_add env (gp_stops_at event) grace) event settings"
  by (simp only: plan_event_channel_guide_def window_of_def closing_part_def Let_def)

lemma on_air_closing:
  assumes "\<And>t. ended_stop = Some t \<Longrightarrow> \<not> graced \<Longrightarrow> t \<le> gp_stops_at event" "gp_stops_at event \<le> now"
  shows "on_air now (closing_part graced ended_stop event settings) =
    (if (case ended_stop of None \<Rightarrow> False | Some t \<Rightarrow> now < t) then [ended_filler event (the ended_stop) settings] else [])"
proof (cases ended_stop)
  case None
  then show ?thesis by (simp only: closing_part_def on_air_def option.case if_cancel filter.simps if_False)
next
  case (Some t)
  show ?thesis
  proof (cases graced)
    case True
    with Some assms(2) show ?thesis by (simp add: closing_part_def on_air_def)
  next
    case False
    then have "\<not> now < t" using assms Some by (metis leD le_less_trans order_refl)
    with Some False show ?thesis by (simp add: closing_part_def on_air_def)
  qed
qed

lemma on_air_before_closing:
  assumes "now < gp_stops_at event"
  shows "on_air now (closing_part graced ended_stop event settings) = []"
  using assms by (cases graced; cases ended_stop) (simp_all add: on_air_def closing_part_def not_le)


lemma postgres_idempotent: "postgres_word_boundaries_to_rust (postgres_word_boundaries_to_rust p) = postgres_word_boundaries_to_rust p"
proof (induction p rule: postgres_word_boundaries_to_rust.induct)
  case (3 c d s)
  show ?case
  proof (cases "c = 92")
    case True
    with 3 show ?thesis by auto
  next
    case False
    then obtain e t where "postgres_word_boundaries_to_rust (d # s) = e # t"
      by (cases "postgres_word_boundaries_to_rust (d # s)"; cases s) (auto split: if_splits)
    with False 3(1) show ?thesis by simp
  qed
qed simp_all

lemma report_skip_bound: "length (rp_skips r) \<le> MAX_EVENT_SCAN_SKIPS \<Longrightarrow>
    length (rp_skips (report_skip a b c d r)) \<le> MAX_EVENT_SCAN_SKIPS"
  by (simp add: report_skip_def)

definition example_scan :: "(int, int, unit) ScanEnv" where
  "example_scan = \<lparr>se_checked_add = (\<lambda>t d. Some (t + d)), se_trunc_hour = (\<lambda>t. Some (t div 3600 * 3600)), se_zero = 0,
     se_format_local = (\<lambda>_ _. []), se_parse_tz = (\<lambda>_. None), se_utc = (), se_provider_label = (\<lambda>_. None)\<rparr>"


end
