(* ===== verification/Spec2Isabelle.thy ===== *)
theory Spec2Isabelle
  imports Passive Slate Registry Settings Catalog M3u EventRules Oidc Process Reconcile EventScan
begin

text \<open>
  Verification of the media plane of iptv-relay.
\<close>

end
